(* ===== verification/Prelude.thy ===== *)
theory Prelude
  imports Main "HOL-Library.Char_ord" "HOL-Library.List_Lexorder" "HOL-Library.Product_Lexorder"
begin

text \<open>
  Shared ground of the development: the part of Python and SQLite the modelled modules use.

  \<^item> Strings are lists of characters, each character one code point in the range 0..255; the
    helpers \<open>py_strip\<close>, \<open>py_lower\<close> and \<open>py_collapse\<close> are \<open>str.strip\<close>, \<open>str.lower\<close> and
    \<open>" ".join(s.split())\<close> on that range.
  \<^item> A timestamp is an instant. The code stores \<open>isoformat()\<close> of UTC datetimes, whose text order
    is the order of the instants.
  \<^item> A JSON column holds the JSON value itself: the code writes it with \<open>json.dumps\<close> and reads
    it back with \<open>json.loads\<close>. A SQL NULL is \<open>None\<close>.
  \<^item> A table is the list of its rows in rowid order; \<open>sel\<close>, \<open>upd\<close>, \<open>del\<close> are \<open>SELECT\<close> of one
    row, \<open>UPDATE ... WHERE\<close> and \<open>DELETE ... WHERE\<close>.
  \<^item> An operation takes the database and returns the exception or the value together with the
    database it leaves behind, so a rolled back or partly committed error path is visible.
  The two locales at the end are the interfaces several stores share.
\<close>

section \<open>Collections of rules\<close>

named_theorems tbl "lookups in updated tables"
named_theorems op_defs "defining equations of the operations of a store"

section \<open>Results of operations\<close>

type_synonym ('db, 'e, 'a) oper = "'db \<Rightarrow> ('e + 'a) \<times> 'db"

abbreviation ok :: "'a \<Rightarrow> 'db \<Rightarrow> ('e + 'a) \<times> 'db" where
  "ok x db \<equiv> (Inr x, db)"

abbreviation raises :: "'e \<Rightarrow> 'db \<Rightarrow> ('e + 'a) \<times> 'db" where
  "raises e db \<equiv> (Inl e, db)"

definition is_ok :: "('e + 'a) \<times> 'db \<Rightarrow> bool" where
  "is_ok r = (case fst r of Inl _ \<Rightarrow> False | Inr _ \<Rightarrow> True)"

lemma is_ok_simps [simp]: "is_ok (ok x db)" "\<not> is_ok (raises e db)"
  by (simp_all add: is_ok_def)

text \<open>A validated argument: the validator's exception leaves the database alone.\<close>

definition checked :: "'e + 'x \<Rightarrow> ('x \<Rightarrow> ('db, 'e, 'a) oper) \<Rightarrow> ('db, 'e, 'a) oper" where
  "checked v f db = (case v of Inl e \<Rightarrow> raises e db | Inr x \<Rightarrow> f x db)"

lemma checked_simps [simp]:
  "checked (Inl e) f db = raises e db" "checked (Inr x) f db = f x db"
  by (simp_all add: checked_def)

lemma checked_cases:
  assumes "checked v f db = (x, db')"
  obtains (bad) e where "v = Inl e" "x = Inl e" "db' = db"
  | (good) y where "v = Inr y" "f y db = (x, db')"
  using assms by (cases v) auto

lemma paired: "fst p = x \<Longrightarrow> p = (x, snd p)"
  by (cases p) simp

section \<open>Timestamps\<close>

datatype timestamp = At nat

instantiation timestamp :: linorder
begin

fun less_eq_timestamp :: "timestamp \<Rightarrow> timestamp \<Rightarrow> bool" where
  "less_eq_timestamp (At a) (At b) = (a \<le> b)"

definition less_timestamp :: "timestamp \<Rightarrow> timestamp \<Rightarrow> bool" where
  "less_timestamp a b = (a \<le> b \<and> \<not> b \<le> (a :: timestamp))"

instance
proof
  fix x y z :: timestamp
  show "x < y \<longleftrightarrow> x \<le> y \<and> \<not> y \<le> x" by (simp add: less_timestamp_def)
  show "x \<le> x" by (cases x) simp
  show "x \<le> y \<Longrightarrow> y \<le> z \<Longrightarrow> x \<le> z" by (cases x; cases y; cases z) simp
  show "x \<le> y \<Longrightarrow> y \<le> x \<Longrightarrow> x = y" by (cases x; cases y) simp
  show "x \<le> y \<or> y \<le> x" by (cases x; cases y) auto
qed

end

lemma less_timestamp_At [simp]: "At a < At b \<longleftrightarrow> a < b"
  by (auto simp: less_timestamp_def)

text \<open>\<open>t + timedelta(seconds=s)\<close> for \<open>s \<ge> 0\<close>; instants are counted in seconds.\<close>

fun plus_seconds :: "timestamp \<Rightarrow> int \<Rightarrow> timestamp" where
  "plus_seconds (At n) s = At (n + nat s)"

section \<open>JSON values\<close>

datatype json =
    JNull
  | JBool bool
  | JInt int
  | JFloat string
  | JStr string
  | JArr "json list"
  | JObj "(string \<times> json) list"

fun is_obj :: "json \<Rightarrow> bool" where
  "is_obj (JObj _) = True"
| "is_obj _ = False"

section \<open>Python strings\<close>

definition py_isspace :: "char \<Rightarrow> bool" where
  "py_isspace c = (let n = of_char c :: nat in
     9 \<le> n \<and> n \<le> 13 \<or> 28 \<le> n \<and> n \<le> 32 \<or> n = 133 \<or> n = 160)"

definition py_strip :: "string \<Rightarrow> string" where
  "py_strip s = rev (dropWhile py_isspace (rev (dropWhile py_isspace s)))"

fun py_split_aux :: "string \<Rightarrow> string \<Rightarrow> string list" where
  "py_split_aux [] acc = (if acc = [] then [] else [rev acc])"
| "py_split_aux (c # cs) acc =
     (if py_isspace c
      then (if acc = [] then [] else [rev acc]) @ py_split_aux cs []
      else py_split_aux cs (c # acc))"

fun join_with :: "string \<Rightarrow> string list \<Rightarrow> string" where
  "join_with sep [] = []"
| "join_with sep [x] = x"
| "join_with sep (x # y # ys) = x @ sep @ join_with sep (y # ys)"

definition py_collapse :: "string \<Rightarrow> string" where
  "py_collapse s = join_with '' '' (py_split_aux s [])"

definition py_lower_char :: "char \<Rightarrow> char" where
  "py_lower_char c = (let n = of_char c :: nat in
     if 65 \<le> n \<and> n \<le> 90 \<or> 192 \<le> n \<and> n \<le> 214 \<or> 216 \<le> n \<and> n \<le> 222
     then char_of (n + 32) else c)"

definition py_lower :: "string \<Rightarrow> string" where
  "py_lower = map py_lower_char"

definition has_control :: "string \<Rightarrow> bool" where
  "has_control s = list_ex (\<lambda>c. (of_char c :: nat) < 32) s"

definition py_tail :: "nat \<Rightarrow> 'a list \<Rightarrow> 'a list" where
  "py_tail n xs = drop (length xs - n) xs"

text \<open>\<open>py_tail n xs\<close> is the slice \<open>xs[-n:]\<close> for \<open>n > 0\<close>.\<close>

lemma length_py_tail [simp]: "length (py_tail n xs) = min n (length xs)"
  by (simp add: py_tail_def)

lemma py_tail_all [simp]: "length xs \<le> n \<Longrightarrow> py_tail n xs = xs"
  by (simp add: py_tail_def)

lemma set_py_tail_subset: "set (py_tail n xs) \<subseteq> set xs"
  by (simp add: py_tail_def set_drop_subset)

lemma distinct_py_tail [simp, intro]: "distinct xs \<Longrightarrow> distinct (py_tail n xs)"
  by (simp add: py_tail_def)

lemma last_in_py_tail: "0 < n \<Longrightarrow> x \<in> set (py_tail n (xs @ [x]))"
proof -
  assume "0 < n"
  then have "length xs + 1 - n \<le> length xs" by simp
  then have "drop (length xs + 1 - n) (xs @ [x]) = drop (length xs + 1 - n) xs @ [x]" by simp
  then show ?thesis by (simp add: py_tail_def)
qed

text \<open>The text of an integer, and \<open>p in s\<close> on strings.\<close>

fun str_nat :: "nat \<Rightarrow> string" where
  "str_nat n = (if n < 10 then [char_of (48 + n)] else str_nat (n div 10) @ [char_of (48 + n mod 10)])"

declare str_nat.simps [simp del]

definition str_int :: "int \<Rightarrow> string" where
  "str_int i = (if i < 0 then CHR ''-'' # str_nat (nat (- i)) else str_nat (nat i))"

fun py_prefix :: "string \<Rightarrow> string \<Rightarrow> bool" where
  "py_prefix [] s = True"
| "py_prefix (c # p) [] = False"
| "py_prefix (c # p) (d # s) = (c = d \<and> py_prefix p s)"

fun py_in :: "string \<Rightarrow> string \<Rightarrow> bool" where
  "py_in p [] = (p = [])"
| "py_in p (c # s) = (py_prefix p (c # s) \<or> py_in p s)"

lemma py_prefix_iff: "py_prefix p s \<longleftrightarrow> (\<exists>u. s = p @ u)"
  by (induction p s rule: py_prefix.induct) auto

lemma py_in_iff: "py_in p s \<longleftrightarrow> (\<exists>u v. s = u @ p @ v)"
proof (induction s)
  case (Cons c s)
  have "(\<exists>u v. c # s = u @ p @ v) \<longleftrightarrow> (\<exists>v. c # s = p @ v) \<or> (\<exists>u v. s = u @ p @ v)"
  proof
    assume "\<exists>u v. c # s = u @ p @ v"
    then obtain u v where "c # s = u @ p @ v" by blast
    then show "(\<exists>v. c # s = p @ v) \<or> (\<exists>u v. s = u @ p @ v)" by (cases u) auto
  next
    assume "(\<exists>v. c # s = p @ v) \<or> (\<exists>u v. s = u @ p @ v)"
    then show "\<exists>u v. c # s = u @ p @ v" by (metis append_Cons append_Nil)
  qed
  with Cons show ?case by (simp add: py_prefix_iff)
qed auto

lemma dropWhile_idem_last: "dropWhile P (dropWhile P xs) = dropWhile P xs"
  by (induction xs) auto

lemma hd_dropWhile_strip: "py_strip s \<noteq> [] \<Longrightarrow> \<not> py_isspace (last (py_strip s))"
  by (simp add: py_strip_def last_rev hd_dropWhile)

lemma length_py_strip: "length (py_strip s) \<le> length s"
proof -
  have "length (py_strip s) \<le> length (dropWhile py_isspace s)"
    unfolding py_strip_def length_rev by (metis length_dropWhile_le length_rev)
  also have "\<dots> \<le> length s" by (rule length_dropWhile_le)
  finally show ?thesis .
qed

lemma dropWhile_tail_keep:
  assumes "dropWhile P xs = xs"
  shows "dropWhile P (rev (dropWhile P (rev xs))) = rev (dropWhile P (rev xs))"
proof (cases xs)
  case (Cons a ys)
  with assms have a: "\<not> P a" by (metis dropWhile_eq_self_iff list.distinct(1) list.sel(1))
  have "dropWhile P (rev xs) = dropWhile P (rev ys) @ [a]"
    using Cons a by (simp add: dropWhile_append)
  then show ?thesis using a by simp
qed simp

lemma py_strip_idem [simp]: "py_strip (py_strip s) = py_strip s"
proof -
  have "dropWhile py_isspace (py_strip s) = py_strip s"
    unfolding py_strip_def by (rule dropWhile_tail_keep) (rule dropWhile_idem_last)
  then show ?thesis
    by (simp add: py_strip_def [of "py_strip s"]) (simp add: py_strip_def dropWhile_idem_last)
qed

lemma strip_no_space: "list_all (\<lambda>c. \<not> py_isspace c) s \<Longrightarrow> py_strip s = s"
proof -
  assume s: "list_all (\<lambda>c. \<not> py_isspace c) s"
  have d: "dropWhile py_isspace x = x" if "\<forall>c \<in> set x. \<not> py_isspace c" for x using that by (cases x) auto
  show ?thesis using s d [of s] d [of "rev s"] by (simp add: py_strip_def list_all_iff)
qed

section \<open>Tables\<close>

definition sel :: "('r \<Rightarrow> bool) \<Rightarrow> 'r list \<Rightarrow> 'r option" where
  "sel P t = find P t"

definition upd :: "('r \<Rightarrow> bool) \<Rightarrow> ('r \<Rightarrow> 'r) \<Rightarrow> 'r list \<Rightarrow> 'r list" where
  "upd P f t = map (\<lambda>r. if P r then f r else r) t"

definition del :: "('r \<Rightarrow> bool) \<Rightarrow> 'r list \<Rightarrow> 'r list" where
  "del P t = filter (\<lambda>r. \<not> P r) t"

text \<open>\<open>ORDER BY k DESC LIMIT 1\<close>: the row with the greatest key.\<close>

fun top_by :: "('r \<Rightarrow> 'k :: linorder) \<Rightarrow> 'r list \<Rightarrow> 'r option" where
  "top_by k [] = None"
| "top_by k (r # rs) = (case top_by k rs of
     None \<Rightarrow> Some r | Some s \<Rightarrow> Some (if k s \<le> k r then r else s))"

lemma sel_None [tbl]: "sel P t = None \<longleftrightarrow> (\<forall>r \<in> set t. \<not> P r)"
  by (auto simp: sel_def find_None_iff)

lemma sel_SomeD: "sel P t = Some r \<Longrightarrow> r \<in> set t \<and> P r"
  by (auto simp: sel_def find_Some_iff)

lemma sel_cong_ex: "(\<exists>r \<in> set t. P r) \<longleftrightarrow> (\<exists>r. sel P t = Some r)"
  by (metis not_None_eq sel_None)

lemma sel_simps [simp]:
  "sel P [] = None"
  "sel P (r # rs) = (if P r then Some r else sel P rs)"
  by (simp_all add: sel_def)

lemma sel_append [tbl]:
  "sel P (t @ u) = (case sel P t of None \<Rightarrow> sel P u | Some r \<Rightarrow> Some r)"
  by (induction t) auto

lemma upd_simps [simp]:
  "upd P f [] = []"
  "upd P f (r # rs) = (if P r then f r else r) # upd P f rs"
  by (simp_all add: upd_def)

lemma length_upd [simp]: "length (upd P f t) = length t"
  by (simp add: upd_def)

lemma upd_append [simp]: "upd P f (t @ u) = upd P f t @ upd P f u"
  by (simp add: upd_def)

lemma map_upd [tbl]: "(\<And>r. P r \<Longrightarrow> g (f r) = g r) \<Longrightarrow> map g (upd P f t) = map g t"
  by (induction t) auto

lemma sel_upd [tbl]:
  assumes "\<And>r. P r \<Longrightarrow> Q (f r) = Q r"
  shows "sel Q (upd P f t) = map_option (\<lambda>r. if P r then f r else r) (sel Q t)"
  using assms by (induction t) auto

lemma sel_upd_other [tbl]:
  assumes "\<And>r. P r \<Longrightarrow> \<not> Q r" "\<And>r. P r \<Longrightarrow> \<not> Q (f r)"
  shows "sel Q (upd P f t) = sel Q t"
  using assms by (induction t) auto

lemma set_upd: "set (upd P f t) = (\<lambda>r. if P r then f r else r) ` set t"
  by (simp add: upd_def)

lemma upd_memD: "r' \<in> set (upd P f t) \<Longrightarrow> \<exists>r \<in> set t. r' = (if P r then f r else r)"
  by (auto simp: set_upd)

lemma upd_none: "(\<And>r. r \<in> set t \<Longrightarrow> \<not> P r) \<Longrightarrow> upd P f t = t"
  by (induction t) auto

lemma sel_del_same [tbl]: "sel P (del P t) = None"
  by (auto simp: del_def sel_None)

lemma sel_del_other [tbl]: "(\<And>r. P r \<Longrightarrow> \<not> Q r) \<Longrightarrow> sel Q (del P t) = sel Q t"
  by (induction t) (auto simp: del_def)

lemma set_del [simp]: "set (del P t) = {r \<in> set t. \<not> P r}"
  by (auto simp: del_def)

lemma distinct_map_del [simp, intro]: "distinct (map g t) \<Longrightarrow> distinct (map g (del P t))"
  by (simp add: del_def distinct_map_filter)

lemma sel_unique:
  assumes "distinct (map g t)" "r \<in> set t" "P r" "\<And>s. P s \<Longrightarrow> g s = g r"
  shows "sel P t = Some r"
proof -
  obtain s where s: "sel P t = Some s" using assms(2,3) sel_cong_ex by metis
  then have "s \<in> set t" "P s" using sel_SomeD by metis+
  then have "s = r" using assms by (metis inj_onD distinct_map)
  with s show ?thesis by simp
qed

lemma distinct_key_eq:
  "distinct (map g t) \<Longrightarrow> r \<in> set t \<Longrightarrow> s \<in> set t \<Longrightarrow> g r = g s \<Longrightarrow> r = s"
  by (meson distinct_map inj_onD)

lemma filter_unique:
  assumes "distinct (map g xs)" "a \<in> set xs" "P a" "\<And>b. P b \<Longrightarrow> g b = g a"
  shows "filter P xs = [a]"
  using assms(1,2)
proof (induction xs)
  case (Cons x xs)
  show ?case
  proof (cases "x = a")
    case True
    then have "\<not> P b" if "b \<in> set xs" for b
      using Cons.prems(1) assms(4) [of b] that by (metis distinct.simps(2) image_eqI list.set_map list.simps(9))
    with True assms(3) show ?thesis by (simp add: filter_empty_conv)
  next
    case False
    then have "a \<in> set xs" using Cons.prems by simp
    moreover from this have "\<not> P x"
      using Cons.prems(1) assms(4) [of x] by (metis distinct.simps(2) image_eqI list.set_map list.simps(9))
    ultimately show ?thesis using Cons by simp
  qed
qed simp

lemma filter_keyed:
  assumes "distinct (map g t)" "\<And>x y. P x \<Longrightarrow> P y \<Longrightarrow> g x = g y"
  shows "length (filter P t) = 1 \<longleftrightarrow> (\<exists>r \<in> set t. P r)"
proof
  assume "length (filter P t) = 1"
  then have "filter P t \<noteq> []" by auto
  then show "\<exists>r \<in> set t. P r" by (auto simp: filter_empty_conv)
next
  assume "\<exists>r \<in> set t. P r"
  then obtain r where r: "r \<in> set t" "P r" by blast
  have "filter P t = [r]" by (rule filter_unique [where P = P, OF assms(1) r]) (use assms(2) r(2) in blast)
  then show "length (filter P t) = 1" by simp
qed

lemma bex_upd: "(\<exists>r \<in> set (upd P f t). Q r) \<longleftrightarrow> (\<exists>r \<in> set t. Q (if P r then f r else r))"
  unfolding set_upd by blast

lemma filter_mem_one: "length (filter P xs) = 1 \<Longrightarrow> \<exists>x \<in> set xs. P x"
  by (cases "filter P xs") (auto simp: filter_eq_Cons_iff)

lemma top_by_None [simp]: "top_by k t = None \<longleftrightarrow> t = []"
  by (cases t) (auto split: option.splits)

lemma top_by_mem: "top_by k t = Some r \<Longrightarrow> r \<in> set t"
  by (induction t arbitrary: r) (auto split: option.splits if_splits)

lemma top_by_ge: "top_by k t = Some r \<Longrightarrow> s \<in> set t \<Longrightarrow> k s \<le> k r"
proof (induction t arbitrary: r)
  case (Cons a t)
  show ?case
  proof (cases "top_by k t")
    case None
    with Cons.prems show ?thesis by simp
  next
    case (Some b)
    have "s \<in> set t \<Longrightarrow> k s \<le> k b" using Cons.IH [OF Some] .
    with Some Cons.prems show ?thesis by (auto split: if_splits)
  qed
qed simp

section \<open>Reachable states\<close>

inductive reachable :: "('s \<Rightarrow> bool) \<Rightarrow> ('s \<Rightarrow> 's \<Rightarrow> bool) \<Rightarrow> 's \<Rightarrow> bool"
  for init :: "'s \<Rightarrow> bool" and step :: "'s \<Rightarrow> 's \<Rightarrow> bool" where
  reach_init: "init s \<Longrightarrow> reachable init step s"
| reach_step: "reachable init step s \<Longrightarrow> step s s' \<Longrightarrow> reachable init step s'"

text \<open>An invariant of a transition system: it holds initially and every step keeps it.\<close>

locale invariant_system =
  fixes init :: "'s \<Rightarrow> bool"
    and step :: "'s \<Rightarrow> 's \<Rightarrow> bool"
    and inv :: "'s \<Rightarrow> bool"
  assumes inv_init: "init s \<Longrightarrow> inv s"
    and inv_step: "inv s \<Longrightarrow> step s s' \<Longrightarrow> inv s'"
begin

lemma reachable_inv: "reachable init step s \<Longrightarrow> inv s"
  by (induction rule: reachable.induct) (auto intro: inv_init inv_step)

lemma steps_inv: "inv s \<Longrightarrow> step\<^sup>*\<^sup>* s s' \<Longrightarrow> inv s'"
  by (rotate_tac, induction rule: rtranclp_induct) (auto intro: inv_step)

end

section \<open>Stores driven by calls\<close>

text \<open>
  The calls a store receives in some order, with the result of each. A store whose every call
  keeps an invariant is a transition system with that invariant.
\<close>

fun run_calls :: "('c \<Rightarrow> 'db \<Rightarrow> 'x \<times> 'db) \<Rightarrow> 'c list \<Rightarrow> 'db \<Rightarrow> ('c \<times> 'x) list \<times> 'db" where
  "run_calls exec [] db = ([], db)"
| "run_calls exec (c # cs) db =
     (let r = exec c db; s = run_calls exec cs (snd r) in ((c, fst r) # fst s, snd s))"

definition call_step :: "('c \<Rightarrow> 'db \<Rightarrow> 'x \<times> 'db) \<Rightarrow> 'db \<Rightarrow> 'db \<Rightarrow> bool" where
  "call_step exec db db' = (\<exists>c. db' = snd (exec c db))"

lemma run_calls_keep:
  assumes "\<And>c db. P db \<Longrightarrow> P (snd (exec c db))" "P db"
  shows "P (snd (run_calls exec cs db))"
  using assms(2) by (induction cs arbitrary: db) (auto simp: Let_def intro: assms(1))

lemma run_calls_steps: "(call_step exec)\<^sup>*\<^sup>* db (snd (run_calls exec cs db))"
proof (induction cs arbitrary: db)
  case (Cons c cs)
  have "call_step exec db (snd (exec c db))" by (auto simp: call_step_def)
  then show ?case using Cons.IH by (simp add: Let_def converse_rtranclp_into_rtranclp)
qed simp

locale call_system =
  fixes exec :: "'c \<Rightarrow> 'db \<Rightarrow> 'x \<times> 'db"
    and start :: 'db
    and inv :: "'db \<Rightarrow> bool"
  assumes inv_start: "inv start"
    and inv_exec: "inv db \<Longrightarrow> inv (snd (exec c db))"
begin

lemma run_inv: "inv db \<Longrightarrow> inv (snd (run_calls exec cs db))"
  by (rule run_calls_keep) (rule inv_exec)

lemma run_start_inv: "inv (snd (run_calls exec cs start))"
  by (rule run_inv) (rule inv_start)

end

sublocale call_system \<subseteq> steps: invariant_system "\<lambda>db. db = start" "call_step exec" inv
  by unfold_locales (auto simp: inv_start inv_exec call_step_def)

text \<open>
  A store that implements another one, as long as what it relies on is to be trusted: every call gives
  the same result on the abstraction, whose next state is the abstraction of the next state.
\<close>

locale refined_store = call_system exec start inv
  for exec :: "'c \<Rightarrow> 'db \<Rightarrow> 'x \<times> 'db" and start :: 'db and inv :: "'db \<Rightarrow> bool" +
  fixes spec :: "'c \<Rightarrow> 'a \<Rightarrow> 'x \<times> 'a"
    and abs :: "'db \<Rightarrow> 'a"
    and trusted :: bool
  assumes refines: "trusted \<Longrightarrow> inv db \<Longrightarrow> map_prod id abs (exec c db) = spec c (abs db)"
begin

lemma run_refines:
  assumes "trusted"
  shows "inv db \<Longrightarrow> map_prod id abs (run_calls exec cs db) = run_calls spec cs (abs db)"
proof (induction cs arbitrary: db)
  case (Cons c cs)
  have "spec c (abs db) = (fst (exec c db), abs (snd (exec c db)))" using refines [OF assms Cons.prems, of c] by (cases "exec c db") simp
  moreover have "run_calls spec cs (abs (snd (exec c db))) = (fst (run_calls exec cs (snd (exec c db))), abs (snd (run_calls exec cs (snd (exec c db)))))"
    using Cons.IH [OF inv_exec [OF Cons.prems, of c]] by (cases "run_calls exec cs (snd (exec c db))") simp
  ultimately show ?case by (simp add: Let_def)
qed simp

text \<open>A property of the abstract states that the specification keeps holds of the abstraction of every state.\<close>

lemma run_keeps:
  assumes "trusted" "inv db" "\<And>c a. P a \<Longrightarrow> P (snd (spec c a))" "P (abs db)"
  shows "P (abs (snd (run_calls exec cs db)))"
proof -
  have "P (snd (run_calls spec cs (abs db)))" using assms(3,4) by (rule run_calls_keep)
  then show ?thesis unfolding run_refines [OF assms(1,2), symmetric] by simp
qed

end

section \<open>Insert once under a key\<close>

text \<open>
  Jobs, owner notifications and source activations are all created the same way: a request
  carries a tenant-scoped key and a fingerprint; the first request inserts the row, a repetition
  with the same fingerprint returns the stored row, a repetition with another one is refused.
  \<open>sched\<close> is any interleaving of such requests with the other operations of the store, with the
  list of the requests and their results.
\<close>

inductive sched :: "('req \<Rightarrow> ('db, 'e, 'row \<times> bool) oper) \<Rightarrow> ('db \<Rightarrow> 'db \<Rightarrow> bool) \<Rightarrow>
    'db \<Rightarrow> ('req \<times> ('e + 'row \<times> bool)) list \<Rightarrow> 'db \<Rightarrow> bool"
  for create :: "'req \<Rightarrow> ('db, 'e, 'row \<times> bool) oper"
  and other :: "'db \<Rightarrow> 'db \<Rightarrow> bool" where
  sched_nil: "sched create other db [] db"
| sched_create: "sched create other db tr db1 \<Longrightarrow> create r db1 = (x, db2) \<Longrightarrow>
     sched create other db (tr @ [(r, x)]) db2"
| sched_other: "sched create other db tr db1 \<Longrightarrow> other db1 db2 \<Longrightarrow> sched create other db tr db2"

definition is_created :: "'e + 'row \<times> bool \<Rightarrow> bool" where
  "is_created x = (case x of Inl _ \<Rightarrow> False | Inr (_, b) \<Rightarrow> b)"

definition created_for :: "('req \<Rightarrow> 'k) \<Rightarrow> 'k \<Rightarrow> ('req \<times> ('e + 'row \<times> bool)) list \<Rightarrow> nat" where
  "created_for key_of k tr = length (filter (\<lambda>(r, x). key_of r = k \<and> is_created x) tr)"

lemma is_created_simps [simp]:
  "\<not> is_created (Inl e)" "is_created (Inr (r, b)) = b"
  by (simp_all add: is_created_def)

lemma created_for_simps [simp]:
  "created_for f k [] = 0"
  "created_for f k (tr @ [(r, x)]) = created_for f k tr + (if f r = k \<and> is_created x then 1 else 0)"
  by (simp_all add: created_for_def)

locale insert_once =
  fixes lookup :: "'db \<Rightarrow> 'k \<Rightarrow> 'row option"
    and fingerprint :: "'row \<Rightarrow> 'h"
    and view :: "'row \<Rightarrow> 'v"
    and key_of :: "'req \<Rightarrow> 'k"
    and hash_of :: "'req \<Rightarrow> 'h"
    and create :: "'req \<Rightarrow> ('db, 'e, 'v \<times> bool) oper"
    and other :: "'db \<Rightarrow> 'db \<Rightarrow> bool"
  assumes replayed: "create r db = (Inr (v, False), db') \<Longrightarrow>
      db' = db \<and> (\<exists>row. lookup db (key_of r) = Some row \<and> view row = v \<and> fingerprint row = hash_of r)"
    and created: "create r db = (Inr (v, True), db') \<Longrightarrow> lookup db (key_of r) = None \<and>
      (\<exists>row. lookup db' (key_of r) = Some row \<and> view row = v \<and> fingerprint row = hash_of r)"
    and created_frame: "create r db = (Inr (v, True), db') \<Longrightarrow> k \<noteq> key_of r \<Longrightarrow>
      lookup db' k = lookup db k"
    and refused: "create r db = (Inl e, db') \<Longrightarrow> db' = db"
    and replays: "create r db0 = (Inr x, db1) \<Longrightarrow> lookup db (key_of r) = Some row \<Longrightarrow>
      fingerprint row = hash_of r \<Longrightarrow> create r db = (Inr (view row, False), db)"
    and other_keeps: "other db db' \<Longrightarrow>
      map_option fingerprint (lookup db' k) = map_option fingerprint (lookup db k)"
begin

lemma create_twice:
  assumes "create r db = (Inr (v, b), db1)"
  shows "create r db1 = (Inr (v, False), db1)"
proof (cases b)
  case True
  with assms have "create r db = (Inr (v, True), db1)" by simp
  from created [OF this] obtain row where
    row: "lookup db1 (key_of r) = Some row" "view row = v" "fingerprint row = hash_of r" by blast
  from replays [OF assms row(1,3)] row(2) show ?thesis by simp
next
  case False
  with assms have c: "create r db = (Inr (v, False), db1)" by simp
  from replayed [OF this] c show ?thesis by simp
qed

lemma conflict_refused:
  assumes "lookup db (key_of r) = Some row" "fingerprint row \<noteq> hash_of r"
  shows "\<exists>e. create r db = (Inl e, db)"
proof -
  obtain x db' where c: "create r db = (x, db')" by fastforce
  show ?thesis
  proof (cases x)
    case (Inl e)
    with c refused show ?thesis by blast
  next
    case (Inr y)
    then obtain row' b where "x = Inr (row', b)" by (cases y) auto
    with c assms show ?thesis by (cases b) (use created replayed in fastforce)+
  qed
qed

lemma create_keeps:
  assumes "create r db = (x, db')" "lookup db k = Some row"
  shows "lookup db' k = Some row"
proof (cases "is_created x")
  case True
  then obtain v where x: "x = Inr (v, True)"
    by (cases x) (auto simp: is_created_def)
  with assms created have "k \<noteq> key_of r" by force
  with assms x created_frame show ?thesis by metis
next
  case False
  with assms have "db' = db"
    by (cases x) (use refused replayed in \<open>fastforce simp: is_created_def split: prod.splits\<close>)+
  with assms show ?thesis by simp
qed

lemma sched_count:
  assumes "sched create other db tr db'"
  shows "created_for key_of k tr \<le> 1 \<and>
    (created_for key_of k tr = 1 \<or> lookup db k \<noteq> None \<longrightarrow> lookup db' k \<noteq> None)"
  using assms
proof (induction rule: sched.induct)
  case (sched_create db tr db1 r x db2)
  show ?case
  proof (cases "key_of r = k \<and> is_created x")
    case True
    then obtain v where "x = Inr (v, True)" by (cases x) (auto simp: is_created_def)
    with sched_create True have "create r db1 = (Inr (v, True), db2)" by simp
    from created [OF this] True have "lookup db1 k = None" "lookup db2 k \<noteq> None" by auto
    with sched_create.IH show ?thesis by (auto; linarith)
  next
    case False
    with sched_create show ?thesis using create_keeps by fastforce
  qed
next
  case (sched_other db tr db1 db2)
  then have "lookup db1 k \<noteq> None \<Longrightarrow> lookup db2 k \<noteq> None"
    using other_keeps [OF sched_other.hyps(2), of k] by auto
  with sched_other.IH show ?case by blast
qed simp

lemma at_most_one_creation: "sched create other db tr db' \<Longrightarrow> created_for key_of k tr \<le> 1"
  using sched_count by blast

lemma sched_fingerprint:
  assumes "sched create other db tr db'" "(r, Inr (v, b)) \<in> set tr"
  shows "map_option fingerprint (lookup db' (key_of r)) = Some (hash_of r)"
  using assms
proof (induction rule: sched.induct)
  case (sched_create db tr db1 r' x db2)
  show ?case
  proof (cases "(r, Inr (v, b)) \<in> set tr")
    case True
    with sched_create obtain row' where "lookup db1 (key_of r) = Some row'"
      "fingerprint row' = hash_of r" by auto
    with create_keeps [OF sched_create.hyps(2)] show ?thesis by simp
  next
    case False
    with sched_create.prems have "r' = r" "x = Inr (v, b)" by auto
    with sched_create.hyps(2) show ?thesis
      by (cases b) (use created replayed in fastforce)+
  qed
next
  case (sched_other db tr db1 db2)
  then show ?case using other_keeps by metis
qed simp

lemma one_request_per_key:
  assumes "sched create other db tr db'" "(r, Inr x) \<in> set tr" "(r', Inr x') \<in> set tr"
    "key_of r = key_of r'"
  shows "hash_of r = hash_of r'"
  using sched_fingerprint [OF assms(1)] assms(2-4) by (cases x; cases x') fastforce

end

end
