(* ===== verification/Idempotency.thy ===== *)
theory Idempotency
  imports Prelude
begin

text \<open>
  \<^verbatim>\<open>persistence/idempotency.py\<close>: the store that claims an effect key before a provider is called
  and replays the committed result. The tables \<open>external_effects\<close> and
  \<open>external_effect_reconciliations\<close> are the two fields of \<open>effects_db\<close>; every method of
  \<open>IdempotencyStore\<close> is one definition. The digest of a canonical JSON text (SHA-256) is the
  parameter \<open>dg\<close>; the provider call of \<open>execute\<close> is a function on an arbitrary world state, so a
  theorem can say that it was not called.
\<close>

section \<open>Data\<close>

datatype effect_error =
    IdempotencyConflictError string
  | IdempotencyPendingError string
  | EffectValueError string
  | EffectLookupError string

datatype effect_status = Pending | Completed | Failed

record effect_row =
  er_tenant :: string
  er_key :: string
  er_operation :: string
  er_hash :: string
  er_status :: effect_status
  er_result :: "json option"
  er_created_at :: timestamp
  er_updated_at :: timestamp

record reconciliation_row =
  rr_id :: nat
  rr_tenant :: string
  rr_key :: string
  rr_decision :: string
  rr_actor :: string
  rr_reason :: string
  rr_created_at :: timestamp

record effects_db =
  external_effects :: "effect_row list"
  reconciliations :: "reconciliation_row list"

record idempotency_claim =
  claim_created :: bool
  claim_result :: "json option"

definition empty_effects_db :: effects_db where
  "empty_effects_db = \<lparr>external_effects = [], reconciliations = []\<rparr>"

definition effect_at :: "string \<Rightarrow> string \<Rightarrow> effect_row \<Rightarrow> bool" where
  "effect_at t k r = (er_tenant r = t \<and> er_key r = k)"

definition effect_of :: "effects_db \<Rightarrow> string \<Rightarrow> string \<Rightarrow> effect_row option" where
  "effect_of db t k = sel (effect_at t k) (external_effects db)"

section \<open>Operations\<close>

definition required :: "string \<Rightarrow> string \<Rightarrow> effect_error + string" where
  "required value field = (let safe = py_strip value in
     if safe = [] then Inl (EffectValueError (field @ '' is required''))
     else if 300 < length safe then Inl (EffectValueError (field @ '' is too long''))
     else Inr safe)"

definition request_hash :: "(json \<Rightarrow> string) \<Rightarrow> string \<Rightarrow> json \<Rightarrow> string" where
  "request_hash dg operation arguments =
     dg (JObj [(''arguments'', arguments), (''operation'', JStr operation)])"

definition claim :: "(json \<Rightarrow> string) \<Rightarrow> timestamp \<Rightarrow> string \<Rightarrow> string \<Rightarrow> string \<Rightarrow> json \<Rightarrow>
    (effects_db, effect_error, idempotency_claim) oper" where
  "claim dg now tenant_id idempotency_key operation arguments =
    checked (required tenant_id ''tenant_id'') (\<lambda>tenant.
    checked (required idempotency_key ''idempotency_key'') (\<lambda>key.
    checked (required operation ''operation'') (\<lambda>safe_operation db.
      let digest = request_hash dg safe_operation arguments in
      case sel (effect_at tenant key) (external_effects db) of
        None \<Rightarrow>
          ok \<lparr>claim_created = True, claim_result = None\<rparr>
             (db\<lparr>external_effects := external_effects db @
                [\<lparr>er_tenant = tenant, er_key = key, er_operation = safe_operation,
                  er_hash = digest, er_status = Pending, er_result = None,
                  er_created_at = now, er_updated_at = now\<rparr>]\<rparr>)
      | Some row \<Rightarrow>
          if er_operation row \<noteq> safe_operation \<or> er_hash row \<noteq> digest
          then raises (IdempotencyConflictError
            ''idempotency key was already used for a different request'') db
          else (case er_status row of
            Pending \<Rightarrow> raises (IdempotencyPendingError
              ''the external effect is pending or its outcome is indeterminate'') db
          | Failed \<Rightarrow> raises (IdempotencyConflictError
              ''the previous external effect attempt failed; use a new idempotency key'') db
          | Completed \<Rightarrow>
              (let result = (case er_result row of None \<Rightarrow> JObj [] | Some v \<Rightarrow> v) in
               ok \<lparr>claim_created = False,
                   claim_result = Some (if is_obj result then result else JObj [])\<rparr> db)))))"

definition finish :: "timestamp \<Rightarrow> string \<Rightarrow> string \<Rightarrow> effect_status \<Rightarrow> json \<Rightarrow>
    (effects_db, effect_error, unit) oper" where
  "finish now tenant_id idempotency_key status result =
    checked (required tenant_id ''tenant_id'') (\<lambda>tenant.
    checked (required idempotency_key ''idempotency_key'') (\<lambda>key db.
      let P = (\<lambda>r. effect_at tenant key r \<and> er_status r = Pending) in
      if length (filter P (external_effects db)) \<noteq> 1
      then raises (IdempotencyConflictError ''idempotency claim is not pending'') db
      else ok () (db\<lparr>external_effects :=
             upd P (\<lambda>r. r\<lparr>er_status := status, er_result := Some result, er_updated_at := now\<rparr>)
               (external_effects db)\<rparr>)))"

definition complete :: "timestamp \<Rightarrow> string \<Rightarrow> string \<Rightarrow> json \<Rightarrow> (effects_db, effect_error, unit) oper" where
  "complete now tenant_id idempotency_key result =
     finish now tenant_id idempotency_key Completed result"

definition fail :: "timestamp \<Rightarrow> string \<Rightarrow> string \<Rightarrow> string \<Rightarrow> (effects_db, effect_error, unit) oper" where
  "fail now tenant_id idempotency_key code =
     finish now tenant_id idempotency_key Failed
       (JObj [(''error'', JObj [(''code'',
          JStr (take 100 (if code = [] then ''external_effect_failed'' else code)))])])"

definition reconciled :: "string \<Rightarrow> json option \<Rightarrow> timestamp \<Rightarrow> effect_row \<Rightarrow> effect_row" where
  "reconciled decision result now r =
     r\<lparr>er_status := (if decision = ''confirm_applied'' then Completed else Failed),
       er_result := Some (if decision = ''confirm_applied''
         then (case result of None \<Rightarrow> JNull | Some v \<Rightarrow> v)
         else JObj [(''error'', JObj [(''code'', JStr ''owner_rejected_effect'')])]),
       er_updated_at := now\<rparr>"

definition reconcile_apply :: "timestamp \<Rightarrow> string \<Rightarrow> string \<Rightarrow> string \<Rightarrow> string \<Rightarrow> string \<Rightarrow>
    json option \<Rightarrow> effects_db \<Rightarrow> effects_db" where
  "reconcile_apply now tenant key decision actor safe_reason result db =
     db\<lparr>external_effects :=
          (if decision = ''retry_no_effect''
           then del (effect_at tenant key) (external_effects db)
           else upd (\<lambda>r. effect_at tenant key r \<and> er_status r = Pending)
                  (reconciled decision result now) (external_effects db)),
        reconciliations := reconciliations db @
          [\<lparr>rr_id = Suc (length (reconciliations db)), rr_tenant = tenant, rr_key = key,
            rr_decision = decision, rr_actor = actor, rr_reason = safe_reason,
            rr_created_at = now\<rparr>]\<rparr>"

definition reconcile_pending :: "timestamp \<Rightarrow> string \<Rightarrow> string \<Rightarrow> string \<Rightarrow> string \<Rightarrow> string \<Rightarrow>
    json option \<Rightarrow> (effects_db, effect_error, unit) oper" where
  "reconcile_pending now tenant_id idempotency_key decision actor_id reason result =
    checked (required tenant_id ''tenant_id'') (\<lambda>tenant.
    checked (required idempotency_key ''idempotency_key'') (\<lambda>key.
    checked (required actor_id ''actor_id'') (\<lambda>actor db.
      let safe_reason = py_strip reason in
      if safe_reason = [] \<or> 2000 < length safe_reason
      then raises (EffectValueError
        ''reason is required and must not exceed 2000 characters'') db
      else if decision \<notin> {''confirm_applied'', ''retry_no_effect'', ''reject''}
      then raises (EffectValueError ''unsupported reconciliation decision'') db
      else (case sel (effect_at tenant key) (external_effects db) of
        None \<Rightarrow> raises (EffectLookupError ''idempotency claim was not found'') db
      | Some row \<Rightarrow>
          if er_status row \<noteq> Pending
          then (if decision = ''confirm_applied'' \<and> er_status row = Completed
                then ok () db
                else raises (IdempotencyConflictError ''idempotency claim is not pending'') db)
          else ok () (reconcile_apply now tenant key decision actor safe_reason result db)))))"

text \<open>
  What the awaited provider call does: it returns a JSON value, raises an \<open>Exception\<close> of the named
  class, or is interrupted by a \<open>BaseException\<close> such as cancellation, which \<open>execute\<close> does not
  catch.
\<close>

datatype outcome = Returned json | Raised string | Interrupted

datatype effect_exception = StoreError effect_error | ProviderError string | ProviderInterrupted

definition wrap_result :: "json \<Rightarrow> json" where
  "wrap_result v = (if is_obj v then v else JObj [(''value'', v)])"

definition execute :: "(json \<Rightarrow> string) \<Rightarrow> timestamp \<Rightarrow> timestamp \<Rightarrow> string \<Rightarrow> string \<Rightarrow> string \<Rightarrow> string \<Rightarrow>
    ('w \<Rightarrow> outcome \<times> 'w) \<Rightarrow> effects_db \<times> 'w \<Rightarrow>
    (effect_exception + json option) \<times> effects_db \<times> 'w" where
  "execute dg now now' tenant_id operation idempotency_key rhash invoke s =
    (case s of (db, w) \<Rightarrow>
     (case claim dg now tenant_id idempotency_key operation
             (JObj [(''request_hash'', JStr rhash)]) db of
        (Inl e, db1) \<Rightarrow> (Inl (StoreError e), db1, w)
      | (Inr c, db1) \<Rightarrow>
          if \<not> claim_created c then (Inr (claim_result c), db1, w)
          else (case invoke w of
            (Interrupted, w1) \<Rightarrow> (Inl ProviderInterrupted, db1, w1)
          | (Raised cls, w1) \<Rightarrow>
              (case fail now' tenant_id idempotency_key (py_lower cls) db1 of
                 (Inl e, db2) \<Rightarrow> (Inl (StoreError e), db2, w1)
               | (Inr _, db2) \<Rightarrow> (Inl (ProviderError cls), db2, w1))
          | (Returned v, w1) \<Rightarrow>
              (case complete now' tenant_id idempotency_key (wrap_result v) db1 of
                 (Inl e, db2) \<Rightarrow> (Inl (StoreError e), db2, w1)
               | (Inr _, db2) \<Rightarrow> (Inr (Some v), db2, w1)))))"

section \<open>Calls, runs and the invariant\<close>

datatype effect_call =
    CClaim timestamp string string string json
  | CComplete timestamp string string json
  | CFail timestamp string string string
  | CReconcile timestamp string string string string string "json option"

fun effect_exec :: "(json \<Rightarrow> string) \<Rightarrow> effect_call \<Rightarrow>
    (effects_db, effect_error, idempotency_claim option) oper" where
  "effect_exec dg (CClaim now t k op args) db = apfst (map_sum id Some) (claim dg now t k op args db)"
| "effect_exec dg (CComplete now t k v) db = apfst (map_sum id (\<lambda>_. None)) (complete now t k v db)"
| "effect_exec dg (CFail now t k c) db = apfst (map_sum id (\<lambda>_. None)) (fail now t k c db)"
| "effect_exec dg (CReconcile now t k d a r v) db =
     apfst (map_sum id (\<lambda>_. None)) (reconcile_pending now t k d a r v db)"

abbreviation effect_run :: "(json \<Rightarrow> string) \<Rightarrow> effect_call list \<Rightarrow> effects_db \<Rightarrow>
    (effect_call \<times> (effect_error + idempotency_claim option)) list \<times> effects_db" where
  "effect_run dg \<equiv> run_calls (effect_exec dg)"

text \<open>A claim that allows the provider call, and a reconciliation that gives the key back.\<close>

fun grants :: "string \<Rightarrow> string \<Rightarrow> effect_call \<times> (effect_error + idempotency_claim option) \<Rightarrow> bool" where
  "grants t k (CClaim _ t' k' _ _, Inr (Some c)) =
     (py_strip t' = t \<and> py_strip k' = k \<and> claim_created c)"
| "grants t k _ = False"

fun frees :: "string \<Rightarrow> string \<Rightarrow> effect_call \<times> (effect_error + idempotency_claim option) \<Rightarrow> bool" where
  "frees t k (CReconcile _ t' k' d _ _ _, Inr _) =
     (py_strip t' = t \<and> py_strip k' = k \<and> d = ''retry_no_effect'')"
| "frees t k _ = False"

definition effects_inv :: "effects_db \<Rightarrow> bool" where
  "effects_inv db = (distinct (map (\<lambda>r. (er_tenant r, er_key r)) (external_effects db)) \<and>
     (\<forall>r \<in> set (external_effects db). er_status r = Pending \<longleftrightarrow> er_result r = None) \<and>
     map rr_id (reconciliations db) = [1..<Suc (length (reconciliations db))])"

section \<open>Lemmas of the operations\<close>

lemma required_InrD: "required v f = Inr s \<Longrightarrow> s = py_strip v"
  by (auto simp: required_def Let_def split: if_splits)

lemma required_cong: "required v f = Inr s \<Longrightarrow> required v g = Inr s"
  by (auto simp: required_def Let_def split: if_splits)

lemma effect_at_simps [simp]:
  "effect_at t k (r\<lparr>er_status := st, er_result := v, er_updated_at := n\<rparr>) = effect_at t k r"
  "effect_at t k \<lparr>er_tenant = t', er_key = k', er_operation = op, er_hash = h, er_status = st,
     er_result = v, er_created_at = n, er_updated_at = m\<rparr> \<longleftrightarrow> t' = t \<and> k' = k"
  by (auto simp: effect_at_def)

lemma effect_at_unique: "effect_at t k r \<Longrightarrow> effect_at t' k' r \<Longrightarrow> t = t' \<and> k = k'"
  by (simp add: effect_at_def)

lemma claim_cases:
  assumes "claim dg now t k op args db = (x, db')"
  shows "(db' = db \<and> (\<forall>c. x = Inr c \<longrightarrow> \<not> claim_created c)) \<or>
    (x = Inr \<lparr>claim_created = True, claim_result = None\<rparr> \<and>
     sel (effect_at (py_strip t) (py_strip k)) (external_effects db) = None \<and>
     db' = db\<lparr>external_effects := external_effects db @
       [\<lparr>er_tenant = py_strip t, er_key = py_strip k, er_operation = py_strip op,
         er_hash = request_hash dg (py_strip op) args, er_status = Pending, er_result = None,
         er_created_at = now, er_updated_at = now\<rparr>]\<rparr>)"
  using assms unfolding claim_def
  by (elim checked_cases)
    (auto simp: Let_def split: option.splits if_splits effect_status.splits dest!: required_InrD)

lemma finish_cases:
  assumes "finish now t k st v db = (x, db')"
  shows "(db' = db \<and> (\<exists>e. x = Inl e)) \<or>
    (x = Inr () \<and>
     db' = db\<lparr>external_effects :=
       upd (\<lambda>r. effect_at (py_strip t) (py_strip k) r \<and> er_status r = Pending)
         (\<lambda>r. r\<lparr>er_status := st, er_result := Some v, er_updated_at := now\<rparr>)
         (external_effects db)\<rparr>)"
  using assms unfolding finish_def
  by (elim checked_cases) (auto simp: Let_def split: if_splits dest!: required_InrD)

lemma reconcile_cases:
  assumes "reconcile_pending now t k d a rsn v db = (x, db')"
  shows "(db' = db \<and> (x = Inr () \<longrightarrow> d = ''confirm_applied'')) \<or>
    (\<exists>row. x = Inr () \<and> effect_of db (py_strip t) (py_strip k) = Some row \<and>
      er_status row = Pending \<and>
      db' = reconcile_apply now (py_strip t) (py_strip k) d (py_strip a) (py_strip rsn) v db)"
  using assms unfolding reconcile_pending_def effect_of_def
  by (elim checked_cases)
    (auto simp: Let_def split: option.splits if_splits dest!: required_InrD)

lemma reconciled_simps [simp]:
  "effect_at t k (reconciled d v n r) = effect_at t k r"
  "er_tenant (reconciled d v n r) = er_tenant r" "er_key (reconciled d v n r) = er_key r"
  "er_status (reconciled d v n r) \<noteq> Pending" "er_result (reconciled d v n r) \<noteq> None"
  by (auto simp: reconciled_def effect_at_def)

section \<open>The provider is called once per claim of the key\<close>

lemma sel_settle [simp]:
  "sel (effect_at t k) (upd (\<lambda>r. effect_at t' k' r \<and> er_status r = Pending)
     (\<lambda>r. r\<lparr>er_status := st, er_result := v, er_updated_at := now\<rparr>) es) =
   map_option (\<lambda>r. if effect_at t' k' r \<and> er_status r = Pending
     then r\<lparr>er_status := st, er_result := v, er_updated_at := now\<rparr> else r) (sel (effect_at t k) es)"
  by (rule sel_upd) simp

lemma sel_reconciled [simp]:
  "sel (effect_at t k) (upd (\<lambda>r. effect_at t' k' r \<and> er_status r = Pending)
     (reconciled d v now) es) =
   map_option (\<lambda>r. if effect_at t' k' r \<and> er_status r = Pending
     then reconciled d v now r else r) (sel (effect_at t k) es)"
  by (rule sel_upd) simp

lemma effect_of_apply:
  "effect_of (reconcile_apply now t' k' d a rsn v db) t k =
    (if d = ''retry_no_effect'' \<and> t' = t \<and> k' = k then None
     else if d = ''retry_no_effect'' then effect_of db t k
     else map_option (\<lambda>r. if effect_at t' k' r \<and> er_status r = Pending
       then reconciled d v now r else r) (effect_of db t k))"
  by (auto simp: effect_of_def reconcile_apply_def sel_del_same
      intro: sel_del_other dest: effect_at_unique)

lemma exec_balance:
  assumes "effect_exec dg c db = (x, db')"
  shows "(if grants t k (c, x) then 1 else 0) + (if effect_of db t k \<noteq> None then 1 else 0) =
    (if frees t k (c, x) then 1 else 0) + (if effect_of db' t k \<noteq> None then 1 else (0::nat))"
proof (cases c)
  case (CClaim now t' k' op args)
  with assms obtain y where y: "claim dg now t' k' op args db = (y, db')" "x = map_sum id Some y"
    by (cases "claim dg now t' k' op args db") auto
  from claim_cases [OF y(1)] show ?thesis
  proof
    assume "db' = db \<and> (\<forall>c. y = Inr c \<longrightarrow> \<not> claim_created c)"
    with y CClaim show ?thesis by (cases y) auto
  qed (use y CClaim in \<open>auto simp: effect_of_def sel_append split: option.splits\<close>)
next
  case (CComplete now t' k' v)
  with assms obtain y where y: "finish now t' k' Completed v db = (y, db')"
    by (cases "complete now t' k' v db") (auto simp: complete_def)
  from finish_cases [OF y] show ?thesis using CComplete by (auto simp: effect_of_def)
next
  case (CFail now t' k' code)
  with assms obtain y v where y: "finish now t' k' Failed v db = (y, db')"
    by (cases "fail now t' k' code db") (auto simp: fail_def)
  from finish_cases [OF y] show ?thesis using CFail by (auto simp: effect_of_def)
next
  case (CReconcile now t' k' d a rsn v)
  with assms obtain y where y: "reconcile_pending now t' k' d a rsn v db = (y, db')"
    "x = map_sum id (\<lambda>_. None) y"
    by (cases "reconcile_pending now t' k' d a rsn v db") auto
  from reconcile_cases [OF y(1)] show ?thesis
  proof
    assume "db' = db \<and> (y = Inr () \<longrightarrow> d = ''confirm_applied'')"
    with y CReconcile show ?thesis by (cases y) auto
  qed (use y CReconcile in \<open>auto simp: effect_of_apply split: if_splits\<close>)
qed

lemma run_balance:
  "length (filter (grants t k) (fst (effect_run dg cs db))) +
     (if effect_of db t k \<noteq> None then 1 else 0) =
   length (filter (frees t k) (fst (effect_run dg cs db))) +
     (if effect_of (snd (effect_run dg cs db)) t k \<noteq> None then 1 else 0)"
proof (induction cs arbitrary: db)
  case (Cons c cs)
  obtain x db1 where e: "effect_exec dg c db = (x, db1)" by fastforce
  from exec_balance [OF e, of t k] Cons.IH [of db1] e show ?case
    by (auto simp: Let_def split: if_splits)
qed simp

section \<open>Settled effects and the table invariant\<close>

lemma exec_cases:
  assumes "effect_exec dg c db = (x, db')"
  obtains (same) "db' = db"
  | (new) t k op h now where
      "sel (effect_at t k) (external_effects db) = None"
      "db' = db\<lparr>external_effects := external_effects db @
       [\<lparr>er_tenant = t, er_key = k, er_operation = op, er_hash = h, er_status = Pending,
         er_result = None, er_created_at = now, er_updated_at = now\<rparr>]\<rparr>"
  | (settle) t k st v now where "st \<noteq> Pending"
      "db' = db\<lparr>external_effects :=
       upd (\<lambda>r. effect_at t k r \<and> er_status r = Pending)
         (\<lambda>r. r\<lparr>er_status := st, er_result := Some v, er_updated_at := now\<rparr>)
         (external_effects db)\<rparr>"
  | (reconcile) now t k d a rsn v row where
      "effect_of db t k = Some row" "er_status row = Pending"
      "db' = reconcile_apply now t k d a rsn v db"
proof (cases c)
  case (CClaim now t k op args)
  with assms obtain y where "claim dg now t k op args db = (y, db')"
    by (cases "claim dg now t k op args db") auto
  from claim_cases [OF this] same new show thesis by blast
next
  case (CComplete now t k v)
  with assms obtain y where "finish now t k Completed v db = (y, db')"
    by (cases "complete now t k v db") (auto simp: complete_def)
  from finish_cases [OF this] same settle [of Completed] show thesis by blast
next
  case (CFail now t k code)
  with assms obtain y v where "finish now t k Failed v db = (y, db')"
    by (cases "fail now t k code db") (auto simp: fail_def)
  from finish_cases [OF this] same settle [of Failed] show thesis by blast
next
  case (CReconcile now t k d a rsn v)
  with assms obtain y where "reconcile_pending now t k d a rsn v db = (y, db')"
    by (cases "reconcile_pending now t k d a rsn v db") auto
  from reconcile_cases [OF this] same reconcile show thesis by blast
qed

lemma exec_keeps_settled:
  assumes "effect_exec dg c db = (x, db')" "effect_of db t k = Some r" "er_status r \<noteq> Pending"
  shows "effect_of db' t k = Some r"
  using assms(1)
proof (cases rule: exec_cases)
  case (reconcile now t' k' d a rsn v row)
  have "\<not> (t' = t \<and> k' = k)" using reconcile assms(2,3) by auto
  with reconcile assms(2,3) show ?thesis by (auto simp: effect_of_apply)
qed (use assms(2,3) in \<open>auto simp: effect_of_def sel_append\<close>)

lemma run_keeps_settled:
  "effect_of db t k = Some r \<Longrightarrow> er_status r \<noteq> Pending \<Longrightarrow>
   effect_of (snd (effect_run dg cs db)) t k = Some r"
  by (rule run_calls_keep [where P = "\<lambda>db. effect_of db t k = Some r"])
    (metis exec_keeps_settled prod.collapse)

lemma effects_inv_exec:
  assumes "effects_inv db" "effect_exec dg c db = (x, db')"
  shows "effects_inv db'"
  using assms(2)
proof (cases rule: exec_cases)
  case (new t k op h now)
  with assms(1) show ?thesis
    by (auto simp: effects_inv_def sel_None effect_at_def)
next
  case (settle t k st v now)
  with assms(1) show ?thesis
    by (auto simp: effects_inv_def set_upd map_upd)
next
  case (reconcile now t k d a rsn v row)
  with assms(1) show ?thesis
    by (auto simp: effects_inv_def reconcile_apply_def set_upd map_upd)
qed (use assms(1) in simp)

interpretation effects: call_system "effect_exec dg" empty_effects_db effects_inv
proof unfold_locales
  show "effects_inv empty_effects_db" by (simp add: effects_inv_def empty_effects_db_def)
  show "effects_inv (snd (effect_exec dg c db))" if "effects_inv db" for db c
    using that effects_inv_exec by (metis prod.collapse)
qed

section \<open>Execution of an effect\<close>

lemma claim_present:
  assumes "effect_of db (py_strip t) (py_strip k) = Some r"
    "claim dg now t k op args db = (x, db')"
  shows "db' = db \<and> (\<forall>c. x = Inr c \<longrightarrow> \<not> claim_created c)"
  using claim_cases [OF assms(2)] assms(1) by (auto simp: effect_of_def)

lemma claim_settled:
  assumes "effect_of db (py_strip t) (py_strip k) = Some r"
    "required t ''tenant_id'' = Inr (py_strip t)"
    "required k ''idempotency_key'' = Inr (py_strip k)"
    "required op ''operation'' = Inr (py_strip op)"
    "er_operation r = py_strip op" "er_hash r = request_hash dg (py_strip op) args"
  shows "claim dg now t k op args db =
    (case er_status r of
       Pending \<Rightarrow> raises (IdempotencyPendingError
         ''the external effect is pending or its outcome is indeterminate'') db
     | Failed \<Rightarrow> raises (IdempotencyConflictError
         ''the previous external effect attempt failed; use a new idempotency key'') db
     | Completed \<Rightarrow> ok \<lparr>claim_created = False, claim_result = Some
         (if is_obj (case er_result r of None \<Rightarrow> JObj [] | Some v \<Rightarrow> v)
          then (case er_result r of None \<Rightarrow> JObj [] | Some v \<Rightarrow> v) else JObj [])\<rparr> db)"
  using assms by (simp add: claim_def effect_of_def Let_def split: effect_status.splits)

lemma claim_created_valid:
  assumes "claim dg now t k op args db = (Inr c, db')"
  shows "required t ''tenant_id'' = Inr (py_strip t)"
    "required k ''idempotency_key'' = Inr (py_strip k)"
    "required op ''operation'' = Inr (py_strip op)"
  using assms unfolding claim_def by (elim checked_cases; auto dest: required_InrD)+

lemma is_obj_wrap [simp]: "is_obj (wrap_result v)"
  by (simp add: wrap_result_def)

lemma execute_done:
  assumes "effect_of db (py_strip t) (py_strip k) = None"
    "execute dg n1 n2 t op k rh invoke (db, w) = (Inr (Some v), db1, w1)"
  obtains r where "effect_of db1 (py_strip t) (py_strip k) = Some r" "er_status r = Completed"
    "er_result r = Some (wrap_result v)" "er_operation r = py_strip op"
    "er_hash r = request_hash dg (py_strip op) (JObj [(''request_hash'', JStr rh)])"
    "required t ''tenant_id'' = Inr (py_strip t)"
    "required k ''idempotency_key'' = Inr (py_strip k)"
    "required op ''operation'' = Inr (py_strip op)"
proof -
  obtain x db0 where c: "claim dg n1 t k op (JObj [(''request_hash'', JStr rh)]) db = (x, db0)"
    by fastforce
  obtain cl where x: "x = Inr cl" using assms(2) c by (cases x) (auto simp: execute_def)
  have created: "claim_created cl"
  proof (rule ccontr)
    assume n: "\<not> claim_created cl"
    with c x have "effect_of db (py_strip t) (py_strip k) \<noteq> None"
      using claim_created_valid [OF c [unfolded x]]
      by (auto simp: claim_def effect_of_def Let_def split: option.splits)
    with assms(1) show False by simp
  qed
  with claim_cases [OF c] x have db0: "db0 = db\<lparr>external_effects := external_effects db @
       [\<lparr>er_tenant = py_strip t, er_key = py_strip k, er_operation = py_strip op,
         er_hash = request_hash dg (py_strip op) (JObj [(''request_hash'', JStr rh)]),
         er_status = Pending, er_result = None, er_created_at = n1, er_updated_at = n1\<rparr>]\<rparr>"
    by auto
  obtain y where f: "finish n2 t k Completed (wrap_result v) db0 = (Inr y, db1)"
    using assms(2) c x created
    by (auto simp: execute_def complete_def split: prod.splits outcome.splits sum.splits)
  from finish_cases [OF f] db0 assms(1) claim_created_valid [OF c [unfolded x]]
  show thesis by (intro that) (auto simp: effect_of_def sel_append)
qed

lemma execute_interrupted:
  assumes "execute dg n1 n2 t op k rh invoke (db, w) = (Inl ProviderInterrupted, db1, w1)"
  obtains r where "effect_of db1 (py_strip t) (py_strip k) = Some r" "er_status r = Pending"
    "er_operation r = py_strip op"
    "er_hash r = request_hash dg (py_strip op) (JObj [(''request_hash'', JStr rh)])"
    "required t ''tenant_id'' = Inr (py_strip t)"
    "required k ''idempotency_key'' = Inr (py_strip k)"
    "required op ''operation'' = Inr (py_strip op)"
proof -
  obtain x db0 where c: "claim dg n1 t k op (JObj [(''request_hash'', JStr rh)]) db = (x, db0)"
    by fastforce
  obtain cl where x: "x = Inr cl" "claim_created cl" "db1 = db0" using assms c
    by (cases x) (auto simp: execute_def split: if_splits prod.splits outcome.splits sum.splits)
  from claim_cases [OF c] x claim_created_valid [OF c [unfolded x]]
  show thesis by (intro that) (auto simp: effect_of_def sel_append)
qed

section \<open>Properties\<close>

text \<open>
  C1: whatever calls reach the store, and in whatever order they commit, the number of claims of a
  tenant's key that allowed a provider call is exactly the number of owner reconciliations that
  gave the key back, plus one if the key is present at the end. Without a reconciliation the
  provider is called at most once per key.
\<close>

theorem effect_grants_balance:
  "length (filter (grants t k) (fst (effect_run dg cs empty_effects_db))) =
   length (filter (frees t k) (fst (effect_run dg cs empty_effects_db))) +
     (if effect_of (snd (effect_run dg cs empty_effects_db)) t k \<noteq> None then 1 else 0)"
  using run_balance [of t k dg cs empty_effects_db]
  by (simp add: effect_of_def empty_effects_db_def)

text \<open>
  once an effect is completed or failed, no sequence of claims, completions, failures or
  reconciliations changes its row: status, stored result and timestamps stay what they were.
\<close>

theorem settled_effects_immutable:
  "effect_of db t k = Some r \<Longrightarrow> er_status r \<noteq> Pending \<Longrightarrow>
   effect_of (snd (effect_run dg cs db)) t k = Some r"
  by (rule run_keeps_settled)

theorem settled_effects_immutable_witness:
  "let db = snd (effect_run (\<lambda>_. ''h'')
       [CClaim (At 1) ''t'' ''k'' ''op'' JNull, CComplete (At 2) ''t'' ''k'' (JObj [])]
       empty_effects_db)
   in \<exists>r. effect_of db ''t'' ''k'' = Some r \<and> er_status r = Completed \<and>
      effect_of (snd (effect_run (\<lambda>_. ''h'')
        [CFail (At 3) ''t'' ''k'' ''x'', CReconcile (At 4) ''t'' ''k'' ''reject'' ''a'' ''r'' None] db))
        ''t'' ''k'' = Some r"
proof -
  let ?db = "snd (effect_run (\<lambda>_. ''h'')
    [CClaim (At 1) ''t'' ''k'' ''op'' JNull, CComplete (At 2) ''t'' ''k'' (JObj [])] empty_effects_db)"
  let ?r = "\<lparr>er_tenant = ''t'', er_key = ''k'', er_operation = ''op'', er_hash = ''h'',
    er_status = Completed, er_result = Some (JObj []), er_created_at = At 1, er_updated_at = At 2\<rparr>"
  have "effect_of ?db ''t'' ''k'' = Some ?r" "er_status ?r = Completed" by code_simp+
  moreover from this have "er_status ?r \<noteq> Pending" by simp
  ultimately show ?thesis
    unfolding Let_def using settled_effects_immutable [of ?db "''t''" "''k''" ?r] by blast
qed

text \<open>
  an execution that returned a value is never repeated. Executing the same request again, with
  any provider function, at any later time and in any world, returns the recorded result (a
  non-object value wrapped under \<^verbatim>\<open>"value"\<close>) and calls nothing: world and store are unchanged.
\<close>

theorem execute_replays_result:
  assumes "effect_of db (py_strip t) (py_strip k) = None"
    and "execute dg n1 n2 t op k rh invoke (db, w) = (Inr (Some v), db1, w1)"
  shows "execute dg n3 n4 t op k rh invoke' (db1, w2) = (Inr (Some (wrap_result v)), db1, w2)"
  using assms
proof (rule execute_done)
  fix r assume "effect_of db1 (py_strip t) (py_strip k) = Some r" "er_status r = Completed"
    "er_result r = Some (wrap_result v)" "er_operation r = py_strip op"
    "er_hash r = request_hash dg (py_strip op) (JObj [(''request_hash'', JStr rh)])"
    "required t ''tenant_id'' = Inr (py_strip t)" "required k ''idempotency_key'' = Inr (py_strip k)"
    "required op ''operation'' = Inr (py_strip op)"
  then show ?thesis by (simp add: execute_def claim_settled)
qed

theorem execute_replays_result_witness:
  "execute (\<lambda>_. ''h'') (At 3) (At 4) '' t '' ''send'' ''k'' ''rh'' (\<lambda>n. (Raised ''E'', Suc n))
     (fst (snd (execute (\<lambda>_. ''h'') (At 1) (At 2) '' t '' ''send'' ''k'' ''rh''
        (\<lambda>n. (Returned (JInt 7), Suc n)) (empty_effects_db, 0))), 5) =
   (Inr (Some (JObj [(''value'', JInt 7)])),
    fst (snd (execute (\<lambda>_. ''h'') (At 1) (At 2) '' t '' ''send'' ''k'' ''rh''
        (\<lambda>n. (Returned (JInt 7), Suc n)) (empty_effects_db, 0))), 5)"
proof -
  let ?e = "execute (\<lambda>_. ''h'') (At 1) (At 2) '' t '' ''send'' ''k'' ''rh''
    (\<lambda>n. (Returned (JInt 7), Suc n)) (empty_effects_db, 0)"
  have "effect_of empty_effects_db (py_strip '' t '') (py_strip ''k'') = None" by code_simp
  moreover have "fst ?e = Inr (Some (JInt 7))" by code_simp
  then have "?e = (Inr (Some (JInt 7)), fst (snd ?e), snd (snd ?e))" by (metis prod.collapse)
  moreover have "wrap_result (JInt 7) = JObj [(''value'', JInt 7)]" by code_simp
  ultimately show ?thesis
    using execute_replays_result [of empty_effects_db "'' t ''" "''k''" "\<lambda>_. ''h''" "At 1" "At 2"
      "''send''" "''rh''" "\<lambda>n. (Returned (JInt 7), Suc n)" 0 "JInt 7"] by metis
qed

text \<open>
  while a row exists under the tenant's key, whatever its state and whatever request uses the
  key, \<open>execute\<close> neither calls the provider nor writes: a pending, failed, completed or
  conflicting key costs no side effect.
\<close>

theorem execute_calls_nothing_when_claimed:
  assumes "effect_of db (py_strip t) (py_strip k) = Some r"
  shows "snd (execute dg n1 n2 t op k rh invoke (db, w)) = (db, w)"
proof -
  obtain x db0 where c: "claim dg n1 t k op (JObj [(''request_hash'', JStr rh)]) db = (x, db0)"
    by fastforce
  from claim_present [OF assms c] c show ?thesis by (cases x) (auto simp: execute_def)
qed

theorem execute_calls_nothing_when_claimed_witness:
  "let db = snd (claim (\<lambda>_. ''h'') (At 1) ''t'' ''k'' ''op'' JNull empty_effects_db) in
   snd (execute (\<lambda>_. ''h'') (At 2) (At 3) ''t'' ''other'' ''k'' ''rh''
     (\<lambda>n. (Returned JNull, Suc n)) (db, 0)) = (db, 0)"
proof -
  let ?db = "snd (claim (\<lambda>_. ''h'') (At 1) ''t'' ''k'' ''op'' JNull empty_effects_db)"
  have "effect_of ?db (py_strip ''t'') (py_strip ''k'') =
    Some \<lparr>er_tenant = ''t'', er_key = ''k'', er_operation = ''op'', er_hash = ''h'',
      er_status = Pending, er_result = None, er_created_at = At 1, er_updated_at = At 1\<rparr>"
    by code_simp
  from execute_calls_nothing_when_claimed [OF this] show ?thesis by (simp add: Let_def)
qed

text \<open>
  an execution interrupted while the provider runs leaves its key pending, and the same request
  is then refused as pending without a second provider call, until an owner reconciles it.
\<close>

theorem interrupted_effect_is_not_retried:
  assumes "execute dg n1 n2 t op k rh invoke (db, w) = (Inl ProviderInterrupted, db1, w1)"
  shows "execute dg n3 n4 t op k rh invoke' (db1, w2) =
    (Inl (StoreError (IdempotencyPendingError
       ''the external effect is pending or its outcome is indeterminate'')), db1, w2)"
  using assms
proof (rule execute_interrupted)
  fix r assume "effect_of db1 (py_strip t) (py_strip k) = Some r" "er_status r = Pending"
    "er_operation r = py_strip op"
    "er_hash r = request_hash dg (py_strip op) (JObj [(''request_hash'', JStr rh)])"
    "required t ''tenant_id'' = Inr (py_strip t)" "required k ''idempotency_key'' = Inr (py_strip k)"
    "required op ''operation'' = Inr (py_strip op)"
  then show ?thesis by (simp add: execute_def claim_settled)
qed

theorem interrupted_effect_is_not_retried_witness:
  "fst (execute (\<lambda>_. ''h'') (At 3) (At 4) ''t'' ''send'' ''k'' ''rh'' (\<lambda>n. (Returned JNull, Suc n))
     (fst (snd (execute (\<lambda>_. ''h'') (At 1) (At 2) ''t'' ''send'' ''k'' ''rh''
        (\<lambda>n. (Interrupted, Suc n)) (empty_effects_db, 0))), 5)) =
   Inl (StoreError (IdempotencyPendingError
     ''the external effect is pending or its outcome is indeterminate''))"
proof -
  let ?e = "execute (\<lambda>_. ''h'') (At 1) (At 2) ''t'' ''send'' ''k'' ''rh''
    (\<lambda>n. (Interrupted, Suc n)) (empty_effects_db, 0)"
  have "fst ?e = Inl ProviderInterrupted" by code_simp
  then have "?e = (Inl ProviderInterrupted, fst (snd ?e), snd (snd ?e))" by (metis prod.collapse)
  from interrupted_effect_is_not_retried
    [OF this, of "At 3" "At 4" "\<lambda>n. (Returned JNull, Suc n)" 5]
  show ?thesis by (simp only: fst_conv)
qed

text \<open>
  after any sequence of calls on a new store the primary key holds, exactly the pending rows
  have no result, and the reconciliation log is numbered from one without gaps.
\<close>

theorem effects_table_invariant: "effects_inv (snd (effect_run dg cs empty_effects_db))"
  by (rule effects.run_start_inv)

end
