(* ===== verification/JobStore.thy ===== *)
theory JobStore
  imports Prelude
begin

text \<open>
  \<^verbatim>\<open>jobs/models.py\<close> and \<^verbatim>\<open>jobs/store.py\<close>: the tenant-owned tables of background jobs, their events
  and their artifacts, and every method of \<open>JobStore\<close>. \<open>now\<close> is the caller's clock reading and the
  artifact identifiers that \<open>new_short_id\<close> draws at random, in the order of the draws, are an
  argument of \<open>complete\<close>. A primary
  key or UNIQUE violation is \<open>JobIntegrityError\<close>, raised with the transaction discarded.
\<close>

section \<open>Data\<close>

datatype job_status = Queued | Running | CancelRequested | Succeeded | JobFailed | Cancelled

datatype job_event_type =
    EvQueued | EvRecovered | EvRunning | EvProgress | EvCancelRequested | EvCancelled
  | EvArtifactReady | EvCompleted | EvFailed

record job_error =
  je_code :: string
  je_message :: string
  je_retryable :: bool

record job_artifact_write =
  aw_name :: string
  aw_media_type :: string
  aw_uri :: string
  aw_size_bytes :: "nat option"
  aw_sha256 :: "string option"
  aw_metadata :: json

record job_artifact = job_artifact_write +
  ja_tenant :: string
  ja_job :: string
  ja_id :: string
  ja_created_at :: timestamp

record job_handler_result =
  hr_summary :: string
  hr_data :: json
  hr_artifacts :: "job_artifact_write list"

record job =
  j_tenant :: string
  j_id :: string
  j_handler_name :: string
  j_handler_version :: int
  j_status :: job_status
  j_arguments :: json
  j_result :: "json option"
  j_error :: "json option"
  j_idempotency_key :: string
  j_attempt_count :: nat
  j_created_at :: timestamp
  j_updated_at :: timestamp
  j_started_at :: "timestamp option"
  j_finished_at :: "timestamp option"

record job_row = job +
  j_request_hash :: string

record job_event =
  ev_tenant :: string
  ev_job :: string
  ev_sequence :: nat
  ev_type :: job_event_type
  ev_payload :: json
  ev_created_at :: timestamp

record jobs_db =
  jobs :: "job_row list"
  job_events :: "job_event list"
  job_artifacts :: "job_artifact list"

datatype job_exc =
    JobNotFoundError string
  | JobIdempotencyConflictError string
  | JobIntegrityError

definition empty_jobs_db :: jobs_db where
  "empty_jobs_db = \<lparr>jobs = [], job_events = [], job_artifacts = []\<rparr>"

definition TERMINAL_STATUSES :: "job_status set" where
  "TERMINAL_STATUSES = {Succeeded, JobFailed, Cancelled}"

definition job_at :: "string \<Rightarrow> string \<Rightarrow> 'a job_scheme \<Rightarrow> bool" where
  "job_at t j r = (j_tenant r = t \<and> j_id r = j)"

definition job_of :: "jobs_db \<Rightarrow> string \<Rightarrow> string \<Rightarrow> job_row option" where
  "job_of db t j = sel (job_at t j) (jobs db)"

definition job_keyed :: "jobs_db \<Rightarrow> string \<times> string \<Rightarrow> job_row option" where
  "job_keyed db k = sel (\<lambda>r. (j_tenant r, j_idempotency_key r) = k) (jobs db)"

definition events_of :: "jobs_db \<Rightarrow> string \<Rightarrow> string \<Rightarrow> job_event list" where
  "events_of db t j = filter (\<lambda>e. ev_tenant e = t \<and> ev_job e = j) (job_events db)"

section \<open>JSON dumps\<close>

definition opt_json :: "('a \<Rightarrow> json) \<Rightarrow> 'a option \<Rightarrow> json" where
  "opt_json f x = (case x of None \<Rightarrow> JNull | Some v \<Rightarrow> f v)"

definition error_json :: "job_error \<Rightarrow> json" where
  "error_json e = JObj [(''code'', JStr (je_code e)), (''message'', JStr (je_message e)),
     (''retryable'', JBool (je_retryable e))]"

definition artifact_json :: "job_artifact_write \<Rightarrow> json" where
  "artifact_json a = JObj [(''media_type'', JStr (aw_media_type a)), (''metadata'', aw_metadata a),
     (''name'', JStr (aw_name a)), (''sha256'', opt_json JStr (aw_sha256 a)),
     (''size_bytes'', opt_json (\<lambda>n. JInt (int n)) (aw_size_bytes a)), (''uri'', JStr (aw_uri a))]"

definition result_json :: "job_handler_result \<Rightarrow> json" where
  "result_json r = JObj [(''artifacts'', JArr (map artifact_json (hr_artifacts r))),
     (''data'', hr_data r), (''summary'', JStr (hr_summary r))]"

section \<open>Operations\<close>

text \<open>
  \<open>Job.model_validate\<close> of a stored row. Its constraints (identifiers and handler names that are neither
  empty nor too long, a handler version from one on) are taken to hold of what callers stored, so that
  reading back does not raise.
\<close>

definition row_to_job :: "job_row \<Rightarrow> job" where
  "row_to_job r = job.truncate r"

definition append_event :: "string \<Rightarrow> string \<Rightarrow> job_event_type \<Rightarrow> json \<Rightarrow> timestamp \<Rightarrow> jobs_db \<Rightarrow> jobs_db" where
  "append_event t j ty payload now db =
     (let s = Suc (foldr max (map ev_sequence (events_of db t j)) 0) in
      db\<lparr>job_events := job_events db @
        [\<lparr>ev_tenant = t, ev_job = j, ev_sequence = s, ev_type = ty, ev_payload = payload,
          ev_created_at = now\<rparr>]\<rparr>)"

text \<open>\<open>UPDATE jobs SET ... WHERE tenant_id = ? AND id = ? AND\<close> a condition on the status.\<close>

definition set_job :: "string \<Rightarrow> string \<Rightarrow> (job_status \<Rightarrow> bool) \<Rightarrow> (job_row \<Rightarrow> job_row) \<Rightarrow> jobs_db \<Rightarrow> jobs_db" where
  "set_job t j P f db = db\<lparr>jobs := upd (\<lambda>r. job_at t j r \<and> P (j_status r)) f (jobs db)\<rparr>"

definition cancel_in_connection :: "string \<Rightarrow> string \<Rightarrow> string \<Rightarrow> timestamp \<Rightarrow> jobs_db \<Rightarrow> jobs_db" where
  "cancel_in_connection t j reason now db =
     append_event t j EvCancelled (JObj [(''reason'', JStr reason)]) now
       (set_job t j (\<lambda>s. s \<notin> TERMINAL_STATUSES)
         (\<lambda>r. r\<lparr>j_status := Cancelled, j_updated_at := now, j_finished_at := Some now\<rparr>) db)"

definition get :: "string \<Rightarrow> string \<Rightarrow> (jobs_db, job_exc, job) oper" where
  "get t j db = (case job_of db t j of
     None \<Rightarrow> raises (JobNotFoundError j) db | Some r \<Rightarrow> ok (row_to_job r) db)"

definition create :: "string \<Rightarrow> string \<Rightarrow> string \<Rightarrow> int \<Rightarrow> json \<Rightarrow> string \<Rightarrow> string \<Rightarrow> timestamp \<Rightarrow>
    (jobs_db, job_exc, job \<times> bool) oper" where
  "create t j handler version args key rhash now db =
    (case job_keyed db (t, key) of
       Some existing \<Rightarrow>
         if j_request_hash existing \<noteq> rhash
         then raises (JobIdempotencyConflictError
           ''idempotency key is already bound to a different job request'') db
         else ok (row_to_job existing, False) db
     | None \<Rightarrow>
         if job_of db t j \<noteq> None then raises JobIntegrityError db
         else
           (let row = \<lparr>j_tenant = t, j_id = j, j_handler_name = handler,
                  j_handler_version = version, j_status = Queued, j_arguments = args,
                  j_result = None, j_error = None, j_idempotency_key = key, j_attempt_count = 0,
                  j_created_at = now, j_updated_at = now, j_started_at = None,
                  j_finished_at = None, j_request_hash = rhash\<rparr>;
                db1 = append_event t j EvQueued
                  (JObj [(''handler'', JStr handler), (''version'', JInt version)]) now
                  (db\<lparr>jobs := jobs db @ [row]\<rparr>)
            in (case get t j db1 of (Inl e, db2) \<Rightarrow> raises e db2
                | (Inr job, db2) \<Rightarrow> ok (job, True) db2)))"

definition events :: "string \<Rightarrow> string \<Rightarrow> int \<Rightarrow> int \<Rightarrow> (jobs_db, job_exc, job_event list) oper" where
  "events t j after_sequence limit db = (case get t j db of (Inl e, db1) \<Rightarrow> raises e db1
     | (Inr _, db1) \<Rightarrow>
        ok (take (nat (max 1 (min limit 500)))
          (sort_key ev_sequence
            (filter (\<lambda>e. max 0 after_sequence < int (ev_sequence e)) (events_of db1 t j)))) db1)"

definition artifacts :: "string \<Rightarrow> string \<Rightarrow> (jobs_db, job_exc, job_artifact list) oper" where
  "artifacts t j db = (case get t j db of (Inl e, db1) \<Rightarrow> raises e db1
     | (Inr _, db1) \<Rightarrow>
        ok (sort_key (\<lambda>a. (ja_created_at a, ja_id a))
          (filter (\<lambda>a. ja_tenant a = t \<and> ja_job a = j) (job_artifacts db1))) db1)"

definition get_artifact :: "string \<Rightarrow> string \<Rightarrow> (jobs_db, job_exc, job_artifact) oper" where
  "get_artifact t a db = (case sel (\<lambda>r. ja_tenant r = t \<and> ja_id r = a) (job_artifacts db) of
     None \<Rightarrow> raises (JobNotFoundError a) db | Some r \<Rightarrow> ok r db)"

definition recover_row :: "timestamp \<Rightarrow> job_row \<Rightarrow> jobs_db \<times> (string \<times> string) list \<Rightarrow>
    jobs_db \<times> (string \<times> string) list" where
  "recover_row now row s = (case s of (db, ids) \<Rightarrow>
     (let t = j_tenant row; j = j_id row in
      if j_status row = CancelRequested then
        (append_event t j EvCancelled (JObj [(''reason'', JStr ''restart_after_cancel_request'')]) now
          (set_job t j (\<lambda>s. s = CancelRequested)
            (\<lambda>r. r\<lparr>j_status := Cancelled, j_updated_at := now, j_finished_at := Some now\<rparr>) db), ids)
      else if j_status row = Running then
        (append_event t j EvRecovered (JObj [(''reason'', JStr ''service_restart'')]) now
          (set_job t j (\<lambda>s. s = Running)
            (\<lambda>r. r\<lparr>j_status := Queued, j_updated_at := now, j_started_at := None,
                   j_finished_at := None\<rparr>) db), ids @ [(t, j)])
      else (db, ids @ [(t, j)])))"

fun get_all :: "(string \<times> string) list \<Rightarrow> (jobs_db, job_exc, job list) oper" where
  "get_all [] db = ok [] db"
| "get_all ((t, j) # ks) db = (case get t j db of
     (Inl e, db1) \<Rightarrow> raises e db1
   | (Inr r, db1) \<Rightarrow> (case get_all ks db1 of
        (Inl e, db2) \<Rightarrow> raises e db2 | (Inr rs, db2) \<Rightarrow> ok (r # rs) db2))"

definition recover :: "timestamp \<Rightarrow> (jobs_db, job_exc, job list) oper" where
  "recover now db =
     (let rows = sort_key (\<lambda>r. (j_created_at r, j_id r))
            (filter (\<lambda>r. j_status r \<in> {Queued, Running, CancelRequested}) (jobs db));
          s = fold (recover_row now) rows (db, [])
      in get_all (snd s) (fst s))"

definition claim :: "string \<Rightarrow> string \<Rightarrow> timestamp \<Rightarrow> (jobs_db, job_exc, job option) oper" where
  "claim t j now db = (case job_of db t j of
     None \<Rightarrow> raises (JobNotFoundError j) db
   | Some row \<Rightarrow>
       if j_status row \<noteq> Queued then ok None db
       else
         (let db1 = set_job t j (\<lambda>s. s = Queued)
                (\<lambda>r. r\<lparr>j_status := Running, j_attempt_count := Suc (j_attempt_count r),
                       j_updated_at := now, j_started_at := Some now, j_finished_at := None,
                       j_error := None\<rparr>) db;
              attempt = (case job_of db1 t j of None \<Rightarrow> 0 | Some r \<Rightarrow> j_attempt_count r);
              db2 = append_event t j EvRunning (JObj [(''attempt'', JInt (int attempt))]) now db1
          in (case get t j db2 of (Inl e, db3) \<Rightarrow> raises e db3
              | (Inr r, db3) \<Rightarrow> ok (Some r) db3)))"

definition progress :: "string \<Rightarrow> string \<Rightarrow> json \<Rightarrow> timestamp \<Rightarrow> (jobs_db, job_exc, unit) oper" where
  "progress t j payload now db = (case job_of db t j of
     None \<Rightarrow> raises (JobNotFoundError j) db
   | Some row \<Rightarrow>
       if j_status row \<noteq> Running then ok () db
       else ok () (append_event t j EvProgress payload now db))"

text \<open>The insertion of the result's artifacts, with the identifiers drawn for them.\<close>

fun add_artifacts :: "string \<Rightarrow> string \<Rightarrow> timestamp \<Rightarrow> (string \<times> job_artifact_write) list \<Rightarrow> jobs_db \<Rightarrow>
    jobs_db option" where
  "add_artifacts t j now [] db = Some db"
| "add_artifacts t j now ((aid, w) # ws) db =
     (if (\<exists>a \<in> set (job_artifacts db). ja_tenant a = t \<and> ja_job a = j \<and> ja_id a = aid) then None
      else add_artifacts t j now ws
        (append_event t j EvArtifactReady
          (JObj [(''artifact_id'', JStr aid), (''name'', JStr (aw_name w))]) now
          (db\<lparr>job_artifacts := job_artifacts db @
             [job_artifact_write.extend w
               \<lparr>ja_tenant = t, ja_job = j, ja_id = aid, ja_created_at = now\<rparr>]\<rparr>)))"

definition draw :: "(nat \<Rightarrow> string) \<Rightarrow> 'a list \<Rightarrow> (string \<times> 'a) list" where
  "draw aids ws = zip (map aids [0..<length ws]) ws"

definition complete :: "string \<Rightarrow> string \<Rightarrow> job_handler_result \<Rightarrow> (nat \<Rightarrow> string) \<Rightarrow> timestamp \<Rightarrow>
    (jobs_db, job_exc, job) oper" where
  "complete t j result aids now db = (case job_of db t j of
     None \<Rightarrow> raises (JobNotFoundError j) db
   | Some row \<Rightarrow>
       if j_status row = CancelRequested
       then get t j (cancel_in_connection t j ''cancelled_before_completion'' now db)
       else if j_status row \<noteq> Running then get t j db
       else (case add_artifacts t j now (draw aids (hr_artifacts result)) db of
         None \<Rightarrow> raises JobIntegrityError db
       | Some db1 \<Rightarrow>
           get t j (append_event t j EvCompleted
             (JObj [(''artifact_count'', JInt (int (length (hr_artifacts result)))),
                    (''summary'', JStr (hr_summary result))]) now
             (set_job t j (\<lambda>s. s = Running)
               (\<lambda>r. r\<lparr>j_status := Succeeded, j_result := Some (result_json result),
                      j_error := None, j_updated_at := now, j_finished_at := Some now\<rparr>) db1))))"

definition fail :: "string \<Rightarrow> string \<Rightarrow> job_error \<Rightarrow> timestamp \<Rightarrow> (jobs_db, job_exc, job) oper" where
  "fail t j error now db = (case job_of db t j of
     None \<Rightarrow> raises (JobNotFoundError j) db
   | Some row \<Rightarrow>
       get t j
         (if j_status row = CancelRequested
          then cancel_in_connection t j ''cancelled_during_failure'' now db
          else if j_status row = Running
          then append_event t j EvFailed (error_json error) now
             (set_job t j (\<lambda>s. s = Running)
               (\<lambda>r. r\<lparr>j_status := JobFailed, j_error := Some (error_json error), j_result := None,
                      j_updated_at := now, j_finished_at := Some now\<rparr>) db)
          else db))"

definition request_cancel :: "string \<Rightarrow> string \<Rightarrow> timestamp \<Rightarrow> (jobs_db, job_exc, job) oper" where
  "request_cancel t j now db = (case job_of db t j of
     None \<Rightarrow> raises (JobNotFoundError j) db
   | Some row \<Rightarrow>
       if j_status row \<in> TERMINAL_STATUSES \<or> j_status row = CancelRequested then get t j db
       else
         (let db1 = append_event t j EvCancelRequested (JObj []) now db in
          get t j
            (if j_status row = Queued
             then cancel_in_connection t j ''cancelled_before_start'' now db1
             else set_job t j (\<lambda>s. s = Running)
               (\<lambda>r. r\<lparr>j_status := CancelRequested, j_updated_at := now\<rparr>) db1)))"

definition mark_cancelled :: "string \<Rightarrow> string \<Rightarrow> string \<Rightarrow> timestamp \<Rightarrow> (jobs_db, job_exc, job) oper" where
  "mark_cancelled t j reason now db = (case job_of db t j of
     None \<Rightarrow> raises (JobNotFoundError j) db
   | Some row \<Rightarrow>
       get t j (if j_status row \<notin> TERMINAL_STATUSES
                then cancel_in_connection t j reason now db else db))"

definition requeue_interrupted :: "string \<Rightarrow> string \<Rightarrow> timestamp \<Rightarrow> (jobs_db, job_exc, job) oper" where
  "requeue_interrupted t j now db = (case job_of db t j of
     None \<Rightarrow> raises (JobNotFoundError j) db
   | Some row \<Rightarrow>
       get t j
         (if j_status row = CancelRequested
          then cancel_in_connection t j ''cancelled_during_shutdown'' now db
          else if j_status row = Running
          then append_event t j EvRecovered (JObj [(''reason'', JStr ''service_shutdown'')]) now
             (set_job t j (\<lambda>s. s = Running)
               (\<lambda>r. r\<lparr>j_status := Queued, j_updated_at := now, j_started_at := None\<rparr>) db)
          else db))"

section \<open>Calls\<close>

datatype job_call =
    JCreate string string string int json string string timestamp
  | JRecover timestamp
  | JClaim string string timestamp
  | JProgress string string json timestamp
  | JComplete string string job_handler_result "nat \<Rightarrow> string" timestamp
  | JFail string string job_error timestamp
  | JRequestCancel string string timestamp
  | JMarkCancelled string string string timestamp
  | JRequeue string string timestamp

fun job_exec :: "job_call \<Rightarrow> jobs_db \<Rightarrow> bool \<times> jobs_db" where
  "job_exec (JCreate t j h v a k rh now) db =
     (let r = create t j h v a k rh now db in (is_ok r, snd r))"
| "job_exec (JRecover now) db = (let r = recover now db in (is_ok r, snd r))"
| "job_exec (JClaim t j now) db = (let r = claim t j now db in (is_ok r, snd r))"
| "job_exec (JProgress t j p now) db = (let r = progress t j p now db in (is_ok r, snd r))"
| "job_exec (JComplete t j res aids now) db =
     (let r = complete t j res aids now db in (is_ok r, snd r))"
| "job_exec (JFail t j e now) db = (let r = fail t j e now db in (is_ok r, snd r))"
| "job_exec (JRequestCancel t j now) db = (let r = request_cancel t j now db in (is_ok r, snd r))"
| "job_exec (JMarkCancelled t j rsn now) db =
     (let r = mark_cancelled t j rsn now db in (is_ok r, snd r))"
| "job_exec (JRequeue t j now) db = (let r = requeue_interrupted t j now db in (is_ok r, snd r))"

section \<open>The event log as a specification\<close>

text \<open>
  The life of a job as an automaton over its events. The row of a job is specified by its log:
  replaying the events gives the status, and the number of \<open>running\<close> events is the number of
  attempts.
\<close>

fun delta :: "job_status \<Rightarrow> job_event_type \<Rightarrow> job_status option" where
  "delta Queued EvRunning = Some Running"
| "delta Queued EvCancelRequested = Some CancelRequested"
| "delta Queued EvCancelled = Some Cancelled"
| "delta Running EvProgress = Some Running"
| "delta Running EvArtifactReady = Some Running"
| "delta Running EvCompleted = Some Succeeded"
| "delta Running EvFailed = Some JobFailed"
| "delta Running EvRecovered = Some Queued"
| "delta Running EvCancelRequested = Some CancelRequested"
| "delta Running EvCancelled = Some Cancelled"
| "delta CancelRequested EvCancelled = Some Cancelled"
| "delta _ _ = None"

fun replay_from :: "job_status \<Rightarrow> job_event_type list \<Rightarrow> job_status option" where
  "replay_from s [] = Some s"
| "replay_from s (e # es) = (case delta s e of None \<Rightarrow> None | Some s' \<Rightarrow> replay_from s' es)"

fun replay :: "job_event_type list \<Rightarrow> job_status option" where
  "replay (EvQueued # es) = replay_from Queued es"
| "replay _ = None"

definition numbered :: "job_event list \<Rightarrow> bool" where
  "numbered es = (map ev_sequence es = [1..<Suc (length es)])"

definition log_ok :: "job_event list \<Rightarrow> 'a job_scheme \<Rightarrow> bool" where
  "log_ok es r = (numbered es \<and>
     replay (map ev_type es) = Some (j_status r) \<and>
     count_list (map ev_type es) EvRunning = j_attempt_count r)"

definition jobs_inv :: "jobs_db \<Rightarrow> bool" where
  "jobs_inv db = (distinct (map (\<lambda>r. (j_tenant r, j_id r)) (jobs db)) \<and>
     distinct (map (\<lambda>r. (j_tenant r, j_idempotency_key r)) (jobs db)) \<and>
     (\<forall>r \<in> set (jobs db). log_ok (events_of db (j_tenant r) (j_id r)) r) \<and>
     (\<forall>e \<in> set (job_events db). \<exists>r \<in> set (jobs db). job_at (ev_tenant e) (ev_job e) r))"

section \<open>Moves of one job\<close>

text \<open>
  Every operation on a job is a move: the job's row is replaced by one of the same identity and
  events of that job are appended. The lemmas build the move of an operation from its writes.
\<close>

definition ident :: "job_row \<Rightarrow> string \<times> string \<times> string \<times> string \<times> string \<times> int \<times> json \<times> timestamp" where
  "ident r = (j_tenant r, j_id r, j_idempotency_key r, j_request_hash r, j_handler_name r,
     j_handler_version r, j_arguments r, j_created_at r)"

definition moves :: "jobs_db \<Rightarrow> string \<Rightarrow> string \<Rightarrow> job_row \<Rightarrow> job_row \<Rightarrow> job_event list \<Rightarrow> jobs_db \<Rightarrow> bool" where
  "moves db t j r r' es db' = (job_of db t j = Some r \<and> ident r' = ident r \<and>
     distinct (map (\<lambda>r. (j_tenant r, j_id r)) (jobs db)) \<and>
     jobs db' = upd (job_at t j) (\<lambda>_. r') (jobs db) \<and>
     job_events db' = job_events db @ es \<and> (\<forall>e \<in> set es. ev_tenant e = t \<and> ev_job e = j) \<and>
     numbered (events_of db' t j))"

definition legal :: "job_row \<Rightarrow> job_row \<Rightarrow> job_event list \<Rightarrow> bool" where
  "legal r r' es = (j_status r \<notin> TERMINAL_STATUSES \<and>
     replay_from (j_status r) (map ev_type es) = Some (j_status r') \<and>
     j_attempt_count r' = j_attempt_count r + count_list (map ev_type es) EvRunning)"

inductive job_step :: "jobs_db \<Rightarrow> jobs_db \<Rightarrow> bool" where
  step_move: "moves db t j r r' es db' \<Longrightarrow> legal r r' es \<Longrightarrow> job_step db db'"

inductive job_trans :: "jobs_db \<Rightarrow> jobs_db \<Rightarrow> bool" where
  trans_step: "job_step db db' \<Longrightarrow> job_trans db db'"
| trans_new: "job_of db (j_tenant row) (j_id row) = None \<Longrightarrow>
    job_keyed db (j_tenant row, j_idempotency_key row) = None \<Longrightarrow>
    j_status row = Queued \<Longrightarrow> j_attempt_count row = 0 \<Longrightarrow>
    job_trans db (append_event (j_tenant row) (j_id row) EvQueued p now (db\<lparr>jobs := jobs db @ [row]\<rparr>))"

lemma events_of_frame [simp]:
  "events_of (db\<lparr>jobs := js\<rparr>) t j = events_of db t j"
  "events_of (db\<lparr>job_artifacts := as\<rparr>) t j = events_of db t j"
  by (simp_all add: events_of_def)

lemma job_at_ident: "ident r' = ident r \<Longrightarrow> job_at t j r' = job_at t j r"
  by (simp add: ident_def job_at_def)

lemma job_ofD: "job_of db t j = Some r \<Longrightarrow> r \<in> set (jobs db) \<and> j_tenant r = t \<and> j_id r = j"
  unfolding job_of_def by (auto simp: job_at_def dest: sel_SomeD)

lemma job_of_mem:
  assumes "distinct (map (\<lambda>r. (j_tenant r, j_id r)) (jobs db))" "r \<in> set (jobs db)"
  shows "job_of db (j_tenant r) (j_id r) = Some r"
  unfolding job_of_def
  by (rule sel_unique [OF assms]) (auto simp: job_at_def)

lemma jobs_inv_log:
  assumes "jobs_inv db" "job_of db t j = Some r"
  shows "log_ok (events_of db t j) r"
  using assms job_ofD [OF assms(2)] by (auto simp: jobs_inv_def)

lemma jobs_inv_distinct: "jobs_inv db \<Longrightarrow> distinct (map (\<lambda>r. (j_tenant r, j_id r)) (jobs db))"
  by (simp add: jobs_inv_def)

lemma numbered_max: "numbered es \<Longrightarrow> foldr max (map ev_sequence es) 0 = length es"
proof -
  have *: "foldr max [1..<Suc n] (m::nat) = max n m" for n m
  proof (induction n arbitrary: m)
    case (Suc n)
    have "[1..<Suc (Suc n)] = [1..<Suc n] @ [Suc n]" by simp
    then have "foldr max [1..<Suc (Suc n)] m = foldr max [1..<Suc n] (max (Suc n) m)"
      by (simp only: foldr_append foldr.simps o_def id_def)
    also have "\<dots> = max (Suc n) m" by (subst Suc.IH) simp
    finally show ?case .
  qed simp
  show "numbered es \<Longrightarrow> foldr max (map ev_sequence es) 0 = length es"
    unfolding numbered_def by (simp only: * max_0R)
qed

lemma numbered_snoc [simp]:
  "numbered (es @ [e]) \<longleftrightarrow> numbered es \<and> ev_sequence e = Suc (length es)"
  by (auto simp: numbered_def)

lemma events_of_append:
  assumes "job_events db' = job_events db @ es" "\<forall>e \<in> set es. ev_tenant e = t \<and> ev_job e = j"
  shows "events_of db' t' j' = events_of db t' j' @ (if t' = t \<and> j' = j then es else [])"
proof -
  have "filter (\<lambda>e. ev_tenant e = t' \<and> ev_job e = j') es = (if t' = t \<and> j' = j then es else [])"
    using assms(2) by (auto simp: filter_empty_conv)
  with assms(1) show ?thesis by (simp add: events_of_def)
qed

lemma upd_same_row:
  assumes "distinct (map (\<lambda>r. (j_tenant r, j_id r)) js)" "sel (job_at t j) js = Some r" "P (j_status r)"
  shows "upd (\<lambda>r. job_at t j r \<and> P (j_status r)) f js = upd (job_at t j) (\<lambda>_. f r) js"
proof -
  have "s = r" if "s \<in> set js" "job_at t j s" for s
    using distinct_key_eq [OF assms(1) that(1), of r] that(2) sel_SomeD [OF assms(2)]
    by (simp add: job_at_def)
  then show ?thesis using assms(3) by (auto simp: upd_def)
qed

lemma moves_job_of:
  assumes "moves db t j r r' es db'"
  shows "job_of db' t' j' = (if t' = t \<and> j' = j then Some r' else job_of db t' j')"
proof -
  have at: "job_at t j r" "job_at t j r'"
    using job_ofD [of db t j r] assms by (simp_all add: moves_def job_at_def ident_def)
  show ?thesis
  proof (cases "t' = t \<and> j' = j")
    case True
    with at assms show ?thesis
      by (auto simp: moves_def job_of_def sel_upd)
  next
    case False
    with at have "sel (job_at t' j') (upd (job_at t j) (\<lambda>_. r') (jobs db)) = sel (job_at t' j') (jobs db)"
      by (intro sel_upd_other) (auto simp: job_at_def)
    with False assms show ?thesis by (auto simp: moves_def job_of_def)
  qed
qed

lemma moves_get: "moves db t j r r' es db' \<Longrightarrow> get t j db' = ok (row_to_job r') db'"
  by (simp add: get_def moves_job_of)

lemma upd_const_upd:
  assumes "job_at t j r'"
  shows "upd (job_at t j) (\<lambda>_. r'') (upd (job_at t j) (\<lambda>_. r') js) = upd (job_at t j) (\<lambda>_. r'') js"
  using assms by (simp add: upd_def)

lemma moves_base:
  assumes "jobs_inv db" "job_of db t j = Some r"
  shows "moves db t j r r [] db"
proof -
  have "upd (job_at t j) (\<lambda>_. r) (jobs db) = upd (\<lambda>r. job_at t j r \<and> True) (\<lambda>r. r) (jobs db)"
    using assms by (intro upd_same_row [symmetric]) (auto simp: job_of_def jobs_inv_distinct)
  also have "\<dots> = jobs db" by (induction "jobs db") (simp_all add: upd_def)
  finally show ?thesis using assms jobs_inv_log [OF assms]
    by (simp add: moves_def log_ok_def jobs_inv_distinct)
qed

lemma moves_set:
  assumes m: "moves db t j r r' es db'" and "P (j_status r')" "ident (f r') = ident r'"
  shows "moves db t j r (f r') es (set_job t j P f db')"
proof -
  have d: "distinct (map (\<lambda>r. (j_tenant r, j_id r)) (jobs db'))"
  proof -
    have "map (\<lambda>r. (j_tenant r, j_id r)) (jobs db') = map (\<lambda>r. (j_tenant r, j_id r)) (jobs db)"
      using m job_ofD by (auto simp: moves_def job_at_def ident_def intro!: map_upd)
    with m show ?thesis by (simp add: moves_def)
  qed
  have s: "sel (job_at t j) (jobs db') = Some r'"
    using moves_job_of [OF m] by (simp add: job_of_def)
  have "upd (\<lambda>r. job_at t j r \<and> P (j_status r)) f (jobs db') = upd (job_at t j) (\<lambda>_. f r') (jobs db')"
    by (rule upd_same_row [where P = P, OF d s assms(2)])
  also have "\<dots> = upd (job_at t j) (\<lambda>_. f r') (jobs db)"
    using m sel_SomeD [OF s] by (simp add: moves_def upd_const_upd)
  finally show ?thesis using m assms(3)
    by (simp add: moves_def set_job_def)
qed

lemma moves_append:
  assumes m: "moves db t j r r' es db'"
  shows "moves db t j r r' (es @ [\<lparr>ev_tenant = t, ev_job = j,
      ev_sequence = Suc (length (events_of db' t j)), ev_type = ty, ev_payload = p,
      ev_created_at = now\<rparr>]) (append_event t j ty p now db')"
proof -
  have n: "numbered (events_of db' t j)" using m by (simp add: moves_def)
  have e: "events_of (append_event t j ty p now db') t j = events_of db' t j @ [\<lparr>ev_tenant = t,
      ev_job = j, ev_sequence = Suc (length (events_of db' t j)), ev_type = ty, ev_payload = p,
      ev_created_at = now\<rparr>]"
    by (simp add: append_event_def events_of_def numbered_max [OF n [unfolded events_of_def]])
  show ?thesis using m n
    by (simp add: moves_def e) (simp add: append_event_def numbered_max)
qed

lemma moves_artifacts:
  "moves db t j r r' es db' \<Longrightarrow> moves db t j r r' es (db'\<lparr>job_artifacts := as\<rparr>)"
  by (simp add: moves_def)

definition path :: "jobs_db \<Rightarrow> string \<Rightarrow> string \<Rightarrow> job_row \<Rightarrow> job_event_type list \<Rightarrow> job_row \<Rightarrow> jobs_db \<Rightarrow> bool" where
  "path db t j r tys r' db' = (\<exists>es. map ev_type es = tys \<and> moves db t j r r' es db')"

lemma path_base: "jobs_inv db \<Longrightarrow> job_of db t j = Some r \<Longrightarrow> path db t j r [] r db"
  using moves_base by (fastforce simp: path_def)

lemma path_append:
  "path db t j r tys r' db' \<Longrightarrow> path db t j r (tys @ [ty]) r' (append_event t j ty p now db')"
  unfolding path_def
  by (elim exE conjE, rule exI, rule conjI [rotated], erule moves_append, simp)

lemma path_set:
  "path db t j r tys r' db' \<Longrightarrow> P (j_status r') \<Longrightarrow> ident (f r') = ident r' \<Longrightarrow>
   path db t j r tys (f r') (set_job t j P f db')"
  unfolding path_def using moves_set by blast

lemma path_artifacts:
  "path db t j r tys r' db' \<Longrightarrow> path db t j r tys r' (db'\<lparr>job_artifacts := as\<rparr>)"
  unfolding path_def using moves_artifacts by blast

lemma path_cancel:
  "path db t j r tys r' db' \<Longrightarrow> j_status r' \<notin> TERMINAL_STATUSES \<Longrightarrow>
   path db t j r (tys @ [EvCancelled])
     (r'\<lparr>j_status := Cancelled, j_updated_at := now, j_finished_at := Some now\<rparr>)
     (cancel_in_connection t j reason now db')"
  unfolding cancel_in_connection_def
  by (rule path_append, rule path_set) (auto simp: ident_def)

lemma path_add_artifacts:
  assumes "path db t j r tys r' db'" "add_artifacts t j now ws db' = Some db''"
  shows "path db t j r (tys @ replicate (length ws) EvArtifactReady) r' db''"
  using assms
proof (induction ws arbitrary: db' tys)
  case (Cons w ws)
  obtain aid a where w: "w = (aid, a)" by fastforce
  let ?p = "JObj [(''artifact_id'', JStr aid), (''name'', JStr (aw_name a))]"
  let ?row = "job_artifact_write.extend a
    \<lparr>ja_tenant = t, ja_job = j, ja_id = aid, ja_created_at = now\<rparr>"
  have "path db t j r (tys @ [EvArtifactReady]) r'
    (append_event t j EvArtifactReady ?p now
      (db'\<lparr>job_artifacts := job_artifacts db' @ [?row]\<rparr>))"
    by (intro path_append path_artifacts Cons.prems(1))
  from Cons.IH [OF this] Cons.prems(2) w show ?case
    by (simp split: if_splits)
qed simp

lemma path_job_of:
  "path db t j r tys r' db' \<Longrightarrow>
   job_of db' t' j' = (if t' = t \<and> j' = j then Some r' else job_of db t' j')"
  unfolding path_def using moves_job_of by blast

lemma path_get: "path db t j r tys r' db' \<Longrightarrow> get t j db' = ok (row_to_job r') db'"
  unfolding path_def using moves_get by blast

lemma stepI:
  assumes "path db t j r tys r' db'" "j_status r \<notin> TERMINAL_STATUSES"
    "replay_from (j_status r) tys = Some (j_status r')"
    "j_attempt_count r' = j_attempt_count r + count_list tys EvRunning"
  shows "job_step db db'"
  using assms step_move unfolding path_def legal_def by blast

lemma snd_get [simp]: "snd (get t j db) = db"
  by (simp add: get_def split: option.splits)

lemma get_eqD: "get t j db = (x, db') \<Longrightarrow> db' = db"
  by (metis snd_conv snd_get)

lemma replay_from_append:
  "replay_from s (as @ bs) = (case replay_from s as of None \<Rightarrow> None | Some s' \<Rightarrow> replay_from s' bs)"
  by (induction as arbitrary: s) (auto split: option.splits)

lemma replay_from_artifacts: "replay_from Running (replicate n EvArtifactReady) = Some Running"
  by (induction n) auto

lemma count_list_artifacts [simp]: "count_list (replicate n EvArtifactReady) EvRunning = 0"
  by (induction n) auto

lemma terminal_simps [simp]:
  "Queued \<notin> TERMINAL_STATUSES" "Running \<notin> TERMINAL_STATUSES" "CancelRequested \<notin> TERMINAL_STATUSES"
  "Succeeded \<in> TERMINAL_STATUSES" "JobFailed \<in> TERMINAL_STATUSES" "Cancelled \<in> TERMINAL_STATUSES"
  by (auto simp: TERMINAL_STATUSES_def)

lemma terminal_cases: "s \<in> TERMINAL_STATUSES \<or> s = Queued \<or> s = Running \<or> s = CancelRequested"
  by (cases s) auto

section \<open>Every operation is a move\<close>

lemma cancel_step:
  assumes "jobs_inv db" "job_of db t j = Some r" "j_status r \<notin> TERMINAL_STATUSES"
  shows "job_step db (cancel_in_connection t j reason now db)"
  by (rule stepI [OF path_cancel [OF path_base [OF assms(1,2)] assms(3)] assms(3)])
    (use assms(3) terminal_cases [of "j_status r"] in auto)

lemma claim_path:
  assumes "jobs_inv db" "job_of db t j = Some r" "j_status r = Queued"
  shows "\<exists>db'. path db t j r [EvRunning]
      (r\<lparr>j_status := Running, j_attempt_count := Suc (j_attempt_count r), j_updated_at := now,
         j_started_at := Some now, j_finished_at := None, j_error := None\<rparr>) db' \<and>
    claim t j now db = ok (Some (row_to_job
      (r\<lparr>j_status := Running, j_attempt_count := Suc (j_attempt_count r), j_updated_at := now,
         j_started_at := Some now, j_finished_at := None, j_error := None\<rparr>))) db'"
proof -
  let ?f = "\<lambda>r. r\<lparr>j_status := Running, j_attempt_count := Suc (j_attempt_count r),
    j_updated_at := now, j_started_at := Some now, j_finished_at := None, j_error := None\<rparr>"
  let ?db1 = "set_job t j (\<lambda>s. s = Queued) ?f db"
  let ?db2 = "append_event t j EvRunning
    (JObj [(''attempt'', JInt (int (Suc (j_attempt_count r))))]) now ?db1"
  have p1: "path db t j r [] (?f r) ?db1"
    by (rule path_set [OF path_base [OF assms(1,2)]]) (simp_all add: assms(3) ident_def)
  have p2: "path db t j r [EvRunning] (?f r) ?db2"
    using path_append [OF p1] by simp
  have "claim t j now db = ok (Some (row_to_job (?f r))) ?db2"
    using assms(2,3) path_job_of [OF p1, of t j] path_get [OF p2] by (simp add: claim_def Let_def)
  with p2 show ?thesis by blast
qed

lemma claim_step:
  assumes "jobs_inv db"
  shows "snd (claim t j now db) = db \<or> job_step db (snd (claim t j now db))"
proof (cases "\<exists>r. job_of db t j = Some r \<and> j_status r = Queued")
  case True
  then obtain r where r: "job_of db t j = Some r" "j_status r = Queued" by blast
  from claim_path [OF assms r] obtain db' x where
    "path db t j r [EvRunning] (r\<lparr>j_status := Running, j_attempt_count := Suc (j_attempt_count r),
       j_updated_at := now, j_started_at := Some now, j_finished_at := None, j_error := None\<rparr>) db'"
    "claim t j now db = ok x db'" by blast
  then show ?thesis using stepI r by fastforce
qed (auto simp: claim_def split: option.splits)

lemma progress_step:
  assumes "jobs_inv db"
  shows "snd (progress t j p now db) = db \<or> job_step db (snd (progress t j p now db))"
proof (cases "\<exists>r. job_of db t j = Some r \<and> j_status r = Running")
  case True
  then obtain r where r: "job_of db t j = Some r" "j_status r = Running" by blast
  have "job_step db (append_event t j EvProgress p now db)"
    by (rule stepI [OF path_append [OF path_base [OF assms r(1)]]]) (simp_all add: r)
  with r show ?thesis by (simp add: progress_def)
qed (auto simp: progress_def split: option.splits)

lemma complete_path:
  assumes "jobs_inv db" "job_of db t j = Some r" "j_status r = Running"
    "add_artifacts t j now (draw aids (hr_artifacts result)) db = Some db1"
  shows "\<exists>db'. path db t j r (replicate (length (hr_artifacts result)) EvArtifactReady @ [EvCompleted])
      (r\<lparr>j_status := Succeeded, j_result := Some (result_json result), j_error := None,
         j_updated_at := now, j_finished_at := Some now\<rparr>) db' \<and>
    complete t j result aids now db = ok (row_to_job
      (r\<lparr>j_status := Succeeded, j_result := Some (result_json result), j_error := None,
         j_updated_at := now, j_finished_at := Some now\<rparr>)) db'"
proof -
  let ?f = "\<lambda>r. r\<lparr>j_status := Succeeded, j_result := Some (result_json result), j_error := None,
    j_updated_at := now, j_finished_at := Some now\<rparr>"
  let ?db' = "append_event t j EvCompleted
    (JObj [(''artifact_count'', JInt (int (length (hr_artifacts result)))),
       (''summary'', JStr (hr_summary result))]) now (set_job t j (\<lambda>s. s = Running) ?f db1)"
  have "path db t j r (replicate (length (hr_artifacts result)) EvArtifactReady) r db1"
    using path_add_artifacts [OF path_base [OF assms(1,2)] assms(4)] by (simp add: draw_def)
  then have p: "path db t j r (replicate (length (hr_artifacts result)) EvArtifactReady @ [EvCompleted])
      (?f r) ?db'"
    by (intro path_append path_set [where f = ?f]) (simp_all add: assms(3) ident_def)
  have "complete t j result aids now db = ok (row_to_job (?f r)) ?db'"
    using assms(2-4) path_get [OF p] by (simp add: complete_def)
  with p show ?thesis by blast
qed

lemma complete_step:
  assumes "jobs_inv db"
  shows "snd (complete t j result aids now db) = db \<or> job_step db (snd (complete t j result aids now db))"
proof (cases "job_of db t j")
  case (Some r)
  consider (cancel) "j_status r = CancelRequested"
    | (run) db1 where "j_status r = Running"
        "add_artifacts t j now (draw aids (hr_artifacts result)) db = Some db1"
    | (clash) "j_status r = Running"
        "add_artifacts t j now (draw aids (hr_artifacts result)) db = None"
    | (stay) "j_status r \<noteq> Running" "j_status r \<noteq> CancelRequested" by fastforce
  then show ?thesis
  proof cases
    case cancel
    with Some cancel_step [OF assms Some] show ?thesis by (simp add: complete_def)
  next
    case run
    from complete_path [OF assms Some run] obtain db' x where
      "path db t j r (replicate (length (hr_artifacts result)) EvArtifactReady @ [EvCompleted])
        (r\<lparr>j_status := Succeeded, j_result := Some (result_json result), j_error := None,
         j_updated_at := now, j_finished_at := Some now\<rparr>) db'"
      "complete t j result aids now db = ok x db'" by blast
    moreover from this(1) have "job_step db db'"
      by (rule stepI) (simp_all add: run replay_from_append replay_from_artifacts)
    ultimately show ?thesis by simp
  qed (simp_all add: complete_def Some)
qed (simp add: complete_def)

lemma fail_step:
  assumes "jobs_inv db"
  shows "snd (fail t j e now db) = db \<or> job_step db (snd (fail t j e now db))"
proof (cases "job_of db t j")
  case (Some r)
  have "job_step db (append_event t j EvFailed (error_json e) now
     (set_job t j (\<lambda>s. s = Running) (\<lambda>r. r\<lparr>j_status := JobFailed, j_error := Some (error_json e),
        j_result := None, j_updated_at := now, j_finished_at := Some now\<rparr>) db))"
    if "j_status r = Running"
    by (rule stepI, rule path_append, rule path_set, rule path_base [OF assms Some])
      (simp_all add: that ident_def)
  with cancel_step [OF assms Some] Some show ?thesis by (simp add: fail_def)
qed (simp add: fail_def)

lemma request_cancel_step:
  assumes "jobs_inv db"
  shows "snd (request_cancel t j now db) = db \<or> job_step db (snd (request_cancel t j now db))"
proof (cases "job_of db t j")
  case (Some r)
  let ?db1 = "append_event t j EvCancelRequested (JObj []) now db"
  have p: "path db t j r ([] @ [EvCancelRequested]) r ?db1"
    by (rule path_append [OF path_base [OF assms Some]])
  have "job_step db (cancel_in_connection t j ''cancelled_before_start'' now ?db1)"
    if "j_status r = Queued"
    by (rule stepI [OF path_cancel [OF p]]) (simp_all add: that)
  moreover have "job_step db (set_job t j (\<lambda>s. s = Running)
      (\<lambda>r. r\<lparr>j_status := CancelRequested, j_updated_at := now\<rparr>) ?db1)"
    if "j_status r = Running"
    by (rule stepI, rule path_set, rule p) (simp_all add: that ident_def)
  ultimately show ?thesis using Some terminal_cases [of "j_status r"]
    by (auto simp: request_cancel_def Let_def)
qed (simp add: request_cancel_def)

lemma mark_cancelled_step:
  assumes "jobs_inv db"
  shows "snd (mark_cancelled t j rsn now db) = db \<or> job_step db (snd (mark_cancelled t j rsn now db))"
  using cancel_step [OF assms] by (simp add: mark_cancelled_def split: option.splits)

lemma requeue_step:
  assumes "jobs_inv db"
  shows "snd (requeue_interrupted t j now db) = db \<or> job_step db (snd (requeue_interrupted t j now db))"
proof (cases "job_of db t j")
  case (Some r)
  have "job_step db (append_event t j EvRecovered (JObj [(''reason'', JStr ''service_shutdown'')]) now
     (set_job t j (\<lambda>s. s = Running)
       (\<lambda>r. r\<lparr>j_status := Queued, j_updated_at := now, j_started_at := None\<rparr>) db))"
    if "j_status r = Running"
    by (rule stepI, rule path_append, rule path_set, rule path_base [OF assms Some])
      (simp_all add: that ident_def)
  with cancel_step [OF assms Some] Some show ?thesis by (simp add: requeue_interrupted_def)
qed (simp add: requeue_interrupted_def)

section \<open>What moves keep\<close>

lemma replay_append:
  "replay as = Some s \<Longrightarrow> replay (as @ bs) = replay_from s bs"
  by (cases as rule: replay.cases) (auto simp: replay_from_append)

lemma moves_ident:
  assumes "moves db t j r r' es db'"
  shows "map ident (jobs db') = map ident (jobs db)"
proof -
  have "ident s = ident r" if "s \<in> set (jobs db)" "job_at t j s" for s
  proof -
    have "job_of db t j = Some s" using assms that job_of_mem [of db s]
      by (auto simp: moves_def job_at_def)
    with assms show ?thesis by (simp add: moves_def)
  qed
  with assms show ?thesis by (auto simp: moves_def upd_def)
qed

lemma ident_keys:
  assumes "map ident js = map ident js'"
  shows "map (\<lambda>r. (j_tenant r, j_id r)) js = map (\<lambda>r. (j_tenant r, j_id r)) js'"
    "map (\<lambda>r. (j_tenant r, j_idempotency_key r)) js = map (\<lambda>r. (j_tenant r, j_idempotency_key r)) js'"
proof -
  have "map (\<lambda>(a, b, c). (a, b)) (map ident js) = map (\<lambda>(a, b, c). (a, b)) (map ident js')"
    "map (\<lambda>(a, b, c, d). (a, c)) (map ident js) = map (\<lambda>(a, b, c, d). (a, c)) (map ident js')"
    using assms by simp_all
  then show "map (\<lambda>r. (j_tenant r, j_id r)) js = map (\<lambda>r. (j_tenant r, j_id r)) js'"
    "map (\<lambda>r. (j_tenant r, j_idempotency_key r)) js = map (\<lambda>r. (j_tenant r, j_idempotency_key r)) js'"
    by (simp_all add: ident_def o_def)
qed

lemma job_at_mem_ident:
  assumes "map ident js' = map ident js" "r \<in> set js" "job_at t j r"
  shows "\<exists>r' \<in> set js'. job_at t j r'"
proof -
  have "(t, j) \<in> set (map (\<lambda>r. (j_tenant r, j_id r)) js')"
    using assms(2,3) by (subst ident_keys [OF assms(1)]) (auto simp: job_at_def)
  then show ?thesis by (auto simp: job_at_def)
qed

lemma job_step_inv:
  assumes "jobs_inv db" "job_step db db'"
  shows "jobs_inv db'"
  using assms(2)
proof cases
  case (step_move t j r r' es)
  note m = step_move(1)
  have es: "job_events db' = job_events db @ es" "\<forall>e \<in> set es. ev_tenant e = t \<and> ev_job e = j"
    using m by (auto simp: moves_def)
  note ev = events_of_append [OF es]
  note ids = moves_ident [OF m]
  have d: "distinct (map (\<lambda>r. (j_tenant r, j_id r)) (jobs db'))"
    "distinct (map (\<lambda>r. (j_tenant r, j_idempotency_key r)) (jobs db'))"
    using assms(1) ident_keys [OF ids] by (auto simp: jobs_inv_def)
  have "log_ok (events_of db' (j_tenant s) (j_id s)) s" if "s \<in> set (jobs db')" for s
  proof (cases "j_tenant s = t \<and> j_id s = j")
    case True
    have "s = r'" using job_of_mem [OF d(1) that] True moves_job_of [OF m, of t j] by simp
    with True step_move jobs_inv_log [OF assms(1), of t j r] m show ?thesis
      by (simp add: log_ok_def ev legal_def moves_def replay_append)
  next
    case False
    with job_of_mem [OF d(1) that] moves_job_of [OF m] have
      "job_of db (j_tenant s) (j_id s) = Some s" by auto
    from jobs_inv_log [OF assms(1) this] False show ?thesis unfolding ev by auto
  qed
  moreover have "\<exists>r \<in> set (jobs db'). job_at (ev_tenant e) (ev_job e) r" if "e \<in> set (job_events db')" for e
  proof -
    have "\<exists>r \<in> set (jobs db). job_at (ev_tenant e) (ev_job e) r"
      using that assms(1) es m job_ofD [of db t j r]
      by (auto simp: jobs_inv_def moves_def job_at_def)
    then show ?thesis using job_at_mem_ident [OF ids] by blast
  qed
  ultimately show ?thesis using d by (simp add: jobs_inv_def)
qed

lemma events_of_none:
  assumes "jobs_inv db" "job_of db t j = None"
  shows "events_of db t j = []"
  using assms by (fastforce simp: jobs_inv_def events_of_def job_of_def sel_None filter_empty_conv)

lemma job_trans_inv: "job_trans db db' \<Longrightarrow> jobs_inv db \<Longrightarrow> jobs_inv db'"
proof (induction rule: job_trans.induct)
  case (trans_new db row p now)
  let ?t = "j_tenant row" and ?j = "j_id row"
  let ?e = "\<lparr>ev_tenant = ?t, ev_job = ?j, ev_sequence = 1, ev_type = EvQueued, ev_payload = p,
    ev_created_at = now\<rparr>"
  have none: "events_of db ?t ?j = []" using events_of_none trans_new by simp
  then have db': "append_event ?t ?j EvQueued p now (db\<lparr>jobs := jobs db @ [row]\<rparr>) =
      db\<lparr>jobs := jobs db @ [row], job_events := job_events db @ [?e]\<rparr>"
    by (simp add: append_event_def)
  have ev: "events_of (db\<lparr>jobs := jobs db @ [row], job_events := job_events db @ [?e]\<rparr>) t j =
      events_of db t j @ (if t = ?t \<and> j = ?j then [?e] else [])" for t j
    by (auto simp: events_of_def)
  have fresh: "\<not> (j_tenant s = ?t \<and> j_id s = ?j)" if "s \<in> set (jobs db)" for s
    using trans_new(1) that by (auto simp: job_of_def sel_None job_at_def)
  have "log_ok (events_of db (j_tenant s) (j_id s) @
      (if j_tenant s = ?t \<and> j_id s = ?j then [?e] else [])) s" if "s \<in> set (jobs db @ [row])" for s
  proof (cases "s = row")
    case True
    with none trans_new show ?thesis by (simp add: log_ok_def numbered_def)
  next
    case False
    with that trans_new fresh [of s] show ?thesis by (auto simp: jobs_inv_def)
  qed
  moreover have "distinct (map (\<lambda>r. (j_tenant r, j_id r)) (jobs db @ [row]))"
    "distinct (map (\<lambda>r. (j_tenant r, j_idempotency_key r)) (jobs db @ [row]))"
    using trans_new by (auto simp: jobs_inv_def job_of_def job_keyed_def sel_None job_at_def)
  ultimately show ?case using trans_new(5) unfolding db' jobs_inv_def ev
    by (auto simp: job_at_def)
qed (rule job_step_inv)

lemma jobs_inv_empty: "jobs_inv empty_jobs_db"
  by (simp add: jobs_inv_def empty_jobs_db_def)

interpretation job_moves: invariant_system "\<lambda>db. db = empty_jobs_db" job_trans jobs_inv
  by unfold_locales (auto intro: job_trans_inv jobs_inv_empty)

section \<open>Creation\<close>

type_synonym job_request = "string \<times> string \<times> string \<times> int \<times> json \<times> string \<times> string \<times> timestamp"

fun create_req :: "job_request \<Rightarrow> (jobs_db, job_exc, job \<times> bool) oper" where
  "create_req (t, j, h, v, a, k, rh, now) db = create t j h v a k rh now db"

fun req_key :: "job_request \<Rightarrow> string \<times> string" where
  "req_key (t, j, h, v, a, k, rh, now) = (t, k)"

fun req_hash :: "job_request \<Rightarrow> string" where
  "req_hash (t, j, h, v, a, k, rh, now) = rh"

fun is_create :: "job_call \<Rightarrow> bool" where
  "is_create (JCreate t j h v a k rh now) = True"
| "is_create _ = False"

definition job_other :: "jobs_db \<Rightarrow> jobs_db \<Rightarrow> bool" where
  "job_other db db' = (\<exists>c. \<not> is_create c \<and> db' = snd (job_exec c db))"

definition new_job :: "string \<Rightarrow> string \<Rightarrow> string \<Rightarrow> int \<Rightarrow> json \<Rightarrow> string \<Rightarrow> string \<Rightarrow> timestamp \<Rightarrow> job_row" where
  "new_job t j h v a k rh now = \<lparr>j_tenant = t, j_id = j, j_handler_name = h,
     j_handler_version = v, j_status = Queued, j_arguments = a,
     j_result = None, j_error = None, j_idempotency_key = k, j_attempt_count = 0,
     j_created_at = now, j_updated_at = now, j_started_at = None,
     j_finished_at = None, j_request_hash = rh\<rparr>"

lemma new_job_simps [simp]:
  "j_tenant (new_job t j h v a k rh now) = t" "j_id (new_job t j h v a k rh now) = j"
  "j_status (new_job t j h v a k rh now) = Queued" "j_attempt_count (new_job t j h v a k rh now) = 0"
  "j_idempotency_key (new_job t j h v a k rh now) = k"
  "j_request_hash (new_job t j h v a k rh now) = rh"
  by (simp_all add: new_job_def)

lemma jobs_append_event [simp]: "jobs (append_event t j ty p now db) = jobs db"
  by (simp add: append_event_def Let_def)

lemma create_new:
  assumes "job_keyed db (t, k) = None" "job_of db t j = None"
  shows "create t j h v a k rh now db = ok (row_to_job (new_job t j h v a k rh now), True)
    (append_event t j EvQueued (JObj [(''handler'', JStr h), (''version'', JInt v)]) now
       (db\<lparr>jobs := jobs db @ [new_job t j h v a k rh now]\<rparr>))"
proof -
  have "sel (job_at t j) (jobs db @ [new_job t j h v a k rh now]) = Some (new_job t j h v a k rh now)"
    using assms(2) by (simp add: job_of_def sel_append job_at_def)
  then show ?thesis
    using assms by (simp add: create_def Let_def get_def job_of_def new_job_def [symmetric])
qed

lemma create_cases:
  assumes "create t j h v a k rh now db = (x, db')"
  shows "(db' = db \<and> (\<exists>e. x = Inl e)) \<or>
    (\<exists>row. db' = db \<and> job_keyed db (t, k) = Some row \<and> j_request_hash row = rh \<and>
       x = Inr (row_to_job row, False)) \<or>
    (job_keyed db (t, k) = None \<and> job_of db t j = None \<and>
     x = Inr (row_to_job (new_job t j h v a k rh now), True) \<and>
     db' = append_event t j EvQueued (JObj [(''handler'', JStr h), (''version'', JInt v)]) now
       (db\<lparr>jobs := jobs db @ [new_job t j h v a k rh now]\<rparr>))"
proof (cases "job_keyed db (t, k)")
  case None
  then show ?thesis
  proof (cases "job_of db t j")
    assume n: "job_of db t j = None"
    show ?thesis using assms create_new [OF None n] None n by auto
  qed (use assms None in \<open>auto simp: create_def\<close>)
qed (use assms in \<open>auto simp: create_def split: if_splits\<close>)

lemma create_trans:
  "snd (create t j h v a k rh now db) = db \<or> job_trans db (snd (create t j h v a k rh now db))"
proof -
  obtain x db' where c: "create t j h v a k rh now db = (x, db')" by fastforce
  from create_cases [OF this] show ?thesis
  proof (elim disjE)
    assume "job_keyed db (t, k) = None \<and> job_of db t j = None \<and>
     x = Inr (row_to_job (new_job t j h v a k rh now), True) \<and>
     db' = append_event t j EvQueued (JObj [(''handler'', JStr h), (''version'', JInt v)]) now
       (db\<lparr>jobs := jobs db @ [new_job t j h v a k rh now]\<rparr>)"
    then show ?thesis
      using trans_new [of db "new_job t j h v a k rh now"] c by simp
  qed (use c in auto)
qed

section \<open>The columns that never change\<close>

lemma ident_set_job:
  "(\<And>r. ident (f r) = ident r) \<Longrightarrow> jobs db = js \<Longrightarrow>
   map ident (jobs (set_job t j P f db)) = map ident js"
  by (simp add: set_job_def map_upd)

lemma ident_cancel [simp]:
  "map ident (jobs (cancel_in_connection t j rsn now db)) = map ident (jobs db)"
  unfolding cancel_in_connection_def jobs_append_event by (rule ident_set_job) (simp_all add: ident_def)

lemma ident_artifacts:
  "add_artifacts t j now ws db = Some db' \<Longrightarrow> jobs db' = jobs db"
  by (induction t j now ws db rule: add_artifacts.induct) (auto split: if_splits)

lemma snd_get_all [simp]: "snd (get_all ks db) = db"
  by (induction ks arbitrary: db)
    (auto split: prod.splits sum.splits dest!: get_eqD, (metis snd_conv)+)

lemma ident_recover_row:
  "map ident (jobs (fst (recover_row now row s))) = map ident (jobs (fst s))"
  by (cases s) (auto simp: recover_row_def Let_def ident_def intro!: ident_set_job)

lemma ident_recover: "map ident (jobs (snd (recover now db))) = map ident (jobs db)"
proof -
  have "map ident (jobs (fst (fold (recover_row now) rows s))) = map ident (jobs (fst s))" for rows s
    by (induction rows arbitrary: s) (simp_all add: ident_recover_row)
  then show ?thesis by (simp add: recover_def Let_def)
qed

lemma ident_complete: "map ident (jobs (snd (complete t j res aids now db))) = map ident (jobs db)"
  by (auto simp: complete_def ident_def split: option.splits dest: ident_artifacts intro!: ident_set_job)

lemma ident_exec: "\<not> is_create c \<Longrightarrow> map ident (jobs (snd (job_exec c db))) = map ident (jobs db)"
proof (cases c)
  case (JClaim t j now)
  then show ?thesis
    by (auto simp: claim_def Let_def ident_def split: option.splits prod.splits sum.splits
      dest!: get_eqD intro!: ident_set_job)
qed (auto simp: Let_def ident_recover ident_complete progress_def fail_def request_cancel_def
  mark_cancelled_def requeue_interrupted_def ident_def split: option.splits intro!: ident_set_job)

lemma keyed_ident:
  assumes "map ident js' = map ident js"
  shows "map_option j_request_hash (sel (\<lambda>r. (j_tenant r, j_idempotency_key r) = k) js') =
    map_option j_request_hash (sel (\<lambda>r. (j_tenant r, j_idempotency_key r) = k) js)"
  using assms by (induction js' js rule: list_induct2') (auto simp: ident_def)

interpretation job_requests: insert_once job_keyed j_request_hash row_to_job req_key req_hash
  create_req job_other
proof unfold_locales
  show "map_option j_request_hash (job_keyed db' k) = map_option j_request_hash (job_keyed db k)"
    if "job_other db db'" for db db' k
    using that ident_exec keyed_ident unfolding job_other_def job_keyed_def by blast
next
  fix r :: job_request and db v db'
  obtain t j h ve a k rh now where r: "r = (t, j, h, ve, a, k, rh, now)" by (cases r) auto
  show "db' = db \<and> (\<exists>row. job_keyed db (req_key r) = Some row \<and> row_to_job row = v \<and>
      j_request_hash row = req_hash r)" if "create_req r db = (Inr (v, False), db')"
    using create_cases [of t j h ve a k rh now db] that r by auto
  show "job_keyed db (req_key r) = None \<and> (\<exists>row. job_keyed db' (req_key r) = Some row \<and>
      row_to_job row = v \<and> j_request_hash row = req_hash r)"
    if "create_req r db = (Inr (v, True), db')"
    using create_cases [of t j h ve a k rh now db] that r by (auto simp: job_keyed_def sel_append)
  show "job_keyed db' k' = job_keyed db k'"
    if "create_req r db = (Inr (v, True), db')" "k' \<noteq> req_key r" for k'
    using create_cases [of t j h ve a k rh now db] that r
    by (auto simp: job_keyed_def sel_append split: option.splits)
next
  fix r :: job_request and db e db'
  show "db' = db" if "create_req r db = (Inl e, db')"
    using that by (cases r) (auto dest: create_cases)
next
  fix r :: job_request and db0 x db1 db row
  show "create_req r db = (Inr (row_to_job row, False), db)"
    if "create_req r db0 = (Inr x, db1)" "job_keyed db (req_key r) = Some row"
      "j_request_hash row = req_hash r"
    using that by (cases r) (auto simp: create_def)
qed

section \<open>Recovery\<close>

definition recovered :: "timestamp \<Rightarrow> job_row \<Rightarrow> job_row" where
  "recovered now r =
     (if j_status r = CancelRequested
      then r\<lparr>j_status := Cancelled, j_updated_at := now, j_finished_at := Some now\<rparr>
      else if j_status r = Running
      then r\<lparr>j_status := Queued, j_updated_at := now, j_started_at := None, j_finished_at := None\<rparr>
      else r)"

lemma ident_recovered [simp]: "ident (recovered now r) = ident r"
  by (simp add: recovered_def ident_def)

lemma recover_row_spec:
  assumes "jobs_inv db" "job_of db (j_tenant r) (j_id r) = Some r" "j_status r \<notin> TERMINAL_STATUSES"
  obtains db' where "recover_row now r (db, ids) =
      (db', ids @ (if j_status r = CancelRequested then [] else [(j_tenant r, j_id r)]))"
    "job_step\<^sup>*\<^sup>* db db'" "jobs_inv db'"
    "\<And>t j. job_of db' t j =
      (if t = j_tenant r \<and> j = j_id r then Some (recovered now r) else job_of db t j)"
proof -
  define db' where "db' = fst (recover_row now r (db, ids))"
  have row: "recover_row now r (db, ids) =
      (db', ids @ (if j_status r = CancelRequested then [] else [(j_tenant r, j_id r)]))"
    by (simp add: db'_def recover_row_def Let_def)
  have "\<exists>tys. path db (j_tenant r) (j_id r) r tys (recovered now r) db' \<and> (db' = db \<or> job_step db db')"
  proof -
    note base = path_base [OF assms(1,2)]
    consider "j_status r = CancelRequested" | "j_status r = Running" | "j_status r = Queued"
      using assms(3) terminal_cases by blast
    then show ?thesis
    proof cases
      case 1
      have p: "path db (j_tenant r) (j_id r) r ([] @ [EvCancelled]) (recovered now r) db'"
        unfolding db'_def recovered_def recover_row_def Let_def using 1
        by simp (rule path_append [where tys = "[]", simplified], rule path_set [OF base]; simp add: ident_def)
      from stepI [OF p] 1 p show ?thesis by (auto simp: recovered_def)
    next
      case 2
      have p: "path db (j_tenant r) (j_id r) r ([] @ [EvRecovered]) (recovered now r) db'"
        unfolding db'_def recovered_def recover_row_def Let_def using 2
        by simp (rule path_append [where tys = "[]", simplified], rule path_set [OF base]; simp add: ident_def)
      from stepI [OF p] 2 p show ?thesis by (auto simp: recovered_def)
    next
      case 3
      then have "db' = db" "recovered now r = r" by (simp_all add: db'_def recover_row_def recovered_def)
      with base show ?thesis by auto
    qed
  qed
  then obtain tys where p: "path db (j_tenant r) (j_id r) r tys (recovered now r) db'"
    and s: "db' = db \<or> job_step db db'" by blast
  show thesis
    by (rule that [OF row]) (use s assms(1) job_step_inv path_job_of [OF p] in auto)
qed

lemma recover_fold:
  assumes "jobs_inv db" "distinct (map (\<lambda>r. (j_tenant r, j_id r)) rows)"
    "\<And>r. r \<in> set rows \<Longrightarrow> job_of db (j_tenant r) (j_id r) = Some r \<and> j_status r \<notin> TERMINAL_STATUSES"
  shows "\<exists>db'. fold (recover_row now) rows (db, ids) =
      (db', ids @ map (\<lambda>r. (j_tenant r, j_id r)) (filter (\<lambda>r. j_status r \<noteq> CancelRequested) rows)) \<and>
    job_step\<^sup>*\<^sup>* db db' \<and> jobs_inv db' \<and>
    (\<forall>r \<in> set rows. job_of db' (j_tenant r) (j_id r) = Some (recovered now r)) \<and>
    (\<forall>t j. (t, j) \<notin> (\<lambda>r. (j_tenant r, j_id r)) ` set rows \<longrightarrow> job_of db' t j = job_of db t j)"
  using assms
proof (induction rows arbitrary: db ids)
  case (Cons r rows)
  from Cons.prems have r: "job_of db (j_tenant r) (j_id r) = Some r" "j_status r \<notin> TERMINAL_STATUSES"
    by auto
  from recover_row_spec [OF Cons.prems(1) r] obtain db1 where db1:
    "recover_row now r (db, ids) =
      (db1, ids @ (if j_status r = CancelRequested then [] else [(j_tenant r, j_id r)]))"
    "job_step\<^sup>*\<^sup>* db db1" "jobs_inv db1"
    "\<And>t j. job_of db1 t j =
      (if t = j_tenant r \<and> j = j_id r then Some (recovered now r) else job_of db t j)"
    by metis
  have out: "(j_tenant r, j_id r) \<notin> (\<lambda>r. (j_tenant r, j_id r)) ` set rows"
    using Cons.prems(2) by auto
  have rest: "job_of db1 (j_tenant s) (j_id s) = Some s \<and> j_status s \<notin> TERMINAL_STATUSES"
    if s: "s \<in> set rows" for s
  proof -
    have "(j_tenant s, j_id s) \<noteq> (j_tenant r, j_id r)"
    proof
      assume eq: "(j_tenant s, j_id s) = (j_tenant r, j_id r)"
      show False using imageI [OF s, of "\<lambda>r. (j_tenant r, j_id r)"] out unfolding eq by contradiction
    qed
    with Cons.prems(3) [of s] s show ?thesis by (auto simp: db1(4))
  qed
  have d: "distinct (map (\<lambda>r. (j_tenant r, j_id r)) rows)" using Cons.prems(2) by simp
  note IH = Cons.IH [OF db1(3) d rest,
    of "ids @ (if j_status r = CancelRequested then [] else [(j_tenant r, j_id r)])"]
  then obtain db' where db':
    "fold (recover_row now) rows
       (db1, ids @ (if j_status r = CancelRequested then [] else [(j_tenant r, j_id r)])) =
     (db', (ids @ (if j_status r = CancelRequested then [] else [(j_tenant r, j_id r)])) @
       map (\<lambda>r. (j_tenant r, j_id r)) (filter (\<lambda>r. j_status r \<noteq> CancelRequested) rows))"
    "job_step\<^sup>*\<^sup>* db1 db'" "jobs_inv db'"
    "\<forall>r \<in> set rows. job_of db' (j_tenant r) (j_id r) = Some (recovered now r)"
    "\<forall>t j. (t, j) \<notin> (\<lambda>r. (j_tenant r, j_id r)) ` set rows \<longrightarrow> job_of db' t j = job_of db1 t j"
    by blast
  have "job_of db' (j_tenant r) (j_id r) = Some (recovered now r)"
    using db'(5) out by (simp add: db1(4))
  moreover have "job_of db' t j = job_of db t j"
    if "(t, j) \<notin> (\<lambda>r. (j_tenant r, j_id r)) ` set (r # rows)" for t j
    using db'(5) that by (auto simp: db1(4))
  ultimately show ?case
    using db'(1,3,4) db1(1) rtranclp_trans [OF db1(2) db'(2)]
    by (intro exI [of _ db']) simp
qed simp

lemma get_all_ok:
  "(\<And>r. r \<in> set rs \<Longrightarrow> job_of db (j_tenant r) (j_id r) = Some (f r)) \<Longrightarrow>
   get_all (map (\<lambda>r. (j_tenant r, j_id r)) rs) db = ok (map (\<lambda>r. row_to_job (f r)) rs) db"
  by (induction rs) (simp_all add: get_def)

definition open_rows :: "jobs_db \<Rightarrow> job_row list" where
  "open_rows db = sort_key (\<lambda>r. (j_created_at r, j_id r))
     (filter (\<lambda>r. j_status r \<in> {Queued, Running, CancelRequested}) (jobs db))"

lemma set_open_rows [simp]: "set (open_rows db) = {r \<in> set (jobs db). j_status r \<notin> TERMINAL_STATUSES}"
  using terminal_cases by (fastforce simp: open_rows_def)

lemma distinct_open_rows:
  assumes "distinct (map g (jobs db))"
  shows "distinct (map g (open_rows db))"
proof -
  have "distinct (map g (filter (\<lambda>r. j_status r \<in> {Queued, Running, CancelRequested}) (jobs db)))"
    using assms by (rule distinct_map_filter)
  then show ?thesis unfolding open_rows_def distinct_map by simp
qed

lemma recover_spec:
  assumes "jobs_inv db"
  obtains db' where
    "recover now db = ok (map (\<lambda>r. row_to_job (recovered now r))
       (filter (\<lambda>r. j_status r \<noteq> CancelRequested) (open_rows db))) db'"
    "job_step\<^sup>*\<^sup>* db db'" "jobs_inv db'"
    "\<And>t j. job_of db' t j = map_option (recovered now) (job_of db t j)"
proof -
  note d = jobs_inv_distinct [OF assms]
  have rows: "job_of db (j_tenant r) (j_id r) = Some r \<and> j_status r \<notin> TERMINAL_STATUSES"
    if "r \<in> set (open_rows db)" for r
    using that job_of_mem [OF d] by auto
  obtain db' where db': "fold (recover_row now) (open_rows db) (db, []) =
      (db', [] @ map (\<lambda>r. (j_tenant r, j_id r)) (filter (\<lambda>r. j_status r \<noteq> CancelRequested) (open_rows db)))"
    "job_step\<^sup>*\<^sup>* db db'" "jobs_inv db'"
    "\<forall>r \<in> set (open_rows db). job_of db' (j_tenant r) (j_id r) = Some (recovered now r)"
    "\<forall>t j. (t, j) \<notin> (\<lambda>r. (j_tenant r, j_id r)) ` set (open_rows db) \<longrightarrow> job_of db' t j = job_of db t j"
    using recover_fold [OF assms distinct_open_rows [OF d] rows, of now "[]"] by blast
  have all: "job_of db' t j = map_option (recovered now) (job_of db t j)" for t j
  proof (cases "(t, j) \<in> (\<lambda>r. (j_tenant r, j_id r)) ` set (open_rows db)")
    case True
    then obtain r where "r \<in> set (open_rows db)" "(t, j) = (j_tenant r, j_id r)" by (rule imageE)
    with db'(4) rows [of r] show ?thesis by simp
  next
    case False
    have "recovered now r = r" if "job_of db t j = Some r" for r
    proof -
      have "r \<notin> set (open_rows db)"
      proof
        assume "r \<in> set (open_rows db)"
        from imageI [OF this, of "\<lambda>r. (j_tenant r, j_id r)"] job_ofD [OF that] False
        show False by simp
      qed
      then have "j_status r \<in> TERMINAL_STATUSES" using job_ofD [OF that] by simp
      then show ?thesis by (auto simp: recovered_def)
    qed
    with False db'(5) show ?thesis by (cases "job_of db t j") auto
  qed
  have "get_all (map (\<lambda>r. (j_tenant r, j_id r)) (filter (\<lambda>r. j_status r \<noteq> CancelRequested) (open_rows db))) db' =
    ok (map (\<lambda>r. row_to_job (recovered now r))
       (filter (\<lambda>r. j_status r \<noteq> CancelRequested) (open_rows db))) db'"
    by (rule get_all_ok) (use db'(4) in simp)
  then have "recover now db = ok (map (\<lambda>r. row_to_job (recovered now r))
       (filter (\<lambda>r. j_status r \<noteq> CancelRequested) (open_rows db))) db'"
    unfolding recover_def Let_def open_rows_def [symmetric] db'(1) by simp
  then show thesis by (rule that) (use db' all in auto)
qed

section \<open>Runs of calls\<close>

lemma trans_steps: "job_step\<^sup>*\<^sup>* db db' \<Longrightarrow> job_trans\<^sup>*\<^sup>* db db'"
  by (induction rule: rtranclp_induct) (auto intro: rtranclp.rtrancl_into_rtrancl trans_step)

lemma exec_trans: "jobs_inv db \<Longrightarrow> job_trans\<^sup>*\<^sup>* db (snd (job_exec c db))"
proof -
  assume inv: "jobs_inv db"
  note one = r_into_rtranclp [of job_trans, OF trans_step]
  show ?thesis
  proof (cases c)
    case (JCreate t j h v a k rh now)
    then show ?thesis using create_trans [of t j h v a k rh now db] by (auto simp: Let_def)
  next
    case (JRecover now)
    then show ?thesis using recover_spec [OF inv, of now] trans_steps by (metis job_exec.simps(2) snd_conv)
  next
    case (JClaim t j now)
    then show ?thesis using claim_step [OF inv, of t j now] one by (auto simp: Let_def)
  next
    case (JProgress t j p now)
    then show ?thesis using progress_step [OF inv, of t j p now] one by (auto simp: Let_def)
  next
    case (JComplete t j r aids now)
    then show ?thesis using complete_step [OF inv, of t j r aids now] one by (auto simp: Let_def)
  next
    case (JFail t j e now)
    then show ?thesis using fail_step [OF inv, of t j e now] one by (auto simp: Let_def)
  next
    case (JRequestCancel t j now)
    then show ?thesis using request_cancel_step [OF inv, of t j now] one by (auto simp: Let_def)
  next
    case (JMarkCancelled t j rsn now)
    then show ?thesis using mark_cancelled_step [OF inv, of t j rsn now] one by (auto simp: Let_def)
  next
    case (JRequeue t j now)
    then show ?thesis using requeue_step [OF inv, of t j now] one by (auto simp: Let_def)
  qed
qed

interpretation job_calls: call_system job_exec empty_jobs_db jobs_inv
  by unfold_locales (auto intro: jobs_inv_empty job_moves.steps_inv exec_trans)

lemma run_trans: "jobs_inv db \<Longrightarrow> job_trans\<^sup>*\<^sup>* db (snd (run_calls job_exec cs db))"
proof (induction cs arbitrary: db)
  case (Cons c cs)
  have "jobs_inv (snd (job_exec c db))" using Cons.prems by (rule job_calls.inv_exec)
  from rtranclp_trans [OF exec_trans [OF Cons.prems] Cons.IH [OF this]] show ?case
    by (simp add: Let_def)
qed simp

text \<open>A move changes one open job; the log of every job only grows, along the automaton.\<close>

definition follows :: "jobs_db \<Rightarrow> jobs_db \<Rightarrow> bool" where
  "follows db db' = (\<forall>t j r. job_of db t j = Some r \<longrightarrow>
     (\<exists>r' es. job_of db' t j = Some r' \<and> events_of db' t j = events_of db t j @ es \<and>
        ident r' = ident r \<and> replay_from (j_status r) (map ev_type es) = Some (j_status r') \<and>
        (j_status r \<in> TERMINAL_STATUSES \<longrightarrow> r' = r)))"

lemma followsD:
  assumes "follows db db'" "job_of db t j = Some r"
  shows "\<exists>r' es. job_of db' t j = Some r' \<and> events_of db' t j = events_of db t j @ es \<and>
    ident r' = ident r \<and> replay_from (j_status r) (map ev_type es) = Some (j_status r') \<and>
    (j_status r \<in> TERMINAL_STATUSES \<longrightarrow> r' = r)"
  using assms unfolding follows_def by blast

lemma follows_step:
  assumes "job_step db db'"
  shows "follows db db'"
  using assms
proof cases
  case (step_move t j r r' es)
  note m = step_move(1)
  have es: "job_events db' = job_events db @ es" "\<forall>e \<in> set es. ev_tenant e = t \<and> ev_job e = j"
    "job_of db t j = Some r" "ident r' = ident r"
    using m by (auto simp: moves_def)
  have "\<exists>s' es'. job_of db' t' j' = Some s' \<and> events_of db' t' j' = events_of db t' j' @ es' \<and>
      ident s' = ident s \<and> replay_from (j_status s) (map ev_type es') = Some (j_status s') \<and>
      (j_status s \<in> TERMINAL_STATUSES \<longrightarrow> s' = s)" if "job_of db t' j' = Some s" for t' j' s
  proof (cases "t' = t \<and> j' = j")
    case True
    with that es step_move(2) moves_job_of [OF m] events_of_append [OF es(1,2)] show ?thesis
      by (intro exI [of _ r'] exI [of _ es]) (auto simp: legal_def)
  next
    case False
    with that moves_job_of [OF m] events_of_append [OF es(1,2)] show ?thesis
      by (intro exI [of _ s] exI [of _ "[]"]) auto
  qed
  then show ?thesis by (auto simp: follows_def)
qed

lemma follows_refl: "follows db db"
  by (auto simp: follows_def)

lemma follows_trans:
  assumes "follows db db'" "follows db' db''"
  shows "follows db db''"
  unfolding follows_def
proof (intro allI impI)
  fix t j r assume "job_of db t j = Some r"
  with assms(1) obtain r1 e1 where 1: "job_of db' t j = Some r1"
    "events_of db' t j = events_of db t j @ e1" "ident r1 = ident r"
    "replay_from (j_status r) (map ev_type e1) = Some (j_status r1)"
    "j_status r \<in> TERMINAL_STATUSES \<longrightarrow> r1 = r" unfolding follows_def by blast
  with assms(2) obtain r2 e2 where 2: "job_of db'' t j = Some r2"
    "events_of db'' t j = events_of db' t j @ e2" "ident r2 = ident r1"
    "replay_from (j_status r1) (map ev_type e2) = Some (j_status r2)"
    "j_status r1 \<in> TERMINAL_STATUSES \<longrightarrow> r2 = r1" unfolding follows_def by blast
  show "\<exists>r' es. job_of db'' t j = Some r' \<and> events_of db'' t j = events_of db t j @ es \<and>
        ident r' = ident r \<and> replay_from (j_status r) (map ev_type es) = Some (j_status r') \<and>
        (j_status r \<in> TERMINAL_STATUSES \<longrightarrow> r' = r)"
    by (intro exI [of _ r2] exI [of _ "e1 @ e2"]) (use 1 2 in \<open>auto simp: replay_from_append\<close>)
qed

lemma follows_job_trans: "job_trans db db' \<Longrightarrow> follows db db'"
proof (induction rule: job_trans.induct)
  case (trans_new db row p now)
  have "job_of (append_event t' j' EvQueued p now (db\<lparr>jobs := jobs db @ [row]\<rparr>)) t j =
      (case job_of db t j of None \<Rightarrow> sel (job_at t j) [row] | Some r \<Rightarrow> Some r)" for t j t' j'
    by (simp add: job_of_def sel_append)
  moreover have "events_of (append_event (j_tenant row) (j_id row) EvQueued p now
      (db\<lparr>jobs := jobs db @ [row]\<rparr>)) t j = events_of db t j"
    if "job_of db t j = Some r" for t j r
  proof -
    have "\<not> (j_tenant row = t \<and> j_id row = j)" using that trans_new(1) by auto
    then show ?thesis by (auto simp: append_event_def Let_def events_of_def)
  qed
  ultimately show ?case by (auto simp: follows_def)
qed (rule follows_step)

lemma run_follows: "jobs_inv db \<Longrightarrow> follows db (snd (run_calls job_exec cs db))"
  using run_trans [of db cs]
  by (induction rule: rtranclp_induct [consumes 2])
    (auto intro: follows_refl follows_trans follows_job_trans)

lemma replay_from_terminal: "replay_from s es = Some s' \<Longrightarrow> s \<in> TERMINAL_STATUSES \<Longrightarrow> es = []"
  by (cases s; cases es) (auto simp: TERMINAL_STATUSES_def split: option.splits)

lemma replay_from_cancel:
  "replay_from s es = Some s' \<Longrightarrow> s \<in> {CancelRequested, Cancelled} \<Longrightarrow> s' \<in> {CancelRequested, Cancelled}"
proof (induction es arbitrary: s)
  case (Cons e es)
  then show ?case by (cases s; cases e) auto
qed auto

lemma replay_from_closed:
  "replay_from s es = Some s' \<Longrightarrow> s \<notin> {Queued, Running} \<Longrightarrow>
   count_list es EvRunning = 0 \<and> s' \<notin> {Queued, Running}"
proof (induction es arbitrary: s)
  case (Cons e es)
  then show ?case by (cases s; cases e) auto
qed auto

lemma replay_attempts:
  "replay_from s es = Some s' \<Longrightarrow>
   count_list es EvRunning + (if s = Running then 1 else 0) \<le>
   count_list es EvRecovered + (if s' = Queued then 0 else 1)"
proof (induction es arbitrary: s)
  case (Cons e es)
  from Cons.prems obtain s1 where s1: "delta s e = Some s1" "replay_from s1 es = Some s'"
    by (auto split: option.splits)
  show ?case
  proof (cases "s1 \<in> {Queued, Running}")
    case True
    with s1(1) Cons.IH [OF s1(2)] show ?thesis by (cases s; cases e) (auto split: if_splits)
  next
    case False
    from replay_from_closed [OF s1(2) False] False s1(1) show ?thesis
      by (cases s; cases e) auto
  qed
qed auto

section \<open>Pages of the event log and completion\<close>

lemma filter_numbered:
  assumes "numbered es"
  shows "filter (\<lambda>e. m < ev_sequence e) es = drop m es"
  using assms
proof (induction es rule: rev_induct)
  case (snoc e es)
  then show ?case by (cases "m \<le> length es") auto
qed simp

lemma sort_key_numbered:
  assumes "numbered es"
  shows "sort_key ev_sequence (drop m es) = drop m es"
proof (rule sort_key_id_if_sorted)
  show "sorted (map ev_sequence (drop m es))"
    using assms by (simp add: numbered_def drop_map [symmetric] sorted_wrt_drop del: upt_Suc)
qed

lemma add_artifacts_rows:
  "add_artifacts t j now ws db = Some db' \<Longrightarrow>
   job_artifacts db' = job_artifacts db @ map (\<lambda>(aid, w). job_artifact_write.extend w
      \<lparr>ja_tenant = t, ja_job = j, ja_id = aid, ja_created_at = now\<rparr>) ws"
proof (induction ws arbitrary: db)
  case (Cons w ws)
  obtain aid a where w: "w = (aid, a)" by fastforce
  from Cons.prems Cons.IH show ?case
    by (fastforce simp: w append_event_def Let_def split: if_splits)
qed simp

section \<open>Properties\<close>

text \<open>
  C3: whatever calls the store receives, the event log of every job is numbered from one without a
  gap and determines the job's row: replaying it gives the row's status and its \<open>running\<close> events
  count the row's attempts; no event belongs to a job that does not exist, and the primary key and
  the tenant's idempotency keys are unique.
\<close>

theorem job_log_determines_row: "jobs_inv (snd (run_calls job_exec cs empty_jobs_db))"
  by (rule job_calls.run_start_inv)

text \<open>
  a succeeded, failed or cancelled job is final. No later sequence of calls, restarts included,
  changes its row or adds an event to its log.
\<close>

theorem terminal_jobs_are_final:
  assumes "db = snd (run_calls job_exec cs empty_jobs_db)"
    and "job_of db t j = Some r" "j_status r \<in> TERMINAL_STATUSES"
  shows "job_of (snd (run_calls job_exec cs' db)) t j = Some r \<and>
    events_of (snd (run_calls job_exec cs' db)) t j = events_of db t j"
proof -
  have "jobs_inv db" using assms(1) job_calls.run_start_inv by simp
  from followsD [OF run_follows [OF this, of cs'] assms(2)] obtain r' es where
    *: "job_of (snd (run_calls job_exec cs' db)) t j = Some r'"
      "events_of (snd (run_calls job_exec cs' db)) t j = events_of db t j @ es"
      "replay_from (j_status r) (map ev_type es) = Some (j_status r')"
      "j_status r \<in> TERMINAL_STATUSES \<longrightarrow> r' = r" by blast
  moreover have "es = []" using replay_from_terminal [OF *(3) assms(3)] by simp
  ultimately show ?thesis using assms(3) by auto
qed

theorem terminal_jobs_are_final_witness:
  "let db = snd (run_calls job_exec [JCreate ''t'' ''j'' ''h'' 1 JNull ''k'' ''rh'' (At 1),
       JRequestCancel ''t'' ''j'' (At 2)] empty_jobs_db)
   in \<exists>r. j_status r = Cancelled \<and>
     job_of (snd (run_calls job_exec [JRecover (At 3), JClaim ''t'' ''j'' (At 4)] db)) ''t'' ''j'' = Some r"
proof -
  let ?cs = "[JCreate ''t'' ''j'' ''h'' 1 JNull ''k'' ''rh'' (At 1), JRequestCancel ''t'' ''j'' (At 2)]"
  let ?r = "new_job ''t'' ''j'' ''h'' 1 JNull ''k'' ''rh'' (At 1)
    \<lparr>j_status := Cancelled, j_updated_at := At 2, j_finished_at := Some (At 2)\<rparr>"
  have r: "job_of (snd (run_calls job_exec ?cs empty_jobs_db)) ''t'' ''j'' = Some ?r" by code_simp
  have s: "j_status ?r = Cancelled" by simp
  then have "j_status ?r \<in> TERMINAL_STATUSES" by simp
  from terminal_jobs_are_final [OF refl r this] s show ?thesis unfolding Let_def by blast
qed

text \<open>
  an accepted cancellation request wins. Once a running job is \<open>cancel_requested\<close>, no later
  call, not even the handler's completion or failure, ends it in any other state than cancelled.
\<close>

theorem cancel_request_wins:
  assumes "db = snd (run_calls job_exec cs empty_jobs_db)"
    and "job_of db t j = Some r" "j_status r = CancelRequested"
  shows "\<exists>r'. job_of (snd (run_calls job_exec cs' db)) t j = Some r' \<and>
    j_status r' \<in> {CancelRequested, Cancelled}"
proof -
  have "jobs_inv db" using assms(1) job_calls.run_start_inv by simp
  from followsD [OF run_follows [OF this, of cs'] assms(2)] obtain r' and es :: "job_event list" where
    "job_of (snd (run_calls job_exec cs' db)) t j = Some r'"
    "replay_from (j_status r) (map ev_type es) = Some (j_status r')" by blast
  with assms(3) replay_from_cancel show ?thesis by blast
qed

theorem cancel_request_wins_witness:
  "let db = snd (run_calls job_exec [JCreate ''t'' ''j'' ''h'' 1 JNull ''k'' ''rh'' (At 1),
       JClaim ''t'' ''j'' (At 2), JRequestCancel ''t'' ''j'' (At 3)] empty_jobs_db)
   in \<exists>r'. job_of (snd (run_calls job_exec
       [JFail ''t'' ''j'' \<lparr>je_code = ''c'', je_message = ''m'', je_retryable = False\<rparr> (At 4)] db)) ''t'' ''j'' = Some r' \<and>
     j_status r' \<in> {CancelRequested, Cancelled}"
proof -
  let ?cs = "[JCreate ''t'' ''j'' ''h'' 1 JNull ''k'' ''rh'' (At 1), JClaim ''t'' ''j'' (At 2),
    JRequestCancel ''t'' ''j'' (At 3)]"
  let ?r = "new_job ''t'' ''j'' ''h'' 1 JNull ''k'' ''rh'' (At 1)
    \<lparr>j_status := CancelRequested, j_updated_at := At 3, j_attempt_count := 1,
     j_started_at := Some (At 2)\<rparr>"
  have r: "job_of (snd (run_calls job_exec ?cs empty_jobs_db)) ''t'' ''j'' = Some ?r" by code_simp
  have "j_status ?r = CancelRequested" by simp
  from cancel_request_wins [OF refl r this] show ?thesis unfolding Let_def by blast
qed

text \<open>
  a job is started again only after its interruption was recorded. In every reachable store the
  number of attempts of a job exceeds the number of \<open>recovered\<close> events in its log by at most one,
  so two workers never hold the same job at once.
\<close>

theorem attempts_follow_recoveries:
  assumes "job_of (snd (run_calls job_exec cs empty_jobs_db)) t j = Some r"
  shows "j_attempt_count r \<le>
    1 + count_list (map ev_type (events_of (snd (run_calls job_exec cs empty_jobs_db)) t j)) EvRecovered"
proof -
  let ?es = "map ev_type (events_of (snd (run_calls job_exec cs empty_jobs_db)) t j)"
  have "log_ok (events_of (snd (run_calls job_exec cs empty_jobs_db)) t j) r"
    using jobs_inv_log [OF job_calls.run_start_inv assms] .
  then have "replay ?es = Some (j_status r)" and n: "count_list ?es EvRunning = j_attempt_count r"
    by (auto simp: log_ok_def)
  then obtain es where "?es = EvQueued # es" "replay_from Queued es = Some (j_status r)"
    by (cases ?es rule: replay.cases) auto
  with replay_attempts [of Queued es] n show ?thesis by (auto split: if_splits)
qed

theorem attempts_follow_recoveries_witness:
  "\<exists>r. job_of (snd (run_calls job_exec [JCreate ''t'' ''j'' ''h'' 1 JNull ''k'' ''rh'' (At 1),
       JClaim ''t'' ''j'' (At 2), JRequeue ''t'' ''j'' (At 3), JClaim ''t'' ''j'' (At 4)]
       empty_jobs_db)) ''t'' ''j'' = Some r \<and>
     j_attempt_count r = 2 \<and> 2 \<le> 1 + count_list (map ev_type (events_of (snd (run_calls job_exec
       [JCreate ''t'' ''j'' ''h'' 1 JNull ''k'' ''rh'' (At 1), JClaim ''t'' ''j'' (At 2),
        JRequeue ''t'' ''j'' (At 3), JClaim ''t'' ''j'' (At 4)] empty_jobs_db)) ''t'' ''j'')) EvRecovered"
proof -
  let ?cs = "[JCreate ''t'' ''j'' ''h'' 1 JNull ''k'' ''rh'' (At 1), JClaim ''t'' ''j'' (At 2),
    JRequeue ''t'' ''j'' (At 3), JClaim ''t'' ''j'' (At 4)]"
  let ?r = "new_job ''t'' ''j'' ''h'' 1 JNull ''k'' ''rh'' (At 1)
    \<lparr>j_status := Running, j_updated_at := At 4, j_attempt_count := 2, j_started_at := Some (At 4)\<rparr>"
  have r: "job_of (snd (run_calls job_exec ?cs empty_jobs_db)) ''t'' ''j'' = Some ?r" by code_simp
  have "j_attempt_count ?r = 2" by simp
  with attempts_follow_recoveries [OF r] r show ?thesis by metis
qed

text \<open>
  a restart loses no job and leaves none in doubt. In every reachable store \<open>recover\<close> succeeds;
  afterwards no job is running or waiting for a cancellation, a requested cancellation has become
  \<open>cancelled\<close>, every interrupted job is queued again, finished jobs are untouched, and the returned
  list is exactly the queued jobs in the order of creation.
\<close>

theorem recover_settles_every_job:
  assumes "db = snd (run_calls job_exec cs empty_jobs_db)"
  shows "\<exists>db'. recover now db = ok (map (\<lambda>r. row_to_job (recovered now r))
        (filter (\<lambda>r. j_status r \<in> {Queued, Running})
          (sort_key (\<lambda>r. (j_created_at r, j_id r)) (jobs db)))) db' \<and>
      (\<forall>t j. job_of db' t j = map_option (recovered now) (job_of db t j)) \<and>
      (\<forall>r \<in> set (jobs db'). j_status r \<notin> {Running, CancelRequested})"
proof -
  have inv: "jobs_inv db" using assms job_calls.run_start_inv by simp
  from recover_spec [OF inv, of now] obtain db' where db':
    "recover now db = ok (map (\<lambda>r. row_to_job (recovered now r))
       (filter (\<lambda>r. j_status r \<noteq> CancelRequested) (open_rows db))) db'"
    "jobs_inv db'" "\<And>t j. job_of db' t j = map_option (recovered now) (job_of db t j)" by metis
  have rows: "filter (\<lambda>r. j_status r \<noteq> CancelRequested) (open_rows db) =
      filter (\<lambda>r. j_status r \<in> {Queued, Running}) (sort_key (\<lambda>r. (j_created_at r, j_id r)) (jobs db))"
    unfolding open_rows_def filter_sort [symmetric] filter_filter
    by (rule filter_cong) auto
  have "j_status r \<notin> {Running, CancelRequested}" if "r \<in> set (jobs db')" for r
  proof -
    have "map_option (recovered now) (job_of db (j_tenant r) (j_id r)) = Some r"
      using job_of_mem [OF jobs_inv_distinct [OF db'(2)] that] db'(3) by simp
    then obtain s where "r = recovered now s" by (cases "job_of db (j_tenant r) (j_id r)") auto
    then show ?thesis by (cases "j_status s") (auto simp: recovered_def)
  qed
  with db' rows show ?thesis by auto
qed

theorem recover_settles_every_job_witness:
  "let db = snd (run_calls job_exec [JCreate ''t'' ''j'' ''h'' 1 JNull ''k'' ''rh'' (At 1),
       JClaim ''t'' ''j'' (At 2)] empty_jobs_db)
   in \<exists>js db'. recover (At 9) db = ok js db' \<and>
     (\<forall>r \<in> set (jobs db'). j_status r \<notin> {Running, CancelRequested})"
  unfolding Let_def
  by (rule exE [OF recover_settles_every_job [OF refl, of "At 9"
    "[JCreate ''t'' ''j'' ''h'' 1 JNull ''k'' ''rh'' (At 1), JClaim ''t'' ''j'' (At 2)]"]]) blast

text \<open>
  under any interleaving of creation requests with the other operations of the store, at most
  one request per tenant and idempotency key creates a job, and all requests answered with a job
  under one key carried the same request hash.
\<close>

theorem one_job_per_idempotency_key:
  assumes "sched create_req job_other db tr db'"
  shows "created_for req_key k tr \<le> 1 \<and>
    (\<forall>r x r' x'. (r, Inr x) \<in> set tr \<longrightarrow> (r', Inr x') \<in> set tr \<longrightarrow> req_key r = req_key r' \<longrightarrow>
       req_hash r = req_hash r')"
  using job_requests.at_most_one_creation [OF assms] job_requests.one_request_per_key [OF assms]
  by blast

theorem one_job_per_idempotency_key_witness:
  "\<exists>tr db'. sched create_req job_other empty_jobs_db tr db' \<and> length tr = 2 \<and>
     created_for req_key (''t'', ''k'') tr \<le> 1"
proof -
  let ?r1 = "(''t'', ''j1'', ''h'', 1, JNull, ''k'', ''rh'', At 1) :: job_request"
  let ?r2 = "(''t'', ''j2'', ''h'', 1, JNull, ''k'', ''rh'', At 3) :: job_request"
  obtain x1 db1 where c1: "create_req ?r1 empty_jobs_db = (x1, db1)" by (metis surj_pair)
  have o: "job_other db1 (snd (job_exec (JClaim ''t'' ''j1'' (At 2)) db1))"
    unfolding job_other_def by (intro exI [of _ "JClaim ''t'' ''j1'' (At 2)"]) simp
  obtain x2 db2 where c2: "create_req ?r2 (snd (job_exec (JClaim ''t'' ''j1'' (At 2)) db1)) = (x2, db2)"
    by (metis surj_pair)
  have "sched create_req job_other empty_jobs_db (([] @ [(?r1, x1)]) @ [(?r2, x2)]) db2"
    by (rule sched_create [of create_req, OF _ c2], rule sched_other [of create_req job_other, OF _ o],
      rule sched_create [of create_req, OF _ c1], rule sched_nil)
  with one_job_per_idempotency_key [OF this, of "(''t'', ''k'')"] show ?thesis
    by (intro exI conjI) (assumption, simp, blast)
qed

text \<open>
  in every reachable store the event endpoint returns the log in order from the caller's cursor:
  the page after sequence number \<open>a\<close> with a limit \<open>l\<close> is the log without its first \<open>a\<close> events, cut
  to the limit clamped into 1..500.
\<close>

theorem event_pages_follow_the_log:
  assumes "db = snd (run_calls job_exec cs empty_jobs_db)" "job_of db t j = Some r"
  shows "events t j a l db =
    ok (take (nat (max 1 (min l 500))) (drop (nat a) (events_of db t j))) db"
proof -
  have inv: "jobs_inv db" using assms job_calls.run_start_inv by simp
  have n: "numbered (events_of db t j)" using jobs_inv_log [OF inv assms(2)] by (simp add: log_ok_def)
  have "filter (\<lambda>e. max 0 a < int (ev_sequence e)) (events_of db t j) =
      filter (\<lambda>e. nat a < ev_sequence e) (events_of db t j)"
    by (rule filter_cong) auto
  with assms(2) show ?thesis
    by (simp add: events_def get_def filter_numbered [OF n] sort_key_numbered [OF n])
qed

theorem event_pages_follow_the_log_witness:
  "let db = snd (run_calls job_exec [JCreate ''t'' ''j'' ''h'' 1 JNull ''k'' ''rh'' (At 1),
       JClaim ''t'' ''j'' (At 2), JProgress ''t'' ''j'' JNull (At 3)] empty_jobs_db)
   in events ''t'' ''j'' 1 1 db = ok (take 1 (drop 1 (events_of db ''t'' ''j''))) db"
proof -
  let ?cs = "[JCreate ''t'' ''j'' ''h'' 1 JNull ''k'' ''rh'' (At 1), JClaim ''t'' ''j'' (At 2),
    JProgress ''t'' ''j'' JNull (At 3)]"
  have "\<exists>r. job_of (snd (run_calls job_exec ?cs empty_jobs_db)) ''t'' ''j'' = Some r"
    unfolding not_None_eq [symmetric] by code_simp
  then obtain r where r: "job_of (snd (run_calls job_exec ?cs empty_jobs_db)) ''t'' ''j'' = Some r" ..
  show ?thesis using event_pages_follow_the_log [OF refl r, of 1 1] unfolding Let_def by simp
qed

text \<open>
  completion is atomic. For a running job either every artifact of the result becomes visible,
  in order and with the job succeeded and its result stored, or the transaction is refused and
  the store is exactly what it was.
\<close>

theorem completion_is_atomic:
  assumes "db = snd (run_calls job_exec cs empty_jobs_db)"
    and "job_of db t j = Some r" "j_status r = Running"
  shows "complete t j res aids now db = raises JobIntegrityError db \<or>
    (\<exists>db'. complete t j res aids now db = ok (row_to_job (r\<lparr>j_status := Succeeded,
          j_result := Some (result_json res), j_error := None, j_updated_at := now,
          j_finished_at := Some now\<rparr>)) db' \<and>
       job_artifacts db' = job_artifacts db @ map (\<lambda>(aid, w). job_artifact_write.extend w
          \<lparr>ja_tenant = t, ja_job = j, ja_id = aid, ja_created_at = now\<rparr>) (draw aids (hr_artifacts res)) \<and>
       map ev_type (events_of db' t j) = map ev_type (events_of db t j) @
         replicate (length (hr_artifacts res)) EvArtifactReady @ [EvCompleted])"
proof (cases "add_artifacts t j now (draw aids (hr_artifacts res)) db")
  case None
  with assms(2,3) show ?thesis by (simp add: complete_def)
next
  case (Some db1)
  have inv: "jobs_inv db" using assms job_calls.run_start_inv by simp
  from complete_path [OF inv assms(2,3) Some] obtain db' where
    p: "path db t j r (replicate (length (hr_artifacts res)) EvArtifactReady @ [EvCompleted])
      (r\<lparr>j_status := Succeeded, j_result := Some (result_json res), j_error := None,
         j_updated_at := now, j_finished_at := Some now\<rparr>) db'"
    and c: "complete t j res aids now db = ok (row_to_job (r\<lparr>j_status := Succeeded,
         j_result := Some (result_json res), j_error := None,
         j_updated_at := now, j_finished_at := Some now\<rparr>)) db'" by blast
  have "job_artifacts db' = job_artifacts db1"
    using c assms(2,3) Some
    by (auto simp: complete_def append_event_def set_job_def Let_def dest!: get_eqD)
  moreover from p have "map ev_type (events_of db' t j) = map ev_type (events_of db t j) @
      replicate (length (hr_artifacts res)) EvArtifactReady @ [EvCompleted]"
    unfolding path_def moves_def using events_of_append [of db' db _ t j t j] by fastforce
  ultimately show ?thesis using c add_artifacts_rows [OF Some] by auto
qed

theorem completion_is_atomic_witness:
  "let db = snd (run_calls job_exec [JCreate ''t'' ''j'' ''h'' 1 JNull ''k'' ''rh'' (At 1),
       JClaim ''t'' ''j'' (At 2)] empty_jobs_db);
     res = \<lparr>hr_summary = ''s'', hr_data = JNull, hr_artifacts = []\<rparr>
   in complete ''t'' ''j'' res (\<lambda>_. ''a'') (At 3) db = raises JobIntegrityError db \<or>
     (\<exists>x db'. complete ''t'' ''j'' res (\<lambda>_. ''a'') (At 3) db = ok x db' \<and>
        map ev_type (events_of db' ''t'' ''j'') =
          map ev_type (events_of db ''t'' ''j'') @ [EvCompleted])"
proof -
  let ?cs = "[JCreate ''t'' ''j'' ''h'' 1 JNull ''k'' ''rh'' (At 1), JClaim ''t'' ''j'' (At 2)]"
  let ?r = "new_job ''t'' ''j'' ''h'' 1 JNull ''k'' ''rh'' (At 1)
    \<lparr>j_status := Running, j_updated_at := At 2, j_attempt_count := 1, j_started_at := Some (At 2)\<rparr>"
  have r: "job_of (snd (run_calls job_exec ?cs empty_jobs_db)) ''t'' ''j'' = Some ?r" by code_simp
  have "j_status ?r = Running" by simp
  from completion_is_atomic [OF refl r this,
      of "\<lparr>hr_summary = ''s'', hr_data = JNull, hr_artifacts = []\<rparr>" "\<lambda>_. ''a''" "At 3"]
  show ?thesis unfolding Let_def by fastforce
qed

end
