(* ===== verification/JobStatus.thy ===== *)
theory JobStatus
  imports JobStore
begin

text \<open>
  The abstract contract of the job store that the job service relies on: a map from jobs to their
  status, the request bound to each idempotency key and the artifact identifiers in use, with what
  each call does to them and whether it is accepted. \<open>spec_of\<close> is the abstraction function; every
  operation of \<open>JobStore\<close> gives the result and the next state of its abstract counterpart.
\<close>

type_synonym job_map = "string \<times> string \<Rightarrow> job_status option"

definition status_of :: "jobs_db \<Rightarrow> job_map" where
  "status_of db k = map_option j_status (job_of db (fst k) (snd k))"

section \<open>Abstract operations\<close>

text \<open>The status after an operation on one job, as a function of the status before.\<close>

fun after_claim :: "job_status \<Rightarrow> job_status" where
  "after_claim Queued = Running"
| "after_claim s = s"

fun after_complete :: "bool \<Rightarrow> job_status \<Rightarrow> job_status" where
  "after_complete stored CancelRequested = Cancelled"
| "after_complete stored Running = (if stored then Succeeded else Running)"
| "after_complete stored s = s"

fun after_fail :: "job_status \<Rightarrow> job_status" where
  "after_fail CancelRequested = Cancelled"
| "after_fail Running = JobFailed"
| "after_fail s = s"

fun after_request_cancel :: "job_status \<Rightarrow> job_status" where
  "after_request_cancel Queued = Cancelled"
| "after_request_cancel Running = CancelRequested"
| "after_request_cancel s = s"

fun after_mark_cancelled :: "job_status \<Rightarrow> job_status" where
  "after_mark_cancelled s = (if s \<in> TERMINAL_STATUSES then s else Cancelled)"

fun after_requeue :: "job_status \<Rightarrow> job_status" where
  "after_requeue CancelRequested = Cancelled"
| "after_requeue Running = Queued"
| "after_requeue s = s"

fun after_recover :: "job_status \<Rightarrow> job_status" where
  "after_recover CancelRequested = Cancelled"
| "after_recover Running = Queued"
| "after_recover s = s"

definition at_job :: "string \<times> string \<Rightarrow> (job_status \<Rightarrow> job_status) \<Rightarrow> job_map \<Rightarrow> job_map" where
  "at_job k f m = m(k := map_option f (m k))"

lemma at_job_apply [simp]: "at_job k f m k' = (if k' = k then map_option f (m k) else m k')"
  by (simp add: at_job_def)

lemma at_job_same: "(\<And>s. m k = Some s \<Longrightarrow> f s = s) \<Longrightarrow> at_job k f m = m"
  by (cases "m k") (auto simp: at_job_def)

lemma at_job_Some: "m k = Some s \<Longrightarrow> at_job k f m = m(k \<mapsto> f s)"
  by (simp add: at_job_def)

definition abs_create :: "string \<times> string \<Rightarrow> bool \<Rightarrow> job_map \<Rightarrow> job_map" where
  "abs_create k created m = (if created then m(k \<mapsto> Queued) else m)"

record job_spec =
  sp_status :: job_map
  sp_keys :: "string \<times> string \<Rightarrow> string option"
  sp_artifacts :: "(string \<times> string \<times> string) set"

definition moved :: "string \<times> string \<Rightarrow> (job_status \<Rightarrow> job_status) \<Rightarrow> job_spec \<Rightarrow> bool \<times> job_spec" where
  "moved k f s = (sp_status s k \<noteq> None, s\<lparr>sp_status := at_job k f (sp_status s)\<rparr>)"

text \<open>
  The abstract call: whether it is accepted, and the next state. A request with a bound key is
  accepted iff it is the same request; a running job is completed iff the identifiers drawn for its
  artifacts are distinct and unused.
\<close>

fun spec_exec :: "job_call \<Rightarrow> job_spec \<Rightarrow> bool \<times> job_spec" where
  "spec_exec (JCreate t j h v a k rh now) s = (case sp_keys s (t, k) of
     Some bound \<Rightarrow> (bound = rh, s)
   | None \<Rightarrow> if sp_status s (t, j) \<noteq> None then (False, s)
       else (True, s\<lparr>sp_status := abs_create (t, j) True (sp_status s),
              sp_keys := (sp_keys s)((t, k) \<mapsto> rh)\<rparr>))"
| "spec_exec (JRecover now) s = (True, s\<lparr>sp_status := (\<lambda>k. map_option after_recover (sp_status s k))\<rparr>)"
| "spec_exec (JClaim t j now) s = moved (t, j) after_claim s"
| "spec_exec (JProgress t j p now) s = moved (t, j) id s"
| "spec_exec (JComplete t j res aids now) s =
     (let ids = map aids [0..<length (hr_artifacts res)]; new = (\<lambda>i. (t, j, i)) ` set ids in
      if sp_status s (t, j) \<noteq> Some Running then moved (t, j) (after_complete True) s
      else if distinct ids \<and> new \<inter> sp_artifacts s = {}
      then (True, s\<lparr>sp_status := at_job (t, j) (after_complete True) (sp_status s),
             sp_artifacts := sp_artifacts s \<union> new\<rparr>)
      else (False, s))"
| "spec_exec (JFail t j e now) s = moved (t, j) after_fail s"
| "spec_exec (JRequestCancel t j now) s = moved (t, j) after_request_cancel s"
| "spec_exec (JMarkCancelled t j rsn now) s = moved (t, j) after_mark_cancelled s"
| "spec_exec (JRequeue t j now) s = moved (t, j) after_requeue s"

definition keys_of :: "jobs_db \<Rightarrow> string \<times> string \<Rightarrow> string option" where
  "keys_of db k = map_option j_request_hash (job_keyed db k)"

definition arts_of :: "jobs_db \<Rightarrow> (string \<times> string \<times> string) set" where
  "arts_of db = (\<lambda>a. (ja_tenant a, ja_job a, ja_id a)) ` set (job_artifacts db)"

definition spec_of :: "jobs_db \<Rightarrow> job_spec" where
  "spec_of db = \<lparr>sp_status = status_of db, sp_keys = keys_of db, sp_artifacts = arts_of db\<rparr>"

section \<open>Refinement\<close>

lemma status_of_None [simp]: "status_of db (t, j) = None \<longleftrightarrow> job_of db t j = None"
  by (simp add: status_of_def)

lemma at_job_absent [simp]: "job_of db t j = None \<Longrightarrow> at_job (t, j) f (status_of db) = status_of db"
  by (auto simp: at_job_def status_of_def fun_eq_iff)

lemma status_of_Some: "job_of db t j = Some r \<Longrightarrow> status_of db (t, j) = Some (j_status r)"
  by (simp add: status_of_def)

lemma path_status:
  assumes "path db t j r tys r' db'"
  shows "status_of db' = (status_of db)((t, j) \<mapsto> j_status r')"
  using path_job_of [OF assms] by (auto simp: status_of_def fun_eq_iff)

lemma cancel_status:
  assumes "jobs_inv db" "job_of db t j = Some r" "j_status r \<notin> TERMINAL_STATUSES"
  shows "status_of (cancel_in_connection t j rsn now db) = (status_of db)((t, j) \<mapsto> Cancelled)"
  using path_status [OF path_cancel [OF path_base [OF assms(1,2)] assms(3)]] by simp

lemma set_append_status:
  assumes "jobs_inv db" "job_of db t j = Some r" "P (j_status r)" "ident (f r) = ident r"
  shows "status_of (append_event t j ty p now (set_job t j P f db)) =
    (status_of db)((t, j) \<mapsto> j_status (f r))"
  by (rule path_status [OF path_append [OF path_set [where P = P and f = f, OF path_base [OF assms(1,2)] assms(3,4)]]])

lemma claim_status:
  assumes "jobs_inv db"
  shows "status_of (snd (claim t j now db)) = at_job (t, j) after_claim (status_of db)"
proof (cases "job_of db t j")
  case (Some r)
  show ?thesis
  proof (cases "j_status r = Queued")
    case True
    from claim_path [OF assms Some True, of now] obtain db' x where
      "path db t j r [EvRunning] (r\<lparr>j_status := Running, j_attempt_count := Suc (j_attempt_count r),
       j_updated_at := now, j_started_at := Some now, j_finished_at := None, j_error := None\<rparr>) db'"
      "claim t j now db = ok x db'" by blast
    then show ?thesis using path_status True Some by (fastforce simp: at_job_Some status_of_Some)
  next
    case False
    with Some have "at_job (t, j) after_claim (status_of db) = status_of db"
      by (intro at_job_same) (cases "j_status r"; simp add: status_of_Some)
    with False Some show ?thesis by (simp add: claim_def)
  qed
qed (simp add: claim_def)

lemma claim_result:
  assumes "jobs_inv db" "job_of db t j = Some r"
  shows "\<exists>x. fst (claim t j now db) = Inr x \<and> (x = None \<longleftrightarrow> j_status r \<noteq> Queued) \<and>
    (\<forall>c. x = Some c \<longrightarrow> j_handler_name c = j_handler_name r \<and>
       j_handler_version c = j_handler_version r \<and> j_arguments c = j_arguments r)"
proof (cases "j_status r = Queued")
  case True
  from claim_path [OF assms True, of now] show ?thesis by (auto simp: True row_to_job_def job.defs)
qed (use assms in \<open>simp add: claim_def\<close>)

lemma progress_status:
  assumes "jobs_inv db"
  shows "status_of (snd (progress t j p now db)) = status_of db"
  by (auto simp: progress_def status_of_def job_of_def fun_eq_iff split: option.splits)

lemma complete_status:
  assumes "jobs_inv db"
  shows "\<exists>stored. status_of (snd (complete t j res aids now db)) =
      at_job (t, j) (after_complete stored) (status_of db) \<and>
    (is_ok (complete t j res aids now db) \<longrightarrow> stored) \<and>
    (\<not> is_ok (complete t j res aids now db) \<longrightarrow> \<not> stored \<and> snd (complete t j res aids now db) = db)"
proof (cases "job_of db t j")
  case None
  then show ?thesis by (intro exI [of _ False]) (simp add: complete_def)
next
  case (Some r)
  show ?thesis
  proof (cases "j_status r = Running")
    case True
    show ?thesis
    proof (cases "add_artifacts t j now (draw aids (hr_artifacts res)) db")
      case None
      with Some True show ?thesis
        by (intro exI [of _ False]) (auto simp: complete_def status_of_Some intro!: at_job_same [symmetric])
    next
      case (Some db1)
      from complete_path [OF assms \<open>job_of db t j = Some r\<close> True Some]
      obtain db' x where p: "path db t j r
          (replicate (length (hr_artifacts res)) EvArtifactReady @ [EvCompleted])
          (r\<lparr>j_status := Succeeded, j_result := Some (result_json res), j_error := None,
            j_updated_at := now, j_finished_at := Some now\<rparr>) db'"
        "complete t j res aids now db = ok x db'" by blast
      with path_status [OF p(1)] True \<open>job_of db t j = Some r\<close> show ?thesis
        by (intro exI [of _ True]) (simp add: at_job_Some status_of_Some)
    qed
  next
    case False
    have c: "complete t j res aids now db = get t j (if j_status r = CancelRequested
        then cancel_in_connection t j ''cancelled_before_completion'' now db else db)"
      using Some False by (simp add: complete_def)
    show ?thesis
    proof (cases "j_status r = CancelRequested")
      case True
      have "job_of (cancel_in_connection t j ''cancelled_before_completion'' now db) t j \<noteq> None"
        using cancel_status [OF assms Some, of "''cancelled_before_completion''" now] True
        by (metis fun_upd_same option.distinct(1) status_of_None terminal_simps(3))
      with True Some cancel_status [OF assms Some] show ?thesis
        by (intro exI [of _ True]) (auto simp: c get_def at_job_Some status_of_Some)
    next
      case other: False
      have "at_job (t, j) (after_complete True) (status_of db) = status_of db"
        using False other Some
        by (intro at_job_same) (cases "j_status r"; auto simp: status_of_Some)
      with other Some show ?thesis
        by (intro exI [of _ True]) (simp add: c get_def)
    qed
  qed
qed

lemma fail_status:
  assumes "jobs_inv db"
  shows "status_of (snd (fail t j e now db)) = at_job (t, j) after_fail (status_of db)"
proof (cases "job_of db t j")
  case (Some r)
  with assms show ?thesis
    by (cases "j_status r")
      (auto simp: fail_def at_job_Some status_of_Some cancel_status set_append_status ident_def
        intro!: at_job_same [symmetric])
qed (simp add: fail_def)

lemma request_cancel_status:
  assumes "jobs_inv db"
  shows "status_of (snd (request_cancel t j now db)) = at_job (t, j) after_request_cancel (status_of db)"
proof (cases "job_of db t j")
  case (Some r)
  let ?db1 = "append_event t j EvCancelRequested (JObj []) now db"
  have p: "path db t j r ([] @ [EvCancelRequested]) r ?db1"
    by (rule path_append [OF path_base [OF assms Some]])
  have q: "status_of (cancel_in_connection t j ''cancelled_before_start'' now ?db1) =
      (status_of db)((t, j) \<mapsto> Cancelled)" if "j_status r = Queued"
    using path_status [OF path_cancel [OF p]] that by simp
  have c: "status_of (set_job t j (\<lambda>s. s = Running)
      (\<lambda>r. r\<lparr>j_status := CancelRequested, j_updated_at := now\<rparr>) ?db1) =
      (status_of db)((t, j) \<mapsto> CancelRequested)" if "j_status r = Running"
    using path_status [OF path_set [where P = "\<lambda>s. s = Running" and
      f = "\<lambda>r. r\<lparr>j_status := CancelRequested, j_updated_at := now\<rparr>", OF p]] that
    by (simp add: ident_def)
  show ?thesis
    using Some q c by (cases "j_status r")
      (auto simp: request_cancel_def Let_def at_job_Some status_of_Some intro!: at_job_same [symmetric])
qed (simp add: request_cancel_def)

lemma mark_cancelled_status:
  assumes "jobs_inv db"
  shows "status_of (snd (mark_cancelled t j rsn now db)) = at_job (t, j) after_mark_cancelled (status_of db)"
proof (cases "job_of db t j")
  case (Some r)
  with assms show ?thesis
    by (auto simp: mark_cancelled_def at_job_Some status_of_Some cancel_status
        intro!: at_job_same [symmetric])
qed (simp add: mark_cancelled_def)

lemma requeue_status:
  assumes "jobs_inv db"
  shows "status_of (snd (requeue_interrupted t j now db)) = at_job (t, j) after_requeue (status_of db)"
proof (cases "job_of db t j")
  case (Some r)
  with assms show ?thesis
    by (cases "j_status r")
      (auto simp: requeue_interrupted_def at_job_Some status_of_Some cancel_status set_append_status
        ident_def intro!: at_job_same [symmetric])
qed (simp add: requeue_interrupted_def)

lemma recover_status:
  assumes "jobs_inv db"
  shows "status_of (snd (recover now db)) = (\<lambda>k. map_option after_recover (status_of db k))"
proof -
  from recover_spec [OF assms, of now] obtain db' x where
    "recover now db = ok x db'" "\<And>t j. job_of db' t j = map_option (recovered now) (job_of db t j)"
    by metis
  moreover have "j_status (recovered now r) = after_recover (j_status r)" for r
    by (cases "j_status r") (simp_all add: recovered_def)
  ultimately show ?thesis by (simp add: status_of_def fun_eq_iff option.map_comp comp_def)
qed

lemma create_status:
  assumes "create t j h v a k rh now db = (x, db')"
  shows "status_of db' = abs_create (t, j) (is_created x) (status_of db)"
  using create_cases [OF assms]
  by (elim disjE exE conjE)
    (auto simp: abs_create_def status_of_def job_of_def sel_append job_at_def fun_eq_iff
      split: option.splits)

lemma create_status_fresh:
  assumes "create t j h v a k rh now db = (Inr (job, True), db')"
  shows "status_of db (t, j) = None \<and> j_tenant job = t \<and> j_id job = j \<and> j_status job = Queued"
  using create_cases [OF assms] by (auto simp: row_to_job_def job.defs new_job_def)

lemma create_existing:
  assumes "create t j h v a k rh now db = (Inr (job, False), db')" "jobs_inv db"
  shows "db' = db \<and> j_tenant job = t \<and> status_of db (t, j_id job) = Some (j_status job)"
proof -
  from create_cases [OF assms(1)] obtain row where row: "db' = db" "job_keyed db (t, k) = Some row"
    "job = row_to_job row" by auto
  then have "row \<in> set (jobs db)" "j_tenant row = t"
    using sel_SomeD [of _ "jobs db" row] by (auto simp: job_keyed_def)
  with job_of_mem [OF jobs_inv_distinct [OF assms(2)]] row show ?thesis
    by (auto simp: status_of_def row_to_job_def job.defs)
qed

section \<open>Keys, artifacts and results\<close>

lemma keys_exec: "\<not> is_create c \<Longrightarrow> keys_of (snd (job_exec c db)) = keys_of db"
  unfolding keys_of_def job_keyed_def using keyed_ident [OF ident_exec] by (intro ext) blast

lemma job_artifacts_simps [simp]:
  "job_artifacts (append_event t j ty p now db) = job_artifacts db"
  "job_artifacts (set_job t j P f db) = job_artifacts db"
  "job_artifacts (cancel_in_connection t j rsn now db) = job_artifacts db"
  "job_artifacts (snd (get t j db)) = job_artifacts db"
  by (simp_all add: append_event_def set_job_def cancel_in_connection_def get_def Let_def
    split: option.split)

lemma artifacts_recover: "job_artifacts (snd (recover now db)) = job_artifacts db"
proof -
  have "job_artifacts (fst (recover_row now row s)) = job_artifacts (fst s)" for row s
    by (cases s) (simp add: recover_row_def Let_def)
  then have "job_artifacts (fst (fold (recover_row now) rows s)) = job_artifacts (fst s)" for rows s
    by (induction rows arbitrary: s) simp_all
  then show ?thesis by (simp add: recover_def Let_def)
qed

fun is_complete :: "job_call \<Rightarrow> bool" where
  "is_complete (JComplete t j res aids now) = True"
| "is_complete _ = False"

lemma artifacts_exec: "\<not> is_complete c \<Longrightarrow> job_artifacts (snd (job_exec c db)) = job_artifacts db"
proof (cases c)
  case (JCreate t j h v a k rh now)
  obtain x db' where cr: "create t j h v a k rh now db = (x, db')" by fastforce
  with create_cases [OF cr] JCreate show ?thesis by (auto simp: Let_def)
next
  case (JClaim t j now)
  then show ?thesis
    by (auto simp: claim_def Let_def split: option.splits prod.splits sum.splits dest!: get_eqD)
qed (auto simp: Let_def artifacts_recover progress_def fail_def request_cancel_def
  mark_cancelled_def requeue_interrupted_def split: option.split)

lemma add_artifacts_None:
  "add_artifacts t j now ws db = None \<longleftrightarrow>
   \<not> (distinct (map fst ws) \<and> (\<lambda>i. (t, j, i)) ` set (map fst ws) \<inter> arts_of db = {})"
proof (induction ws arbitrary: db)
  case (Cons w ws)
  obtain aid a where w: "w = (aid, a)" by fastforce
  let ?db = "append_event t j EvArtifactReady
          (JObj [(''artifact_id'', JStr aid), (''name'', JStr (aw_name a))]) now
          (db\<lparr>job_artifacts := job_artifacts db @ [job_artifact_write.extend a
               \<lparr>ja_tenant = t, ja_job = j, ja_id = aid, ja_created_at = now\<rparr>]\<rparr>)"
  have e: "arts_of ?db = insert (t, j, aid) (arts_of db)"
    by (simp add: arts_of_def job_artifact_write.defs)
  have used: "(\<exists>a \<in> set (job_artifacts db). ja_tenant a = t \<and> ja_job a = j \<and> ja_id a = aid) \<longleftrightarrow>
      (t, j, aid) \<in> arts_of db" by (auto simp: arts_of_def)
  show ?case unfolding w add_artifacts.simps used
    using Cons.IH [of ?db] by (auto simp: e)
qed simp

lemma accepted_get: "is_ok (get t j db) \<longleftrightarrow> status_of db (t, j) \<noteq> None"
  by (simp add: get_def split: option.split)

text \<open>A call that ends in \<open>get\<close> is accepted iff the job exists.\<close>

lemma accepted_move:
  assumes "status_of db' = at_job (t, j) f (status_of db)"
  shows "is_ok (get t j db') \<longleftrightarrow> status_of db (t, j) \<noteq> None"
  unfolding accepted_get by (simp add: assms)

lemma exec_accepts:
  assumes "jobs_inv db"
  shows "is_ok (claim t j now db) \<longleftrightarrow> status_of db (t, j) \<noteq> None"
    "is_ok (progress t j p now db) \<longleftrightarrow> status_of db (t, j) \<noteq> None"
    "is_ok (fail t j e now db) \<longleftrightarrow> status_of db (t, j) \<noteq> None"
    "is_ok (request_cancel t j now db) \<longleftrightarrow> status_of db (t, j) \<noteq> None"
    "is_ok (mark_cancelled t j rsn now db) \<longleftrightarrow> status_of db (t, j) \<noteq> None"
    "is_ok (requeue_interrupted t j now db) \<longleftrightarrow> status_of db (t, j) \<noteq> None"
proof -
  show "is_ok (claim t j now db) \<longleftrightarrow> status_of db (t, j) \<noteq> None"
  proof (cases "job_of db t j")
    case (Some r)
    with claim_result [OF assms Some, of now] show ?thesis
      by (cases "claim t j now db") (auto simp: status_of_Some)
  qed (simp add: claim_def)
  show "is_ok (progress t j p now db) \<longleftrightarrow> status_of db (t, j) \<noteq> None"
    by (simp add: progress_def split: option.split)
  show "is_ok (fail t j e now db) \<longleftrightarrow> status_of db (t, j) \<noteq> None"
    using accepted_move [OF fail_status [OF assms, of t j e now]]
    by (cases "job_of db t j") (simp_all add: fail_def)
  show "is_ok (request_cancel t j now db) \<longleftrightarrow> status_of db (t, j) \<noteq> None"
  proof (cases "job_of db t j")
    case (Some r)
    then have "\<exists>db'. request_cancel t j now db = get t j db'" by (auto simp: request_cancel_def Let_def)
    with accepted_move [of _ t j after_request_cancel db] request_cancel_status [OF assms, of t j now]
    show ?thesis by auto
  qed (simp add: request_cancel_def)
  show "is_ok (mark_cancelled t j rsn now db) \<longleftrightarrow> status_of db (t, j) \<noteq> None"
    using accepted_move [OF mark_cancelled_status [OF assms, of t j rsn now]]
    by (cases "job_of db t j") (simp_all add: mark_cancelled_def)
  show "is_ok (requeue_interrupted t j now db) \<longleftrightarrow> status_of db (t, j) \<noteq> None"
    using accepted_move [OF requeue_status [OF assms, of t j now]]
    by (cases "job_of db t j") (simp_all add: requeue_interrupted_def)
qed

lemma at_job_id: "at_job k id m = m"
  by (auto simp: at_job_def option.map_id)

text \<open>A call that only moves a job.\<close>

lemma refines_move:
  assumes "fst (job_exec c db) \<longleftrightarrow> status_of db k \<noteq> None"
    "status_of (snd (job_exec c db)) = at_job k f (status_of db)"
    "\<not> is_create c" "\<not> is_complete c"
  shows "map_prod id spec_of (job_exec c db) = moved k f (spec_of db)"
  using assms(1,2) keys_exec [OF assms(3), of db] artifacts_exec [OF assms(4), of db]
  by (cases "job_exec c db") (simp add: moved_def spec_of_def arts_of_def)

lemma create_refines:
  "map_prod id spec_of (job_exec (JCreate t j h v a k rh now) db) =
   spec_exec (JCreate t j h v a k rh now) (spec_of db)"
proof (cases "job_keyed db (t, k)")
  case (Some row)
  then show ?thesis by (simp add: create_def Let_def spec_of_def keys_of_def)
next
  case None
  show ?thesis
  proof (cases "job_of db t j")
    case n: None
    obtain db' where db: "create t j h v a k rh now db = ok (row_to_job (new_job t j h v a k rh now), True) db'"
      "jobs db' = jobs db @ [new_job t j h v a k rh now]" "job_artifacts db' = job_artifacts db"
      using create_new [OF None n, of h v a rh now] by simp
    have "status_of db' = (status_of db)((t, j) \<mapsto> Queued)"
      using create_status [OF db(1)] by (simp add: abs_create_def)
    moreover have "keys_of db' = (keys_of db)((t, k) \<mapsto> rh)"
      using None by (auto simp: keys_of_def job_keyed_def db(2) sel_append fun_eq_iff split: option.splits)
    moreover have "keys_of db (t, k) = None" "status_of db (t, j) = None" "arts_of db' = arts_of db"
      using None n db(3) by (simp_all add: keys_of_def arts_of_def)
    ultimately show ?thesis
      by (simp add: db(1) spec_of_def abs_create_def)
  qed (use None in \<open>simp add: create_def Let_def spec_of_def keys_of_def\<close>)
qed

lemma complete_refines:
  assumes "jobs_inv db"
  shows "map_prod id spec_of (job_exec (JComplete t j res aids now) db) =
   spec_exec (JComplete t j res aids now) (spec_of db)"
proof -
  let ?c = "JComplete t j res aids now" and ?ws = "draw aids (hr_artifacts res)"
  have keys: "keys_of (snd (complete t j res aids now db)) = keys_of db"
    using keys_exec [of ?c db] by (simp add: Let_def)
  have ids: "map fst ?ws = map aids [0..<length (hr_artifacts res)]" by (simp add: draw_def)
  show ?thesis
  proof (cases "status_of db (t, j) = Some Running")
    case True
    then obtain r where r: "job_of db t j = Some r" "j_status r = Running"
      by (auto simp: status_of_def)
    note none = add_artifacts_None [of t j now ?ws db, unfolded ids]
    show ?thesis
    proof (cases "add_artifacts t j now ?ws db")
      case None
      with r True none show ?thesis by (simp add: complete_def Let_def spec_of_def)
    next
      case (Some db1)
      from complete_path [OF assms r Some] obtain db' x where p: "path db t j r
          (replicate (length (hr_artifacts res)) EvArtifactReady @ [EvCompleted])
          (r\<lparr>j_status := Succeeded, j_result := Some (result_json res), j_error := None,
            j_updated_at := now, j_finished_at := Some now\<rparr>) db'"
        "complete t j res aids now db = ok x db'" by blast
      have "job_artifacts db' = job_artifacts db1"
        using p(2) Some r snd_get by (auto simp: complete_def dest!: get_eqD)
      then have "arts_of db' = arts_of db \<union> (\<lambda>i. (t, j, i)) ` set (map fst ?ws)"
        by (simp add: arts_of_def add_artifacts_rows [OF Some] image_Un image_image
          job_artifact_write.defs split_beta)
      then show ?thesis
        using p(2) path_status [OF p(1)] none Some True keys unfolding ids
        by (simp add: Let_def spec_of_def at_job_Some)
    qed
  next
    case False
    have arts: "arts_of (snd (complete t j res aids now db)) = arts_of db"
      using False by (auto simp: complete_def arts_of_def status_of_def split: option.split)
    obtain stored where st: "status_of (snd (complete t j res aids now db)) =
        at_job (t, j) (after_complete stored) (status_of db)"
      using complete_status [OF assms] by metis
    have "after_complete stored x = after_complete True x" if "x \<noteq> Running" for x
      using that by (cases x) simp_all
    with False have "map_option (after_complete stored) (status_of db (t, j)) =
        map_option (after_complete True) (status_of db (t, j))"
      by (intro option.map_cong0) auto
    then have same: "at_job (t, j) (after_complete stored) (status_of db) =
        at_job (t, j) (after_complete True) (status_of db)" unfolding at_job_def by simp
    have acc: "is_ok (complete t j res aids now db) \<longleftrightarrow> status_of db (t, j) \<noteq> None"
    proof (cases "job_of db t j")
      case (Some r)
      with False have "\<exists>db'. complete t j res aids now db = get t j db'"
        by (cases "j_status r = CancelRequested") (auto simp: complete_def status_of_def)
      with accepted_move [of _ t j "after_complete stored" db] st show ?thesis by auto
    qed (simp add: complete_def)
    show ?thesis
      using acc st same keys arts False
      by (cases "complete t j res aids now db") (simp add: Let_def moved_def spec_of_def)
  qed
qed

lemma recover_refines:
  assumes "jobs_inv db"
  shows "map_prod id spec_of (job_exec (JRecover now) db) = spec_exec (JRecover now) (spec_of db)"
proof -
  have "is_ok (recover now db)" using recover_spec [OF assms, of now] by (metis is_ok_simps(1))
  with recover_status [OF assms, of now] artifacts_recover [of now db] keys_exec [of "JRecover now" db]
  show ?thesis by (cases "recover now db") (simp add: spec_of_def arts_of_def)
qed

lemma exec_refines:
  assumes "jobs_inv db"
  shows "map_prod id spec_of (job_exec c db) = spec_exec c (spec_of db)"
proof (cases c)
  case (JCreate t j h v a k rh now)
  then show ?thesis using create_refines by simp
next
  case (JComplete t j res aids now)
  then show ?thesis using complete_refines [OF assms] by simp
next
  case (JRecover now)
  then show ?thesis using recover_refines [OF assms] by simp
next
  case (JClaim t j now)
  show ?thesis unfolding JClaim spec_exec.simps
    by (rule refines_move) (simp_all add: Let_def exec_accepts claim_status assms)
next
  case (JProgress t j p now)
  show ?thesis unfolding JProgress spec_exec.simps
    by (rule refines_move) (simp_all add: Let_def exec_accepts progress_status at_job_id assms)
next
  case (JFail t j e now)
  show ?thesis unfolding JFail spec_exec.simps
    by (rule refines_move) (simp_all add: Let_def exec_accepts fail_status assms)
next
  case (JRequestCancel t j now)
  show ?thesis unfolding JRequestCancel spec_exec.simps
    by (rule refines_move) (simp_all add: Let_def exec_accepts request_cancel_status assms)
next
  case (JMarkCancelled t j rsn now)
  show ?thesis unfolding JMarkCancelled spec_exec.simps
    by (rule refines_move) (simp_all add: Let_def exec_accepts mark_cancelled_status assms)
next
  case (JRequeue t j now)
  show ?thesis unfolding JRequeue spec_exec.simps
    by (rule refines_move) (simp_all add: Let_def exec_accepts requeue_status assms)
qed

interpretation job_refinement: refined_store job_exec empty_jobs_db jobs_inv spec_exec spec_of True
  by unfold_locales (rule exec_refines)

section \<open>Properties\<close>

text \<open>
  C26: the job store refines the abstract job machine. For every sequence of calls, the results
  (accepted or refused) are those of the machine, which has only statuses, bound keys and used artifact
  identifiers, and the final store is in the machine's state: a creation inserts the job exactly when
  its key and identifier are new and is otherwise refused or answered from the bound request; only the
  named job moves, along the documented transitions; a running job succeeds exactly when its artifacts
  can be stored; and \<open>recover\<close> moves every interrupted job.
\<close>

theorem job_store_refines_status_machine:
  "map_prod id spec_of (run_calls job_exec cs empty_jobs_db) =
   run_calls spec_exec cs \<lparr>sp_status = (\<lambda>_. None), sp_keys = (\<lambda>_. None), sp_artifacts = {}\<rparr>"
proof -
  have "spec_of empty_jobs_db = \<lparr>sp_status = (\<lambda>_. None), sp_keys = (\<lambda>_. None), sp_artifacts = {}\<rparr>"
    by (simp add: spec_of_def empty_jobs_db_def status_of_def job_of_def keys_of_def job_keyed_def
      arts_of_def fun_eq_iff)
  with job_refinement.run_refines [OF TrueI jobs_inv_empty, of cs] show ?thesis by simp
qed

end
