(* ===== verification/JobRegistry.thy ===== *)
theory JobRegistry
  imports Prelude Complex_Main
begin

text \<open>
  \<^verbatim>\<open>jobs/registry.py\<close>: the closed registry of versioned background handlers. A handler's argument
  model is a pydantic class: what the registry reads of it is its list of field names, whether it
  extends \<open>JobArguments\<close> and its validation function. A finite timeout in seconds is a rational.
\<close>

section \<open>Data\<close>

record arguments_model =
  am_extends_job_arguments :: bool
  am_fields :: "string list"
  am_validate :: "json \<Rightarrow> string + json"

record registered_handler =
  rh_name :: string
  rh_version :: int
  rh_model :: arguments_model
  rh_timeout :: rat

record handler_registry =
  handlers :: "(string \<times> int) \<Rightarrow> registered_handler option"
  latest_versions :: "string \<Rightarrow> int option"
  names_seen :: "string list"

datatype registry_error = JobHandlerRegistrationError string | JobHandlerNotFoundError string

definition FORBIDDEN_HANDLER_TOKENS :: "string list" where
  "FORBIDDEN_HANDLER_TOKENS =
     [''command'', ''relaunch'', ''shell'', ''sourceedit'', ''sourceediting'', ''terminal'']"

definition FORBIDDEN_ARGUMENT_FIELDS :: "string list" where
  "FORBIDDEN_ARGUMENT_FIELDS =
     [''command'', ''relaunch'', ''repository_path'', ''shell'', ''source_path'', ''working_dir'']"

definition empty_registry :: handler_registry where
  "empty_registry = \<lparr>handlers = (\<lambda>_. None), latest_versions = (\<lambda>_. None), names_seen = []\<rparr>"

section \<open>Operations\<close>

definition is_az :: "char \<Rightarrow> bool" where
  "is_az c = (let n = of_char c :: nat in 97 \<le> n \<and> n \<le> 122)"

definition is_name_char :: "char \<Rightarrow> bool" where
  "is_name_char c = (is_az c \<or> c = CHR ''_'' \<or> (let n = of_char c :: nat in 48 \<le> n \<and> n \<le> 57))"

text \<open>The pattern \<^verbatim>\<open>^[a-z][a-z0-9_]{0,99}$\<close>, matched in full.\<close>

definition handler_name_ok :: "string \<Rightarrow> bool" where
  "handler_name_ok s = (case s of [] \<Rightarrow> False
     | c # cs \<Rightarrow> is_az c \<and> length cs \<le> 99 \<and> list_all is_name_char cs)"

definition safe_name :: "string \<Rightarrow> string" where
  "safe_name name = py_lower (py_strip name)"

definition forbidden_name :: "string \<Rightarrow> bool" where
  "forbidden_name s =
     list_ex (\<lambda>token. py_in token (filter (\<lambda>c. c \<noteq> CHR ''_'') s)) FORBIDDEN_HANDLER_TOKENS"

definition forbidden_fields :: "arguments_model \<Rightarrow> string list" where
  "forbidden_fields m = sort (remdups (filter (\<lambda>f. f \<in> set FORBIDDEN_ARGUMENT_FIELDS) (am_fields m)))"

definition register :: "string \<Rightarrow> arguments_model \<Rightarrow> bool \<Rightarrow> int \<Rightarrow> rat \<Rightarrow>
    (handler_registry, registry_error, registered_handler) oper" where
  "register name model is_async version timeout reg =
    (let sname = safe_name name; ff = forbidden_fields model in
     if \<not> handler_name_ok sname then
       raises (JobHandlerRegistrationError ''handler name must match ^[a-z][a-z0-9_]{0,99}$'') reg
     else if forbidden_name sname then
       raises (JobHandlerRegistrationError
         ''shell, terminal, source editing, command, and relaunch handlers are forbidden'') reg
     else if \<not> am_extends_job_arguments model then
       raises (JobHandlerRegistrationError ''arguments_model must extend JobArguments'') reg
     else if ff \<noteq> [] then
       raises (JobHandlerRegistrationError
         (''handler arguments expose forbidden fields: '' @ join_with '', '' ff)) reg
     else if \<not> is_async then
       raises (JobHandlerRegistrationError ''registered job handler must be async'') reg
     else if version < 1 then
       raises (JobHandlerRegistrationError ''handler version must be at least 1'') reg
     else if \<not> (0 < timeout \<and> timeout \<le> 86400) then
       raises (JobHandlerRegistrationError
         ''handler timeout_seconds must be between 0 and 86400'') reg
     else if handlers reg (sname, version) \<noteq> None then
       raises (JobHandlerRegistrationError (''handler '' @ [CHR 0x27] @ sname @ [CHR 0x27] @
         '' version '' @ str_int version @ '' is already registered'')) reg
     else
       (let h = \<lparr>rh_name = sname, rh_version = version, rh_model = model, rh_timeout = timeout\<rparr> in
        ok h (reg\<lparr>handlers := (handlers reg)((sname, version) \<mapsto> h),
          latest_versions := (latest_versions reg)(sname \<mapsto>
            max version (case latest_versions reg sname of None \<Rightarrow> 0 | Some v \<Rightarrow> v)),
          names_seen := (if latest_versions reg sname = None then names_seen reg @ [sname]
                         else names_seen reg)\<rparr>)))"

definition get :: "string \<Rightarrow> int option \<Rightarrow> handler_registry \<Rightarrow> registry_error + registered_handler" where
  "get name version reg =
    (let sname = safe_name name;
         resolved = (case version of Some v \<Rightarrow> if v \<noteq> 0 then Some v else latest_versions reg sname
                     | None \<Rightarrow> latest_versions reg sname)
     in case resolved of
          None \<Rightarrow> Inl (JobHandlerNotFoundError sname)
        | Some v \<Rightarrow> (case handlers reg (sname, v) of
             None \<Rightarrow> Inl (JobHandlerNotFoundError (sname @ ''@'' @ str_int v))
           | Some h \<Rightarrow> Inr h))"

definition names :: "handler_registry \<Rightarrow> string list" where
  "names reg = sort (names_seen reg)"

section \<open>Registrations\<close>

type_synonym registration = "string \<times> arguments_model \<times> bool \<times> int \<times> rat"

fun reg_exec :: "registration \<Rightarrow> handler_registry \<Rightarrow> (registry_error + registered_handler) \<times> handler_registry" where
  "reg_exec (name, model, is_async, version, timeout) reg = register name model is_async version timeout reg"

definition admissible :: "registered_handler \<Rightarrow> bool" where
  "admissible h = (handler_name_ok (rh_name h) \<and> \<not> forbidden_name (rh_name h) \<and>
     am_extends_job_arguments (rh_model h) \<and>
     (\<forall>f \<in> set (am_fields (rh_model h)). f \<notin> set FORBIDDEN_ARGUMENT_FIELDS) \<and>
     1 \<le> rh_version h \<and> 0 < rh_timeout h \<and> rh_timeout h \<le> 86400)"

text \<open>
  Every entry is admissible and stored under its own name and version; the latest version of a name
  is registered and the greatest one; \<open>names_seen\<close> are the keys of the \<open>_latest_versions\<close> dict.
\<close>

definition registry_inv :: "handler_registry \<Rightarrow> bool" where
  "registry_inv reg =
     ((\<forall>n v h. handlers reg (n, v) = Some h \<longrightarrow> admissible h \<and> rh_name h = n \<and> rh_version h = v \<and>
         (\<exists>w. latest_versions reg n = Some w \<and> v \<le> w)) \<and>
      (\<forall>n w. latest_versions reg n = Some w \<longrightarrow> handlers reg (n, w) \<noteq> None) \<and>
      distinct (names_seen reg) \<and> set (names_seen reg) = dom (latest_versions reg))"

lemma register_cases:
  assumes "register name model is_async version timeout reg = (x, reg')"
  shows "(reg' = reg \<and> (\<exists>e. x = Inl e)) \<or>
    (\<exists>h. x = Inr h \<and> h = \<lparr>rh_name = safe_name name, rh_version = version, rh_model = model,
         rh_timeout = timeout\<rparr> \<and> admissible h \<and> handlers reg (safe_name name, version) = None \<and>
       reg' = reg\<lparr>handlers := (handlers reg)((safe_name name, version) \<mapsto> h),
          latest_versions := (latest_versions reg)(safe_name name \<mapsto>
            max version (case latest_versions reg (safe_name name) of None \<Rightarrow> 0 | Some v \<Rightarrow> v)),
          names_seen := (if latest_versions reg (safe_name name) = None
            then names_seen reg @ [safe_name name] else names_seen reg)\<rparr>)"
proof (cases x)
  case (Inl e)
  with assms show ?thesis by (auto simp: register_def Let_def split: if_splits)
next
  case (Inr h)
  have "filter (\<lambda>f. f \<in> set FORBIDDEN_ARGUMENT_FIELDS) (am_fields model) = [] \<Longrightarrow>
      \<forall>f \<in> set (am_fields model). f \<notin> set FORBIDDEN_ARGUMENT_FIELDS"
    by (simp add: filter_empty_conv)
  moreover have "forbidden_fields model = []"
    using assms Inr by (auto simp: register_def Let_def split: if_splits)
  then have "filter (\<lambda>f. f \<in> set FORBIDDEN_ARGUMENT_FIELDS) (am_fields model) = []"
    unfolding forbidden_fields_def by (metis length_0_conv length_sort remdups_eq_nil_iff)
  ultimately show ?thesis
    using assms Inr by (auto simp: register_def Let_def admissible_def split: if_splits)
qed

lemma registry_inv_register:
  assumes "registry_inv reg" "register name model is_async version timeout reg = (x, reg')"
  shows "registry_inv reg'"
  using register_cases [OF assms(2)]
proof (elim disjE exE conjE)
  fix h assume h: "h = \<lparr>rh_name = safe_name name, rh_version = version, rh_model = model,
      rh_timeout = timeout\<rparr>" "admissible h" "handlers reg (safe_name name, version) = None"
    and reg': "reg' = reg\<lparr>handlers := (handlers reg)((safe_name name, version) \<mapsto> h),
          latest_versions := (latest_versions reg)(safe_name name \<mapsto>
            max version (case latest_versions reg (safe_name name) of None \<Rightarrow> 0 | Some v \<Rightarrow> v)),
          names_seen := (if latest_versions reg (safe_name name) = None
            then names_seen reg @ [safe_name name] else names_seen reg)\<rparr>"
  have v: "1 \<le> version" using h by (simp add: admissible_def)
  have inv: "\<And>n v g. handlers reg (n, v) = Some g \<Longrightarrow> admissible g \<and> rh_name g = n \<and> rh_version g = v \<and>
        (\<exists>w. latest_versions reg n = Some w \<and> v \<le> w)"
    "\<And>n w. latest_versions reg n = Some w \<Longrightarrow> handlers reg (n, w) \<noteq> None"
    "distinct (names_seen reg)" "set (names_seen reg) = dom (latest_versions reg)"
    using assms(1) unfolding registry_inv_def by blast+
  show ?thesis unfolding registry_inv_def
  proof (intro conjI allI impI)
    fix n v' g assume g: "handlers reg' (n, v') = Some g"
    show "admissible g" "rh_name g = n" "rh_version g = v'"
      using g h inv(1) [of n v' g] by (auto simp: reg' split: if_splits)
    show "\<exists>w. latest_versions reg' n = Some w \<and> v' \<le> w"
      using g inv(1) [of n v' g] by (fastforce simp: reg' max_def split: if_splits option.splits)
  next
    fix n w assume "latest_versions reg' n = Some w"
    then show "handlers reg' (n, w) \<noteq> None"
      using inv(2) [of n w] v by (auto simp: reg' max_def split: if_splits option.splits)
  next
    show "distinct (names_seen reg')" using inv(3,4) by (auto simp: reg')
    show "set (names_seen reg') = dom (latest_versions reg')" using inv(4) by (auto simp: reg')
  qed
qed (use assms(1) in auto)

interpretation registrations: call_system reg_exec empty_registry registry_inv
proof unfold_locales
  show "registry_inv empty_registry" by (simp add: registry_inv_def empty_registry_def)
  show "registry_inv (snd (reg_exec c reg))" if "registry_inv reg" for reg c
    using that registry_inv_register by (cases c) (metis prod.collapse reg_exec.simps)
qed

lemma get_InrD:
  assumes "registry_inv reg" "get name version reg = Inr h"
  shows "admissible h \<and> rh_name h = safe_name name \<and>
    (case version of Some v \<Rightarrow> v \<noteq> 0 \<longrightarrow> rh_version h = v | None \<Rightarrow> True) \<and>
    (version \<in> {None, Some 0} \<longrightarrow> (\<forall>v g. handlers reg (safe_name name, v) = Some g \<longrightarrow> v \<le> rh_version h))"
  using assms unfolding get_def Let_def registry_inv_def
  by (fastforce split: option.splits if_splits)

section \<open>Properties\<close>

text \<open>
  the registry is closed. After any sequence of registrations every handler that \<open>get\<close> resolves
  has a well-formed name in which no forbidden token occurs even across underscores, no forbidden
  argument field, a positive version and a timeout within a day; a lookup with a version returns
  exactly that version, and one without (or with version 0) the greatest registered one.
\<close>

theorem resolved_handlers_are_admissible:
  assumes "reg = snd (run_calls reg_exec cs empty_registry)" "get name version reg = Inr h"
  shows "admissible h \<and> rh_name h = safe_name name \<and>
    (case version of Some v \<Rightarrow> v \<noteq> 0 \<longrightarrow> rh_version h = v | None \<Rightarrow> True) \<and>
    (version \<in> {None, Some 0} \<longrightarrow> (\<forall>v g. handlers reg (safe_name name, v) = Some g \<longrightarrow> v \<le> rh_version h))"
  by (rule get_InrD [OF _ assms(2)]) (simp add: assms(1) registrations.run_start_inv)

definition sample_model :: arguments_model where
  "sample_model = \<lparr>am_extends_job_arguments = True, am_fields = [''query''],
     am_validate = (\<lambda>j. Inr j)\<rparr>"

theorem resolved_handlers_are_admissible_witness:
  "let reg = snd (run_calls reg_exec [(''Digest'', sample_model, True, 1, 300),
        (''digest'', sample_model, True, 3, 300), (''my_shell'', sample_model, True, 1, 300)] empty_registry)
   in \<exists>h. get ''digest'' None reg = Inr h \<and> rh_version h = 3 \<and> admissible h \<and>
     get ''my_shell'' None reg = Inl (JobHandlerNotFoundError ''my_shell'')"
proof -
  let ?cs = "[(''Digest'', sample_model, True, 1, 300),
        (''digest'', sample_model, True, 3, 300), (''my_shell'', sample_model, True, 1, 300)]"
  let ?reg = "snd (run_calls reg_exec ?cs empty_registry)"
  have "case get ''digest'' None ?reg of Inl _ \<Rightarrow> False | Inr h \<Rightarrow> rh_version h = 3" by code_simp
  then obtain h where h: "get ''digest'' None ?reg = Inr h" "rh_version h = 3"
    by (cases "get ''digest'' None ?reg") auto
  have n: "case get ''my_shell'' None ?reg of Inl e \<Rightarrow> e = JobHandlerNotFoundError ''my_shell'' | Inr h \<Rightarrow> False"
    by code_simp
  then have "get ''my_shell'' None ?reg = Inl (JobHandlerNotFoundError ''my_shell'')"
    by (cases "get ''my_shell'' None ?reg") auto
  with resolved_handlers_are_admissible [OF refl h(1)] h show ?thesis
    unfolding Let_def by blast
qed

end
