(* ===== verification/JobService.thy ===== *)
theory JobService
  imports JobStatus JobRegistry
begin

text \<open>
  \<^verbatim>\<open>jobs/service.py\<close>: the asyncio service that runs registered handlers over the job store. Its
  state is the store, the flags \<open>_started\<close> and \<open>_stopping\<close>, the \<open>_running\<close> dict and the tasks it
  created; a task is identified by its position in \<open>js_tasks\<close>. What runs between two awaits is one
  operation; \<open>svc_step\<close> interleaves them in any order, with the failure of the process as a step.
  The semaphore is the count of free slots \<open>js_slots\<close>, taken and given back by the runners; which
  waiting runner takes a free slot, and a handler's outcome, are arbitrary. A call of \<open>shutdown\<close> that
  waits is an entry of \<open>js_draining\<close>, the tasks it waits for. The digest of a canonical request and the
  fresh job identifier are arguments.
\<close>

section \<open>Data\<close>

datatype phase = Waiting | Executing | Finished

record task =
  tk_key :: "string \<times> string"
  tk_phase :: phase
  tk_cancel :: bool

record job_service =
  js_db :: jobs_db
  js_started :: bool
  js_stopping :: bool
  js_running :: "string \<times> string \<Rightarrow> nat option"
  js_tasks :: "task list"
  js_slots :: nat
  js_draining :: "nat list list"

text \<open>
  The three first constructors are \<open>JobValidationError\<close>: with a message of its own, and with the
  lookup or validation error it was raised from.
\<close>

datatype service_error =
    JobValidationError string
  | InvalidJobHandler registry_error
  | InvalidJobArguments string
  | JobStoreError job_exc

datatype handler_outcome =
    HReturned job_handler_result "nat \<Rightarrow> string"
  | HRaised
  | HTimedOut
  | HCancelled

definition new_service :: "nat \<Rightarrow> jobs_db \<Rightarrow> job_service" where
  "new_service max_concurrency db = \<lparr>js_db = db, js_started = False, js_stopping = False,
     js_running = (\<lambda>_. None), js_tasks = [], js_slots = max 1 max_concurrency, js_draining = []\<rparr>"

section \<open>Operations\<close>

definition job_identifier :: "string \<Rightarrow> string \<Rightarrow> nat \<Rightarrow> service_error + string" where
  "job_identifier value field maximum = (let ident = py_strip value in
     if ident = [] then Inl (JobValidationError (field @ '' is required''))
     else if maximum < length ident then
       Inl (JobValidationError (field @ '' must be at most '' @ str_nat maximum @ '' characters''))
     else Inr ident)"

definition job_request_hash :: "(json \<Rightarrow> string) \<Rightarrow> string \<Rightarrow> int \<Rightarrow> json \<Rightarrow> string" where
  "job_request_hash dg handler_name handler_version arguments =
     dg (JObj [(''arguments'', arguments), (''handler_name'', JStr handler_name),
       (''handler_version'', JInt handler_version)])"

definition live :: "task \<Rightarrow> bool" where
  "live t = (tk_phase t \<noteq> Finished)"

definition set_task :: "nat \<Rightarrow> task \<Rightarrow> job_service \<Rightarrow> job_service" where
  "set_task i t s = s\<lparr>js_tasks := (js_tasks s)[i := t]\<rparr>"

definition set_phase :: "nat \<Rightarrow> phase \<Rightarrow> job_service \<Rightarrow> job_service" where
  "set_phase i p s = set_task i ((js_tasks s ! i)\<lparr>tk_phase := p\<rparr>) s"

definition spawn :: "string \<times> string \<Rightarrow> job_service \<Rightarrow> job_service" where
  "spawn key s =
    (if (case js_running s key of None \<Rightarrow> False | Some i \<Rightarrow> live (js_tasks s ! i)) then s
     else s\<lparr>js_running := (js_running s)(key \<mapsto> length (js_tasks s)),
            js_tasks := js_tasks s @ [\<lparr>tk_key = key, tk_phase = Waiting, tk_cancel = False\<rparr>]\<rparr>)"

definition start :: "timestamp \<Rightarrow> (job_service, service_error, unit) oper" where
  "start now s =
    (if js_started s then ok () s
     else (case JobStore.recover now (js_db s) of
       (Inl e, db) \<Rightarrow> raises (JobStoreError e) (s\<lparr>js_started := True, js_stopping := False, js_db := db\<rparr>)
     | (Inr rows, db) \<Rightarrow>
         ok () (fold spawn (map (\<lambda>j. (j_tenant j, j_id j)) rows)
           (s\<lparr>js_started := True, js_stopping := False, js_db := db\<rparr>))))"

text \<open>
  \<open>shutdown\<close>: with tasks to cancel it waits for them (\<open>gather\<close>) and goes on with \<open>shutdown_end\<close>; with
  none it does not suspend.
\<close>

definition cancel_running :: "job_service \<Rightarrow> task list" where
  "cancel_running s = map (\<lambda>i. let t = js_tasks s ! i in
     if js_running s (tk_key t) = Some i then t\<lparr>tk_cancel := True\<rparr> else t) [0..<length (js_tasks s)]"

definition running_tasks :: "job_service \<Rightarrow> nat list" where
  "running_tasks s = filter (\<lambda>i. js_running s (tk_key (js_tasks s ! i)) = Some i) [0..<length (js_tasks s)]"

definition shutdown_finish :: "job_service \<Rightarrow> job_service" where
  "shutdown_finish s = s\<lparr>js_running := (\<lambda>_. None), js_started := False, js_stopping := False\<rparr>"

definition shutdown_begin :: "job_service \<Rightarrow> job_service" where
  "shutdown_begin s =
    (if \<not> js_started s then s
     else (let tasks = running_tasks s; s1 = s\<lparr>js_stopping := True, js_tasks := cancel_running s\<rparr>
       in if tasks \<noteq> [] then s1\<lparr>js_draining := js_draining s @ [tasks]\<rparr> else shutdown_finish s1))"

definition drained :: "nat \<Rightarrow> job_service \<Rightarrow> bool" where
  "drained d s = (d < length (js_draining s) \<and>
     list_all (\<lambda>i. \<not> live (js_tasks s ! i)) (js_draining s ! d))"

definition shutdown_end :: "nat \<Rightarrow> job_service \<Rightarrow> job_service" where
  "shutdown_end d s = shutdown_finish
     (s\<lparr>js_draining := take d (js_draining s) @ drop (Suc d) (js_draining s)\<rparr>)"

definition create :: "(json \<Rightarrow> string) \<Rightarrow> handler_registry \<Rightarrow> string \<Rightarrow> timestamp \<Rightarrow> string \<Rightarrow> string \<Rightarrow>
    json \<Rightarrow> string \<Rightarrow> int option \<Rightarrow> (job_service, service_error, job) oper" where
  "create dg reg job_id now tenant_id handler_name arguments idempotency_key handler_version =
    checked (job_identifier tenant_id ''tenant_id'' 200) (\<lambda>tenant.
    checked (job_identifier idempotency_key ''idempotency_key'' 200) (\<lambda>key.
    checked (map_sum InvalidJobHandler id (JobRegistry.get handler_name handler_version reg)) (\<lambda>h.
    checked (map_sum InvalidJobArguments id (am_validate (rh_model h) arguments)) (\<lambda>normalized s.
      case JobStore.create tenant job_id (rh_name h) (rh_version h) normalized key
             (job_request_hash dg (rh_name h) (rh_version h) normalized) now (js_db s) of
        (Inl e, db) \<Rightarrow> raises (JobStoreError e) (s\<lparr>js_db := db\<rparr>)
      | (Inr (job, created), db) \<Rightarrow>
          (let s1 = s\<lparr>js_db := db\<rparr>;
               s2 = (if js_started s1 \<and> j_status job = Queued then spawn (j_tenant job, j_id job) s1
                     else s1)
           in if \<not> created
              then (case JobStore.get tenant (j_id job) (js_db s2) of
                      (Inl e, _) \<Rightarrow> raises (JobStoreError e) s2 | (Inr j, _) \<Rightarrow> ok j s2)
              else ok job s2)))))"

text \<open>\<open>cancel\<close> up to the wait for the task; what follows only reads the job.\<close>

definition cancel :: "timestamp \<Rightarrow> string \<Rightarrow> string \<Rightarrow> (job_service, service_error, job) oper" where
  "cancel now tenant_id job_id =
    checked (job_identifier tenant_id ''tenant_id'' 200) (\<lambda>tenant.
    checked (job_identifier job_id ''job_id'' 100) (\<lambda>j s.
      case JobStore.request_cancel tenant j now (js_db s) of
        (Inl e, db) \<Rightarrow> raises (JobStoreError e) (s\<lparr>js_db := db\<rparr>)
      | (Inr job, db) \<Rightarrow>
          (let s1 = s\<lparr>js_db := db\<rparr> in
           case js_running s1 (tenant, j) of
             None \<Rightarrow> ok job s1
           | Some i \<Rightarrow>
               if j_status job \<in> {CancelRequested, Cancelled} \<and> live (js_tasks s1 ! i)
               then ok job (set_task i ((js_tasks s1 ! i)\<lparr>tk_cancel := True\<rparr>) s1)
               else ok job s1)))"

definition runner_finished :: "nat \<Rightarrow> job_service \<Rightarrow> job_service" where
  "runner_finished i s = (let key = tk_key (js_tasks s ! i) in
     if js_running s key = Some i then s\<lparr>js_running := (js_running s)(key := None)\<rparr> else s)"

definition handler_unavailable :: job_error where
  "handler_unavailable = \<lparr>je_code = ''handler_unavailable'',
     je_message = ''The registered background operation is unavailable.'', je_retryable = False\<rparr>"

definition handler_timeout :: job_error where
  "handler_timeout = \<lparr>je_code = ''handler_timeout'',
     je_message = ''The background operation exceeded its time limit.'', je_retryable = True\<rparr>"

definition handler_failed :: job_error where
  "handler_failed = \<lparr>je_code = ''handler_failed'',
     je_message = ''The background operation failed.'', je_retryable = False\<rparr>"

text \<open>The semaphore: entering and leaving \<open>async with self._semaphore\<close>.\<close>

definition acquire :: "job_service \<Rightarrow> job_service" where
  "acquire s = s\<lparr>js_slots := js_slots s - 1\<rparr>"

definition release :: "job_service \<Rightarrow> job_service" where
  "release s = s\<lparr>js_slots := Suc (js_slots s)\<rparr>"

text \<open>\<open>_run\<close> from the acquisition of the semaphore to the handler's first await.\<close>

definition run_begin :: "handler_registry \<Rightarrow> timestamp \<Rightarrow> nat \<Rightarrow> job_service \<Rightarrow> job_service" where
  "run_begin reg now i s0 = (let s = acquire s0 in case tk_key (js_tasks s ! i) of (t, j) \<Rightarrow>
     (case JobStore.claim t j now (js_db s) of
        (Inl _, db) \<Rightarrow> release (set_phase i Finished (s\<lparr>js_db := db\<rparr>))
      | (Inr None, db) \<Rightarrow> release (set_phase i Finished (s\<lparr>js_db := db\<rparr>))
      | (Inr (Some claimed), db) \<Rightarrow>
          (case JobRegistry.get (j_handler_name claimed) (Some (j_handler_version claimed)) reg of
             Inl _ \<Rightarrow> release (set_phase i Finished
               (s\<lparr>js_db := snd (JobStore.fail t j handler_unavailable now db)\<rparr>))
           | Inr h \<Rightarrow> (case am_validate (rh_model h) (j_arguments claimed) of
               Inl _ \<Rightarrow> release (set_phase i Finished
                 (s\<lparr>js_db := snd (JobStore.fail t j handler_failed now db)\<rparr>))
             | Inr _ \<Rightarrow> set_phase i Executing (s\<lparr>js_db := db\<rparr>)))))"

definition run_progress :: "json \<Rightarrow> timestamp \<Rightarrow> nat \<Rightarrow> job_service \<Rightarrow> job_service" where
  "run_progress payload now i s = (case tk_key (js_tasks s ! i) of (t, j) \<Rightarrow>
     s\<lparr>js_db := snd (JobStore.progress t j payload now (js_db s))\<rparr>)"

text \<open>\<open>_run\<close> from the handler's last await to the end of the task.\<close>

definition run_end :: "handler_outcome \<Rightarrow> timestamp \<Rightarrow> nat \<Rightarrow> job_service \<Rightarrow> job_service" where
  "run_end outcome now i s = (case tk_key (js_tasks s ! i) of (t, j) \<Rightarrow>
     (let db = js_db s;
          db' = (case outcome of
            HReturned result aids \<Rightarrow>
              if js_stopping s then snd (JobStore.requeue_interrupted t j now db)
              else (case JobStore.complete t j result aids now db of
                (Inl _, db1) \<Rightarrow> snd (JobStore.fail t j handler_failed now db1)
              | (Inr _, db1) \<Rightarrow> db1)
          | HCancelled \<Rightarrow>
              if js_stopping s then snd (JobStore.requeue_interrupted t j now db)
              else snd (JobStore.mark_cancelled t j ''cancelled_by_owner'' now db)
          | HTimedOut \<Rightarrow> snd (JobStore.fail t j handler_timeout now db)
          | HRaised \<Rightarrow> snd (JobStore.fail t j handler_failed now db))
      in release (set_phase i Finished (s\<lparr>js_db := db'\<rparr>))))"

section \<open>Steps\<close>

definition executing :: "job_service \<Rightarrow> nat" where
  "executing s = length (filter (\<lambda>t. tk_phase t = Executing) (js_tasks s))"

text \<open>
  The interleavings. \<open>quiet\<close> says that while a shutdown waits for its tasks no job is created and
  \<open>shutdown\<close> is not called again, which is so when the API has stopped serving before; without it the
  service is in trouble (see below).
\<close>

inductive svc_step :: "bool \<Rightarrow> nat \<Rightarrow> (json \<Rightarrow> string) \<Rightarrow> handler_registry \<Rightarrow> job_service \<Rightarrow> job_service \<Rightarrow> bool"
  for quiet :: bool and max_concurrency :: nat and dg :: "json \<Rightarrow> string" and reg :: handler_registry where
  st_start: "svc_step quiet max_concurrency dg reg s (snd (start now s))"
| st_create: "(quiet \<Longrightarrow> js_draining s = []) \<Longrightarrow> svc_step quiet max_concurrency dg reg s
    (snd (create dg reg job_id now tenant_id handler_name arguments idempotency_key handler_version s))"
| st_cancel: "svc_step quiet max_concurrency dg reg s (snd (cancel now tenant_id job_id s))"
| st_begin: "i < length (js_tasks s) \<Longrightarrow> tk_phase (js_tasks s ! i) = Waiting \<Longrightarrow>
    \<not> tk_cancel (js_tasks s ! i) \<Longrightarrow> 0 < js_slots s \<Longrightarrow>
    svc_step quiet max_concurrency dg reg s (run_begin reg now i s)"
| st_abandon: "i < length (js_tasks s) \<Longrightarrow> tk_phase (js_tasks s ! i) = Waiting \<Longrightarrow>
    tk_cancel (js_tasks s ! i) \<Longrightarrow> svc_step quiet max_concurrency dg reg s (set_phase i Finished s)"
| st_progress: "i < length (js_tasks s) \<Longrightarrow> tk_phase (js_tasks s ! i) = Executing \<Longrightarrow>
    svc_step quiet max_concurrency dg reg s (run_progress payload now i s)"
| st_end: "i < length (js_tasks s) \<Longrightarrow> tk_phase (js_tasks s ! i) = Executing \<Longrightarrow>
    svc_step quiet max_concurrency dg reg s (run_end outcome now i s)"
| st_reap: "i < length (js_tasks s) \<Longrightarrow> tk_phase (js_tasks s ! i) = Finished \<Longrightarrow>
    svc_step quiet max_concurrency dg reg s (runner_finished i s)"
| st_shutdown: "(quiet \<Longrightarrow> js_draining s = []) \<Longrightarrow> svc_step quiet max_concurrency dg reg s (shutdown_begin s)"
| st_shutdown_end: "drained d s \<Longrightarrow> svc_step quiet max_concurrency dg reg s (shutdown_end d s)"
| st_crash: "svc_step quiet max_concurrency dg reg s (new_service max_concurrency (js_db s))"

section \<open>Runners\<close>

text \<open>The live task of a job: at most one, because a live task is the one \<open>_running\<close> holds.\<close>

definition runner :: "job_service \<Rightarrow> string \<times> string \<Rightarrow> task option" where
  "runner s k = (case js_running s k of None \<Rightarrow> None
     | Some i \<Rightarrow> if live (js_tasks s ! i) then Some (js_tasks s ! i) else None)"

definition tasks_ok :: "job_service \<Rightarrow> bool" where
  "tasks_ok s = ((\<forall>i < length (js_tasks s). live (js_tasks s ! i) \<longrightarrow>
       js_running s (tk_key (js_tasks s ! i)) = Some i) \<and>
     (\<forall>k i. js_running s k = Some i \<longrightarrow> i < length (js_tasks s) \<and> tk_key (js_tasks s ! i) = k))"

definition active :: "job_status option \<Rightarrow> bool" where
  "active st = (st = Some Running \<or> st = Some CancelRequested)"

text \<open>
  The coupling of the store and the tasks: a live task belongs to a job of the store; once started,
  the jobs in execution are exactly those of the executing tasks, and unless the service is stopping
  every queued job has a waiting task.
\<close>

definition coupled :: "bool \<Rightarrow> bool \<Rightarrow> job_map \<Rightarrow> (string \<times> string \<Rightarrow> task option) \<Rightarrow> bool" where
  "coupled st sp m R = ((\<not> st \<longrightarrow> (\<forall>k. R k = None)) \<and> (\<forall>k t. R k = Some t \<longrightarrow> m k \<noteq> None) \<and>
     (st \<longrightarrow> (\<forall>k. active (m k) \<longleftrightarrow> (\<exists>t. R k = Some t \<and> tk_phase t = Executing))) \<and>
     (st \<and> \<not> sp \<longrightarrow> (\<forall>k. m k = Some Queued \<longrightarrow>
        (\<exists>t. R k = Some t \<and> tk_phase t = Waiting \<and> \<not> tk_cancel t))))"

definition draining_ok :: "job_service \<Rightarrow> bool" where
  "draining_ok s = ((\<not> js_started s \<longrightarrow> js_draining s = []) \<and>
     (js_stopping s \<longleftrightarrow> js_draining s \<noteq> []) \<and> length (js_draining s) \<le> 1 \<and>
     (\<forall>ids i. ids \<in> set (js_draining s) \<longrightarrow> i < length (js_tasks s) \<longrightarrow> live (js_tasks s ! i) \<longrightarrow> i \<in> set ids))"

definition svc_inv :: "job_service \<Rightarrow> bool" where
  "svc_inv s = (jobs_inv (js_db s) \<and> tasks_ok s \<and> draining_ok s \<and>
     coupled (js_started s) (js_stopping s) (status_of (js_db s)) (runner s))"

section \<open>What the operations do to the runners\<close>

declare split_paired_All [simp del] split_paired_Ex [simp del]

lemma length_filter_update:
  "i < length xs \<Longrightarrow> length (filter P (xs[i := y])) + (if P (xs ! i) then 1 else 0) =
   length (filter P xs) + (if P y then 1 else 0)"
proof (induction xs arbitrary: i)
  case (Cons x xs)
  then show ?case by (cases i) auto
qed simp

lemma runner_db [simp]: "runner (s\<lparr>js_db := db\<rparr>) = runner s"
  by (rule ext) (simp add: runner_def split: option.splits)

lemma tasks_ok_db [simp]: "tasks_ok (s\<lparr>js_db := db\<rparr>) = tasks_ok s"
  by (simp add: tasks_ok_def)

lemma executing_db [simp]: "executing (s\<lparr>js_db := db\<rparr>) = executing s"
  by (simp add: executing_def)

lemma slots_simps [simp]:
  "svc_inv (acquire s) = svc_inv s" "svc_inv (release s) = svc_inv s"
  "js_tasks (acquire s) = js_tasks s" "js_db (acquire s) = js_db s"
  "js_tasks (release s) = js_tasks s" "js_db (release s) = js_db s"
proof -
  have "runner (s\<lparr>js_slots := x\<rparr>) = runner s" for x
    by (rule ext) (simp add: runner_def split: option.splits)
  then have "svc_inv (s\<lparr>js_slots := x\<rparr>) = svc_inv s" for x
    by (simp add: svc_inv_def tasks_ok_def draining_ok_def)
  then show "svc_inv (acquire s) = svc_inv s" "svc_inv (release s) = svc_inv s"
    "js_tasks (acquire s) = js_tasks s" "js_db (acquire s) = js_db s"
    "js_tasks (release s) = js_tasks s" "js_db (release s) = js_db s"
    by (simp_all add: acquire_def release_def)
qed

lemma acquire_phase [simp]:
  "svc_inv (set_phase i p ((acquire s)\<lparr>js_db := db\<rparr>)) = svc_inv (set_phase i p (s\<lparr>js_db := db\<rparr>))"
proof -
  have "set_phase i p ((acquire s)\<lparr>js_db := db\<rparr>) = acquire (set_phase i p (s\<lparr>js_db := db\<rparr>))"
    by (simp add: acquire_def set_phase_def set_task_def)
  then show ?thesis by simp
qed

lemma draining_ok_db [simp]: "draining_ok (s\<lparr>js_db := db\<rparr>) = draining_ok s"
  by (simp add: draining_ok_def)

lemma tasks_okI:
  assumes "\<And>i. i < length (js_tasks s) \<Longrightarrow> live (js_tasks s ! i) \<Longrightarrow>
      js_running s (tk_key (js_tasks s ! i)) = Some i"
    "\<And>k i. js_running s k = Some i \<Longrightarrow> i < length (js_tasks s) \<and> tk_key (js_tasks s ! i) = k"
  shows "tasks_ok s"
  using assms unfolding tasks_ok_def by blast

lemma tasks_okD: "tasks_ok s \<Longrightarrow> js_running s k = Some i \<Longrightarrow> i < length (js_tasks s) \<and> tk_key (js_tasks s ! i) = k"
  unfolding tasks_ok_def by blast

lemma runner_task:
  assumes "tasks_ok s" "i < length (js_tasks s)" "live (js_tasks s ! i)"
  shows "runner s (tk_key (js_tasks s ! i)) = Some (js_tasks s ! i)"
  using assms by (simp add: tasks_ok_def runner_def)

lemma runner_key: "tasks_ok s \<Longrightarrow> runner s k = Some t \<Longrightarrow> tk_key t = k \<and> live t \<and> t \<in> set (js_tasks s)"
  by (fastforce simp: tasks_ok_def runner_def split: option.splits if_splits)

lemma set_task_simps [simp]:
  "js_db (set_task i t s) = js_db s" "js_started (set_task i t s) = js_started s"
  "js_stopping (set_task i t s) = js_stopping s" "js_draining (set_task i t s) = js_draining s"
  "js_running (set_task i t s) = js_running s" "length (js_tasks (set_task i t s)) = length (js_tasks s)"
  by (simp_all add: set_task_def)

lemma set_task_nth:
  "i < length (js_tasks s) \<Longrightarrow> js_tasks (set_task i t s) ! i' = (if i' = i then t else js_tasks s ! i')"
  by (simp add: set_task_def)

lemma set_task_ok:
  assumes "tasks_ok s" "i < length (js_tasks s)" "live (js_tasks s ! i)" "tk_key t = tk_key (js_tasks s ! i)"
  shows "tasks_ok (set_task i t s)"
    and "runner (set_task i t s) = (runner s)(tk_key t := (if live t then Some t else None))"
proof -
  have r: "js_running s (tk_key t) = Some i" using assms by (simp add: tasks_ok_def)
  show "tasks_ok (set_task i t s)"
  proof (rule tasks_okI)
    fix i' assume i': "i' < length (js_tasks (set_task i t s))" "live (js_tasks (set_task i t s) ! i')"
    then have "live (js_tasks s ! i')" "tk_key (js_tasks (set_task i t s) ! i') = tk_key (js_tasks s ! i')"
      using assms by (auto simp: set_task_nth split: if_splits)
    with i' assms(1) show "js_running (set_task i t s) (tk_key (js_tasks (set_task i t s) ! i')) = Some i'"
      by (simp add: tasks_ok_def)
  next
    fix k i' assume "js_running (set_task i t s) k = Some i'"
    with assms tasks_okD [OF assms(1), of k i']
    show "i' < length (js_tasks (set_task i t s)) \<and> tk_key (js_tasks (set_task i t s) ! i') = k"
      by (auto simp: set_task_nth)
  qed
  show "runner (set_task i t s) = (runner s)(tk_key t := (if live t then Some t else None))"
  proof
    fix k
    show "runner (set_task i t s) k = ((runner s)(tk_key t := (if live t then Some t else None))) k"
    proof (cases "k = tk_key t")
      case True
      then show ?thesis using r assms by (simp add: runner_def set_task_nth)
    next
      case False
      then have "js_running s k \<noteq> Some i" using tasks_okD [OF assms(1), of k i] assms(4) by auto
      with False assms(2) show ?thesis
        by (auto simp: runner_def set_task_nth split: option.splits)
    qed
  qed
qed

lemma executing_set_task:
  assumes "i < length (js_tasks s)"
  shows "executing (set_task i t s) + (if tk_phase (js_tasks s ! i) = Executing then 1 else 0) =
    executing s + (if tk_phase t = Executing then 1 else 0)"
  using length_filter_update [OF assms, of "\<lambda>t. tk_phase t = Executing" t]
  by (simp add: executing_def set_task_def)

lemma draining_set_task:
  assumes "draining_ok s" "i < length (js_tasks s)" "live (js_tasks s ! i)"
  shows "draining_ok (set_task i t s)"
  using assms by (auto simp: draining_ok_def set_task_nth split: if_splits)

lemma spawn_simps [simp]:
  "js_db (spawn k s) = js_db s" "js_started (spawn k s) = js_started s"
  "js_stopping (spawn k s) = js_stopping s" "js_draining (spawn k s) = js_draining s"
  "executing (spawn k s) = executing s"
  by (simp_all add: spawn_def executing_def)

lemma spawn_runner:
  assumes "tasks_ok s"
  shows "tasks_ok (spawn k s)"
    and "runner (spawn k s) = (case runner s k of Some _ \<Rightarrow> runner s
      | None \<Rightarrow> (runner s)(k \<mapsto> \<lparr>tk_key = k, tk_phase = Waiting, tk_cancel = False\<rparr>))"
proof -
  let ?t = "\<lparr>tk_key = k, tk_phase = Waiting, tk_cancel = False\<rparr>"
  let ?b = "case js_running s k of None \<Rightarrow> False | Some i \<Rightarrow> live (js_tasks s ! i)"
  have b: "?b \<longleftrightarrow> runner s k \<noteq> None" by (simp add: runner_def split: option.splits)
  have dead: "\<not> live (js_tasks s ! i)" if "\<not> ?b" "i < length (js_tasks s)" "tk_key (js_tasks s ! i) = k" for i
    using that assms by (auto simp: tasks_ok_def split: option.splits)
  show "tasks_ok (spawn k s)"
  proof (cases ?b)
    case False
    then have "spawn k s = s\<lparr>js_running := (js_running s)(k \<mapsto> length (js_tasks s)),
        js_tasks := js_tasks s @ [?t]\<rparr>" by (simp add: spawn_def)
    with assms dead [OF False] show ?thesis
      by (auto simp: tasks_ok_def nth_append less_Suc_eq)
  qed (use assms in \<open>simp add: spawn_def\<close>)
  show "runner (spawn k s) = (case runner s k of Some _ \<Rightarrow> runner s | None \<Rightarrow> (runner s)(k \<mapsto> ?t))"
  proof (cases ?b)
    case False
    then have "spawn k s = s\<lparr>js_running := (js_running s)(k \<mapsto> length (js_tasks s)),
        js_tasks := js_tasks s @ [?t]\<rparr>" by (simp add: spawn_def)
    moreover have "i < length (js_tasks s)" if "js_running s k' = Some i" for k' i
      using that assms by (simp add: tasks_ok_def)
    ultimately show ?thesis using False b
      by (auto simp: runner_def live_def nth_append fun_eq_iff split: option.splits)
  qed (use b in \<open>auto simp: spawn_def\<close>)
qed

lemma draining_spawn: "draining_ok s \<Longrightarrow> js_draining s = [] \<Longrightarrow> draining_ok (spawn k s)"
  by (simp add: draining_ok_def)

lemma reap_runner:
  assumes "tasks_ok s" "i < length (js_tasks s)" "tk_phase (js_tasks s ! i) = Finished"
  shows "tasks_ok (runner_finished i s)" "runner (runner_finished i s) = runner s"
proof -
  let ?k = "tk_key (js_tasks s ! i)"
  have dead: "runner s ?k = None" if "js_running s ?k = Some i"
    using that assms(3) by (simp add: runner_def live_def)
  show "tasks_ok (runner_finished i s)"
  proof (cases "js_running s ?k = Some i")
    case True
    have lv: "js_running s (tk_key (js_tasks s ! i')) = Some i' \<and> tk_key (js_tasks s ! i') \<noteq> ?k"
      if "i' < length (js_tasks s)" "live (js_tasks s ! i')" for i'
    proof -
      have r: "js_running s (tk_key (js_tasks s ! i')) = Some i'"
        using assms(1) that by (simp add: tasks_ok_def)
      moreover have "i' \<noteq> i" using that(2) assms(3) by (auto simp: live_def)
      ultimately show ?thesis using True by auto
    qed
    have s': "js_tasks (runner_finished i s) = js_tasks s"
      "js_running (runner_finished i s) = (js_running s)(?k := None)"
      using True by (simp_all add: runner_finished_def)
    show ?thesis
    proof (rule tasks_okI, unfold s')
      fix i' assume "i' < length (js_tasks s)" "live (js_tasks s ! i')"
      from lv [OF this] show "((js_running s)(?k := None)) (tk_key (js_tasks s ! i')) = Some i'" by simp
    next
      fix k' i' assume "((js_running s)(?k := None)) k' = Some i'"
      then have "js_running s k' = Some i'" by (simp split: if_splits)
      then show "i' < length (js_tasks s) \<and> tk_key (js_tasks s ! i') = k'" by (rule tasks_okD [OF assms(1)])
    qed
  qed (use assms(1) in \<open>simp add: runner_finished_def\<close>)
  show "runner (runner_finished i s) = runner s"
  proof (cases "js_running s ?k = Some i")
    case True
    then have "runner (runner_finished i s) = (runner s)(?k := None)"
      by (intro ext) (simp add: runner_finished_def runner_def split: option.splits)
    with dead [OF True] show ?thesis by (simp add: fun_upd_idem)
  qed (simp add: runner_finished_def)
qed

lemma cancel_running_nth:
  "i < length (js_tasks s) \<Longrightarrow> cancel_running s ! i = (let t = js_tasks s ! i in
     if js_running s (tk_key t) = Some i then t\<lparr>tk_cancel := True\<rparr> else t)"
  by (simp add: cancel_running_def)

lemma cancel_running_phase:
  "i < length (js_tasks s) \<Longrightarrow> tk_phase (cancel_running s ! i) = tk_phase (js_tasks s ! i) \<and>
     tk_key (cancel_running s ! i) = tk_key (js_tasks s ! i)"
  by (simp add: cancel_running_nth Let_def)

lemma length_cancel_running [simp]: "length (cancel_running s) = length (js_tasks s)"
  by (simp add: cancel_running_def)

lemma executing_cancel_running:
  "length (filter (\<lambda>t. tk_phase t = Executing) (cancel_running s)) = executing s"
proof -
  have "map tk_phase (cancel_running s) = map tk_phase (js_tasks s)"
    by (rule nth_equalityI) (simp_all add: cancel_running_phase)
  then have "length (filter (\<lambda>p. p = Executing) (map tk_phase (cancel_running s))) =
      length (filter (\<lambda>p. p = Executing) (map tk_phase (js_tasks s)))" by simp
  then show ?thesis by (simp add: executing_def filter_map comp_def)
qed

text \<open>The first part of \<open>shutdown\<close>: the flag, and the tasks cancelled.\<close>

definition stopping :: "job_service \<Rightarrow> job_service" where
  "stopping s = s\<lparr>js_stopping := True, js_tasks := cancel_running s\<rparr>"

lemma stopping_runner:
  assumes "tasks_ok s"
  shows "tasks_ok (stopping s)"
    and "runner (stopping s) = (\<lambda>k. map_option (\<lambda>t. t\<lparr>tk_cancel := True\<rparr>) (runner s k))"
proof -
  have s': "js_tasks (stopping s) = cancel_running s" "js_running (stopping s) = js_running s"
    by (simp_all add: stopping_def)
  show "tasks_ok (stopping s)"
    using assms unfolding tasks_ok_def s' by (auto simp: cancel_running_phase live_def)
  show "runner (stopping s) = (\<lambda>k. map_option (\<lambda>t. t\<lparr>tk_cancel := True\<rparr>) (runner s k))"
  proof
    fix k
    show "runner (stopping s) k = map_option (\<lambda>t. t\<lparr>tk_cancel := True\<rparr>) (runner s k)"
    proof (cases "js_running s k")
      case (Some i)
      then have "i < length (js_tasks s)" "tk_key (js_tasks s ! i) = k"
        using assms by (auto simp: tasks_ok_def)
      with Some show ?thesis by (simp add: runner_def s' cancel_running_nth Let_def live_def)
    qed (simp add: runner_def s')
  qed
qed

lemma live_running_tasks:
  "tasks_ok s \<Longrightarrow> i < length (js_tasks s) \<Longrightarrow> live (js_tasks s ! i) \<Longrightarrow> i \<in> set (running_tasks s)"
  by (simp add: running_tasks_def tasks_ok_def)

section \<open>Steps keep the invariant\<close>

lemma coupled_task:
  assumes "coupled st sp m R" "R k = Some t" "m' = m(k := x)"
    "R' = R(k := y)" "active x \<longleftrightarrow> (\<exists>t'. y = Some t' \<and> tk_phase t' = Executing)"
    "x = Some Queued \<Longrightarrow> sp \<or> (\<exists>t'. y = Some t' \<and> tk_phase t' = Waiting \<and> \<not> tk_cancel t')"
    "y \<noteq> None \<Longrightarrow> x \<noteq> None"
  shows "coupled st sp m' R'"
proof -
  have st using assms(1,2) by (auto simp: coupled_def)
  with assms show ?thesis by (auto simp: coupled_def)
qed

lemma svc_inv_task:
  assumes inv: "svc_inv s" and i: "i < length (js_tasks s)" "live (js_tasks s ! i)"
    and db: "jobs_inv db" "status_of db = (status_of (js_db s))(tk_key (js_tasks s ! i) := x)"
    and t: "tk_key t = tk_key (js_tasks s ! i)"
    and st: "active x \<longleftrightarrow> tk_phase t = Executing" "x = Some Queued \<Longrightarrow> js_stopping s"
      "live t \<Longrightarrow> x \<noteq> None"
  shows "svc_inv (set_task i t (s\<lparr>js_db := db\<rparr>))"
proof -
  let ?s = "s\<lparr>js_db := db\<rparr>"
  have ok: "tasks_ok ?s" "i < length (js_tasks ?s)" "live (js_tasks ?s ! i)" "tk_key t = tk_key (js_tasks ?s ! i)"
    using inv i t by (simp_all add: svc_inv_def)
  have c: "coupled (js_started s) (js_stopping s) (status_of db) (runner (set_task i t ?s))"
  proof (rule coupled_task)
    show "coupled (js_started s) (js_stopping s) (status_of (js_db s)) (runner s)"
      "runner s (tk_key t) = Some (js_tasks s ! i)"
      using inv i t by (simp_all add: svc_inv_def runner_task)
    show "runner (set_task i t ?s) = (runner s)(tk_key t := (if live t then Some t else None))"
      using set_task_ok(2) [OF ok] by simp
  qed (use db st t in \<open>auto simp: live_def split: if_splits\<close>)
  with c inv db(1) set_task_ok(1) [OF ok] draining_set_task [OF _ ok(2,3)] show ?thesis
    by (simp add: svc_inv_def)
qed

lemma svc_inv_finish:
  assumes "svc_inv s" "i < length (js_tasks s)" "live (js_tasks s ! i)"
    "jobs_inv db" "status_of db = (status_of (js_db s))(tk_key (js_tasks s ! i) := x)"
    "\<not> active x" "x = Some Queued \<Longrightarrow> js_stopping s"
  shows "svc_inv (set_phase i Finished (s\<lparr>js_db := db\<rparr>))"
  unfolding set_phase_def using assms by (intro svc_inv_task) (simp_all add: live_def)

lemma svc_inv_key:
  assumes "svc_inv s" "i < length (js_tasks s)" "tk_phase (js_tasks s ! i) = Executing"
  shows "active (status_of (js_db s) (tk_key (js_tasks s ! i)))" "js_started s"
proof -
  have r: "runner s (tk_key (js_tasks s ! i)) = Some (js_tasks s ! i)"
    using assms by (intro runner_task) (auto simp: svc_inv_def live_def)
  with assms show "js_started s" by (auto simp: svc_inv_def coupled_def)
  with r assms show "active (status_of (js_db s) (tk_key (js_tasks s ! i)))"
    by (auto simp: svc_inv_def coupled_def)
qed

lemma inv_exec: "jobs_inv db \<Longrightarrow> jobs_inv (snd (job_exec c db))"
  by (rule job_calls.inv_exec)

lemma inv_ops:
  assumes "jobs_inv db"
  shows "jobs_inv (snd (JobStore.claim t j now db))" "jobs_inv (snd (JobStore.fail t j e now db))"
    "jobs_inv (snd (JobStore.complete t j res aids now db))"
    "jobs_inv (snd (JobStore.requeue_interrupted t j now db))"
    "jobs_inv (snd (JobStore.mark_cancelled t j rsn now db))"
    "jobs_inv (snd (JobStore.request_cancel t j now db))"
    "jobs_inv (snd (JobStore.progress t j p now db))" "jobs_inv (snd (JobStore.recover now db))"
    "jobs_inv (snd (JobStore.create t j h v a k rh now db))"
  using inv_exec [OF assms, of "JClaim t j now"] inv_exec [OF assms, of "JFail t j e now"]
    inv_exec [OF assms, of "JComplete t j res aids now"] inv_exec [OF assms, of "JRequeue t j now"]
    inv_exec [OF assms, of "JMarkCancelled t j rsn now"] inv_exec [OF assms, of "JRequestCancel t j now"]
    inv_exec [OF assms, of "JProgress t j p now"] inv_exec [OF assms, of "JRecover now"]
    inv_exec [OF assms, of "JCreate t j h v a k rh now"]
  by (simp_all add: Let_def)

lemma run_end_inv:
  assumes inv: "svc_inv s" and i: "i < length (js_tasks s)" "tk_phase (js_tasks s ! i) = Executing"
  shows "svc_inv (run_end outcome now i s)"
proof -
  obtain t j where k: "tk_key (js_tasks s ! i) = (t, j)" by fastforce
  note db = inv [unfolded svc_inv_def, THEN conjunct1]
  have act: "active (status_of (js_db s) (t, j))" using svc_inv_key [OF inv i] k by simp
  have lv: "live (js_tasks s ! i)" using i(2) by (simp add: live_def)
  note fin = svc_inv_finish [OF inv i(1) lv, unfolded k]
  have requeue: "svc_inv (set_phase i Finished (s\<lparr>js_db := snd (JobStore.requeue_interrupted t j now (js_db s))\<rparr>))"
    if "js_stopping s"
    by (rule fin [OF inv_ops(4) [OF db] requeue_status [OF db, unfolded at_job_def]])
      (use act that in \<open>auto simp: active_def\<close>)
  have failed: "svc_inv (set_phase i Finished (s\<lparr>js_db := snd (JobStore.fail t j e now (js_db s))\<rparr>))" for e
    by (rule fin [OF inv_ops(2) [OF db] fail_status [OF db, unfolded at_job_def]])
      (use act in \<open>auto simp: active_def\<close>)
  have marked: "svc_inv (set_phase i Finished (s\<lparr>js_db := snd (JobStore.mark_cancelled t j rsn now (js_db s))\<rparr>))" for rsn
    by (rule fin [OF inv_ops(5) [OF db] mark_cancelled_status [OF db, unfolded at_job_def]])
      (use act in \<open>auto simp: active_def\<close>)
  have completed: "svc_inv (set_phase i Finished (s\<lparr>js_db := snd (JobStore.complete t j res aids now (js_db s))\<rparr>))"
    if "is_ok (JobStore.complete t j res aids now (js_db s))" for res aids
  proof -
    from complete_status [OF db, of t j res aids now] that
    have "status_of (snd (JobStore.complete t j res aids now (js_db s))) =
        at_job (t, j) (after_complete True) (status_of (js_db s))" by (metis (full_types))
    then show ?thesis
      by (intro fin [OF inv_ops(3) [OF db], where x = "map_option (after_complete True) (status_of (js_db s) (t, j))"])
        (use act in \<open>auto simp: active_def at_job_def\<close>)
  qed
  have refused: "snd (JobStore.complete t j res aids now (js_db s)) = js_db s"
    if "\<not> is_ok (JobStore.complete t j res aids now (js_db s))" for res aids
    using complete_status [OF db, of t j res aids now] that by metis
  show ?thesis
  proof (cases outcome)
    case (HReturned res aids)
    obtain x db1 where c: "JobStore.complete t j res aids now (js_db s) = (x, db1)" by fastforce
    show ?thesis
    proof (cases "js_stopping s")
      case False
      with HReturned c completed [of res aids] refused [of res aids] failed show ?thesis
        by (cases x) (simp_all add: run_end_def k Let_def)
    qed (use HReturned requeue in \<open>simp add: run_end_def k Let_def\<close>)
  qed (use requeue failed marked in \<open>simp_all add: run_end_def k Let_def\<close>)
qed

lemma svc_inv_waiting:
  assumes "svc_inv s" "i < length (js_tasks s)" "tk_phase (js_tasks s ! i) = Waiting"
  shows "\<not> active (status_of (js_db s) (tk_key (js_tasks s ! i)))"
    "status_of (js_db s) (tk_key (js_tasks s ! i)) \<noteq> None" "js_started s"
    "status_of (js_db s) (tk_key (js_tasks s ! i)) = Some Queued \<Longrightarrow> tk_cancel (js_tasks s ! i) \<Longrightarrow>
      js_stopping s"
proof -
  have r: "runner s (tk_key (js_tasks s ! i)) = Some (js_tasks s ! i)"
    using assms by (intro runner_task) (auto simp: svc_inv_def live_def)
  have c: "coupled (js_started s) (js_stopping s) (status_of (js_db s)) (runner s)"
    using assms(1) by (simp add: svc_inv_def)
  from r c show st: "js_started s" by (auto simp: coupled_def)
  from r c st assms(3) show "\<not> active (status_of (js_db s) (tk_key (js_tasks s ! i)))"
    by (auto simp: coupled_def)
  from r c show "status_of (js_db s) (tk_key (js_tasks s ! i)) \<noteq> None" unfolding coupled_def by blast
  from r c st assms(3) show "status_of (js_db s) (tk_key (js_tasks s ! i)) = Some Queued \<Longrightarrow>
      tk_cancel (js_tasks s ! i) \<Longrightarrow> js_stopping s"
    by (fastforce simp: coupled_def)
qed

lemma abandon_inv:
  assumes inv: "svc_inv s" and i: "i < length (js_tasks s)" "tk_phase (js_tasks s ! i) = Waiting"
    "tk_cancel (js_tasks s ! i)"
  shows "svc_inv (set_phase i Finished s)"
  using svc_inv_finish [OF inv i(1), where db = "js_db s" and x = "status_of (js_db s) (tk_key (js_tasks s ! i))"]
    svc_inv_waiting [OF inv i(1,2)] i inv
  by (simp add: live_def svc_inv_def)

lemma run_begin_inv:
  assumes inv: "svc_inv s" and i: "i < length (js_tasks s)" "tk_phase (js_tasks s ! i) = Waiting"
  shows "svc_inv (run_begin reg now i s)"
proof -
  obtain t j where k: "tk_key (js_tasks s ! i) = (t, j)" by fastforce
  note db = inv [unfolded svc_inv_def, THEN conjunct1]
  note w = svc_inv_waiting [OF inv i, unfolded k]
  have lv: "live (js_tasks s ! i)" using i(2) by (simp add: live_def)
  note fin = svc_inv_finish [OF inv i(1) lv, unfolded k]
  obtain r where r: "job_of (js_db s) t j = Some r" using w(2) by auto
  let ?db = "snd (JobStore.claim t j now (js_db s))"
  have st: "status_of ?db = (status_of (js_db s))((t, j) := map_option after_claim (status_of (js_db s) (t, j)))"
    using claim_status [OF db] by (simp add: at_job_def)
  have failed: "svc_inv (set_phase i Finished (s\<lparr>js_db := snd (JobStore.fail t j er now ?db)\<rparr>))"
    if "status_of (js_db s) (t, j) = Some Queued" for er
    by (rule fin [OF inv_ops(2) [OF inv_ops(1) [OF db]], where x = "Some JobFailed"])
      (simp_all add: fail_status [OF inv_ops(1) [OF db]] st that at_job_def active_def)
  have exec: "svc_inv (set_phase i Executing (s\<lparr>js_db := ?db\<rparr>))"
    if "status_of (js_db s) (t, j) = Some Queued"
    unfolding set_phase_def
    by (rule svc_inv_task [OF inv i(1) lv inv_ops(1) [OF db], where x = "Some Running"])
      (use st that k in \<open>simp_all add: active_def\<close>)
  have skip: "svc_inv (set_phase i Finished (s\<lparr>js_db := ?db\<rparr>))"
    if "status_of (js_db s) (t, j) \<noteq> Some Queued"
  proof -
    have "map_option after_claim (status_of (js_db s) (t, j)) = status_of (js_db s) (t, j)"
      using that r by (cases "j_status r") (simp_all add: status_of_Some)
    then have "status_of ?db = (status_of (js_db s))((t, j) := status_of (js_db s) (t, j))" using st by simp
    from fin [OF inv_ops(1) [OF db] this w(1)] that show ?thesis by blast
  qed
  obtain x where x: "fst (JobStore.claim t j now (js_db s)) = Inr x" "x = None \<longleftrightarrow> j_status r \<noteq> Queued"
    using claim_result [OF db r, of now] by blast
  obtain db1 where db1: "?db = db1" by blast
  with x have c: "JobStore.claim t j now (js_db s) = (Inr x, db1)" by (simp add: prod_eq_iff)
  show ?thesis
  proof (cases x)
    case None
    with x(2) r skip have "svc_inv (set_phase i Finished (s\<lparr>js_db := db1\<rparr>))"
      unfolding db1 by (simp add: status_of_Some)
    with None c show ?thesis by (simp add: run_begin_def Let_def k)
  next
    case (Some cl)
    with x r have q: "status_of (js_db s) (t, j) = Some Queued" by (simp add: status_of_Some)
    show ?thesis
      using c Some failed [OF q, unfolded db1] exec [OF q, unfolded db1]
      by (auto simp: run_begin_def Let_def k split: sum.splits)
  qed
qed

lemma progress_inv:
  assumes inv: "svc_inv s"
  shows "svc_inv (run_progress p now i s)"
proof -
  obtain t j where k: "tk_key (js_tasks s ! i) = (t, j)" by fastforce
  note db = inv [unfolded svc_inv_def, THEN conjunct1]
  show ?thesis using inv inv_ops(7) [OF db, of t j p now] progress_status [OF db, of t j p now]
    by (simp add: run_progress_def k svc_inv_def)
qed

lemma reap_inv:
  assumes inv: "svc_inv s" and i: "i < length (js_tasks s)" "tk_phase (js_tasks s ! i) = Finished"
  shows "svc_inv (runner_finished i s)"
proof -
  have ok: "tasks_ok s" using inv by (simp add: svc_inv_def)
  have same: "js_db (runner_finished i s) = js_db s" "js_started (runner_finished i s) = js_started s"
    "js_stopping (runner_finished i s) = js_stopping s" "js_draining (runner_finished i s) = js_draining s"
    "js_tasks (runner_finished i s) = js_tasks s"
    by (simp_all add: runner_finished_def Let_def)
  show ?thesis using inv reap_runner(1) [OF ok i]
    unfolding svc_inv_def draining_ok_def same reap_runner(2) [OF ok i] by blast
qed

lemma fold_spawn:
  assumes "tasks_ok s"
  shows "tasks_ok (fold spawn ks s) \<and> js_db (fold spawn ks s) = js_db s \<and>
    js_started (fold spawn ks s) = js_started s \<and> js_stopping (fold spawn ks s) = js_stopping s \<and>
    js_draining (fold spawn ks s) = js_draining s \<and> executing (fold spawn ks s) = executing s \<and>
    runner (fold spawn ks s) = (\<lambda>k. case runner s k of Some t \<Rightarrow> Some t
      | None \<Rightarrow> if k \<in> set ks then Some \<lparr>tk_key = k, tk_phase = Waiting, tk_cancel = False\<rparr> else None)"
  using assms
proof (induction ks arbitrary: s)
  case (Cons k ks)
  from Cons.IH [OF spawn_runner(1) [OF Cons.prems, of k]] show ?case
    by (auto simp: spawn_runner(2) [OF Cons.prems] fun_eq_iff split: option.splits)
qed (auto simp: fun_eq_iff split: option.splits)

lemma start_inv:
  assumes inv: "svc_inv s"
  shows "svc_inv (snd (start now s))"
proof (cases "js_started s")
  case False
  note db = inv [unfolded svc_inv_def, THEN conjunct1]
  let ?rows = "filter (\<lambda>r. j_status r \<noteq> CancelRequested) (open_rows (js_db s))"
  from recover_spec [OF db, of now] obtain db' where db':
    "recover now (js_db s) = ok (map (\<lambda>r. row_to_job (recovered now r)) ?rows) db'"
    "jobs_inv db'" "\<And>t j. job_of db' t j = map_option (recovered now) (job_of (js_db s) t j)" by metis
  have m: "status_of db' = (\<lambda>k. map_option after_recover (status_of (js_db s) k))"
    using recover_status [OF db, of now] db'(1) by simp
  let ?s1 = "s\<lparr>js_started := True, js_stopping := False, js_db := db'\<rparr>"
  let ?ks = "map (\<lambda>r. (j_tenant r, j_id r)) ?rows"
  have none: "runner s k = None" for k using inv False by (simp add: svc_inv_def coupled_def)
  have "runner ?s1 = runner s" by (rule ext) (simp add: runner_def split: option.splits)
  with none have r1: "runner ?s1 = (\<lambda>k. None)" by (simp add: fun_eq_iff)
  have ok: "tasks_ok ?s1" using inv by (simp add: svc_inv_def tasks_ok_def)
  have keys: "map (\<lambda>j. (j_tenant j, j_id j)) (map (\<lambda>r. row_to_job (recovered now r)) ?rows) = ?ks"
    by (simp add: row_to_job_def job.defs recovered_def comp_def)
  have s': "snd (start now s) = fold spawn ?ks ?s1"
    unfolding start_def keys [symmetric] using False db'(1) by (simp del: map_map)
  note f = fold_spawn [OF ok, of ?ks]
  have R: "runner (fold spawn ?ks ?s1) =
      (\<lambda>k. if k \<in> set ?ks then Some \<lparr>tk_key = k, tk_phase = Waiting, tk_cancel = False\<rparr> else None)"
    using f unfolding r1 option.case by blast
  have queued: "k \<in> set ?ks \<longleftrightarrow> status_of db' k = Some Queued" for k
  proof -
    obtain t j where k: "k = (t, j)" by fastforce
    have mem: "r \<in> set (jobs (js_db s)) \<and> j_tenant r = t \<and> j_id r = j \<longleftrightarrow> job_of (js_db s) t j = Some r" for r
      using job_ofD job_of_mem [OF jobs_inv_distinct [OF db]] by blast
    have "k \<in> set ?ks \<longleftrightarrow> (\<exists>r. (r \<in> set (jobs (js_db s)) \<and> j_tenant r = t \<and> j_id r = j) \<and>
        j_status r \<notin> TERMINAL_STATUSES \<and> j_status r \<noteq> CancelRequested)"
      by (auto simp: k)
    also have "\<dots> \<longleftrightarrow> (\<exists>r. job_of (js_db s) t j = Some r \<and>
        j_status r \<notin> TERMINAL_STATUSES \<and> j_status r \<noteq> CancelRequested)" unfolding mem ..
    also have "\<dots> \<longleftrightarrow> status_of db' k = Some Queued"
    proof -
      have "j_status r \<notin> TERMINAL_STATUSES \<and> j_status r \<noteq> CancelRequested \<longleftrightarrow> after_recover (j_status r) = Queued" for r :: job_row
        by (cases "j_status r") simp_all
      then show ?thesis by (auto simp: m k status_of_def)
    qed
    finally show ?thesis .
  qed
  have act: "\<not> active (status_of db' k)" for k
    by (auto simp: m active_def elim: after_recover.elims)
  have dr: "js_draining s = []" using inv False by (simp add: svc_inv_def draining_ok_def)
  have "coupled True False (status_of db') (runner (fold spawn ?ks ?s1))"
    unfolding coupled_def R using queued act by auto
  then show ?thesis
    using f inv db'(2) dr unfolding s' by (simp add: svc_inv_def draining_ok_def)
qed (use inv in \<open>simp add: start_def\<close>)

lemma shutdown_finish_inv:
  assumes "jobs_inv (js_db s)" "js_draining s = []"
    and dead: "\<And>i. i < length (js_tasks s) \<Longrightarrow> \<not> live (js_tasks s ! i)"
  shows "svc_inv (shutdown_finish s)"
proof -
  have "tasks_ok (shutdown_finish s)" using dead by (simp add: tasks_ok_def shutdown_finish_def)
  moreover have "runner (shutdown_finish s) = (\<lambda>_. None)"
    by (simp add: runner_def shutdown_finish_def fun_eq_iff)
  ultimately show ?thesis
    using assms(1,2) by (simp add: svc_inv_def shutdown_finish_def draining_ok_def coupled_def)
qed

lemma shutdown_begin_inv:
  assumes inv: "svc_inv s" and "js_draining s = []"
  shows "svc_inv (shutdown_begin s)"
proof (cases "js_started s")
  case True
  have ok: "tasks_ok s" using inv by (simp add: svc_inv_def)
  have lv: "live (cancel_running s ! i) = live (js_tasks s ! i)" if "i < length (js_tasks s)" for i
    using cancel_running_phase [OF that] by (simp add: live_def)
  show ?thesis
  proof (cases "running_tasks s = []")
    case none: True
    have "svc_inv (shutdown_finish (stopping s))"
    proof (rule shutdown_finish_inv)
      show "\<not> live (js_tasks (stopping s) ! i)" if "i < length (js_tasks (stopping s))" for i
        using that live_running_tasks [OF ok, of i] none lv [of i] by (auto simp: stopping_def)
    qed (use inv assms(2) in \<open>simp_all add: stopping_def svc_inv_def\<close>)
    with True none show ?thesis by (simp add: shutdown_begin_def stopping_def Let_def)
  next
    case False
    let ?s = "(stopping s)\<lparr>js_draining := [running_tasks s]\<rparr>"
    have s': "shutdown_begin s = ?s"
      using True False assms(2) by (simp add: shutdown_begin_def stopping_def Let_def)
    have "draining_ok ?s"
      using True live_running_tasks [OF ok] lv by (auto simp: draining_ok_def stopping_def)
    moreover have "runner ?s = runner (stopping s)"
      by (rule ext) (simp add: runner_def split: option.splits)
    moreover have "tasks_ok ?s" using stopping_runner(1) [OF ok] by (simp add: tasks_ok_def)
    moreover have "coupled True True (status_of (js_db s)) (runner (stopping s))"
      unfolding stopping_runner(2) [OF ok]
      using inv True by (auto simp: svc_inv_def coupled_def)
    ultimately show ?thesis
      using inv True unfolding s' by (simp add: svc_inv_def stopping_def)
  qed
qed (use inv in \<open>simp add: shutdown_begin_def\<close>)

lemma shutdown_end_inv:
  assumes inv: "svc_inv s" and d: "drained d s"
  shows "svc_inv (shutdown_end d s)"
proof -
  have dl: "d < length (js_draining s)" "\<forall>i \<in> set (js_draining s ! d). \<not> live (js_tasks s ! i)"
    using d by (auto simp: drained_def list_all_iff)
  moreover have "length (js_draining s) \<le> 1" using inv by (simp add: svc_inv_def draining_ok_def)
  ultimately have one: "js_draining s = [js_draining s ! d]" "d = 0"
    by (cases "js_draining s"; simp)+
  show ?thesis unfolding shutdown_end_def
  proof (rule shutdown_finish_inv)
    fix i assume "i < length (js_tasks (s\<lparr>js_draining := take d (js_draining s) @ drop (Suc d) (js_draining s)\<rparr>))"
    then have i: "i < length (js_tasks s)" by simp
    have "js_draining s ! d \<in> set (js_draining s)" using dl(1) by simp
    with i inv dl(2) have "\<not> live (js_tasks s ! i)" unfolding svc_inv_def draining_ok_def by blast
    then show "\<not> live (js_tasks (s\<lparr>js_draining := take d (js_draining s) @ drop (Suc d) (js_draining s)\<rparr>) ! i)" by simp
  next
    show "js_draining (s\<lparr>js_draining := take d (js_draining s) @ drop (Suc d) (js_draining s)\<rparr>) = []"
      using one(2) \<open>length (js_draining s) \<le> 1\<close> by simp
  qed (use inv in \<open>simp add: svc_inv_def\<close>)
qed

lemma new_service_inv: "jobs_inv db \<Longrightarrow> svc_inv (new_service n db)"
  by (simp add: svc_inv_def new_service_def tasks_ok_def draining_ok_def coupled_def runner_def)

lemma request_cancel_result:
  assumes "jobs_inv db" "JobStore.request_cancel t j now db = (Inr job, db')"
  shows "status_of db' (t, j) = Some (j_status job)"
proof -
  from assms(2) have "JobStore.get t j db' = (Inr job, db')"
    by (auto simp: request_cancel_def Let_def split: option.splits if_splits dest: get_eqD)
  then show ?thesis by (auto simp: JobStore.get_def status_of_def row_to_job_def job.defs split: option.splits)
qed

lemma coupled_cancel:
  assumes "coupled st sp m R" "m' = m(k := map_option after_request_cancel (m k))"
    "R' = R \<or> (m' k \<noteq> Some Queued \<and> R' = R(k := map_option (\<lambda>t. t\<lparr>tk_cancel := True\<rparr>) (R k)))"
  shows "coupled st sp m' R'"
proof -
  have a: "active (m' x) = active (m x)" for x
    using assms(2) by (auto simp: active_def elim: after_request_cancel.elims)
  have q: "m' x = Some Queued \<Longrightarrow> m x = Some Queued" for x
    using assms(2) by (auto split: if_splits elim: after_request_cancel.elims)
  have n: "m' x = None \<longleftrightarrow> m x = None" for x using assms(2) by auto
  have "(\<exists>t. R' x = Some t \<and> tk_phase t = Executing) \<longleftrightarrow> (\<exists>t. R x = Some t \<and> tk_phase t = Executing)"
    "R' x = None \<longleftrightarrow> R x = None" "m' x = Some Queued \<Longrightarrow> R' x = R x" for x
    using assms(3) by (auto split: if_splits)
  with assms(1) show ?thesis unfolding coupled_def by (simp add: a) (metis n not_None_eq q)
qed

lemma cancel_inv:
  assumes inv: "svc_inv s"
  shows "svc_inv (snd (cancel now tenant_id job_id s))"
proof -
  have run: "svc_inv (snd (case JobStore.request_cancel t j now (js_db s) of
        (Inl e, db) \<Rightarrow> raises (JobStoreError e) (s\<lparr>js_db := db\<rparr>)
      | (Inr job, db) \<Rightarrow>
          (let s1 = s\<lparr>js_db := db\<rparr> in
           case js_running s1 (t, j) of
             None \<Rightarrow> ok job s1
           | Some i \<Rightarrow>
               if j_status job \<in> {CancelRequested, Cancelled} \<and> live (js_tasks s1 ! i)
               then ok job (set_task i ((js_tasks s1 ! i)\<lparr>tk_cancel := True\<rparr>) s1)
               else ok job s1)))" for t j
  proof -
    note db = inv [unfolded svc_inv_def, THEN conjunct1]
    obtain x db1 where c: "JobStore.request_cancel t j now (js_db s) = (x, db1)" by fastforce
    have d1: "jobs_inv db1" "status_of db1 =
        (status_of (js_db s))((t, j) := map_option after_request_cancel (status_of (js_db s) (t, j)))"
      using inv_ops(6) [OF db, of t j now] request_cancel_status [OF db, of t j now] c
      by (simp_all add: at_job_def)
    let ?s1 = "s\<lparr>js_db := db1\<rparr>"
    have plain: "svc_inv ?s1"
      using inv d1 coupled_cancel [OF _ d1(2), of "js_started s" "js_stopping s" "runner s" "runner s"]
      by (simp add: svc_inv_def)
    have flagged: "svc_inv (set_task i ((js_tasks s ! i)\<lparr>tk_cancel := True\<rparr>) ?s1)"
      if i: "js_running s (t, j) = Some i" "live (js_tasks s ! i)" and "status_of db1 (t, j) \<noteq> Some Queued" for i
    proof -
      let ?t = "(js_tasks s ! i)\<lparr>tk_cancel := True\<rparr>"
      have ok: "tasks_ok ?s1" and li: "i < length (js_tasks s)" "tk_key (js_tasks s ! i) = (t, j)"
        using inv tasks_okD [OF _ i(1)] by (auto simp: svc_inv_def)
      have tk: "i < length (js_tasks ?s1)" "live (js_tasks ?s1 ! i)" "tk_key ?t = tk_key (js_tasks ?s1 ! i)"
        using li i by simp_all
      have "runner (set_task i ?t ?s1) = (runner s)((t, j) := map_option (\<lambda>t. t\<lparr>tk_cancel := True\<rparr>) (runner s (t, j)))"
        using set_task_ok(2) [OF ok tk] i li by (simp add: live_def runner_def)
      with coupled_cancel [OF _ d1(2), of "js_started s" "js_stopping s" "runner s" "runner (set_task i ?t ?s1)"]
        that(3) inv have "coupled (js_started s) (js_stopping s) (status_of db1) (runner (set_task i ?t ?s1))"
        by (simp add: svc_inv_def)
      with plain set_task_ok(1) [OF ok tk] draining_set_task [OF _ tk(1,2), of ?t]
      show ?thesis by (simp add: svc_inv_def)
    qed
    show ?thesis
    proof (cases x)
      case (Inr job)
      with request_cancel_result [OF db] c have "status_of db1 (t, j) = Some (j_status job)" by blast
      with Inr c plain flagged show ?thesis by (auto simp: Let_def split: option.splits)
    qed (use c plain in simp)
  qed
  show ?thesis unfolding cancel_def
    by (cases "job_identifier tenant_id ''tenant_id'' 200"; cases "job_identifier job_id ''job_id'' 100")
      (use inv run in auto)
qed

lemma spawn_queued_inv:
  assumes ok: "jobs_inv db" "tasks_ok s" "draining_ok s" "\<not> js_stopping s" "js_started s"
    and c: "coupled True False m (runner s)" and m': "status_of db = m(k \<mapsto> Queued)"
    and k: "m k = None \<or> m k = Some Queued"
  shows "svc_inv (spawn k (s\<lparr>js_db := db\<rparr>))"
proof -
  let ?s = "s\<lparr>js_db := db\<rparr>"
  have t: "tasks_ok ?s" using ok by simp
  have R: "runner (spawn k ?s) = (case runner s k of Some _ \<Rightarrow> runner s
      | None \<Rightarrow> (runner s)(k \<mapsto> \<lparr>tk_key = k, tk_phase = Waiting, tk_cancel = False\<rparr>))"
    using spawn_runner(2) [OF t, of k] unfolding runner_db .
  have "m k = None \<Longrightarrow> runner s k = None" using c by (auto simp: coupled_def)
  then have "coupled True False (status_of db) (runner (spawn k ?s))"
    using c k unfolding R m' by (auto simp: coupled_def active_def split: option.splits)
  moreover have "draining_ok (spawn k ?s)"
    using ok(3,4) by (intro draining_spawn) (simp_all add: draining_ok_def)
  ultimately show ?thesis using ok spawn_runner(1) [OF t, of k] by (simp add: svc_inv_def)
qed

lemma create_inv:
  assumes inv: "svc_inv s" and ns: "\<not> js_stopping s"
  shows "svc_inv (snd (create dg reg job_id now tenant_id handler_name arguments idempotency_key
    handler_version s))"
proof -
  note db = inv [unfolded svc_inv_def, THEN conjunct1]
  have run: "svc_inv (if js_started s \<and> j_status job = Queued
        then spawn (j_tenant job, j_id job) (s\<lparr>js_db := db1\<rparr>) else s\<lparr>js_db := db1\<rparr>)"
    if c: "JobStore.create t job_id h v a k rh now (js_db s) = (Inr (job, created), db1)"
    for t h v a k rh job created db1
  proof -
    have d1: "jobs_inv db1" using inv_ops(9) [OF db, of t job_id h v a k rh now] c by simp
    have keep: "(\<not> js_started s \<Longrightarrow> svc_inv (s\<lparr>js_db := db1\<rparr>))"
      using inv d1 by (simp add: svc_inv_def coupled_def)
    have sp: "svc_inv (spawn (j_tenant job, j_id job) (s\<lparr>js_db := db1\<rparr>))"
      if "status_of db1 = (status_of (js_db s))((j_tenant job, j_id job) \<mapsto> Queued)" "js_started s"
        "status_of (js_db s) (j_tenant job, j_id job) \<in> {None, Some Queued}"
      using inv ns that d1 by (intro spawn_queued_inv [where m = "status_of (js_db s)"])
        (auto simp: svc_inv_def)
    show ?thesis
    proof (cases created)
      case True
      with c have c': "JobStore.create t job_id h v a k rh now (js_db s) = (Inr (job, True), db1)" by simp
      from create_status [OF c'] create_status_fresh [OF c'] keep sp show ?thesis
        by (auto simp: abs_create_def)
    next
      case False
      with c have c': "JobStore.create t job_id h v a k rh now (js_db s) = (Inr (job, False), db1)" by simp
      from create_existing [OF c' db] have e: "db1 = js_db s"
        "status_of (js_db s) (j_tenant job, j_id job) = Some (j_status job)" by auto
      then have "status_of db1 = (status_of (js_db s))((j_tenant job, j_id job) \<mapsto> Queued)"
        if "j_status job = Queued" using that by (auto simp: fun_upd_idem)
      with e sp inv show ?thesis by auto
    qed
  qed
  have all: "svc_inv (snd (case JobStore.create t job_id h v a k rh now (js_db s) of
        (Inl e, db) \<Rightarrow> raises (JobStoreError e) (s\<lparr>js_db := db\<rparr>)
      | (Inr (job, created), db) \<Rightarrow>
          (let s1 = s\<lparr>js_db := db\<rparr>;
               s2 = (if js_started s1 \<and> j_status job = Queued then spawn (j_tenant job, j_id job) s1
                     else s1)
           in if \<not> created
              then (case JobStore.get t (j_id job) (js_db s2) of
                      (Inl e, _) \<Rightarrow> raises (JobStoreError e) s2 | (Inr j, _) \<Rightarrow> ok j s2)
              else ok job s2)))" for t h v a k rh
  proof -
    obtain x db1 where c: "JobStore.create t job_id h v a k rh now (js_db s) = (x, db1)" by fastforce
    show ?thesis
    proof (cases x)
      case (Inl e)
      with create_cases [OF c] have "db1 = js_db s" by auto
      with c Inl inv show ?thesis by simp
    next
      case (Inr y)
      obtain job created where y: "y = (job, created)" by fastforce
      from run [of t h v a k rh job created db1] c Inr y show ?thesis
        by (auto simp: Let_def split: prod.splits sum.splits)
    qed
  qed
  show ?thesis unfolding create_def
    using inv all by (auto simp: checked_def split: sum.splits)
qed

lemma crash_inv: "svc_inv s \<Longrightarrow> svc_inv (new_service n (js_db s))"
  by (rule new_service_inv) (simp add: svc_inv_def)

lemma svc_step_inv:
  assumes "svc_step True n dg reg s s'" "svc_inv s"
  shows "svc_inv s'"
  using assms
proof (induction rule: svc_step.induct)
  case (st_create s job_id now tenant_id handler_name arguments idempotency_key handler_version)
  then have "\<not> js_stopping s" by (simp add: svc_inv_def draining_ok_def)
  with st_create show ?case by (blast intro: create_inv)
qed (blast intro: start_inv cancel_inv run_begin_inv abandon_inv progress_inv run_end_inv
      reap_inv shutdown_begin_inv shutdown_end_inv crash_inv)+

interpretation quiet_service: invariant_system "\<lambda>s. s = new_service n empty_jobs_db" "svc_step True n dg reg"
  svc_inv
  by unfold_locales (auto intro: new_service_inv jobs_inv_empty svc_step_inv)

text \<open>Reachable services, with the steps as rules.\<close>

abbreviation svc_reachable :: "bool \<Rightarrow> nat \<Rightarrow> (json \<Rightarrow> string) \<Rightarrow> handler_registry \<Rightarrow> job_service \<Rightarrow> bool" where
  "svc_reachable quiet n dg reg \<equiv>
     reachable (\<lambda>s. s = new_service n empty_jobs_db) (svc_step quiet n dg reg)"

lemma svc_init: "svc_reachable quiet n dg reg (new_service n empty_jobs_db)"
  by (rule reach_init) simp

lemmas svc_next = reach_step [of "\<lambda>s. s = new_service n empty_jobs_db" "svc_step quiet n dg reg"] for quiet n dg reg

section \<open>The semaphore\<close>

text \<open>
  In every run, also with jobs created and further shutdowns while one waits: the store is consistent,
  and the free slots and the executing tasks add up to the semaphore's initial value.
\<close>

definition slots_inv :: "nat \<Rightarrow> job_service \<Rightarrow> bool" where
  "slots_inv n s = (jobs_inv (js_db s) \<and> js_slots s + executing s = max 1 n)"

lemma executing_fields [simp]:
  "executing (s\<lparr>js_started := a\<rparr>) = executing s" "executing (s\<lparr>js_stopping := b\<rparr>) = executing s"
  "executing (s\<lparr>js_running := f\<rparr>) = executing s" "executing (s\<lparr>js_draining := l\<rparr>) = executing s"
  "executing (s\<lparr>js_slots := m\<rparr>) = executing s" "executing (runner_finished i s) = executing s"
  "executing (shutdown_finish s) = executing s" "executing (new_service m db) = 0"
  by (simp_all add: executing_def runner_finished_def shutdown_finish_def new_service_def Let_def)

lemma slots_of [simp]:
  "js_slots (set_task i t s) = js_slots s" "js_slots (set_phase i p s) = js_slots s"
  "js_slots (spawn k s) = js_slots s" "js_slots (acquire s) = js_slots s - 1"
  "js_slots (release s) = Suc (js_slots s)" "js_db (set_phase i p s) = js_db s"
  "executing (acquire s) = executing s" "executing (release s) = executing s"
  by (simp_all add: set_phase_def set_task_def spawn_def acquire_def release_def executing_def)

lemma executing_phase:
  "i < length (js_tasks s) \<Longrightarrow> executing (set_phase i p s) +
     (if tk_phase (js_tasks s ! i) = Executing then 1 else 0) = executing s + (if p = Executing then 1 else 0)"
  using executing_set_task [of i s "(js_tasks s ! i)\<lparr>tk_phase := p\<rparr>"] by (simp add: set_phase_def)

lemma executing_flag: "executing (set_task i ((js_tasks s ! i)\<lparr>tk_cancel := True\<rparr>) s) = executing s"
proof (cases "i < length (js_tasks s)")
  case True
  then show ?thesis using executing_set_task [OF True, of "(js_tasks s ! i)\<lparr>tk_cancel := True\<rparr>"]
    by (simp split: if_splits)
qed (simp add: set_task_def executing_def list_update_beyond)

lemma fold_spawn_slots [simp]:
  "js_slots (fold spawn ks s) = js_slots s" "executing (fold spawn ks s) = executing s"
  "js_db (fold spawn ks s) = js_db s" "js_started (fold spawn ks s) = js_started s"
  by (induction ks arbitrary: s) simp_all

lemma inv_opsD:
  assumes "jobs_inv db"
  shows "JobStore.claim t j now db = (x1, db') \<Longrightarrow> jobs_inv db'"
    "JobStore.complete t j res aids now db = (x2, db') \<Longrightarrow> jobs_inv db'"
    "JobStore.request_cancel t j now db = (x3, db') \<Longrightarrow> jobs_inv db'"
    "JobStore.recover now db = (x4, db') \<Longrightarrow> jobs_inv db'"
    "JobStore.create t j h v a k rh now db = (x5, db') \<Longrightarrow> jobs_inv db'"
  using inv_ops(1) [OF assms, of t j now] inv_ops(3) [OF assms, of t j res aids now]
    inv_ops(6) [OF assms, of t j now] inv_ops(8) [OF assms, of now]
    inv_ops(9) [OF assms, of t j h v a k rh now] by auto

lemma start_slots: "slots_inv n s \<Longrightarrow> slots_inv n (snd (start now s))"
  by (auto simp: slots_inv_def start_def dest: inv_opsD(4) split: prod.splits sum.splits)

lemma create_slots: "slots_inv n s \<Longrightarrow> slots_inv n (snd (create dg reg job_id now tenant_id handler_name
    arguments idempotency_key handler_version s))"
  by (auto simp: slots_inv_def create_def checked_def Let_def dest: inv_opsD(5)
    split: prod.splits sum.splits)

lemma cancel_slots: "slots_inv n s \<Longrightarrow> slots_inv n (snd (cancel now tenant_id job_id s))"
proof -
  assume s: "slots_inv n s"
  have "executing (set_task i ((js_tasks s ! i)\<lparr>tk_cancel := True\<rparr>) (s\<lparr>js_db := db\<rparr>)) = executing s" for i db
    using executing_flag [of i "s\<lparr>js_db := db\<rparr>"] by simp
  with s show ?thesis
    by (auto simp: slots_inv_def cancel_def checked_def Let_def dest: inv_opsD(3)
      split: prod.splits sum.splits option.splits)
qed

lemma run_begin_slots:
  assumes s: "slots_inv n s" and i: "i < length (js_tasks s)" "tk_phase (js_tasks s ! i) = Waiting"
    and free: "0 < js_slots s"
  shows "slots_inv n (run_begin reg now i s)"
proof -
  obtain t j where k: "tk_key (js_tasks s ! i) = (t, j)" by fastforce
  have e: "executing (set_phase i Finished ((acquire s)\<lparr>js_db := db\<rparr>)) = executing s"
    "executing (set_phase i Executing ((acquire s)\<lparr>js_db := db\<rparr>)) = Suc (executing s)" for db
    using executing_phase [of i "(acquire s)\<lparr>js_db := db\<rparr>"] i by (simp_all add: acquire_def)
  have db: "jobs_inv (js_db s)" using s by (simp add: slots_inv_def)
  show ?thesis
    using s free inv_opsD(1) [OF db, of t j now] inv_ops(2)
    by (auto simp: slots_inv_def run_begin_def Let_def k e split: prod.splits sum.splits option.splits)
qed

lemma run_end_slots:
  assumes s: "slots_inv n s" and i: "i < length (js_tasks s)" "tk_phase (js_tasks s ! i) = Executing"
  shows "slots_inv n (run_end outcome now i s)"
proof -
  obtain t j where k: "tk_key (js_tasks s ! i) = (t, j)" by fastforce
  have e: "Suc (executing (set_phase i Finished (s\<lparr>js_db := db\<rparr>))) = executing s" for db
    using executing_phase [of i "s\<lparr>js_db := db\<rparr>" Finished] i by simp
  have sl: "js_slots s + Suc (executing (set_phase i Finished (s\<lparr>js_db := db\<rparr>))) = max 1 n" for db
    using s unfolding e by (simp add: slots_inv_def)
  have db: "jobs_inv (js_db s)" using s by (simp add: slots_inv_def)
  show ?thesis
    using sl inv_opsD(2) [OF db] inv_ops(2) inv_ops(4,5) [OF db] db
    by (cases outcome)
      (auto simp: slots_inv_def run_end_def Let_def k split: prod.splits sum.splits)
qed

lemma svc_step_slots:
  assumes "svc_step quiet n dg reg s s'" "slots_inv n s"
  shows "slots_inv n s'"
  using assms
proof (induction rule: svc_step.induct)
  case (st_reap i s)
  then show ?case by (simp add: slots_inv_def) (simp add: runner_finished_def Let_def)
next
  case (st_shutdown_end d s)
  then show ?case by (simp add: slots_inv_def shutdown_end_def) (simp add: shutdown_finish_def)
next
  case (st_abandon i s)
  with executing_phase [of i s Finished] show ?case by (simp add: slots_inv_def)
next
  case (st_progress i s payload now)
  obtain t j where "tk_key (js_tasks s ! i) = (t, j)" by fastforce
  with st_progress inv_ops(7) [of "js_db s" t j payload now] show ?case
    by (simp add: slots_inv_def run_progress_def)
next
  case (st_shutdown s)
  with executing_cancel_running [of s] show ?case
    by (simp add: slots_inv_def shutdown_begin_def shutdown_finish_def Let_def executing_def)
next
  case (st_crash s)
  then show ?case by (simp add: slots_inv_def) (simp add: new_service_def)
qed (blast intro: start_slots create_slots cancel_slots run_begin_slots run_end_slots)+

interpretation any_service: invariant_system "\<lambda>s. s = new_service n empty_jobs_db" "svc_step quiet n dg reg"
  "slots_inv n"
proof
  show "slots_inv n s" if "s = new_service n empty_jobs_db" for s
    using that by (simp add: slots_inv_def) (simp add: new_service_def jobs_inv_empty)
qed (rule svc_step_slots)
section \<open>Properties\<close>

text \<open>
  C2: no job is forgotten and none is run twice. Whatever jobs are created, cancelled, finished, timed
  out or interrupted, across orderly restarts and crashes, as long as no job is created in the middle
  of a shutdown: while the service is up, every queued job has a waiting task that is not cancelled,
  the jobs marked running or cancel-requested are exactly those with an executing task, and no two
  live tasks belong to the same job.
\<close>

theorem every_open_job_has_one_runner:
  assumes "svc_reachable True n dg reg s"
    and "js_started s" "\<not> js_stopping s"
  shows "(\<forall>k. status_of (js_db s) k = Some Queued \<longrightarrow>
      (\<exists>t \<in> set (js_tasks s). tk_key t = k \<and> tk_phase t = Waiting \<and> \<not> tk_cancel t)) \<and>
    (\<forall>k. status_of (js_db s) k \<in> {Some Running, Some CancelRequested} \<longleftrightarrow>
      (\<exists>t \<in> set (js_tasks s). tk_key t = k \<and> tk_phase t = Executing)) \<and>
    (\<forall>i i'. i < length (js_tasks s) \<and> i' < length (js_tasks s) \<and> live (js_tasks s ! i) \<and>
      live (js_tasks s ! i') \<and> tk_key (js_tasks s ! i) = tk_key (js_tasks s ! i') \<longrightarrow> i = i')"
proof -
  have inv: "svc_inv s" using quiet_service.reachable_inv [OF assms(1)] .
  then have ok: "tasks_ok s" and c: "coupled True False (status_of (js_db s)) (runner s)"
    using assms(2,3) by (auto simp: svc_inv_def)
  have r: "runner s k = Some t \<longleftrightarrow> t \<in> set (js_tasks s) \<and> tk_key t = k \<and> live t" for k t
  proof
    assume "t \<in> set (js_tasks s) \<and> tk_key t = k \<and> live t"
    then obtain i where "i < length (js_tasks s)" "js_tasks s ! i = t" "tk_key t = k" "live t"
      by (auto simp: in_set_conv_nth)
    with runner_task [OF ok, of i] show "runner s k = Some t" by simp
  qed (use runner_key [OF ok] in blast)
  have one: "i = i'" if "i < length (js_tasks s)" "i' < length (js_tasks s)" "live (js_tasks s ! i)"
    "live (js_tasks s ! i')" "tk_key (js_tasks s ! i) = tk_key (js_tasks s ! i')" for i i'
  proof -
    have "js_running s (tk_key (js_tasks s ! i)) = Some i" "js_running s (tk_key (js_tasks s ! i')) = Some i'"
      using ok that(1-4) unfolding tasks_ok_def by blast+
    with that(5) show ?thesis by (metis option.inject)
  qed
  have q: "\<exists>t \<in> set (js_tasks s). tk_key t = k \<and> tk_phase t = Waiting \<and> \<not> tk_cancel t"
    if "status_of (js_db s) k = Some Queued" for k
  proof -
    from that c obtain t where "runner s k = Some t" "tk_phase t = Waiting" "\<not> tk_cancel t"
      by (auto simp: coupled_def)
    with r [of k t] show ?thesis by blast
  qed
  have e: "status_of (js_db s) k \<in> {Some Running, Some CancelRequested} \<longleftrightarrow>
      (\<exists>t \<in> set (js_tasks s). tk_key t = k \<and> tk_phase t = Executing)" for k
  proof -
    have "active (status_of (js_db s) k) \<longleftrightarrow> (\<exists>t. runner s k = Some t \<and> tk_phase t = Executing)"
      using c by (simp add: coupled_def)
    also have "\<dots> \<longleftrightarrow> (\<exists>t \<in> set (js_tasks s). tk_key t = k \<and> tk_phase t = Executing)"
      by (auto simp: r live_def)
    finally show ?thesis by (simp add: active_def)
  qed
  show ?thesis by (intro conjI allI impI) (use q e one in blast)+
qed

definition sample_registry :: handler_registry where
  "sample_registry = snd (register ''digest'' sample_model True 1 300 empty_registry)"

definition sample_create :: "string \<Rightarrow> timestamp \<Rightarrow> job_service \<Rightarrow> job_service" where
  "sample_create jid now s = snd (create (\<lambda>_. ''h'') sample_registry jid now ''t'' ''digest''
     (JObj []) jid None s)"

lemma sample_step:
  "svc_reachable quiet n (\<lambda>_. ''h'') sample_registry s \<Longrightarrow> (quiet \<Longrightarrow> js_draining s = []) \<Longrightarrow>
   svc_reachable quiet n (\<lambda>_. ''h'') sample_registry (sample_create jid now s)"
  unfolding sample_create_def by (rule svc_next [OF _ st_create])

theorem every_open_job_has_one_runner_witness:
  "let s = run_begin sample_registry (At 3) 0 (sample_create ''j'' (At 2)
       (snd (start (At 1) (new_service 4 empty_jobs_db))))
   in js_started s \<and> \<not> js_stopping s \<and> status_of (js_db s) (''t'', ''j'') = Some Running \<and>
     (\<exists>t \<in> set (js_tasks s). tk_key t = (''t'', ''j'') \<and> tk_phase t = Executing)"
proof -
  let ?s0 = "new_service 4 empty_jobs_db" let ?s1 = "snd (start (At 1) ?s0)"
  let ?s2 = "sample_create ''j'' (At 2) ?s1" let ?s3 = "run_begin sample_registry (At 3) 0 ?s2"
  let ?reach = "svc_reachable True 4 (\<lambda>_. ''h'') sample_registry"
  have "?reach ?s1" by (rule svc_next [OF svc_init st_start])
  moreover have "js_draining ?s1 = []" by code_simp
  ultimately have s2: "?reach ?s2" by (rule sample_step)
  have "0 < length (js_tasks ?s2)" "tk_phase (js_tasks ?s2 ! 0) = Waiting"
    "\<not> tk_cancel (js_tasks ?s2 ! 0)" "0 < js_slots ?s2" by code_simp+
  from svc_next [OF s2 st_begin [OF this]] have r: "?reach ?s3" .
  have up: "js_started ?s3" "\<not> js_stopping ?s3" "status_of (js_db ?s3) (''t'', ''j'') = Some Running"
    by code_simp+
  with every_open_job_has_one_runner [OF r up(1,2)] show ?thesis unfolding Let_def by blast
qed

text \<open>
  C27: the semaphore bounds the work and is never leaked. In every reachable state, also with jobs
  created and further shutdowns while one waits, at most \<open>max(1, max_concurrency)\<close> handlers execute at
  once, all other slots are free whichever way the earlier tasks ended, and a waiting task can
  therefore begin whenever fewer handlers execute.
\<close>

theorem concurrency_is_bounded:
  assumes "svc_reachable quiet n dg reg s"
  shows "executing s \<le> max 1 n \<and> js_slots s = max 1 n - executing s \<and>
    (\<forall>i now. i < length (js_tasks s) \<and> tk_phase (js_tasks s ! i) = Waiting \<and>
       \<not> tk_cancel (js_tasks s ! i) \<and> executing s < max 1 n \<longrightarrow>
       svc_reachable quiet n dg reg (run_begin reg now i s))"
proof -
  have s: "js_slots s + executing s = max 1 n"
    using any_service.reachable_inv [OF assms] by (simp add: slots_inv_def)
  show ?thesis using s by (auto intro!: svc_next [OF assms st_begin])
qed

lemma run_begin_executes:
  assumes "js_tasks s ! i = \<lparr>tk_key = (t, j), tk_phase = Waiting, tk_cancel = False\<rparr>"
    "case JobStore.claim t j now (js_db s) of (Inr (Some c), _) \<Rightarrow>
       j_handler_name c = h \<and> j_handler_version c = v \<and> j_arguments c = a | _ \<Rightarrow> False"
    "case JobRegistry.get h (Some v) reg of Inl _ \<Rightarrow> False
       | Inr g \<Rightarrow> am_validate (rh_model g) a = Inr a'"
  shows "js_tasks (run_begin reg now i s) =
    (js_tasks s)[i := \<lparr>tk_key = (t, j), tk_phase = Executing, tk_cancel = False\<rparr>]"
  using assms
  by (auto simp: run_begin_def acquire_def set_phase_def set_task_def Let_def
    split: prod.splits sum.splits option.splits)

text \<open>Two jobs, the first executing, on a service with one slot.\<close>

theorem concurrency_is_bounded_witness:
  "let s = sample_create ''k'' (At 4) (run_begin sample_registry (At 3) 0 (sample_create ''j'' (At 2)
       (snd (start (At 1) (new_service 1 empty_jobs_db)))))
   in executing s = 1 \<and> js_slots s = 0 \<and> map tk_phase (js_tasks s) = [Executing, Waiting] \<and>
     executing s \<le> max 1 1"
proof -
  let ?s1 = "snd (start (At 1) (new_service 1 empty_jobs_db))"
  let ?s2 = "sample_create ''j'' (At 2) ?s1" let ?s3 = "run_begin sample_registry (At 3) 0 ?s2"
  let ?s4 = "sample_create ''k'' (At 4) ?s3"
  let ?reach = "svc_reachable False 1 (\<lambda>_. ''h'') sample_registry"
  have s1: "?reach ?s1" by (rule svc_next [OF svc_init st_start])
  have s2: "?reach ?s2" by (rule sample_step [OF s1]) simp
  have "0 < length (js_tasks ?s2)" "tk_phase (js_tasks ?s2 ! 0) = Waiting"
    "\<not> tk_cancel (js_tasks ?s2 ! 0)" "0 < js_slots ?s2" by code_simp+
  from svc_next [OF s2 st_begin [OF this]] have s3: "?reach ?s3" .
  have s4: "?reach ?s4" by (rule sample_step [OF s3]) simp
  have "executing ?s4 = 1" "map tk_phase (js_tasks ?s4) = [Executing, Waiting]" by code_simp+
  with concurrency_is_bounded [OF s4] show ?thesis unfolding Let_def by simp
qed

text \<open>
  What \<open>start\<close> spawns after a shutdown: a fresh task for every queued job, whatever tasks there are.
\<close>

lemma fold_spawn_fresh:
  assumes "\<And>k i. js_running s k = Some i \<Longrightarrow> N \<le> i \<and> i < length (js_tasks s) \<and>
      js_tasks s ! i = \<lparr>tk_key = k, tk_phase = Waiting, tk_cancel = False\<rparr>"
    and "N \<le> length (js_tasks s)" "k \<in> set ks \<or> js_running s k \<noteq> None"
  shows "(\<exists>i. N \<le> i \<and> i < length (js_tasks (fold spawn ks s)) \<and>
      js_tasks (fold spawn ks s) ! i = \<lparr>tk_key = k, tk_phase = Waiting, tk_cancel = False\<rparr>) \<and>
    take N (js_tasks (fold spawn ks s)) = take N (js_tasks s)"
  using assms
proof (induction ks arbitrary: s)
  case (Cons x xs)
  note cases = Cons.prems
  have run: "js_running (spawn x s) k' = Some i \<Longrightarrow> N \<le> i \<and> i < length (js_tasks (spawn x s)) \<and>
      js_tasks (spawn x s) ! i = \<lparr>tk_key = k', tk_phase = Waiting, tk_cancel = False\<rparr>" for k' i
    using cases(1) [of k' i] cases(2)
    by (auto simp: spawn_def nth_append split: if_splits option.splits)
  have "k \<in> set xs \<or> js_running (spawn x s) k \<noteq> None"
    using cases(3) by (auto simp: spawn_def split: option.splits if_splits)
  moreover have "N \<le> length (js_tasks (spawn x s))" using cases(2) by (simp add: spawn_def)
  moreover have "take N (js_tasks (spawn x s)) = take N (js_tasks s)"
    using cases(2) by (simp add: spawn_def)
  ultimately show ?case using Cons.IH [OF run] by simp
next
  case Nil
  then obtain i where "js_running s k = Some i" by auto
  from Nil(1) [OF this] show ?case by auto
qed

text \<open>
  C28: without that proviso the service can execute one job twice at the same time. A job created
  while \<open>shutdown\<close> waits for other tasks is still spawned, because \<open>_started\<close> is only cleared
  afterwards. If its task is executing when those tasks are done, \<open>shutdown\<close> forgets it without
  cancelling it, and the following \<open>start\<close> puts the job back in the queue and spawns a second task for
  it while the first goes on executing; both tasks of one job can then execute.
\<close>

theorem create_during_shutdown_runs_job_twice:
  assumes "svc_reachable False n dg reg s" "drained d s"
    and "i < length (js_tasks s)" "tk_phase (js_tasks s ! i) = Executing"
    and "status_of (js_db s) (tk_key (js_tasks s ! i)) = Some Running"
  shows "\<exists>i'. i' \<noteq> i \<and> (let s' = snd (start now (shutdown_end d s)) in
    svc_reachable False n dg reg s' \<and> i < length (js_tasks s') \<and> js_tasks s' ! i = js_tasks s ! i \<and>
    status_of (js_db s') (tk_key (js_tasks s ! i)) = Some Queued \<and> i' < length (js_tasks s') \<and>
    js_tasks s' ! i' = \<lparr>tk_key = tk_key (js_tasks s ! i), tk_phase = Waiting, tk_cancel = False\<rparr>)"
proof -
  let ?s0 = "shutdown_end d s" and ?N = "length (js_tasks s)"
  have s0: "svc_reachable False n dg reg ?s0" by (rule svc_next [OF assms(1) st_shutdown_end [OF assms(2)]])
  have s1: "svc_reachable False n dg reg (snd (start now ?s0))" by (rule svc_next [OF s0 st_start])
  have f: "js_db ?s0 = js_db s" "\<not> js_started ?s0" "js_tasks ?s0 = js_tasks s" "js_running ?s0 = (\<lambda>_. None)"
    by (simp_all add: shutdown_end_def shutdown_finish_def)
  obtain t j where k: "tk_key (js_tasks s ! i) = (t, j)" by fastforce
  have db: "jobs_inv (js_db s)" using any_service.reachable_inv [OF assms(1)] by (simp add: slots_inv_def)
  from assms(5) k obtain r where r: "job_of (js_db s) t j = Some r" "j_status r = Running"
    by (auto simp: status_of_def)
  have rt: "r \<in> set (jobs (js_db s))" "j_tenant r = t" "j_id r = j" using job_ofD [OF r(1)] by auto
  let ?rows = "filter (\<lambda>r. j_status r \<noteq> CancelRequested) (open_rows (js_db s))"
  from recover_spec [OF db, of now] obtain db' where db':
    "recover now (js_db s) = ok (map (\<lambda>r. row_to_job (recovered now r)) ?rows) db'" by metis
  let ?ks = "map (\<lambda>r. (j_tenant r, j_id r)) ?rows"
  let ?s1 = "?s0\<lparr>js_started := True, js_stopping := False, js_db := db'\<rparr>"
  have keys: "map (\<lambda>j. (j_tenant j, j_id j)) (map (\<lambda>r. row_to_job (recovered now r)) ?rows) = ?ks"
    by (simp add: row_to_job_def job.defs recovered_def comp_def)
  have st: "snd (start now ?s0) = fold spawn ?ks ?s1"
    unfolding start_def keys [symmetric] using f(1,2) db' by (simp del: map_map)
  have "(t, j) \<in> set ?ks" using rt r(2) by force
  with fold_spawn_fresh [of ?s1 ?N "(t, j)" ?ks] f obtain i' where i':
    "?N \<le> i'" "i' < length (js_tasks (fold spawn ?ks ?s1))"
    "js_tasks (fold spawn ?ks ?s1) ! i' = \<lparr>tk_key = (t, j), tk_phase = Waiting, tk_cancel = False\<rparr>"
    "take ?N (js_tasks (fold spawn ?ks ?s1)) = js_tasks s" by auto
  have "js_tasks (fold spawn ?ks ?s1) ! i = js_tasks s ! i"
    using arg_cong [OF i'(4), of "\<lambda>l. l ! i"] assms(3) by simp
  moreover have "status_of db' (t, j) = Some Queued"
    using recover_status [OF db, of now] db' assms(5) k by simp
  ultimately show ?thesis
    using s1 i' assms(3) unfolding Let_def st by (intro exI [of _ i']) (simp add: k)
qed

text \<open>
  The whole run: job \<open>b\<close> is created while the shutdown waits for the task of \<open>a\<close>. In the end two tasks
  of \<open>b\<close> are executing.
\<close>

theorem create_during_shutdown_runs_job_twice_witness:
  "\<exists>s. svc_reachable False 4 (\<lambda>_. ''h'') sample_registry s \<and>
     map (\<lambda>t. (tk_key t, tk_phase t)) (js_tasks s) =
       [((''t'', ''a''), Finished), ((''t'', ''b''), Executing), ((''t'', ''a''), Waiting),
        ((''t'', ''b''), Executing)]"
proof -
  let ?s1 = "snd (start (At 1) (new_service 4 empty_jobs_db))"
  let ?s2 = "sample_create ''a'' (At 2) ?s1" let ?s3 = "run_begin sample_registry (At 3) 0 ?s2"
  let ?s4 = "shutdown_begin ?s3" let ?s5 = "sample_create ''b'' (At 4) ?s4"
  let ?s6 = "run_begin sample_registry (At 5) 1 ?s5" let ?s7 = "run_end HCancelled (At 6) 0 ?s6"
  let ?s8 = "snd (start (At 7) (shutdown_end 0 ?s7))" let ?s9 = "run_begin sample_registry (At 8) 3 ?s8"
  let ?reach = "svc_reachable False 4 (\<lambda>_. ''h'') sample_registry"
  have s1: "?reach ?s1" by (rule svc_next [OF svc_init st_start])
  have s2: "?reach ?s2" by (rule sample_step [OF s1]) simp
  have "0 < length (js_tasks ?s2)" "tk_phase (js_tasks ?s2 ! 0) = Waiting"
    "\<not> tk_cancel (js_tasks ?s2 ! 0)" "0 < js_slots ?s2" by code_simp+
  from svc_next [OF s2 st_begin [OF this]] have s3: "?reach ?s3" .
  have s4: "?reach ?s4" by (rule svc_next [OF s3 st_shutdown]) simp
  have s5: "?reach ?s5" by (rule sample_step [OF s4]) simp
  have "1 < length (js_tasks ?s5)" "tk_phase (js_tasks ?s5 ! 1) = Waiting"
    "\<not> tk_cancel (js_tasks ?s5 ! 1)" "0 < js_slots ?s5" by code_simp+
  from svc_next [OF s5 st_begin [OF this]] have s6: "?reach ?s6" .
  have "0 < length (js_tasks ?s6)" "tk_phase (js_tasks ?s6 ! 0) = Executing" by code_simp+
  from svc_next [OF s6 st_end [OF this]] have s7: "?reach ?s7" .
  have "drained 0 ?s7" "1 < length (js_tasks ?s7)" "tk_phase (js_tasks ?s7 ! 1) = Executing"
    "status_of (js_db ?s7) (tk_key (js_tasks ?s7 ! 1)) = Some Running" by code_simp+
  from create_during_shutdown_runs_job_twice [OF s7 this] have s8: "?reach ?s8"
    unfolding Let_def by blast
  have "3 < length (js_tasks ?s8)" "tk_phase (js_tasks ?s8 ! 3) = Waiting"
    "\<not> tk_cancel (js_tasks ?s8 ! 3)" "0 < js_slots ?s8" by code_simp+
  from svc_next [OF s8 st_begin [OF this]] have s9: "?reach ?s9" .
  have cl: "case JobStore.claim ''t'' ''b'' (At 8) (js_db ?s8) of
      (Inr (Some c), _) \<Rightarrow> j_handler_name c = ''digest'' \<and> j_handler_version c = 1 \<and>
        j_arguments c = JObj [] | _ \<Rightarrow> False" by code_simp
  have h: "case JobRegistry.get ''digest'' (Some 1) sample_registry of Inl _ \<Rightarrow> False
      | Inr h \<Rightarrow> am_validate (rh_model h) (JObj []) = Inr (JObj [])" by code_simp
  have tk: "map (\<lambda>t. (tk_key t, tk_phase t)) (js_tasks ?s8) =
      [((''t'', ''a''), Finished), ((''t'', ''b''), Executing), ((''t'', ''a''), Waiting),
       ((''t'', ''b''), Waiting)]"
    "js_tasks ?s8 ! 3 = \<lparr>tk_key = (''t'', ''b''), tk_phase = Waiting, tk_cancel = False\<rparr>" by code_simp+
  have e: "js_tasks ?s9 = (js_tasks ?s8)[3 := \<lparr>tk_key = (''t'', ''b''), tk_phase = Executing, tk_cancel = False\<rparr>]"
    by (rule run_begin_executes [OF tk(2) cl h])
  have "map (\<lambda>t. (tk_key t, tk_phase t)) (js_tasks ?s9) =
      [((''t'', ''a''), Finished), ((''t'', ''b''), Executing), ((''t'', ''a''), Waiting),
       ((''t'', ''b''), Executing)]"
    unfolding e map_update tk(1) by simp
  with s9 show ?thesis by (rule_tac exI, rule_tac conjI)
qed

end
