(* ===== verification/Journal.thy ===== *)
theory Journal
  imports Prelude
begin

text \<open>
  \<^verbatim>\<open>host/evolution.py\<close>, class \<open>_ActivationJournal\<close>: the crash-safe record of source releases, of
  which release is active, and of every activation and rollback. The three tables are the fields of
  \<open>journal\<close>; every method that reads or writes them is one definition and every transaction one
  step. Clock readings are arguments, SHA-256 of a text (in hex) is the parameter \<open>dg\<close>. A violated
  constraint (primary key, UNIQUE, foreign key, the partial index that admits one preparing
  activation) is the branch the code takes on \<open>sqlite3.IntegrityError\<close>.
\<close>

section \<open>Data\<close>

datatype evolution_error =
    SourceEvolutionError string
  | EvolutionValueError string
  | JournalIntegrityError

datatype activation_kind = Activate | Rollback

datatype activation_status = Preparing | Active | ActivationFailed | RolledBack

record source_release =
  sr_id :: string
  sr_source_commit :: string
  sr_created_at :: timestamp

record source_state =
  ss_active_release_id :: string
  ss_previous_release_id :: "string option"
  ss_last_good_release_id :: string
  ss_updated_at :: timestamp

record activation =
  sa_id :: string
  sa_tenant :: string
  sa_key :: string
  sa_request_hash :: string
  sa_kind :: activation_kind
  sa_target_release_id :: string
  sa_previous_release_id :: string
  sa_status :: activation_status
  sa_reason :: string
  sa_review_instructions :: string
  sa_inference_plan :: "json option"
  sa_audit :: json
  sa_result :: "json option"
  sa_notified :: bool
  sa_created_at :: timestamp
  sa_updated_at :: timestamp

record journal =
  source_releases :: "source_release list"
  source_state_row :: "source_state option"
  source_activations :: "activation list"

definition empty_journal :: journal where
  "empty_journal = \<lparr>source_releases = [], source_state_row = None, source_activations = []\<rparr>"

definition release_row :: "journal \<Rightarrow> string \<Rightarrow> source_release option" where
  "release_row db i = sel (\<lambda>r. sr_id r = i) (source_releases db)"

definition activation_row :: "journal \<Rightarrow> string \<Rightarrow> activation option" where
  "activation_row db i = sel (\<lambda>r. sa_id r = i) (source_activations db)"

definition activation_keyed :: "journal \<Rightarrow> string \<times> string \<Rightarrow> activation option" where
  "activation_keyed db k = sel (\<lambda>r. (sa_tenant r, sa_key r) = k) (source_activations db)"

section \<open>Operations\<close>

definition is_hex :: "char \<Rightarrow> bool" where
  "is_hex c = (let n = of_char c :: nat in 48 \<le> n \<and> n \<le> 57 \<or> 97 \<le> n \<and> n \<le> 102)"

text \<open>The pattern \<^verbatim>\<open>[0-9a-f]{40}(?:[0-9a-f]{24})?\Z\<close>, matched in full.\<close>

definition commit_of :: "string \<Rightarrow> evolution_error + string" where
  "commit_of value = (let commit = py_lower (py_strip value) in
     if list_all is_hex commit \<and> (length commit = 40 \<or> length commit = 64) then Inr commit
     else Inl (SourceEvolutionError ''source commit identity is invalid''))"

definition release_id_of :: "string \<Rightarrow> string" where
  "release_id_of commit = ''release_'' @ take 64 commit"

definition release_for_commit :: "string \<Rightarrow> timestamp \<Rightarrow> (journal, evolution_error, source_release) oper" where
  "release_for_commit source_commit now = checked (commit_of source_commit) (\<lambda>commit db.
     let release_id = release_id_of commit;
         db1 = (if list_ex (\<lambda>r. sr_id r = release_id \<or> sr_source_commit r = commit) (source_releases db)
                then db
                else db\<lparr>source_releases := source_releases db @
                  [\<lparr>sr_id = release_id, sr_source_commit = commit, sr_created_at = now\<rparr>]\<rparr>)
     in case release_row db1 release_id of
          None \<Rightarrow> raises (SourceEvolutionError
            ''source release identity conflicts with persisted history'') db1
        | Some row \<Rightarrow>
            if sr_source_commit row \<noteq> commit then raises (SourceEvolutionError
              ''source release identity conflicts with persisted history'') db1
            else ok row db1)"

definition state :: "(journal, evolution_error, source_state) oper" where
  "state db = (case source_state_row db of
     None \<Rightarrow> raises (SourceEvolutionError ''source activation state is unavailable'') db
   | Some s \<Rightarrow> ok s db)"

definition initialize :: "string \<Rightarrow> timestamp \<Rightarrow> (journal, evolution_error, source_state) oper" where
  "initialize source_commit now db = (case release_for_commit source_commit now db of
     (Inl e, db1) \<Rightarrow> raises e db1
   | (Inr release, db1) \<Rightarrow>
       state (db1\<lparr>source_state_row := (case source_state_row db1 of
         Some s \<Rightarrow> Some s
       | None \<Rightarrow> Some \<lparr>ss_active_release_id = sr_id release, ss_previous_release_id = None,
           ss_last_good_release_id = sr_id release, ss_updated_at = now\<rparr>)\<rparr>))"

definition release :: "string option \<Rightarrow> journal \<Rightarrow> source_release option" where
  "release i db = (case i of None \<Rightarrow> None | Some r \<Rightarrow> release_row db r)"

definition begin_activation :: "(string \<Rightarrow> string) \<Rightarrow> timestamp \<Rightarrow> string \<Rightarrow> string \<Rightarrow> string \<Rightarrow> activation_kind \<Rightarrow>
    string \<Rightarrow> string \<Rightarrow> string \<Rightarrow> json \<Rightarrow> string \<Rightarrow> json option \<Rightarrow>
    (journal, evolution_error, activation \<times> bool) oper" where
  "begin_activation dg now tenant key rhash kind target previous reason audit review plan db =
    (let aid = ''activation_'' @ take 48 (dg (tenant @ [CHR 0x00] @ key)) in
     case activation_keyed db (tenant, key) of
       Some existing \<Rightarrow>
         if sa_request_hash existing \<noteq> rhash then raises (SourceEvolutionError
           ''source activation idempotency key was used for another request'') db
         else ok (existing, True) db
     | None \<Rightarrow>
         if map_option ss_active_release_id (source_state_row db) \<noteq> Some previous
         then raises (SourceEvolutionError ''active source changed before activation'') db
         else if activation_row db aid \<noteq> None \<or> release_row db target = None \<or>
             release_row db previous = None \<or>
             list_ex (\<lambda>r. sa_status r = Preparing) (source_activations db)
         then raises (SourceEvolutionError ''another source activation is already running'') db
         else
           (let row = \<lparr>sa_id = aid, sa_tenant = tenant, sa_key = key, sa_request_hash = rhash,
                  sa_kind = kind, sa_target_release_id = target, sa_previous_release_id = previous,
                  sa_status = Preparing, sa_reason = reason, sa_review_instructions = review,
                  sa_inference_plan = plan, sa_audit = audit, sa_result = None,
                  sa_notified = False, sa_created_at = now, sa_updated_at = now\<rparr>
            in ok (row, False) (db\<lparr>source_activations := source_activations db @ [row]\<rparr>)))"

definition operation :: "string \<Rightarrow> journal \<Rightarrow> activation option" where
  "operation aid db = activation_row db aid"

definition find_operation :: "string \<Rightarrow> string \<Rightarrow> journal \<Rightarrow> activation option" where
  "find_operation tenant key db = activation_keyed db (tenant, key)"

definition pending :: "journal \<Rightarrow> activation list" where
  "pending db = sort_key sa_created_at (filter (\<lambda>r. sa_status r = Preparing) (source_activations db))"

definition latest :: "journal \<Rightarrow> activation option" where
  "latest db = top_by (\<lambda>r. (sa_created_at r, sa_id r)) (source_activations db)"

definition complete_success :: "timestamp \<Rightarrow> string \<Rightarrow> json \<Rightarrow> (journal, evolution_error, activation) oper" where
  "complete_success now aid result db = (case activation_row db aid of
     None \<Rightarrow> raises (SourceEvolutionError ''source activation disappeared'') db
   | Some row \<Rightarrow>
       if sa_status row \<noteq> Preparing then ok row db
       else (case source_state_row db of
         None \<Rightarrow> raises (SourceEvolutionError ''active source changed during activation'') db
       | Some s \<Rightarrow>
           if ss_active_release_id s \<noteq> sa_previous_release_id row
           then raises (SourceEvolutionError ''active source changed during activation'') db
           else
             (let f = (\<lambda>r. r\<lparr>sa_status := Active, sa_result := Some result, sa_updated_at := now\<rparr>)
              in ok (f row) (db\<lparr>source_state_row := Some
                   \<lparr>ss_active_release_id = sa_target_release_id row,
                    ss_previous_release_id = Some (sa_previous_release_id row),
                    ss_last_good_release_id = sa_target_release_id row, ss_updated_at = now\<rparr>,
                 source_activations :=
                   upd (\<lambda>r. sa_id r = aid \<and> sa_status r = Preparing) f (source_activations db)\<rparr>))))"

definition complete_failure :: "timestamp \<Rightarrow> string \<Rightarrow> bool \<Rightarrow> json \<Rightarrow> (journal, evolution_error, activation) oper" where
  "complete_failure now aid rolled_back result db =
    (let db1 = db\<lparr>source_activations := upd (\<lambda>r. sa_id r = aid \<and> sa_status r = Preparing)
           (\<lambda>r. r\<lparr>sa_status := (if rolled_back then RolledBack else ActivationFailed),
              sa_result := Some result, sa_updated_at := now\<rparr>) (source_activations db)\<rparr>
     in case operation aid db1 of
          None \<Rightarrow> raises (SourceEvolutionError ''source activation disappeared'') db1
        | Some r \<Rightarrow> ok r db1)"

text \<open>The last activation that made a release active: the greatest update time, then identifier.\<close>

definition latest_active :: "string \<Rightarrow> journal \<Rightarrow> activation option" where
  "latest_active rid db = top_by (\<lambda>r. (sa_updated_at r, sa_id r))
     (filter (\<lambda>r. sa_target_release_id r = rid \<and> sa_status r = Active) (source_activations db))"

definition recovery_candidate :: "string \<Rightarrow> bool \<Rightarrow> journal \<Rightarrow> evolution_error + source_release option" where
  "recovery_candidate failed_source_commit allow_pending db =
    (case commit_of failed_source_commit of Inl e \<Rightarrow> Inl e | Inr failed \<Rightarrow> Inr
      (case source_state_row db of None \<Rightarrow> None | Some s \<Rightarrow>
       (case release_row db (ss_active_release_id s) of None \<Rightarrow> None | Some active \<Rightarrow>
        (case ss_previous_release_id s of None \<Rightarrow> None | Some previous \<Rightarrow>
          if sr_source_commit active \<noteq> failed then None
          else if \<not> allow_pending \<and> list_ex (\<lambda>r. sa_status r = Preparing) (source_activations db) then None
          else if (case latest_active (ss_active_release_id s) db of
                     None \<Rightarrow> False | Some r \<Rightarrow> sa_kind r = Rollback) then None
          else (case release_row db previous of
             None \<Rightarrow> None
           | Some candidate \<Rightarrow> if sr_source_commit candidate = failed then None else Some candidate)))))"

definition recovery_result :: "string \<Rightarrow> string \<Rightarrow> json" where
  "recovery_result failed_release_id selected_release_id = JObj
     [(''active_release_id'', JStr selected_release_id), (''failed_release_id'', JStr failed_release_id),
      (''reason'', JStr ''runtime source failed operational checks''), (''status'', JStr ''rolled_back'')]"

definition complete_recovery :: "timestamp \<Rightarrow> string \<Rightarrow> string \<Rightarrow> bool \<Rightarrow> (journal, evolution_error, unit) oper" where
  "complete_recovery now failed_release_id selected_release_id invalidate_pending db =
    (let result = recovery_result failed_release_id selected_release_id in
     case source_state_row db of
       None \<Rightarrow> raises (SourceEvolutionError ''active source changed during runtime recovery'') db
     | Some s \<Rightarrow>
         if ss_active_release_id s \<noteq> failed_release_id
         then raises (SourceEvolutionError ''active source changed during runtime recovery'') db
         else if (case ss_previous_release_id s of None \<Rightarrow> [] | Some p \<Rightarrow> p) \<noteq> selected_release_id
         then raises (SourceEvolutionError ''runtime recovery source changed before activation'') db
         else if list_ex (\<lambda>r. sa_status r = Preparing) (source_activations db) \<and> \<not> invalidate_pending
         then raises (SourceEvolutionError ''source activation changed during runtime recovery'') db
         else if release_row db selected_release_id = None
         then raises JournalIntegrityError db
         else
           (let newest = map_option sa_id (latest_active failed_release_id db);
                as1 = upd (\<lambda>r. newest = Some (sa_id r))
                  (\<lambda>r. r\<lparr>sa_status := RolledBack, sa_result := Some result, sa_updated_at := now\<rparr>)
                  (source_activations db);
                as2 = (if invalidate_pending
                  then upd (\<lambda>r. sa_status r = Preparing \<and> sa_previous_release_id r = failed_release_id)
                    (\<lambda>r. r\<lparr>sa_status := ActivationFailed, sa_result := Some result, sa_updated_at := now\<rparr>) as1
                  else as1)
            in ok () (db\<lparr>source_state_row := Some \<lparr>ss_active_release_id = selected_release_id,
                   ss_previous_release_id = None, ss_last_good_release_id = selected_release_id,
                   ss_updated_at = now\<rparr>,
                 source_activations := as2\<rparr>)))"

definition pending_notifications :: "journal \<Rightarrow> activation list" where
  "pending_notifications db = sort_key sa_updated_at
     (filter (\<lambda>r. sa_status r \<noteq> Preparing \<and> \<not> sa_notified r \<and> sa_result r \<noteq> None) (source_activations db))"

definition mark_notified :: "timestamp \<Rightarrow> string \<Rightarrow> journal \<Rightarrow> journal" where
  "mark_notified now aid db = db\<lparr>source_activations :=
     upd (\<lambda>r. sa_id r = aid) (\<lambda>r. r\<lparr>sa_notified := True, sa_updated_at := now\<rparr>) (source_activations db)\<rparr>"

section \<open>Calls and the invariant\<close>

datatype journal_call =
    CInitialize string timestamp
  | CRelease string timestamp
  | CBegin timestamp string string string activation_kind string string string json string "json option"
  | CSuccess timestamp string json
  | CFailure timestamp string bool json
  | CRecovery timestamp string string bool
  | CNotified timestamp string

fun journal_exec :: "(string \<Rightarrow> string) \<Rightarrow> journal_call \<Rightarrow> journal \<Rightarrow> bool \<times> journal" where
  "journal_exec dg (CInitialize c now) db = (let r = initialize c now db in (is_ok r, snd r))"
| "journal_exec dg (CRelease c now) db = (let r = release_for_commit c now db in (is_ok r, snd r))"
| "journal_exec dg (CBegin now t k h kind tg pv rsn au rv pl) db =
     (let r = begin_activation dg now t k h kind tg pv rsn au rv pl db in (is_ok r, snd r))"
| "journal_exec dg (CSuccess now a res) db = (let r = complete_success now a res db in (is_ok r, snd r))"
| "journal_exec dg (CFailure now a b res) db = (let r = complete_failure now a b res db in (is_ok r, snd r))"
| "journal_exec dg (CRecovery now f s b) db = (let r = complete_recovery now f s b db in (is_ok r, snd r))"
| "journal_exec dg (CNotified now a) db = (True, mark_notified now a db)"

text \<open>
  Identities and keys are unique, an activation in progress is alone and starts from the active
  release, every release that is referred to exists, the release that is active is also the last
  good one, and only activations that are over have a result.
\<close>

definition journal_inv :: "journal \<Rightarrow> bool" where
  "journal_inv db =
    (distinct (map sr_id (source_releases db)) \<and> distinct (map sr_source_commit (source_releases db)) \<and>
     distinct (map sa_id (source_activations db)) \<and>
     distinct (map (\<lambda>r. (sa_tenant r, sa_key r)) (source_activations db)) \<and>
     length (filter (\<lambda>r. sa_status r = Preparing) (source_activations db)) \<le> 1 \<and>
     (\<forall>r \<in> set (source_activations db). release_row db (sa_target_release_id r) \<noteq> None \<and>
        release_row db (sa_previous_release_id r) \<noteq> None \<and>
        (sa_status r = Preparing \<longleftrightarrow> sa_result r = None) \<and>
        (sa_status r = Preparing \<longrightarrow>
           map_option ss_active_release_id (source_state_row db) = Some (sa_previous_release_id r))) \<and>
     (\<forall>s. source_state_row db = Some s \<longrightarrow> release_row db (ss_active_release_id s) \<noteq> None \<and>
        ss_last_good_release_id s = ss_active_release_id s \<and>
        (\<forall>p. ss_previous_release_id s = Some p \<longrightarrow> release_row db p \<noteq> None)))"

section \<open>Invariant\<close>

lemma release_row_append [simp]:
  "release_row (db\<lparr>source_releases := source_releases db @ [r]\<rparr>) i =
    (case release_row db i of Some x \<Rightarrow> Some x | None \<Rightarrow> if sr_id r = i then Some r else None)"
  by (simp add: release_row_def sel_append split: option.splits)

lemma release_row_frame [simp]:
  "release_row (db\<lparr>source_state_row := s\<rparr>) i = release_row db i"
  "release_row (db\<lparr>source_activations := as\<rparr>) i = release_row db i"
  by (simp_all add: release_row_def)

lemma release_row_id: "release_row db i = Some r \<Longrightarrow> sr_id r = i"
  by (auto simp: release_row_def dest: sel_SomeD)

lemma preparing_unique:
  assumes "length (filter P xs) \<le> 1" "r \<in> set xs" "s \<in> set xs" "P r" "P s"
  shows "r = s"
proof -
  have "r \<in> set (filter P xs)" "s \<in> set (filter P xs)" using assms by auto
  with assms(1) show ?thesis by (cases "filter P xs" rule: list.exhaust) auto
qed

lemma journal_inv_nodup: "journal_inv db \<Longrightarrow> r \<in> set (source_activations db) \<Longrightarrow>
    s \<in> set (source_activations db) \<Longrightarrow> sa_status r = Preparing \<Longrightarrow> sa_status s = Preparing \<Longrightarrow> r = s"
  unfolding journal_inv_def by (blast intro: preparing_unique)

lemma journal_inv_id: "journal_inv db \<Longrightarrow> r \<in> set (source_activations db) \<Longrightarrow>
    s \<in> set (source_activations db) \<Longrightarrow> sa_id r = sa_id s \<Longrightarrow> r = s"
  unfolding journal_inv_def by (blast intro: distinct_key_eq)

lemma no_preparing_filter: "(\<And>r. r \<in> set xs \<Longrightarrow> sa_status r \<noteq> Preparing) \<Longrightarrow>
    length (filter (\<lambda>r. sa_status r = Preparing) xs) \<le> 1"
  by (simp add: filter_empty_conv)

lemma release_for_commit_cases:
  assumes "release_for_commit c now db = (x, db')"
  shows "db' = db \<or> (\<exists>commit. release_row db (release_id_of commit) = None \<and>
     (\<forall>r \<in> set (source_releases db). sr_source_commit r \<noteq> commit) \<and>
     db' = db\<lparr>source_releases := source_releases db @
       [\<lparr>sr_id = release_id_of commit, sr_source_commit = commit, sr_created_at = now\<rparr>]\<rparr>)"
  using assms unfolding release_for_commit_def
  by (elim checked_cases)
    (auto simp: Let_def release_row_def sel_None list_ex_iff split: if_splits option.splits)

lemma release_for_commit_ok:
  assumes "release_for_commit c now db = (Inr r, db')"
  shows "release_row db' (sr_id r) = Some r \<and> commit_of c = Inr (sr_source_commit r) \<and>
    sr_id r = release_id_of (sr_source_commit r)"
proof -
  have "release_row db' (release_id_of (sr_source_commit r)) = Some r \<and> commit_of c = Inr (sr_source_commit r)"
    using assms unfolding release_for_commit_def Let_def
    by (elim checked_cases) (auto split: option.splits if_splits simp del: release_row_append)
  with release_row_id [of db' "release_id_of (sr_source_commit r)" r] show ?thesis by simp
qed

lemma inv_release:
  assumes "journal_inv db" "release_for_commit c now db = (x, db')"
  shows "journal_inv db'"
  using release_for_commit_cases [OF assms(2)]
proof (elim disjE exE conjE)
  fix commit
  assume new: "release_row db (release_id_of commit) = None"
    "\<forall>r \<in> set (source_releases db). sr_source_commit r \<noteq> commit"
    and db': "db' = db\<lparr>source_releases := source_releases db @
       [\<lparr>sr_id = release_id_of commit, sr_source_commit = commit, sr_created_at = now\<rparr>]\<rparr>"
  have keep: "release_row db i \<noteq> None \<Longrightarrow> release_row db' i \<noteq> None" for i by (auto simp: db')
  from new(1) have "\<forall>r \<in> set (source_releases db). sr_id r \<noteq> release_id_of commit"
    by (simp add: release_row_def sel_None)
  then have "distinct (map sr_id (source_releases db'))" "distinct (map sr_source_commit (source_releases db'))"
    using assms(1) new by (auto simp: journal_inv_def db')
  moreover have "source_activations db' = source_activations db" "source_state_row db' = source_state_row db"
    by (simp_all add: db')
  ultimately show ?thesis using assms(1) keep unfolding journal_inv_def by metis
qed (use assms in simp)

lemma inv_initialize:
  assumes "journal_inv db" "initialize c now db = (x, db')"
  shows "journal_inv db'"
proof -
  obtain y db1 where r: "release_for_commit c now db = (y, db1)" by fastforce
  note inv = inv_release [OF assms(1) r]
  show ?thesis
  proof (cases y)
    case (Inl e)
    with assms(2) r inv show ?thesis by (simp add: initialize_def)
  next
    case (Inr rel)
    with release_for_commit_ok r have rel: "release_row db1 (sr_id rel) = Some rel" by blast
    show ?thesis
    proof (cases "source_state_row db1")
      case (Some s)
      then have "db1\<lparr>source_state_row := Some s\<rparr> = db1" by simp
      with assms(2) r Inr Some inv show ?thesis by (auto simp: initialize_def state_def)
    next
      case None
      with inv have np: "\<And>r. r \<in> set (source_activations db1) \<Longrightarrow> sa_status r \<noteq> Preparing"
        by (auto simp: journal_inv_def)
      have "db' = db1\<lparr>source_state_row := Some \<lparr>ss_active_release_id = sr_id rel,
          ss_previous_release_id = None, ss_last_good_release_id = sr_id rel, ss_updated_at = now\<rparr>\<rparr>"
        using assms(2) r Inr None by (simp add: initialize_def state_def)
      then show ?thesis using inv np rel by (simp add: journal_inv_def)
    qed
  qed
qed

definition new_activation :: "(string \<Rightarrow> string) \<Rightarrow> timestamp \<Rightarrow> string \<Rightarrow> string \<Rightarrow> string \<Rightarrow> activation_kind \<Rightarrow>
    string \<Rightarrow> string \<Rightarrow> string \<Rightarrow> json \<Rightarrow> string \<Rightarrow> json option \<Rightarrow> activation" where
  "new_activation dg now tenant key rhash kind target previous reason audit review plan =
     \<lparr>sa_id = ''activation_'' @ take 48 (dg (tenant @ [CHR 0x00] @ key)), sa_tenant = tenant,
      sa_key = key, sa_request_hash = rhash, sa_kind = kind, sa_target_release_id = target,
      sa_previous_release_id = previous, sa_status = Preparing, sa_reason = reason,
      sa_review_instructions = review, sa_inference_plan = plan, sa_audit = audit, sa_result = None,
      sa_notified = False, sa_created_at = now, sa_updated_at = now\<rparr>"

lemma new_activation_simps [simp]:
  "sa_tenant (new_activation dg now t k h kind tg pv rsn au rv pl) = t"
  "sa_key (new_activation dg now t k h kind tg pv rsn au rv pl) = k"
  "sa_request_hash (new_activation dg now t k h kind tg pv rsn au rv pl) = h"
  "sa_status (new_activation dg now t k h kind tg pv rsn au rv pl) = Preparing"
  "sa_target_release_id (new_activation dg now t k h kind tg pv rsn au rv pl) = tg"
  "sa_previous_release_id (new_activation dg now t k h kind tg pv rsn au rv pl) = pv"
  "sa_result (new_activation dg now t k h kind tg pv rsn au rv pl) = None"
  by (simp_all add: new_activation_def)

lemma begin_cases:
  assumes "begin_activation dg now t k h kind tg pv rsn au rv pl db = (x, db')"
  shows "(db' = db \<and> (\<exists>e. x = Inl e)) \<or>
    (\<exists>row. db' = db \<and> activation_keyed db (t, k) = Some row \<and> sa_request_hash row = h \<and> x = Inr (row, True)) \<or>
    (activation_keyed db (t, k) = None \<and>
     activation_row db (sa_id (new_activation dg now t k h kind tg pv rsn au rv pl)) = None \<and>
     map_option ss_active_release_id (source_state_row db) = Some pv \<and>
     release_row db tg \<noteq> None \<and> release_row db pv \<noteq> None \<and>
     (\<forall>r \<in> set (source_activations db). sa_status r \<noteq> Preparing) \<and>
     x = Inr (new_activation dg now t k h kind tg pv rsn au rv pl, False) \<and>
     db' = db\<lparr>source_activations := source_activations db @ [new_activation dg now t k h kind tg pv rsn au rv pl]\<rparr>)"
  using assms unfolding begin_activation_def Let_def new_activation_def
  by (auto simp: list_ex_iff split: option.splits if_splits)

lemma inv_begin:
  assumes "journal_inv db" "begin_activation dg now t k h kind tg pv rsn au rv pl db = (x, db')"
  shows "journal_inv db'"
  using begin_cases [OF assms(2)]
proof (elim disjE exE conjE)
  let ?row = "new_activation dg now t k h kind tg pv rsn au rv pl"
  assume new: "activation_keyed db (t, k) = None" "activation_row db (sa_id ?row) = None"
    "map_option ss_active_release_id (source_state_row db) = Some pv"
    "release_row db tg \<noteq> None" "release_row db pv \<noteq> None"
    "\<forall>r \<in> set (source_activations db). sa_status r \<noteq> Preparing"
    and db': "db' = db\<lparr>source_activations := source_activations db @ [?row]\<rparr>"
  have "distinct (map sa_id (source_activations db @ [?row]))"
    "distinct (map (\<lambda>r. (sa_tenant r, sa_key r)) (source_activations db @ [?row]))"
    using new(1,2) assms(1)
    by (auto simp: journal_inv_def activation_keyed_def activation_row_def sel_None)
  moreover have "length (filter (\<lambda>r. sa_status r = Preparing) (source_activations db @ [?row])) \<le> 1"
    using new(6) by (simp add: filter_empty_conv)
  ultimately show ?thesis
    using assms(1) new(3-5) unfolding db' journal_inv_def by auto
qed (use assms in auto)

lemma activation_rowD: "activation_row db a = Some r \<Longrightarrow> r \<in> set (source_activations db) \<and> sa_id r = a"
  by (auto simp: activation_row_def dest: sel_SomeD)

lemma activation_row_mem:
  assumes "journal_inv db" "r \<in> set (source_activations db)"
  shows "activation_row db (sa_id r) = Some r"
  unfolding activation_row_def using assms by (intro sel_unique [where g = sa_id]) (auto simp: journal_inv_def)

text \<open>Ending the activation in progress leaves none, and changes no other activation.\<close>

lemma upd_preparing:
  assumes "journal_inv db" "activation_row db a = Some row" "sa_status row = Preparing"
    "\<And>r. sa_status (f r) \<noteq> Preparing"
  shows "\<And>r. r \<in> set (upd (\<lambda>r. sa_id r = a \<and> sa_status r = Preparing) f (source_activations db)) \<Longrightarrow>
      sa_status r \<noteq> Preparing \<and> (r = f row \<or> r \<in> set (source_activations db))"
proof -
  fix r assume "r \<in> set (upd (\<lambda>r. sa_id r = a \<and> sa_status r = Preparing) f (source_activations db))"
  then obtain s where s: "s \<in> set (source_activations db)"
    "r = (if sa_id s = a \<and> sa_status s = Preparing then f s else s)" by (auto simp: set_upd)
  have row: "row \<in> set (source_activations db)" "sa_id row = a" using activation_rowD [OF assms(2)] by auto
  show "sa_status r \<noteq> Preparing \<and> (r = f row \<or> r \<in> set (source_activations db))"
  proof (cases "s = row")
    case True
    with s row assms show ?thesis by simp
  next
    case False
    with journal_inv_nodup [OF assms(1) s(1) row(1)] assms(3) have "sa_status s \<noteq> Preparing" by blast
    with s show ?thesis by simp
  qed
qed

lemma length_filter_upd:
  "(\<And>r. P r \<Longrightarrow> Q (f r) \<Longrightarrow> Q r) \<Longrightarrow> length (filter Q (upd P f xs)) \<le> length (filter Q xs)"
  by (induction xs) (auto intro: le_SucI)

lemma journal_invI:
  assumes "journal_inv db"
    and "map sa_id as' = map sa_id (source_activations db)"
    and "map (\<lambda>r. (sa_tenant r, sa_key r)) as' = map (\<lambda>r. (sa_tenant r, sa_key r)) (source_activations db)"
    and "length (filter (\<lambda>r. sa_status r = Preparing) as') \<le> 1"
    and rows: "\<And>r'. r' \<in> set as' \<Longrightarrow> \<exists>r \<in> set (source_activations db).
      sa_target_release_id r' = sa_target_release_id r \<and> sa_previous_release_id r' = sa_previous_release_id r \<and>
      (sa_status r' = Preparing \<longleftrightarrow> sa_result r' = None) \<and>
      (sa_status r' = Preparing \<longrightarrow> map_option ss_active_release_id st' = Some (sa_previous_release_id r'))"
    and st: "\<And>s. st' = Some s \<Longrightarrow> release_row db (ss_active_release_id s) \<noteq> None \<and>
        ss_last_good_release_id s = ss_active_release_id s \<and>
        (\<forall>p. ss_previous_release_id s = Some p \<longrightarrow> release_row db p \<noteq> None)"
  shows "journal_inv (db\<lparr>source_state_row := st', source_activations := as'\<rparr>)"
proof -
  have rel: "release_row db (sa_target_release_id r) \<noteq> None" "release_row db (sa_previous_release_id r) \<noteq> None"
    if "r \<in> set (source_activations db)" for r
    using assms(1) that unfolding journal_inv_def by blast+
  have acts: "release_row db (sa_target_release_id r') \<noteq> None \<and> release_row db (sa_previous_release_id r') \<noteq> None \<and>
      (sa_status r' = Preparing \<longleftrightarrow> sa_result r' = None) \<and>
      (sa_status r' = Preparing \<longrightarrow> map_option ss_active_release_id st' = Some (sa_previous_release_id r'))"
    if "r' \<in> set as'" for r'
    using rows [OF that] rel by metis
  have rr: "release_row (db\<lparr>source_state_row := st', source_activations := as'\<rparr>) = release_row db"
    by (rule ext) simp
  have db: "distinct (map sr_id (source_releases db))" "distinct (map sr_source_commit (source_releases db))"
    "distinct (map sa_id (source_activations db))"
    "distinct (map (\<lambda>r. (sa_tenant r, sa_key r)) (source_activations db))"
    using assms(1) unfolding journal_inv_def by blast+
  have d': "distinct (map sa_id as')" "distinct (map (\<lambda>r. (sa_tenant r, sa_key r)) as')"
    unfolding assms(2,3) by (rule db)+
  have fld: "source_releases (db\<lparr>source_state_row := st', source_activations := as'\<rparr>) = source_releases db"
    "source_activations (db\<lparr>source_state_row := st', source_activations := as'\<rparr>) = as'"
    "source_state_row (db\<lparr>source_state_row := st', source_activations := as'\<rparr>) = st'" by simp_all
  show ?thesis
    unfolding journal_inv_def rr fld using db(1,2) d' assms(4) acts st by blast
qed

lemma journal_inv_facts:
  assumes "journal_inv db"
  shows "r \<in> set (source_activations db) \<Longrightarrow> sa_status r = Preparing \<longleftrightarrow> sa_result r = None"
    "r \<in> set (source_activations db) \<Longrightarrow> sa_status r = Preparing \<Longrightarrow>
      map_option ss_active_release_id (source_state_row db) = Some (sa_previous_release_id r)"
    "r \<in> set (source_activations db) \<Longrightarrow> release_row db (sa_target_release_id r) \<noteq> None"
    "r \<in> set (source_activations db) \<Longrightarrow> release_row db (sa_previous_release_id r) \<noteq> None"
    "length (filter (\<lambda>r. sa_status r = Preparing) (source_activations db)) \<le> 1"
    "source_state_row db = Some s \<Longrightarrow> release_row db (ss_active_release_id s) \<noteq> None \<and>
        ss_last_good_release_id s = ss_active_release_id s \<and>
        (\<forall>p. ss_previous_release_id s = Some p \<longrightarrow> release_row db p \<noteq> None)"
  using assms unfolding journal_inv_def by blast+

lemma inv_success:
  assumes "journal_inv db" "complete_success now a res db = (x, db')"
  shows "journal_inv db'"
proof (cases "db' = db")
  case False
  let ?f = "\<lambda>r. r\<lparr>sa_status := Active, sa_result := Some res, sa_updated_at := now\<rparr> :: activation"
  let ?as = "upd (\<lambda>r. sa_id r = a \<and> sa_status r = Preparing) ?f (source_activations db)"
  from False assms(2) obtain row s where row: "activation_row db a = Some row" "sa_status row = Preparing"
    and db': "db' = db\<lparr>source_state_row := Some \<lparr>ss_active_release_id = sa_target_release_id row,
        ss_previous_release_id = Some (sa_previous_release_id row),
        ss_last_good_release_id = sa_target_release_id row, ss_updated_at = now\<rparr>,
       source_activations := ?as\<rparr>"
    by (auto simp: complete_success_def Let_def split: option.splits if_splits)
  have mem: "row \<in> set (source_activations db)" using activation_rowD [OF row(1)] by simp
  note u = upd_preparing [OF assms(1) row, of ?f, simplified]
  show ?thesis unfolding db'
  proof (rule journal_invI [OF assms(1)])
    show "length (filter (\<lambda>r. sa_status r = Preparing) ?as) \<le> 1"
      by (rule no_preparing_filter) (use u in blast)
  next
    fix r' assume r': "r' \<in> set ?as"
    show "\<exists>r \<in> set (source_activations db).
      sa_target_release_id r' = sa_target_release_id r \<and> sa_previous_release_id r' = sa_previous_release_id r \<and>
      (sa_status r' = Preparing \<longleftrightarrow> sa_result r' = None) \<and>
      (sa_status r' = Preparing \<longrightarrow> map_option ss_active_release_id (Some \<lparr>ss_active_release_id = sa_target_release_id row,
        ss_previous_release_id = Some (sa_previous_release_id row),
        ss_last_good_release_id = sa_target_release_id row, ss_updated_at = now\<rparr>) = Some (sa_previous_release_id r'))"
      using u [OF r']
    proof (elim conjE disjE)
      assume "r' = ?f row"
      with mem show ?thesis by (intro bexI [of _ row]) simp_all
    next
      assume "r' \<in> set (source_activations db)" "sa_status r' \<noteq> Preparing"
      with journal_inv_facts(1) [OF assms(1), of r'] show ?thesis by (intro bexI [of _ r']) auto
    qed
  next
    fix s assume "Some \<lparr>ss_active_release_id = sa_target_release_id row,
        ss_previous_release_id = Some (sa_previous_release_id row),
        ss_last_good_release_id = sa_target_release_id row, ss_updated_at = now\<rparr> = Some s"
    with journal_inv_facts(3,4) [OF assms(1) mem]
    show "release_row db (ss_active_release_id s) \<noteq> None \<and> ss_last_good_release_id s = ss_active_release_id s \<and>
        (\<forall>p. ss_previous_release_id s = Some p \<longrightarrow> release_row db p \<noteq> None)" by auto
  qed (simp_all add: map_upd)
qed (use assms in simp)

text \<open>An update that keeps identities and never makes an activation preparing again.\<close>

lemma inv_upd:
  assumes inv: "journal_inv db"
    and f: "\<And>r. P r \<Longrightarrow> sa_id (f r) = sa_id r \<and> sa_tenant (f r) = sa_tenant r \<and> sa_key (f r) = sa_key r \<and>
      sa_target_release_id (f r) = sa_target_release_id r \<and> sa_previous_release_id (f r) = sa_previous_release_id r"
    and p: "\<And>r. P r \<Longrightarrow> sa_status (f r) = Preparing \<Longrightarrow> sa_status r = Preparing \<and> sa_result (f r) = sa_result r"
    and q: "\<And>r. P r \<Longrightarrow> sa_status (f r) \<noteq> Preparing \<Longrightarrow> sa_result (f r) \<noteq> None \<or> sa_status r \<noteq> Preparing \<and> sa_result (f r) = sa_result r"
  shows "journal_inv (db\<lparr>source_activations := upd P f (source_activations db)\<rparr>)"
proof -
  let ?as = "upd P f (source_activations db)"
  have "journal_inv (db\<lparr>source_state_row := source_state_row db, source_activations := ?as\<rparr>)"
  proof (rule journal_invI [OF inv])
    show "map sa_id ?as = map sa_id (source_activations db)"
      "map (\<lambda>r. (sa_tenant r, sa_key r)) ?as = map (\<lambda>r. (sa_tenant r, sa_key r)) (source_activations db)"
      using f by (auto intro!: map_upd)
    show "length (filter (\<lambda>r. sa_status r = Preparing) ?as) \<le> 1"
      using length_filter_upd [of P "\<lambda>r. sa_status r = Preparing" f "source_activations db"] p
        journal_inv_facts(5) [OF inv] by (meson le_trans)
  next
    fix r' assume "r' \<in> set ?as"
    then obtain r where r: "r \<in> set (source_activations db)" "r' = (if P r then f r else r)"
      by (auto simp: set_upd)
    show "\<exists>r \<in> set (source_activations db).
      sa_target_release_id r' = sa_target_release_id r \<and> sa_previous_release_id r' = sa_previous_release_id r \<and>
      (sa_status r' = Preparing \<longleftrightarrow> sa_result r' = None) \<and>
      (sa_status r' = Preparing \<longrightarrow> map_option ss_active_release_id (source_state_row db) = Some (sa_previous_release_id r'))"
      using r f [of r] p [of r] q [of r] journal_inv_facts(1,2) [OF inv r(1)]
      by (intro bexI [OF _ r(1)], cases "sa_status (f r) = Preparing") (auto split: if_splits)
  qed (use journal_inv_facts(6) [OF inv] in blast)
  then show ?thesis by simp
qed

lemma inv_failure:
  assumes "journal_inv db" "complete_failure now a b res db = (x, db')"
  shows "journal_inv db'"
proof -
  have "db' = db\<lparr>source_activations := upd (\<lambda>r. sa_id r = a \<and> sa_status r = Preparing)
      (\<lambda>r. r\<lparr>sa_status := (if b then RolledBack else ActivationFailed), sa_result := Some res,
        sa_updated_at := now\<rparr>) (source_activations db)\<rparr>"
    using assms(2) by (auto simp: complete_failure_def Let_def split: option.splits)
  then show ?thesis by (simp only:) (rule inv_upd [OF assms(1)]; simp split: if_splits)
qed

lemma inv_notified: "journal_inv db \<Longrightarrow> journal_inv (mark_notified now a db)"
  unfolding mark_notified_def by (rule inv_upd) (use journal_inv_facts(1) in auto)

lemma latest_activeD:
  "latest_active rid db = Some r \<Longrightarrow> r \<in> set (source_activations db) \<and> sa_target_release_id r = rid \<and> sa_status r = Active"
  unfolding latest_active_def by (drule top_by_mem) auto

lemma recovery_cases:
  assumes "complete_recovery now f sl b db = (x, db')"
  shows "(db' = db \<and> (\<exists>e. x = Inl e)) \<or>
    (\<exists>s. x = Inr () \<and> source_state_row db = Some s \<and> ss_active_release_id s = f \<and>
       (case ss_previous_release_id s of None \<Rightarrow> [] | Some p \<Rightarrow> p) = sl \<and> release_row db sl \<noteq> None \<and>
       (b \<or> (\<forall>r \<in> set (source_activations db). sa_status r \<noteq> Preparing)) \<and>
       db' = db\<lparr>source_state_row := Some \<lparr>ss_active_release_id = sl, ss_previous_release_id = None,
           ss_last_good_release_id = sl, ss_updated_at = now\<rparr>,
         source_activations :=
           (let as1 = upd (\<lambda>r. map_option sa_id (latest_active f db) = Some (sa_id r))
              (\<lambda>r. r\<lparr>sa_status := RolledBack, sa_result := Some (recovery_result f sl), sa_updated_at := now\<rparr>)
              (source_activations db)
            in if b then upd (\<lambda>r. sa_status r = Preparing \<and> sa_previous_release_id r = f)
                (\<lambda>r. r\<lparr>sa_status := ActivationFailed, sa_result := Some (recovery_result f sl),
                  sa_updated_at := now\<rparr>) as1 else as1)\<rparr>)"
  using assms unfolding complete_recovery_def Let_def
  by (auto simp: list_ex_iff split: option.splits if_splits)

lemma inv_recovery:
  assumes inv: "journal_inv db" and c: "complete_recovery now f sl b db = (x, db')"
  shows "journal_inv db' \<and> (x = Inr () \<longrightarrow> (\<forall>r \<in> set (source_activations db'). sa_status r \<noteq> Preparing))"
proof (cases "db' = db \<and> (\<exists>e. x = Inl e)")
  case False
  let ?P1 = "\<lambda>r. map_option sa_id (latest_active f db) = Some (sa_id r)"
  let ?f1 = "\<lambda>r. r\<lparr>sa_status := RolledBack, sa_result := Some (recovery_result f sl), sa_updated_at := now\<rparr> :: activation"
  let ?P2 = "\<lambda>r. sa_status r = Preparing \<and> sa_previous_release_id r = f"
  let ?f2 = "\<lambda>r. r\<lparr>sa_status := ActivationFailed, sa_result := Some (recovery_result f sl), sa_updated_at := now\<rparr> :: activation"
  let ?as1 = "upd ?P1 ?f1 (source_activations db)"
  let ?as2 = "if b then upd ?P2 ?f2 ?as1 else ?as1"
  let ?st = "\<lparr>ss_active_release_id = sl, ss_previous_release_id = None, ss_last_good_release_id = sl,
    ss_updated_at = now\<rparr>"
  from False recovery_cases [OF c] obtain s where
    s: "source_state_row db = Some s" "ss_active_release_id s = f" "release_row db sl \<noteq> None"
    and b: "b \<or> (\<forall>r \<in> set (source_activations db). sa_status r \<noteq> Preparing)"
    and db': "db' = db\<lparr>source_state_row := Some ?st, source_activations := (let as1 = ?as1 in
      if b then upd ?P2 ?f2 as1 else as1)\<rparr>" by blast
  have row: "\<exists>r \<in> set (source_activations db). sa_target_release_id r' = sa_target_release_id r \<and>
      sa_previous_release_id r' = sa_previous_release_id r \<and> sa_status r' \<noteq> Preparing \<and> sa_result r' \<noteq> None"
    if "r' \<in> set ?as2" for r'
  proof -
    have "\<exists>r1 \<in> set ?as1. r' = (if b \<and> ?P2 r1 then ?f2 r1 else r1)"
    proof (cases b)
      case True
      with that have "r' \<in> set (upd ?P2 ?f2 ?as1)" by simp
      from upd_memD [OF this] True show ?thesis by simp
    qed (use that in auto)
    then obtain r1 where r1: "r1 \<in> set ?as1" "r' = (if b \<and> ?P2 r1 then ?f2 r1 else r1)" by blast
    from upd_memD [OF r1(1)] obtain r where r: "r \<in> set (source_activations db)"
      "r1 = (if ?P1 r then ?f1 r else r)" by blast
    have prep: "sa_status r = Preparing \<Longrightarrow> b \<and> sa_previous_release_id r = f"
      using journal_inv_facts(2) [OF inv r(1)] s b r(1) by auto
    have "sa_status r' \<noteq> Preparing \<and> sa_result r' \<noteq> None"
      using r1(2) r(2) prep journal_inv_facts(1) [OF inv r(1)] by (auto split: if_splits)
    with r r1(2) show ?thesis by (intro bexI [OF _ r(1)]) (auto split: if_splits)
  qed
  have eq: "db' = db\<lparr>source_state_row := Some ?st, source_activations := ?as2\<rparr>"
    by (simp add: db' Let_def)
  have "journal_inv db'" unfolding eq
  proof (rule journal_invI [OF inv])
    show "map sa_id ?as2 = map sa_id (source_activations db)"
      "map (\<lambda>r. (sa_tenant r, sa_key r)) ?as2 = map (\<lambda>r. (sa_tenant r, sa_key r)) (source_activations db)"
      by (simp_all add: map_upd)
    show "length (filter (\<lambda>r. sa_status r = Preparing) ?as2) \<le> 1"
      by (rule no_preparing_filter) (use row in blast)
  next
    fix r' assume "r' \<in> set ?as2"
    from row [OF this] obtain r where r: "r \<in> set (source_activations db)"
      "sa_target_release_id r' = sa_target_release_id r" "sa_previous_release_id r' = sa_previous_release_id r"
      "sa_status r' \<noteq> Preparing" "sa_result r' \<noteq> None" by (elim bexE conjE)
    show "\<exists>r \<in> set (source_activations db).
      sa_target_release_id r' = sa_target_release_id r \<and> sa_previous_release_id r' = sa_previous_release_id r \<and>
      (sa_status r' = Preparing \<longleftrightarrow> sa_result r' = None) \<and>
      (sa_status r' = Preparing \<longrightarrow> map_option ss_active_release_id (Some ?st) = Some (sa_previous_release_id r'))"
      by (rule bexI [OF _ r(1)]) (simp add: r)
  qed (use s in auto)
  moreover have as: "source_activations db' = ?as2" by (simp add: db' Let_def)
  have "sa_status r \<noteq> Preparing" if "r \<in> set (source_activations db')" for r
    using row [OF that [unfolded as]] by (elim bexE conjE)
  ultimately show ?thesis by simp
qed (use inv in auto)

lemma journal_inv_exec:
  assumes "journal_inv db"
  shows "journal_inv (snd (journal_exec dg c db))"
proof (cases c)
  case (CInitialize a b)
  then show ?thesis using inv_initialize [OF assms surjective_pairing] by (simp add: Let_def)
next
  case (CRelease a b)
  then show ?thesis using inv_release [OF assms surjective_pairing] by (simp add: Let_def)
next
  case (CBegin x1 x2 x3 x4 x5 x6 x7 x8 x9 x10 x11)
  then show ?thesis using inv_begin [OF assms surjective_pairing] by (simp add: Let_def)
next
  case (CSuccess a b c)
  then show ?thesis using inv_success [OF assms surjective_pairing] by (simp add: Let_def)
next
  case (CFailure a b c d)
  then show ?thesis using inv_failure [OF assms surjective_pairing] by (simp add: Let_def)
next
  case (CRecovery a b c d)
  then show ?thesis using inv_recovery [OF assms surjective_pairing] by (simp add: Let_def)
next
  case (CNotified a b)
  then show ?thesis using inv_notified [OF assms] by simp
qed

lemma journal_inv_empty: "journal_inv empty_journal"
  by (simp add: journal_inv_def empty_journal_def)

interpretation journal_calls: call_system "journal_exec dg" empty_journal journal_inv
  by unfold_locales (rule journal_inv_empty, rule journal_inv_exec)

section \<open>Requests under a key\<close>

type_synonym activation_request =
  "timestamp \<times> string \<times> string \<times> string \<times> activation_kind \<times> string \<times> string \<times> string \<times> json \<times> string \<times> json option"

text \<open>\<open>begin\<close> answers whether the request was replayed; its negation says that it was created.\<close>

fun begin_req :: "(string \<Rightarrow> string) \<Rightarrow> activation_request \<Rightarrow> (journal, evolution_error, activation \<times> bool) oper" where
  "begin_req dg (now, t, k, h, kind, tg, pv, rsn, au, rv, pl) db =
     apfst (map_sum id (apsnd Not)) (begin_activation dg now t k h kind tg pv rsn au rv pl db)"

fun act_key :: "activation_request \<Rightarrow> string \<times> string" where
  "act_key (now, t, k, h, kind, tg, pv, rsn, au, rv, pl) = (t, k)"

fun act_hash :: "activation_request \<Rightarrow> string" where
  "act_hash (now, t, k, h, kind, tg, pv, rsn, au, rv, pl) = h"

fun is_begin :: "journal_call \<Rightarrow> bool" where
  "is_begin (CBegin now t k h kind tg pv rsn au rv pl) = True"
| "is_begin _ = False"

definition journal_other :: "(string \<Rightarrow> string) \<Rightarrow> journal \<Rightarrow> journal \<Rightarrow> bool" where
  "journal_other dg db db' = (\<exists>c. \<not> is_begin c \<and> db' = snd (journal_exec dg c db))"

definition act_ident :: "activation \<Rightarrow> string \<times> string \<times> string \<times> string" where
  "act_ident r = (sa_id r, sa_tenant r, sa_key r, sa_request_hash r)"

lemma ident_release: "source_activations (snd (release_for_commit c now db)) = source_activations db"
  using release_for_commit_cases [OF surjective_pairing, of c now db] by auto

lemma ident_initialize: "source_activations (snd (initialize c now db)) = source_activations db"
  using ident_release [of c now db]
  by (auto simp: initialize_def state_def split: prod.splits sum.splits option.splits)

lemma ident_recovery:
  "map act_ident (source_activations (snd (complete_recovery now f s b db))) = map act_ident (source_activations db)"
  using recovery_cases [OF surjective_pairing, of now f s b db]
  by (elim disjE exE conjE) (auto simp: Let_def map_upd act_ident_def)

lemma ident_journal_exec:
  "\<not> is_begin c \<Longrightarrow> map act_ident (source_activations (snd (journal_exec dg c db))) = map act_ident (source_activations db)"
  by (cases c) (auto simp: Let_def ident_release ident_initialize ident_recovery complete_success_def
    complete_failure_def mark_notified_def act_ident_def map_upd split: option.splits)

lemma keyed_act_ident:
  assumes "map act_ident as' = map act_ident as"
  shows "map_option sa_request_hash (sel (\<lambda>r. (sa_tenant r, sa_key r) = k) as') =
    map_option sa_request_hash (sel (\<lambda>r. (sa_tenant r, sa_key r) = k) as)"
  using assms by (induction as' as rule: list_induct2') (auto simp: act_ident_def)

interpretation activations: insert_once activation_keyed sa_request_hash "\<lambda>r. r" act_key act_hash
  "begin_req dg" "journal_other dg"
proof unfold_locales
  show "map_option sa_request_hash (activation_keyed db' k) = map_option sa_request_hash (activation_keyed db k)"
    if "journal_other dg db db'" for db db' k
    using that ident_journal_exec keyed_act_ident unfolding journal_other_def activation_keyed_def by blast
next
  fix r :: activation_request and db v db'
  obtain now t k h kind tg pv rsn au rv pl where r: "r = (now, t, k, h, kind, tg, pv, rsn, au, rv, pl)"
    by (cases r) auto
  obtain x db1 where b: "begin_activation dg now t k h kind tg pv rsn au rv pl db = (x, db1)" by fastforce
  note c = begin_cases [OF b]
  show "db' = db \<and> (\<exists>row. activation_keyed db (act_key r) = Some row \<and> row = v \<and> sa_request_hash row = act_hash r)"
    if "begin_req dg r db = (Inr (v, False), db')"
    using that c b r by (cases x) auto
  show "activation_keyed db (act_key r) = None \<and> (\<exists>row. activation_keyed db' (act_key r) = Some row \<and>
      row = v \<and> sa_request_hash row = act_hash r)"
    if "begin_req dg r db = (Inr (v, True), db')"
    using that c b r by (cases x) (auto simp: activation_keyed_def sel_append)
  show "activation_keyed db' k' = activation_keyed db k'"
    if "begin_req dg r db = (Inr (v, True), db')" "k' \<noteq> act_key r" for k'
    using that c b r by (cases x) (auto simp: activation_keyed_def sel_append split: option.splits)
next
  fix r :: activation_request and db e db'
  obtain now t k h kind tg pv rsn au rv pl where r: "r = (now, t, k, h, kind, tg, pv, rsn, au, rv, pl)"
    by (cases r) auto
  obtain x db1 where b: "begin_activation dg now t k h kind tg pv rsn au rv pl db = (x, db1)" by fastforce
  show "db' = db" if "begin_req dg r db = (Inl e, db')"
    using that begin_cases [OF b] b r by (cases x) auto
next
  fix r :: activation_request and db0 x db1 db row
  show "begin_req dg r db = (Inr (row, False), db)"
    if "begin_req dg r db0 = (Inr x, db1)" "activation_keyed db (act_key r) = Some row"
      "sa_request_hash row = act_hash r"
    using that by (cases r) (auto simp: begin_activation_def Let_def)
qed

section \<open>Endings\<close>

lemma complete_success_preparing:
  assumes inv: "journal_inv db" and row: "activation_row db a = Some r" "sa_status r = Preparing"
  shows "\<exists>db'. complete_success now a res db =
      ok (r\<lparr>sa_status := Active, sa_result := Some res, sa_updated_at := now\<rparr>) db' \<and>
    source_state_row db' = Some \<lparr>ss_active_release_id = sa_target_release_id r,
        ss_previous_release_id = Some (sa_previous_release_id r),
        ss_last_good_release_id = sa_target_release_id r, ss_updated_at = now\<rparr> \<and>
    (\<forall>r' \<in> set (source_activations db'). sa_status r' \<noteq> Preparing)"
proof -
  have mem: "r \<in> set (source_activations db)" using activation_rowD [OF row(1)] by simp
  from journal_inv_facts(2) [OF inv mem row(2)] obtain s where
    s: "source_state_row db = Some s" "ss_active_release_id s = sa_previous_release_id r" by auto
  note u = upd_preparing [OF inv row, of "\<lambda>r. r\<lparr>sa_status := Active, sa_result := Some res, sa_updated_at := now\<rparr>", simplified]
  show ?thesis using row s u by (simp add: complete_success_def Let_def)
qed

lemma activation_row_upd:
  assumes "\<And>r. P r \<Longrightarrow> sa_id (f r) = sa_id r"
  shows "activation_row (db\<lparr>source_activations := upd P f as\<rparr>) a =
    map_option (\<lambda>r. if P r then f r else r) (sel (\<lambda>r. sa_id r = a) as)"
  unfolding activation_row_def using assms by (simp add: sel_upd)

text \<open>Failed and rolled back activations keep their outcome; an active one can only be rolled back.\<close>

definition over :: "activation \<Rightarrow> activation \<Rightarrow> bool" where
  "over r r' = (sa_id r' = sa_id r \<and> sa_kind r' = sa_kind r \<and>
     sa_target_release_id r' = sa_target_release_id r \<and>
     (sa_status r' = sa_status r \<and> sa_result r' = sa_result r \<or> sa_status r = Active \<and> sa_status r' = RolledBack))"

lemma over_refl: "over r r" by (simp add: over_def)

lemma sel_activation_over:
  assumes "activation_row db a = Some r" "sa_status r \<noteq> Preparing"
    "\<And>r. P r \<Longrightarrow> sa_id (f r) = sa_id r" "\<And>r. r \<in> set (source_activations db) \<Longrightarrow> P r \<Longrightarrow> sa_status r \<noteq> Preparing \<Longrightarrow> over r (f r)"
    "source_activations db' = upd P f (source_activations db)"
  shows "\<exists>r'. activation_row db' a = Some r' \<and> over r r'"
proof -
  have "activation_row db' a = Some (if P r then f r else r)"
    using assms(1,3) unfolding activation_row_def assms(5) by (simp add: sel_upd)
  with assms(2,4) activation_rowD [OF assms(1)] show ?thesis by (auto simp: over_refl)
qed

lemma exec_over:
  assumes inv: "journal_inv db" and r: "activation_row db a = Some r" "sa_status r \<noteq> Preparing"
  shows "\<exists>r'. activation_row (snd (journal_exec dg c db)) a = Some r' \<and> over r r'"
proof -
  have same: ?thesis if "source_activations (snd (journal_exec dg c db)) = source_activations db"
    using r that by (simp add: activation_row_def over_refl)
  show ?thesis
  proof (cases c)
    case (CInitialize x1 x2)
    then show ?thesis by (intro same) (simp add: Let_def ident_initialize)
  next
    case (CRelease x1 x2)
    then show ?thesis by (intro same) (simp add: Let_def ident_release)
  next
    case (CBegin now t k h kind tg pv rsn au rv pl)
    from begin_cases [OF surjective_pairing, of dg now t k h kind tg pv rsn au rv pl db]
    have "snd (journal_exec dg c db) = db \<or> (\<exists>row. source_activations (snd (journal_exec dg c db)) = source_activations db @ [row])"
      using CBegin by (auto simp: Let_def)
    then show ?thesis using r by (auto simp: activation_row_def sel_append over_refl)
  next
    case (CSuccess now x2 res)
    have "snd (journal_exec dg c db) = db \<or> source_activations (snd (journal_exec dg c db)) =
        upd (\<lambda>r. sa_id r = x2 \<and> sa_status r = Preparing)
          (\<lambda>r. r\<lparr>sa_status := Active, sa_result := Some res, sa_updated_at := now\<rparr>) (source_activations db)"
      using CSuccess by (auto simp: Let_def complete_success_def split: option.splits)
    then show ?thesis using same by (elim disjE) (simp, rule sel_activation_over [OF r], auto)
  next
    case (CFailure now x2 b res)
    have "source_activations (snd (journal_exec dg c db)) =
        upd (\<lambda>r. sa_id r = x2 \<and> sa_status r = Preparing)
          (\<lambda>r. r\<lparr>sa_status := (if b then RolledBack else ActivationFailed), sa_result := Some res,
             sa_updated_at := now\<rparr>) (source_activations db)"
      using CFailure by (auto simp: Let_def complete_failure_def split: option.splits)
    then show ?thesis by (rule sel_activation_over [OF r, rotated -1]) auto
  next
    case (CRecovery now f s b)
    let ?P1 = "\<lambda>r. map_option sa_id (latest_active f db) = Some (sa_id r)"
    let ?f1 = "\<lambda>r. r\<lparr>sa_status := RolledBack, sa_result := Some (recovery_result f s), sa_updated_at := now\<rparr> :: activation"
    let ?as1 = "upd ?P1 ?f1 (source_activations db)"
    have "snd (journal_exec dg c db) = db \<or> source_activations (snd (journal_exec dg c db)) =
        (if b then upd (\<lambda>r. sa_status r = Preparing \<and> sa_previous_release_id r = f)
          (\<lambda>r. r\<lparr>sa_status := ActivationFailed, sa_result := Some (recovery_result f s),
             sa_updated_at := now\<rparr>) ?as1 else ?as1)"
      using recovery_cases [OF surjective_pairing, of now f s b db] CRecovery by (auto simp: Let_def)
    moreover have "\<exists>r1. activation_row (db\<lparr>source_activations := ?as1\<rparr>) a = Some r1 \<and> over r r1"
    proof (rule sel_activation_over [OF r])
      fix r0 assume "r0 \<in> set (source_activations db)" "?P1 r0"
      then obtain q where "latest_active f db = Some q" "sa_id q = sa_id r0" by auto
      with latest_activeD journal_inv_id [OF inv] \<open>r0 \<in> set (source_activations db)\<close>
      have "sa_status r0 = Active" by metis
      then show "over r0 (?f1 r0)" by (simp add: over_def)
    qed auto
    then obtain r1 where r1: "activation_row (db\<lparr>source_activations := ?as1\<rparr>) a = Some r1" "over r r1" by blast
    then have np: "sa_status r1 \<noteq> Preparing" using r(2) by (auto simp: over_def)
    ultimately show ?thesis
    proof (elim disjE)
      assume db': "source_activations (snd (journal_exec dg c db)) =
        (if b then upd (\<lambda>r. sa_status r = Preparing \<and> sa_previous_release_id r = f)
          (\<lambda>r. r\<lparr>sa_status := ActivationFailed, sa_result := Some (recovery_result f s),
             sa_updated_at := now\<rparr>) ?as1 else ?as1)"
      have sl: "sel (\<lambda>r. sa_id r = a) ?as1 = Some r1" using r1(1) by (simp add: activation_row_def)
      have "sel (\<lambda>r. sa_id r = a) (upd (\<lambda>r. sa_status r = Preparing \<and> sa_previous_release_id r = f)
          (\<lambda>r. r\<lparr>sa_status := ActivationFailed, sa_result := Some (recovery_result f s),
             sa_updated_at := now\<rparr>) ?as1) = Some r1"
        by (subst sel_upd) (simp, unfold sl, simp add: np)
      with sl have "activation_row (snd (journal_exec dg c db)) a = Some r1"
        unfolding activation_row_def db' by simp
      with r1(2) show ?thesis by blast
    qed (use same in simp)
  next
    case (CNotified now x2)
    have "source_activations (snd (journal_exec dg c db)) =
        upd (\<lambda>r. sa_id r = x2) (\<lambda>r. r\<lparr>sa_notified := True, sa_updated_at := now\<rparr>) (source_activations db)"
      using CNotified by (simp add: mark_notified_def)
    then show ?thesis by (rule sel_activation_over [OF r, rotated -1]) (auto simp: over_def)
  qed
qed

lemma over_trans: "over r r1 \<Longrightarrow> over r1 r2 \<Longrightarrow> over r r2"
  by (auto simp: over_def)

lemma run_over:
  assumes "journal_inv db" "activation_row db a = Some r" "sa_status r \<noteq> Preparing"
  shows "\<exists>r'. activation_row (snd (run_calls (journal_exec dg) cs db)) a = Some r' \<and> over r r'"
  using assms
proof (induction cs arbitrary: db r)
  case (Cons c cs)
  from exec_over [OF Cons.prems, of dg c] obtain r1 where
    r1: "activation_row (snd (journal_exec dg c db)) a = Some r1" "over r r1" by blast
  moreover have "sa_status r1 \<noteq> Preparing" using r1(2) Cons.prems(3) by (auto simp: over_def)
  ultimately show ?case using Cons.IH [OF journal_inv_exec [OF Cons.prems(1)]] over_trans
    by (fastforce simp: Let_def)
qed (auto simp: over_refl)

lemma candidateD:
  assumes "recovery_candidate c allow db = Inr (Some cand)"
  shows "\<exists>s active. source_state_row db = Some s \<and> release_row db (ss_active_release_id s) = Some active \<and>
    commit_of c = Inr (sr_source_commit active) \<and> sr_source_commit cand \<noteq> sr_source_commit active \<and>
    ss_previous_release_id s = Some (sr_id cand) \<and> release_row db (sr_id cand) = Some cand \<and>
    (\<not> allow \<longrightarrow> (\<forall>r \<in> set (source_activations db). sa_status r \<noteq> Preparing)) \<and>
    (\<forall>r. latest_active (ss_active_release_id s) db = Some r \<longrightarrow> sa_kind r = Activate)"
proof -
  have k: "kind = Rollback \<or> kind = Activate" for kind by (cases kind) auto
  show ?thesis using assms k release_row_id unfolding recovery_candidate_def
    by (fastforce simp: list_ex_iff split: sum.splits option.splits if_splits)
qed

lemma recovery_ok:
  assumes "source_state_row db = Some s" "ss_previous_release_id s = Some p" "release_row db p \<noteq> None"
    "allow \<or> (\<forall>r \<in> set (source_activations db). sa_status r \<noteq> Preparing)"
  shows "\<exists>db'. complete_recovery now (ss_active_release_id s) p allow db = ok () db' \<and>
    source_state_row db' = Some \<lparr>ss_active_release_id = p, ss_previous_release_id = None,
      ss_last_good_release_id = p, ss_updated_at = now\<rparr>"
  using assms by (auto simp: complete_recovery_def Let_def list_ex_iff)

section \<open>Properties\<close>

text \<open>
  C6: the journal never contradicts itself. After any sequence of calls release identities and
  commits, activation identities and the tenant's keys are unique; at most one activation is in
  progress and it starts from the release that is active; every release that the state or an
  activation names exists; the active release is the last good one; exactly the activations that are
  over have a result.
\<close>

theorem journal_is_consistent: "journal_inv (snd (run_calls (journal_exec dg) cs empty_journal))"
  by (rule journal_calls.run_start_inv)

text \<open>
  C25: an activation in progress can always be finished, and finishing it switches the source exactly
  once. In every reachable journal \<open>complete_success\<close> on a preparing activation succeeds: its target
  becomes the active and last good release, the release it replaced the previous one, and no
  activation is left in progress; repeating the call changes nothing.
\<close>

theorem activation_switches_once:
  assumes "db = snd (run_calls (journal_exec dg) cs empty_journal)"
    and "activation_row db a = Some r" "sa_status r = Preparing"
  shows "\<exists>r' db'. complete_success now a res db = ok r' db' \<and> sa_status r' = Active \<and> sa_result r' = Some res \<and>
    source_state_row db' = Some \<lparr>ss_active_release_id = sa_target_release_id r,
        ss_previous_release_id = Some (sa_previous_release_id r),
        ss_last_good_release_id = sa_target_release_id r, ss_updated_at = now\<rparr> \<and>
    map_option ss_active_release_id (source_state_row db) = Some (sa_previous_release_id r) \<and>
    (\<forall>r' \<in> set (source_activations db'). sa_status r' \<noteq> Preparing) \<and>
    snd (complete_success now' a res' db') = db'"
proof -
  have inv: "journal_inv db" using assms(1) journal_calls.run_start_inv by simp
  from complete_success_preparing [OF inv assms(2,3)] obtain db' where c:
    "complete_success now a res db = ok (r\<lparr>sa_status := Active, sa_result := Some res, sa_updated_at := now\<rparr>) db'"
    and st: "source_state_row db' = Some \<lparr>ss_active_release_id = sa_target_release_id r,
        ss_previous_release_id = Some (sa_previous_release_id r),
        ss_last_good_release_id = sa_target_release_id r, ss_updated_at = now\<rparr>"
    and np: "\<forall>r' \<in> set (source_activations db'). sa_status r' \<noteq> Preparing" by blast
  have "snd (complete_success now' a res' db') = db'"
    using np activation_rowD [of db' a] by (auto simp: complete_success_def split: option.splits)
  moreover have "map_option ss_active_release_id (source_state_row db) = Some (sa_previous_release_id r)"
    using journal_inv_facts(2) [OF inv _ assms(3)] activation_rowD [OF assms(2)] by simp
  ultimately show ?thesis using c st np by auto
qed

definition hex40 :: "char \<Rightarrow> string" where
  "hex40 c = replicate 40 c"

definition sample_begin :: "nat \<Rightarrow> string \<Rightarrow> activation_kind \<Rightarrow> char \<Rightarrow> char \<Rightarrow> journal_call" where
  "sample_begin n key kind target previous = CBegin (At n) ''o'' key ''h'' kind
     (release_id_of (hex40 target)) (release_id_of (hex40 previous)) [] (JObj []) [] None"

definition sample_id :: "string \<Rightarrow> string" where
  "sample_id key = ''activation_'' @ take 48 (''o'' @ [CHR 0x00] @ key)"

definition sample_calls :: "journal_call list" where
  "sample_calls = [CInitialize (hex40 CHR ''0'') (At 1), CRelease (hex40 CHR ''a'') (At 2),
     CRelease (hex40 CHR ''b'') (At 3), sample_begin 10 ''k1'' Activate CHR ''a'' CHR ''0'']"

theorem activation_switches_once_witness:
  "let db = snd (run_calls (journal_exec (\<lambda>s. s)) sample_calls empty_journal)
   in \<exists>r' db'. complete_success (At 11) (sample_id ''k1'') JNull db = ok r' db' \<and> sa_status r' = Active"
proof -
  let ?db = "snd (run_calls (journal_exec (\<lambda>s. s)) sample_calls empty_journal)"
  have "\<exists>r. activation_row ?db (sample_id ''k1'') = Some r \<and> sa_status r = Preparing"
  proof -
    have "map_option sa_status (activation_row ?db (sample_id ''k1'')) = Some Preparing" by code_simp
    then show ?thesis by auto
  qed
  then obtain r where "activation_row ?db (sample_id ''k1'') = Some r" "sa_status r = Preparing" by blast
  from activation_switches_once [OF refl this, of "At 11" JNull] show ?thesis unfolding Let_def by blast
qed

text \<open>
  the outcome of an activation is durable. Whatever calls follow, a failed or rolled back
  activation keeps its status and result, and an active one keeps them unless a runtime recovery
  rolls it back.
\<close>

theorem activation_outcome_is_final:
  assumes "db = snd (run_calls (journal_exec dg) cs empty_journal)"
    and "activation_row db a = Some r" "sa_status r \<noteq> Preparing"
  shows "\<exists>r'. activation_row (snd (run_calls (journal_exec dg) cs' db)) a = Some r' \<and>
    (sa_status r' = sa_status r \<and> sa_result r' = sa_result r \<or>
     sa_status r = Active \<and> sa_status r' = RolledBack)"
proof -
  have "journal_inv db" using assms(1) journal_calls.run_start_inv by simp
  from run_over [OF this assms(2,3), of dg cs'] show ?thesis by (auto simp: over_def)
qed

theorem activation_outcome_is_final_witness:
  "let db = snd (run_calls (journal_exec (\<lambda>s. s))
        (sample_calls @ [CFailure (At 11) (sample_id ''k1'') True JNull]) empty_journal)
   in \<exists>r'. activation_row (snd (run_calls (journal_exec (\<lambda>s. s))
        [CSuccess (At 12) (sample_id ''k1'') JNull] db)) (sample_id ''k1'') = Some r' \<and>
      sa_status r' = RolledBack"
proof -
  let ?cs = "sample_calls @ [CFailure (At 11) (sample_id ''k1'') True JNull]"
  let ?db = "snd (run_calls (journal_exec (\<lambda>s. s)) ?cs empty_journal)"
  have "map_option sa_status (activation_row ?db (sample_id ''k1'')) = Some RolledBack" by code_simp
  then obtain r where r: "activation_row ?db (sample_id ''k1'') = Some r" "sa_status r = RolledBack" by auto
  then have "sa_status r \<noteq> Preparing" by simp
  from activation_outcome_is_final [OF refl r(1) this, of "[CSuccess (At 12) (sample_id ''k1'') JNull]"]
  show ?thesis unfolding Let_def using r(2) by fastforce
qed

text \<open>
  under any interleaving of activation requests with the other operations of the journal, at
  most one request per tenant and idempotency key creates an activation and all accepted requests
  under one key carried the same request hash.
\<close>

theorem one_activation_per_key:
  assumes "sched (begin_req dg) (journal_other dg) db tr db'"
  shows "created_for act_key k tr \<le> 1 \<and>
    (\<forall>r x r' x'. (r, Inr x) \<in> set tr \<longrightarrow> (r', Inr x') \<in> set tr \<longrightarrow> act_key r = act_key r' \<longrightarrow>
       act_hash r = act_hash r')"
  using activations.at_most_one_creation [OF assms] activations.one_request_per_key [OF assms] by blast

theorem one_activation_per_key_witness:
  "\<exists>tr db'. sched (begin_req (\<lambda>s. s)) (journal_other (\<lambda>s. s)) empty_journal tr db' \<and> length tr = 1 \<and>
     created_for act_key (''o'', ''k'') tr \<le> 1"
proof -
  let ?r = "(At 1, ''o'', ''k'', ''h'', Activate, ''x'', ''y'', [], JNull, [], None) :: activation_request"
  obtain x db' where c: "begin_req (\<lambda>s. s) ?r empty_journal = (x, db')" by (metis surj_pair)
  have "sched (begin_req (\<lambda>s. s)) (journal_other (\<lambda>s. s)) empty_journal ([] @ [(?r, x)]) db'"
    by (rule sched_create [of "begin_req (\<lambda>s. s)", OF _ c], rule sched_nil)
  with one_activation_per_key [OF this, of "(''o'', ''k'')"] show ?thesis
    by (intro exI conjI) (assumption, simp, blast)
qed

text \<open>
  runtime recovery goes back one release and no further. When the journal offers a recovery
  candidate for a failed commit, that commit is the active one, the candidate is the release before
  it and differs from it; completing the recovery to it succeeds, makes it active, leaves no
  activation in progress, and the journal then offers no further candidate for any commit.
\<close>

theorem recovery_goes_back_once:
  assumes "db = snd (run_calls (journal_exec dg) cs empty_journal)"
    and "recovery_candidate c allow db = Inr (Some cand)"
  shows "\<exists>s db'. source_state_row db = Some s \<and> ss_previous_release_id s = Some (sr_id cand) \<and>
    complete_recovery now (ss_active_release_id s) (sr_id cand) allow db = ok () db' \<and>
    map_option ss_active_release_id (source_state_row db') = Some (sr_id cand) \<and>
    (\<forall>r \<in> set (source_activations db'). sa_status r \<noteq> Preparing) \<and>
    (\<forall>c' allow'. case recovery_candidate c' allow' db' of Inl _ \<Rightarrow> True | Inr x \<Rightarrow> x = None)"
proof -
  have inv: "journal_inv db" using assms(1) journal_calls.run_start_inv by simp
  from candidateD [OF assms(2)] obtain s where s: "source_state_row db = Some s"
    "ss_previous_release_id s = Some (sr_id cand)" "release_row db (sr_id cand) \<noteq> None"
    "allow \<or> (\<forall>r \<in> set (source_activations db). sa_status r \<noteq> Preparing)" by auto
  from recovery_ok [OF this, of now] obtain db' where db':
    "complete_recovery now (ss_active_release_id s) (sr_id cand) allow db = ok () db'"
    "source_state_row db' = Some \<lparr>ss_active_release_id = sr_id cand, ss_previous_release_id = None,
      ss_last_good_release_id = sr_id cand, ss_updated_at = now\<rparr>" by blast
  have "case recovery_candidate c' allow' db' of Inl _ \<Rightarrow> True | Inr x \<Rightarrow> x = None" for c' allow'
    using db'(2) by (simp add: recovery_candidate_def split: sum.splits option.splits)
  with inv_recovery [OF inv db'(1)] s db' show ?thesis by auto
qed

theorem recovery_goes_back_once_witness:
  "let db = snd (run_calls (journal_exec (\<lambda>s. s))
        (sample_calls @ [CSuccess (At 11) (sample_id ''k1'') JNull]) empty_journal)
   in \<exists>s db'. source_state_row db = Some s \<and>
      complete_recovery (At 20) (ss_active_release_id s) (release_id_of (hex40 CHR ''0'')) False db = ok () db' \<and>
      map_option ss_active_release_id (source_state_row db') = Some (release_id_of (hex40 CHR ''0''))"
proof -
  let ?cs = "sample_calls @ [CSuccess (At 11) (sample_id ''k1'') JNull]"
  let ?db = "snd (run_calls (journal_exec (\<lambda>s. s)) ?cs empty_journal)"
  have c: "recovery_candidate (hex40 CHR ''a'') False ?db = Inr (Some \<lparr>sr_id = release_id_of (hex40 CHR ''0''),
      sr_source_commit = hex40 CHR ''0'', sr_created_at = At 1\<rparr>)" by code_simp
  from recovery_goes_back_once [OF refl c, of "At 20"] show ?thesis
    unfolding Let_def source_release.simps by blast
qed

text \<open>A late notification makes its activation the latest of its release.\<close>

lemma latest_after_notified:
  assumes inv: "journal_inv db" and r: "r \<in> set (source_activations db)" "sa_status r = Active"
    and late: "\<And>x. x \<in> set (source_activations db) \<Longrightarrow> sa_updated_at x < now"
  shows "latest_active (sa_target_release_id r) (mark_notified now (sa_id r) db) =
    Some (r\<lparr>sa_notified := True, sa_updated_at := now\<rparr>)"
proof -
  let ?f = "\<lambda>r. r\<lparr>sa_notified := True, sa_updated_at := now\<rparr>"
  let ?as = "upd (\<lambda>x. sa_id x = sa_id r) ?f (source_activations db)"
  let ?k = "\<lambda>r. (sa_updated_at r, sa_id r)"
  let ?l = "filter (\<lambda>x. sa_target_release_id x = sa_target_release_id r \<and> sa_status x = Active) ?as"
  have "?f r \<in> (\<lambda>x. if sa_id x = sa_id r then ?f x else x) ` set (source_activations db)"
    using r(1) by (intro image_eqI [of _ _ r]) simp_all
  then have mem: "?f r \<in> set ?l" unfolding set_filter set_upd using r(2) by simp
  then have "?l \<noteq> []" by (metis empty_iff empty_set)
  then obtain m where m: "top_by ?k ?l = Some m" by (cases "top_by ?k ?l") simp_all
  have "now \<le> sa_updated_at m" using top_by_ge [OF m mem] by (auto simp: less_eq_prod_def)
  moreover have "m \<in> set ?as" using top_by_mem [OF m] by simp
  then obtain x where x: "x \<in> set (source_activations db)" "m = (if sa_id x = sa_id r then ?f x else x)"
    by (auto dest: upd_memD)
  ultimately have "sa_id x = sa_id r" using late [OF x(1)] by (auto split: if_splits)
  with journal_inv_id [OF inv x(1) r(1)] x(2) have "m = ?f r" by simp
  with m show ?thesis by (simp add: latest_active_def mark_notified_def)
qed

text \<open>
  C29: a late notification makes the journal offer the release the owner rolled back from. Take any
  reachable journal whose active release was last made active by a rollback, so that no recovery
  source is offered for its commit, and an earlier ordinary activation of the same release that is
  still active; the release before the active one is then the one rolled back from. Marking that
  activation as notified, at a time after all other updates, renews its \<open>updated_at\<close>, so that it
  hides the rollback, and the journal offers the release before.
\<close>

theorem late_notification_revives_rolled_back_release:
  assumes "db = snd (run_calls (journal_exec dg) cs empty_journal)"
    and "source_state_row db = Some s" "release_row db (ss_active_release_id s) = Some active"
    and "ss_previous_release_id s = Some previous" "release_row db previous = Some candidate"
    and "commit_of c = Inr (sr_source_commit active)" "sr_source_commit candidate \<noteq> sr_source_commit active"
    and "allow_pending \<or> pending db = []"
    and rollback: "latest_active (ss_active_release_id s) db = Some q" "sa_kind q = Rollback"
    and earlier: "r \<in> set (source_activations db)" "sa_target_release_id r = ss_active_release_id s"
      "sa_status r = Active" "sa_kind r = Activate"
    and late: "\<forall>x \<in> set (source_activations db). sa_updated_at x < now"
  shows "recovery_candidate c allow_pending db = Inr None \<and>
    recovery_candidate c allow_pending (mark_notified now (sa_id r) db) = Inr (Some candidate)"
proof -
  have inv: "journal_inv db" using assms(1) journal_calls.run_start_inv by simp
  let ?db = "mark_notified now (sa_id r) db"
  have l: "latest_active (ss_active_release_id s) ?db = Some (r\<lparr>sa_notified := True, sa_updated_at := now\<rparr>)"
    using latest_after_notified [OF inv earlier(1,3)] late earlier(2) by simp
  have same: "source_state_row ?db = source_state_row db" "\<And>i. release_row ?db i = release_row db i"
    by (simp_all add: mark_notified_def release_row_def)
  have "list_ex (\<lambda>r. sa_status r = Preparing) (source_activations ?db) =
      list_ex (\<lambda>r. sa_status r = Preparing) (source_activations db)"
    by (simp add: mark_notified_def list_ex_iff bex_upd if_distrib cong: if_cong)
  moreover have "allow_pending \<or> \<not> list_ex (\<lambda>r. sa_status r = Preparing) (source_activations db)"
    using assms(8) by (auto simp: pending_def list_ex_iff filter_empty_conv dest: arg_cong [of _ _ set])
  ultimately show ?thesis
    using assms(2-7) rollback l earlier(4) by (auto simp: recovery_candidate_def same)
qed

text \<open>
  Release \<open>a\<close> is activated, then \<open>b\<close>, then the owner rolls back to \<open>a\<close>; the first activation of \<open>a\<close> is
  notified late.
\<close>

theorem late_notification_revives_rolled_back_release_witness:
  "let db = snd (run_calls (journal_exec (\<lambda>s. s))
        (sample_calls @ [CSuccess (At 11) (sample_id ''k1'') JNull,
           sample_begin 20 ''k2'' Activate CHR ''b'' CHR ''a'', CSuccess (At 21) (sample_id ''k2'') JNull,
           sample_begin 30 ''k3'' Rollback CHR ''a'' CHR ''b'', CSuccess (At 31) (sample_id ''k3'') JNull])
        empty_journal)
   in recovery_candidate (hex40 CHR ''a'') False db = Inr None \<and>
      recovery_candidate (hex40 CHR ''a'') False (mark_notified (At 40) (sample_id ''k1'') db) =
        Inr (Some \<lparr>sr_id = release_id_of (hex40 CHR ''b''), sr_source_commit = hex40 CHR ''b'',
          sr_created_at = At 3\<rparr>)"
proof -
  define db where "db = snd (run_calls (journal_exec (\<lambda>s. s))
    (sample_calls @ [CSuccess (At 11) (sample_id ''k1'') JNull,
       sample_begin 20 ''k2'' Activate CHR ''b'' CHR ''a'', CSuccess (At 21) (sample_id ''k2'') JNull,
       sample_begin 30 ''k3'' Rollback CHR ''a'' CHR ''b'', CSuccess (At 31) (sample_id ''k3'') JNull])
    empty_journal)"
  let ?a = "release_id_of (hex40 CHR ''a'')" and ?b = "release_id_of (hex40 CHR ''b'')"
  have "case source_state_row db of None \<Rightarrow> False
      | Some s \<Rightarrow> ss_active_release_id s = ?a \<and> ss_previous_release_id s = Some ?b"
    unfolding db_def by code_simp
  then obtain s where s: "source_state_row db = Some s" "ss_active_release_id s = ?a" "ss_previous_release_id s = Some ?b"
    by (auto split: option.splits)
  obtain cand where cand: "cand = \<lparr>sr_id = ?b, sr_source_commit = hex40 CHR ''b'', sr_created_at = At 3\<rparr>" by simp
  obtain act where act: "act = \<lparr>sr_id = ?a, sr_source_commit = hex40 CHR ''a'', sr_created_at = At 2\<rparr>" by simp
  have rel: "release_row db ?a = Some act" "release_row db ?b = Some cand" unfolding db_def act cand by code_simp+
  have "list_ex (\<lambda>r. sa_id r = sample_id ''k1'' \<and> sa_target_release_id r = ?a \<and> sa_status r = Active \<and> sa_kind r = Activate)
      (source_activations db)" unfolding db_def by code_simp
  then obtain r where r: "r \<in> set (source_activations db)" "sa_target_release_id r = ?a" "sa_status r = Active"
    "sa_kind r = Activate" and i: "sa_id r = sample_id ''k1''" unfolding list_ex_iff by blast
  have "map_option sa_kind (latest_active ?a db) = Some Rollback" unfolding db_def by code_simp
  then obtain q where q: "latest_active ?a db = Some q" "sa_kind q = Rollback" by auto
  have pen: "False \<or> pending db = []" and late: "\<forall>x \<in> set (source_activations db). sa_updated_at x < At 40"
    unfolding db_def by code_simp+
  have c: "commit_of (hex40 CHR ''a'') = Inr (sr_source_commit act)" "sr_source_commit cand \<noteq> sr_source_commit act"
    unfolding act cand by code_simp+
  have "recovery_candidate (hex40 CHR ''a'') False db = Inr None \<and>
      recovery_candidate (hex40 CHR ''a'') False (mark_notified (At 40) (sa_id r) db) = Inr (Some cand)"
    by (rule late_notification_revives_rolled_back_release [OF db_def s(1) _ s(3) rel(2) c pen _ q(2) r(1) _ r(3,4) late])
      (use rel(1) q(1) r(2) in \<open>simp_all only: s(2)\<close>)
  then show ?thesis unfolding Let_def db_def [symmetric] i cand .
qed

end
