(* ===== verification/SpecModels.thy ===== *)
theory SpecModels
  imports Prelude
begin

text \<open>
  \<^verbatim>\<open>specs/models.py\<close>, \<^verbatim>\<open>specs/protocol.py\<close> and \<^verbatim>\<open>specs/defaults.py\<close>: the contracts of agent and
  trigger specifications. A pydantic class is a record of its fields together with the function
  that constructs it: the strings are stripped (\<open>str_strip_whitespace\<close>), the declared constraints
  of all fields are checked and their failures collected (\<open>FieldErrors\<close>), and only then the
  \<open>model_validator\<close> runs (\<open>ModelError\<close>). Arguments already have the declared type, a dict is the
  list of its items in insertion order, a JSON schema is kept as it is, and the constant
  \<open>protocol_version\<close> of a submission is left out. The time zone database and
  the cron parser of APScheduler are the parameters \<open>zone\<close> and \<open>cron\<close>.
\<close>

section \<open>Constructing a model\<close>

datatype validation_error =
    FieldErrors "string list"
  | ModelError string

definition bad :: "string \<Rightarrow> bool \<Rightarrow> string list" where
  "bad f fine = (if fine then [] else [f])"

definition sized :: "int \<Rightarrow> int \<Rightarrow> 'a list \<Rightarrow> bool" where
  "sized lo hi s = (lo \<le> int (length s) \<and> int (length s) \<le> hi)"

definition within :: "int \<Rightarrow> int \<Rightarrow> int \<Rightarrow> bool" where
  "within lo hi n = (lo \<le> n \<and> n \<le> hi)"

definition construct ::
  "('w \<Rightarrow> 'w) \<Rightarrow> ('w \<Rightarrow> string list) \<Rightarrow> ('w \<Rightarrow> string option) \<Rightarrow> 'w \<Rightarrow> validation_error + 'w" where
  "construct norm flds validate w = (let v = norm w in
     if flds v \<noteq> [] then Inl (FieldErrors (flds v))
     else case validate v of Some msg \<Rightarrow> Inl (ModelError msg) | None \<Rightarrow> Inr v)"

lemma constructD:
  "construct norm flds validate w = Inr v \<Longrightarrow> v = norm w \<and> flds v = [] \<and> validate v = None"
  by (auto simp: construct_def Let_def split: if_splits option.splits)

lemma construct_again:
  assumes "\<And>w. norm (norm w) = norm w" "construct norm flds validate w = Inr v"
  shows "construct norm flds validate v = Inr v"
  using constructD [OF assms(2)] assms(1) by (auto simp: construct_def)

lemma bad_Nil [simp]: "bad f b = [] \<longleftrightarrow> b"
  by (simp add: bad_def)

section \<open>Constrained strings\<close>

definition is_lower :: "char \<Rightarrow> bool" where
  "is_lower c = (let n = of_char c :: nat in 97 \<le> n \<and> n \<le> 122)"

definition is_digit :: "char \<Rightarrow> bool" where
  "is_digit c = (let n = of_char c :: nat in 48 \<le> n \<and> n \<le> 57)"

definition name_of :: "string \<Rightarrow> nat \<Rightarrow> string \<Rightarrow> bool" where
  "name_of extra most s = (case s of [] \<Rightarrow> False
     | c # cs \<Rightarrow> is_lower c \<and> length cs \<le> most \<and>
         list_all (\<lambda>d. is_lower d \<or> is_digit d \<or> d \<in> set extra) cs)"

definition slug :: "string \<Rightarrow> bool" where
  "slug = name_of ''_-'' 63"

definition tool_name :: "string \<Rightarrow> bool" where
  "tool_name = name_of ''_'' 99"

definition protocol_id :: "string \<Rightarrow> bool" where
  "protocol_id = sized 1 200"

definition thread_id :: "string \<Rightarrow> bool" where
  "thread_id = sized 1 8192"

definition hex_digest :: "string \<Rightarrow> bool" where
  "hex_digest s = (length s = 64 \<and>
     list_all (\<lambda>c. is_digit c \<or> (let n = of_char c :: nat in 97 \<le> n \<and> n \<le> 102)) s)"

text \<open>A dict built from its items: a repeated key keeps its place and takes the later value.\<close>

fun dict_set :: "('k \<times> 'v) list \<Rightarrow> 'k \<times> 'v \<Rightarrow> ('k \<times> 'v) list" where
  "dict_set [] kv = [kv]"
| "dict_set (x # xs) kv = (if fst x = fst kv then kv # xs else x # dict_set xs kv)"

definition dict_of :: "('k \<times> 'v) list \<Rightarrow> ('k \<times> 'v) list" where
  "dict_of = foldl dict_set []"

lemma dict_set_new: "fst kv \<notin> fst ` set d \<Longrightarrow> dict_set d kv = d @ [kv]"
  by (induction d) auto

lemma dict_set_keys:
  "map fst (dict_set d kv) = (if fst kv \<in> fst ` set d then map fst d else map fst d @ [fst kv])"
  by (induction d) auto

lemma dict_of_distinct_id: "distinct (map fst d) \<Longrightarrow> dict_of d = d"
  unfolding dict_of_def by (induction d rule: rev_induct) (auto simp: dict_set_new)

lemma dict_of_distinct [simp]: "distinct (map fst (dict_of d))"
  unfolding dict_of_def by (induction d rule: rev_induct) (auto simp: dict_set_keys)

lemma set_dict_set: "set (dict_set d kv) \<subseteq> insert kv (set d)"
  by (induction d) auto

lemma dict_of_mem: "kv \<in> set (dict_of d) \<Longrightarrow> kv \<in> set d"
proof (induction d rule: rev_induct)
  case (snoc x d)
  have "dict_of (d @ [x]) = dict_set (dict_of d) x" by (simp add: dict_of_def)
  with snoc set_dict_set [of "dict_of d" x] show ?case by auto
qed (simp add: dict_of_def)

definition strip_labels :: "(string \<times> string) list \<Rightarrow> (string \<times> string) list" where
  "strip_labels l = dict_of (map (\<lambda>(k, v). (py_strip k, py_strip v)) l)"

lemma strip_labels_idem [simp]: "strip_labels (strip_labels l) = strip_labels l"
proof -
  have "map (\<lambda>(k, v). (py_strip k, py_strip v)) (strip_labels l) = strip_labels l"
    unfolding strip_labels_def by (rule map_idI) (auto dest!: dict_of_mem)
  then show ?thesis
    by (simp add: strip_labels_def [of "strip_labels l"]) (simp add: strip_labels_def dict_of_distinct_id)
qed

definition labels_ok :: "(string \<times> string) list \<Rightarrow> bool" where
  "labels_ok l = (length l \<le> 100 \<and> list_all (\<lambda>(k, _). slug k) l)"

section \<open>References\<close>

record agent_ref =
  ref_tenant_id :: string
  ref_spec_id :: string
  ref_revision :: int

definition strip_ref :: "agent_ref \<Rightarrow> agent_ref" where
  "strip_ref r = r\<lparr>ref_tenant_id := py_strip (ref_tenant_id r), ref_spec_id := py_strip (ref_spec_id r)\<rparr>"

definition ref_fields :: "agent_ref \<Rightarrow> string list" where
  "ref_fields r = bad ''tenant_id'' (protocol_id (ref_tenant_id r)) @ bad ''spec_id'' (slug (ref_spec_id r)) @
     bad ''revision'' (1 \<le> ref_revision r)"

definition AgentSpecRef :: "agent_ref \<Rightarrow> validation_error + agent_ref" where
  "AgentSpecRef = construct strip_ref ref_fields (\<lambda>_. None)"

lemma strip_ref_idem [simp]: "strip_ref (strip_ref r) = strip_ref r"
  by (simp add: strip_ref_def)

section \<open>Agent specifications\<close>

datatype spec_isolation = PrivateSpec | ExternalSpec

datatype memory_scope = MemoryOwner | MemorySpec | MemoryNone

datatype workspace_scope = ReadWrite | ReadOnly | NoWorkspace

datatype tool_policy = ProfileDefault | Allowlist

record agent_spec_write =
  aw_name :: string
  aw_description :: string
  aw_runtime_profile :: string
  aw_model_alias :: string
  aw_instructions :: string
  aw_isolation :: spec_isolation
  aw_tool_policy :: tool_policy
  aw_tools :: "string list"
  aw_memory_scope :: memory_scope
  aw_workspace_scope :: workspace_scope
  aw_allow_delegation :: bool
  aw_max_runtime_seconds :: int
  aw_max_model_calls :: int
  aw_output_schema :: "json option"
  aw_labels :: "(string \<times> string) list"

definition external_agent_tools :: "string list" where
  "external_agent_tools = [''knowledge_find'', ''knowledge_list'', ''knowledge_query'']"

definition strip_agent :: "agent_spec_write \<Rightarrow> agent_spec_write" where
  "strip_agent w = w\<lparr>aw_name := py_strip (aw_name w), aw_description := py_strip (aw_description w),
     aw_runtime_profile := py_strip (aw_runtime_profile w),
     aw_model_alias := py_strip (aw_model_alias w), aw_instructions := py_strip (aw_instructions w),
     aw_tools := map py_strip (aw_tools w), aw_labels := strip_labels (aw_labels w)\<rparr>"

definition agent_fields :: "agent_spec_write \<Rightarrow> string list" where
  "agent_fields w = bad ''name'' (sized 1 200 (aw_name w)) @
     bad ''description'' (sized 0 4000 (aw_description w)) @
     bad ''runtime_profile'' (slug (aw_runtime_profile w)) @
     bad ''model_alias'' (sized 1 200 (aw_model_alias w)) @
     bad ''instructions'' (sized 1 200000 (aw_instructions w)) @
     bad ''tools'' (sized 0 200 (aw_tools w) \<and> list_all tool_name (aw_tools w)) @
     bad ''max_runtime_seconds'' (within 1 86400 (aw_max_runtime_seconds w)) @
     bad ''max_model_calls'' (within 1 10000 (aw_max_model_calls w)) @
     bad ''output_schema'' (case aw_output_schema w of None \<Rightarrow> True | Some j \<Rightarrow> is_obj j) @
     bad ''labels'' (labels_ok (aw_labels w))"

definition unsafe_parts :: "agent_spec_write \<Rightarrow> string list" where
  "unsafe_parts w =
     bad ''memory'' (aw_memory_scope w = MemoryNone) @
     bad ''workspace access'' (aw_workspace_scope w = NoWorkspace) @
     bad ''delegation'' (\<not> aw_allow_delegation w) @
     bad ''profile-default tools'' (aw_tool_policy w = Allowlist) @
     (let unsafe_tools = sort (remdups (filter (\<lambda>x. x \<notin> set external_agent_tools) (aw_tools w)))
      in bad (''non-knowledge tools: '' @ join_with '', '' unsafe_tools) (unsafe_tools = []))"

definition validate_isolation :: "agent_spec_write \<Rightarrow> string option" where
  "validate_isolation w =
     (if length (aw_tools w) \<noteq> card (set (aw_tools w)) then Some ''tools must be unique''
      else if aw_isolation w = ExternalSpec \<and> unsafe_parts w \<noteq> []
      then Some (''external AgentSpec cannot use '' @ join_with '', '' (unsafe_parts w))
      else if aw_tool_policy w = ProfileDefault \<and> aw_tools w \<noteq> []
      then Some ''profile_default tool policy cannot include an allowlist''
      else None)"

definition AgentSpecWrite :: "agent_spec_write \<Rightarrow> validation_error + agent_spec_write" where
  "AgentSpecWrite = construct strip_agent agent_fields validate_isolation"

lemma strip_agent_idem [simp]: "strip_agent (strip_agent w) = strip_agent w"
  by (simp add: strip_agent_def)

section \<open>Trigger specifications\<close>

datatype py_datetime = Aware timestamp | Naive timestamp

datatype event_authentication = Required | TrustedInternal

datatype trigger_source =
    AtTrigger py_datetime string
  | CronTriggerSpec string string
  | IntervalTrigger int
  | EventTrigger string string event_authentication

datatype delivery_mode = DeliverNone | DeliverOrigin | DeliverOwner

record delivery_spec =
  ds_mode :: delivery_mode
  ds_interface :: "string option"

record trigger_spec_write =
  tw_name :: string
  tw_source :: trigger_source
  tw_exposure :: spec_isolation
  tw_agent_spec :: agent_ref
  tw_instruction :: string
  tw_delivery :: delivery_spec
  tw_enabled :: bool
  tw_source_key :: "string option"
  tw_source_revision :: "int option"
  tw_labels :: "(string \<times> string) list"

definition iana_timezone :: "(string \<Rightarrow> bool) \<Rightarrow> string \<Rightarrow> string option" where
  "iana_timezone zone value = (let timezone = py_strip value in
     if zone timezone then Some timezone else None)"

fun strip_source :: "trigger_source \<Rightarrow> trigger_source" where
  "strip_source (AtTrigger at tz) = AtTrigger at (py_strip tz)"
| "strip_source (CronTriggerSpec e tz) = CronTriggerSpec (py_strip e) (py_strip tz)"
| "strip_source (IntervalTrigger n) = IntervalTrigger n"
| "strip_source (EventTrigger ty src au) = EventTrigger (py_strip ty) (py_strip src) au"

fun source_ok :: "(string \<Rightarrow> bool) \<Rightarrow> (string \<Rightarrow> string \<Rightarrow> bool) \<Rightarrow> trigger_source \<Rightarrow> bool" where
  "source_ok zone cron (AtTrigger at tz) =
     ((case at of Aware _ \<Rightarrow> True | Naive _ \<Rightarrow> False) \<and> sized 1 100 tz \<and> iana_timezone zone tz \<noteq> None)"
| "source_ok zone cron (CronTriggerSpec e tz) =
     (sized 1 200 e \<and> sized 1 100 tz \<and>
      (case iana_timezone zone tz of None \<Rightarrow> False | Some z \<Rightarrow> cron e z))"
| "source_ok zone cron (IntervalTrigger n) = within 1 31536000 n"
| "source_ok zone cron (EventTrigger ty src au) = (slug ty \<and> slug src)"

definition strip_delivery :: "delivery_spec \<Rightarrow> delivery_spec" where
  "strip_delivery d = d\<lparr>ds_interface := map_option py_strip (ds_interface d)\<rparr>"

definition delivery_ok :: "delivery_spec \<Rightarrow> bool" where
  "delivery_ok d = (case ds_interface d of None \<Rightarrow> True
     | Some i \<Rightarrow> slug i \<and> ds_mode d \<noteq> DeliverNone)"

definition strip_trigger :: "trigger_spec_write \<Rightarrow> trigger_spec_write" where
  "strip_trigger w = w\<lparr>tw_name := py_strip (tw_name w), tw_source := strip_source (tw_source w),
     tw_agent_spec := strip_ref (tw_agent_spec w), tw_instruction := py_strip (tw_instruction w),
     tw_delivery := strip_delivery (tw_delivery w),
     tw_source_key := map_option py_strip (tw_source_key w), tw_labels := strip_labels (tw_labels w)\<rparr>"

definition trigger_fields ::
  "(string \<Rightarrow> bool) \<Rightarrow> (string \<Rightarrow> string \<Rightarrow> bool) \<Rightarrow> trigger_spec_write \<Rightarrow> string list" where
  "trigger_fields zone cron w = bad ''name'' (sized 1 200 (tw_name w)) @
     bad ''source'' (source_ok zone cron (tw_source w)) @
     bad ''agent_spec'' (ref_fields (tw_agent_spec w) = []) @
     bad ''instruction'' (sized 1 200000 (tw_instruction w)) @
     bad ''delivery'' (delivery_ok (tw_delivery w)) @
     bad ''source_key'' (case tw_source_key w of None \<Rightarrow> True | Some k \<Rightarrow> sized 1 300 k) @
     bad ''source_revision'' (case tw_source_revision w of None \<Rightarrow> True | Some n \<Rightarrow> 1 \<le> n) @
     bad ''labels'' (labels_ok (tw_labels w))"

definition validate_exposure :: "trigger_spec_write \<Rightarrow> string option" where
  "validate_exposure w =
     (if tw_exposure w = ExternalSpec then
        case tw_source w of
          EventTrigger _ _ au \<Rightarrow> if au \<noteq> Required
            then Some ''external event triggers require authentication'' else None
        | _ \<Rightarrow> Some ''external triggers must be authenticated event triggers''
      else None)"

definition TriggerSpecWrite ::
  "(string \<Rightarrow> bool) \<Rightarrow> (string \<Rightarrow> string \<Rightarrow> bool) \<Rightarrow> trigger_spec_write \<Rightarrow>
   validation_error + trigger_spec_write" where
  "TriggerSpecWrite zone cron = construct strip_trigger (trigger_fields zone cron) validate_exposure"

lemma strip_source_idem [simp]: "strip_source (strip_source s) = strip_source s"
  by (cases s) auto

lemma strip_trigger_idem [simp]: "strip_trigger (strip_trigger w) = strip_trigger w"
  by (simp add: strip_trigger_def strip_delivery_def option.map_comp comp_def)

section \<open>Immutable revisions\<close>

text \<open>
  \<open>AgentSpec\<close> and \<open>TriggerSpec\<close> extend a write by the same six fields; \<open>created_at\<close> is an aware
  instant. The digest is stripped like every string.
\<close>

record 'w revision =
  rv_payload :: 'w
  rv_tenant_id :: string
  rv_id :: string
  rv_revision :: int
  rv_content_digest :: string
  rv_created_at :: timestamp
  rv_created_by :: string

definition strip_revision :: "('w \<Rightarrow> 'w) \<Rightarrow> 'w revision \<Rightarrow> 'w revision" where
  "strip_revision norm r = r\<lparr>rv_payload := norm (rv_payload r),
     rv_tenant_id := py_strip (rv_tenant_id r), rv_id := py_strip (rv_id r),
     rv_content_digest := py_strip (rv_content_digest r), rv_created_by := py_strip (rv_created_by r)\<rparr>"

definition revision_fields :: "('w \<Rightarrow> string list) \<Rightarrow> 'w revision \<Rightarrow> string list" where
  "revision_fields flds r = flds (rv_payload r) @ bad ''tenant_id'' (protocol_id (rv_tenant_id r)) @
     bad ''id'' (slug (rv_id r)) @ bad ''revision'' (1 \<le> rv_revision r) @
     bad ''content_digest'' (hex_digest (rv_content_digest r)) @
     bad ''created_by'' (protocol_id (rv_created_by r))"

definition spec_model ::
  "('w \<Rightarrow> 'w) \<Rightarrow> ('w \<Rightarrow> string list) \<Rightarrow> ('w \<Rightarrow> string option) \<Rightarrow> 'w revision \<Rightarrow>
   validation_error + 'w revision" where
  "spec_model norm flds validate =
     construct (strip_revision norm) (revision_fields flds) (\<lambda>r. validate (rv_payload r))"

definition AgentSpec :: "agent_spec_write revision \<Rightarrow> validation_error + agent_spec_write revision" where
  "AgentSpec = spec_model strip_agent agent_fields validate_isolation"

definition TriggerSpec ::
  "(string \<Rightarrow> bool) \<Rightarrow> (string \<Rightarrow> string \<Rightarrow> bool) \<Rightarrow> trigger_spec_write revision \<Rightarrow>
   validation_error + trigger_spec_write revision" where
  "TriggerSpec zone cron = spec_model strip_trigger (trigger_fields zone cron) validate_exposure"

definition spec_ref :: "'w revision \<Rightarrow> agent_ref" where
  "spec_ref s = \<lparr>ref_tenant_id = rv_tenant_id s, ref_spec_id = rv_id s, ref_revision = rv_revision s\<rparr>"

section \<open>Runs\<close>

datatype trust_class = TrustOwner | TrustBackground | TrustExternal

record origin_ref =
  or_interface :: string
  or_source_id :: string
  or_conversation_id :: "string option"
  or_message_id :: "string option"

record run_binding =
  rb_agent_spec :: agent_ref
  rb_run_kind :: string
  rb_trust_class :: trust_class

record run_context =
  rc_tenant_id :: string
  rc_actor_id :: string
  rc_thread_id :: string
  rc_channel :: string
  rc_run_kind :: string
  rc_correlation_id :: string
  rc_origin :: origin_ref
  rc_agent_spec :: agent_ref
  rc_trust_class :: trust_class

record run_submission =
  rs_submission_id :: string
  rs_agent_spec :: agent_ref
  rs_context :: run_context
  rs_text :: string
  rs_file_ids :: "string list"
  rs_idempotency_key :: string
  rs_submitted_at :: py_datetime

definition strip_origin :: "origin_ref \<Rightarrow> origin_ref" where
  "strip_origin r = \<lparr>or_interface = py_strip (or_interface r), or_source_id = py_strip (or_source_id r),
     or_conversation_id = map_option py_strip (or_conversation_id r),
     or_message_id = map_option py_strip (or_message_id r)\<rparr>"

definition origin_fields :: "origin_ref \<Rightarrow> string list" where
  "origin_fields r = bad ''interface'' (slug (or_interface r)) @
     bad ''source_id'' (protocol_id (or_source_id r)) @
     bad ''conversation_id'' (case or_conversation_id r of None \<Rightarrow> True | Some i \<Rightarrow> protocol_id i) @
     bad ''message_id'' (case or_message_id r of None \<Rightarrow> True | Some i \<Rightarrow> protocol_id i)"

definition strip_binding :: "run_binding \<Rightarrow> run_binding" where
  "strip_binding b = b\<lparr>rb_agent_spec := strip_ref (rb_agent_spec b), rb_run_kind := py_strip (rb_run_kind b)\<rparr>"

definition binding_fields :: "run_binding \<Rightarrow> string list" where
  "binding_fields b = bad ''agent_spec'' (ref_fields (rb_agent_spec b) = []) @
     bad ''run_kind'' (slug (rb_run_kind b))"

definition validate_authority_shape :: "run_binding \<Rightarrow> string option" where
  "validate_authority_shape b =
     (if (rb_trust_class b = TrustOwner) \<noteq> (rb_run_kind b = ''owner'')
      then Some ''owner run kind and owner trust must be granted together''
      else if rb_trust_class b \<noteq> TrustOwner \<and> ref_spec_id (rb_agent_spec b) = ''owner''
      then Some ''restricted bindings cannot reference the owner AgentSpec''
      else None)"

definition AgentRunBinding :: "run_binding \<Rightarrow> validation_error + run_binding" where
  "AgentRunBinding = construct strip_binding binding_fields validate_authority_shape"

definition strip_context :: "run_context \<Rightarrow> run_context" where
  "strip_context c = \<lparr>rc_tenant_id = py_strip (rc_tenant_id c), rc_actor_id = py_strip (rc_actor_id c),
     rc_thread_id = py_strip (rc_thread_id c), rc_channel = py_strip (rc_channel c),
     rc_run_kind = py_strip (rc_run_kind c), rc_correlation_id = py_strip (rc_correlation_id c),
     rc_origin = strip_origin (rc_origin c), rc_agent_spec = strip_ref (rc_agent_spec c),
     rc_trust_class = rc_trust_class c\<rparr>"

definition context_fields :: "run_context \<Rightarrow> string list" where
  "context_fields c = bad ''tenant_id'' (protocol_id (rc_tenant_id c)) @
     bad ''actor_id'' (protocol_id (rc_actor_id c)) @ bad ''thread_id'' (thread_id (rc_thread_id c)) @
     bad ''channel'' (slug (rc_channel c)) @ bad ''run_kind'' (slug (rc_run_kind c)) @
     bad ''correlation_id'' (thread_id (rc_correlation_id c)) @
     bad ''origin'' (origin_fields (rc_origin c) = []) @
     bad ''agent_spec'' (ref_fields (rc_agent_spec c) = [])"

definition validate_agent_spec_tenant :: "run_context \<Rightarrow> string option" where
  "validate_agent_spec_tenant c = (if ref_tenant_id (rc_agent_spec c) \<noteq> rc_tenant_id c
     then Some ''agent_spec and context must belong to the same tenant'' else None)"

definition AgentRunContext :: "run_context \<Rightarrow> validation_error + run_context" where
  "AgentRunContext = construct strip_context context_fields validate_agent_spec_tenant"

text \<open>A nested model with an error makes its own field fail.\<close>

definition strip_submission :: "run_submission \<Rightarrow> run_submission" where
  "strip_submission s = s\<lparr>rs_submission_id := py_strip (rs_submission_id s),
     rs_agent_spec := strip_ref (rs_agent_spec s), rs_context := strip_context (rs_context s),
     rs_text := py_strip (rs_text s), rs_file_ids := map py_strip (rs_file_ids s),
     rs_idempotency_key := py_strip (rs_idempotency_key s)\<rparr>"

definition submission_fields :: "run_submission \<Rightarrow> string list" where
  "submission_fields s = bad ''submission_id'' (protocol_id (rs_submission_id s)) @
     bad ''agent_spec'' (ref_fields (rs_agent_spec s) = []) @
     bad ''context'' (context_fields (rs_context s) = [] \<and> validate_agent_spec_tenant (rs_context s) = None) @
     bad ''text'' (sized 1 200000 (rs_text s)) @
     bad ''file_ids'' (sized 0 100 (rs_file_ids s) \<and> list_all protocol_id (rs_file_ids s)) @
     bad ''idempotency_key'' (protocol_id (rs_idempotency_key s)) @
     bad ''submitted_at'' (case rs_submitted_at s of Aware _ \<Rightarrow> True | Naive _ \<Rightarrow> False)"

definition validate_tenant_boundary :: "run_submission \<Rightarrow> string option" where
  "validate_tenant_boundary s =
     (if rs_agent_spec s \<noteq> rc_agent_spec (rs_context s)
      then Some ''submission and context must use the same agent_spec revision''
      else if length (rs_file_ids s) \<noteq> card (set (rs_file_ids s)) then Some ''file_ids must be unique''
      else None)"

definition RunSubmission :: "run_submission \<Rightarrow> validation_error + run_submission" where
  "RunSubmission = construct strip_submission submission_fields validate_tenant_boundary"

section \<open>Seed specifications\<close>

definition blank_agent :: agent_spec_write where
  "blank_agent = \<lparr>aw_name = [], aw_description = [], aw_runtime_profile = ''custom'',
     aw_model_alias = ''default'', aw_instructions = [], aw_isolation = PrivateSpec,
     aw_tool_policy = Allowlist, aw_tools = [], aw_memory_scope = MemorySpec,
     aw_workspace_scope = NoWorkspace, aw_allow_delegation = False, aw_max_runtime_seconds = 900,
     aw_max_model_calls = 100, aw_output_schema = None, aw_labels = []\<rparr>"

definition release_repair_tools :: "string list" where
  "release_repair_tools = [''source_status'', ''source_read'', ''source_write'', ''source_edit'',
     ''source_bash'', ''source_activate'']"

definition default_owner :: agent_spec_write where
  "default_owner = blank_agent\<lparr>aw_name := ''Owner'', aw_description := ''Default private owner agent.'',
     aw_runtime_profile := ''owner'',
     aw_instructions := ''Help the owner accomplish their request safely and directly.'',
     aw_tool_policy := ProfileDefault, aw_memory_scope := MemoryOwner, aw_workspace_scope := ReadWrite,
     aw_allow_delegation := True, aw_max_runtime_seconds := 7200, aw_max_model_calls := 500\<rparr>"

definition default_release_repair :: agent_spec_write where
  "default_release_repair = blank_agent\<lparr>aw_name := ''Release Repair'',
     aw_description := ''Restricted automatic repair for rejected OpenTulpa releases.'',
     aw_runtime_profile := ''owner'',
     aw_instructions := ''Verify release-review blockers, repair source, test, and reactivate once.'',
     aw_tools := release_repair_tools, aw_memory_scope := MemoryNone,
     aw_max_runtime_seconds := 7200, aw_max_model_calls := 500\<rparr>"

definition default_routine :: agent_spec_write where
  "default_routine = blank_agent\<lparr>aw_name := ''Routine'',
     aw_description := ''Default private agent for scheduled owner work.'', aw_runtime_profile := ''routine'',
     aw_instructions := ''Execute the scheduled instruction and report the result to the owner.'',
     aw_tool_policy := ProfileDefault, aw_memory_scope := MemoryOwner, aw_workspace_scope := ReadOnly\<rparr>"

definition default_intake :: agent_spec_write where
  "default_intake = blank_agent\<lparr>aw_name := ''Intake'',
     aw_description := ''Isolated externally triggered intake decision agent.'', aw_runtime_profile := ''intake'',
     aw_instructions := ''Return a grounded intake decision using only published knowledge.'',
     aw_isolation := ExternalSpec, aw_tools := [''knowledge_list'', ''knowledge_find'', ''knowledge_query''],
     aw_memory_scope := MemoryNone\<rparr>"

definition default_agent_spec_writes :: "(string \<times> agent_spec_write) list" where
  "default_agent_spec_writes = [(''owner'', default_owner), (''release-repair'', default_release_repair),
     (''routine'', default_routine), (''intake'', default_intake)]"

lemma default_writes_construct: "list_all (\<lambda>(i, w). slug i \<and> AgentSpecWrite w = Inr w) default_agent_spec_writes"
  by code_simp

lemma default_writes_again: "(i, w) \<in> set default_agent_spec_writes \<Longrightarrow> AgentSpecWrite w = Inr w"
  using default_writes_construct by (auto simp: list_all_iff)

section \<open>Properties\<close>

lemma unsafe_parts_none:
  "unsafe_parts w = [] \<longleftrightarrow> aw_memory_scope w = MemoryNone \<and> aw_workspace_scope w = NoWorkspace \<and>
     \<not> aw_allow_delegation w \<and> aw_tool_policy w = Allowlist \<and> set (aw_tools w) \<subseteq> set external_agent_tools"
proof -
  have "sort (remdups xs) = [] \<longleftrightarrow> xs = []" for xs :: "string list"
    by (metis length_0_conv length_sort remdups_eq_nil_iff)
  then show ?thesis by (auto simp: unsafe_parts_def Let_def filter_empty_conv)
qed

lemma validate_isolationD:
  assumes "validate_isolation w = None"
  shows "distinct (aw_tools w) \<and> (aw_isolation w = ExternalSpec \<longrightarrow> unsafe_parts w = [])"
proof -
  have "length (aw_tools w) = card (set (aw_tools w))" "\<not> (aw_isolation w = ExternalSpec \<and> unsafe_parts w \<noteq> [])"
    using assms by (simp_all add: validate_isolation_def split: if_split_asm)
  then show ?thesis by (simp add: card_distinct)
qed

lemma validate_tenant_boundaryD:
  assumes "validate_tenant_boundary s = None"
  shows "rs_agent_spec s = rc_agent_spec (rs_context s) \<and> distinct (rs_file_ids s)"
proof -
  have "length (rs_file_ids s) = card (set (rs_file_ids s))" "rs_agent_spec s = rc_agent_spec (rs_context s)"
    using assms by (simp_all add: validate_tenant_boundary_def split: if_split_asm)
  then show ?thesis by (simp add: card_distinct)
qed

text \<open>
  Whatever a caller submits, an accepted specification that is reachable from outside the tenant
  has no memory, no workspace, no delegation and an explicit allowlist of knowledge tools; and an
  accepted trigger exposed to the outside is an event trigger with required authentication.
\<close>

theorem external_specs_are_isolated:
  assumes "AgentSpecWrite w = Inr a" "aw_isolation a = ExternalSpec"
    and "TriggerSpecWrite zone cron v = Inr g" "tw_exposure g = ExternalSpec"
  shows "aw_memory_scope a = MemoryNone \<and> aw_workspace_scope a = NoWorkspace \<and> \<not> aw_allow_delegation a \<and>
    aw_tool_policy a = Allowlist \<and> distinct (aw_tools a) \<and> set (aw_tools a) \<subseteq> set external_agent_tools \<and>
    (\<exists>ty src. tw_source g = EventTrigger ty src Required \<and> slug ty \<and> slug src)"
proof -
  have a: "validate_isolation a = None" using constructD [OF assms(1) [unfolded AgentSpecWrite_def]] by blast+
  then have "unsafe_parts a = []" "distinct (aw_tools a)"
    using assms(2) validate_isolationD [OF a] by simp_all
  moreover have g: "trigger_fields zone cron g = []" "validate_exposure g = None"
    using constructD [OF assms(3) [unfolded TriggerSpecWrite_def]] by blast+
  then have "\<exists>ty src. tw_source g = EventTrigger ty src Required \<and> slug ty \<and> slug src"
    using assms(4)
    by (cases "tw_source g") (auto simp: validate_exposure_def trigger_fields_def split: if_splits)
  ultimately show ?thesis unfolding unsafe_parts_none by blast
qed

definition example_trigger :: trigger_spec_write where
  "example_trigger = \<lparr>tw_name = ''Intake'', tw_source = EventTrigger ''message'' ''telegram'' Required,
     tw_exposure = ExternalSpec,
     tw_agent_spec = \<lparr>ref_tenant_id = ''t'', ref_spec_id = ''intake'', ref_revision = 1\<rparr>,
     tw_instruction = ''Decide'', tw_delivery = \<lparr>ds_mode = DeliverOwner, ds_interface = None\<rparr>,
     tw_enabled = True, tw_source_key = None, tw_source_revision = None, tw_labels = []\<rparr>"

theorem external_specs_are_isolated_witness:
  "set (aw_tools default_intake) \<subseteq> set external_agent_tools \<and> \<not> aw_allow_delegation default_intake"
proof -
  have a: "AgentSpecWrite default_intake = Inr default_intake" by code_simp
  have i: "aw_isolation default_intake = ExternalSpec" by code_simp
  have g: "TriggerSpecWrite (\<lambda>_. True) (\<lambda>_ _. True) example_trigger = Inr example_trigger" by code_simp
  have e: "tw_exposure example_trigger = ExternalSpec" by code_simp
  from external_specs_are_isolated [OF a i g e] show ?thesis by blast
qed

text \<open>
  The tenant and authority boundary of a run: an accepted binding carries owner trust exactly
  when it is the owner run kind and never reaches the owner specification otherwise, and an accepted
  submission names one specification revision of the context's own tenant and each file once.
\<close>

theorem accepted_runs_stay_in_bounds:
  assumes "AgentRunBinding b = Inr b'" "RunSubmission s = Inr s'"
  shows "(rb_trust_class b' = TrustOwner \<longleftrightarrow> rb_run_kind b' = ''owner'') \<and>
    (ref_spec_id (rb_agent_spec b') = ''owner'' \<longrightarrow> rb_run_kind b' = ''owner'') \<and>
    rs_agent_spec s' = rc_agent_spec (rs_context s') \<and>
    ref_tenant_id (rs_agent_spec s') = rc_tenant_id (rs_context s') \<and>
    1 \<le> ref_revision (rs_agent_spec s') \<and> distinct (rs_file_ids s') \<and> length (rs_file_ids s') \<le> 100"
proof -
  have b: "validate_authority_shape b' = None"
    using constructD [OF assms(1) [unfolded AgentRunBinding_def]] by blast+
  have s: "submission_fields s' = []" "validate_tenant_boundary s' = None"
    using constructD [OF assms(2) [unfolded RunSubmission_def]] by blast+
  have "distinct (rs_file_ids s')" "rs_agent_spec s' = rc_agent_spec (rs_context s')"
    using validate_tenant_boundaryD [OF s(2)] by simp_all
  moreover have "validate_agent_spec_tenant (rs_context s') = None" "length (rs_file_ids s') \<le> 100"
    "ref_fields (rs_agent_spec s') = []"
    using s(1) by (simp_all add: submission_fields_def sized_def)
  ultimately show ?thesis using b
    by (auto simp: validate_authority_shape_def validate_agent_spec_tenant_def ref_fields_def split: if_splits)
qed

definition example_submission :: run_submission where
  "example_submission = (let ref = \<lparr>ref_tenant_id = '' t '', ref_spec_id = ''routine'', ref_revision = 2\<rparr> in
     \<lparr>rs_submission_id = ''s1'', rs_agent_spec = ref,
      rs_context = \<lparr>rc_tenant_id = ''t'', rc_actor_id = ''a'', rc_thread_id = ''th'', rc_channel = ''web'',
        rc_run_kind = ''routine'', rc_correlation_id = ''c'',
        rc_origin = \<lparr>or_interface = ''web'', or_source_id = ''x'', or_conversation_id = None, or_message_id = None\<rparr>,
        rc_agent_spec = ref, rc_trust_class = TrustBackground\<rparr>,
      rs_text = ''hello'', rs_file_ids = [''f1'', ''f2''], rs_idempotency_key = ''k'',
      rs_submitted_at = Aware (At 5)\<rparr>)"

theorem accepted_runs_stay_in_bounds_witness:
  "distinct (rs_file_ids (strip_submission example_submission))"
proof -
  define b where "b = \<lparr>rb_agent_spec = rs_agent_spec example_submission, rb_run_kind = ''routine'',
    rb_trust_class = TrustBackground\<rparr>"
  have b: "AgentRunBinding b = Inr (strip_binding b)" unfolding b_def by code_simp
  have s: "RunSubmission example_submission = Inr (strip_submission example_submission)" by code_simp
  from accepted_runs_stay_in_bounds [OF b s] show ?thesis by blast
qed

end
