(* ===== verification/RevisionStore.thy ===== *)
theory RevisionStore
  imports SpecModels
begin

text \<open>
  \<^verbatim>\<open>specs/store.py\<close>: the two tables of a revision store, the immutable revisions and the active
  references. \<open>AgentSpecStore\<close> and \<open>TriggerSpecStore\<close> run the same statements on tables of the same
  shape; they differ in the noun of their messages and in the pydantic class a row is read back
  through. So each statement sequence is one definition with the parameters \<open>noun\<close> and \<open>mk\<close> (the
  class), \<^verbatim>\<open>SpecStore.thy\<close> gives the two classes. A transaction is one step; every read validates
  the row again (\<open>mk\<close>), so a read can raise as it can in the code. The digest of the canonical
  payload (SHA-256 in hex) is an argument, and so is the clock.

  The locale \<open>revision_rows\<close> is what the stores rely on from a row class; its lemmas are the laws
  of the store, proved once for both.
\<close>

section \<open>Data\<close>

datatype spec_error =
    ValidationError validation_error
  | SpecValueError string
  | SpecConflictError string
  | SpecNotFoundRef agent_ref
  | SpecNotFoundId string
  | SpecIntegrityError
  | ActivationRejected string

definition model_error :: "validation_error + 'a \<Rightarrow> spec_error + 'a" where
  "model_error x = (case x of Inl e \<Rightarrow> Inl (ValidationError e) | Inr y \<Rightarrow> Inr y)"

record active_ref =
  ar_tenant_id :: string
  ar_id :: string
  ar_revision :: int
  ar_updated_at :: timestamp
  ar_updated_by :: string

record 'w rev_db =
  revisions :: "'w revision list"
  active_refs :: "active_ref list"

type_synonym 'w row_class = "'w revision \<Rightarrow> spec_error + 'w revision"

definition empty_rev_db :: "'w rev_db" where
  "empty_rev_db = \<lparr>revisions = [], active_refs = []\<rparr>"

definition rows :: "'w rev_db \<Rightarrow> string \<Rightarrow> string \<Rightarrow> 'w revision list" where
  "rows db t i = filter (\<lambda>r. rv_tenant_id r = t \<and> rv_id r = i) (revisions db)"

definition row_at :: "'w rev_db \<Rightarrow> string \<Rightarrow> string \<Rightarrow> int \<Rightarrow> 'w revision option" where
  "row_at db t i n = sel (\<lambda>r. rv_tenant_id r = t \<and> rv_id r = i \<and> rv_revision r = n) (revisions db)"

definition active_row :: "'w rev_db \<Rightarrow> string \<Rightarrow> string \<Rightarrow> active_ref option" where
  "active_row db t i = sel (\<lambda>a. ar_tenant_id a = t \<and> ar_id a = i) (active_refs db)"

fun show_opt :: "int option \<Rightarrow> string" where
  "show_opt None = ''None''"
| "show_opt (Some n) = str_int n"

section \<open>Reading rows\<close>

definition read_opt :: "'w row_class \<Rightarrow> 'w revision option \<Rightarrow> spec_error + 'w revision option" where
  "read_opt mk r = (case r of None \<Rightarrow> Inr None
     | Some x \<Rightarrow> (case mk x of Inl e \<Rightarrow> Inl e | Inr s \<Rightarrow> Inr (Some s)))"

fun read_all :: "'w row_class \<Rightarrow> 'w revision list \<Rightarrow> spec_error + 'w revision list" where
  "read_all mk [] = Inr []"
| "read_all mk (r # rs) = (case mk r of Inl e \<Rightarrow> Inl e
     | Inr s \<Rightarrow> (case read_all mk rs of Inl e \<Rightarrow> Inl e | Inr ss \<Rightarrow> Inr (s # ss)))"

definition get_revision_row ::
  "'w row_class \<Rightarrow> string \<Rightarrow> string \<Rightarrow> int \<Rightarrow> 'w rev_db \<Rightarrow> spec_error + 'w revision option" where
  "get_revision_row mk t i n db = read_opt mk (row_at db t i n)"

definition latest_row :: "'w rev_db \<Rightarrow> string \<Rightarrow> string \<Rightarrow> 'w revision option" where
  "latest_row db t i = top_by rv_revision (rows db t i)"

definition get_latest_row ::
  "'w row_class \<Rightarrow> string \<Rightarrow> string \<Rightarrow> 'w rev_db \<Rightarrow> spec_error + 'w revision option" where
  "get_latest_row mk t i db = read_opt mk (latest_row db t i)"

definition get_active_number :: "string \<Rightarrow> string \<Rightarrow> 'w rev_db \<Rightarrow> int option" where
  "get_active_number t i db = map_option ar_revision (active_row db t i)"

definition get_active_row ::
  "'w row_class \<Rightarrow> string \<Rightarrow> string \<Rightarrow> 'w rev_db \<Rightarrow> spec_error + 'w revision option" where
  "get_active_row mk t i db = (case active_row db t i of None \<Rightarrow> Inr None
     | Some a \<Rightarrow> read_opt mk (row_at db t i (ar_revision a)))"

definition active_join :: "string \<Rightarrow> 'w rev_db \<Rightarrow> 'w revision list" where
  "active_join t db = concat (map (\<lambda>a. filter (\<lambda>r. rv_tenant_id r = ar_tenant_id a \<and> rv_id r = ar_id a \<and>
       rv_revision r = ar_revision a) (revisions db)) (filter (\<lambda>a. ar_tenant_id a = t) (active_refs db)))"

definition list_active_rows :: "'w row_class \<Rightarrow> string \<Rightarrow> 'w rev_db \<Rightarrow> spec_error + 'w revision list" where
  "list_active_rows mk t db = read_all mk (sort_key rv_id (active_join t db))"

definition list_latest_rows :: "'w row_class \<Rightarrow> string \<Rightarrow> 'w rev_db \<Rightarrow> spec_error + 'w revision list" where
  "list_latest_rows mk t db = read_all mk (sort_key rv_id
     (filter (\<lambda>r. rv_tenant_id r = t \<and>
        map_option rv_revision (latest_row db t (rv_id r)) = Some (rv_revision r)) (revisions db)))"

definition list_revision_rows ::
  "'w row_class \<Rightarrow> string \<Rightarrow> string \<Rightarrow> 'w rev_db \<Rightarrow> spec_error + 'w revision list" where
  "list_revision_rows mk t i db = read_all mk (sort_key (\<lambda>r. - rv_revision r) (rows db t i))"

definition previous_revision_row ::
  "'w row_class \<Rightarrow> string \<Rightarrow> string \<Rightarrow> int \<Rightarrow> 'w rev_db \<Rightarrow> spec_error + 'w revision option" where
  "previous_revision_row mk t i before db =
     read_opt mk (top_by rv_revision (filter (\<lambda>r. rv_revision r < before) (rows db t i)))"

section \<open>Writing\<close>

definition new_row :: "string \<Rightarrow> string \<Rightarrow> int \<Rightarrow> 'w \<Rightarrow> string \<Rightarrow> timestamp \<Rightarrow> string \<Rightarrow> 'w revision" where
  "new_row t i n w d now by = \<lparr>rv_payload = w, rv_tenant_id = t, rv_id = i, rv_revision = n,
     rv_content_digest = d, rv_created_at = now, rv_created_by = by\<rparr>"

definition insert_revision ::
  "'w row_class \<Rightarrow> 'w revision \<Rightarrow> ('w rev_db, spec_error, 'w revision) oper" where
  "insert_revision mk r db = (case mk r of Inl e \<Rightarrow> raises e db
     | Inr s \<Rightarrow> if row_at db (rv_tenant_id s) (rv_id s) (rv_revision s) \<noteq> None then raises SpecIntegrityError db
       else ok s (db\<lparr>revisions := revisions db @ [s\<lparr>rv_payload := rv_payload r\<rparr>]\<rparr>))"

definition create_revision_row ::
  "string \<Rightarrow> 'w row_class \<Rightarrow> string \<Rightarrow> string \<Rightarrow> 'w \<Rightarrow> string \<Rightarrow> timestamp \<Rightarrow> int option \<Rightarrow> string \<Rightarrow>
   ('w rev_db, spec_error, 'w revision) oper" where
  "create_revision_row noun mk t i w d now expected by db =
     (case latest_row db t i of
        None \<Rightarrow>
          if expected \<noteq> None
          then raises (SpecConflictError (noun @ '' does not exist at the expected revision'')) db
          else insert_revision mk (new_row t i 1 w d now by) db
      | Some latest \<Rightarrow> (case mk latest of Inl e \<Rightarrow> raises e db
          | Inr current \<Rightarrow>
              if rv_content_digest current = d then ok current db
              else if expected \<noteq> Some (rv_revision current)
              then raises (SpecConflictError (noun @ '' revision is '' @ str_int (rv_revision current) @
                '', expected '' @ show_opt expected)) db
              else insert_revision mk (new_row t i (rv_revision current + 1) w d now by) db))"

definition activate_row ::
  "string \<Rightarrow> spec_error \<Rightarrow> ('w revision \<Rightarrow> spec_error + 'x) \<Rightarrow> string \<Rightarrow> string \<Rightarrow> int \<Rightarrow> int option \<Rightarrow> timestamp \<Rightarrow>
   string \<Rightarrow> ('w rev_db, spec_error, 'x) oper" where
  "activate_row noun missing rd t i n expected now by db =
     (case row_at db t i n of None \<Rightarrow> raises missing db
      | Some target_row \<Rightarrow> (case rd target_row of Inl e \<Rightarrow> raises e db
          | Inr target \<Rightarrow> (case active_row db t i of
              None \<Rightarrow>
                if expected \<noteq> None then raises (SpecConflictError (noun @ '' has no active revision'')) db
                else ok target (db\<lparr>active_refs := active_refs db @ [\<lparr>ar_tenant_id = t, ar_id = i,
                  ar_revision = n, ar_updated_at = now, ar_updated_by = by\<rparr>]\<rparr>)
            | Some a \<Rightarrow> let current = ar_revision a in
                if current = n then ok target db
                else if expected \<noteq> Some current
                then raises (SpecConflictError (''active '' @ noun @ '' revision is '' @ str_int current @
                  '', expected '' @ show_opt expected)) db
                else let hit = (\<lambda>a. ar_tenant_id a = t \<and> ar_id a = i \<and> ar_revision a = current) in
                  if length (filter hit (active_refs db)) \<noteq> 1
                  then raises (SpecConflictError (''active '' @ noun @ '' changed during activation'')) db
                  else ok target (db\<lparr>active_refs := upd hit (\<lambda>a. a\<lparr>ar_revision := n, ar_updated_at := now,
                    ar_updated_by := by\<rparr>) (active_refs db)\<rparr>))))"

definition deactivate_row :: "string \<Rightarrow> string \<Rightarrow> string \<Rightarrow> int \<Rightarrow> ('w rev_db, spec_error, int) oper" where
  "deactivate_row noun t i expected db =
     (case active_row db t i of None \<Rightarrow> raises (SpecNotFoundId i) db
      | Some a \<Rightarrow> let current = ar_revision a in
          if current \<noteq> expected
          then raises (SpecConflictError (''active '' @ noun @ '' revision is '' @ str_int current @
            '', expected '' @ str_int expected)) db
          else let hit = (\<lambda>a. ar_tenant_id a = t \<and> ar_id a = i \<and> ar_revision a = current) in
            if length (filter hit (active_refs db)) \<noteq> 1
            then raises (SpecConflictError (''active '' @ noun @ '' changed during deactivation'')) db
            else ok current (db\<lparr>active_refs := del hit (active_refs db)\<rparr>))"

section \<open>Invariant\<close>

definition numbered :: "'w revision list \<Rightarrow> bool" where
  "numbered rs = (map rv_revision rs = map int [1..<Suc (length rs)])"

definition rev_inv :: "'w row_class \<Rightarrow> 'w rev_db \<Rightarrow> bool" where
  "rev_inv mk db = ((\<forall>r \<in> set (revisions db). mk r = Inr r) \<and> (\<forall>t i. numbered (rows db t i)) \<and>
     distinct (map (\<lambda>a. (ar_tenant_id a, ar_id a)) (active_refs db)) \<and>
     (\<forall>a \<in> set (active_refs db). row_at db (ar_tenant_id a) (ar_id a) (ar_revision a) \<noteq> None))"

lemma numbered_nth:
  assumes "numbered rs" "k < length rs"
  shows "rv_revision (rs ! k) = int k + 1"
proof -
  have "map rv_revision rs ! k = map int [1..<Suc (length rs)] ! k"
    using assms(1) by (simp add: numbered_def)
  with assms(2) show ?thesis by (simp add: nth_upt del: upt_Suc)
qed

lemma revs_numbered_snoc: "numbered rs \<Longrightarrow> rv_revision r = int (length rs) + 1 \<Longrightarrow> numbered (rs @ [r])"
  by (simp add: numbered_def)

lemma numbered_Nil [simp]: "numbered []"
  by (simp add: numbered_def)

lemma numbered_range:
  assumes "numbered rs" "r \<in> set rs"
  shows "1 \<le> rv_revision r \<and> rv_revision r \<le> int (length rs)"
proof -
  obtain k where "k < length rs" "r = rs ! k" using assms(2) by (auto simp: in_set_conv_nth)
  with numbered_nth [OF assms(1)] show ?thesis by simp
qed

lemma numbered_inj:
  assumes "numbered rs" "r \<in> set rs" "s \<in> set rs" "rv_revision r = rv_revision s"
  shows "r = s"
  using assms numbered_nth by (metis add_right_cancel in_set_conv_nth nat_int)

lemma sel_filter: "sel P (filter Q t) = sel (\<lambda>r. Q r \<and> P r) t"
  by (induction t) auto

lemma row_at_rows: "row_at db t i n = sel (\<lambda>r. rv_revision r = n) (rows db t i)"
  by (simp add: row_at_def rows_def sel_filter conj_assoc)

lemma row_at_nth:
  assumes "numbered (rows db t i)"
  shows "row_at db t i n = (if 1 \<le> n \<and> n \<le> int (length (rows db t i))
    then Some (rows db t i ! nat (n - 1)) else None)"
proof (cases "1 \<le> n \<and> n \<le> int (length (rows db t i))")
  case True
  then have k: "nat (n - 1) < length (rows db t i)" by linarith
  let ?r = "rows db t i ! nat (n - 1)"
  have r: "?r \<in> set (rows db t i)" "rv_revision ?r = n"
    using numbered_nth [OF assms k] True k by simp_all
  obtain s where s: "row_at db t i n = Some s"
    unfolding row_at_rows using r sel_cong_ex [of "rows db t i" "\<lambda>r. rv_revision r = n"] by blast
  then have "s \<in> set (rows db t i)" "rv_revision s = n"
    unfolding row_at_rows using sel_SomeD [OF s [unfolded row_at_rows]] by simp_all
  then have "s = ?r" using numbered_inj [OF assms] r by simp
  with s True show ?thesis by simp
next
  case False
  then have "row_at db t i n = None"
    unfolding row_at_rows sel_None using numbered_range [OF assms] by blast
  with False show ?thesis by simp
qed

lemma top_numbered:
  assumes "numbered rs" "rs \<noteq> []"
  shows "top_by rv_revision rs = Some (last rs) \<and> rv_revision (last rs) = int (length rs)"
proof -
  have l: "rv_revision (last rs) = int (length rs)"
    using numbered_nth [OF assms(1), of "length rs - 1"] assms(2)
    by (auto simp: last_conv_nth Suc_le_eq of_nat_diff)
  obtain r where r: "top_by rv_revision rs = Some r" using assms(2) by (cases "top_by rv_revision rs") auto
  have "rv_revision (last rs) \<le> rv_revision r" using top_by_ge [OF r] assms(2) by simp
  moreover have "r \<in> set rs" using top_by_mem [OF r] .
  moreover have "rv_revision r \<le> int (length rs)" using numbered_range [OF assms(1) calculation(2)] by simp
  ultimately have "r = last rs" using numbered_inj [OF assms(1)] l assms(2) by simp
  with r l show ?thesis by simp
qed

lemma numbered_take:
  assumes "numbered rs"
  shows "filter (\<lambda>r. rv_revision r < n) rs = take (nat (n - 1)) rs"
  using assms
proof (induction rs rule: rev_induct)
  case (snoc r rs)
  have n: "numbered rs" "rv_revision r = int (length rs) + 1"
    using snoc.prems by (simp_all add: numbered_def)
  show ?case
  proof (cases "rv_revision r < n")
    case True
    then have "length rs < nat (n - 1)" using n(2) by linarith
    with True snoc.IH [OF n(1)] show ?thesis by simp
  next
    case False
    then have "nat (n - 1) \<le> length rs" using n(2) by linarith
    with False snoc.IH [OF n(1)] show ?thesis by simp
  qed
qed simp

lemma numbered_take_numbered: "numbered rs \<Longrightarrow> numbered (take k rs)"
proof -
  assume a: "numbered rs"
  have "map rv_revision (take k rs) = take k (map rv_revision rs)" by (simp add: take_map)
  also have "\<dots> = take k (map int [1..<Suc (length rs)])" using a by (simp add: numbered_def)
  also have "\<dots> = map int [1..<Suc (length (take k rs))]"
    by (simp add: take_map take_upt min_def del: upt_Suc)
  finally show ?thesis unfolding numbered_def .
qed

lemma rev_invD:
  assumes "rev_inv mk db"
  shows "r \<in> set (revisions db) \<Longrightarrow> mk r = Inr r" "numbered (rows db t i)"
    "distinct (map (\<lambda>a. (ar_tenant_id a, ar_id a)) (active_refs db))"
    "a \<in> set (active_refs db) \<Longrightarrow> row_at db (ar_tenant_id a) (ar_id a) (ar_revision a) \<noteq> None"
  using assms by (simp_all add: rev_inv_def)

lemma rows_subset: "set (rows db t i) \<subseteq> set (revisions db)"
  by (auto simp: rows_def)

lemma rows_key: "r \<in> set (rows db t i) \<Longrightarrow> rv_tenant_id r = t \<and> rv_id r = i"
  by (simp add: rows_def)

lemma row_at_mem:
  "row_at db t i n = Some r \<Longrightarrow> r \<in> set (revisions db) \<and> rv_tenant_id r = t \<and> rv_id r = i \<and> rv_revision r = n"
  unfolding row_at_def by (drule sel_SomeD) simp

lemma active_row_mem:
  "active_row db t i = Some a \<Longrightarrow> a \<in> set (active_refs db) \<and> ar_tenant_id a = t \<and> ar_id a = i"
  unfolding active_row_def by (drule sel_SomeD) simp

lemma rows_append:
  "rows (db\<lparr>revisions := revisions db @ [r]\<rparr>) t i =
     rows db t i @ (if rv_tenant_id r = t \<and> rv_id r = i then [r] else [])"
  by (simp add: rows_def)

lemma rows_active_refs [simp]: "rows (db\<lparr>active_refs := x\<rparr>) t i = rows db t i"
  by (simp add: rows_def)

lemma row_at_active_refs [simp]: "row_at (db\<lparr>active_refs := x\<rparr>) t i n = row_at db t i n"
  by (simp add: row_at_def)

lemma row_at_mono:
  assumes "revisions db' = revisions db @ rs" "row_at db t i n = Some r"
  shows "row_at db' t i n = Some r"
  using assms by (simp add: row_at_def sel_append)

lemma latest_row_inv:
  assumes "rev_inv mk db"
  shows "latest_row db t i = (if rows db t i = [] then None else Some (last (rows db t i)))"
  using top_numbered [OF rev_invD(2) [OF assms], of t i] by (auto simp: latest_row_def)

lemma last_row_number:
  assumes "rev_inv mk db" "rows db t i \<noteq> []"
  shows "rv_revision (last (rows db t i)) = int (length (rows db t i))"
  using top_numbered [OF rev_invD(2) [OF assms(1)] assms(2)] by simp

lemma read_opt_inv:
  assumes "rev_inv mk db" "\<And>x. r = Some x \<Longrightarrow> x \<in> set (revisions db)"
  shows "read_opt mk r = Inr r"
  using assms(2) by (cases r) (auto simp: read_opt_def rev_invD(1) [OF assms(1)])

lemma read_all_inv:
  assumes "rev_inv mk db" "set rs \<subseteq> set (revisions db)"
  shows "read_all mk rs = Inr rs"
  using assms(2) by (induction rs) (auto simp: rev_invD(1) [OF assms(1)])

section \<open>Laws of the store\<close>

text \<open>The only way the revision table changes: the next number under its key is appended.\<close>

definition appended :: "'w row_class \<Rightarrow> 'w rev_db \<Rightarrow> 'w revision \<Rightarrow> 'w rev_db \<Rightarrow> bool" where
  "appended mk db s db' = (mk s = Inr s \<and> db' = db\<lparr>revisions := revisions db @ [s]\<rparr> \<and>
     rv_revision s = int (length (rows db (rv_tenant_id s) (rv_id s))) + 1)"

locale revision_rows =
  fixes mk :: "'w row_class"
    and norm :: "'w \<Rightarrow> 'w"
  assumes mk_again: "mk r = Inr s \<Longrightarrow> mk s = Inr s"
    and mk_shape: "mk r = Inr s \<Longrightarrow> s = strip_revision norm r"
begin

lemma mk_key:
  assumes "mk r = Inr s"
  shows "rv_tenant_id s = py_strip (rv_tenant_id r)" "rv_id s = py_strip (rv_id r)"
    "rv_revision s = rv_revision r" "rv_payload s = norm (rv_payload r)"
    "rv_content_digest s = py_strip (rv_content_digest r)"
  using mk_shape [OF assms] by (simp_all add: strip_revision_def)

lemma stored_key:
  assumes "rev_inv mk db" "rows db t i \<noteq> []"
  shows "py_strip t = t" "py_strip i = i"
proof -
  have l: "last (rows db t i) \<in> set (rows db t i)" using assms(2) by simp
  have "mk (last (rows db t i)) = Inr (last (rows db t i))"
    using rev_invD(1) [OF assms(1)] rows_subset l by blast
  from mk_key(1,2) [OF this] rows_key [OF l] show "py_strip t = t" "py_strip i = i" by simp_all
qed

lemma next_row_inv:
  assumes "rev_inv mk db" "appended mk db s db'"
  shows "rev_inv mk db'"
proof -
  have db': "db' = db\<lparr>revisions := revisions db @ [s]\<rparr>" and s: "mk s = Inr s"
    and n: "rv_revision s = int (length (rows db (rv_tenant_id s) (rv_id s))) + 1"
    using assms(2) by (simp_all add: appended_def)
  have "numbered (rows db' t i)" for t i
    unfolding db' rows_append using rev_invD(2) [OF assms(1)] revs_numbered_snoc n by auto
  moreover have "row_at db' (ar_tenant_id a) (ar_id a) (ar_revision a) \<noteq> None"
    if "a \<in> set (active_refs db)" for a
    using row_at_mono [of db' db "[s]"] rev_invD(4) [OF assms(1) that] db' by fastforce
  ultimately show ?thesis
    unfolding rev_inv_def using rev_invD(1,3) [OF assms(1)] s db' by simp
qed

lemma insert_revision_appends:
  assumes "rev_inv mk db" "norm (rv_payload r) = rv_payload r" "insert_revision mk r db = (x, db')"
    "rv_revision r = 1 \<or> rows db (rv_tenant_id r) (rv_id r) \<noteq> [] \<and>
       rv_revision r = int (length (rows db (rv_tenant_id r) (rv_id r))) + 1"
  shows "(\<exists>e. x = Inl e \<and> db' = db) \<or> (\<exists>s. x = Inr s \<and> mk r = Inr s \<and> appended mk db s db')"
proof (cases "mk r")
  case (Inl e)
  with assms(3) [symmetric] show ?thesis by (simp add: insert_revision_def)
next
  case (Inr s)
  note k = mk_key [OF Inr]
  have s: "s\<lparr>rv_payload := rv_payload r\<rparr> = s" using k(4) assms(2) by simp
  show ?thesis
  proof (cases "row_at db (rv_tenant_id s) (rv_id s) (rv_revision s)")
    case None
    have "rv_revision s = int (length (rows db (rv_tenant_id s) (rv_id s))) + 1"
      using assms(4)
    proof
      assume "rv_revision r = 1"
      then have "rows db (rv_tenant_id s) (rv_id s) = []"
        using None k(3) row_at_nth [OF rev_invD(2) [OF assms(1)], of "rv_tenant_id s" "rv_id s" 1]
        by (auto split: if_splits simp: Suc_le_eq)
      with \<open>rv_revision r = 1\<close> k(3) show ?thesis by simp
    next
      assume "rows db (rv_tenant_id r) (rv_id r) \<noteq> [] \<and>
        rv_revision r = int (length (rows db (rv_tenant_id r) (rv_id r))) + 1"
      with stored_key [OF assms(1)] k(1-3) show ?thesis by metis
    qed
    moreover have "x = Inr s \<and> db' = db\<lparr>revisions := revisions db @ [s]\<rparr>"
      using assms(3) Inr None s by (simp add: insert_revision_def)
    ultimately show ?thesis using mk_again [OF Inr] Inr by (simp add: appended_def)
  next
    case (Some y)
    with assms(3) [symmetric] Inr show ?thesis by (simp add: insert_revision_def)
  qed
qed

lemma append_row_law:
  assumes inv: "rev_inv mk db" and w: "norm w = w"
    and c: "create_revision_row noun mk t i w d now expected by db = (x, db')"
  shows "(\<exists>e. x = Inl e \<and> db' = db) \<or>
    (\<exists>s. x = Inr s \<and> db' = db \<and> latest_row db t i = Some s \<and> rv_content_digest s = d) \<or>
    (\<exists>s. x = Inr s \<and> appended mk db s db' \<and> rv_payload s = w \<and> rv_tenant_id s = py_strip t \<and>
       rv_id s = py_strip i \<and> rv_content_digest s = py_strip d \<and>
       expected = (if rv_revision s = 1 then None else Some (rv_revision s - 1)))"
proof (cases "rows db t i = []")
  case True
  then have l: "latest_row db t i = None" by (simp add: latest_row_def)
  show ?thesis
  proof (cases expected)
    case None
    let ?r = "new_row t i 1 w d now by"
    have c': "insert_revision mk ?r db = (x, db')" using c l None by (simp add: create_revision_row_def)
    have "(\<exists>e. x = Inl e \<and> db' = db) \<or> (\<exists>s. x = Inr s \<and> mk ?r = Inr s \<and> appended mk db s db')"
      by (rule insert_revision_appends [OF inv _ c']) (simp_all add: new_row_def w)
    with mk_key [of ?r] None w show ?thesis by (fastforce simp: new_row_def)
  next
    case (Some n)
    with c [symmetric] l show ?thesis by (simp add: create_revision_row_def)
  qed
next
  case False
  let ?l = "last (rows db t i)"
  have l: "latest_row db t i = Some ?l" using latest_row_inv [OF inv] False by simp
  have mkl: "mk ?l = Inr ?l" using rev_invD(1) [OF inv] rows_subset False by (meson last_in_set subsetD)
  have n: "rv_revision ?l = int (length (rows db t i))" using last_row_number [OF inv False] .
  let ?r = "new_row t i (rv_revision ?l + 1) w d now by"
  consider (same) "rv_content_digest ?l = d" | (conflict) "rv_content_digest ?l \<noteq> d" "expected \<noteq> Some (rv_revision ?l)"
    | (grow) "rv_content_digest ?l \<noteq> d" "expected = Some (rv_revision ?l)" by blast
  then show ?thesis
  proof cases
    case same
    with c [symmetric] l mkl show ?thesis by (simp add: create_revision_row_def)
  next
    case conflict
    with c [symmetric] l mkl show ?thesis by (simp add: create_revision_row_def)
  next
    case grow
    then have c': "insert_revision mk ?r db = (x, db')" using c l mkl by (simp add: create_revision_row_def)
    have "(\<exists>e. x = Inl e \<and> db' = db) \<or> (\<exists>s. x = Inr s \<and> mk ?r = Inr s \<and> appended mk db s db')"
      by (rule insert_revision_appends [OF inv _ c']) (simp_all add: new_row_def w n False)
    then show ?thesis
    proof (elim disjE exE conjE)
      fix s
      assume s: "x = Inr s" "mk ?r = Inr s" "appended mk db s db'"
      have "rv_revision s = rv_revision ?l + 1" "rv_revision s \<noteq> 1"
        using mk_key(3) [OF s(2)] n False by (simp_all add: new_row_def)
      moreover have "rv_payload s = w" "rv_tenant_id s = py_strip t" "rv_id s = py_strip i"
        "rv_content_digest s = py_strip d"
        using mk_key [OF s(2)] w by (simp_all add: new_row_def)
      ultimately show ?thesis using s(1,3) grow(2) by simp
    qed simp
  qed
qed

lemma append_row_inv:
  assumes "rev_inv mk db" "norm w = w" "create_revision_row noun mk t i w d now expected by db = (x, db')"
  shows "rev_inv mk db'"
  using append_row_law [OF assms] next_row_inv [OF assms(1)] assms(1) by blast

lemma append_row_grows:
  assumes "rev_inv mk db" "norm w = w" "create_revision_row noun mk t i w d now expected by db = (x, db')"
  shows "\<exists>rs. revisions db' = revisions db @ rs \<and> active_refs db' = active_refs db"
  using append_row_law [OF assms] by (auto simp: appended_def)

end

definition switched :: "'w rev_db \<Rightarrow> string \<Rightarrow> string \<Rightarrow> int option \<Rightarrow> 'w rev_db \<Rightarrow> bool" where
  "switched db t i n db' = (revisions db' = revisions db \<and> get_active_number t i db' = n \<and>
     (\<forall>t' i'. (t', i') \<noteq> (t, i) \<longrightarrow> active_row db' t' i' = active_row db t' i'))"

lemma hit_unique:
  assumes "rev_inv mk db" "active_row db t i = Some a"
  shows "filter (\<lambda>x. ar_tenant_id x = t \<and> ar_id x = i \<and> ar_revision x = ar_revision a) (active_refs db) = [a]"
  using filter_unique [OF rev_invD(3) [OF assms(1)], of a] active_row_mem [OF assms(2)] by fastforce

text \<open>Activation: it either changes nothing or moves the reference from the expected revision.\<close>

lemma activate_law:
  assumes inv: "rev_inv mk db" and c: "activate_row noun missing rd t i n expected now by db = (x, db')"
  shows "(\<exists>e. x = Inl e \<and> db' = db) \<or>
    (\<exists>r y. x = Inr y \<and> row_at db t i n = Some r \<and> rd r = Inr y \<and>
      (get_active_number t i db = Some n \<and> db' = db \<or>
       get_active_number t i db \<noteq> Some n \<and> get_active_number t i db = expected \<and>
       switched db t i (Some n) db' \<and> rev_inv mk db'))"
proof (cases "row_at db t i n")
  case None
  with c [symmetric] show ?thesis by (simp add: activate_row_def)
next
  case (Some r)
  note r = Some
  show ?thesis
  proof (cases "rd r")
    case (Inl e)
    with c [symmetric] r show ?thesis by (simp add: activate_row_def)
  next
    case (Inr y)
    show ?thesis
    proof (cases "active_row db t i")
      case None
      show ?thesis
      proof (cases expected)
        case e: None
        define a where "a = \<lparr>ar_tenant_id = t, ar_id = i, ar_revision = n, ar_updated_at = now, ar_updated_by = by\<rparr>"
        have x: "x = Inr y" "db' = db\<lparr>active_refs := active_refs db @ [a]\<rparr>"
          using c r Inr None e by (simp_all add: activate_row_def a_def)
        have new: "\<forall>b \<in> set (active_refs db). \<not> (ar_tenant_id b = t \<and> ar_id b = i)"
          using None by (simp add: active_row_def sel_None)
        have "rev_inv mk db'"
          using inv r new unfolding rev_inv_def x(2) by (auto simp: a_def)
        moreover have "switched db t i (Some n) db'"
          using None by (auto simp: switched_def x(2) get_active_number_def active_row_def sel_append a_def
              split: option.splits)
        ultimately show ?thesis using x(1) r Inr None e by (simp add: get_active_number_def)
      next
        case (Some m)
        with c [symmetric] r Inr None show ?thesis by (simp add: activate_row_def)
      qed
    next
      case (Some a)
      note a = active_row_mem [OF Some]
      let ?hit = "\<lambda>x. ar_tenant_id x = t \<and> ar_id x = i \<and> ar_revision x = ar_revision a"
      let ?f = "\<lambda>x. x\<lparr>ar_revision := n, ar_updated_at := now, ar_updated_by := by\<rparr>"
      have one: "length (filter ?hit (active_refs db)) = 1" using hit_unique [OF inv Some] by simp
      consider (same) "ar_revision a = n" | (conflict) "ar_revision a \<noteq> n" "expected \<noteq> Some (ar_revision a)"
        | (move) "ar_revision a \<noteq> n" "expected = Some (ar_revision a)" by blast
      then show ?thesis
      proof cases
        case same
        with c [symmetric] r Inr Some show ?thesis by (simp add: activate_row_def get_active_number_def)
      next
        case conflict
        with c [symmetric] r Inr Some show ?thesis by (simp add: activate_row_def)
      next
        case move
        have x: "x = Inr y" "db' = db\<lparr>active_refs := upd ?hit ?f (active_refs db)\<rparr>"
          using c r Inr Some move one by (simp_all add: activate_row_def)
        have "rev_inv mk db'"
          using inv r unfolding rev_inv_def x(2)
          by (auto simp: map_upd dest!: upd_memD split: if_splits)
        moreover have "active_row db' t' i' = (if t' = t \<and> i' = i then Some (?f a) else active_row db t' i')" for t' i'
        proof (cases "t' = t \<and> i' = i")
          case True
          have "active_row db' t i = map_option (\<lambda>x. if ?hit x then ?f x else x) (active_row db t i)"
            unfolding active_row_def x(2) by (simp add: sel_upd)
          with True Some a show ?thesis by simp
        next
          case False
          then have "active_row db' t' i' = active_row db t' i'"
            unfolding active_row_def x(2) by (simp, intro sel_upd_other) auto
          with False show ?thesis by auto
        qed
        ultimately show ?thesis using x r Inr Some move
          by (auto simp: get_active_number_def switched_def)
      qed
    qed
  qed
qed

lemma deactivate_law:
  assumes inv: "rev_inv mk db" and c: "deactivate_row noun t i expected db = (x, db')"
  shows "(\<exists>e. x = Inl e \<and> db' = db) \<or>
    (x = Inr expected \<and> get_active_number t i db = Some expected \<and> switched db t i None db' \<and> rev_inv mk db')"
proof (cases "active_row db t i")
  case None
  with c [symmetric] show ?thesis by (simp add: deactivate_row_def)
next
  case (Some a)
  note a = active_row_mem [OF Some]
  let ?hit = "\<lambda>x. ar_tenant_id x = t \<and> ar_id x = i \<and> ar_revision x = ar_revision a"
  have one: "length (filter ?hit (active_refs db)) = 1" using hit_unique [OF inv Some] by simp
  show ?thesis
  proof (cases "ar_revision a = expected")
    case True
    have x: "x = Inr expected" "db' = db\<lparr>active_refs := del ?hit (active_refs db)\<rparr>"
      using c Some True one by (simp_all add: deactivate_row_def)
    have "b = a" if "b \<in> set (active_refs db)" "ar_tenant_id b = t" "ar_id b = i" for b
      using distinct_key_eq [OF rev_invD(3) [OF inv] that(1)] a that(2,3) by simp
    then have "active_row db' t i = None"
      unfolding active_row_def x(2) by (auto simp: sel_None)
    moreover have "active_row db' t' i' = active_row db t' i'" if "(t', i') \<noteq> (t, i)" for t' i'
      unfolding active_row_def x(2) using that by (simp, intro sel_del_other) auto
    moreover have "rev_inv mk db'" using inv unfolding rev_inv_def x(2) by auto
    ultimately show ?thesis using x Some True by (simp add: switched_def get_active_number_def)
  next
    case False
    with c [symmetric] Some show ?thesis by (simp add: deactivate_row_def)
  qed
qed

end
