(* ===== verification/SpecStore.thy ===== *)
theory SpecStore
  imports RevisionStore
begin

text \<open>
  \<^verbatim>\<open>specs/store.py\<close> (the classes \<open>AgentSpecStore\<close> and \<open>TriggerSpecStore\<close>) and
  \<^verbatim>\<open>specs/service.py\<close> (\<open>AgentSpecService\<close>, \<open>TriggerSpecService\<close>, the seeding of defaults) over the
  revision tables of \<^verbatim>\<open>RevisionStore.thy\<close>. Parameters: \<open>dg\<close> is the digest of a canonical payload,
  \<open>zone\<close> and \<open>cron\<close> validate schedules, \<open>fresh\<close> is a generated identifier, and \<open>va\<close> the service's
  \<open>validate_activation\<close> callback (\<open>None\<close> when it accepts, otherwise its exception); a service
  without callback is \<open>\<lambda>_. None\<close>. A service operation runs several transactions; the definitions
  run them on one state, and the rollback is also split where another caller can intervene.
\<close>

section \<open>Agent specification store\<close>

definition agent_row :: "agent_spec_write row_class" where
  "agent_row r = model_error (AgentSpec r)"

definition agent_create_revision ::
  "(agent_spec_write \<Rightarrow> string) \<Rightarrow> timestamp \<Rightarrow> string \<Rightarrow> string \<Rightarrow> agent_spec_write \<Rightarrow> int option \<Rightarrow> string \<Rightarrow>
   (agent_spec_write rev_db, spec_error, agent_spec_write revision) oper" where
  "agent_create_revision dg now t i w expected by =
     create_revision_row ''AgentSpec'' agent_row t i w (dg w) now expected by"

definition agent_get_revision ::
  "agent_ref \<Rightarrow> agent_spec_write rev_db \<Rightarrow> spec_error + agent_spec_write revision option" where
  "agent_get_revision ref = get_revision_row agent_row (ref_tenant_id ref) (ref_spec_id ref) (ref_revision ref)"

definition agent_get_latest ::
  "string \<Rightarrow> string \<Rightarrow> agent_spec_write rev_db \<Rightarrow> spec_error + agent_spec_write revision option" where
  "agent_get_latest = get_latest_row agent_row"

definition make_ref :: "string \<Rightarrow> string \<Rightarrow> int \<Rightarrow> spec_error + agent_ref" where
  "make_ref t i n = model_error (AgentSpecRef \<lparr>ref_tenant_id = t, ref_spec_id = i, ref_revision = n\<rparr>)"

definition agent_get_active_ref ::
  "string \<Rightarrow> string \<Rightarrow> agent_spec_write rev_db \<Rightarrow> spec_error + agent_ref option" where
  "agent_get_active_ref t i db = (case get_active_number t i db of None \<Rightarrow> Inr None
     | Some n \<Rightarrow> (case make_ref t i n of Inl e \<Rightarrow> Inl e | Inr ref \<Rightarrow> Inr (Some ref)))"

definition agent_get_active ::
  "string \<Rightarrow> string \<Rightarrow> agent_spec_write rev_db \<Rightarrow> spec_error + agent_spec_write revision option" where
  "agent_get_active t i db = (case agent_get_active_ref t i db of Inl e \<Rightarrow> Inl e
     | Inr None \<Rightarrow> Inr None | Inr (Some ref) \<Rightarrow> agent_get_revision ref db)"

definition agent_activate ::
  "agent_ref \<Rightarrow> int option \<Rightarrow> timestamp \<Rightarrow> string \<Rightarrow> (agent_spec_write rev_db, spec_error, agent_ref) oper" where
  "agent_activate ref expected now by =
     activate_row ''AgentSpec'' (SpecNotFoundRef ref) (\<lambda>_. Inr ref)
       (ref_tenant_id ref) (ref_spec_id ref) (ref_revision ref) expected now by"

definition agent_list_active ::
  "string \<Rightarrow> agent_spec_write rev_db \<Rightarrow> spec_error + agent_spec_write revision list" where
  "agent_list_active = list_active_rows agent_row"

definition agent_list_latest ::
  "string \<Rightarrow> agent_spec_write rev_db \<Rightarrow> spec_error + agent_spec_write revision list" where
  "agent_list_latest = list_latest_rows agent_row"

definition agent_list_revisions ::
  "string \<Rightarrow> string \<Rightarrow> agent_spec_write rev_db \<Rightarrow> spec_error + agent_spec_write revision list" where
  "agent_list_revisions = list_revision_rows agent_row"

definition agent_previous_revision ::
  "string \<Rightarrow> string \<Rightarrow> int \<Rightarrow> agent_spec_write rev_db \<Rightarrow> spec_error + agent_spec_write revision option" where
  "agent_previous_revision = previous_revision_row agent_row"

definition agent_deactivate ::
  "string \<Rightarrow> string \<Rightarrow> int \<Rightarrow> (agent_spec_write rev_db, spec_error, agent_ref) oper" where
  "agent_deactivate t i expected db = (case deactivate_row ''AgentSpec'' t i expected db of
     (Inl e, db') \<Rightarrow> (Inl e, db') | (Inr current, db') \<Rightarrow> (make_ref t i current, db'))"

section \<open>Trigger specification store\<close>

definition trigger_row ::
  "(string \<Rightarrow> bool) \<Rightarrow> (string \<Rightarrow> string \<Rightarrow> bool) \<Rightarrow> trigger_spec_write row_class" where
  "trigger_row zone cron r = model_error (TriggerSpec zone cron r)"

definition validate_target ::
  "agent_spec_write rev_db \<Rightarrow> string \<Rightarrow> trigger_spec_write \<Rightarrow> spec_error + unit" where
  "validate_target agents t w =
     (if ref_tenant_id (tw_agent_spec w) \<noteq> t
      then Inl (SpecValueError ''trigger and AgentSpec must belong to the same tenant'')
      else case agent_get_revision (tw_agent_spec w) agents of Inl e \<Rightarrow> Inl e
        | Inr None \<Rightarrow> Inl (SpecNotFoundRef (tw_agent_spec w))
        | Inr (Some target) \<Rightarrow>
            if aw_isolation (rv_payload target) \<noteq> tw_exposure w
            then Inl (SpecValueError ''trigger exposure must match the target AgentSpec isolation'')
            else Inr ())"

definition trigger_create_revision ::
  "(string \<Rightarrow> bool) \<Rightarrow> (string \<Rightarrow> string \<Rightarrow> bool) \<Rightarrow> (trigger_spec_write \<Rightarrow> string) \<Rightarrow> timestamp \<Rightarrow>
   agent_spec_write rev_db \<Rightarrow> string \<Rightarrow> string \<Rightarrow> trigger_spec_write \<Rightarrow> int option \<Rightarrow> string \<Rightarrow>
   (trigger_spec_write rev_db, spec_error, trigger_spec_write revision) oper" where
  "trigger_create_revision zone cron dg now agents t i w expected by =
     checked (validate_target agents t w) (\<lambda>_.
       create_revision_row ''TriggerSpec'' (trigger_row zone cron) t i w (dg w) now expected by)"

definition trigger_get_latest ::
  "(string \<Rightarrow> bool) \<Rightarrow> (string \<Rightarrow> string \<Rightarrow> bool) \<Rightarrow> string \<Rightarrow> string \<Rightarrow> trigger_spec_write rev_db \<Rightarrow>
   spec_error + trigger_spec_write revision option" where
  "trigger_get_latest zone cron = get_latest_row (trigger_row zone cron)"

definition trigger_get_revision ::
  "(string \<Rightarrow> bool) \<Rightarrow> (string \<Rightarrow> string \<Rightarrow> bool) \<Rightarrow> string \<Rightarrow> string \<Rightarrow> int \<Rightarrow> trigger_spec_write rev_db \<Rightarrow>
   spec_error + trigger_spec_write revision option" where
  "trigger_get_revision zone cron = get_revision_row (trigger_row zone cron)"

definition trigger_get_active ::
  "(string \<Rightarrow> bool) \<Rightarrow> (string \<Rightarrow> string \<Rightarrow> bool) \<Rightarrow> string \<Rightarrow> string \<Rightarrow> trigger_spec_write rev_db \<Rightarrow>
   spec_error + trigger_spec_write revision option" where
  "trigger_get_active zone cron = get_active_row (trigger_row zone cron)"

definition trigger_activate ::
  "(string \<Rightarrow> bool) \<Rightarrow> (string \<Rightarrow> string \<Rightarrow> bool) \<Rightarrow> string \<Rightarrow> string \<Rightarrow> int \<Rightarrow> int option \<Rightarrow> timestamp \<Rightarrow> string \<Rightarrow>
   (trigger_spec_write rev_db, spec_error, trigger_spec_write revision) oper" where
  "trigger_activate zone cron t i n expected now by =
     activate_row ''TriggerSpec'' (SpecNotFoundId i) (trigger_row zone cron) t i n expected now by"

definition trigger_list_active ::
  "(string \<Rightarrow> bool) \<Rightarrow> (string \<Rightarrow> string \<Rightarrow> bool) \<Rightarrow> string \<Rightarrow> trigger_spec_write rev_db \<Rightarrow>
   spec_error + trigger_spec_write revision list" where
  "trigger_list_active zone cron = list_active_rows (trigger_row zone cron)"

definition trigger_list_tenant_ids :: "trigger_spec_write rev_db \<Rightarrow> string list" where
  "trigger_list_tenant_ids db = sort (remdups (map ar_tenant_id (active_refs db)))"

definition trigger_get_active_revision :: "string \<Rightarrow> string \<Rightarrow> trigger_spec_write rev_db \<Rightarrow> int option" where
  "trigger_get_active_revision = get_active_number"

definition trigger_list_latest ::
  "(string \<Rightarrow> bool) \<Rightarrow> (string \<Rightarrow> string \<Rightarrow> bool) \<Rightarrow> string \<Rightarrow> trigger_spec_write rev_db \<Rightarrow>
   spec_error + trigger_spec_write revision list" where
  "trigger_list_latest zone cron = list_latest_rows (trigger_row zone cron)"

definition trigger_list_revisions ::
  "(string \<Rightarrow> bool) \<Rightarrow> (string \<Rightarrow> string \<Rightarrow> bool) \<Rightarrow> string \<Rightarrow> string \<Rightarrow> trigger_spec_write rev_db \<Rightarrow>
   spec_error + trigger_spec_write revision list" where
  "trigger_list_revisions zone cron = list_revision_rows (trigger_row zone cron)"

definition trigger_previous_revision ::
  "(string \<Rightarrow> bool) \<Rightarrow> (string \<Rightarrow> string \<Rightarrow> bool) \<Rightarrow> string \<Rightarrow> string \<Rightarrow> int \<Rightarrow> trigger_spec_write rev_db \<Rightarrow>
   spec_error + trigger_spec_write revision option" where
  "trigger_previous_revision zone cron = previous_revision_row (trigger_row zone cron)"

definition trigger_deactivate :: "string \<Rightarrow> string \<Rightarrow> int \<Rightarrow> (trigger_spec_write rev_db, spec_error, int) oper" where
  "trigger_deactivate = deactivate_row ''TriggerSpec''"

section \<open>Services\<close>

definition id_or_fresh :: "string \<Rightarrow> string option \<Rightarrow> string" where
  "id_or_fresh fresh given = (let s = (case given of None \<Rightarrow> [] | Some x \<Rightarrow> py_strip x)
     in if s = [] then fresh else s)"

definition agent_save ::
  "(agent_spec_write \<Rightarrow> string) \<Rightarrow> string \<Rightarrow> timestamp \<Rightarrow> string \<Rightarrow> string \<Rightarrow> agent_spec_write \<Rightarrow> string option \<Rightarrow>
   int option \<Rightarrow> (agent_spec_write rev_db, spec_error, agent_spec_write revision) oper" where
  "agent_save dg fresh now t actor w spec_id expected =
     agent_create_revision dg now t (id_or_fresh fresh spec_id) w expected actor"

definition agent_service_activate ::
  "(agent_spec_write revision \<Rightarrow> spec_error option) \<Rightarrow> timestamp \<Rightarrow> string \<Rightarrow> string \<Rightarrow> string \<Rightarrow> int \<Rightarrow> int option \<Rightarrow>
   (agent_spec_write rev_db, spec_error, agent_spec_write revision) oper" where
  "agent_service_activate va now t actor i n expected db =
     (case make_ref t i n of Inl e \<Rightarrow> raises e db
      | Inr ref \<Rightarrow> (case agent_get_revision ref db of Inl e \<Rightarrow> raises e db
          | Inr None \<Rightarrow> raises (SpecNotFoundRef ref) db
          | Inr (Some spec) \<Rightarrow> (case va spec of Some e \<Rightarrow> raises e db
              | None \<Rightarrow> (case agent_activate ref expected now actor db of
                  (Inl e, db') \<Rightarrow> raises e db' | (Inr _, db') \<Rightarrow> ok spec db'))))"

text \<open>
  Rollback: the active revision is read from \<open>db1\<close>, its predecessor from \<open>db2\<close>, and the switch is
  made on whatever state the store then has.
\<close>

definition agent_rollback_target ::
  "(agent_spec_write revision \<Rightarrow> spec_error option) \<Rightarrow> string \<Rightarrow> string \<Rightarrow> int \<Rightarrow>
   agent_spec_write rev_db \<Rightarrow> agent_spec_write rev_db \<Rightarrow>
   spec_error + agent_spec_write revision \<times> agent_spec_write revision" where
  "agent_rollback_target va t i expected db1 db2 =
     (case agent_get_active t i db1 of Inl e \<Rightarrow> Inl e
      | Inr None \<Rightarrow> Inl (SpecNotFoundId i)
      | Inr (Some active) \<Rightarrow>
          if rv_revision active \<noteq> expected
          then Inl (SpecConflictError (''active AgentSpec revision is '' @ str_int (rv_revision active) @
            '', expected '' @ str_int expected))
          else (case agent_previous_revision t i (rv_revision active) db2 of Inl e \<Rightarrow> Inl e
            | Inr None \<Rightarrow> Inl (SpecConflictError ''AgentSpec has no previous revision'')
            | Inr (Some target) \<Rightarrow> (case va target of Some e \<Rightarrow> Inl e | None \<Rightarrow> Inr (active, target))))"

definition agent_rollback_commit ::
  "timestamp \<Rightarrow> string \<Rightarrow> agent_spec_write revision \<Rightarrow> agent_spec_write revision \<Rightarrow>
   (agent_spec_write rev_db, spec_error, agent_spec_write revision) oper" where
  "agent_rollback_commit now actor active target db =
     (case make_ref (rv_tenant_id target) (rv_id target) (rv_revision target) of Inl e \<Rightarrow> raises e db
      | Inr ref \<Rightarrow> (case agent_activate ref (Some (rv_revision active)) now actor db of
          (Inl e, db') \<Rightarrow> raises e db' | (Inr _, db') \<Rightarrow> ok target db'))"

definition agent_rollback ::
  "(agent_spec_write revision \<Rightarrow> spec_error option) \<Rightarrow> timestamp \<Rightarrow> string \<Rightarrow> string \<Rightarrow> string \<Rightarrow> int \<Rightarrow>
   (agent_spec_write rev_db, spec_error, agent_spec_write revision) oper" where
  "agent_rollback va now t actor i expected db =
     (case agent_rollback_target va t i expected db db of Inl e \<Rightarrow> raises e db
      | Inr (active, target) \<Rightarrow> agent_rollback_commit now actor active target db)"

definition upgrade_legacy_owner_default ::
  "(agent_spec_write \<Rightarrow> string) \<Rightarrow> timestamp \<Rightarrow> string \<Rightarrow> agent_spec_write revision \<Rightarrow> agent_spec_write \<Rightarrow>
   (agent_spec_write rev_db, spec_error, agent_spec_write revision) oper" where
  "upgrade_legacy_owner_default dg now actor active desired db =
     (if rv_id active \<noteq> ''owner'' then ok active db
      else case model_error (AgentSpecWrite (rv_payload active)) of Inl e \<Rightarrow> raises e db
       | Inr active_write \<Rightarrow>
         let legacy = desired\<lparr>aw_max_runtime_seconds := 900, aw_max_model_calls := 100\<rparr>;
             switch = (\<lambda>upgraded db.
               case make_ref (rv_tenant_id upgraded) (rv_id upgraded) (rv_revision upgraded) of Inl e \<Rightarrow> raises e db
               | Inr ref \<Rightarrow> (case agent_activate ref (Some (rv_revision active)) now actor db of
                   (Inl e, db') \<Rightarrow> raises e db' | (Inr _, db') \<Rightarrow> ok upgraded db'));
             fork = (case agent_create_revision dg now (rv_tenant_id active) (rv_id active) desired
                 (Some (rv_revision active)) actor db of
               (Inl e, db') \<Rightarrow> raises e db' | (Inr upgraded, db') \<Rightarrow> switch upgraded db')
         in if active_write \<noteq> legacy then ok active db
            else case agent_get_latest (rv_tenant_id active) (rv_id active) db of Inl e \<Rightarrow> raises e db
             | Inr None \<Rightarrow> fork
             | Inr (Some latest) \<Rightarrow>
                 if rv_revision latest \<noteq> rv_revision active then
                   (case model_error (AgentSpecWrite (rv_payload latest)) of Inl e \<Rightarrow> raises e db
                    | Inr latest_write \<Rightarrow> if latest_write \<noteq> desired then ok active db else switch latest db)
                 else fork)"

definition seed_one ::
  "(agent_spec_write \<Rightarrow> string) \<Rightarrow> timestamp \<Rightarrow> string \<Rightarrow> string \<Rightarrow> string \<Rightarrow> agent_spec_write \<Rightarrow>
   (agent_spec_write rev_db, spec_error, agent_spec_write revision) oper" where
  "seed_one dg now t actor i w db =
     (let enable = (\<lambda>latest db.
        case make_ref (rv_tenant_id latest) (rv_id latest) (rv_revision latest) of Inl e \<Rightarrow> raises e db
        | Inr ref \<Rightarrow> (case agent_activate ref None now actor db of
            (Inl e, db') \<Rightarrow> raises e db' | (Inr _, db') \<Rightarrow> ok latest db'))
      in case agent_get_active t i db of Inl e \<Rightarrow> raises e db
       | Inr (Some active) \<Rightarrow> upgrade_legacy_owner_default dg now actor active w db
       | Inr None \<Rightarrow> (case agent_get_latest t i db of Inl e \<Rightarrow> raises e db
           | Inr (Some latest) \<Rightarrow> enable latest db
           | Inr None \<Rightarrow> (case agent_create_revision dg now t i w None actor db of
               (Inl e, db') \<Rightarrow> raises e db' | (Inr latest, db') \<Rightarrow> enable latest db')))"

fun seed_specs ::
  "(agent_spec_write \<Rightarrow> string) \<Rightarrow> timestamp \<Rightarrow> string \<Rightarrow> string \<Rightarrow> (string \<times> agent_spec_write) list \<Rightarrow>
   (agent_spec_write rev_db, spec_error, agent_spec_write revision list) oper" where
  "seed_specs dg now t actor [] db = ok [] db"
| "seed_specs dg now t actor ((i, w) # rest) db =
     (case seed_one dg now t actor i w db of (Inl e, db') \<Rightarrow> raises e db'
      | (Inr s, db') \<Rightarrow> (case seed_specs dg now t actor rest db' of
          (Inl e, db'') \<Rightarrow> raises e db'' | (Inr ss, db'') \<Rightarrow> ok (s # ss) db''))"

definition seed_defaults ::
  "(agent_spec_write \<Rightarrow> string) \<Rightarrow> timestamp \<Rightarrow> string \<Rightarrow> string \<Rightarrow>
   (agent_spec_write rev_db, spec_error, agent_spec_write revision list) oper" where
  "seed_defaults dg now t actor = seed_specs dg now t actor default_agent_spec_writes"

definition seed_default_agent_spec_refs ::
  "(agent_spec_write \<Rightarrow> string) \<Rightarrow> timestamp \<Rightarrow> string \<Rightarrow> string \<Rightarrow>
   (agent_spec_write rev_db, spec_error, (string \<times> agent_ref) list) oper" where
  "seed_default_agent_spec_refs dg now t actor db = (case seed_defaults dg now t actor db of
     (Inl e, db') \<Rightarrow> raises e db' | (Inr ss, db') \<Rightarrow> ok (dict_of (map (\<lambda>s. (rv_id s, spec_ref s)) ss)) db')"

definition trigger_save ::
  "(string \<Rightarrow> bool) \<Rightarrow> (string \<Rightarrow> string \<Rightarrow> bool) \<Rightarrow> (trigger_spec_write \<Rightarrow> string) \<Rightarrow> string \<Rightarrow> timestamp \<Rightarrow>
   agent_spec_write rev_db \<Rightarrow> string \<Rightarrow> string \<Rightarrow> trigger_spec_write \<Rightarrow> string option \<Rightarrow> int option \<Rightarrow>
   (trigger_spec_write rev_db, spec_error, trigger_spec_write revision) oper" where
  "trigger_save zone cron dg fresh now agents t actor w trigger_id expected =
     trigger_create_revision zone cron dg now agents t (id_or_fresh fresh trigger_id) w expected actor"

definition trigger_service_activate ::
  "(string \<Rightarrow> bool) \<Rightarrow> (string \<Rightarrow> string \<Rightarrow> bool) \<Rightarrow> (trigger_spec_write revision \<Rightarrow> spec_error option) \<Rightarrow>
   timestamp \<Rightarrow> string \<Rightarrow> string \<Rightarrow> string \<Rightarrow> int \<Rightarrow> int option \<Rightarrow>
   (trigger_spec_write rev_db, spec_error, trigger_spec_write revision) oper" where
  "trigger_service_activate zone cron va now t actor i n expected db =
     (case trigger_get_revision zone cron t i n db of Inl e \<Rightarrow> raises e db
      | Inr None \<Rightarrow> raises (SpecNotFoundId i) db
      | Inr (Some trigger) \<Rightarrow> (case va trigger of Some e \<Rightarrow> raises e db
          | None \<Rightarrow> trigger_activate zone cron t i n expected now actor db))"

definition trigger_rollback ::
  "(string \<Rightarrow> bool) \<Rightarrow> (string \<Rightarrow> string \<Rightarrow> bool) \<Rightarrow> (trigger_spec_write revision \<Rightarrow> spec_error option) \<Rightarrow>
   timestamp \<Rightarrow> string \<Rightarrow> string \<Rightarrow> string \<Rightarrow> int \<Rightarrow>
   (trigger_spec_write rev_db, spec_error, trigger_spec_write revision) oper" where
  "trigger_rollback zone cron va now t actor i expected db =
     (case trigger_get_active zone cron t i db of Inl e \<Rightarrow> raises e db
      | Inr None \<Rightarrow> raises (SpecNotFoundId i) db
      | Inr (Some active) \<Rightarrow>
          if rv_revision active \<noteq> expected
          then raises (SpecConflictError (''active TriggerSpec revision is '' @ str_int (rv_revision active) @
            '', expected '' @ str_int expected)) db
          else (case trigger_previous_revision zone cron t i (rv_revision active) db of Inl e \<Rightarrow> raises e db
            | Inr None \<Rightarrow> raises (SpecConflictError ''TriggerSpec has no previous revision'') db
            | Inr (Some target) \<Rightarrow> (case va target of Some e \<Rightarrow> raises e db
                | None \<Rightarrow> trigger_activate zone cron t i (rv_revision target) (Some (rv_revision active)) now actor db)))"

section \<open>The row classes\<close>

lemma model_error_Inr [simp]: "model_error x = Inr y \<longleftrightarrow> x = Inr y"
  by (cases x) (auto simp: model_error_def)

lemma strip_revision_idem:
  assumes "\<And>w. norm (norm w) = norm w"
  shows "strip_revision norm (strip_revision norm r) = strip_revision norm r"
  by (simp add: strip_revision_def assms)

lemma spec_model_rows:
  assumes "\<And>w. norm (norm w) = norm w"
  shows "revision_rows (\<lambda>r. model_error (spec_model norm flds validate r)) norm"
proof
  fix r s
  assume "model_error (spec_model norm flds validate r) = Inr s"
  then have s: "construct (strip_revision norm) (revision_fields flds) (\<lambda>r. validate (rv_payload r)) r = Inr s"
    by (simp add: spec_model_def)
  show "s = strip_revision norm r" using constructD [OF s] by blast
  show "model_error (spec_model norm flds validate s) = Inr s"
    unfolding model_error_Inr spec_model_def
    using construct_again [OF _ s] strip_revision_idem assms by blast
qed

interpretation agent_rows: revision_rows agent_row strip_agent
proof -
  have "agent_row = (\<lambda>r. model_error (spec_model strip_agent agent_fields validate_isolation r))"
    by (rule ext) (simp add: agent_row_def AgentSpec_def)
  then show "revision_rows agent_row strip_agent" by (metis spec_model_rows strip_agent_idem)
qed

interpretation trigger_rows: revision_rows "trigger_row zone cron" strip_trigger
  for zone :: "string \<Rightarrow> bool" and cron :: "string \<Rightarrow> string \<Rightarrow> bool"
proof -
  have "trigger_row zone cron =
      (\<lambda>r. model_error (spec_model strip_trigger (trigger_fields zone cron) validate_exposure r))"
    by (rule ext) (simp add: trigger_row_def TriggerSpec_def)
  then show "revision_rows (trigger_row zone cron) strip_trigger" by (metis spec_model_rows strip_trigger_idem)
qed

section \<open>Every operation keeps the invariant and only appends revisions\<close>

definition evolves :: "'w row_class \<Rightarrow> 'w rev_db \<Rightarrow> 'w rev_db \<Rightarrow> bool" where
  "evolves mk db db' = (rev_inv mk db' \<and> (\<exists>rs. revisions db' = revisions db @ rs))"

named_theorems keeps "operations that keep the invariant of a revision store"

lemma evolves_refl [simp]: "rev_inv mk db \<Longrightarrow> evolves mk db db"
  by (simp add: evolves_def)

lemma evolves_trans: "evolves mk db db1 \<Longrightarrow> evolves mk db1 db2 \<Longrightarrow> evolves mk db db2"
  by (auto simp: evolves_def)

lemma evolves_inv: "evolves mk db db' \<Longrightarrow> rev_inv mk db'"
  by (simp add: evolves_def)

lemma evolves_row_at: "evolves mk db db' \<Longrightarrow> row_at db t i n = Some r \<Longrightarrow> row_at db' t i n = Some r"
  unfolding evolves_def using row_at_mono by blast

lemma create_row_evolves:
  assumes "revision_rows mk norm" "rev_inv mk db" "norm w = w"
    "create_revision_row noun mk t i w d now expected by db = (x, db')"
  shows "evolves mk db db'"
  unfolding evolves_def using revision_rows.append_row_inv [OF assms] revision_rows.append_row_grows [OF assms] by blast

lemma activate_row_evolves:
  assumes "rev_inv mk db" "activate_row noun missing rd t i n expected now by db = (x, db')"
  shows "evolves mk db db'"
  using activate_law [OF assms] assms(1) by (auto simp: evolves_def switched_def)

lemma deactivate_row_evolves:
  assumes "rev_inv mk db" "deactivate_row noun t i expected db = (x, db')"
  shows "evolves mk db db'"
  using deactivate_law [OF assms] assms(1) by (auto simp: evolves_def switched_def)

lemma agent_create_keeps [keeps]:
  "rev_inv agent_row db \<Longrightarrow> strip_agent w = w \<Longrightarrow> agent_create_revision dg now t i w expected by db = (x, db') \<Longrightarrow>
   evolves agent_row db db'"
  unfolding agent_create_revision_def by (rule create_row_evolves [OF agent_rows.revision_rows_axioms])

lemma agent_activate_keeps [keeps]:
  "rev_inv agent_row db \<Longrightarrow> agent_activate ref expected now by db = (x, db') \<Longrightarrow> evolves agent_row db db'"
  unfolding agent_activate_def by (rule activate_row_evolves)

lemma agent_deactivate_keeps [keeps]:
  assumes "rev_inv agent_row db" "agent_deactivate t i expected db = (x, db')"
  shows "evolves agent_row db db'"
proof -
  obtain y db1 where d: "deactivate_row ''AgentSpec'' t i expected db = (y, db1)" by fastforce
  with assms(2) have "db' = db1" by (auto simp: agent_deactivate_def split: sum.splits)
  with deactivate_row_evolves [OF assms(1) d] show ?thesis by simp
qed

lemma agent_service_activate_keeps [keeps]:
  assumes "rev_inv agent_row db" "agent_service_activate va now t actor i n expected db = (x, db')"
  shows "evolves agent_row db db'"
  using assms agent_activate_keeps [OF assms(1)]
  by (auto simp: agent_service_activate_def split: sum.splits option.splits prod.splits)

lemma agent_rollback_commit_keeps [keeps]:
  assumes "rev_inv agent_row db" "agent_rollback_commit now actor active target db = (x, db')"
  shows "evolves agent_row db db'"
  using assms agent_activate_keeps [OF assms(1)]
  by (auto simp: agent_rollback_commit_def split: sum.splits prod.splits)

lemma agent_rollback_keeps [keeps]:
  assumes "rev_inv agent_row db" "agent_rollback va now t actor i expected db = (x, db')"
  shows "evolves agent_row db db'"
  using assms agent_rollback_commit_keeps [OF assms(1)]
  by (auto simp: agent_rollback_def split: sum.splits prod.splits)

lemma strip_default: "(i, w) \<in> set default_agent_spec_writes \<Longrightarrow> strip_agent w = w"
  using default_writes_again constructD unfolding AgentSpecWrite_def by metis

text \<open>The switch at the end of an upgrade and of a seeding.\<close>

definition enable_spec ::
  "timestamp \<Rightarrow> string \<Rightarrow> int option \<Rightarrow> agent_spec_write revision \<Rightarrow>
   (agent_spec_write rev_db, spec_error, agent_spec_write revision) oper" where
  "enable_spec now actor expected s db =
     (case make_ref (rv_tenant_id s) (rv_id s) (rv_revision s) of Inl e \<Rightarrow> raises e db
      | Inr ref \<Rightarrow> (case agent_activate ref expected now actor db of
          (Inl e, db') \<Rightarrow> raises e db' | (Inr _, db') \<Rightarrow> ok s db'))"

lemma enable_spec_keeps [keeps]:
  assumes "rev_inv agent_row db" "enable_spec now actor expected s db = (x, db')"
  shows "evolves agent_row db db'"
  using assms agent_activate_keeps [OF assms(1)]
  by (auto simp: enable_spec_def split: sum.splits prod.splits)

lemma upgrade_keeps [keeps]:
  assumes "rev_inv agent_row db" "strip_agent w = w"
    "upgrade_legacy_owner_default dg now actor active w db = (x, db')"
  shows "evolves agent_row db db'"
proof -
  have fork: "evolves agent_row db d'"
    if "(case agent_create_revision dg now (rv_tenant_id active) (rv_id active) w
        (Some (rv_revision active)) actor db of (Inl e, db') \<Rightarrow> raises e db'
        | (Inr s, db') \<Rightarrow> enable_spec now actor (Some (rv_revision active)) s db') = (y, d')" for y d'
  proof -
    obtain z d1 where c: "agent_create_revision dg now (rv_tenant_id active) (rv_id active) w
        (Some (rv_revision active)) actor db = (z, d1)" by fastforce
    have e: "evolves agent_row db d1" by (rule agent_create_keeps [OF assms(1,2) c])
    with that c enable_spec_keeps [OF evolves_inv [OF e]] show ?thesis
      by (cases z) (auto intro: evolves_trans)
  qed
  from assms(3) show ?thesis
    unfolding upgrade_legacy_owner_default_def enable_spec_def [symmetric] Let_def
    using assms(1) fork enable_spec_keeps [OF assms(1)]
    by (auto split: sum.splits option.splits if_splits)
qed

lemma seed_one_keeps [keeps]:
  assumes "rev_inv agent_row db" "strip_agent w = w" "seed_one dg now t actor i w db = (x, db')"
  shows "evolves agent_row db db'"
proof -
  have fork: "evolves agent_row db d'"
    if "(case agent_create_revision dg now t i w None actor db of (Inl e, db') \<Rightarrow> raises e db'
        | (Inr s, db') \<Rightarrow> enable_spec now actor None s db') = (y, d')" for y d'
  proof -
    obtain z d1 where c: "agent_create_revision dg now t i w None actor db = (z, d1)" by fastforce
    have e: "evolves agent_row db d1" by (rule agent_create_keeps [OF assms(1,2) c])
    with that c enable_spec_keeps [OF evolves_inv [OF e]] show ?thesis
      by (cases z) (auto intro: evolves_trans)
  qed
  from assms(3) show ?thesis
    unfolding seed_one_def enable_spec_def [symmetric] Let_def
    using assms(1) fork enable_spec_keeps [OF assms(1)] upgrade_keeps [OF assms(1,2)]
    by (auto split: sum.splits option.splits)
qed

lemma seed_specs_keeps:
  assumes "rev_inv agent_row db" "\<forall>(i, w) \<in> set ws. strip_agent w = w"
    "seed_specs dg now t actor ws db = (x, db')"
  shows "evolves agent_row db db'"
  using assms
proof (induction ws arbitrary: db x db')
  case (Cons iw ws)
  obtain i w where iw: "iw = (i, w)" by fastforce
  obtain y d1 where s: "seed_one dg now t actor i w db = (y, d1)" by fastforce
  have w: "strip_agent w = w" using Cons.prems(2) iw by simp
  have e: "evolves agent_row db d1" using seed_one_keeps [OF Cons.prems(1) w s] .
  obtain z d2 where r: "seed_specs dg now t actor ws d1 = (z, d2)" by fastforce
  have "evolves agent_row d1 d2" using Cons.IH [OF evolves_inv [OF e] _ r] Cons.prems(2) by simp
  with e s r iw Cons.prems(3) show ?case by (auto split: sum.splits intro: evolves_trans)
qed simp

lemma seed_defaults_keeps [keeps]:
  assumes "rev_inv agent_row db" "seed_defaults dg now t actor db = (x, db')"
  shows "evolves agent_row db db'"
  using seed_specs_keeps [OF assms(1) _ assms(2) [unfolded seed_defaults_def]] strip_default by blast

lemma trigger_create_keeps [keeps]:
  assumes "rev_inv (trigger_row zone cron) db" "strip_trigger w = w"
    "trigger_create_revision zone cron dg now agents t i w expected by db = (x, db')"
  shows "evolves (trigger_row zone cron) db db'"
  using assms(3) unfolding trigger_create_revision_def
proof (cases rule: checked_cases)
  case (good y)
  with create_row_evolves [OF trigger_rows.revision_rows_axioms assms(1,2)] show ?thesis by blast
qed (use assms(1) in simp)

lemma trigger_activate_keeps [keeps]:
  "rev_inv (trigger_row zone cron) db \<Longrightarrow> trigger_activate zone cron t i n expected now by db = (x, db') \<Longrightarrow>
   evolves (trigger_row zone cron) db db'"
  unfolding trigger_activate_def by (rule activate_row_evolves)

lemma trigger_service_activate_keeps [keeps]:
  assumes "rev_inv (trigger_row zone cron) db"
    "trigger_service_activate zone cron va now t actor i n expected db = (x, db')"
  shows "evolves (trigger_row zone cron) db db'"
  using assms trigger_activate_keeps [OF assms(1)]
  by (auto simp: trigger_service_activate_def split: sum.splits option.splits)

lemma trigger_rollback_keeps [keeps]:
  assumes "rev_inv (trigger_row zone cron) db"
    "trigger_rollback zone cron va now t actor i expected db = (x, db')"
  shows "evolves (trigger_row zone cron) db db'"
  using assms trigger_activate_keeps [OF assms(1)]
  by (auto simp: trigger_rollback_def split: sum.splits option.splits if_splits)

lemma trigger_deactivate_keeps [keeps]:
  "rev_inv mk db \<Longrightarrow> trigger_deactivate t i expected db = (x, db') \<Longrightarrow> evolves mk db db'"
  unfolding trigger_deactivate_def by (rule deactivate_row_evolves)

section \<open>Both stores driven by calls\<close>

record spec_db =
  sd_agents :: "agent_spec_write rev_db"
  sd_triggers :: "trigger_spec_write rev_db"

definition empty_spec_db :: spec_db where
  "empty_spec_db = \<lparr>sd_agents = empty_rev_db, sd_triggers = empty_rev_db\<rparr>"

record spec_env =
  se_zone :: "string \<Rightarrow> bool"
  se_cron :: "string \<Rightarrow> string \<Rightarrow> bool"
  se_agent_digest :: "agent_spec_write \<Rightarrow> string"
  se_trigger_digest :: "trigger_spec_write \<Rightarrow> string"
  se_agent_check :: "agent_spec_write revision \<Rightarrow> spec_error option"
  se_trigger_check :: "trigger_spec_write revision \<Rightarrow> spec_error option"

datatype spec_call =
    AgentSave timestamp string string string agent_spec_write "string option" "int option"
  | AgentActivate timestamp string string string int "int option"
  | AgentRollback timestamp string string string int
  | AgentDeactivate string string int
  | AgentSeed timestamp string string
  | TriggerSave timestamp string string string trigger_spec_write "string option" "int option"
  | TriggerActivate timestamp string string string int "int option"
  | TriggerRollback timestamp string string string int
  | TriggerDeactivate string string int

text \<open>A caller passes a constructed write, so the construction is the first thing that can fail.\<close>

definition on_agents ::
  "(agent_spec_write rev_db, spec_error, 'a) oper \<Rightarrow> (spec_db, spec_error, unit) oper" where
  "on_agents f db = (let r = f (sd_agents db) in
     ((case fst r of Inl e \<Rightarrow> Inl e | Inr _ \<Rightarrow> Inr ()), db\<lparr>sd_agents := snd r\<rparr>))"

definition on_triggers ::
  "(trigger_spec_write rev_db, spec_error, 'a) oper \<Rightarrow> (spec_db, spec_error, unit) oper" where
  "on_triggers f db = (let r = f (sd_triggers db) in
     ((case fst r of Inl e \<Rightarrow> Inl e | Inr _ \<Rightarrow> Inr ()), db\<lparr>sd_triggers := snd r\<rparr>))"

fun spec_exec :: "spec_env \<Rightarrow> spec_call \<Rightarrow> (spec_db, spec_error, unit) oper" where
  "spec_exec E (AgentSave now fresh t actor w i expected) db =
     checked (model_error (AgentSpecWrite w)) (\<lambda>v.
       on_agents (agent_save (se_agent_digest E) fresh now t actor v i expected)) db"
| "spec_exec E (AgentActivate now t actor i n expected) db =
     on_agents (agent_service_activate (se_agent_check E) now t actor i n expected) db"
| "spec_exec E (AgentRollback now t actor i expected) db =
     on_agents (agent_rollback (se_agent_check E) now t actor i expected) db"
| "spec_exec E (AgentDeactivate t i expected) db = on_agents (agent_deactivate t i expected) db"
| "spec_exec E (AgentSeed now t actor) db = on_agents (seed_defaults (se_agent_digest E) now t actor) db"
| "spec_exec E (TriggerSave now fresh t actor w i expected) db =
     checked (model_error (TriggerSpecWrite (se_zone E) (se_cron E) w)) (\<lambda>v.
       on_triggers (trigger_save (se_zone E) (se_cron E) (se_trigger_digest E) fresh now (sd_agents db)
         t actor v i expected)) db"
| "spec_exec E (TriggerActivate now t actor i n expected) db =
     on_triggers (trigger_service_activate (se_zone E) (se_cron E) (se_trigger_check E) now t actor i n expected) db"
| "spec_exec E (TriggerRollback now t actor i expected) db =
     on_triggers (trigger_rollback (se_zone E) (se_cron E) (se_trigger_check E) now t actor i expected) db"
| "spec_exec E (TriggerDeactivate t i expected) db = on_triggers (trigger_deactivate t i expected) db"

text \<open>A trigger revision names an agent revision of its own tenant with the same exposure.\<close>

definition target_ok :: "agent_spec_write rev_db \<Rightarrow> trigger_spec_write revision \<Rightarrow> bool" where
  "target_ok agents r = (let ref = tw_agent_spec (rv_payload r) in ref_tenant_id ref = rv_tenant_id r \<and>
     (case row_at agents (ref_tenant_id ref) (ref_spec_id ref) (ref_revision ref) of None \<Rightarrow> False
      | Some a \<Rightarrow> aw_isolation (rv_payload a) = tw_exposure (rv_payload r)))"

definition spec_inv :: "spec_env \<Rightarrow> spec_db \<Rightarrow> bool" where
  "spec_inv E db = (rev_inv agent_row (sd_agents db) \<and>
     rev_inv (trigger_row (se_zone E) (se_cron E)) (sd_triggers db) \<and>
     (\<forall>r \<in> set (revisions (sd_triggers db)). target_ok (sd_agents db) r))"

definition spec_evolves :: "spec_env \<Rightarrow> spec_db \<Rightarrow> spec_db \<Rightarrow> bool" where
  "spec_evolves E db db' = (evolves agent_row (sd_agents db) (sd_agents db') \<and>
     evolves (trigger_row (se_zone E) (se_cron E)) (sd_triggers db) (sd_triggers db'))"

lemma target_ok_mono: "evolves agent_row a a' \<Longrightarrow> target_ok a r \<Longrightarrow> target_ok a' r"
  by (auto simp: target_ok_def Let_def split: option.splits dest: evolves_row_at)

lemma on_agents_evolves:
  assumes "spec_inv E db" "\<And>x d. f (sd_agents db) = (x, d) \<Longrightarrow> evolves agent_row (sd_agents db) d"
  shows "spec_inv E (snd (on_agents f db)) \<and> spec_evolves E db (snd (on_agents f db))"
proof -
  have "evolves agent_row (sd_agents db) (snd (f (sd_agents db)))" using assms(2) by (metis prod.collapse)
  with assms(1) target_ok_mono show ?thesis
    by (fastforce simp: on_agents_def Let_def spec_inv_def spec_evolves_def evolves_inv)
qed

lemma on_triggers_evolves:
  assumes "spec_inv E db"
    "\<And>x d. f (sd_triggers db) = (x, d) \<Longrightarrow> evolves (trigger_row (se_zone E) (se_cron E)) (sd_triggers db) d \<and>
       (\<forall>r \<in> set (revisions d). target_ok (sd_agents db) r)"
  shows "spec_inv E (snd (on_triggers f db)) \<and> spec_evolves E db (snd (on_triggers f db))"
proof -
  have "evolves (trigger_row (se_zone E) (se_cron E)) (sd_triggers db) (snd (f (sd_triggers db)))"
    "\<forall>r \<in> set (revisions (snd (f (sd_triggers db)))). target_ok (sd_agents db) r"
    using assms(2) by (metis prod.collapse)+
  with assms(1) show ?thesis
    by (simp add: on_triggers_def Let_def spec_inv_def spec_evolves_def evolves_inv)
qed

lemma trigger_create_target:
  assumes inv: "rev_inv agent_row agents" "rev_inv (trigger_row zone cron) db" and w: "strip_trigger w = w"
    and c: "trigger_create_revision zone cron dg now agents t i w expected by db = (x, db')"
    and old: "\<forall>r \<in> set (revisions db). target_ok agents r"
  shows "\<forall>r \<in> set (revisions db'). target_ok agents r"
  using c unfolding trigger_create_revision_def
proof (cases rule: checked_cases)
  case bad
  with old show ?thesis by simp
next
  case (good y)
  have t: "ref_tenant_id (tw_agent_spec w) = t" using good(1) by (auto simp: validate_target_def split: if_splits)
  have "py_strip (ref_tenant_id (tw_agent_spec w)) = ref_tenant_id (tw_agent_spec w)"
    using arg_cong [OF w, of tw_agent_spec] by (simp add: strip_trigger_def strip_ref_def) (metis agent_ref.select_convs(1) agent_ref.surjective agent_ref.update_convs(1,2))
  with t have strip: "py_strip t = t" by simp
  obtain a where a: "row_at agents t (ref_spec_id (tw_agent_spec w)) (ref_revision (tw_agent_spec w)) = Some a"
    and iso: "aw_isolation (rv_payload a) = tw_exposure w"
  proof -
    let ?r = "row_at agents t (ref_spec_id (tw_agent_spec w)) (ref_revision (tw_agent_spec w))"
    have "agent_get_revision (tw_agent_spec w) agents = Inr ?r"
      unfolding agent_get_revision_def get_revision_row_def t
      by (rule read_opt_inv [OF inv(1)]) (simp add: row_at_mem)
    with good(1) that t show thesis
      by (cases ?r) (auto simp: validate_target_def split: if_splits)
  qed
  from trigger_rows.append_row_law [OF inv(2) w good(2)] show ?thesis
  proof (elim disjE exE conjE)
    fix s
    assume "appended (trigger_row zone cron) db s db'" "rv_payload s = w" "rv_tenant_id s = py_strip t"
    with t strip a iso old show ?thesis by (simp add: appended_def target_ok_def)
  qed (use old in simp_all)
qed

lemma activate_row_revisions:
  "rev_inv mk db \<Longrightarrow> activate_row noun missing rd t i n expected now by db = (x, db') \<Longrightarrow> revisions db' = revisions db"
  using activate_law by (fastforce simp: switched_def)

lemma spec_exec_keeps:
  assumes "spec_inv E db"
  shows "spec_inv E (snd (spec_exec E c db)) \<and> spec_evolves E db (snd (spec_exec E c db))"
proof -
  let ?mk = "trigger_row (se_zone E) (se_cron E)"
  have a: "rev_inv agent_row (sd_agents db)" and g: "rev_inv ?mk (sd_triggers db)"
    and o: "\<forall>r \<in> set (revisions (sd_triggers db)). target_ok (sd_agents db) r"
    using assms by (simp_all add: spec_inv_def)
  have refl: "spec_evolves E db db" using a g by (simp add: spec_evolves_def)
  have act: "revisions d = revisions (sd_triggers db)"
    if "trigger_activate (se_zone E) (se_cron E) t i n expected now who (sd_triggers db) = (x, d)" for t i n expected now who x d
    using activate_row_revisions [OF g that [unfolded trigger_activate_def]] .
  show ?thesis
  proof (cases c)
    case (AgentSave now fresh t actor w i expected)
    show ?thesis
    proof (cases "AgentSpecWrite w")
      case (Inl e)
      with AgentSave assms refl show ?thesis by (simp add: model_error_def)
    next
      case (Inr v)
      have v: "strip_agent v = v" using constructD [OF Inr [unfolded AgentSpecWrite_def]] by simp
      show ?thesis unfolding AgentSave spec_exec.simps Inr model_error_def sum.case checked_simps agent_save_def
        by (rule on_agents_evolves [OF assms]) (rule agent_create_keeps [OF a v])
    qed
  next
    case (TriggerSave now fresh t actor w i expected)
    show ?thesis
    proof (cases "TriggerSpecWrite (se_zone E) (se_cron E) w")
      case (Inl e)
      with TriggerSave assms refl show ?thesis by (simp add: model_error_def)
    next
      case (Inr v)
      have v: "strip_trigger v = v" using constructD [OF Inr [unfolded TriggerSpecWrite_def]] by simp
      show ?thesis unfolding TriggerSave spec_exec.simps Inr model_error_def sum.case checked_simps trigger_save_def
        by (rule on_triggers_evolves [OF assms], rule conjI [OF trigger_create_keeps [OF g v] trigger_create_target [OF a g v _ o]])
    qed
  next
    case (TriggerActivate now t actor i n expected)
    show ?thesis unfolding TriggerActivate spec_exec.simps
      by (rule on_triggers_evolves [OF assms])
        (use trigger_service_activate_keeps [OF g] act o in
          \<open>auto simp: trigger_service_activate_def split: sum.splits option.splits\<close>)
  next
    case (TriggerRollback now t actor i expected)
    show ?thesis unfolding TriggerRollback spec_exec.simps
      by (rule on_triggers_evolves [OF assms])
        (use trigger_rollback_keeps [OF g] act o in
          \<open>auto simp: trigger_rollback_def split: sum.splits option.splits if_splits\<close>)
  next
    case (TriggerDeactivate t i expected)
    have k: "evolves ?mk (sd_triggers db) d \<and> (\<forall>r \<in> set (revisions d). target_ok (sd_agents db) r)"
      if d: "trigger_deactivate t i expected (sd_triggers db) = (x, d)" for x d
    proof -
      have "revisions d = revisions (sd_triggers db)"
        using deactivate_law [OF g d [unfolded trigger_deactivate_def]] by (auto simp: switched_def)
      with o trigger_deactivate_keeps [OF g d] show ?thesis by simp
    qed
    show ?thesis unfolding TriggerDeactivate spec_exec.simps by (rule on_triggers_evolves [OF assms k])
  next
    case (AgentActivate now t actor i n expected)
    show ?thesis unfolding AgentActivate spec_exec.simps
      by (rule on_agents_evolves [OF assms]) (rule agent_service_activate_keeps [OF a])
  next
    case (AgentRollback now t actor i expected)
    show ?thesis unfolding AgentRollback spec_exec.simps
      by (rule on_agents_evolves [OF assms]) (rule agent_rollback_keeps [OF a])
  next
    case (AgentDeactivate t i expected)
    show ?thesis unfolding AgentDeactivate spec_exec.simps
      by (rule on_agents_evolves [OF assms]) (rule agent_deactivate_keeps [OF a])
  next
    case (AgentSeed now t actor)
    show ?thesis unfolding AgentSeed spec_exec.simps
      by (rule on_agents_evolves [OF assms]) (rule seed_defaults_keeps [OF a])
  qed
qed

end
