(* ===== verification/TriggerSnapshot.thy ===== *)
theory TriggerSnapshot
  imports SpecStore
begin

text \<open>
  \<^verbatim>\<open>specs/dispatcher.py\<close>, \<open>_serialize_snapshot\<close> and \<open>_deserialize_snapshot\<close>: how the result of a trigger
  run is stored in the outbox and read back, over the snapshot and approval classes of
  \<^verbatim>\<open>deep_agent/contracts.py\<close> and the run context of \<^verbatim>\<open>specs/protocol.py\<close>. The JSON text is the JSON
  value: \<open>json.dumps\<close> with sorted keys and \<open>json.loads\<close> are inverse up to the order of keys, which no
  reader looks at.
\<close>

section \<open>Snapshots\<close>

datatype dispatch_error =
    DispatchValueError string
  | DispatchKeyError string
  | DispatchTypeError
  | DispatchValidation validation_error
  | DispatchPermissionError string
  | DispatchIntegrityError
  | DispatchSpecError spec_error

record agent_approval =
  ap_id :: string
  ap_tool_name :: string
  ap_description :: string
  ap_arguments :: "(string \<times> json) list"
  ap_allowed_decisions :: "string list"
  ap_status :: string
  ap_edited_arguments :: "(string \<times> json) list option"
  ap_message :: "string option"

record run_snapshot =
  sn_run_id :: string
  sn_context :: run_context
  sn_status :: string
  sn_final_text :: string
  sn_error :: string
  sn_approvals :: "agent_approval list"
  sn_created_at :: string
  sn_updated_at :: string
  sn_inference_plan :: "json option"

fun opt_str :: "string option \<Rightarrow> json" where
  "opt_str None = JNull"
| "opt_str (Some s) = JStr s"

definition trust_name :: "trust_class \<Rightarrow> string" where
  "trust_name c = (case c of TrustOwner \<Rightarrow> ''owner'' | TrustBackground \<Rightarrow> ''background'' | TrustExternal \<Rightarrow> ''external'')"

definition dump_context :: "run_context \<Rightarrow> json" where
  "dump_context c = JObj [(''tenant_id'', JStr (rc_tenant_id c)), (''actor_id'', JStr (rc_actor_id c)),
     (''thread_id'', JStr (rc_thread_id c)), (''channel'', JStr (rc_channel c)), (''run_kind'', JStr (rc_run_kind c)),
     (''correlation_id'', JStr (rc_correlation_id c)),
     (''origin'', JObj [(''interface'', JStr (or_interface (rc_origin c))), (''source_id'', JStr (or_source_id (rc_origin c))),
        (''conversation_id'', opt_str (or_conversation_id (rc_origin c))), (''message_id'', opt_str (or_message_id (rc_origin c)))]),
     (''agent_spec'', JObj [(''tenant_id'', JStr (ref_tenant_id (rc_agent_spec c))), (''spec_id'', JStr (ref_spec_id (rc_agent_spec c))),
        (''revision'', JInt (ref_revision (rc_agent_spec c)))]),
     (''trust_class'', JStr (trust_name (rc_trust_class c)))]"

definition dump_approval :: "agent_approval \<Rightarrow> json" where
  "dump_approval a = JObj [(''id'', JStr (ap_id a)), (''tool_name'', JStr (ap_tool_name a)),
     (''description'', JStr (ap_description a)), (''arguments'', JObj (ap_arguments a)),
     (''allowed_decisions'', JArr (map JStr (ap_allowed_decisions a))), (''status'', JStr (ap_status a)),
     (''edited_arguments'', (case ap_edited_arguments a of None \<Rightarrow> JNull | Some o' \<Rightarrow> JObj o')),
     (''message'', opt_str (ap_message a))]"

definition serialize_snapshot :: "run_snapshot \<Rightarrow> json" where
  "serialize_snapshot s = JObj [(''run_id'', JStr (sn_run_id s)), (''context'', dump_context (sn_context s)),
     (''status'', JStr (sn_status s)), (''final_text'', JStr (sn_final_text s)), (''error'', JStr (sn_error s)),
     (''approvals'', JArr (map dump_approval (sn_approvals s))), (''created_at'', JStr (sn_created_at s)),
     (''updated_at'', JStr (sn_updated_at s))]"

text \<open>
  Reading back. \<open>rp\<close> is \<open>str\<close> of a JSON value that is not a string and \<open>pairs\<close> is \<open>dict\<close> of an array,
  neither of which the store ever writes.
\<close>

fun truthy :: "json \<Rightarrow> bool" where
  "truthy JNull = False"
| "truthy (JBool b) = b"
| "truthy (JInt n) = (n \<noteq> 0)"
| "truthy (JFloat f) = (f \<noteq> ''0.0'' \<and> f \<noteq> ''-0.0'')"
| "truthy (JStr s) = (s \<noteq> [])"
| "truthy (JArr xs) = (xs \<noteq> [])"
| "truthy (JObj xs) = (xs \<noteq> [])"

fun py_str :: "(json \<Rightarrow> string) \<Rightarrow> json \<Rightarrow> string" where
  "py_str rp (JStr s) = s"
| "py_str rp j = rp j"

definition required_field :: "(string \<times> json) list \<Rightarrow> string \<Rightarrow> dispatch_error + json" where
  "required_field o' k = (case map_of o' k of None \<Rightarrow> Inl (DispatchKeyError k) | Some j \<Rightarrow> Inr j)"

definition text_or_empty :: "(json \<Rightarrow> string) \<Rightarrow> (string \<times> json) list \<Rightarrow> string \<Rightarrow> string" where
  "text_or_empty rp o' k = (case map_of o' k of None \<Rightarrow> [] | Some j \<Rightarrow> if truthy j then py_str rp j else [])"

fun as_dict :: "(json list \<Rightarrow> (string \<times> json) list option) \<Rightarrow> json \<Rightarrow> dispatch_error + (string \<times> json) list" where
  "as_dict pairs (JObj o') = Inr o'"
| "as_dict pairs (JArr xs) = (case pairs xs of None \<Rightarrow> Inl DispatchTypeError | Some o' \<Rightarrow> Inr o')"
| "as_dict pairs (JStr s) = Inl (DispatchValueError ''dictionary update sequence'')"
| "as_dict pairs j = Inl DispatchTypeError"

definition load_approval ::
  "(json \<Rightarrow> string) \<Rightarrow> (json list \<Rightarrow> (string \<times> json) list option) \<Rightarrow> (string \<times> json) list \<Rightarrow>
   dispatch_error + agent_approval" where
  "load_approval rp pairs it =
     (case required_field it ''id'' of Inl e \<Rightarrow> Inl e | Inr i \<Rightarrow>
      (case required_field it ''tool_name'' of Inl e \<Rightarrow> Inl e | Inr tn \<Rightarrow>
       (case required_field it ''description'' of Inl e \<Rightarrow> Inl e | Inr d \<Rightarrow>
        (case (case map_of it ''arguments'' of None \<Rightarrow> Inr []
            | Some j \<Rightarrow> if truthy j then as_dict pairs j else Inr []) of Inl e \<Rightarrow> Inl e | Inr args \<Rightarrow>
         (case (case map_of it ''allowed_decisions'' of None \<Rightarrow> Inr []
             | Some (JArr xs) \<Rightarrow> Inr (map (py_str rp) xs) | Some (JStr s) \<Rightarrow> Inr (map (\<lambda>c. [c]) s)
             | Some (JObj o') \<Rightarrow> Inr (map fst o') | Some _ \<Rightarrow> Inl DispatchTypeError) of Inl e \<Rightarrow> Inl e | Inr ds \<Rightarrow>
            Inr \<lparr>ap_id = py_str rp i, ap_tool_name = py_str rp tn, ap_description = py_str rp d,
              ap_arguments = args, ap_allowed_decisions = ds,
              ap_status = (let st = text_or_empty rp it ''status'' in if st = [] then ''pending'' else st),
              ap_edited_arguments = (case map_of it ''edited_arguments'' of Some (JObj o') \<Rightarrow> Some o' | _ \<Rightarrow> None),
              ap_message = (case map_of it ''message'' of None \<Rightarrow> None | Some JNull \<Rightarrow> None
                | Some j \<Rightarrow> Some (py_str rp j))\<rparr>)))))"

fun load_approvals ::
  "(json \<Rightarrow> string) \<Rightarrow> (json list \<Rightarrow> (string \<times> json) list option) \<Rightarrow> json list \<Rightarrow>
   dispatch_error + agent_approval list" where
  "load_approvals rp pairs [] = Inr []"
| "load_approvals rp pairs (j # js) = (case j of
     JObj it \<Rightarrow> (case load_approval rp pairs it of Inl e \<Rightarrow> Inl e
       | Inr a \<Rightarrow> (case load_approvals rp pairs js of Inl e \<Rightarrow> Inl e | Inr as \<Rightarrow> Inr (a # as)))
   | _ \<Rightarrow> load_approvals rp pairs js)"

fun str_field :: "(string \<times> json) list \<Rightarrow> string \<Rightarrow> string option" where
  "str_field o' k = (case map_of o' k of Some (JStr s) \<Rightarrow> Some s | _ \<Rightarrow> None)"

fun opt_field :: "(string \<times> json) list \<Rightarrow> string \<Rightarrow> string option option" where
  "opt_field o' k = (case map_of o' k of None \<Rightarrow> Some None | Some JNull \<Rightarrow> Some None
     | Some (JStr s) \<Rightarrow> Some (Some s) | Some _ \<Rightarrow> None)"

definition load_ref :: "json option \<Rightarrow> agent_ref option" where
  "load_ref j = (case j of Some (JObj o') \<Rightarrow>
     if set (map fst o') \<subseteq> {''tenant_id'', ''spec_id'', ''revision''} then
       (case (str_field o' ''tenant_id'', str_field o' ''spec_id'', map_of o' ''revision'') of
          (Some t, Some i, Some (JInt n)) \<Rightarrow> Some \<lparr>ref_tenant_id = t, ref_spec_id = i, ref_revision = n\<rparr>
        | _ \<Rightarrow> None)
     else None
   | _ \<Rightarrow> None)"

definition load_origin :: "json option \<Rightarrow> origin_ref option" where
  "load_origin j = (case j of Some (JObj o') \<Rightarrow>
     if set (map fst o') \<subseteq> {''interface'', ''source_id'', ''conversation_id'', ''message_id''} then
       (case (str_field o' ''interface'', str_field o' ''source_id'', opt_field o' ''conversation_id'', opt_field o' ''message_id'') of
          (Some i, Some s, Some c, Some m) \<Rightarrow>
            Some \<lparr>or_interface = i, or_source_id = s, or_conversation_id = c, or_message_id = m\<rparr>
        | _ \<Rightarrow> None)
     else None
   | _ \<Rightarrow> None)"

definition load_trust :: "string option \<Rightarrow> trust_class option" where
  "load_trust s = (if s = Some ''owner'' then Some TrustOwner else if s = Some ''background'' then Some TrustBackground
     else if s = Some ''external'' then Some TrustExternal else None)"

definition load_context :: "json \<Rightarrow> dispatch_error + run_context" where
  "load_context j = (case j of JObj o' \<Rightarrow>
     if set (map fst o') \<subseteq> {''tenant_id'', ''actor_id'', ''thread_id'', ''channel'', ''run_kind'', ''correlation_id'',
          ''origin'', ''agent_spec'', ''trust_class''} then
       (case (str_field o' ''tenant_id'', str_field o' ''actor_id'', str_field o' ''thread_id'', str_field o' ''channel'',
              str_field o' ''run_kind'', str_field o' ''correlation_id'', load_origin (map_of o' ''origin''),
              load_ref (map_of o' ''agent_spec''), load_trust (str_field o' ''trust_class'')) of
          (Some t, Some a, Some th, Some ch, Some rk, Some co, Some og, Some re, Some tc) \<Rightarrow>
            (case AgentRunContext \<lparr>rc_tenant_id = t, rc_actor_id = a, rc_thread_id = th, rc_channel = ch,
                rc_run_kind = rk, rc_correlation_id = co, rc_origin = og, rc_agent_spec = re, rc_trust_class = tc\<rparr> of
               Inl e \<Rightarrow> Inl (DispatchValidation e) | Inr c \<Rightarrow> Inr c)
        | _ \<Rightarrow> Inl (DispatchValidation (FieldErrors (map fst o'))))
     else Inl (DispatchValidation (FieldErrors (map fst o')))
   | _ \<Rightarrow> Inl (DispatchValidation (FieldErrors [])))"

definition deserialize_snapshot ::
  "(json \<Rightarrow> string) \<Rightarrow> (json list \<Rightarrow> (string \<times> json) list option) \<Rightarrow> json \<Rightarrow> dispatch_error + run_snapshot" where
  "deserialize_snapshot rp pairs value = (case value of JObj v \<Rightarrow>
     (case (case map_of v ''approvals'' of None \<Rightarrow> Some [] | Some (JArr xs) \<Rightarrow> Some xs | Some _ \<Rightarrow> None) of
        None \<Rightarrow> Inl (DispatchValueError ''trigger delivery approvals must be a list'')
      | Some approvals \<Rightarrow>
        (case required_field v ''run_id'' of Inl e \<Rightarrow> Inl e | Inr i \<Rightarrow>
         (case required_field v ''context'' of Inl e \<Rightarrow> Inl e | Inr cj \<Rightarrow>
          (case load_context cj of Inl e \<Rightarrow> Inl e | Inr c \<Rightarrow>
           (case required_field v ''status'' of Inl e \<Rightarrow> Inl e | Inr st \<Rightarrow>
            (case load_approvals rp pairs approvals of Inl e \<Rightarrow> Inl e | Inr as \<Rightarrow>
              Inr \<lparr>sn_run_id = py_str rp i, sn_context = c, sn_status = py_str rp st,
                sn_final_text = text_or_empty rp v ''final_text'', sn_error = text_or_empty rp v ''error'',
                sn_approvals = as, sn_created_at = text_or_empty rp v ''created_at'',
                sn_updated_at = text_or_empty rp v ''updated_at'', sn_inference_plan = None\<rparr>))))))
   | _ \<Rightarrow> Inl (DispatchValueError ''trigger delivery snapshot must be an object''))"

lemma load_dump_approval:
  assumes "ap_status a \<noteq> []"
  shows "load_approval rp pairs [(''id'', JStr (ap_id a)), (''tool_name'', JStr (ap_tool_name a)),
     (''description'', JStr (ap_description a)), (''arguments'', JObj (ap_arguments a)),
     (''allowed_decisions'', JArr (map JStr (ap_allowed_decisions a))), (''status'', JStr (ap_status a)),
     (''edited_arguments'', (case ap_edited_arguments a of None \<Rightarrow> JNull | Some o' \<Rightarrow> JObj o')),
     (''message'', opt_str (ap_message a))] = Inr a"
  using assms by (cases a; cases "ap_message a"; cases "ap_edited_arguments a")
    (auto simp: load_approval_def required_field_def text_or_empty_def comp_def Let_def)

lemma load_dump_approvals:
  "list_all (\<lambda>a. ap_status a \<noteq> []) as \<Longrightarrow> load_approvals rp pairs (map dump_approval as) = Inr as"
  by (induction as) (simp_all add: dump_approval_def load_dump_approval)

lemma load_dump_context:
  assumes "AgentRunContext c = Inr c"
  shows "load_context (dump_context c) = Inr c"
proof -
  have o: "load_origin (Some (JObj [(''interface'', JStr (or_interface g)), (''source_id'', JStr (or_source_id g)),
      (''conversation_id'', opt_str (or_conversation_id g)), (''message_id'', opt_str (or_message_id g))])) = Some g" for g
    by (cases g; cases "or_conversation_id g"; cases "or_message_id g") (auto simp: load_origin_def)
  have r: "load_ref (Some (JObj [(''tenant_id'', JStr (ref_tenant_id f)), (''spec_id'', JStr (ref_spec_id f)),
      (''revision'', JInt (ref_revision f))])) = Some f" for f
    by (cases f) (simp add: load_ref_def)
  have t: "load_trust (Some (trust_name k)) = Some k" for k by (cases k) (simp_all add: load_trust_def trust_name_def)
  have c: "\<lparr>rc_tenant_id = rc_tenant_id c, rc_actor_id = rc_actor_id c, rc_thread_id = rc_thread_id c,
      rc_channel = rc_channel c, rc_run_kind = rc_run_kind c, rc_correlation_id = rc_correlation_id c,
      rc_origin = rc_origin c, rc_agent_spec = rc_agent_spec c, rc_trust_class = rc_trust_class c\<rparr> = c"
    by (cases c) simp
  show ?thesis by (simp add: load_context_def dump_context_def o r t c assms)
qed

text \<open>
  C34: A stored snapshot reads back as it was written: run, context, status, texts, approvals with
  their arguments and decisions, and times. Only the inference plan is not stored and comes back
  empty. The context is a constructed one and every approval has a status, as their classes require.
\<close>

theorem snapshot_round_trip:
  assumes "AgentRunContext (sn_context s) = Inr (sn_context s)" "list_all (\<lambda>a. ap_status a \<noteq> []) (sn_approvals s)"
  shows "deserialize_snapshot rp pairs (serialize_snapshot s) = Inr (s\<lparr>sn_inference_plan := None\<rparr>)"
  using assms by (simp add: serialize_snapshot_def deserialize_snapshot_def required_field_def text_or_empty_def
      load_dump_context load_dump_approvals)

definition example_snapshot :: run_snapshot where
  "example_snapshot = \<lparr>sn_run_id = ''r1'',
     sn_context = \<lparr>rc_tenant_id = ''t'', rc_actor_id = ''u'', rc_thread_id = ''th'', rc_channel = ''web'',
       rc_run_kind = ''routine'', rc_correlation_id = ''c'',
       rc_origin = \<lparr>or_interface = ''web'', or_source_id = ''x'', or_conversation_id = None, or_message_id = Some ''m''\<rparr>,
       rc_agent_spec = \<lparr>ref_tenant_id = ''t'', ref_spec_id = ''a'', ref_revision = 1\<rparr>, rc_trust_class = TrustBackground\<rparr>,
     sn_status = ''interrupted'', sn_final_text = [], sn_error = ''e'',
     sn_approvals = [\<lparr>ap_id = ''p'', ap_tool_name = ''send'', ap_description = [], ap_arguments = [(''to'', JStr ''x'')],
       ap_allowed_decisions = [''approve'', ''edit''], ap_status = ''pending'', ap_edited_arguments = Some [],
       ap_message = None\<rparr>],
     sn_created_at = ''c'', sn_updated_at = [], sn_inference_plan = Some JNull\<rparr>"

theorem snapshot_round_trip_witness:
  "deserialize_snapshot (\<lambda>_. []) (\<lambda>_. None) (serialize_snapshot example_snapshot) =
     Inr (example_snapshot\<lparr>sn_inference_plan := None\<rparr>)"
proof (rule snapshot_round_trip)
  show "AgentRunContext (sn_context example_snapshot) = Inr (sn_context example_snapshot)" by code_simp
  show "list_all (\<lambda>a. ap_status a \<noteq> []) (sn_approvals example_snapshot)" by code_simp
qed

end
