(* ===== verification/TriggerExecution.thy ===== *)
theory TriggerExecution
  imports TriggerSnapshot
begin

text \<open>
  \<^verbatim>\<open>specs/dispatcher.py\<close>, class \<open>TriggerExecutionStore\<close>: the table that fences the runs of a trigger
  (one row per tenant, trigger, revision and fire key, held under a lease) and the outbox of results
  to deliver. Every method is one definition and one transaction. Clock readings, lease lengths (in
  the clock's unit) and the tokens drawn by \<open>uuid4\<close> are arguments. An aware instant's ISO text sorts
  like the instant, so lease expiry is a comparison of instants.
\<close>

section \<open>Data\<close>

type_synonym fire = "string \<times> string \<times> int \<times> string"

datatype final_status = Completed | Interrupted | Failed

datatype exec_status = ExecRunning | ExecDone final_status

datatype out_mode = ModeOrigin | ModeOwner

datatype out_status = OutPending | OutDelivering | OutDelivered

record exec_row =
  ex_key :: fire
  ex_status :: exec_status
  ex_run_id :: "string option"
  ex_attempt_count :: nat
  ex_lease_token :: "string option"
  ex_lease_expires_at :: "timestamp option"
  ex_updated_at :: timestamp

record outbox_row =
  ob_id :: nat
  ob_key :: fire
  ob_mode :: out_mode
  ob_snapshot :: json
  ob_status :: out_status
  ob_attempt_count :: nat
  ob_lease_token :: "string option"
  ob_lease_expires_at :: "timestamp option"
  ob_created_at :: timestamp
  ob_updated_at :: timestamp

record exec_db =
  executions :: "exec_row list"
  outbox :: "outbox_row list"
  outbox_seq :: nat

record claimed_delivery =
  cd_id :: nat
  cd_key :: fire
  cd_mode :: out_mode
  cd_snapshot :: run_snapshot
  cd_lease_token :: string

definition empty_exec_db :: exec_db where
  "empty_exec_db = \<lparr>executions = [], outbox = [], outbox_seq = 0\<rparr>"

definition fire_of :: "trigger_spec_write revision \<Rightarrow> string \<Rightarrow> fire" where
  "fire_of g k = (rv_tenant_id g, rv_id g, rv_revision g, k)"

definition expired :: "timestamp \<Rightarrow> timestamp option \<Rightarrow> bool" where
  "expired now e = (case e of None \<Rightarrow> True | Some t \<Rightarrow> t \<le> now)"

section \<open>Executions\<close>

definition claim :: "fire \<Rightarrow> int \<Rightarrow> timestamp \<Rightarrow> string \<Rightarrow> (exec_db, dispatch_error, string option) oper" where
  "claim k lease_seconds now lease_token db =
     (if lease_seconds \<le> 0 then raises (DispatchValueError ''trigger execution lease must be positive'') db
      else
        let lease_expires_at = plus_seconds now lease_seconds in
        if sel (\<lambda>r. ex_key r = k) (executions db) = None then
          ok (Some lease_token) (db\<lparr>executions := executions db @ [\<lparr>ex_key = k, ex_status = ExecRunning,
            ex_run_id = None, ex_attempt_count = 1, ex_lease_token = Some lease_token,
            ex_lease_expires_at = Some lease_expires_at, ex_updated_at = now\<rparr>]\<rparr>)
        else
          let hit = (\<lambda>r. ex_key r = k \<and> ex_status r = ExecRunning \<and> expired now (ex_lease_expires_at r)) in
          ok (if length (filter hit (executions db)) = 1 then Some lease_token else None)
            (db\<lparr>executions := upd hit (\<lambda>r. r\<lparr>ex_attempt_count := Suc (ex_attempt_count r),
               ex_lease_token := Some lease_token, ex_lease_expires_at := Some lease_expires_at,
               ex_updated_at := now\<rparr>) (executions db)\<rparr>))"

definition finish ::
  "fire \<Rightarrow> string \<Rightarrow> final_status \<Rightarrow> string option \<Rightarrow> (run_snapshot \<times> out_mode) option \<Rightarrow> timestamp \<Rightarrow>
   (exec_db, dispatch_error, bool) oper" where
  "finish k lease_token status run_id delivery now db =
     (let hit = (\<lambda>r. ex_key r = k \<and> ex_status r = ExecRunning \<and> ex_lease_token r = Some lease_token);
          updated = length (filter hit (executions db));
          db1 = db\<lparr>executions := upd hit (\<lambda>r. r\<lparr>ex_status := ExecDone status, ex_run_id := run_id,
            ex_lease_token := None, ex_lease_expires_at := None, ex_updated_at := now\<rparr>) (executions db)\<rparr>
      in case delivery of
           None \<Rightarrow> ok (updated = 1) db1
         | Some (snapshot, mode) \<Rightarrow>
             if updated \<noteq> 1 then ok False db1
             else if list_ex (\<lambda>r. ob_key r = k) (outbox db) then raises DispatchIntegrityError db
             else ok True (db1\<lparr>outbox := outbox db @ [\<lparr>ob_id = Suc (outbox_seq db), ob_key = k, ob_mode = mode,
                 ob_snapshot = serialize_snapshot snapshot, ob_status = OutPending, ob_attempt_count = 0,
                 ob_lease_token = None, ob_lease_expires_at = None, ob_created_at = now, ob_updated_at = now\<rparr>],
               outbox_seq := Suc (outbox_seq db)\<rparr>))"

section \<open>Outbox\<close>

definition claimable :: "timestamp \<Rightarrow> outbox_row \<Rightarrow> bool" where
  "claimable now r = (ob_status r = OutPending \<or>
     ob_status r = OutDelivering \<and> expired now (ob_lease_expires_at r))"

text \<open>
  \<open>ld\<close> is the snapshot reader; its exception leaves the connection without commit. \<open>draw n\<close> is the
  n-th token.
\<close>

fun claim_rows ::
  "(json \<Rightarrow> dispatch_error + run_snapshot) \<Rightarrow> (nat \<Rightarrow> string) \<Rightarrow> timestamp \<Rightarrow> timestamp \<Rightarrow> nat \<Rightarrow> outbox_row list \<Rightarrow>
   outbox_row list \<Rightarrow> dispatch_error + claimed_delivery list \<times> outbox_row list" where
  "claim_rows ld draw now expires n [] ob = Inr ([], ob)"
| "claim_rows ld draw now expires n (row # rest) ob =
     (let hit = (\<lambda>r. ob_id r = ob_id row \<and> claimable now r);
          ob1 = upd hit (\<lambda>r. r\<lparr>ob_status := OutDelivering, ob_attempt_count := Suc (ob_attempt_count r),
            ob_lease_token := Some (draw n), ob_lease_expires_at := Some expires, ob_updated_at := now\<rparr>) ob
      in if length (filter hit ob) \<noteq> 1 then claim_rows ld draw now expires (Suc n) rest ob1
         else case ld (ob_snapshot row) of Inl e \<Rightarrow> Inl e
           | Inr s \<Rightarrow> (case claim_rows ld draw now expires (Suc n) rest ob1 of Inl e \<Rightarrow> Inl e
               | Inr (cs, ob2) \<Rightarrow> Inr (\<lparr>cd_id = ob_id row, cd_key = ob_key row, cd_mode = ob_mode row,
                   cd_snapshot = s, cd_lease_token = draw n\<rparr> # cs, ob2)))"

definition claim_deliveries ::
  "(json \<Rightarrow> dispatch_error + run_snapshot) \<Rightarrow> (nat \<Rightarrow> string) \<Rightarrow> int \<Rightarrow> int \<Rightarrow> timestamp \<Rightarrow>
   (exec_db, dispatch_error, claimed_delivery list) oper" where
  "claim_deliveries ld draw lease_seconds limit now db =
     (if lease_seconds \<le> 0 then raises (DispatchValueError ''trigger delivery lease must be positive'') db
      else if limit \<le> 0 then raises (DispatchValueError ''trigger delivery claim limit must be positive'') db
      else
        let due = take (nat limit) (sort_key ob_id (filter (claimable now) (outbox db))) in
        case claim_rows ld draw now (plus_seconds now lease_seconds) 0 due (outbox db) of
          Inl e \<Rightarrow> raises e db
        | Inr (claimed, ob) \<Rightarrow> ok claimed (db\<lparr>outbox := ob\<rparr>))"

fun instant :: "timestamp \<Rightarrow> int" where
  "instant (At n) = int n"

definition next_delivery_lease_delay :: "timestamp \<Rightarrow> exec_db \<Rightarrow> int option" where
  "next_delivery_lease_delay now db =
     (let held = filter (\<lambda>r. ob_status r = OutDelivering) (outbox db) in
      if held = [] then None
      else if list_ex (\<lambda>r. ob_lease_expires_at r = None) held then Some 0
      else Some (max 0 (Min (set (map (\<lambda>r. case ob_lease_expires_at r of None \<Rightarrow> 0 | Some t \<Rightarrow> instant t) held)) - instant now)))"

definition complete_delivery :: "nat \<Rightarrow> string \<Rightarrow> timestamp \<Rightarrow> (exec_db, dispatch_error, bool) oper" where
  "complete_delivery i lease_token now db =
     (let hit = (\<lambda>r. ob_id r = i \<and> ob_status r = OutDelivering \<and> ob_lease_token r = Some lease_token) in
      ok (length (filter hit (outbox db)) = 1)
        (db\<lparr>outbox := upd hit (\<lambda>r. r\<lparr>ob_status := OutDelivered, ob_lease_token := None,
           ob_lease_expires_at := None, ob_updated_at := now\<rparr>) (outbox db)\<rparr>))"

definition retry_delivery :: "nat \<Rightarrow> string \<Rightarrow> timestamp \<Rightarrow> (exec_db, dispatch_error, bool) oper" where
  "retry_delivery i lease_token now db =
     (let hit = (\<lambda>r. ob_id r = i \<and> ob_status r = OutDelivering \<and> ob_lease_token r = Some lease_token) in
      ok (length (filter hit (outbox db)) = 1)
        (db\<lparr>outbox := upd hit (\<lambda>r. r\<lparr>ob_status := OutPending, ob_lease_token := None,
           ob_lease_expires_at := None, ob_updated_at := now\<rparr>) (outbox db)\<rparr>))"

section \<open>The store driven by calls\<close>

datatype exec_call =
    Claim fire int timestamp string
  | Finish fire string final_status "string option" "(run_snapshot \<times> out_mode) option" timestamp
  | ClaimDeliveries "nat \<Rightarrow> string" int int timestamp
  | CompleteDelivery nat string timestamp
  | RetryDelivery nat string timestamp

datatype exec_result =
    GotToken "string option"
  | GotBool bool
  | GotDeliveries "claimed_delivery list"

definition as_result :: "('a \<Rightarrow> exec_result) \<Rightarrow> (dispatch_error + 'a) \<times> exec_db \<Rightarrow> (dispatch_error + exec_result) \<times> exec_db" where
  "as_result f r = ((case fst r of Inl e \<Rightarrow> Inl e | Inr x \<Rightarrow> Inr (f x)), snd r)"

fun exec_exec :: "(json \<Rightarrow> dispatch_error + run_snapshot) \<Rightarrow> exec_call \<Rightarrow> exec_db \<Rightarrow> (dispatch_error + exec_result) \<times> exec_db" where
  "exec_exec ld (Claim k lease now token) db = as_result GotToken (claim k lease now token db)"
| "exec_exec ld (Finish k token status run_id delivery now) db =
     as_result GotBool (finish k token status run_id delivery now db)"
| "exec_exec ld (ClaimDeliveries draw lease limit now) db =
     as_result GotDeliveries (claim_deliveries ld draw lease limit now db)"
| "exec_exec ld (CompleteDelivery i token now) db = as_result GotBool (complete_delivery i token now db)"
| "exec_exec ld (RetryDelivery i token now) db = as_result GotBool (retry_delivery i token now db)"

section \<open>Invariant\<close>

declare split_paired_All [simp del] split_paired_Ex [simp del]

definition settled_run :: "fire \<Rightarrow> exec_db \<Rightarrow> bool" where
  "settled_run k db = (\<exists>r \<in> set (executions db). ex_key r = k \<and> ex_status r \<noteq> ExecRunning)"

definition delivered :: "nat \<Rightarrow> exec_db \<Rightarrow> bool" where
  "delivered i db = (\<exists>r \<in> set (outbox db). ob_id r = i \<and> ob_status r = OutDelivered)"

definition exec_inv :: "exec_db \<Rightarrow> bool" where
  "exec_inv db = (distinct (map ex_key (executions db)) \<and> distinct (map ob_key (outbox db)) \<and>
     distinct (map ob_id (outbox db)) \<and>
     (\<forall>r \<in> set (outbox db). ob_id r \<le> outbox_seq db \<and> settled_run (ob_key r) db \<and>
        (ob_status r = OutDelivering \<longleftrightarrow> ob_lease_token r \<noteq> None)))"

definition out_ident :: "outbox_row \<Rightarrow> nat \<times> fire \<times> out_mode \<times> json" where
  "out_ident r = (ob_id r, ob_key r, ob_mode r, ob_snapshot r)"

definition out_grows :: "exec_db \<Rightarrow> exec_db \<Rightarrow> bool" where
  "out_grows db db' = (\<exists>new. map out_ident (outbox db') = map out_ident (outbox db) @ new)"

definition finished_by :: "fire \<Rightarrow> exec_call \<times> (dispatch_error + exec_result) \<Rightarrow> bool" where
  "finished_by k cx = (case fst cx of Finish k' _ _ _ _ _ \<Rightarrow> k' = k \<and> snd cx = Inr (GotBool True) | _ \<Rightarrow> False)"

definition completed_by :: "nat \<Rightarrow> exec_call \<times> (dispatch_error + exec_result) \<Rightarrow> bool" where
  "completed_by i cx = (case fst cx of CompleteDelivery i' _ _ \<Rightarrow> i' = i \<and> snd cx = Inr (GotBool True) | _ \<Rightarrow> False)"

lemma exec_invD:
  assumes "exec_inv db"
  shows "distinct (map ex_key (executions db))" "distinct (map ob_key (outbox db))" "distinct (map ob_id (outbox db))"
    "r \<in> set (outbox db) \<Longrightarrow> ob_id r \<le> outbox_seq db" "r \<in> set (outbox db) \<Longrightarrow> settled_run (ob_key r) db"
    "r \<in> set (outbox db) \<Longrightarrow> ob_status r = OutDelivering \<longleftrightarrow> ob_lease_token r \<noteq> None"
  using assms by (simp_all add: exec_inv_def)

lemma exec_invI:
  assumes "distinct (map ex_key (executions db))" "distinct (map ob_key (outbox db))" "distinct (map ob_id (outbox db))"
    "\<And>r. r \<in> set (outbox db) \<Longrightarrow> ob_id r \<le> outbox_seq db" "\<And>r. r \<in> set (outbox db) \<Longrightarrow> settled_run (ob_key r) db"
    "\<And>r. r \<in> set (outbox db) \<Longrightarrow> ob_status r = OutDelivering \<longleftrightarrow> ob_lease_token r \<noteq> None"
  shows "exec_inv db"
  using assms by (simp add: exec_inv_def)

text \<open>An update of the executions that leaves the outbox alone.\<close>

lemma inv_executions:
  assumes "exec_inv db" "map ex_key ex = map ex_key (executions db) @ ks" "distinct (map ex_key ex)"
    "\<And>k. settled_run k db \<Longrightarrow> settled_run k (db\<lparr>executions := ex\<rparr>)"
  shows "exec_inv (db\<lparr>executions := ex\<rparr>)"
  using assms exec_invD [OF assms(1)] by (intro exec_invI) auto

text \<open>An update of outbox rows that keeps their identity.\<close>

lemma inv_outbox:
  assumes "exec_inv db" "\<And>r. P r \<Longrightarrow> out_ident (f r) = out_ident r"
    "\<And>r. P r \<Longrightarrow> ob_status (f r) = OutDelivering \<longleftrightarrow> ob_lease_token (f r) \<noteq> None"
  shows "exec_inv (db\<lparr>outbox := upd P f (outbox db)\<rparr>) \<and> out_grows db (db\<lparr>outbox := upd P f (outbox db)\<rparr>)"
proof -
  let ?db = "db\<lparr>outbox := upd P f (outbox db)\<rparr>"
  have id: "P r \<Longrightarrow> ob_id (f r) = ob_id r" "P r \<Longrightarrow> ob_key (f r) = ob_key r" for r
    using assms(2) [of r] by (simp_all add: out_ident_def)
  have "exec_inv ?db"
  proof (rule exec_invI)
    fix r assume "r \<in> set (outbox ?db)"
    then obtain s where s: "s \<in> set (outbox db)" "r = (if P s then f s else s)" by (auto dest: upd_memD)
    show "ob_id r \<le> outbox_seq ?db" using exec_invD(4) [OF assms(1) s(1)] s(2) id by auto
    show "settled_run (ob_key r) ?db" using exec_invD(5) [OF assms(1) s(1)] s(2) id by (auto simp: settled_run_def)
    show "ob_status r = OutDelivering \<longleftrightarrow> ob_lease_token r \<noteq> None"
      using exec_invD(6) [OF assms(1) s(1)] s(2) assms(3) [of s] by (cases "P s") auto
  qed (use exec_invD(1-3) [OF assms(1)] id in \<open>simp_all add: map_upd\<close>)
  moreover have "map out_ident (upd P f (outbox db)) = map out_ident (outbox db)" using assms(2) by (rule map_upd)
  ultimately show ?thesis by (simp add: out_grows_def)
qed

lemma out_grows_refl [simp]: "out_grows db db"
  by (simp add: out_grows_def)

lemma out_grows_same [simp]: "out_grows db (db\<lparr>executions := ex\<rparr>)"
  by (simp add: out_grows_def)

lemma out_grows_trans: "out_grows a b \<Longrightarrow> out_grows b c \<Longrightarrow> out_grows a c"
  by (auto simp: out_grows_def)

section \<open>Steps\<close>

lemma settled_upd:
  assumes "\<And>r. P r \<Longrightarrow> ex_key (f r) = ex_key r \<and> ex_status (f r) = ex_status r"
  shows "settled_run k (db\<lparr>executions := upd P f (executions db)\<rparr>) = settled_run k db"
proof -
  have "(ex_key (if P r then f r else r) = k \<and> ex_status (if P r then f r else r) \<noteq> ExecRunning) =
      (ex_key r = k \<and> ex_status r \<noteq> ExecRunning)" for r using assms [of r] by simp
  then show ?thesis by (simp add: settled_run_def bex_upd)
qed

lemma delivered_upd:
  assumes "\<And>r. P r \<Longrightarrow> ob_id (f r) = ob_id r \<and> ob_status (f r) \<noteq> OutDelivered \<and> ob_status r \<noteq> OutDelivered"
  shows "delivered j (db\<lparr>outbox := upd P f (outbox db)\<rparr>) = delivered j db"
proof -
  have "(ob_id (if P r then f r else r) = j \<and> ob_status (if P r then f r else r) = OutDelivered) =
      (ob_id r = j \<and> ob_status r = OutDelivered)" for r using assms [of r] by auto
  then show ?thesis by (simp add: delivered_def bex_upd)
qed

lemma fire_claim_step:
  assumes inv: "exec_inv db" and c: "claim k lease now token db = (x, db')"
  shows "exec_inv db' \<and> outbox db' = outbox db \<and> (\<forall>k'. settled_run k' db' = settled_run k' db)"
proof (cases "lease \<le> 0")
  case True
  with inv c show ?thesis by (simp add: claim_def)
next
  case pos: False
  show ?thesis
  proof (cases "sel (\<lambda>r. ex_key r = k) (executions db)")
    case None
    let ?r = "\<lparr>ex_key = k, ex_status = ExecRunning, ex_run_id = None, ex_attempt_count = 1, ex_lease_token = Some token,
      ex_lease_expires_at = Some (plus_seconds now lease), ex_updated_at = now\<rparr>"
    have db': "db' = db\<lparr>executions := executions db @ [?r]\<rparr>" using c pos None by (auto simp: claim_def Let_def)
    have d: "settled_run k' db' = settled_run k' db" for k' unfolding db' by (auto simp: settled_run_def)
    have "k \<notin> ex_key ` set (executions db)" using None by (auto simp: sel_None)
    then have "exec_inv db'" unfolding db'
      by (intro inv_executions [OF inv]) (use d db' exec_invD(1) [OF inv] in auto)
    with d db' show ?thesis by simp
  next
    case (Some r)
    let ?hit = "\<lambda>r. ex_key r = k \<and> ex_status r = ExecRunning \<and> expired now (ex_lease_expires_at r)"
    let ?f = "\<lambda>r. r\<lparr>ex_attempt_count := Suc (ex_attempt_count r), ex_lease_token := Some token,
      ex_lease_expires_at := Some (plus_seconds now lease), ex_updated_at := now\<rparr>"
    have db': "db' = db\<lparr>executions := upd ?hit ?f (executions db)\<rparr>" using c pos Some by (auto simp: claim_def Let_def)
    have d: "settled_run k' db' = settled_run k' db" for k' unfolding db' by (rule settled_upd) simp
    have "exec_inv db'" unfolding db'
      by (rule inv_executions [OF inv, where ks = "[]"]) (use d db' exec_invD(1) [OF inv] in \<open>simp_all add: map_upd\<close>)
    with d db' show ?thesis by simp
  qed
qed

lemma finish_step:
  assumes inv: "exec_inv db" and c: "finish k token status rid delivery now db = (x, db')"
  shows "\<exists>b. x = Inr b \<and> exec_inv db' \<and> out_grows db db' \<and> (\<forall>i. delivered i db' = delivered i db) \<and>
    (\<forall>k'. settled_run k' db' \<longleftrightarrow> settled_run k' db \<or> b \<and> k' = k) \<and> (b \<longrightarrow> \<not> settled_run k db)"
proof -
  let ?hit = "\<lambda>r. ex_key r = k \<and> ex_status r = ExecRunning \<and> ex_lease_token r = Some token"
  let ?f = "\<lambda>r. r\<lparr>ex_status := ExecDone status, ex_run_id := rid, ex_lease_token := None, ex_lease_expires_at := None,
    ex_updated_at := now\<rparr>"
  let ?db1 = "db\<lparr>executions := upd ?hit ?f (executions db)\<rparr>"
  have one: "length (filter ?hit (executions db)) = 1 \<longleftrightarrow> (\<exists>r \<in> set (executions db). ?hit r)"
    by (rule filter_keyed [OF exec_invD(1) [OF inv]]) simp
  have uniq: "r = s" if "r \<in> set (executions db)" "s \<in> set (executions db)" "ex_key r = ex_key s" for r s
    using distinct_key_eq [OF exec_invD(1) [OF inv] that] .
  have settled: "settled_run k' ?db1 \<longleftrightarrow> settled_run k' db \<or> (\<exists>r \<in> set (executions db). ?hit r) \<and> k' = k" for k'
    unfolding settled_run_def by (simp add: bex_upd) auto
  have fresh: "\<not> settled_run k db" if "\<exists>r \<in> set (executions db). ?hit r"
    using that uniq by (fastforce simp: settled_run_def)
  have inv1: "exec_inv ?db1"
    by (rule inv_executions [OF inv, where ks = "[]"])
      (use settled exec_invD(1) [OF inv] in \<open>simp_all add: map_upd\<close>)
  show ?thesis
  proof (cases delivery)
    case None
    with c one show ?thesis using inv1 settled fresh by (auto simp: finish_def Let_def delivered_def)
  next
    case (Some sm)
    obtain s m where sm: "sm = (s, m)" by fastforce
    show ?thesis
    proof (cases "\<exists>r \<in> set (executions db). ?hit r")
      case False
      with c one Some sm have "x = Inr False" "db' = ?db1" by (auto simp: finish_def Let_def)
      with False settled inv1 show ?thesis by (auto simp: delivered_def)
    next
      case True
      have new: "\<forall>r \<in> set (outbox db). ob_key r \<noteq> k" using fresh [OF True] exec_invD(5) [OF inv] by blast
      let ?r = "\<lparr>ob_id = Suc (outbox_seq db), ob_key = k, ob_mode = m, ob_snapshot = serialize_snapshot s,
        ob_status = OutPending, ob_attempt_count = 0, ob_lease_token = None, ob_lease_expires_at = None,
        ob_created_at = now, ob_updated_at = now\<rparr>"
      have "\<not> list_ex (\<lambda>r. ob_key r = k) (outbox db)" using new by (simp add: list_ex_iff)
      then have x: "x = Inr True" "db' = ?db1\<lparr>outbox := outbox db @ [?r], outbox_seq := Suc (outbox_seq db)\<rparr>"
        using c one True Some sm by (auto simp: finish_def Let_def)
      have set': "settled_run k' db' = settled_run k' ?db1" for k' unfolding x(2) by (simp add: settled_run_def)
      have ids: "\<forall>r \<in> set (outbox db). ob_id r \<noteq> Suc (outbox_seq db)" using exec_invD(4) [OF inv] by fastforce
      have "exec_inv db'"
      proof (rule exec_invI)
        fix r assume "r \<in> set (outbox db')"
        then consider (old) "r \<in> set (outbox db)" | (new) "r = ?r" unfolding x(2) by auto
        note cs = this
        show "ob_id r \<le> outbox_seq db'" using cs exec_invD(4) [OF inv] x(2) by (cases rule: cs) fastforce+
        show "settled_run (ob_key r) db'" unfolding set' settled using True exec_invD(5) [OF inv]
          by (cases rule: cs) auto
        show "ob_status r = OutDelivering \<longleftrightarrow> ob_lease_token r \<noteq> None"
          using exec_invD(6) [OF inv] by (cases rule: cs) auto
      qed (use exec_invD(1) [OF inv1] exec_invD(2,3) [OF inv] new ids x(2) in auto)
      moreover have "delivered i db' = delivered i db" for i unfolding x(2) by (auto simp: delivered_def)
      moreover have "out_grows db db'" unfolding x(2) by (simp add: out_grows_def)
      ultimately show ?thesis using x(1) set' settled True fresh by auto
    qed
  qed
qed

lemma delivery_upd_step:
  assumes inv: "exec_inv db" and "st \<noteq> OutDelivering"
  shows "exec_inv (db\<lparr>outbox := upd (\<lambda>r. ob_id r = i \<and> ob_status r = OutDelivering \<and> ob_lease_token r = Some token)
      (\<lambda>r. r\<lparr>ob_status := st, ob_lease_token := None, ob_lease_expires_at := None, ob_updated_at := now\<rparr>) (outbox db)\<rparr>) \<and>
    out_grows db (db\<lparr>outbox := upd (\<lambda>r. ob_id r = i \<and> ob_status r = OutDelivering \<and> ob_lease_token r = Some token)
      (\<lambda>r. r\<lparr>ob_status := st, ob_lease_token := None, ob_lease_expires_at := None, ob_updated_at := now\<rparr>) (outbox db)\<rparr>)"
  by (rule inv_outbox [OF inv]) (use assms(2) in \<open>simp_all add: out_ident_def\<close>)

lemma outbox_complete_step:
  assumes inv: "exec_inv db" and c: "complete_delivery i token now db = (x, db')"
  shows "\<exists>b. x = Inr b \<and> exec_inv db' \<and> out_grows db db' \<and> executions db' = executions db \<and>
    (\<forall>j. delivered j db' \<longleftrightarrow> delivered j db \<or> b \<and> j = i) \<and> (b \<longrightarrow> \<not> delivered i db)"
proof -
  let ?hit = "\<lambda>r. ob_id r = i \<and> ob_status r = OutDelivering \<and> ob_lease_token r = Some token"
  have one: "length (filter ?hit (outbox db)) = 1 \<longleftrightarrow> (\<exists>r \<in> set (outbox db). ?hit r)"
    by (rule filter_keyed [OF exec_invD(3) [OF inv]]) simp
  let ?f = "\<lambda>r. r\<lparr>ob_status := OutDelivered, ob_lease_token := None, ob_lease_expires_at := None, ob_updated_at := now\<rparr>"
  have x: "x = Inr (\<exists>r \<in> set (outbox db). ?hit r)" "db' = db\<lparr>outbox := upd ?hit ?f (outbox db)\<rparr>"
    using c one by (auto simp: complete_delivery_def Let_def)
  have "delivered j db' \<longleftrightarrow> delivered j db \<or> (\<exists>r \<in> set (outbox db). ?hit r) \<and> j = i" for j
    unfolding x(2) delivered_def by (simp add: bex_upd) auto
  moreover have "\<not> delivered i db" if "\<exists>r \<in> set (outbox db). ?hit r"
    using that distinct_key_eq [OF exec_invD(3) [OF inv]] by (fastforce simp: delivered_def)
  ultimately show ?thesis using x delivery_upd_step [OF inv, of OutDelivered i token now] by auto
qed

lemma retry_step:
  assumes inv: "exec_inv db" and c: "retry_delivery i token now db = (x, db')"
  shows "exec_inv db' \<and> out_grows db db' \<and> executions db' = executions db \<and> (\<forall>j. delivered j db' = delivered j db)"
proof -
  let ?hit = "\<lambda>r. ob_id r = i \<and> ob_status r = OutDelivering \<and> ob_lease_token r = Some token"
  let ?f = "\<lambda>r. r\<lparr>ob_status := OutPending, ob_lease_token := None, ob_lease_expires_at := None, ob_updated_at := now\<rparr>"
  have x: "db' = db\<lparr>outbox := upd ?hit ?f (outbox db)\<rparr>" using c by (auto simp: retry_delivery_def Let_def)
  have "delivered j db' = delivered j db" for j
    unfolding x by (rule delivered_upd) simp
  with x delivery_upd_step [OF inv, of OutPending i token now] show ?thesis by auto
qed

lemma claim_row_upd:
  assumes inv: "exec_inv db"
    and db': "db' = db\<lparr>outbox := upd (\<lambda>r. ob_id r = i \<and> claimable now r) (\<lambda>r. r\<lparr>ob_status := OutDelivering,
      ob_attempt_count := Suc (ob_attempt_count r), ob_lease_token := Some token, ob_lease_expires_at := Some e,
      ob_updated_at := now\<rparr>) (outbox db)\<rparr>"
  shows "exec_inv db'" "out_grows db db'" "delivered j db' = delivered j db"
proof -
  show "exec_inv db'" "out_grows db db'"
    unfolding db' using inv_outbox [OF inv, of "\<lambda>r. ob_id r = i \<and> claimable now r" "\<lambda>r. r\<lparr>ob_status := OutDelivering,
      ob_attempt_count := Suc (ob_attempt_count r), ob_lease_token := Some token, ob_lease_expires_at := Some e,
      ob_updated_at := now\<rparr>"] by (simp_all add: out_ident_def)
  show "delivered j db' = delivered j db"
    unfolding db' by (rule delivered_upd) (auto simp: claimable_def)
qed

lemma claim_rows_step:
  assumes "exec_inv db" "claim_rows ld draw now e n rs (outbox db) = Inr (cs, ob)"
  shows "exec_inv (db\<lparr>outbox := ob\<rparr>) \<and> out_grows db (db\<lparr>outbox := ob\<rparr>) \<and>
    (\<forall>j. delivered j (db\<lparr>outbox := ob\<rparr>) = delivered j db)"
  using assms
proof (induction rs arbitrary: db n cs)
  case (Cons r rs)
  let ?hit = "\<lambda>x. ob_id x = ob_id r \<and> claimable now x"
  let ?ob = "upd ?hit (\<lambda>x. x\<lparr>ob_status := OutDelivering, ob_attempt_count := Suc (ob_attempt_count x),
    ob_lease_token := Some (draw n), ob_lease_expires_at := Some e, ob_updated_at := now\<rparr>) (outbox db)"
  note u = claim_row_upd [OF Cons.prems(1) refl, where i = "ob_id r" and now = now and token = "draw n" and e = e]
  have "\<exists>cs'. claim_rows ld draw now e (Suc n) rs ?ob = Inr (cs', ob)"
    using Cons.prems(2) by (auto simp: Let_def split: if_splits sum.splits prod.splits)
  then obtain cs' where c: "claim_rows ld draw now e (Suc n) rs (outbox (db\<lparr>outbox := ?ob\<rparr>)) = Inr (cs', ob)" by auto
  from Cons.IH [OF u(1) c] u(2,3) show ?case by (auto intro: out_grows_trans)
next
  case Nil
  then have "db\<lparr>outbox := ob\<rparr> = db" by simp
  with Nil(1) show ?case by simp
qed

lemma claim_deliveries_step:
  assumes inv: "exec_inv db" and c: "claim_deliveries ld draw lease limit now db = (x, db')"
  shows "exec_inv db' \<and> out_grows db db' \<and> executions db' = executions db \<and> (\<forall>j. delivered j db' = delivered j db)"
proof (cases "lease \<le> 0 \<or> limit \<le> 0")
  case True
  with inv c show ?thesis by (auto simp: claim_deliveries_def split: if_splits)
next
  case False
  let ?rs = "take (nat limit) (sort_key ob_id (filter (claimable now) (outbox db)))"
  show ?thesis
  proof (cases "claim_rows ld draw now (plus_seconds now lease) 0 ?rs (outbox db)")
    case (Inl e)
    with False inv c show ?thesis by (auto simp: claim_deliveries_def Let_def)
  next
    case (Inr y)
    obtain cs ob where y: "y = (cs, ob)" by fastforce
    have "db' = db\<lparr>outbox := ob\<rparr>" using False c Inr y by (auto simp: claim_deliveries_def Let_def)
    with claim_rows_step [OF inv Inr [unfolded y]] show ?thesis by simp
  qed
qed

lemma exec_step:
  assumes inv: "exec_inv db"
  shows "exec_inv (snd (exec_exec ld c db))" "out_grows db (snd (exec_exec ld c db))"
    "settled_run k (snd (exec_exec ld c db)) \<longleftrightarrow> settled_run k db \<or> finished_by k (c, fst (exec_exec ld c db))"
    "finished_by k (c, fst (exec_exec ld c db)) \<Longrightarrow> \<not> settled_run k db"
    "delivered i (snd (exec_exec ld c db)) \<longleftrightarrow> delivered i db \<or> completed_by i (c, fst (exec_exec ld c db))"
    "completed_by i (c, fst (exec_exec ld c db)) \<Longrightarrow> \<not> delivered i db"
proof -
  let ?r = "exec_exec ld c db"
  have "exec_inv (snd ?r) \<and> out_grows db (snd ?r) \<and>
    (settled_run k (snd ?r) \<longleftrightarrow> settled_run k db \<or> finished_by k (c, fst ?r)) \<and>
    (finished_by k (c, fst ?r) \<longrightarrow> \<not> settled_run k db) \<and>
    (delivered i (snd ?r) \<longleftrightarrow> delivered i db \<or> completed_by i (c, fst ?r)) \<and>
    (completed_by i (c, fst ?r) \<longrightarrow> \<not> delivered i db)"
  proof (cases c)
    case (Claim k' lease now token)
    obtain x db' where x: "claim k' lease now token db = (x, db')" by fastforce
    have "delivered i db' = delivered i db" "out_grows db db'"
      using fire_claim_step [OF inv x] by (auto simp: delivered_def out_grows_def)
    with fire_claim_step [OF inv x] Claim x show ?thesis by (simp add: as_result_def finished_by_def completed_by_def)
  next
    case (Finish k' token status rid delivery now)
    obtain x db' where x: "finish k' token status rid delivery now db = (x, db')" by fastforce
    from finish_step [OF inv x] Finish x show ?thesis
      by (auto simp: as_result_def finished_by_def completed_by_def)
  next
    case (ClaimDeliveries draw lease limit now)
    obtain x db' where x: "claim_deliveries ld draw lease limit now db = (x, db')" by fastforce
    from claim_deliveries_step [OF inv x] ClaimDeliveries x show ?thesis
      by (simp add: as_result_def finished_by_def completed_by_def settled_run_def)
  next
    case (CompleteDelivery j token now)
    obtain x db' where x: "complete_delivery j token now db = (x, db')" by fastforce
    obtain b where b: "x = Inr b" "exec_inv db'" "out_grows db db'" "executions db' = executions db"
      "delivered i db' \<longleftrightarrow> delivered i db \<or> b \<and> i = j" "b \<longrightarrow> \<not> delivered j db"
      using outbox_complete_step [OF inv x] by blast
    have "settled_run k db' = settled_run k db" using b(4) by (simp add: settled_run_def)
    with b CompleteDelivery x show ?thesis by (auto simp: as_result_def finished_by_def completed_by_def)
  next
    case (RetryDelivery j token now)
    obtain x db' where x: "retry_delivery j token now db = (x, db')" by fastforce
    from retry_step [OF inv x] RetryDelivery x show ?thesis
      by (simp add: as_result_def finished_by_def completed_by_def settled_run_def)
  qed
  then show "exec_inv (snd ?r)" "out_grows db (snd ?r)"
    "settled_run k (snd ?r) \<longleftrightarrow> settled_run k db \<or> finished_by k (c, fst ?r)"
    "finished_by k (c, fst ?r) \<Longrightarrow> \<not> settled_run k db"
    "delivered i (snd ?r) \<longleftrightarrow> delivered i db \<or> completed_by i (c, fst ?r)"
    "completed_by i (c, fst ?r) \<Longrightarrow> \<not> delivered i db" by blast+
qed

interpretation exec_calls: call_system "exec_exec ld" empty_exec_db exec_inv
  for ld :: "json \<Rightarrow> dispatch_error + run_snapshot"
proof
  show "exec_inv empty_exec_db" by (simp add: exec_inv_def empty_exec_db_def)
  show "exec_inv (snd (exec_exec ld c db))" if "exec_inv db" for db c by (rule exec_step(1) [OF that])
qed

lemma run_counts:
  assumes "exec_inv db"
  shows "length (filter (finished_by k) (fst (run_calls (exec_exec ld) cs db))) + of_bool (settled_run k db) =
      of_bool (settled_run k (snd (run_calls (exec_exec ld) cs db)))"
    and "length (filter (completed_by i) (fst (run_calls (exec_exec ld) cs db))) + of_bool (delivered i db) =
      of_bool (delivered i (snd (run_calls (exec_exec ld) cs db)))"
    and "out_grows db (snd (run_calls (exec_exec ld) cs db))"
  using assms
proof (induction cs arbitrary: db)
  case Nil
  {
    case 1
    show ?case by simp
  next
    case 2
    show ?case by simp
  next
    case 3
    show ?case by simp
  }
next
  case (Cons c cs)
  note s = exec_step [where ld = ld and c = c]
  {
    case 1
    show ?case using Cons.IH(1) [OF s(1) [OF 1]] s(3,4) [OF 1, where k = k]
      by (cases "finished_by k (c, fst (exec_exec ld c db))") (auto simp: Let_def of_bool_def split: if_splits)
  next
    case 2
    show ?case using Cons.IH(2) [OF s(1) [OF 2]] s(5,6) [OF 2, where i = i]
      by (cases "completed_by i (c, fst (exec_exec ld c db))") (auto simp: Let_def of_bool_def split: if_splits)
  next
    case 3
    show ?case using Cons.IH(3) [OF s(1) [OF 3]] s(2) [OF 3] by (auto simp: Let_def intro: out_grows_trans)
  }
qed

section \<open>Properties\<close>

text \<open>
  C4: However schedulers, workers and retries interleave, a fire of a trigger (tenant, trigger,
  revision, fire key) is finished at most once: the number of \<open>finish\<close> calls that succeeded for it is
  one if its row is final and zero otherwise. At most one result of it enters the outbox, and a
  result is marked delivered at most once; the delivery itself is repeated when a lease expires before
  that.
\<close>

theorem fires_settle_at_most_once:
  "length (filter (finished_by k) (fst (run_calls (exec_exec ld) cs empty_exec_db))) =
     (if settled_run k (snd (run_calls (exec_exec ld) cs empty_exec_db)) then 1 else 0) \<and>
   length (filter (\<lambda>r. ob_key r = k) (outbox (snd (run_calls (exec_exec ld) cs empty_exec_db)))) \<le> 1 \<and>
   length (filter (completed_by i) (fst (run_calls (exec_exec ld) cs empty_exec_db))) =
     (if delivered i (snd (run_calls (exec_exec ld) cs empty_exec_db)) then 1 else 0)"
proof -
  let ?db = "snd (run_calls (exec_exec ld) cs empty_exec_db)"
  have inv: "exec_inv ?db" by (rule exec_calls.run_start_inv)
  have "length (filter (\<lambda>r. ob_key r = k) (outbox ?db)) \<le> 1"
  proof (cases "\<exists>r \<in> set (outbox ?db). ob_key r = k")
    case True
    then have "length (filter (\<lambda>r. ob_key r = k) (outbox ?db)) = 1"
      using filter_keyed [OF exec_invD(2) [OF inv], of "\<lambda>r. ob_key r = k"] by simp
    then show ?thesis by simp
  next
    case False
    then show ?thesis by (simp add: filter_empty_conv [THEN iffD2])
  qed
  with run_counts(1) [OF exec_calls.inv_start, where ld = ld and cs = cs and k = k]
    run_counts(2) [OF exec_calls.inv_start, where ld = ld and cs = cs and i = i] show ?thesis
    by (auto simp: settled_run_def delivered_def empty_exec_db_def)
qed

lemma finish_accepts:
  assumes inv: "exec_inv db" and s: "s \<in> set (executions db)" "ex_key s = k" "ex_status s = ExecRunning" "ex_lease_token s = Some v"
  shows "\<exists>db'. finish k v status rid delivery now db = (Inr True, db')"
proof -
  let ?hit = "\<lambda>r. ex_key r = k \<and> ex_status r = ExecRunning \<and> ex_lease_token r = Some v"
  have "\<exists>r \<in> set (executions db). ?hit r" using s by blast
  then have one: "length (filter ?hit (executions db)) = 1"
    using filter_keyed [OF exec_invD(1) [OF inv], of ?hit] by simp
  obtain x db' where c: "finish k v status rid delivery now db = (x, db')" by fastforce
  obtain b where b: "x = Inr b" using finish_step [OF inv c] by blast
  have "b" using c b one by (cases delivery) (auto simp: finish_def Let_def split: prod.splits if_splits)
  with b c show ?thesis by simp
qed

lemma finish_refused:
  assumes "\<And>s. s \<in> set (executions db) \<Longrightarrow> ex_key s = k \<Longrightarrow> ex_lease_token s \<noteq> Some w"
  shows "finish k w status rid delivery now db = (Inr False, db)"
proof -
  have "filter (\<lambda>s. ex_key s = k \<and> ex_status s = ExecRunning \<and> ex_lease_token s = Some w) (executions db) = []"
    "\<And>f. upd (\<lambda>s. ex_key s = k \<and> ex_status s = ExecRunning \<and> ex_lease_token s = Some w) f (executions db) = executions db"
    using assms by (auto simp: filter_empty_conv intro: upd_none)
  then show ?thesis by (cases delivery) (auto simp: finish_def Let_def)
qed

lemma claim_held:
  assumes "r \<in> set (executions db)" "ex_key r = k" "\<And>s. s \<in> set (executions db) \<Longrightarrow> ex_key s = k \<Longrightarrow> \<not> expired now (ex_lease_expires_at s)"
    and "0 < lease"
  shows "claim k lease now v db = (Inr None, db)"
proof -
  have "filter (\<lambda>s. ex_key s = k \<and> ex_status s = ExecRunning \<and> expired now (ex_lease_expires_at s)) (executions db) = []"
    "\<And>f. upd (\<lambda>s. ex_key s = k \<and> ex_status s = ExecRunning \<and> expired now (ex_lease_expires_at s)) f (executions db) =
      executions db" using assms(3) by (auto simp: filter_empty_conv intro: upd_none)
  moreover have "sel (\<lambda>s. ex_key s = k) (executions db) \<noteq> None" using assms(1,2) by (auto simp: sel_None)
  ultimately show ?thesis using assms(4) by (simp add: claim_def Let_def)
qed

text \<open>A claim after the lease has run out takes the fire over: its row then carries the new token.\<close>

lemma claim_takes_over:
  assumes inv: "exec_inv db" and r: "r \<in> set (executions db)" "ex_key r = k" "ex_status r = ExecRunning" "expired now (ex_lease_expires_at r)"
    and pos: "0 < lease"
  shows "\<exists>db' r'. claim k lease now v db = (Inr (Some v), db') \<and> exec_inv db' \<and> r' \<in> set (executions db') \<and>
    ex_key r' = k \<and> ex_status r' = ExecRunning \<and> ex_lease_token r' = Some v \<and>
    (\<forall>s \<in> set (executions db'). ex_key s = k \<longrightarrow> ex_lease_token s = Some v)"
proof -
  let ?hit = "\<lambda>s. ex_key s = k \<and> ex_status s = ExecRunning \<and> expired now (ex_lease_expires_at s)"
  let ?f = "\<lambda>s. s\<lparr>ex_attempt_count := Suc (ex_attempt_count s), ex_lease_token := Some v,
    ex_lease_expires_at := Some (plus_seconds now lease), ex_updated_at := now\<rparr>"
  let ?db = "db\<lparr>executions := upd ?hit ?f (executions db)\<rparr>"
  have present: "sel (\<lambda>s. ex_key s = k) (executions db) \<noteq> None" using r by (auto simp: sel_None)
  have "length (filter ?hit (executions db)) = 1"
    using filter_keyed [OF exec_invD(1) [OF inv], of ?hit] r by auto
  then have c: "claim k lease now v db = (Inr (Some v), ?db)" using present pos by (auto simp: claim_def Let_def)
  have inv': "exec_inv ?db" using fire_claim_step [OF inv c] by blast
  have mem: "?f r \<in> set (executions ?db)" using r by (auto simp: set_upd)
  have "ex_lease_token s = Some v" if s: "s \<in> set (executions ?db)" "ex_key s = k" for s
    using distinct_key_eq [OF exec_invD(1) [OF inv'] s(1) mem] s(2) r(2) by simp
  with c inv' mem r show ?thesis by (intro exI [of _ ?db] exI [of _ "?f r"]) simp
qed

text \<open>
  C30: A lease fences. While the lease of a running fire is live, another worker's claim gets nothing
  and its \<open>finish\<close> with another token is refused, both without effect. Once the lease has expired a
  claim takes the fire over; from then on the first worker's \<open>finish\<close> is refused without effect and
  the new worker's is accepted.
\<close>

theorem stale_workers_are_fenced:
  assumes "db = snd (run_calls (exec_exec ld) cs empty_exec_db)" "r \<in> set (executions db)" "ex_key r = k"
    and "ex_status r = ExecRunning" "ex_lease_token r = Some u" "ex_lease_expires_at r = Some e"
    and "0 < lease" "v \<noteq> u" "now1 < e" "e \<le> now2"
  shows "claim k lease now1 v db = (Inr None, db) \<and> finish k v status rid delivery now1 db = (Inr False, db) \<and>
    (\<exists>db2 db3. claim k lease now2 v db = (Inr (Some v), db2) \<and>
      finish k u status rid delivery now2 db2 = (Inr False, db2) \<and>
      finish k v status rid delivery now2 db2 = (Inr True, db3))"
proof -
  have inv: "exec_inv db" unfolding assms(1) by (rule exec_calls.run_start_inv)
  have uniq: "s = r" if "s \<in> set (executions db)" "ex_key s = k" for s
    using distinct_key_eq [OF exec_invD(1) [OF inv] that(1) assms(2)] that(2) assms(3) by simp
  have no: "claim k lease now1 v db = (Inr None, db)"
  proof (rule claim_held [OF assms(2,3) _ assms(7)])
    fix s assume "s \<in> set (executions db)" "ex_key s = k"
    from uniq [OF this] show "\<not> expired now1 (ex_lease_expires_at s)" using assms(6,9) by (simp add: expired_def)
  qed
  have f1: "finish k v status rid delivery now1 db = (Inr False, db)"
    by (rule finish_refused) (use uniq assms(5,8) in auto)
  have "expired now2 (ex_lease_expires_at r)" using assms(6,10) by (simp add: expired_def)
  from claim_takes_over [OF inv assms(2-4) this assms(7), of v] obtain db2 r2 where
    c2: "claim k lease now2 v db = (Inr (Some v), db2)" and inv2: "exec_inv db2" and
    r2: "r2 \<in> set (executions db2)" "ex_key r2 = k" "ex_status r2 = ExecRunning" "ex_lease_token r2 = Some v" and
    only: "\<forall>s \<in> set (executions db2). ex_key s = k \<longrightarrow> ex_lease_token s = Some v" by blast
  have f2: "finish k u status rid delivery now2 db2 = (Inr False, db2)"
    by (rule finish_refused) (use only assms(8) in auto)
  obtain db3 where f3: "finish k v status rid delivery now2 db2 = (Inr True, db3)"
    using finish_accepts [OF inv2 r2, of status rid delivery now2] by blast
  from no f1 c2 f2 f3 show ?thesis by blast
qed

definition example_fire :: fire where
  "example_fire = (''t'', ''g'', 1, ''f'')"

theorem stale_workers_are_fenced_witness:
  "claim example_fire 10 (At 9) ''v'' (snd (run_calls (exec_exec (\<lambda>_. Inl DispatchTypeError))
      [Claim example_fire 10 (At 0) ''u''] empty_exec_db)) =
    (Inr None, snd (run_calls (exec_exec (\<lambda>_. Inl DispatchTypeError)) [Claim example_fire 10 (At 0) ''u''] empty_exec_db))"
proof -
  let ?db = "snd (run_calls (exec_exec (\<lambda>_. Inl DispatchTypeError)) [Claim example_fire 10 (At 0) ''u''] empty_exec_db)"
  let ?r = "\<lparr>ex_key = example_fire, ex_status = ExecRunning, ex_run_id = None, ex_attempt_count = 1,
    ex_lease_token = Some ''u'', ex_lease_expires_at = Some (At 10), ex_updated_at = At 0\<rparr>"
  have r: "?r \<in> set (executions ?db)" by code_simp
  have "(0 :: int) < 10" "''v'' \<noteq> ''u''" "At 9 < At 10" "At 10 \<le> At 10" by simp_all
  from stale_workers_are_fenced [OF refl r _ _ _ _ this] show ?thesis by simp
qed

lemma claim_rows_all:
  assumes "distinct (map ob_id ob)" "distinct (map ob_id rs)" "\<forall>r \<in> set rs. r \<in> set ob \<and> claimable now r"
    "\<forall>r \<in> set rs. \<exists>s. ld (ob_snapshot r) = Inr s"
  shows "\<exists>cs ob'. claim_rows ld draw now e n rs ob = Inr (cs, ob') \<and> map cd_id cs = map ob_id rs"
  using assms
proof (induction rs arbitrary: n ob)
  case (Cons r rs)
  let ?hit = "\<lambda>x. ob_id x = ob_id r \<and> claimable now x"
  let ?f = "\<lambda>x. x\<lparr>ob_status := OutDelivering, ob_attempt_count := Suc (ob_attempt_count x),
    ob_lease_token := Some (draw n), ob_lease_expires_at := Some e, ob_updated_at := now\<rparr>"
  have "\<exists>x \<in> set ob. ?hit x" using Cons.prems(3) by auto
  then have one: "length (filter ?hit ob) = 1" using filter_keyed [OF Cons.prems(1), of ?hit] by simp
  have d: "distinct (map ob_id (upd ?hit ?f ob))" using Cons.prems(1) by (simp add: map_upd)
  have keep: "\<forall>x \<in> set rs. x \<in> set (upd ?hit ?f ob) \<and> claimable now x"
  proof
    fix x assume x: "x \<in> set rs"
    have "ob_id x \<in> ob_id ` set rs" using x by (rule imageI)
    moreover have "ob_id r \<notin> ob_id ` set rs" using Cons.prems(2) by simp
    ultimately have "ob_id x \<noteq> ob_id r" by metis
    moreover have "x \<in> set ob" "claimable now x" using Cons.prems(3) x by auto
    ultimately have "ob_id x \<noteq> ob_id r" "x \<in> set ob" "claimable now x" by blast+
    then have "x \<in> (\<lambda>y. if ?hit y then ?f y else y) ` set ob" by (intro image_eqI [of _ _ x]) auto
    then show "x \<in> set (upd ?hit ?f ob) \<and> claimable now x" unfolding set_upd using \<open>claimable now x\<close> by blast
  qed
  have r: "distinct (map ob_id rs)" "\<forall>x \<in> set rs. \<exists>s. ld (ob_snapshot x) = Inr s" using Cons.prems(2,4) by simp_all
  obtain cs ob' where c: "claim_rows ld draw now e (Suc n) rs (upd ?hit ?f ob) = Inr (cs, ob')" "map cd_id cs = map ob_id rs"
    using Cons.IH [OF d r(1) keep r(2), of "Suc n"] by blast
  obtain s where "ld (ob_snapshot r) = Inr s" using Cons.prems(4) by auto
  with c one show ?case by (simp add: Let_def)
qed simp

lemma claim_deliveries_all:
  assumes inv: "exec_inv db" and "0 < lease" "int (length (outbox db)) \<le> limit" "0 < limit"
    and ld: "\<forall>r \<in> set (outbox db). \<exists>s. ld (ob_snapshot r) = Inr s"
  shows "\<exists>cs db'. claim_deliveries ld draw lease limit now db = (Inr cs, db') \<and>
    set (map cd_id cs) = ob_id ` {r \<in> set (outbox db). claimable now r}"
proof -
  let ?due = "sort_key ob_id (filter (claimable now) (outbox db))"
  have "length (outbox db) \<le> nat limit" using assms(3) by linarith
  then have len: "take (nat limit) ?due = ?due"
    using le_trans [OF length_filter_le [of "claimable now" "outbox db"]] by simp
  have d: "distinct (map ob_id ?due)"
    using exec_invD(3) [OF inv] by (auto simp: distinct_map intro: inj_on_subset)
  have m: "\<forall>r \<in> set ?due. r \<in> set (outbox db) \<and> claimable now r" "\<forall>r \<in> set ?due. \<exists>s. ld (ob_snapshot r) = Inr s"
    using ld by simp_all
  obtain cs ob where c: "claim_rows ld draw now (plus_seconds now lease) 0 ?due (outbox db) = Inr (cs, ob)"
    "map cd_id cs = map ob_id ?due"
    using claim_rows_all [where ld = ld, OF exec_invD(3) [OF inv] d m] by blast
  have "set (map cd_id cs) = ob_id ` {r \<in> set (outbox db). claimable now r}" unfolding c(2) by auto
  moreover have "claim_deliveries ld draw lease limit now db = (Inr cs, db\<lparr>outbox := ob\<rparr>)"
    using assms(2,4) c(1) len by (simp add: claim_deliveries_def Let_def)
  ultimately show ?thesis by blast
qed

text \<open>
  C31: No result is lost. A result in the outbox stays there, with its trigger, mode and snapshot,
  whatever calls follow; and until it is marked delivered it is offered again: a claim at a time when the
  leases in the outbox have run out, with a limit of at least the rows of the outbox (the dispatcher
  claims 100 at a time, the oldest first), returns it. The stored snapshots are assumed readable, as
  every snapshot the store writes is.
\<close>

theorem no_result_is_lost:
  assumes "db = snd (run_calls (exec_exec ld) cs empty_exec_db)" "db' = snd (run_calls (exec_exec ld) cs' db)"
    and "r \<in> set (outbox db)" "0 < lease" "0 < limit" "int (length (outbox db')) \<le> limit"
    and "\<forall>x \<in> set (outbox db'). (\<exists>s. ld (ob_snapshot x) = Inr s) \<and> expired now (ob_lease_expires_at x)"
  shows "\<exists>r' \<in> set (outbox db'). out_ident r' = out_ident r \<and>
    (delivered (ob_id r) db' \<or>
     (\<exists>claimed db''. claim_deliveries ld draw lease limit now db' = (Inr claimed, db'') \<and>
        ob_id r \<in> set (map cd_id claimed)))"
proof -
  have inv: "exec_inv db" unfolding assms(1) by (rule exec_calls.run_start_inv)
  have inv': "exec_inv db'" unfolding assms(2) by (rule exec_calls.run_inv [OF inv])
  have "out_grows db db'" unfolding assms(2) by (rule run_counts(3) [OF inv])
  then obtain new where new: "map out_ident (outbox db') = map out_ident (outbox db) @ new" by (auto simp: out_grows_def)
  have "out_ident r \<in> set (map out_ident (outbox db'))" unfolding new using assms(3) by simp
  then obtain r' where r': "r' \<in> set (outbox db')" "out_ident r' = out_ident r" by auto
  then have id: "ob_id r' = ob_id r" by (simp add: out_ident_def)
  show ?thesis
  proof (cases "ob_status r' = OutDelivered")
    case True
    with r' id show ?thesis by (auto simp: delivered_def)
  next
    case False
    then have "claimable now r'" using assms(7) r'(1) by (cases "ob_status r'") (auto simp: claimable_def)
    then have mem: "ob_id r \<in> ob_id ` {x \<in> set (outbox db'). claimable now x}" using r'(1) id by (intro image_eqI [of _ _ r']) simp_all
    have "\<forall>x \<in> set (outbox db'). \<exists>s. ld (ob_snapshot x) = Inr s" using assms(7) by blast
    then obtain claimed db'' where "claim_deliveries ld draw lease limit now db' = (Inr claimed, db'')"
      "set (map cd_id claimed) = ob_id ` {x \<in> set (outbox db'). claimable now x}"
      using claim_deliveries_all [OF inv' assms(4,6,5), of ld draw now] by blast
    with mem r' show ?thesis by blast
  qed
qed

theorem no_result_is_lost_witness:
  "\<exists>claimed db''. claim_deliveries (\<lambda>_. Inr example_snapshot) (\<lambda>_. ''x'') 5 100 (At 9)
      (snd (run_calls (exec_exec (\<lambda>_. Inr example_snapshot)) [ClaimDeliveries (\<lambda>_. ''w'') 5 100 (At 3)]
        (snd (run_calls (exec_exec (\<lambda>_. Inr example_snapshot)) [Claim example_fire 10 (At 0) ''u'',
           Finish example_fire ''u'' Failed None (Some (example_snapshot, ModeOwner)) (At 2)] empty_exec_db)))) =
      (Inr claimed, db'') \<and> 1 \<in> set (map cd_id claimed)"
proof -
  let ?ld = "\<lambda>_ :: json. Inr example_snapshot :: dispatch_error + run_snapshot"
  let ?db = "snd (run_calls (exec_exec ?ld) [Claim example_fire 10 (At 0) ''u'',
    Finish example_fire ''u'' Failed None (Some (example_snapshot, ModeOwner)) (At 2)] empty_exec_db)"
  let ?db' = "snd (run_calls (exec_exec ?ld) [ClaimDeliveries (\<lambda>_. ''w'') 5 100 (At 3)] ?db)"
  have db: "outbox ?db = [\<lparr>ob_id = 1, ob_key = example_fire, ob_mode = ModeOwner,
      ob_snapshot = serialize_snapshot example_snapshot, ob_status = OutPending, ob_attempt_count = 0,
      ob_lease_token = None, ob_lease_expires_at = None, ob_created_at = At 2, ob_updated_at = At 2\<rparr>]"
    by (simp add: Let_def claim_def finish_def as_result_def empty_exec_db_def)
  have db': "map ob_status (outbox ?db') = [OutDelivering]" "map ob_lease_expires_at (outbox ?db') = [Some (At 8)]"
    "map ob_id (outbox ?db') = [1]"
    by code_simp+
  then have one: "int (length (outbox ?db')) \<le> 100" "\<not> delivered 1 ?db'"
    by (auto simp: delivered_def map_eq_Cons_conv)
  have exp: "\<forall>x \<in> set (outbox ?db'). (\<exists>s. ?ld (ob_snapshot x) = Inr s) \<and> expired (At 9) (ob_lease_expires_at x)"
    using db'(2) by (auto simp: map_eq_Cons_conv expired_def)
  have r: "hd (outbox ?db) \<in> set (outbox ?db)" "ob_id (hd (outbox ?db)) = 1" unfolding db by simp_all
  from no_result_is_lost [OF refl refl r(1) _ _ one(1) exp, of 5 "\<lambda>_. ''x''"] r(2) one(2) show ?thesis by auto
qed

end
