(* ===== verification/TriggerDispatcher.thy ===== *)
theory TriggerDispatcher
  imports TriggerExecution
begin

text \<open>
  \<^verbatim>\<open>specs/dispatcher.py\<close>, class \<open>TriggerDispatcher\<close>: how a fire of a trigger becomes one agent run and
  how its result is delivered. The agent service, the delivery callback, the clock, the drawn tokens
  and SHA-256 (in hex) are the fields of \<open>dispatch_env\<close>; each may answer differently at every step of
  the run, which is counted by a tick. The store of executions is the state. \<open>_execute\<close> is cut at the
  await of the agent: \<open>execute_claim\<close> up to the call of the agent, \<open>execute_finish\<close> after it, and any
  calls of other workers on the store between them (\<open>de_others\<close> in the composition \<open>execute\<close>). One drain
  of the outbox is uninterrupted; the flag \<open>_started\<close>, the registration of jobs with APScheduler and the
  background task that repeats the drain are not modelled.
\<close>

section \<open>Environment\<close>

datatype delivery_outcome = DeliveryFine | DeliveryRaised | DeliveryCancelled

datatype dispatch_stop =
    StopError dispatch_error
  | StopCancelled

record dispatch_env =
  de_zone :: "string \<Rightarrow> bool"
  de_cron :: "string \<Rightarrow> string \<Rightarrow> bool"
  de_load :: "json \<Rightarrow> dispatch_error + run_snapshot"
  de_clock :: "nat \<Rightarrow> timestamp"
  de_draw :: "nat \<Rightarrow> nat \<Rightarrow> string"
  de_deliver :: "(nat \<Rightarrow> trigger_spec_write revision \<Rightarrow> run_snapshot \<Rightarrow> out_mode \<Rightarrow> delivery_outcome) option"
  de_lease :: int
  de_sha :: "string \<Rightarrow> string"
  de_agent :: "nat \<Rightarrow> run_context \<Rightarrow> string \<Rightarrow> string \<Rightarrow> run_snapshot option"
  de_others :: "nat \<Rightarrow> exec_call list"

section \<open>Draining the outbox\<close>

definition trigger_of :: "dispatch_env \<Rightarrow> trigger_spec_write rev_db \<Rightarrow> claimed_delivery \<Rightarrow>
    spec_error + trigger_spec_write revision option" where
  "trigger_of E triggers d = (case cd_key d of (t, i, n, _) \<Rightarrow> trigger_get_revision (de_zone E) (de_cron E) t i n triggers)"

text \<open>The loop over one batch; the flag is \<open>retry_pending\<close>.\<close>

fun drain_batch ::
  "dispatch_env \<Rightarrow> (nat \<Rightarrow> trigger_spec_write revision \<Rightarrow> run_snapshot \<Rightarrow> out_mode \<Rightarrow> delivery_outcome) \<Rightarrow>
   trigger_spec_write rev_db \<Rightarrow> claimed_delivery list \<Rightarrow> bool \<Rightarrow> nat \<Rightarrow> exec_db \<Rightarrow> (dispatch_stop + bool) \<times> nat \<times> exec_db" where
  "drain_batch E deliver triggers [] retry n db = (Inr retry, n, db)"
| "drain_batch E deliver triggers (d # ds) retry n db =
     (let put_back = snd (retry_delivery (cd_id d) (cd_lease_token d) (de_clock E n) db) in
      case trigger_of E triggers d of
        Inl e \<Rightarrow> (Inl (StopError (DispatchSpecError e)), n, db)
      | Inr None \<Rightarrow> drain_batch E deliver triggers ds True (Suc n) put_back
      | Inr (Some g) \<Rightarrow> (case deliver n g (cd_snapshot d) (cd_mode d) of
            DeliveryCancelled \<Rightarrow> (Inl StopCancelled, n, put_back)
          | DeliveryRaised \<Rightarrow> drain_batch E deliver triggers ds True (Suc n) put_back
          | DeliveryFine \<Rightarrow> drain_batch E deliver triggers ds retry (Suc n)
              (snd (complete_delivery (cd_id d) (cd_lease_token d) (de_clock E n) db))))"

text \<open>\<open>_drain_deliveries\<close>; \<open>None\<close> means that the given number of rounds was not enough.\<close>

fun drain_rounds ::
  "nat \<Rightarrow> dispatch_env \<Rightarrow> (nat \<Rightarrow> trigger_spec_write revision \<Rightarrow> run_snapshot \<Rightarrow> out_mode \<Rightarrow> delivery_outcome) \<Rightarrow>
   trigger_spec_write rev_db \<Rightarrow> nat \<Rightarrow> exec_db \<Rightarrow> ((dispatch_stop + bool) \<times> nat \<times> exec_db) option" where
  "drain_rounds 0 E deliver triggers n db = None"
| "drain_rounds (Suc rounds) E deliver triggers n db =
     (case claim_deliveries (de_load E) (de_draw E n) (de_lease E) 100 (de_clock E n) db of
        (Inl e, db1) \<Rightarrow> Some (Inl (StopError e), Suc n, db1)
      | (Inr [], db1) \<Rightarrow> Some (Inr False, Suc n, db1)
      | (Inr (d # ds), db1) \<Rightarrow> (case drain_batch E deliver triggers (d # ds) False (Suc n) db1 of
            (Inl s, n2, db2) \<Rightarrow> Some (Inl s, n2, db2)
          | (Inr True, n2, db2) \<Rightarrow> Some (Inr True, n2, db2)
          | (Inr False, n2, db2) \<Rightarrow> drain_rounds rounds E deliver triggers n2 db2))"

definition undelivered :: "exec_db \<Rightarrow> nat" where
  "undelivered db = length (filter (\<lambda>r. ob_status r \<noteq> OutDelivered) (outbox db))"

definition drain_deliveries ::
  "dispatch_env \<Rightarrow> trigger_spec_write rev_db \<Rightarrow> nat \<Rightarrow> exec_db \<Rightarrow> ((dispatch_stop + bool) \<times> nat \<times> exec_db) option" where
  "drain_deliveries E triggers n db = (case de_deliver E of None \<Rightarrow> Some (Inr False, n, db)
     | Some deliver \<Rightarrow> drain_rounds (Suc (undelivered db)) E deliver triggers n db)"

section \<open>Running a fire\<close>

definition fire_context :: "dispatch_env \<Rightarrow> trigger_spec_write revision \<Rightarrow> agent_spec_write revision \<Rightarrow> string \<Rightarrow> string \<Rightarrow>
    origin_ref \<Rightarrow> run_context" where
  "fire_context E g spec fire_key actor_id origin =
     (let trust = (if tw_exposure (rv_payload g) = ExternalSpec then TrustExternal else TrustBackground);
          event_digest = take 24 (de_sha E fire_key)
      in \<lparr>rc_tenant_id = rv_tenant_id g, rc_actor_id = actor_id,
          rc_thread_id = ''trigger:'' @ rv_id g @ '':'' @ event_digest,
          rc_channel = (if trust = TrustExternal then ''intake'' else ''routine''),
          rc_run_kind = aw_runtime_profile (rv_payload spec),
          rc_correlation_id = ''trigger:'' @ rv_id g @ '':r'' @ str_int (rv_revision g) @ '':'' @ event_digest,
          rc_origin = origin, rc_agent_spec = tw_agent_spec (rv_payload g), rc_trust_class = trust\<rparr>)"

definition fire_digest :: "dispatch_env \<Rightarrow> trigger_spec_write revision \<Rightarrow> string \<Rightarrow> string" where
  "fire_digest E g fire_key = de_sha E (rv_tenant_id g @ [CHR 0x00] @ rv_id g @ [CHR 0x00] @
     str_int (rv_revision g) @ [CHR 0x00] @ fire_key)"

definition request_ok :: "string \<Rightarrow> string \<Rightarrow> bool" where
  "request_ok text key = (py_strip text \<noteq> [] \<and> (let k = py_strip key in k \<noteq> [] \<and> length k \<le> 300 \<and> \<not> has_control k))"

definition run_agent :: "dispatch_env \<Rightarrow> nat \<Rightarrow> trigger_spec_write revision \<Rightarrow> run_context \<Rightarrow> string \<Rightarrow> string \<Rightarrow> run_snapshot" where
  "run_agent E n g context instruction fire_key =
     (let digest = fire_digest E g fire_key;
          key = ''trigger:'' @ rv_id g @ '':'' @ digest
      in case (if request_ok instruction key then de_agent E n context instruction key else None) of
           Some snapshot \<Rightarrow> snapshot
         | None \<Rightarrow> \<lparr>sn_run_id = ''trigger-failure-'' @ take 24 digest, sn_context = context, sn_status = ''failed'',
             sn_final_text = [], sn_error = ''The trigger run failed before producing a result.'', sn_approvals = [],
             sn_created_at = [], sn_updated_at = [], sn_inference_plan = None\<rparr>)"

definition execution_status :: "run_snapshot \<Rightarrow> final_status" where
  "execution_status s = (if sn_status s = ''completed'' then Completed
     else if sn_status s = ''interrupted'' then Interrupted else Failed)"

definition delivery_of :: "trigger_spec_write revision \<Rightarrow> run_snapshot \<Rightarrow> (run_snapshot \<times> out_mode) option" where
  "delivery_of g s = (let bad_end = sn_status s \<in> {''interrupted'', ''failed''}; mode = ds_mode (tw_delivery (rv_payload g)) in
     if mode \<noteq> DeliverNone \<or> bad_end
     then Some (s, if bad_end then ModeOwner else if mode = DeliverOrigin then ModeOrigin else ModeOwner)
     else None)"

text \<open>
  \<open>_execute\<close> between the first drain and the await of the agent: a ticket means that the agent is called
  with its context, \<open>None\<close> that \<open>_execute\<close> returns without a run.
\<close>

record fire_ticket =
  ft_token :: string
  ft_context :: run_context

definition execute_claim ::
  "dispatch_env \<Rightarrow> spec_db \<Rightarrow> trigger_spec_write revision \<Rightarrow> string \<Rightarrow> string \<Rightarrow> origin_ref \<Rightarrow> nat \<Rightarrow>
   (exec_db, dispatch_error, fire_ticket option) oper" where
  "execute_claim E specs g fire_key actor_id origin n db =
     (case agent_get_revision (tw_agent_spec (rv_payload g)) (sd_agents specs) of
        Inl e \<Rightarrow> raises (DispatchSpecError e) db
      | Inr None \<Rightarrow> ok None db
      | Inr (Some spec) \<Rightarrow>
        if aw_isolation (rv_payload spec) \<noteq> tw_exposure (rv_payload g) then ok None db
        else (case claim (fire_of g fire_key) (aw_max_runtime_seconds (rv_payload spec) + 60) (de_clock E n) (de_draw E n 0) db of
           (Inl e, db1) \<Rightarrow> raises e db1
         | (Inr None, db1) \<Rightarrow> ok None db1
         | (Inr (Some token), db1) \<Rightarrow>
           (case AgentRunContext (fire_context E g spec fire_key actor_id origin) of
              Inl e \<Rightarrow> raises (DispatchValidation e) db1
            | Inr context \<Rightarrow> ok (Some \<lparr>ft_token = token, ft_context = context\<rparr>) db1)))"

text \<open>\<open>_execute\<close> between the agent's answer and the second drain.\<close>

definition execute_finish ::
  "dispatch_env \<Rightarrow> trigger_spec_write revision \<Rightarrow> string \<Rightarrow> string \<Rightarrow> run_snapshot \<Rightarrow> nat \<Rightarrow> (exec_db, dispatch_error, bool) oper" where
  "execute_finish E g fire_key lease_token snapshot n =
     finish (fire_of g fire_key) lease_token (execution_status snapshot) (Some (sn_run_id snapshot))
       (delivery_of g snapshot) (de_clock E n)"

definition execute ::
  "dispatch_env \<Rightarrow> spec_db \<Rightarrow> trigger_spec_write revision \<Rightarrow> string \<Rightarrow> string \<Rightarrow> string \<Rightarrow> origin_ref \<Rightarrow> nat \<Rightarrow> exec_db \<Rightarrow>
   ((dispatch_stop + run_snapshot option) \<times> nat \<times> exec_db) option" where
  "execute E specs g fire_key instruction actor_id origin n db =
     (case drain_deliveries E (sd_triggers specs) n db of None \<Rightarrow> None
      | Some (Inl s, n1, db1) \<Rightarrow> Some (Inl s, n1, db1)
      | Some (Inr _, n1, db1) \<Rightarrow>
       (case execute_claim E specs g fire_key actor_id origin n1 db1 of
          (Inl e, db2) \<Rightarrow> Some (Inl (StopError e), Suc n1, db2)
        | (Inr None, db2) \<Rightarrow> Some (Inr None, Suc n1, db2)
        | (Inr (Some ticket), db2) \<Rightarrow>
          (let snapshot = run_agent E (Suc n1) g (ft_context ticket) instruction fire_key;
               db3 = snd (run_calls (exec_exec (de_load E)) (de_others E (Suc n1)) db2)
           in case execute_finish E g fire_key (ft_token ticket) snapshot (Suc n1) db3 of
                (Inl e, db4) \<Rightarrow> Some (Inl (StopError e), Suc (Suc n1), db4)
              | (Inr _, db4) \<Rightarrow>
                (case drain_deliveries E (sd_triggers specs) (Suc (Suc n1)) db4 of None \<Rightarrow> None
                 | Some (Inl s, n5, db5) \<Rightarrow> Some (Inl s, n5, db5)
                 | Some (Inr _, n5, db5) \<Rightarrow> Some (Inr (Some snapshot), n5, db5)))))"

text \<open>
  \<open>dispatch_event\<close> up to the run: what instruction and origin an event is executed with. \<open>render\<close> is
  the canonical JSON text of the payload and \<open>nbytes\<close> its length in UTF-8.
\<close>

definition dispatch_event ::
  "dispatch_env \<Rightarrow> (json \<Rightarrow> string) \<Rightarrow> (string \<Rightarrow> int) \<Rightarrow> spec_db \<Rightarrow> string \<Rightarrow> string \<Rightarrow> string \<Rightarrow> string \<Rightarrow> string \<Rightarrow> bool \<Rightarrow> json \<Rightarrow> nat \<Rightarrow>
   exec_db \<Rightarrow> ((dispatch_stop + run_snapshot option) \<times> nat \<times> exec_db) option" where
  "dispatch_event E render nbytes specs t i source_event_id event_type source authenticated payload n db =
     (case trigger_get_active (de_zone E) (de_cron E) t i (sd_triggers specs) of
        Inl e \<Rightarrow> Some (Inl (StopError (DispatchSpecError e)), n, db)
      | Inr None \<Rightarrow> Some (Inr None, n, db)
      | Inr (Some g) \<Rightarrow>
        if \<not> tw_enabled (rv_payload g) then Some (Inr None, n, db)
        else (case tw_source (rv_payload g) of
          EventTrigger ty src au \<Rightarrow>
            if ty \<noteq> event_type \<or> src \<noteq> source then Some (Inr None, n, db)
            else if au = Required \<and> \<not> authenticated
            then Some (Inl (StopError (DispatchPermissionError ''authenticated trigger event is required'')), n, db)
            else (let rendered = render payload in
              if nbytes rendered > 1000000
              then Some (Inl (StopError (DispatchValueError ''trigger event payload exceeds the size limit'')), n, db)
              else (let origin = \<lparr>or_interface = source, or_source_id = rv_id g, or_conversation_id = None,
                       or_message_id = Some (take 200 source_event_id)\<rparr>;
                     instruction = tw_instruction (rv_payload g) @
                       (if rendered \<noteq> ''{}'' then [CHR 0x0A, CHR 0x0A] @ ''Authenticated event payload:'' @ [CHR 0x0A] @ rendered else [])
                 in case construct strip_origin origin_fields (\<lambda>_. None) origin of
                      Inl e \<Rightarrow> Some (Inl (StopError (DispatchValidation e)), n, db)
                    | Inr org \<Rightarrow> execute E specs g source_event_id instruction (''event:'' @ source) org n db))
        | _ \<Rightarrow> Some (Inr None, n, db)))"

section \<open>The drain loop ends\<close>

lemma length_filter_upd_drop:
  assumes "\<And>r. P r \<Longrightarrow> Q r \<and> \<not> Q (f r)"
  shows "length (filter Q (upd P f t)) + length (filter P t) = length (filter Q t)"
  using assms by (induction t) auto

lemma length_filter_upd_keep:
  assumes "\<And>r. P r \<Longrightarrow> Q (f r) = Q r"
  shows "length (filter Q (upd P f t)) = length (filter Q t)"
  using assms by (induction t) auto

definition held :: "claimed_delivery \<Rightarrow> exec_db \<Rightarrow> bool" where
  "held d db = (\<exists>r \<in> set (outbox db). ob_id r = cd_id d \<and> ob_status r = OutDelivering \<and> ob_lease_token r = Some (cd_lease_token d))"

lemma held_upd:
  assumes "held d db" "\<And>r. P r \<Longrightarrow> ob_id r \<noteq> cd_id d"
  shows "held d (db\<lparr>outbox := upd P f (outbox db)\<rparr>)"
proof -
  obtain r where r: "r \<in> set (outbox db)" "ob_id r = cd_id d" "ob_status r = OutDelivering"
    "ob_lease_token r = Some (cd_lease_token d)" using assms(1) by (auto simp: held_def)
  have "r \<in> (\<lambda>x. if P x then f x else x) ` set (outbox db)" using r(1,2) assms(2) by (intro image_eqI [of _ _ r]) auto
  then have "r \<in> set (upd P f (outbox db))" unfolding set_upd .
  then show ?thesis unfolding held_def using r(2-4) by (intro bexI [of _ r]) simp_all
qed

lemma claim_rows_frame:
  assumes "claim_rows ld draw now e n rs ob = Inr (cs, ob')" "r \<in> set ob" "ob_id r \<notin> ob_id ` set rs"
  shows "r \<in> set ob'"
  using assms
proof (induction rs arbitrary: n ob cs)
  case (Cons s rs)
  let ?hit = "\<lambda>x. ob_id x = ob_id s \<and> claimable now x"
  let ?f = "\<lambda>x. x\<lparr>ob_status := OutDelivering, ob_attempt_count := Suc (ob_attempt_count x),
    ob_lease_token := Some (draw n), ob_lease_expires_at := Some e, ob_updated_at := now\<rparr>"
  have "r \<in> (\<lambda>y. if ?hit y then ?f y else y) ` set ob" using Cons.prems(2,3) by (intro image_eqI [of _ _ r]) auto
  then have r: "r \<in> set (upd ?hit ?f ob)" unfolding set_upd .
  have "\<exists>cs'. claim_rows ld draw now e (Suc n) rs (upd ?hit ?f ob) = Inr (cs', ob')"
    using Cons.prems(1) by (auto simp: Let_def split: if_splits sum.splits prod.splits)
  then obtain cs' where "claim_rows ld draw now e (Suc n) rs (upd ?hit ?f ob) = Inr (cs', ob')" ..
  from Cons.IH [OF this r] Cons.prems(3) show ?case by simp
qed simp

lemma claim_rows_held:
  assumes "claim_rows ld draw now e n rs (outbox db) = Inr (cs, ob')" "distinct (map ob_id rs)"
  shows "set (map cd_id cs) \<subseteq> ob_id ` set rs" "distinct (map cd_id cs)" "d \<in> set cs \<Longrightarrow> held d (db\<lparr>outbox := ob'\<rparr>)"
    "length (filter (\<lambda>r. ob_status r \<noteq> OutDelivered) ob') = undelivered db"
proof -
  have "set (map cd_id cs) \<subseteq> ob_id ` set rs \<and> distinct (map cd_id cs) \<and> (\<forall>d \<in> set cs. held d (db\<lparr>outbox := ob'\<rparr>)) \<and>
    length (filter (\<lambda>r. ob_status r \<noteq> OutDelivered) ob') = undelivered db"
    using assms
  proof (induction rs arbitrary: n db cs)
    case Nil
    then show ?case by (simp add: undelivered_def)
  next
    case (Cons s rs)
    let ?hit = "\<lambda>x. ob_id x = ob_id s \<and> claimable now x"
    let ?f = "\<lambda>x. x\<lparr>ob_status := OutDelivering, ob_attempt_count := Suc (ob_attempt_count x),
      ob_lease_token := Some (draw n), ob_lease_expires_at := Some e, ob_updated_at := now\<rparr>"
    let ?db = "db\<lparr>outbox := upd ?hit ?f (outbox db)\<rparr>"
    have same: "undelivered ?db = undelivered db"
      unfolding undelivered_def by (simp, rule length_filter_upd_keep) (auto simp: claimable_def)
    have new: "ob_id s \<notin> ob_id ` set rs" "distinct (map ob_id rs)" using Cons.prems(2) by auto
    show ?case
    proof (cases "length (filter ?hit (outbox db)) = 1")
      case False
      with Cons.prems(1) have "claim_rows ld draw now e (Suc n) rs (outbox ?db) = Inr (cs, ob')" by (simp add: Let_def)
      from Cons.IH [OF this new(2)] same show ?thesis by auto
    next
      case True
      then obtain cs' z where c: "claim_rows ld draw now e (Suc n) rs (outbox ?db) = Inr (cs', ob')" "cs = z # cs'"
        "cd_id z = ob_id s" "cd_lease_token z = draw n"
        using Cons.prems(1) by (auto simp: Let_def split: sum.splits prod.splits)
      obtain r where r: "r \<in> set (outbox db)" "?hit r"
        using filter_mem_one [OF True] by blast
      have "?f r \<in> set (upd ?hit ?f (outbox db))" unfolding set_upd using r by (intro image_eqI [of _ _ r]) auto
      then have "?f r \<in> set ob'"
        using claim_rows_frame [OF c(1), of "?f r"] new(1) r(2) by simp
      then have "held z (db\<lparr>outbox := ob'\<rparr>)" unfolding held_def using c(3,4) r(2) by (intro bexI [of _ "?f r"]) simp_all
      moreover have i: "set (map cd_id cs') \<subseteq> ob_id ` set rs" "distinct (map cd_id cs')"
        "\<forall>d \<in> set cs'. held d (?db\<lparr>outbox := ob'\<rparr>)"
        "length (filter (\<lambda>r. ob_status r \<noteq> OutDelivered) ob') = undelivered ?db"
        using Cons.IH [OF c(1) new(2)] by blast+
      moreover have "cd_id z \<notin> set (map cd_id cs')" using subsetD [OF i(1), of "cd_id z"] new(1) c(3) by auto
      moreover have "set (map cd_id cs) \<subseteq> ob_id ` set (s # rs)" using i(1) c(2,3) by auto
      ultimately show ?thesis using same c(2) by simp
    qed
  qed
  then show "set (map cd_id cs) \<subseteq> ob_id ` set rs" "distinct (map cd_id cs)" "d \<in> set cs \<Longrightarrow> held d (db\<lparr>outbox := ob'\<rparr>)"
    "length (filter (\<lambda>r. ob_status r \<noteq> OutDelivered) ob') = undelivered db" by blast+
qed

lemma claim_deliveries_held:
  assumes inv: "exec_inv db" and c: "claim_deliveries ld draw lease limit now db = (Inr cs, db')"
  shows "distinct (map cd_id cs) \<and> (\<forall>d \<in> set cs. held d db') \<and> undelivered db' = undelivered db"
proof -
  let ?rs = "take (nat limit) (sort_key ob_id (filter (claimable now) (outbox db)))"
  have "distinct (map ob_id (sort_key ob_id (filter (claimable now) (outbox db))))"
    using exec_invD(3) [OF inv] by (auto simp: distinct_map intro: inj_on_subset)
  then have d: "distinct (map ob_id ?rs)" by (metis distinct_take take_map)
  obtain ob where o: "claim_rows ld draw now (plus_seconds now lease) 0 ?rs (outbox db) = Inr (cs, ob)"
    "db' = db\<lparr>outbox := ob\<rparr>"
    using c by (auto simp: claim_deliveries_def Let_def split: if_splits sum.splits prod.splits)
  from claim_rows_held [OF o(1) d] show ?thesis by (simp add: o(2) undelivered_def)
qed

lemma claim_nothing:
  assumes inv: "exec_inv db" and c: "claim_deliveries ld draw lease limit now db = (Inr [], db')"
  shows "\<forall>r \<in> set (outbox db'). \<not> claimable now r"
proof -
  let ?due = "sort_key ob_id (filter (claimable now) (outbox db))"
  have pos: "0 < limit" and ex: "\<exists>ob. claim_rows ld draw now (plus_seconds now lease) 0 (take (nat limit) ?due) (outbox db) = Inr ([], ob) \<and>
      db' = db\<lparr>outbox := ob\<rparr>"
    using c by (auto simp: claim_deliveries_def Let_def split: if_splits sum.splits prod.splits)
  have "?due = []"
  proof (rule ccontr)
    assume "?due \<noteq> []"
    then obtain r rs where due: "take (nat limit) ?due = r # rs" using pos by (cases "take (nat limit) ?due") auto
    then have "r \<in> set ?due" by (metis in_set_takeD list.set_intros(1))
    then have r: "r \<in> set (outbox db)" "claimable now r" by auto
    then have "\<exists>x \<in> set (outbox db). ob_id x = ob_id r \<and> claimable now x" by blast
    then have "length (filter (\<lambda>x. ob_id x = ob_id r \<and> claimable now x) (outbox db)) = 1"
      using filter_keyed [OF exec_invD(3) [OF inv], of "\<lambda>x. ob_id x = ob_id r \<and> claimable now x"] by simp
    with ex due show False by (auto simp: Let_def split: sum.splits prod.splits)
  qed
  with ex have "db' = db" by auto
  with \<open>?due = []\<close> show ?thesis by (metis filter_empty_conv set_empty2 set_sort)
qed

lemma retry_undelivered:
  assumes "retry_delivery i token now db = (x, db')"
  shows "undelivered db' = undelivered db" "held d db \<Longrightarrow> cd_id d \<noteq> i \<Longrightarrow> held d db'"
proof -
  let ?hit = "\<lambda>r. ob_id r = i \<and> ob_status r = OutDelivering \<and> ob_lease_token r = Some token"
  let ?f = "\<lambda>r. r\<lparr>ob_status := OutPending, ob_lease_token := None, ob_lease_expires_at := None, ob_updated_at := now\<rparr>"
  have db': "db' = db\<lparr>outbox := upd ?hit ?f (outbox db)\<rparr>" using assms by (auto simp: retry_delivery_def Let_def)
  show "undelivered db' = undelivered db" unfolding db' undelivered_def by (simp, rule length_filter_upd_keep) simp
  show "held d db'" if "held d db" "cd_id d \<noteq> i"
    unfolding db' using that by (intro held_upd) auto
qed

lemma complete_undelivered:
  assumes inv: "exec_inv db" and c: "complete_delivery (cd_id d) (cd_lease_token d) now db = (x, db')" and h: "held d db"
  shows "Suc (undelivered db') = undelivered db" "held d' db \<Longrightarrow> cd_id d' \<noteq> cd_id d \<Longrightarrow> held d' db'"
proof -
  let ?hit = "\<lambda>r. ob_id r = cd_id d \<and> ob_status r = OutDelivering \<and> ob_lease_token r = Some (cd_lease_token d)"
  let ?f = "\<lambda>r. r\<lparr>ob_status := OutDelivered, ob_lease_token := None, ob_lease_expires_at := None, ob_updated_at := now\<rparr>"
  have db': "db' = db\<lparr>outbox := upd ?hit ?f (outbox db)\<rparr>" using c by (auto simp: complete_delivery_def Let_def)
  have "length (filter ?hit (outbox db)) = 1"
    using filter_keyed [OF exec_invD(3) [OF inv], of ?hit] h by (simp add: held_def)
  then show "Suc (undelivered db') = undelivered db"
    using length_filter_upd_drop [of ?hit "\<lambda>r. ob_status r \<noteq> OutDelivered" ?f "outbox db"]
    unfolding db' undelivered_def by simp
  show "held d' db'" if "held d' db" "cd_id d' \<noteq> cd_id d"
    unfolding db' using that by (intro held_upd) auto
qed

lemma drain_batch_ticks:
  "drain_batch E deliver triggers ds retry n db = (x, n', db') \<Longrightarrow> n \<le> n'"
  by (induction E deliver triggers ds retry n db rule: drain_batch.induct)
    (fastforce simp: Let_def split: sum.splits option.splits delivery_outcome.splits)+

text \<open>What draining does to the store besides the statuses: nothing.\<close>

definition drains :: "exec_db \<Rightarrow> exec_db \<Rightarrow> bool" where
  "drains db db' = (exec_inv db' \<and> out_grows db db' \<and> executions db' = executions db \<and>
     length (outbox db') = length (outbox db))"

lemma claim_deliveries_length:
  assumes "claim_deliveries ld draw lease limit now db = (x, db')"
  shows "length (outbox db') = length (outbox db)"
proof -
  have "length ob' = length ob" if "claim_rows ld draw now e n rs ob = Inr (cs, ob')" for e n rs ob cs ob'
    using that
  proof (induction rs arbitrary: n ob cs)
    case (Cons row rs)
    then show ?case by (fastforce simp: Let_def split: if_splits sum.splits prod.splits)
  qed simp
  with assms show ?thesis
    by (auto simp: claim_deliveries_def Let_def split: if_splits sum.splits prod.splits)
qed

lemma outbox_length:
  "retry_delivery i token now db = (x, db') \<Longrightarrow> length (outbox db') = length (outbox db)"
  "complete_delivery i token now db = (y, db') \<Longrightarrow> length (outbox db') = length (outbox db)"
  by (auto simp: retry_delivery_def complete_delivery_def Let_def)

text \<open>So the rows of the outbox are the same before and after, but for their statuses.\<close>

lemma drains_same: "drains db db' \<Longrightarrow> map out_ident (outbox db') = map out_ident (outbox db)"
proof -
  assume d: "drains db db'"
  then obtain new where "map out_ident (outbox db') = map out_ident (outbox db) @ new" by (auto simp: drains_def out_grows_def)
  moreover from this have "length (outbox db') = length (outbox db) + length new" by (metis length_append length_map)
  ultimately show ?thesis using d by (simp add: drains_def)
qed

lemma drains_refl [simp]: "exec_inv db \<Longrightarrow> drains db db"
  by (simp add: drains_def)

lemma drains_trans: "drains a b \<Longrightarrow> drains b c \<Longrightarrow> drains a c"
  by (auto simp: drains_def intro: out_grows_trans)

lemma drains_inv: "drains db db' \<Longrightarrow> exec_inv db'"
  by (simp add: drains_def)

lemma drain_batch_step:
  assumes "exec_inv db" "distinct (map cd_id ds)" "\<forall>d \<in> set ds. held d db"
    "drain_batch E deliver triggers ds retry n db = (x, n', db')"
  shows "drains db db' \<and> (x = Inr False \<longrightarrow> \<not> retry \<and> undelivered db' + length ds = undelivered db)"
  using assms
proof (induction ds arbitrary: retry n db)
  case (Cons d ds)
  obtain y dbr where r: "retry_delivery (cd_id d) (cd_lease_token d) (de_clock E n) db = (y, dbr)" by fastforce
  obtain z dbc where c: "complete_delivery (cd_id d) (cd_lease_token d) (de_clock E n) db = (z, dbc)" by fastforce
  have ir: "drains db dbr" and ic: "drains db dbc"
    using retry_step [OF Cons.prems(1) r] outbox_complete_step [OF Cons.prems(1) c] outbox_length(1) [OF r]
      outbox_length(2) [OF c] by (auto simp: drains_def)
  have h: "held d db" using Cons.prems(3) by simp
  have ne: "cd_id d' \<noteq> cd_id d" if "d' \<in> set ds" for d'
    using Cons.prems(2) that by (metis distinct.simps(2) image_eqI list.set_map list.simps(9))
  have hr: "\<forall>d' \<in> set ds. held d' dbr" and hc: "\<forall>d' \<in> set ds. held d' dbc"
    using Cons.prems(3) ne retry_undelivered(2) [OF r] complete_undelivered(2) [OF Cons.prems(1) c h] by auto
  have dist: "distinct (map cd_id ds)" using Cons.prems(2) by simp
  have put_back: "drains db db' \<and> (x = Inr False \<longrightarrow> \<not> retry \<and> undelivered db' + length (d # ds) = undelivered db)"
    if "drain_batch E deliver triggers ds True (Suc n) dbr = (x, n', db')"
    using Cons.IH [OF drains_inv [OF ir] dist hr that] drains_trans [OF ir] by blast
  show ?case
  proof (cases "trigger_of E triggers d")
    case (Inl e)
    with Cons.prems(1,4) show ?thesis by (auto simp: Let_def)
  next
    case (Inr go)
    show ?thesis
    proof (cases go)
      case None
      with Inr Cons.prems(4) r put_back show ?thesis by (simp add: Let_def)
    next
      case (Some g)
      show ?thesis
      proof (cases "deliver n g (cd_snapshot d) (cd_mode d)")
        case DeliveryFine
        with Inr Some Cons.prems(4) c have b: "drain_batch E deliver triggers ds retry (Suc n) dbc = (x, n', db')"
          by (simp add: Let_def)
        from Cons.IH [OF drains_inv [OF ic] dist hc b] complete_undelivered(1) [OF Cons.prems(1) c h] drains_trans [OF ic]
        show ?thesis by auto
      next
        case DeliveryRaised
        with Inr Some Cons.prems(4) r put_back show ?thesis by (simp add: Let_def)
      next
        case DeliveryCancelled
        with Inr Some Cons.prems(4) r ir show ?thesis by (auto simp: Let_def)
      qed
    qed
  qed
next
  case Nil
  then show ?case by auto
qed

lemma drain_rounds_end:
  assumes "exec_inv db" "undelivered db < rounds"
  shows "\<exists>x n' db'. drain_rounds rounds E deliver triggers n db = Some (x, Suc n', db') \<and> drains db db' \<and>
    (x = Inr False \<longrightarrow> (\<forall>r \<in> set (outbox db'). \<not> claimable (de_clock E n') r))"
  using assms
proof (induction rounds arbitrary: n db)
  case (Suc rounds)
  obtain y db1 where c: "claim_deliveries (de_load E) (de_draw E n) (de_lease E) 100 (de_clock E n) db = (y, db1)" by fastforce
  have i1: "drains db db1" using claim_deliveries_step [OF Suc.prems(1) c] claim_deliveries_length [OF c] by (auto simp: drains_def)
  show ?case
  proof (cases y)
    case (Inl e)
    with c i1 show ?thesis by simp
  next
    case (Inr cs)
    note h = claim_deliveries_held [OF Suc.prems(1) c [unfolded Inr]]
    show ?thesis
    proof (cases cs)
      case Nil
      have "\<not> claimable (de_clock E n) r" if "r \<in> set (outbox db1)" for r
        using claim_nothing [OF Suc.prems(1) c [unfolded Inr Nil]] that by blast
      with c Inr Nil i1 show ?thesis by auto
    next
      case (Cons d ds)
      obtain x n2 db2 where b: "drain_batch E deliver triggers (d # ds) False (Suc n) db1 = (x, n2, db2)"
        by (metis prod_cases3)
      have s: "drains db1 db2" "x = Inr False \<Longrightarrow> undelivered db2 + length (d # ds) = undelivered db1"
        using drain_batch_step [OF drains_inv [OF i1] _ _ b] h Cons by blast+
      have t: "drains db db2" by (rule drains_trans [OF i1 s(1)])
      obtain m where m: "n2 = Suc m" using drain_batch_ticks [OF b] by (cases n2) auto
      show ?thesis
      proof (cases "x = Inr False")
        case True
        then have "undelivered db2 < rounds" using s(2) h Suc.prems(2) by simp
        from Suc.IH [OF drains_inv [OF t] this, of n2] True c Inr Cons b drains_trans [OF t] show ?thesis by auto
      next
        case False
        with c Inr Cons b t m show ?thesis by (cases x) auto
      qed
    qed
  qed
qed simp

lemma drain_rounds_mono:
  "drain_rounds rounds E deliver triggers n db = Some y \<Longrightarrow> rounds \<le> bound \<Longrightarrow>
   drain_rounds bound E deliver triggers n db = Some y"
proof (induction rounds arbitrary: bound n db)
  case (Suc rounds)
  then obtain k where "bound = Suc k" "rounds \<le> k" by (cases bound) auto
  with Suc show ?case by (auto split: prod.splits sum.splits list.splits bool.splits)
qed simp

lemma drain_ends:
  assumes "exec_inv db"
  shows "\<exists>x n' db'. drain_deliveries E triggers n db = Some (x, n', db') \<and> drains db db'"
  using assms drain_rounds_end [OF assms lessI] by (auto simp: drain_deliveries_def split: option.splits) fastforce

lemma claim_holds:
  assumes c: "claim k lease now v db = (Inr (Some u), db')"
  shows "u = v \<and> (\<exists>r \<in> set (executions db'). ex_key r = k \<and> ex_status r = ExecRunning \<and> ex_lease_token r = Some v)"
proof (cases "sel (\<lambda>r. ex_key r = k) (executions db)")
  case None
  with c show ?thesis by (auto simp: claim_def Let_def split: if_splits)
next
  case (Some r)
  let ?hit = "\<lambda>r. ex_key r = k \<and> ex_status r = ExecRunning \<and> expired now (ex_lease_expires_at r)"
  let ?f = "\<lambda>r. r\<lparr>ex_attempt_count := Suc (ex_attempt_count r), ex_lease_token := Some v,
    ex_lease_expires_at := Some (plus_seconds now lease), ex_updated_at := now\<rparr>"
  have d: "u = v" "length (filter ?hit (executions db)) = 1" "db' = db\<lparr>executions := upd ?hit ?f (executions db)\<rparr>"
    using c Some by (auto simp: claim_def Let_def split: if_splits)
  then obtain s where s: "s \<in> set (executions db)" "?hit s" using filter_mem_one [OF d(2)] by blast
  have "?f s \<in> (\<lambda>r. if ?hit r then ?f r else r) ` set (executions db)" using s by (intro image_eqI [of _ _ s]) auto
  then have "?f s \<in> set (upd ?hit ?f (executions db))" unfolding set_upd .
  then have "?f s \<in> set (executions db')" unfolding d(3) by simp
  with s(2) d(1) show ?thesis by (intro conjI bexI [of _ "?f s"]) simp_all
qed

lemma claim_of_settled:
  assumes inv: "exec_inv db" and s: "settled_run k db" and c: "claim k lease now v db = (x, db')"
  shows "x = Inr None \<or> (\<exists>e. x = Inl e)"
proof -
  have "\<not> (ex_key r = k \<and> ex_status r = ExecRunning)" if "r \<in> set (executions db)" for r
    using s that distinct_key_eq [OF exec_invD(1) [OF inv] that] by (auto simp: settled_run_def)
  then have "filter (\<lambda>r. ex_key r = k \<and> ex_status r = ExecRunning \<and> expired now (ex_lease_expires_at r)) (executions db) = []"
    by (auto simp: filter_empty_conv)
  moreover have "sel (\<lambda>r. ex_key r = k) (executions db) \<noteq> None" using s by (auto simp: settled_run_def sel_None)
  ultimately show ?thesis using c by (auto simp: claim_def Let_def split: if_splits)
qed

lemma out_grows_keeps:
  assumes "out_grows db db'" "r \<in> set (outbox db)"
  shows "\<exists>r' \<in> set (outbox db'). out_ident r' = out_ident r"
proof -
  obtain new where "map out_ident (outbox db') = map out_ident (outbox db) @ new" using assms(1) by (auto simp: out_grows_def)
  then have "out_ident r \<in> set (map out_ident (outbox db'))" using assms(2) by simp
  then show ?thesis by auto
qed

lemma execute_claim_ticket:
  assumes inv: "exec_inv db" and c: "execute_claim E specs g k actor org n db = (Inr (Some ticket), db')"
  shows "exec_inv db'" "\<not> settled_run (fire_of g k) db'"
    "\<exists>r \<in> set (executions db'). ex_key r = fire_of g k \<and> ex_status r = ExecRunning \<and> ex_lease_token r = Some (ft_token ticket)"
proof -
  have "\<exists>lease. claim (fire_of g k) lease (de_clock E n) (de_draw E n 0) db = (Inr (Some (ft_token ticket)), db')"
    using c unfolding execute_claim_def by (auto split: option.splits sum.splits prod.splits if_splits)
  then obtain lease where cl: "claim (fire_of g k) lease (de_clock E n) (de_draw E n 0) db = (Inr (Some (ft_token ticket)), db')" ..
  show "exec_inv db'" using fire_claim_step [OF inv cl] by blast
  show "\<not> settled_run (fire_of g k) db'"
    using claim_of_settled [OF inv _ cl] fire_claim_step [OF inv cl] by auto
  show "\<exists>r \<in> set (executions db'). ex_key r = fire_of g k \<and> ex_status r = ExecRunning \<and> ex_lease_token r = Some (ft_token ticket)"
    using claim_holds [OF cl] by auto
qed

lemma execute_claim_settled:
  assumes inv: "exec_inv db" and s: "settled_run (fire_of g k) db"
  shows "fst (execute_claim E specs g k actor org n db) \<noteq> Inr (Some ticket)"
  using execute_claim_ticket(2) [OF inv, of E specs g k actor org n ticket]
    fire_claim_step [OF inv] s claim_of_settled [OF inv s]
  by (cases "execute_claim E specs g k actor org n db")
    (auto simp: execute_claim_def split: option.splits sum.splits prod.splits if_splits)

lemma finish_held:
  "fst (finish k v status rid delivery now db) = Inr True \<Longrightarrow>
   \<exists>r \<in> set (executions db). ex_key r = k \<and> ex_status r = ExecRunning \<and> ex_lease_token r = Some v"
proof -
  let ?hit = "\<lambda>r. ex_key r = k \<and> ex_status r = ExecRunning \<and> ex_lease_token r = Some v"
  assume "fst (finish k v status rid delivery now db) = Inr True"
  then have "filter ?hit (executions db) \<noteq> []"
    by (auto simp: finish_def Let_def split: option.splits prod.splits if_splits)
  then show ?thesis by (auto simp: filter_empty_conv)
qed

lemma finish_lost:
  assumes "finish k v status rid delivery now db = (Inr False, db')" "exec_inv db"
  shows "db' = db"
proof -
  let ?hit = "\<lambda>r. ex_key r = k \<and> ex_status r = ExecRunning \<and> ex_lease_token r = Some v"
  have "\<not> (\<exists>r \<in> set (executions db). ?hit r)"
    using finish_accepts [OF assms(2), of _ k v status rid delivery now] assms(1) by fastforce
  then have "filter ?hit (executions db) = []" "\<And>f. upd ?hit f (executions db) = executions db"
    by (auto simp: filter_empty_conv intro: upd_none)
  with assms(1) show ?thesis by (cases delivery) (auto simp: finish_def Let_def)
qed

text \<open>What is in the outbox for a fire after it is finished with a snapshot: the snapshot, or nothing.\<close>

lemma finish_outbox:
  assumes inv: "exec_inv db" and f: "finish k v status rid delivery now db = (Inr True, db')"
  shows "map (\<lambda>r. (ob_mode r, ob_snapshot r)) (filter (\<lambda>r. ob_key r = k) (outbox db')) =
    (case delivery of None \<Rightarrow> [] | Some (s, mode) \<Rightarrow> [(mode, serialize_snapshot s)])"
proof -
  have "\<not> settled_run k db" using finish_step [OF inv f] by blast
  then have "filter (\<lambda>r. ob_key r = k) (outbox db) = []"
    using exec_invD(5) [OF inv] by (auto simp: filter_empty_conv)
  then show ?thesis using f by (auto simp: finish_def Let_def split: option.splits prod.splits if_splits)
qed

section \<open>Properties\<close>

text \<open>
  C32: The drain loop of the dispatcher always ends. From any state the store can reach, with any
  delivery callback, one round more than there are undelivered results is enough, and more rounds
  give the same result. When it reports that nothing is pending, no result was claimable at its last
  clock reading.
\<close>

theorem drain_loop_terminates:
  assumes "db = snd (run_calls (exec_exec ld) cs empty_exec_db)" "undelivered db < rounds"
  shows "\<exists>x m db'. drain_rounds rounds E deliver triggers n db = Some (x, Suc m, db') \<and>
    drain_rounds (Suc (undelivered db)) E deliver triggers n db = Some (x, Suc m, db') \<and>
    (x = Inr False \<longrightarrow> (\<forall>r \<in> set (outbox db'). \<not> claimable (de_clock E m) r))"
proof -
  have inv: "exec_inv db" unfolding assms(1) by (rule exec_calls.run_start_inv)
  obtain x m db' where r: "drain_rounds (Suc (undelivered db)) E deliver triggers n db = Some (x, Suc m, db')"
    "x = Inr False \<longrightarrow> (\<forall>r \<in> set (outbox db'). \<not> claimable (de_clock E m) r)"
    using drain_rounds_end [OF inv lessI, of E deliver triggers n] by blast
  from drain_rounds_mono [OF r(1) Suc_leI [OF assms(2)]] r show ?thesis by blast
qed

definition example_dispatch :: dispatch_env where
  "example_dispatch = \<lparr>de_zone = (\<lambda>_. True), de_cron = (\<lambda>_ _. True), de_load = (\<lambda>_. Inr example_snapshot), de_clock = At,
     de_draw = (\<lambda>_ _. ''token''), de_deliver = Some (\<lambda>_ _ _ _. DeliveryFine), de_lease = 60,
     de_sha = (\<lambda>_. replicate 64 (CHR ''a'')), de_agent = (\<lambda>_ c _ _. Some (example_snapshot\<lparr>sn_context := c\<rparr>)),
     de_others = (\<lambda>_. [])\<rparr>"

theorem drain_loop_terminates_witness:
  "\<exists>x m db'. drain_rounds 5 example_dispatch (\<lambda>_ _ _ _. DeliveryFine) \<lparr>revisions = [], active_refs = []\<rparr> 3
     (snd (run_calls (exec_exec (\<lambda>_. Inr example_snapshot)) [Claim example_fire 10 (At 0) ''u'',
        Finish example_fire ''u'' Failed None (Some (example_snapshot, ModeOwner)) (At 2)] empty_exec_db)) = Some (x, Suc m, db')"
proof -
  let ?db = "snd (run_calls (exec_exec (\<lambda>_. Inr example_snapshot)) [Claim example_fire 10 (At 0) ''u'',
    Finish example_fire ''u'' Failed None (Some (example_snapshot, ModeOwner)) (At 2)] empty_exec_db)"
  have "undelivered ?db < 5" by code_simp
  from drain_loop_terminates [OF refl this, of example_dispatch "\<lambda>_ _ _ _. DeliveryFine" "\<lparr>revisions = [], active_refs = []\<rparr>" 3]
  show ?thesis by blast
qed

text \<open>
  C5: The agent of a fire is called only by the worker that holds its claim, and no more once a run of
  the fire is settled. From any reachable store, when \<open>_execute\<close> goes on to the agent the fire is not
  settled and is running under the drawn token. Whatever calls other workers make on the store
  meanwhile, when the agent has answered (or failed), the answer is recorded exactly if the fire still
  runs under that token: the fire is then settled, and the outbox holds exactly this answer for it, for
  the owner if the run was interrupted or failed, or nothing if the trigger wants no delivery and the
  run went well. If the token was taken over, nothing is recorded. After a recorded answer no worker
  ever calls the agent for this fire again, whatever the calls, specifications and environment.
\<close>

theorem fire_runs_to_a_result_once:
  assumes "db = snd (run_calls (exec_exec ld) cs empty_exec_db)"
    and "execute_claim E specs g k actor org n db = (Inr (Some ticket), db1)"
    and "db2 = snd (run_calls (exec_exec ld) cs2 db1)"
    and "s = run_agent E m g (ft_context ticket) instr k"
    and "execute_finish E g k (ft_token ticket) s m db2 = (x, db3)"
    and "db4 = snd (run_calls (exec_exec ld) cs4 db3)"
  shows "let holds = (\<lambda>d. \<exists>r \<in> set (executions d). ex_key r = fire_of g k \<and> ex_status r = ExecRunning \<and>
      ex_lease_token r = Some (ft_token ticket)) in
    \<not> settled_run (fire_of g k) db1 \<and> holds db1 \<and>
    (if holds db2 then x = Inr True \<and> settled_run (fire_of g k) db3 \<and>
       map (\<lambda>r. (ob_mode r, ob_snapshot r)) (filter (\<lambda>r. ob_key r = fire_of g k) (outbox db3)) =
         (if sn_status s \<in> {''interrupted'', ''failed''} then [(ModeOwner, serialize_snapshot s)]
          else case ds_mode (tw_delivery (rv_payload g)) of DeliverNone \<Rightarrow> []
            | DeliverOrigin \<Rightarrow> [(ModeOrigin, serialize_snapshot s)]
            | DeliverOwner \<Rightarrow> [(ModeOwner, serialize_snapshot s)]) \<and>
       (\<forall>E' specs' actor' org' n' ticket'. fst (execute_claim E' specs' g k actor' org' n' db4) \<noteq> Inr (Some ticket'))
     else x = Inr False \<and> db3 = db2)"
proof -
  have inv: "exec_inv db" unfolding assms(1) by (rule exec_calls.run_start_inv)
  note c = execute_claim_ticket [OF inv assms(2)]
  have inv2: "exec_inv db2" unfolding assms(3) by (rule exec_calls.run_inv [OF c(1)])
  note f = assms(5) [unfolded execute_finish_def]
  let ?holds = "\<lambda>d. \<exists>r \<in> set (executions d). ex_key r = fire_of g k \<and> ex_status r = ExecRunning \<and>
    ex_lease_token r = Some (ft_token ticket)"
  obtain b where b: "x = Inr b" "exec_inv db3" "b \<Longrightarrow> settled_run (fire_of g k) db3"
    using finish_step [OF inv2 f] by auto
  have h: "b \<longleftrightarrow> ?holds db2"
    using f b(1) finish_accepts [OF inv2, of _ "fire_of g k" "ft_token ticket" "execution_status s"
      "Some (sn_run_id s)" "delivery_of g s" "de_clock E m"]
      finish_held [of "fire_of g k" "ft_token ticket" "execution_status s" "Some (sn_run_id s)"
        "delivery_of g s" "de_clock E m" db2] by fastforce
  have deliv: "(case delivery_of g s of None \<Rightarrow> [] | Some (s', mode) \<Rightarrow> [(mode, serialize_snapshot s')]) =
      (if sn_status s \<in> {''interrupted'', ''failed''} then [(ModeOwner, serialize_snapshot s)]
       else case ds_mode (tw_delivery (rv_payload g)) of DeliverNone \<Rightarrow> []
         | DeliverOrigin \<Rightarrow> [(ModeOrigin, serialize_snapshot s)]
         | DeliverOwner \<Rightarrow> [(ModeOwner, serialize_snapshot s)])"
    by (cases "ds_mode (tw_delivery (rv_payload g))") (simp_all add: delivery_of_def Let_def)
  have again: "fst (execute_claim E' specs' g k actor' org' n' db4) \<noteq> Inr (Some ticket')"
    if "b" for E' specs' actor' org' n' ticket'
  proof (rule execute_claim_settled)
    show "exec_inv db4" unfolding assms(6) by (rule exec_calls.run_inv [OF b(2)])
    show "settled_run (fire_of g k) db4"
      using run_counts(1) [OF b(2), where ld = ld and cs = cs4 and k = "fire_of g k"] b(3) [OF that]
      unfolding assms(6) by (auto simp: of_bool_def split: if_splits)
  qed
  show ?thesis
  proof (cases b)
    case True
    with finish_outbox [OF inv2 f [unfolded b(1) eqTrueI [OF True]]] h b c(2,3) again deliv
    show ?thesis by (simp add: Let_def)
  next
    case False
    then have "b = False" by simp
    with finish_lost [OF f [unfolded b(1) this] inv2] h b(1) c(2,3) show ?thesis
      by (simp add: Let_def)
  qed
qed

definition example_specs :: spec_db where
  "example_specs = \<lparr>sd_agents = \<lparr>revisions = [\<lparr>rv_payload = blank_agent\<lparr>aw_name := ''Intake'', aw_instructions := ''Decide'',
       aw_isolation := ExternalSpec, aw_memory_scope := MemoryNone\<rparr>, rv_tenant_id = ''t'', rv_id = ''intake'', rv_revision = 1,
       rv_content_digest = replicate 64 (CHR ''a''), rv_created_at = At 0, rv_created_by = ''u''\<rparr>], active_refs = []\<rparr>,
     sd_triggers = \<lparr>revisions = [], active_refs = []\<rparr>\<rparr>"

definition example_trigger_spec :: "trigger_spec_write revision" where
  "example_trigger_spec = \<lparr>rv_payload = example_trigger, rv_tenant_id = ''t'', rv_id = ''g'', rv_revision = 1,
     rv_content_digest = replicate 64 (CHR ''b''), rv_created_at = At 0, rv_created_by = ''u''\<rparr>"

definition example_origin :: origin_ref where
  "example_origin = \<lparr>or_interface = ''telegram'', or_source_id = ''g'', or_conversation_id = None, or_message_id = Some ''m1''\<rparr>"

text \<open>A fire claimed for 660 seconds; while its agent works another worker tries to claim it.\<close>

theorem fire_runs_to_a_result_once_witness:
  "\<exists>ticket db1 x db3. execute_claim example_dispatch example_specs example_trigger_spec ''m1'' ''event:telegram''
       example_origin 0 empty_exec_db = (Inr (Some ticket), db1) \<and>
     execute_finish example_dispatch example_trigger_spec ''m1'' (ft_token ticket)
       (run_agent example_dispatch 5 example_trigger_spec (ft_context ticket) ''Decide'' ''m1'') 5
       (snd (run_calls (exec_exec (\<lambda>_. Inr example_snapshot)) [Claim (fire_of example_trigger_spec ''m1'') 60 (At 3) ''u''] db1)) =
       (x, db3) \<and> x = Inr True \<and> settled_run (fire_of example_trigger_spec ''m1'') db3 \<and>
     fst (execute_claim example_dispatch example_specs example_trigger_spec ''m1'' ''event:telegram'' example_origin 9 db3) =
       Inr None"
proof -
  let ?c = "execute_claim example_dispatch example_specs example_trigger_spec ''m1'' ''event:telegram'' example_origin 0 empty_exec_db"
  let ?cs = "[Claim (fire_of example_trigger_spec ''m1'') 60 (At 3) ''u'']" and ?ld = "\<lambda>_. Inr example_snapshot"
  let ?run = "\<lambda>ticket. run_agent example_dispatch 5 example_trigger_spec (ft_context ticket) ''Decide'' ''m1''"
  have "(case ?c of (Inr (Some ticket), db1) \<Rightarrow> (\<exists>r \<in> set (executions (snd (run_calls (exec_exec ?ld) ?cs db1))).
      ex_key r = fire_of example_trigger_spec ''m1'' \<and> ex_status r = ExecRunning \<and> ex_lease_token r = Some (ft_token ticket)) \<and>
    fst (execute_claim example_dispatch example_specs example_trigger_spec ''m1'' ''event:telegram'' example_origin 9
      (snd (execute_finish example_dispatch example_trigger_spec ''m1'' (ft_token ticket) (?run ticket) 5
        (snd (run_calls (exec_exec ?ld) ?cs db1))))) = Inr None | _ \<Rightarrow> False)" by code_simp
  then obtain ticket db1 where c: "?c = (Inr (Some ticket), db1)" and
    h: "\<exists>r \<in> set (executions (snd (run_calls (exec_exec ?ld) ?cs db1))).
      ex_key r = fire_of example_trigger_spec ''m1'' \<and> ex_status r = ExecRunning \<and> ex_lease_token r = Some (ft_token ticket)" and
    n: "fst (execute_claim example_dispatch example_specs example_trigger_spec ''m1'' ''event:telegram'' example_origin 9
      (snd (execute_finish example_dispatch example_trigger_spec ''m1'' (ft_token ticket) (?run ticket) 5
        (snd (run_calls (exec_exec ?ld) ?cs db1))))) = Inr None"
    by (auto split: prod.splits sum.splits option.splits)
  obtain x db3 where f: "execute_finish example_dispatch example_trigger_spec ''m1'' (ft_token ticket) (?run ticket) 5
      (snd (run_calls (exec_exec ?ld) ?cs db1)) = (x, db3)" by fastforce
  have e: "empty_exec_db = snd (run_calls (exec_exec ?ld) [] empty_exec_db)"
    "db3 = snd (run_calls (exec_exec ?ld) [] db3)" by simp_all
  from fire_runs_to_a_result_once [OF e(1) c refl refl f e(2)] h have "x = Inr True"
    "settled_run (fire_of example_trigger_spec ''m1'') db3" by simp_all
  with c f n show ?thesis by auto
qed

end
