(* ===== verification/SpecControl.thy ===== *)
theory SpecControl
  imports SpecStore
begin

text \<open>
  Properties of the specification control plane: both stores of \<^verbatim>\<open>SpecStore.thy\<close> driven by any
  sequence of service calls, several callers included, with the environment \<open>E\<close> of digests,
  schedule validators and activation callbacks left arbitrary.
\<close>

interpretation spec_calls: call_system "spec_exec E" empty_spec_db "spec_inv E" for E :: spec_env
proof
  show "spec_inv E empty_spec_db"
    by (simp add: spec_inv_def empty_spec_db_def empty_rev_db_def rev_inv_def rows_def)
  show "spec_inv E (snd (spec_exec E c db))" if "spec_inv E db" for db c
    using spec_exec_keeps [OF that] by blast
qed

definition after_calls :: "spec_env \<Rightarrow> spec_call list \<Rightarrow> spec_db \<Rightarrow> spec_db" where
  "after_calls E cs db = snd (run_calls (spec_exec E) cs db)"

lemma after_calls_inv: "spec_inv E (after_calls E cs empty_spec_db)"
  unfolding after_calls_def by (rule spec_calls.run_start_inv)

lemma after_calls_evolves:
  assumes "spec_inv E db"
  shows "spec_inv E (after_calls E cs db) \<and> spec_evolves E db (after_calls E cs db)"
  unfolding after_calls_def using assms
proof (induction cs arbitrary: db)
  case Nil
  then show ?case by (simp add: spec_evolves_def spec_inv_def)
next
  case (Cons c cs)
  let ?db = "snd (spec_exec E c db)"
  have 1: "spec_inv E ?db" "spec_evolves E db ?db" using spec_exec_keeps [OF Cons.prems] by blast+
  have 2: "spec_inv E (snd (run_calls (spec_exec E) cs ?db))" "spec_evolves E ?db (snd (run_calls (spec_exec E) cs ?db))"
    using Cons.IH [OF 1(1)] by blast+
  show ?case using 1(2) 2 by (auto simp: Let_def spec_evolves_def intro: evolves_trans)
qed

lemma spec_invD:
  "spec_inv E db \<Longrightarrow> rev_inv agent_row (sd_agents db)"
  "spec_inv E db \<Longrightarrow> rev_inv (trigger_row (se_zone E) (se_cron E)) (sd_triggers db)"
  "spec_inv E db \<Longrightarrow> r \<in> set (revisions (sd_triggers db)) \<Longrightarrow> target_ok (sd_agents db) r"
  by (simp_all add: spec_inv_def)

lemma agent_get_revision_inv:
  assumes "rev_inv agent_row db"
  shows "agent_get_revision ref db = Inr (row_at db (ref_tenant_id ref) (ref_spec_id ref) (ref_revision ref))"
  unfolding agent_get_revision_def get_revision_row_def
  by (rule read_opt_inv [OF assms]) (simp add: row_at_mem)

lemma trigger_get_revision_inv:
  assumes "rev_inv (trigger_row zone cron) db"
  shows "trigger_get_revision zone cron t i n db = Inr (row_at db t i n)"
  unfolding trigger_get_revision_def get_revision_row_def
  by (rule read_opt_inv [OF assms]) (simp add: row_at_mem)

section \<open>Consistency and immutability\<close>

text \<open>
  C21: After any sequence of save, activate, rollback, deactivate and seed calls on agent and trigger
  specifications: every stored revision still validates, the revisions of each identifier are
  numbered 1, 2, ... without a gap, at most one revision of an identifier is active and it exists,
  and every trigger revision names an existing agent revision of its own tenant whose isolation is
  the trigger's exposure.
\<close>

theorem spec_stores_stay_consistent:
  "spec_inv E (after_calls E cs empty_spec_db)"
  by (rule after_calls_inv)

text \<open>
  A revision once read is read unchanged forever: whatever calls follow, looking up the same
  agent or trigger revision gives the same specification.
\<close>

theorem spec_revisions_are_immutable:
  assumes "agent_get_revision ref (sd_agents (after_calls E cs empty_spec_db)) = Inr (Some a)"
    and "trigger_get_revision (se_zone E) (se_cron E) t i n (sd_triggers (after_calls E cs empty_spec_db)) = Inr (Some g)"
  shows "agent_get_revision ref (sd_agents (after_calls E cs' (after_calls E cs empty_spec_db))) = Inr (Some a) \<and>
    trigger_get_revision (se_zone E) (se_cron E) t i n
      (sd_triggers (after_calls E cs' (after_calls E cs empty_spec_db))) = Inr (Some g)"
proof -
  let ?db = "after_calls E cs empty_spec_db"
  have inv: "spec_inv E ?db" by (rule after_calls_inv)
  have later: "spec_inv E (after_calls E cs' ?db)" "spec_evolves E ?db (after_calls E cs' ?db)"
    using after_calls_evolves [OF inv] by blast+
  have e: "evolves agent_row (sd_agents ?db) (sd_agents (after_calls E cs' ?db))"
    "evolves (trigger_row (se_zone E) (se_cron E)) (sd_triggers ?db) (sd_triggers (after_calls E cs' ?db))"
    using later(2) by (simp_all add: spec_evolves_def)
  show ?thesis
    using assms evolves_row_at [OF e(1)] evolves_row_at [OF e(2)]
    by (simp add: agent_get_revision_inv spec_invD [OF inv] spec_invD [OF later(1)] trigger_get_revision_inv)
qed

definition example_env :: spec_env where
  "example_env = \<lparr>se_zone = (\<lambda>_. True), se_cron = (\<lambda>_ _. True),
     se_agent_digest = (\<lambda>w. replicate 63 CHR ''0'' @ (if aw_max_model_calls w = 100 then ''a'' else ''b'')),
     se_trigger_digest = (\<lambda>w. replicate 64 CHR ''1''), se_agent_check = (\<lambda>_. None), se_trigger_check = (\<lambda>_. None)\<rparr>"

definition small_agent :: "int \<Rightarrow> agent_spec_write" where
  "small_agent n = blank_agent\<lparr>aw_name := ''n'', aw_runtime_profile := ''p'', aw_model_alias := ''m'',
     aw_instructions := ''i'', aw_isolation := ExternalSpec, aw_memory_scope := MemoryNone,
     aw_max_model_calls := n\<rparr>"

definition small_ref :: agent_ref where
  "small_ref = \<lparr>ref_tenant_id = ''t'', ref_spec_id = ''a'', ref_revision = 1\<rparr>"

definition small_trigger :: trigger_spec_write where
  "small_trigger = \<lparr>tw_name = ''n'', tw_source = EventTrigger ''e'' ''s'' Required, tw_exposure = ExternalSpec,
     tw_agent_spec = small_ref, tw_instruction = ''i'', tw_delivery = \<lparr>ds_mode = DeliverOwner, ds_interface = None\<rparr>,
     tw_enabled = True, tw_source_key = None, tw_source_revision = None, tw_labels = []\<rparr>"

definition example_calls :: "spec_call list" where
  "example_calls = [AgentSave (At 1) [] ''t'' ''u'' (small_agent 100) (Some ''a'') None,
     TriggerSave (At 2) [] ''t'' ''u'' small_trigger (Some ''g'') None,
     TriggerActivate (At 3) ''t'' ''u'' ''g'' 1 None,
     AgentSave (At 4) [] ''t'' ''u'' (small_agent 7) (Some ''a'') (Some 1),
     AgentActivate (At 5) ''t'' ''u'' ''a'' 2 None]"

definition example_rows :: spec_db where
  "example_rows = \<lparr>
     sd_agents = \<lparr>
       revisions = [\<lparr>rv_payload = small_agent 100, rv_tenant_id = ''t'', rv_id = ''a'', rv_revision = 1,
           rv_content_digest = se_agent_digest example_env (small_agent 100), rv_created_at = At 1, rv_created_by = ''u''\<rparr>,
         \<lparr>rv_payload = small_agent 7, rv_tenant_id = ''t'', rv_id = ''a'', rv_revision = 2,
           rv_content_digest = se_agent_digest example_env (small_agent 7), rv_created_at = At 4, rv_created_by = ''u''\<rparr>],
       active_refs = [\<lparr>ar_tenant_id = ''t'', ar_id = ''a'', ar_revision = 2, ar_updated_at = At 5, ar_updated_by = ''u''\<rparr>]\<rparr>,
     sd_triggers = \<lparr>
       revisions = [\<lparr>rv_payload = small_trigger, rv_tenant_id = ''t'', rv_id = ''g'', rv_revision = 1,
           rv_content_digest = replicate 64 CHR ''1'', rv_created_at = At 2, rv_created_by = ''u''\<rparr>],
       active_refs = [\<lparr>ar_tenant_id = ''t'', ar_id = ''g'', ar_revision = 1, ar_updated_at = At 3, ar_updated_by = ''u''\<rparr>]\<rparr>\<rparr>"

lemma example_run: "after_calls example_env example_calls empty_spec_db = example_rows"
  by code_simp

lemma example_inv: "spec_inv example_env example_rows"
  using after_calls_inv [of example_env example_calls] by (simp only: example_run)

lemma example_agent_row: "row_at (sd_agents example_rows) ''t'' ''a'' 1 = Some (hd (revisions (sd_agents example_rows)))"
  by code_simp

lemma example_trigger_row: "row_at (sd_triggers example_rows) ''t'' ''g'' 1 = Some (hd (revisions (sd_triggers example_rows)))"
  by code_simp

theorem spec_revisions_are_immutable_witness:
  "agent_get_revision small_ref (sd_agents (after_calls example_env [AgentDeactivate ''t'' ''a'' 2]
     (after_calls example_env example_calls empty_spec_db))) = Inr (Some (hd (revisions (sd_agents example_rows))))"
proof -
  let ?db = "after_calls example_env example_calls empty_spec_db"
  have "agent_get_revision small_ref (sd_agents ?db) = Inr (Some (hd (revisions (sd_agents example_rows))))"
    unfolding example_run agent_get_revision_inv [OF spec_invD(1) [OF example_inv]]
    by (simp add: small_ref_def example_agent_row)
  moreover have "trigger_get_revision (se_zone example_env) (se_cron example_env) ''t'' ''g'' 1 (sd_triggers ?db) =
      Inr (Some (hd (revisions (sd_triggers example_rows))))"
    unfolding example_run trigger_get_revision_inv [OF spec_invD(2) [OF example_inv]]
    by (simp add: example_trigger_row)
  ultimately show ?thesis using spec_revisions_are_immutable by blast
qed

section \<open>Compare and swap\<close>

lemma hex_not_space: "is_digit c \<or> (let n = of_char c :: nat in 97 \<le> n \<and> n \<le> 102) \<Longrightarrow> \<not> py_isspace c"
  by (auto simp: is_digit_def py_isspace_def Let_def)

lemma dropWhile_none: "list_all (\<lambda>x. \<not> P x) xs \<Longrightarrow> dropWhile P xs = xs"
  by (cases xs) auto

lemma strip_hex_digest: "hex_digest s \<Longrightarrow> py_strip s = s"
proof -
  assume "hex_digest s"
  then have "list_all (\<lambda>c. \<not> py_isspace c) s"
    unfolding hex_digest_def list_all_iff using hex_not_space by blast
  then show ?thesis by (simp add: py_strip_def dropWhile_none list_all_rev)
qed

text \<open>
  Saving is a compare and swap on the latest revision. A refused save changes nothing. An
  accepted one either finds the same content already latest and writes nothing, or appends exactly
  the next revision with the caller's content, and then the caller had named the revision it
  replaces (none for the first). Saving the same content again, with whatever expectation, returns
  that same revision and writes nothing. The digest is any function into 64 hex digits.
\<close>

theorem save_is_compare_and_swap:
  assumes "a = sd_agents (after_calls E cs empty_spec_db)" "AgentSpecWrite w0 = Inr w"
    and "hex_digest (dg w)" "py_strip t = t" "py_strip i = i"
    and "agent_create_revision dg now t i w expected actor a = (x, a')"
  shows "case x of Inl e \<Rightarrow> a' = a
    | Inr s \<Rightarrow> rv_content_digest s = dg w \<and> latest_row a' t i = Some s \<and>
        agent_create_revision dg now' t i w expected' actor' a' = (Inr s, a') \<and>
        (a' = a \<or> rv_payload s = w \<and> a' = a\<lparr>revisions := revisions a @ [s]\<rparr> \<and>
           rv_revision s = int (length (rows a t i)) + 1 \<and>
           expected = (if rows a t i = [] then None else Some (int (length (rows a t i)))))"
proof -
  have inv: "rev_inv agent_row a" unfolding assms(1) by (rule spec_invD(1) [OF after_calls_inv])
  have w: "strip_agent w = w" using constructD [OF assms(2) [unfolded AgentSpecWrite_def]] by simp
  note c = assms(6) [unfolded agent_create_revision_def]
  have inv': "rev_inv agent_row a'" by (rule agent_rows.append_row_inv [OF inv w c])
  have again: "agent_create_revision dg now' t i w expected' actor' a' = (Inr s, a')"
    if l: "latest_row a' t i = Some s" and d: "rv_content_digest s = dg w" for s
  proof -
    have "s \<in> set (revisions a')"
      using top_by_mem [OF l [unfolded latest_row_def]] rows_subset by blast
    then have "agent_row s = Inr s" using rev_invD(1) [OF inv'] by blast
    with l d show ?thesis by (simp add: agent_create_revision_def create_revision_row_def)
  qed
  from agent_rows.append_row_law [OF inv w c] show ?thesis
  proof (elim disjE exE conjE)
    fix s
    assume s: "x = Inr s" "appended agent_row a s a'" "rv_payload s = w" "rv_tenant_id s = py_strip t"
      "rv_id s = py_strip i" "rv_content_digest s = py_strip (dg w)"
      "expected = (if rv_revision s = 1 then None else Some (rv_revision s - 1))"
    have key: "rv_tenant_id s = t" "rv_id s = i" "rv_content_digest s = dg w"
      using s(4-6) assms(3-5) strip_hex_digest by simp_all
    have a': "a' = a\<lparr>revisions := revisions a @ [s]\<rparr>" "rv_revision s = int (length (rows a t i)) + 1"
      using s(2) key by (simp_all add: appended_def)
    have "rows a' t i = rows a t i @ [s]" unfolding a' rows_append using key by simp
    then have l: "latest_row a' t i = Some s" using latest_row_inv [OF inv'] by simp
    show ?thesis using s(1,3,7) key a' l again [OF l key(3)] by simp
  qed (use again in auto)
qed

theorem save_is_compare_and_swap_witness:
  "\<exists>s a'. agent_create_revision (se_agent_digest example_env) (At 6) ''t'' ''a'' (small_agent 100) (Some 2) ''u''
       (sd_agents example_rows) = (Inr s, a') \<and>
     agent_create_revision (se_agent_digest example_env) (At 7) ''t'' ''a'' (small_agent 100) None ''v'' a' = (Inr s, a')"
proof -
  have h: "hex_digest (se_agent_digest example_env (small_agent 100))" by code_simp
  have w: "AgentSpecWrite (small_agent 100) = Inr (small_agent 100)" by code_simp
  have s: "py_strip ''t'' = ''t''" "py_strip ''a'' = ''a''" by code_simp+
  have "is_ok (agent_create_revision (se_agent_digest example_env) (At 6) ''t'' ''a'' (small_agent 100) (Some 2)
      ''u'' (sd_agents example_rows))" by code_simp
  then obtain r a' where c: "agent_create_revision (se_agent_digest example_env) (At 6) ''t'' ''a'' (small_agent 100)
      (Some 2) ''u'' (sd_agents example_rows) = (Inr r, a')"
    by (auto simp: is_ok_def split: sum.splits) (metis prod.collapse)
  have e: "sd_agents example_rows = sd_agents (after_calls example_env example_calls empty_spec_db)"
    by (simp only: example_run)
  from save_is_compare_and_swap [OF e w h s c, of "At 7" None "''v''"]
  have "agent_create_revision (se_agent_digest example_env) (At 7) ''t'' ''a'' (small_agent 100) None ''v'' a' = (Inr r, a')"
    unfolding sum.case by blast
  with c show ?thesis by blast
qed

text \<open>
  Activation is a compare and swap on the active revision. A refused activation changes nothing;
  an accepted one activates exactly the named, existing revision, leaves every other identifier
  alone, and before it that revision was already active (nothing is written) or the active revision
  was the expected one. So no update is lost: when a second caller with the same expectation follows
  a first one that switched, it is refused with a conflict, unless it asks for the very same revision.
\<close>

theorem activation_is_compare_and_swap:
  assumes "a = sd_agents (after_calls E cs empty_spec_db)"
    and "agent_activate ref expected now actor a = (x, a1)"
    and "t = ref_tenant_id ref" "i = ref_spec_id ref" "n = ref_revision ref"
  shows "case x of Inl e \<Rightarrow> a1 = a
    | Inr r \<Rightarrow> r = ref \<and> row_at a t i n \<noteq> None \<and> get_active_number t i a1 = Some n \<and> revisions a1 = revisions a \<and>
        (\<forall>t' i'. (t', i') = (t, i) \<or> active_row a1 t' i' = active_row a t' i') \<and>
        (get_active_number t i a = Some n \<and> a1 = a \<or> get_active_number t i a = expected) \<and>
        (\<forall>m now' actor'. m = n \<or> expected = Some n \<or> row_at a t i m = None \<or>
          (\<exists>msg. agent_activate (ref\<lparr>ref_revision := m\<rparr>) expected now' actor' a1 = (Inl (SpecConflictError msg), a1)))"
proof -
  have inv: "rev_inv agent_row a" unfolding assms(1) by (rule spec_invD(1) [OF after_calls_inv])
  note c = assms(2) [unfolded agent_activate_def, folded assms(3-5)]
  have later: "m = n \<or> expected = Some n \<or> row_at a t i m = None \<or>
      (\<exists>msg. agent_activate (ref\<lparr>ref_revision := m\<rparr>) expected now' actor' a1 = (Inl (SpecConflictError msg), a1))"
    if act: "get_active_number t i a1 = Some n" and revs: "revisions a1 = revisions a" for m now' actor'
  proof -
    obtain b where b: "active_row a1 t i = Some b" "ar_revision b = n"
      using act by (auto simp: get_active_number_def)
    have "row_at a1 t i m = row_at a t i m" using revs by (simp add: row_at_def)
    with b show ?thesis by (cases "row_at a t i m") (auto simp: agent_activate_def activate_row_def assms(3-5))
  qed
  from activate_law [OF inv c] show ?thesis
  proof (elim disjE exE conjE)
    fix r y
    assume s: "x = Inr y" "row_at a t i n = Some r" "Inr ref = Inr y" "get_active_number t i a = Some n" "a1 = a"
    then show ?thesis using later by auto
  next
    fix r y
    assume s: "x = Inr y" "row_at a t i n = Some r" "Inr ref = Inr y" "get_active_number t i a \<noteq> Some n"
      "get_active_number t i a = expected" "switched a t i (Some n) a1"
    then have "get_active_number t i a1 = Some n" "revisions a1 = revisions a"
      "\<forall>t' i'. (t', i') = (t, i) \<or> active_row a1 t' i' = active_row a t' i'" by (auto simp: switched_def)
    with s later show ?thesis by auto
  qed simp
qed

theorem activation_is_compare_and_swap_witness:
  "\<exists>a1. agent_activate small_ref (Some 2) (At 6) ''u'' (sd_agents example_rows) = (Inr small_ref, a1) \<and>
     get_active_number ''t'' ''a'' a1 = Some 1"
proof -
  obtain x a1 where c: "agent_activate small_ref (Some 2) (At 6) ''u'' (sd_agents example_rows) = (x, a1)" by fastforce
  have o: "is_ok (agent_activate small_ref (Some 2) (At 6) ''u'' (sd_agents example_rows))" by code_simp
  have e: "sd_agents example_rows = sd_agents (after_calls example_env example_calls empty_spec_db)"
    by (simp only: example_run)
  obtain r where r: "x = Inr r" using o c by (cases x) auto
  from activation_is_compare_and_swap [OF e c refl refl refl] r
  have "r = small_ref \<and> get_active_number ''t'' ''a'' a1 = Some 1" by (simp add: small_ref_def)
  with c r show ?thesis by blast
qed

section \<open>Rollback\<close>

lemma rows_evolves:
  assumes "evolves mk db db'"
  shows "\<exists>rs. rows db' t i = rows db t i @ rs"
  using assms by (auto simp: evolves_def rows_def)

lemma previous_revision_inv:
  assumes "rev_inv agent_row db" "row_at db t i n = Some r"
  shows "agent_previous_revision t i n db = Inr (row_at db t i (n - 1))"
proof -
  have num: "numbered (rows db t i)" by (rule rev_invD(2) [OF assms(1)])
  have n: "1 \<le> n" "n \<le> int (length (rows db t i))"
    using assms(2) row_at_nth [OF num, of n] by (auto split: if_splits)
  let ?k = "take (nat (n - 1)) (rows db t i)"
  have len: "length ?k = nat (n - 1)" using n by simp
  have "top_by rv_revision ?k = row_at db t i (n - 1)"
  proof (cases "n = 1")
    case True
    then show ?thesis using row_at_nth [OF num, of 0] by simp
  next
    case False
    then have ne: "?k \<noteq> []" using n len by (metis diff_gt_0_iff_gt length_0_conv less_le nat_0_iff not_le)
    have "nat (n - 1) - 1 = nat (n - 1 - 1)" by simp
    then have "last ?k = rows db t i ! nat (n - 1 - 1)"
      using ne len last_conv_nth [OF ne] False n(1) by (simp add: nth_take)
    with top_numbered [OF numbered_take_numbered [OF num] ne] row_at_nth [OF num, of "n - 1"] n False
    show ?thesis by simp
  qed
  then show ?thesis
    unfolding agent_previous_revision_def previous_revision_row_def numbered_take [OF num]
    using read_opt_inv [OF assms(1)] row_at_mem by metis
qed

lemma agent_get_active_inv:
  assumes "rev_inv agent_row db" "agent_get_active t i db = Inr (Some s)"
  shows "get_active_number t i db = Some (rv_revision s) \<and> row_at db t i (rv_revision s) = Some s"
proof -
  obtain n ref where n: "get_active_number t i db = Some n" and ref: "make_ref t i n = Inr ref"
    and s: "agent_get_revision ref db = Inr (Some s)"
    using assms(2) by (auto simp: agent_get_active_def agent_get_active_ref_def split: option.splits sum.splits)
  obtain b where b: "b \<in> set (active_refs db)" "ar_tenant_id b = t" "ar_id b = i" "ar_revision b = n"
    using n by (auto simp: get_active_number_def dest!: active_row_mem)
  obtain r where r: "row_at db t i n = Some r" using rev_invD(4) [OF assms(1) b(1)] b(2-4) by auto
  then have "rows db t i \<noteq> []" unfolding row_at_rows by auto
  then have "py_strip t = t" "py_strip i = i" using agent_rows.stored_key [OF assms(1)] by blast+
  then have "ref = \<lparr>ref_tenant_id = t, ref_spec_id = i, ref_revision = n\<rparr>"
    using ref constructD unfolding make_ref_def AgentSpecRef_def model_error_Inr
    by (fastforce simp: strip_ref_def)
  with s agent_get_revision_inv [OF assms(1)] r have "s = r" by simp
  with row_at_mem [OF r] r n show ?thesis by simp
qed

text \<open>
  C24: A rollback goes back exactly one revision. The service reads the active revision, then its
  predecessor, then switches, and other callers may do anything in between. The target is always the
  revision before the expected one; the switch happens only if the expected revision is still active
  (or the target already is), and otherwise nothing changes.
\<close>

theorem rollback_goes_back_one_revision:
  assumes "db1 = after_calls E cs1 (after_calls E cs0 empty_spec_db)" "db2 = after_calls E cs2 db1"
    and "agent_rollback_target va t i expected (sd_agents (after_calls E cs0 empty_spec_db)) (sd_agents db1) =
      Inr (active, target)"
    and "agent_rollback_commit now actor active target (sd_agents db2) = (x, a)"
  shows "rv_revision active = expected \<and> rv_revision target = expected - 1 \<and> va target = None \<and>
    row_at (sd_agents db2) t i (expected - 1) = Some target \<and>
    (case x of Inl e \<Rightarrow> a = sd_agents db2
     | Inr s \<Rightarrow> s = target \<and> get_active_number t i a = Some (expected - 1) \<and>
         get_active_number t i (sd_agents db2) \<in> {Some expected, Some (expected - 1)})"
proof -
  let ?db0 = "after_calls E cs0 empty_spec_db"
  have i0: "spec_inv E ?db0" by (rule after_calls_inv)
  have i1: "spec_inv E db1" "spec_evolves E ?db0 db1" unfolding assms(1) using after_calls_evolves [OF i0] by blast+
  have i2: "spec_inv E db2" "spec_evolves E db1 db2" unfolding assms(2) using after_calls_evolves [OF i1(1)] by blast+
  note r0 = spec_invD(1) [OF i0] and r1 = spec_invD(1) [OF i1(1)] and r2 = spec_invD(1) [OF i2(1)]
  have act: "agent_get_active t i (sd_agents ?db0) = Inr (Some active)" "rv_revision active = expected"
    and prev: "agent_previous_revision t i (rv_revision active) (sd_agents db1) = Inr (Some target)"
    and va: "va target = None"
    using assms(3) by (auto simp: agent_rollback_target_def split: sum.splits option.splits if_splits)
  have "row_at (sd_agents ?db0) t i expected = Some active" using agent_get_active_inv [OF r0 act(1)] act(2) by simp
  then have "row_at (sd_agents db1) t i expected = Some active"
    using evolves_row_at i1(2) unfolding spec_evolves_def by blast
  then have tgt: "row_at (sd_agents db1) t i (expected - 1) = Some target"
    using previous_revision_inv [OF r1] prev act(2) by simp
  then have tgt2: "row_at (sd_agents db2) t i (expected - 1) = Some target"
    using evolves_row_at i2(2) unfolding spec_evolves_def by blast
  have key: "rv_tenant_id target = t" "rv_id target = i" "rv_revision target = expected - 1"
    using row_at_mem [OF tgt] by blast+
  have "(case x of Inl e \<Rightarrow> a = sd_agents db2
     | Inr s \<Rightarrow> s = target \<and> get_active_number t i a = Some (expected - 1) \<and>
         get_active_number t i (sd_agents db2) \<in> {Some expected, Some (expected - 1)})"
  proof (cases "make_ref t i (expected - 1)")
    case (Inl e)
    with assms(4) key show ?thesis by (auto simp: agent_rollback_commit_def split: sum.splits)
  next
    case (Inr ref)
    have "rows (sd_agents db2) t i \<noteq> []" using tgt2 unfolding row_at_rows by auto
    then have "py_strip t = t" "py_strip i = i" using agent_rows.stored_key [OF r2] by blast+
    then have ref: "ref = \<lparr>ref_tenant_id = t, ref_spec_id = i, ref_revision = expected - 1\<rparr>"
      using Inr constructD unfolding make_ref_def AgentSpecRef_def model_error_Inr
      by (fastforce simp: strip_ref_def)
    obtain y b where c: "agent_activate ref (Some expected) now actor (sd_agents db2) = (y, b)" by fastforce
    have x: "a = b" "x = (case y of Inl e \<Rightarrow> Inl e | Inr _ \<Rightarrow> Inr target)"
      using assms(4) Inr c act(2) key by (auto simp: agent_rollback_commit_def split: sum.splits)
    from activate_law [OF r2 c [unfolded agent_activate_def]] show ?thesis
      unfolding x ref by (auto simp: switched_def split: sum.splits)
  qed
  with act(2) key(3) va tgt2 show ?thesis by simp
qed

theorem rollback_goes_back_one_revision_witness:
  "\<exists>active target a. agent_rollback_target (\<lambda>_. None) ''t'' ''a'' 2 (sd_agents example_rows) (sd_agents example_rows) =
       Inr (active, target) \<and>
     agent_rollback_commit (At 6) ''u'' active target (sd_agents example_rows) = (Inr target, a) \<and> rv_revision target = 1"
proof -
  let ?a = "sd_agents example_rows"
  let ?act = "last (revisions ?a)" and ?tgt = "hd (revisions ?a)"
  have e: "example_rows = after_calls example_env [] (after_calls example_env example_calls empty_spec_db)"
    by (simp add: after_calls_def [of _ "[]"] example_run)
  have e2: "example_rows = after_calls example_env [] example_rows" by (simp add: after_calls_def)
  have t: "agent_rollback_target (\<lambda>_. None) ''t'' ''a'' 2 ?a ?a = Inr (?act, ?tgt)" by code_simp
  have t': "agent_rollback_target (\<lambda>_. None) ''t'' ''a'' 2
      (sd_agents (after_calls example_env example_calls empty_spec_db)) ?a = Inr (?act, ?tgt)"
    using t by (simp only: example_run)
  obtain x b where c: "agent_rollback_commit (At 6) ''u'' ?act ?tgt ?a = (x, b)" by fastforce
  have o: "is_ok (agent_rollback_commit (At 6) ''u'' ?act ?tgt ?a)" by code_simp
  obtain s where s: "x = Inr s" using o c by (cases x) auto
  from rollback_goes_back_one_revision [OF e e2 t' c] s
  have "rv_revision ?tgt = 1 \<and> s = ?tgt" by simp
  with t c s show ?thesis by blast
qed

section \<open>What a trigger can reach\<close>

lemma agent_row_valid: "agent_row r = Inr s \<Longrightarrow> validate_isolation (rv_payload s) = None"
  unfolding agent_row_def AgentSpec_def spec_model_def model_error_Inr by (drule constructD, elim conjE)

lemma trigger_row_valid: "trigger_row zone cron r = Inr s \<Longrightarrow> validate_exposure (rv_payload s) = None"
  unfolding trigger_row_def TriggerSpec_def spec_model_def model_error_Inr by (drule constructD, elim conjE)

text \<open>
  C19: Whenever a trigger is active, the agent revision it runs exists, belongs to the trigger's
  tenant and has the trigger's exposure; and if that exposure is external, the trigger is an
  authenticated event trigger and the agent it runs has no memory, workspace or delegation and only
  knowledge tools. This holds after any calls, however agents were saved or activated since.
\<close>

theorem active_triggers_reach_only_admissible_agents:
  assumes "db = after_calls E cs empty_spec_db"
    and "trigger_get_active (se_zone E) (se_cron E) t i (sd_triggers db) = Inr (Some g)"
  shows "\<exists>a. agent_get_revision (tw_agent_spec (rv_payload g)) (sd_agents db) = Inr (Some a) \<and>
    rv_tenant_id g = t \<and> rv_tenant_id a = t \<and> aw_isolation (rv_payload a) = tw_exposure (rv_payload g) \<and>
    (tw_exposure (rv_payload g) = PrivateSpec \<or>
      (\<exists>ty src. tw_source (rv_payload g) = EventTrigger ty src Required) \<and>
      aw_memory_scope (rv_payload a) = MemoryNone \<and> aw_workspace_scope (rv_payload a) = NoWorkspace \<and>
      aw_allow_delegation (rv_payload a) = False \<and> aw_tool_policy (rv_payload a) = Allowlist \<and>
      set (aw_tools (rv_payload a)) \<subseteq> set external_agent_tools)"
proof -
  let ?mk = "trigger_row (se_zone E) (se_cron E)"
  have inv: "spec_inv E db" unfolding assms(1) by (rule after_calls_inv)
  note ra = spec_invD(1) [OF inv] and rg = spec_invD(2) [OF inv]
  obtain b where b: "active_row (sd_triggers db) t i = Some b"
    and rd: "read_opt ?mk (row_at (sd_triggers db) t i (ar_revision b)) = Inr (Some g)"
    using assms(2) by (auto simp: trigger_get_active_def get_active_row_def split: option.splits)
  have "read_opt ?mk (row_at (sd_triggers db) t i (ar_revision b)) = Inr (row_at (sd_triggers db) t i (ar_revision b))"
    by (rule read_opt_inv [OF rg]) (simp add: row_at_mem)
  with rd have "row_at (sd_triggers db) t i (ar_revision b) = Some g" by simp
  from row_at_mem [OF this] have g: "g \<in> set (revisions (sd_triggers db))" "rv_tenant_id g = t" by blast+
  let ?ref = "tw_agent_spec (rv_payload g)"
  obtain a where a: "row_at (sd_agents db) t (ref_spec_id ?ref) (ref_revision ?ref) = Some a"
    and iso: "aw_isolation (rv_payload a) = tw_exposure (rv_payload g)" and ten: "ref_tenant_id ?ref = t"
    using spec_invD(3) [OF inv g(1)] g(2) by (auto simp: target_ok_def Let_def split: option.splits)
  have am: "a \<in> set (revisions (sd_agents db))" "rv_tenant_id a = t" using row_at_mem [OF a] by blast+
  have va: "validate_isolation (rv_payload a) = None" by (rule agent_row_valid [OF rev_invD(1) [OF ra am(1)]])
  have vg: "validate_exposure (rv_payload g) = None" by (rule trigger_row_valid [OF rev_invD(1) [OF rg g(1)]])
  have "agent_get_revision ?ref (sd_agents db) = Inr (Some a)"
    using agent_get_revision_inv [OF ra] a ten by simp
  moreover have "tw_exposure (rv_payload g) = PrivateSpec \<or>
      (\<exists>ty src. tw_source (rv_payload g) = EventTrigger ty src Required) \<and>
      aw_memory_scope (rv_payload a) = MemoryNone \<and> aw_workspace_scope (rv_payload a) = NoWorkspace \<and>
      aw_allow_delegation (rv_payload a) = False \<and> aw_tool_policy (rv_payload a) = Allowlist \<and>
      set (aw_tools (rv_payload a)) \<subseteq> set external_agent_tools"
  proof (cases "tw_exposure (rv_payload g)")
    case ExternalSpec
    with iso validate_isolationD [OF va] have "unsafe_parts (rv_payload a) = []" by simp
    moreover have "\<exists>ty src. tw_source (rv_payload g) = EventTrigger ty src Required"
      using vg ExternalSpec by (cases "tw_source (rv_payload g)") (auto simp: validate_exposure_def split: if_splits)
    ultimately show ?thesis unfolding unsafe_parts_none by simp
  qed simp
  ultimately show ?thesis using g(2) am(2) iso by blast
qed

theorem active_triggers_reach_only_admissible_agents_witness:
  "\<exists>a. agent_get_revision small_ref (sd_agents example_rows) = Inr (Some a) \<and>
     aw_memory_scope (rv_payload a) = MemoryNone \<and> aw_allow_delegation (rv_payload a) = False"
proof -
  let ?g = "hd (revisions (sd_triggers example_rows))"
  have e: "example_rows = after_calls example_env example_calls empty_spec_db" by (simp only: example_run)
  have g: "trigger_get_active (se_zone example_env) (se_cron example_env) ''t'' ''g'' (sd_triggers example_rows) = Inr (Some ?g)"
    by code_simp
  have r: "tw_agent_spec (rv_payload ?g) = small_ref" "tw_exposure (rv_payload ?g) = ExternalSpec" by code_simp+
  from active_triggers_reach_only_admissible_agents [OF e g, unfolded r] show ?thesis by auto
qed

section \<open>Seeding\<close>

definition id_ok :: "string \<Rightarrow> string \<Rightarrow> bool" where
  "id_ok t i = (protocol_id t \<and> py_strip t = t \<and> slug i \<and> py_strip i = i)"

lemma default_ids_ok: "list_all (\<lambda>(i, w). slug i \<and> py_strip i = i) default_agent_spec_writes"
  by code_simp

lemma make_ref_ok:
  "id_ok t i \<Longrightarrow> 1 \<le> n \<Longrightarrow> make_ref t i n = Inr \<lparr>ref_tenant_id = t, ref_spec_id = i, ref_revision = n\<rparr>"
  by (simp add: make_ref_def AgentSpecRef_def construct_def strip_ref_def ref_fields_def id_ok_def)

lemma row_at_positive: "rev_inv mk db \<Longrightarrow> row_at db t i n = Some r \<Longrightarrow> 1 \<le> n"
  using row_at_nth [OF rev_invD(2), of mk db t i n] by (auto split: if_splits)

lemma get_active_of_number:
  assumes "rev_inv agent_row db" "id_ok t i" "get_active_number t i db = Some n" "row_at db t i n = Some s"
  shows "agent_get_active t i db = Inr (Some s)"
  using make_ref_ok [OF assms(2) row_at_positive [OF assms(1,4)]] assms(3,4) agent_get_revision_inv [OF assms(1)]
  by (simp add: agent_get_active_def agent_get_active_ref_def)

lemma get_active_cases:
  assumes "rev_inv agent_row db" "id_ok t i"
  obtains (none) "agent_get_active t i db = Inr None" "get_active_number t i db = None"
  | (some) s where "agent_get_active t i db = Inr (Some s)" "get_active_number t i db = Some (rv_revision s)"
      "row_at db t i (rv_revision s) = Some s"
proof (cases "active_row db t i")
  case None
  then show ?thesis using none by (simp add: agent_get_active_def agent_get_active_ref_def get_active_number_def)
next
  case (Some b)
  obtain s where s: "row_at db t i (ar_revision b) = Some s"
    using rev_invD(4) [OF assms(1)] active_row_mem [OF Some] by auto
  have "get_active_number t i db = Some (ar_revision b)" using Some by (simp add: get_active_number_def)
  with get_active_of_number [OF assms this s] s row_at_mem [OF s] some show ?thesis by simp
qed

lemma enable_ok:
  assumes inv: "rev_inv agent_row a" and id: "id_ok t i" and s: "row_at a t i (rv_revision s) = Some s"
    and exp: "get_active_number t i a = expected \<or> get_active_number t i a = Some (rv_revision s)"
  shows "\<exists>a'. enable_spec now actor expected s a = (Inr s, a') \<and> evolves agent_row a a' \<and>
    agent_get_active t i a' = Inr (Some s) \<and> (\<forall>j. j = i \<or> active_row a' t j = active_row a t j)"
proof -
  let ?ref = "\<lparr>ref_tenant_id = t, ref_spec_id = i, ref_revision = rv_revision s\<rparr>"
  have key: "rv_tenant_id s = t" "rv_id s = i" using row_at_mem [OF s] by blast+
  have ref: "make_ref (rv_tenant_id s) (rv_id s) (rv_revision s) = Inr ?ref"
    using make_ref_ok [OF id row_at_positive [OF inv s]] key by simp
  obtain y a' where c: "agent_activate ?ref expected now actor a = (y, a')" by fastforce
  note c' = c [unfolded agent_activate_def agent_ref.select_convs]
  have "\<not> (\<exists>e. y = Inl e)"
    using c' [symmetric] s exp hit_unique [OF inv]
    by (auto simp: activate_row_def get_active_number_def Let_def split: option.splits if_splits)
  with activate_law [OF inv c'] have y: "y = Inr ?ref" "get_active_number t i a' = Some (rv_revision s)"
    "\<forall>j. j = i \<or> active_row a' t j = active_row a t j" "rev_inv agent_row a'" "revisions a' = revisions a"
    using inv by (auto simp: switched_def)
  have "row_at a' t i (rv_revision s) = Some s" using s y(5) by (simp add: row_at_def)
  then have "agent_get_active t i a' = Inr (Some s)" using get_active_of_number [OF y(4) id y(2)] by blast
  moreover have "enable_spec now actor expected s a = (Inr s, a')" using ref c y(1) by (simp add: enable_spec_def)
  moreover have "evolves agent_row a a'" using y(4,5) by (simp add: evolves_def)
  ultimately show ?thesis using y(3) by blast
qed

lemma create_ok:
  assumes inv: "rev_inv agent_row a" and id: "id_ok t i" and w: "AgentSpecWrite w = Inr w"
    and d: "hex_digest (dg w)" and actor: "protocol_id (py_strip actor)"
    and exp: "expected = (if rows a t i = [] then None else Some (int (length (rows a t i))))"
  shows "\<exists>s a'. agent_create_revision dg now t i w expected actor a = (Inr s, a') \<and> evolves agent_row a a' \<and>
    row_at a' t i (rv_revision s) = Some s \<and> active_refs a' = active_refs a"
proof -
  let ?r = "\<lambda>n. new_row t i n w (dg w) now actor"
  have wf: "strip_agent w = w" "agent_fields w = []" "validate_isolation w = None"
    using constructD [OF w [unfolded AgentSpecWrite_def]] by auto
  have mk: "\<exists>s. agent_row (?r n) = Inr s \<and> rv_tenant_id s = t \<and> rv_id s = i \<and> rv_revision s = n" if "1 \<le> n" for n
    using that id wf d actor strip_hex_digest [OF d]
    by (simp add: agent_row_def AgentSpec_def spec_model_def construct_def strip_revision_def new_row_def
        revision_fields_def id_ok_def)
  obtain x a' where c: "agent_create_revision dg now t i w expected actor a = (x, a')" by fastforce
  note c' = c [unfolded agent_create_revision_def]
  have "\<not> (\<exists>e. x = Inl e)"
  proof (cases "rows a t i = []")
    case True
    obtain s where s: "agent_row (?r 1) = Inr s" "rv_tenant_id s = t" "rv_id s = i" "rv_revision s = 1" using mk [of 1] by auto
    have "latest_row a t i = None" "row_at a t i 1 = None" using True by (simp_all add: latest_row_def row_at_rows)
    then show ?thesis using c' [symmetric] s True exp by (simp add: create_revision_row_def insert_revision_def)
  next
    case False
    let ?n = "int (length (rows a t i))"
    let ?l = "last (rows a t i)"
    have l: "latest_row a t i = Some ?l" "rv_revision ?l = ?n"
      using latest_row_inv [OF inv] last_row_number [OF inv False] False by simp_all
    have "agent_row ?l = Inr ?l" using rev_invD(1) [OF inv] rows_subset False by (meson last_in_set subsetD)
    moreover obtain s where s: "agent_row (?r (?n + 1)) = Inr s" "rv_tenant_id s = t" "rv_id s = i" "rv_revision s = ?n + 1"
      using mk [of "?n + 1"] by auto
    moreover have "row_at a t i (?n + 1) = None" using row_at_nth [OF rev_invD(2) [OF inv]] by simp
    ultimately show ?thesis using c' [symmetric] l False exp
      by (auto simp: create_revision_row_def insert_revision_def split: if_splits)
  qed
  then obtain s where s: "x = Inr s" by (cases x) auto
  have ev: "evolves agent_row a a'" by (rule agent_create_keeps [OF inv wf(1) c])
  have "row_at a' t i (rv_revision s) = Some s \<and> active_refs a' = active_refs a"
    using agent_rows.append_row_law [OF inv wf(1) c'] s
  proof (elim disjE exE conjE)
    fix z
    assume "x = Inr z" "a' = a" "latest_row a t i = Some z"
    then have z: "a' = a" "z = s" "z \<in> set (rows a t i)" using s top_by_mem by (auto simp: latest_row_def)
    then obtain k where k: "k < length (rows a t i)" "rows a t i ! k = z" by (auto simp: in_set_conv_nth)
    have n: "rv_revision z = int k + 1" using numbered_nth [OF rev_invD(2) [OF inv] k(1)] k(2) by simp
    show ?thesis using z(1,2) k n row_at_nth [OF rev_invD(2) [OF inv], of t i "int k + 1"] by simp
  next
    fix z
    assume z: "x = Inr z" "appended agent_row a z a'" "rv_tenant_id z = py_strip t" "rv_id z = py_strip i"
    then have k: "z = s" "rv_tenant_id z = t" "rv_id z = i" using s id by (simp_all add: id_ok_def)
    have a': "a' = a\<lparr>revisions := revisions a @ [z]\<rparr>" "rv_revision z = int (length (rows a t i)) + 1"
      using z(2) k by (simp_all add: appended_def)
    have "rows a' t i = rows a t i @ [z]" unfolding a' rows_append using k by simp
    then show ?thesis using a' k row_at_nth [OF rev_invD(2) [OF evolves_inv [OF ev]], of t i "rv_revision z"] by simp
  qed simp
  with c s ev show ?thesis by blast
qed

lemma agent_payload_again:
  assumes "agent_row s = Inr s"
  shows "AgentSpecWrite (rv_payload s) = Inr (rv_payload s)"
proof -
  have c: "construct (strip_revision strip_agent) (revision_fields agent_fields)
      (\<lambda>r. validate_isolation (rv_payload r)) s = Inr s"
    using assms by (simp add: agent_row_def AgentSpec_def spec_model_def)
  from constructD [OF c] have s: "s = strip_revision strip_agent s" "revision_fields agent_fields s = []"
    "validate_isolation (rv_payload s) = None" by blast+
  have "rv_payload s = strip_agent (rv_payload s)"
    using arg_cong [OF s(1), of rv_payload] by (simp add: strip_revision_def)
  moreover have "agent_fields (rv_payload s) = []" using s(2) by (simp add: revision_fields_def)
  ultimately show ?thesis using s(3) by (simp add: AgentSpecWrite_def construct_def)
qed

definition legacy_limits :: "agent_spec_write \<Rightarrow> agent_spec_write" where
  "legacy_limits w = w\<lparr>aw_max_runtime_seconds := 900, aw_max_model_calls := 100\<rparr>"

text \<open>What seeding one default achieves, whatever was stored before.\<close>

definition seeded :: "string \<Rightarrow> string \<Rightarrow> agent_spec_write \<Rightarrow> agent_spec_write rev_db \<Rightarrow> agent_spec_write revision \<Rightarrow>
    agent_spec_write rev_db \<Rightarrow> bool" where
  "seeded t i w a s a' = (evolves agent_row a a' \<and> rv_id s = i \<and> agent_get_active t i a' = Inr (Some s) \<and>
     (\<forall>j. j = i \<or> active_row a' t j = active_row a t j) \<and>
     (case agent_get_active t i a of Inr (Some z) \<Rightarrow> (i = ''owner'' \<and> rv_payload z = legacy_limits w) \<or> s = z
      | _ \<Rightarrow> True))"

lemma upgrade_ok:
  assumes inv: "rev_inv agent_row a" and id: "id_ok t i" and w: "AgentSpecWrite w = Inr w"
    and d: "hex_digest (dg w)" and actor: "protocol_id (py_strip actor)"
    and z: "agent_get_active t i a = Inr (Some z)" "get_active_number t i a = Some (rv_revision z)"
      "row_at a t i (rv_revision z) = Some z"
  shows "\<exists>s a'. upgrade_legacy_owner_default dg now actor z w a = (Inr s, a') \<and> seeded t i w a s a'"
proof -
  have key: "rv_tenant_id z = t" "rv_id z = i" and zm: "z \<in> set (revisions a)" using row_at_mem [OF z(3)] by blast+
  have zp: "AgentSpecWrite (rv_payload z) = Inr (rv_payload z)" by (rule agent_payload_again [OF rev_invD(1) [OF inv zm]])
  have same: "seeded t i w a z a" using inv z key by (simp add: seeded_def)
  let ?exp = "Some (rv_revision z)"
  have switch: "\<exists>a'. enable_spec now actor ?exp s b = (Inr s, a') \<and> seeded t i w a s a'"
    if "i = ''owner''" "rv_payload z = legacy_limits w" "evolves agent_row a b" "row_at b t i (rv_revision s) = Some s"
      "active_refs b = active_refs a" for s b
  proof -
    have n: "get_active_number t i b = ?exp" using z(2) that(5) by (simp add: get_active_number_def active_row_def)
    have "rv_id s = i" using row_at_mem [OF that(4)] by blast
    then show ?thesis
      using enable_ok [OF evolves_inv [OF that(3)] id that(4), of ?exp now actor] n that z
      by (auto simp: seeded_def active_row_def intro: evolves_trans)
  qed
  have rne: "rows a t i \<noteq> []" using z(3) unfolding row_at_rows by auto
  let ?l = "last (rows a t i)"
  have l: "agent_get_latest t i a = Inr (Some ?l)"
    unfolding agent_get_latest_def get_latest_row_def using latest_row_inv [OF inv] rne rows_subset
    by (simp, intro read_opt_inv [OF inv]) (auto dest: subsetD [OF rows_subset] last_in_set)
  have lm: "?l \<in> set (revisions a)" using rne rows_subset by (meson last_in_set subsetD)
  have lp: "AgentSpecWrite (rv_payload ?l) = Inr (rv_payload ?l)" by (rule agent_payload_again [OF rev_invD(1) [OF inv lm]])
  have lr: "row_at a t i (rv_revision ?l) = Some ?l"
    using last_row_number [OF inv rne] row_at_nth [OF rev_invD(2) [OF inv]] rne
    by (simp add: last_conv_nth Suc_le_eq nat_diff_distrib)
  consider (keep) "i \<noteq> ''owner'' \<or> rv_payload z \<noteq> legacy_limits w"
    | (ahead) "i = ''owner''" "rv_payload z = legacy_limits w" "rv_revision ?l \<noteq> rv_revision z" "rv_payload ?l \<noteq> w"
    | (jump) "i = ''owner''" "rv_payload z = legacy_limits w" "rv_revision ?l \<noteq> rv_revision z" "rv_payload ?l = w"
    | (fork) "i = ''owner''" "rv_payload z = legacy_limits w" "rv_revision ?l = rv_revision z" by blast
  then show ?thesis
  proof cases
    case keep
    with same zp key show ?thesis
      by (auto simp: upgrade_legacy_owner_default_def model_error_def legacy_limits_def)
  next
    case ahead
    with same zp lp l key show ?thesis
      by (auto simp: upgrade_legacy_owner_default_def model_error_def legacy_limits_def)
  next
    case jump
    obtain a' where "enable_spec now actor ?exp ?l a = (Inr ?l, a')" "seeded t i w a ?l a'"
      using switch [OF jump(1,2) evolves_refl [OF inv] lr refl] by blast
    with jump zp lp l key show ?thesis
      by (auto simp: upgrade_legacy_owner_default_def model_error_def legacy_limits_def enable_spec_def)
  next
    case fork
    have e: "?exp = (if rows a t i = [] then None else Some (int (length (rows a t i))))"
      using rne fork(3) last_row_number [OF inv rne] by simp
    obtain s b where c: "agent_create_revision dg now t i w ?exp actor a = (Inr s, b)" "evolves agent_row a b"
      "row_at b t i (rv_revision s) = Some s" "active_refs b = active_refs a"
      using create_ok [where now = now and dg = dg, OF inv id w d actor e] by blast
    obtain a' where "enable_spec now actor ?exp s b = (Inr s, a')" "seeded t i w a s a'"
      using switch [OF fork(1,2) c(2-4)] by blast
    with fork c(1) zp l key show ?thesis
      by (auto simp: upgrade_legacy_owner_default_def model_error_def legacy_limits_def enable_spec_def)
  qed
qed

lemma seed_one_ok:
  assumes inv: "rev_inv agent_row a" and id: "id_ok t i" and w: "AgentSpecWrite w = Inr w"
    and d: "hex_digest (dg w)" and actor: "protocol_id (py_strip actor)"
  shows "\<exists>s a'. seed_one dg now t actor i w a = (Inr s, a') \<and> seeded t i w a s a'"
  using inv id
proof (cases rule: get_active_cases)
  case (some z)
  obtain s a' where "upgrade_legacy_owner_default dg now actor z w a = (Inr s, a')" "seeded t i w a s a'"
    using upgrade_ok [where now = now and dg = dg, OF inv id w d actor some] by blast
  with some(1) show ?thesis by (simp add: seed_one_def)
next
  case none
  have go: "\<exists>a'. enable_spec now actor None s b = (Inr s, a') \<and> seeded t i w a s a'"
    if "evolves agent_row a b" "row_at b t i (rv_revision s) = Some s" "active_refs b = active_refs a" for s b
  proof -
    have "get_active_number t i b = None" using none(2) that(3) by (simp add: get_active_number_def active_row_def)
    moreover have "rv_id s = i" using row_at_mem [OF that(2)] by blast
    ultimately show ?thesis
      using enable_ok [OF evolves_inv [OF that(1)] id that(2), of None now actor] that none
      by (auto simp: seeded_def active_row_def intro: evolves_trans)
  qed
  show ?thesis
  proof (cases "rows a t i = []")
    case True
    then have l: "agent_get_latest t i a = Inr None"
      by (simp add: agent_get_latest_def get_latest_row_def latest_row_def read_opt_def)
    obtain s b where c: "agent_create_revision dg now t i w None actor a = (Inr s, b)" "evolves agent_row a b"
      "row_at b t i (rv_revision s) = Some s" "active_refs b = active_refs a"
      using create_ok [where now = now and dg = dg, OF inv id w d actor] True by auto
    from go [OF c(2-4)] none(1) l c(1) show ?thesis by (auto simp: seed_one_def enable_spec_def)
  next
    case False
    let ?l = "last (rows a t i)"
    have l: "agent_get_latest t i a = Inr (Some ?l)"
      unfolding agent_get_latest_def get_latest_row_def using latest_row_inv [OF inv] False
      by (simp, intro read_opt_inv [OF inv]) (auto dest: subsetD [OF rows_subset] last_in_set)
    have lr: "row_at a t i (rv_revision ?l) = Some ?l"
      using last_row_number [OF inv False] row_at_nth [OF rev_invD(2) [OF inv]] False
      by (simp add: last_conv_nth Suc_le_eq nat_diff_distrib)
    from go [OF evolves_refl [OF inv] lr refl] none(1) l show ?thesis by (auto simp: seed_one_def enable_spec_def)
  qed
qed

lemma active_stays:
  assumes "rev_inv agent_row a" "evolves agent_row a a'" "id_ok t i" "active_row a' t i = active_row a t i"
    "agent_get_active t i a = Inr (Some s)"
  shows "agent_get_active t i a' = Inr (Some s)"
proof -
  have "get_active_number t i a = Some (rv_revision s)" "row_at a t i (rv_revision s) = Some s"
    using agent_get_active_inv [OF assms(1,5)] by blast+
  then show ?thesis
    using get_active_of_number [OF evolves_inv [OF assms(2)] assms(3)] evolves_row_at [OF assms(2)] assms(4)
    by (simp add: get_active_number_def)
qed

lemma seed_specs_ok:
  assumes "rev_inv agent_row a" "\<And>w. hex_digest (dg w)" "protocol_id (py_strip actor)"
    "\<forall>(i, w) \<in> set ws. id_ok t i \<and> AgentSpecWrite w = Inr w" "distinct (map fst ws)"
  shows "\<exists>ss a'. seed_specs dg now t actor ws a = (Inr ss, a') \<and> evolves agent_row a a' \<and> map rv_id ss = map fst ws \<and>
    list_all (\<lambda>s. agent_get_active t (rv_id s) a' = Inr (Some s)) ss \<and>
    (\<forall>j. j \<in> fst ` set ws \<or> active_row a' t j = active_row a t j) \<and>
    (\<forall>i w z. (i, w) \<in> set ws \<longrightarrow> agent_get_active t i a = Inr (Some z) \<longrightarrow>
       i = ''owner'' \<and> rv_payload z = legacy_limits w \<or> agent_get_active t i a' = Inr (Some z))"
  using assms(1,4,5)
proof (induction ws arbitrary: a)
  case Nil
  then show ?case by simp
next
  case (Cons iw ws)
  obtain i w where iw: "iw = (i, w)" by fastforce
  have id: "id_ok t i" and w: "AgentSpecWrite w = Inr w" and new: "i \<notin> fst ` set ws"
    using Cons.prems iw by auto
  obtain s b where s: "seed_one dg now t actor i w a = (Inr s, b)" "seeded t i w a s b"
    using seed_one_ok [where dg = dg and now = now, OF Cons.prems(1) id w assms(2,3)] by blast
  have b: "evolves agent_row a b" "rv_id s = i" "agent_get_active t i b = Inr (Some s)"
    "\<forall>j. j = i \<or> active_row b t j = active_row a t j"
    "\<And>z. agent_get_active t i a = Inr (Some z) \<Longrightarrow> i = ''owner'' \<and> rv_payload z = legacy_limits w \<or> s = z"
    using s(2) by (auto simp: seeded_def)
  obtain ss a' where r: "seed_specs dg now t actor ws b = (Inr ss, a')" "evolves agent_row b a'"
    "map rv_id ss = map fst ws" "list_all (\<lambda>s. agent_get_active t (rv_id s) a' = Inr (Some s)) ss"
    "\<forall>j. j \<in> fst ` set ws \<or> active_row a' t j = active_row b t j"
    "\<forall>i w z. (i, w) \<in> set ws \<longrightarrow> agent_get_active t i b = Inr (Some z) \<longrightarrow>
       i = ''owner'' \<and> rv_payload z = legacy_limits w \<or> agent_get_active t i a' = Inr (Some z)"
    using Cons.IH [OF evolves_inv [OF b(1)]] Cons.prems(2,3) by auto
  have si: "agent_get_active t i a' = Inr (Some s)"
    by (rule active_stays [OF evolves_inv [OF b(1)] r(2) id]) (use r(5) new b(3) in blast)+
  have keep: "j = ''owner'' \<and> rv_payload z = legacy_limits v \<or> agent_get_active t j a' = Inr (Some z)"
    if "(j, v) \<in> set (iw # ws)" "agent_get_active t j a = Inr (Some z)" for j v z
  proof (cases "(j, v) = (i, w)")
    case True
    with b(5) that si show ?thesis by auto
  next
    case False
    then have jv: "(j, v) \<in> set ws" using that(1) iw by auto
    have "j \<noteq> i" using jv new by (metis fst_conv image_eqI)
    then have "active_row b t j = active_row a t j" using b(4) by blast
    moreover have "id_ok t j" using Cons.prems(2) jv by auto
    ultimately have "agent_get_active t j b = Inr (Some z)" using active_stays [OF Cons.prems(1) b(1)] that(2) by blast
    with r(6) jv show ?thesis by blast
  qed
  have "seed_specs dg now t actor (iw # ws) a = (Inr (s # ss), a')" using s(1) r(1) iw by simp
  moreover have "evolves agent_row a a'" using b(1) r(2) by (rule evolves_trans)
  moreover have "\<forall>j. j \<in> fst ` set (iw # ws) \<or> active_row a' t j = active_row a t j"
    using b(4) r(5) iw by (metis fst_conv image_insert insertCI list.set(2))
  ultimately show ?case using b(2) r(3,4) si keep iw by (intro exI [of _ "s # ss"] exI [of _ a'] conjI) simp_all
qed

text \<open>
  Seeding the default agents of a tenant always succeeds, from any state the store can be in: the
  four defaults are returned in order and each of them is then active. A specification that was
  already active stays active, whatever its owner made of it; only an owner specification that is the
  default with the limits of earlier releases (900 seconds, 100 model calls) may be replaced.
\<close>

theorem seeding_activates_every_default:
  assumes "a = sd_agents (after_calls E cs empty_spec_db)" "\<And>w. hex_digest (dg w)"
    and "protocol_id t" "py_strip t = t" "protocol_id (py_strip actor)"
  shows "\<exists>ss a'. seed_defaults dg now t actor a = (Inr ss, a') \<and>
    map rv_id ss = [''owner'', ''release-repair'', ''routine'', ''intake''] \<and>
    list_all (\<lambda>s. agent_get_active t (rv_id s) a' = Inr (Some s)) ss \<and>
    list_all (\<lambda>(i, w). case agent_get_active t i a of
       Inr (Some z) \<Rightarrow> i = ''owner'' \<and> rv_payload z = legacy_limits w \<or> agent_get_active t i a' = Inr (Some z)
     | _ \<Rightarrow> True) default_agent_spec_writes"
proof -
  have inv: "rev_inv agent_row a" unfolding assms(1) by (rule spec_invD(1) [OF after_calls_inv])
  have ws: "\<forall>(i, w) \<in> set default_agent_spec_writes. id_ok t i \<and> AgentSpecWrite w = Inr w"
    using default_ids_ok default_writes_again assms(3,4) by (auto simp: list_all_iff id_ok_def)
  have ids: "map fst default_agent_spec_writes = [''owner'', ''release-repair'', ''routine'', ''intake'']"
    by (simp add: default_agent_spec_writes_def)
  then have "distinct (map fst default_agent_spec_writes)" by simp
  from seed_specs_ok [where dg = dg and now = now, OF inv assms(2,5) ws this]
  obtain ss a' where s: "seed_specs dg now t actor default_agent_spec_writes a = (Inr ss, a')"
    "map rv_id ss = map fst default_agent_spec_writes"
    "list_all (\<lambda>s. agent_get_active t (rv_id s) a' = Inr (Some s)) ss"
    and k: "\<And>i w z. (i, w) \<in> set default_agent_spec_writes \<Longrightarrow> agent_get_active t i a = Inr (Some z) \<Longrightarrow>
       i = ''owner'' \<and> rv_payload z = legacy_limits w \<or> agent_get_active t i a' = Inr (Some z)"
    by blast
  have "list_all (\<lambda>(i, w). case agent_get_active t i a of
       Inr (Some z) \<Rightarrow> i = ''owner'' \<and> rv_payload z = legacy_limits w \<or> agent_get_active t i a' = Inr (Some z)
     | _ \<Rightarrow> True) default_agent_spec_writes"
    unfolding list_all_iff using k by (fastforce split: sum.splits option.splits)
  with s ids show ?thesis unfolding seed_defaults_def by auto
qed

theorem seeding_activates_every_default_witness:
  "\<exists>ss a'. seed_defaults (\<lambda>_. replicate 64 CHR ''0'') (At 1) ''t'' ''u'' empty_rev_db = (Inr ss, a') \<and>
     list_all (\<lambda>s. agent_get_active ''t'' (rv_id s) a' = Inr (Some s)) ss"
proof -
  have e: "empty_rev_db = sd_agents (after_calls example_env [] empty_spec_db)"
    by (simp add: after_calls_def empty_spec_db_def)
  have h: "hex_digest (replicate 64 CHR ''0'')" by code_simp
  have p: "protocol_id ''t''" "py_strip ''t'' = ''t''" "protocol_id (py_strip ''u'')" by code_simp+
  from seeding_activates_every_default [where dg = "\<lambda>_. replicate 64 CHR ''0''" and now = "At 1", OF e h p]
  show ?thesis by blast
qed

end
