(* ===== verification/TriggerSchedule.thy ===== *)
theory TriggerSchedule
  imports TriggerDispatcher SpecControl
begin

text \<open>
  \<^verbatim>\<open>specs/dispatcher.py\<close>, class \<open>TriggerDispatcher\<close>: the fires the scheduler starts. \<open>run_scheduled\<close> reads
  the active trigger again, executes the fire under the key of its schedule and, for a trigger at a
  fixed time, stores a disabled revision whatever the run did. Instants are whole seconds since the
  epoch; \<open>isoformat\<close> is the ISO text of a UTC instant and \<open>local\<close> the reading of a naive datetime in the
  host's time zone. The registration of the jobs with APScheduler is not modelled.
\<close>

section \<open>Operations\<close>




definition disabled_write :: "trigger_spec_write \<Rightarrow> trigger_spec_write" where
  "disabled_write w = w\<lparr>tw_enabled := False, tw_source_revision := map_option (\<lambda>n. n + 1) (tw_source_revision w)\<rparr>"

fun lost_race :: "spec_error \<Rightarrow> bool" where
  "lost_race (SpecConflictError m) = True"
| "lost_race (SpecNotFoundId i) = True"
| "lost_race (SpecNotFoundRef r) = True"
| "lost_race _ = False"

definition disable_one_off ::
  "(string \<Rightarrow> bool) \<Rightarrow> (string \<Rightarrow> string \<Rightarrow> bool) \<Rightarrow> (trigger_spec_write \<Rightarrow> string) \<Rightarrow> timestamp \<Rightarrow> agent_spec_write rev_db \<Rightarrow>
   trigger_spec_write revision \<Rightarrow> (trigger_spec_write rev_db, spec_error, unit) oper" where
  "disable_one_off zone cron dg now agents g db =
     (case trigger_get_active zone cron (rv_tenant_id g) (rv_id g) db of
        Inl e \<Rightarrow> raises e db
      | Inr None \<Rightarrow> ok () db
      | Inr (Some active) \<Rightarrow>
        if rv_revision active \<noteq> rv_revision g \<or> \<not> tw_enabled (rv_payload active) then ok () db
        else (case TriggerSpecWrite zone cron (rv_payload g) of Inl e \<Rightarrow> raises (ValidationError e) db
          | Inr w \<Rightarrow> (case trigger_create_revision zone cron dg now agents (rv_tenant_id g) (rv_id g) (disabled_write w)
                (Some (rv_revision g)) ''scheduler'' db of
              (Inl e, db1) \<Rightarrow> if lost_race e then ok () db1 else raises e db1
            | (Inr disabled, db1) \<Rightarrow> (case trigger_activate zone cron (rv_tenant_id g) (rv_id g) (rv_revision disabled)
                  (Some (rv_revision g)) now ''scheduler'' db1 of
                (Inl e, db2) \<Rightarrow> if lost_race e then ok () db2 else raises e db2
              | (Inr _, db2) \<Rightarrow> ok () db2))))"


section \<open>Disabling a trigger that has fired\<close>

lemma stored_trigger:
  assumes "rev_inv (trigger_row zone cron) db" "row_at db t i n = Some g"
  shows "rv_tenant_id g = t" "rv_id g = i" "rv_revision g = n" "trigger_row zone cron g = Inr g"
    "strip_revision strip_trigger g = g" "revision_fields (trigger_fields zone cron) g = []" "validate_exposure (rv_payload g) = None"
proof -
  show k: "rv_tenant_id g = t" "rv_id g = i" "rv_revision g = n" using sel_SomeD [OF assms(2) [unfolded row_at_def]] by blast+
  have "g \<in> set (revisions db)" using sel_SomeD [OF assms(2) [unfolded row_at_def]] by blast
  then show m: "trigger_row zone cron g = Inr g" by (rule rev_invD(1) [OF assms(1)])
  then have "construct (strip_revision strip_trigger) (revision_fields (trigger_fields zone cron)) (\<lambda>r. validate_exposure (rv_payload r)) g = Inr g"
    by (simp add: trigger_row_def TriggerSpec_def spec_model_def)
  from constructD [OF this] show "strip_revision strip_trigger g = g" "revision_fields (trigger_fields zone cron) g = []"
    "validate_exposure (rv_payload g) = None" by simp_all
qed

lemma strip_disabled: "strip_trigger w = w \<Longrightarrow> strip_trigger (disabled_write w) = disabled_write w"
  by (cases w) (simp add: strip_trigger_def disabled_write_def)

text \<open>The disabled revision of a stored trigger is accepted, and so is its insertion.\<close>

lemma disabled_accepted:
  assumes inv: "rev_inv (trigger_row zone cron) db" and r: "row_at db t i n = Some g" and d: "hex_digest d"
  shows "trigger_row zone cron (new_row t i (n + 1) (disabled_write (rv_payload g)) d now ''scheduler'') =
      Inr (new_row t i (n + 1) (disabled_write (rv_payload g)) d now ''scheduler'')"
    and "TriggerSpecWrite zone cron (rv_payload g) = Inr (rv_payload g)"
proof -
  note s = stored_trigger [OF inv r]
  have p: "strip_trigger (rv_payload g) = rv_payload g" "py_strip t = t" "py_strip i = i"
    using arg_cong [OF s(5), of rv_payload] arg_cong [OF s(5), of rv_tenant_id] arg_cong [OF s(5), of rv_id] s(1,2)
    by (simp_all add: strip_revision_def)
  have f: "trigger_fields zone cron (rv_payload g) = []" "protocol_id t" "slug i" "1 \<le> n"
    using s(1-3,6) by (simp_all add: revision_fields_def)
  show "TriggerSpecWrite zone cron (rv_payload g) = Inr (rv_payload g)"
    using p(1) f(1) s(7) by (simp add: TriggerSpecWrite_def construct_def)
  let ?w = "disabled_write (rv_payload g)"
  have "strip_trigger ?w = ?w" by (rule strip_disabled [OF p(1)])
  moreover have "trigger_fields zone cron ?w = []"
    using f(1) by (auto simp: trigger_fields_def disabled_write_def split: option.splits)
  moreover have "validate_exposure ?w = validate_exposure (rv_payload g)" by (simp add: validate_exposure_def disabled_write_def)
  moreover have "py_strip ''scheduler'' = ''scheduler''" "protocol_id ''scheduler''" by code_simp+
  ultimately show "trigger_row zone cron (new_row t i (n + 1) ?w d now ''scheduler'') = Inr (new_row t i (n + 1) ?w d now ''scheduler'')"
    using p f d strip_hex_digest [OF d] s(7)
    by (simp add: trigger_row_def TriggerSpec_def spec_model_def construct_def strip_revision_def revision_fields_def new_row_def Let_def)
qed



lemma target_still_valid:
  assumes inv: "rev_inv agent_row agents" and ok: "target_ok agents g"
  shows "validate_target agents (rv_tenant_id g) (disabled_write (rv_payload g)) = Inr ()"
proof -
  let ?ref = "tw_agent_spec (rv_payload g)"
  obtain a where a: "row_at agents (ref_tenant_id ?ref) (ref_spec_id ?ref) (ref_revision ?ref) = Some a"
    "ref_tenant_id ?ref = rv_tenant_id g" "aw_isolation (rv_payload a) = tw_exposure (rv_payload g)"
    using ok by (auto simp: target_ok_def Let_def split: option.splits)
  have "agent_get_revision ?ref agents = Inr (Some a)"
    unfolding agent_get_revision_def get_revision_row_def a(1) [symmetric]
    by (rule read_opt_inv [OF inv]) (simp add: row_at_mem)
  with a(2,3) show ?thesis by (simp add: validate_target_def disabled_write_def)
qed





lemma active_trigger_row:
  assumes inv: "rev_inv (trigger_row zone cron) db" and a: "trigger_get_active zone cron t i db = Inr (Some g)"
  shows "\<exists>a. active_row db t i = Some a \<and> row_at db t i (ar_revision a) = Some g"
proof -
  obtain a where a1: "active_row db t i = Some a"
    using a by (auto simp: trigger_get_active_def get_active_row_def split: option.splits)
  obtain r where r: "row_at db t i (ar_revision a) = Some r"
    using a a1 by (auto simp: trigger_get_active_def get_active_row_def read_opt_def split: option.splits)
  have "r = g" using a a1 r stored_trigger(4) [OF inv r] by (simp add: trigger_get_active_def get_active_row_def read_opt_def)
  with a1 r show ?thesis by blast
qed

lemma latest_trigger_row:
  assumes inv: "rev_inv (trigger_row zone cron) db" and l: "trigger_get_latest zone cron t i db = Inr (Some g)"
  shows "latest_row db t i = Some g \<and> trigger_row zone cron g = Inr g"
proof -
  obtain q where q: "latest_row db t i = Some q"
    using l by (auto simp: trigger_get_latest_def get_latest_row_def read_opt_def split: option.splits)
  have "q \<in> set (revisions db)" using top_by_mem [OF q [unfolded latest_row_def]] rows_subset by blast
  then have "trigger_row zone cron q = Inr q" by (rule rev_invD(1) [OF inv])
  with l q show ?thesis by (simp add: trigger_get_latest_def get_latest_row_def read_opt_def)
qed

text \<open>
  A revision that was saved but not activated gets in the way: the disabled revision is refused as a
  conflict, the refusal is swallowed and the fired trigger stays active and enabled.
\<close>

theorem draft_revision_keeps_one_off_enabled:
  assumes "specs = after_calls S cs empty_spec_db"
    and "trigger_get_active (se_zone S) (se_cron S) t i (sd_triggers specs) = Inr (Some g)" "tw_enabled (rv_payload g)"
    and "trigger_get_latest (se_zone S) (se_cron S) t i (sd_triggers specs) = Inr (Some h)" "rv_revision h \<noteq> rv_revision g"
    and "hex_digest (dg (disabled_write (rv_payload g)))" "dg (disabled_write (rv_payload g)) \<noteq> rv_content_digest h"
  shows "disable_one_off (se_zone S) (se_cron S) dg now (sd_agents specs) g (sd_triggers specs) = (Inr (), sd_triggers specs)"
proof -
  let ?mk = "trigger_row (se_zone S) (se_cron S)" and ?db = "sd_triggers specs"
  have si: "spec_inv S specs" unfolding assms(1) by (rule after_calls_inv)
  have inv: "rev_inv agent_row (sd_agents specs)" "rev_inv ?mk ?db" and tgt: "\<forall>r \<in> set (revisions ?db). target_ok (sd_agents specs) r"
    using si by (simp_all add: spec_inv_def)
  obtain a where a: "active_row ?db t i = Some a" "row_at ?db t i (ar_revision a) = Some g"
    using active_trigger_row [OF inv(2) assms(2)] by blast
  note s = stored_trigger [OF inv(2) a(2)]
  have l: "latest_row ?db t i = Some h" "?mk h = Inr h" using latest_trigger_row [OF inv(2) assms(4)] by blast+
  have tg: "target_ok (sd_agents specs) g" using tgt row_at_mem [OF a(2)] by blast
  have w: "TriggerSpecWrite (se_zone S) (se_cron S) (rv_payload g) = Inr (rv_payload g)"
    by (rule disabled_accepted(2) [OF inv(2) a(2) assms(6)])
  show ?thesis
    using assms(2,3,5,7) w s(1,2) l target_still_valid [OF inv(1) tg]
    by (simp add: disable_one_off_def trigger_create_revision_def create_revision_row_def)
qed

section \<open>Properties\<close>








end
