(* ===== verification/Ids.thy ===== *)
theory Ids
  imports SpecModels
begin

text \<open>
  \<^verbatim>\<open>core/ids.py\<close>: the short identifiers the stores hand out. The sixteen bytes of \<open>uuid.uuid4()\<close> are an
  argument; the rest (version and variant bits, base 36, the tail of the requested size) is computed as
  the code does it. The result of \<open>new_short_id\<close> always passes the protocol's identifier check.
\<close>

definition base36_digit :: "nat \<Rightarrow> char" where
  "base36_digit d = ''0123456789abcdefghijklmnopqrstuvwxyz'' ! d"

text \<open>The loop of \<open>_to_base36\<close> collects the digits from the last one on.\<close>

fun base36_digits :: "nat \<Rightarrow> string" where
  "base36_digits n = (if n = 0 then [] else base36_digit (n mod 36) # base36_digits (n div 36))"

declare base36_digits.simps [simp del]

definition to_base36 :: "int \<Rightarrow> string" where
  "to_base36 v = (if v \<le> 0 then ''0'' else rev (base36_digits (nat v)))"

text \<open>\<open>(raw[6] & 0x0F) | 0x80\<close> and \<open>(raw[8] & 0x3F) | 0x80\<close> on bytes.\<close>

definition uuid8_like :: "nat list \<Rightarrow> nat list" where
  "uuid8_like raw = raw[6 := raw ! 6 mod 16 + 128, 8 := raw ! 8 mod 64 + 128]"

definition bytes_to_int :: "nat list \<Rightarrow> nat" where
  "bytes_to_int = foldl (\<lambda>acc b. acc * 256 + b) 0"

definition rjust_zero :: "nat \<Rightarrow> string \<Rightarrow> string" where
  "rjust_zero n s = replicate (n - length s) (CHR ''0'') @ s"

definition base36_entropy :: "nat list \<Rightarrow> nat \<Rightarrow> string" where
  "base36_entropy uuid chars = rjust_zero chars (py_tail chars (to_base36 (int (bytes_to_int (uuid8_like uuid)))))"

definition id_prefix :: "string \<Rightarrow> bool" where
  "id_prefix = name_of ''_-'' 20"

definition new_short_id :: "nat list \<Rightarrow> string \<Rightarrow> int \<Rightarrow> string + string" where
  "new_short_id uuid prefix suffix_chars = (let p = py_lower (py_strip prefix) in
     if \<not> id_prefix p then Inl ''prefix must match ^[a-z][a-z0-9_-]{0,20}$''
     else Inr (p @ ''_'' @ base36_entropy uuid (nat (max 4 (min 12 suffix_chars)))))"

section \<open>Short identifiers are protocol identifiers\<close>

definition base36_char :: "char \<Rightarrow> bool" where
  "base36_char c = (is_lower c \<or> is_digit c)"

lemma base36_digit_char: "d < 36 \<Longrightarrow> base36_char (base36_digit d)"
proof -
  have "list_all base36_char ''0123456789abcdefghijklmnopqrstuvwxyz''"
    by (simp add: base36_char_def is_lower_def is_digit_def)
  then show "d < 36 \<Longrightarrow> base36_char (base36_digit d)"
    unfolding base36_digit_def list_all_length by (erule_tac x = d in allE) simp
qed

lemma base36_digits_chars: "list_all base36_char (base36_digits n)"
proof (induction n rule: base36_digits.induct)
  case (1 n)
  then show ?case by (subst base36_digits.simps) (simp add: base36_digit_char)
qed

lemma to_base36_chars: "list_all base36_char (to_base36 v)"
  using base36_digits_chars [of "nat v"]
  by (simp add: to_base36_def base36_char_def is_digit_def)

lemma base36_entropy_facts:
  "length (base36_entropy uuid n) = n" "list_all base36_char (base36_entropy uuid n)"
proof -
  let ?t = "py_tail n (to_base36 (int (bytes_to_int (uuid8_like uuid))))"
  have "list_all base36_char ?t"
    using to_base36_chars set_py_tail_subset by (fastforce simp: list_all_iff)
  moreover have "base36_char (CHR ''0'')" by (simp add: base36_char_def is_digit_def)
  ultimately show "list_all base36_char (base36_entropy uuid n)"
    by (auto simp: base36_entropy_def rjust_zero_def list_all_iff)
  show "length (base36_entropy uuid n) = n" by (simp add: base36_entropy_def rjust_zero_def)
qed

lemma name_of_append:
  assumes "name_of extra n s" "length s + length t \<le> m + 1" "list_all (\<lambda>d. is_lower d \<or> is_digit d \<or> d \<in> set extra) t"
  shows "name_of extra m (s @ t)"
  using assms by (cases s) (auto simp: name_of_def list_all_iff)

lemma new_short_id_slug: "new_short_id uuid p n = Inr i \<Longrightarrow> slug i"
proof -
  assume a: "new_short_id uuid p n = Inr i"
  let ?p = "py_lower (py_strip p)" and ?e = "base36_entropy uuid (nat (max 4 (min 12 n)))"
  from a have i: "i = ?p @ (''_'' @ ?e)" "id_prefix ?p" by (auto simp: new_short_id_def Let_def split: if_splits)
  have "length ?p \<le> 21" using i(2) by (auto simp: id_prefix_def name_of_def split: list.splits)
  moreover have "length ?e \<le> 12" by (simp add: base36_entropy_facts)
  moreover have "list_all (\<lambda>d. is_lower d \<or> is_digit d \<or> d \<in> set ''_-'') (''_'' @ ?e)"
    using base36_entropy_facts(2) [of uuid] by (fastforce simp: list_all_iff base36_char_def)
  ultimately show "slug i"
    unfolding slug_def i(1) by (intro name_of_append [OF i(2) [unfolded id_prefix_def]]) auto
qed

lemma slug_strip: "slug s \<Longrightarrow> py_strip s = s"
proof -
  assume "slug s"
  then have no: "\<not> py_isspace c" if "c \<in> set s" for c
    using that by (cases s) (auto simp: slug_def name_of_def list_all_iff is_lower_def is_digit_def py_isspace_def Let_def)
  have keep: "dropWhile py_isspace u = u" if "set u \<subseteq> set s" for u using no that by (cases u) auto
  show ?thesis by (simp add: py_strip_def keep)
qed

end
