(* ===== verification/Schedules.thy ===== *)
theory Schedules
  imports SpecControl Ids
begin

text \<open>
  \<^verbatim>\<open>schedules/models.py\<close> and \<^verbatim>\<open>schedules/service.py\<close>: the owner's schedules, a facade over the trigger
  specifications. A schedule is a trigger whose source key is \<^verbatim>\<open>schedule:<id>\<close> and whose identifier is
  derived from the schedule's; every edit is a new revision of that trigger which is then activated.
  The two constants of a trigger (misfire policy and grace) are left out of the data. A service
  operation runs several transactions, which the definitions run on one state; saving is also cut
  between storing the revision and activating it, where the process can stop. \<open>sha\<close> is the hex SHA-256
  of a text. The callbacks \<open>on_changed\<close> and \<open>on_deleted\<close> give the exception they raise, if any. Two conflict messages
  quote the identifier in the code and not here. The import of the legacy routines table is not modelled.
\<close>

section \<open>Data\<close>

datatype schedule_trigger = SchAt py_datetime string | SchCron string string

datatype schedule_action = Reminder string | AgentJob string

record schedule_write =
  sw_name :: string
  sw_trigger :: schedule_trigger
  sw_action :: schedule_action
  sw_notify_owner :: bool
  sw_enabled :: bool

record schedule = schedule_write +
  sch_id :: string
  sch_tenant_id :: string
  sch_revision :: int
  sch_created_at :: timestamp
  sch_updated_at :: timestamp

fun strip_sch_trigger :: "schedule_trigger \<Rightarrow> schedule_trigger" where
  "strip_sch_trigger (SchAt at tz) = SchAt at (py_strip tz)"
| "strip_sch_trigger (SchCron e tz) = SchCron (py_strip e) (py_strip tz)"

fun sch_trigger_fields :: "(string \<Rightarrow> bool) \<Rightarrow> schedule_trigger \<Rightarrow> string list" where
  "sch_trigger_fields zone (SchAt at tz) = bad ''timezone'' (tz \<noteq> [] \<and> iana_timezone zone tz \<noteq> None) @
     bad ''run_at'' (case at of Aware _ \<Rightarrow> True | Naive _ \<Rightarrow> False)"
| "sch_trigger_fields zone (SchCron e tz) = bad ''timezone'' (tz \<noteq> [] \<and> iana_timezone zone tz \<noteq> None) @
     bad ''expression'' (e \<noteq> [])"

fun validate_expression :: "(string \<Rightarrow> string \<Rightarrow> bool) \<Rightarrow> schedule_trigger \<Rightarrow> string option" where
  "validate_expression cron (SchAt _ _) = None"
| "validate_expression cron (SchCron e tz) =
     (if cron e tz then None else Some ''expression must be a valid five-field cron expression'')"

definition ScheduleTrigger ::
  "(string \<Rightarrow> bool) \<Rightarrow> (string \<Rightarrow> string \<Rightarrow> bool) \<Rightarrow> schedule_trigger \<Rightarrow> validation_error + schedule_trigger" where
  "ScheduleTrigger zone cron = construct strip_sch_trigger (sch_trigger_fields zone) (validate_expression cron)"

fun strip_action :: "schedule_action \<Rightarrow> schedule_action" where
  "strip_action (Reminder m) = Reminder (py_strip m)"
| "strip_action (AgentJob i) = AgentJob (py_strip i)"

fun action_fields :: "schedule_action \<Rightarrow> string list" where
  "action_fields (Reminder m) = bad ''message'' (m \<noteq> [])"
| "action_fields (AgentJob i) = bad ''instruction'' (i \<noteq> [])"

definition ScheduleAction :: "schedule_action \<Rightarrow> validation_error + schedule_action" where
  "ScheduleAction = construct strip_action action_fields (\<lambda>_. None)"

definition strip_write :: "'a schedule_write_scheme \<Rightarrow> 'a schedule_write_scheme" where
  "strip_write w = w\<lparr>sw_name := py_strip (sw_name w), sw_trigger := strip_sch_trigger (sw_trigger w),
     sw_action := strip_action (sw_action w)\<rparr>"

definition write_fields :: "(string \<Rightarrow> bool) \<Rightarrow> (string \<Rightarrow> string \<Rightarrow> bool) \<Rightarrow> 'a schedule_write_scheme \<Rightarrow> string list" where
  "write_fields zone cron w = bad ''name'' (sized 1 200 (sw_name w)) @
     bad ''trigger'' (case ScheduleTrigger zone cron (sw_trigger w) of Inl _ \<Rightarrow> False | Inr _ \<Rightarrow> True) @
     bad ''action'' (case ScheduleAction (sw_action w) of Inl _ \<Rightarrow> False | Inr _ \<Rightarrow> True)"

definition ScheduleWrite ::
  "(string \<Rightarrow> bool) \<Rightarrow> (string \<Rightarrow> string \<Rightarrow> bool) \<Rightarrow> schedule_write \<Rightarrow> validation_error + schedule_write" where
  "ScheduleWrite zone cron = construct strip_write (write_fields zone cron) (\<lambda>_. None)"

definition strip_schedule :: "schedule \<Rightarrow> schedule" where
  "strip_schedule s = (strip_write s)\<lparr>sch_id := py_strip (sch_id s), sch_tenant_id := py_strip (sch_tenant_id s)\<rparr>"

definition schedule_fields :: "(string \<Rightarrow> bool) \<Rightarrow> (string \<Rightarrow> string \<Rightarrow> bool) \<Rightarrow> schedule \<Rightarrow> string list" where
  "schedule_fields zone cron s = write_fields zone cron s @ bad ''id'' (sized 1 100 (sch_id s)) @
     bad ''tenant_id'' (sized 1 200 (sch_tenant_id s)) @ bad ''revision'' (1 \<le> sch_revision s)"

definition Schedule ::
  "(string \<Rightarrow> bool) \<Rightarrow> (string \<Rightarrow> string \<Rightarrow> bool) \<Rightarrow> schedule \<Rightarrow> validation_error + schedule" where
  "Schedule zone cron = construct strip_schedule (schedule_fields zone cron) (\<lambda>_. None)"

section \<open>Arguments\<close>

datatype schedule_error =
    ScheduleValueError string
  | ScheduleInvalid validation_error
  | ScheduleConflictError string
  | ScheduleNotFoundError string
  | ScheduleRuntimeError string
  | ScheduleSpecError spec_error

definition sch_tenant :: "string \<Rightarrow> schedule_error + string" where
  "sch_tenant value = (let t = py_strip value in
     if t = [] then Inl (ScheduleValueError ''tenant_id is required'')
     else if length t > 200 then Inl (ScheduleValueError ''tenant_id must be at most 200 characters'')
     else Inr t)"

definition sch_identifier :: "nat list \<Rightarrow> string option \<Rightarrow> schedule_error + string" where
  "sch_identifier uuid value = (let given = (case value of None \<Rightarrow> [] | Some x \<Rightarrow> py_strip x) in
     case (if given = [] then new_short_id uuid ''sch'' 6 else Inr given) of
       Inl msg \<Rightarrow> Inl (ScheduleValueError msg)
     | Inr sid \<Rightarrow> if length sid > 100 then Inl (ScheduleValueError ''schedule_id must be at most 100 characters'')
         else Inr sid)"

definition sch_actor :: "string \<Rightarrow> schedule_error + string" where
  "sch_actor value = (let a = py_strip value in
     if a = [] then Inl (ScheduleValueError ''actor_id is required'')
     else if length a > 200 then Inl (ScheduleValueError ''actor_id must be at most 200 characters'')
     else Inr a)"

definition schedule_source_prefix :: string where
  "schedule_source_prefix = ''schedule:''"

definition reminder_prefix :: string where
  "reminder_prefix = ''Deliver this reminder to the owner exactly as written:'' @ [CHR 0x0A, CHR 0x0A]"

definition sch_trigger_id :: "(string \<Rightarrow> string) \<Rightarrow> string \<Rightarrow> string" where
  "sch_trigger_id sha sid = ''schedule_'' @ take 24 (sha sid)"

definition sch_source_key :: "string \<Rightarrow> string" where
  "sch_source_key sid = schedule_source_prefix @ sid"

section \<open>From schedules to triggers and back\<close>

definition trigger_write :: "string \<Rightarrow> int \<Rightarrow> schedule_write \<Rightarrow> agent_ref \<Rightarrow> trigger_spec_write" where
  "trigger_write sid n w ref = \<lparr>tw_name = sw_name w,
     tw_source = (case sw_trigger w of SchAt at tz \<Rightarrow> AtTrigger at tz | SchCron e tz \<Rightarrow> CronTriggerSpec e tz),
     tw_exposure = PrivateSpec, tw_agent_spec = ref,
     tw_instruction = (case sw_action w of AgentJob i \<Rightarrow> i | Reminder m \<Rightarrow> reminder_prefix @ m),
     tw_delivery = \<lparr>ds_mode = (if sw_notify_owner w then DeliverOwner else DeliverNone), ds_interface = None\<rparr>,
     tw_enabled = sw_enabled w, tw_source_key = Some (sch_source_key sid), tw_source_revision = Some n,
     tw_labels = [(''schedule_action'', case sw_action w of AgentJob _ \<Rightarrow> ''agent_job'' | Reminder _ \<Rightarrow> ''reminder''),
       (''schedule_contract'', ''v1'')]\<rparr>"

definition key_text :: "trigger_spec_write revision \<Rightarrow> string" where
  "key_text g = (case tw_source_key (rv_payload g) of None \<Rightarrow> [] | Some k \<Rightarrow> k)"

definition is_schedule :: "trigger_spec_write revision \<Rightarrow> bool" where
  "is_schedule g = (py_prefix schedule_source_prefix (key_text g) \<and>
     (map_of (tw_labels (rv_payload g)) ''schedule_contract'' = Some ''v1'' \<or>
      map_of (tw_labels (rv_payload g)) ''migrated_from'' = Some ''schedule''))"

definition project_source :: "(string \<Rightarrow> bool) \<Rightarrow> (string \<Rightarrow> string \<Rightarrow> bool) \<Rightarrow> trigger_source \<Rightarrow> schedule_error + schedule_trigger" where
  "project_source zone cron s =
     (case (case s of AtTrigger at tz \<Rightarrow> Some (SchAt at tz) | CronTriggerSpec e tz \<Rightarrow> Some (SchCron e tz) | _ \<Rightarrow> None) of
        None \<Rightarrow> Inl (ScheduleValueError ''schedule TriggerSpec has an unsupported source'')
      | Some x \<Rightarrow> (case ScheduleTrigger zone cron x of Inl e \<Rightarrow> Inl (ScheduleInvalid e) | Inr y \<Rightarrow> Inr y))"

definition project_action :: "trigger_spec_write \<Rightarrow> schedule_error + schedule_action" where
  "project_action w =
     (let kind = (case map_of (tw_labels w) ''schedule_action'' of None \<Rightarrow> [] | Some k \<Rightarrow> k);
          prefixed = py_prefix reminder_prefix (tw_instruction w);
          make = (\<lambda>a. case ScheduleAction a of Inl e \<Rightarrow> Inl (ScheduleInvalid e) | Inr y \<Rightarrow> Inr y)
      in if kind = ''reminder'' \<or> kind = [] \<and> prefixed then
           (if \<not> prefixed then Inl (ScheduleValueError ''schedule reminder instruction is malformed'')
            else make (Reminder (drop (length reminder_prefix) (tw_instruction w))))
         else if kind = [] \<or> kind = ''agent_job'' then make (AgentJob (tw_instruction w))
         else Inl (ScheduleValueError ''schedule action kind is unsupported''))"

definition project ::
  "(string \<Rightarrow> bool) \<Rightarrow> (string \<Rightarrow> string \<Rightarrow> bool) \<Rightarrow> trigger_spec_write rev_db \<Rightarrow> trigger_spec_write revision \<Rightarrow>
   schedule_error + schedule" where
  "project zone cron db g =
     (if \<not> py_prefix schedule_source_prefix (key_text g) then Inl (ScheduleValueError ''TriggerSpec is not schedule-owned'')
      else case project_source zone cron (tw_source (rv_payload g)) of Inl e \<Rightarrow> Inl e
       | Inr source \<Rightarrow> (case project_action (rv_payload g) of Inl e \<Rightarrow> Inl e
         | Inr action \<Rightarrow> (case trigger_list_revisions zone cron (rv_tenant_id g) (rv_id g) db of Inl e \<Rightarrow> Inl (ScheduleSpecError e)
           | Inr rs \<Rightarrow> (case Schedule zone cron \<lparr>sw_name = tw_name (rv_payload g), sw_trigger = source, sw_action = action,
                 sw_notify_owner = (ds_mode (tw_delivery (rv_payload g)) = DeliverOwner), sw_enabled = tw_enabled (rv_payload g),
                 sch_id = drop (length schedule_source_prefix) (key_text g), sch_tenant_id = rv_tenant_id g,
                 sch_revision = rv_revision g,
                 sch_created_at = (if rs = [] then rv_created_at g else rv_created_at (last rs)),
                 sch_updated_at = rv_created_at g\<rparr> of Inl e \<Rightarrow> Inl (ScheduleInvalid e) | Inr s \<Rightarrow> Inr s))))"

definition executor_options :: "schedule \<Rightarrow> int \<times> bool" where
  "executor_options s = (1, case sw_trigger s of SchCron _ _ \<Rightarrow> True | SchAt _ _ \<Rightarrow> False)"

section \<open>The service\<close>

record schedule_env =
  sc_specs :: spec_env
  sc_sha :: "string \<Rightarrow> string"
  sc_on_changed :: "trigger_spec_write revision \<Rightarrow> schedule_error option"
  sc_on_deleted :: "string \<Rightarrow> string \<Rightarrow> schedule_error option"

text \<open>What one call draws: the service's clock, the bytes of a new identifier, the stores' clocks.\<close>

record schedule_draws =
  dr_clock :: py_datetime
  dr_uuid :: "nat list"
  dr_seeded_at :: timestamp
  dr_created_at :: timestamp
  dr_updated_at :: timestamp

definition sch_now :: "py_datetime \<Rightarrow> schedule_error + timestamp" where
  "sch_now clock = (case clock of Aware n \<Rightarrow> Inr n
     | Naive _ \<Rightarrow> Inl (ScheduleValueError ''schedule service clock must return an aware datetime''))"

definition specs :: "spec_error + 'a \<Rightarrow> schedule_error + 'a" where
  "specs x = (case x of Inl e \<Rightarrow> Inl (ScheduleSpecError e) | Inr y \<Rightarrow> Inr y)"

definition caught :: "string \<Rightarrow> spec_error + 'a \<Rightarrow> schedule_error + 'a" where
  "caught sid x = (case x of Inr y \<Rightarrow> Inr y
     | Inl (SpecConflictError m) \<Rightarrow> Inl (ScheduleConflictError m)
     | Inl (SpecNotFoundRef _) \<Rightarrow> Inl (ScheduleNotFoundError sid)
     | Inl (SpecNotFoundId _) \<Rightarrow> Inl (ScheduleNotFoundError sid)
     | Inl e \<Rightarrow> Inl (ScheduleSpecError e))"

definition schedule_active :: "schedule_env \<Rightarrow> string \<Rightarrow> string \<Rightarrow> spec_db \<Rightarrow> schedule_error + trigger_spec_write revision option" where
  "schedule_active X t sid db =
     specs (trigger_get_active (se_zone (sc_specs X)) (se_cron (sc_specs X)) t (sch_trigger_id (sc_sha X) sid) (sd_triggers db))"

definition schedule_latest :: "schedule_env \<Rightarrow> string \<Rightarrow> string \<Rightarrow> spec_db \<Rightarrow> schedule_error + trigger_spec_write revision option" where
  "schedule_latest X t sid db =
     specs (trigger_get_latest (se_zone (sc_specs X)) (se_cron (sc_specs X)) t (sch_trigger_id (sc_sha X) sid) (sd_triggers db))"

definition schedule_project :: "schedule_env \<Rightarrow> spec_db \<Rightarrow> trigger_spec_write revision \<Rightarrow> schedule_error + schedule" where
  "schedule_project X db = project (se_zone (sc_specs X)) (se_cron (sc_specs X)) (sd_triggers db)"

fun project_all :: "schedule_env \<Rightarrow> spec_db \<Rightarrow> trigger_spec_write revision list \<Rightarrow> schedule_error + schedule list" where
  "project_all X db [] = Inr []"
| "project_all X db (g # gs) = (if \<not> is_schedule g then project_all X db gs
     else case schedule_project X db g of Inl e \<Rightarrow> Inl e
      | Inr s \<Rightarrow> (case project_all X db gs of Inl e \<Rightarrow> Inl e | Inr ss \<Rightarrow> Inr (s # ss)))"

definition schedule_list :: "schedule_env \<Rightarrow> string \<Rightarrow> spec_db \<Rightarrow> schedule_error + schedule list" where
  "schedule_list X tenant db = (case sch_tenant tenant of Inl e \<Rightarrow> Inl e
     | Inr t \<Rightarrow> (case specs (trigger_list_active (se_zone (sc_specs X)) (se_cron (sc_specs X)) t (sd_triggers db)) of Inl e \<Rightarrow> Inl e
       | Inr gs \<Rightarrow> (case project_all X db gs of Inl e \<Rightarrow> Inl e
         | Inr ss \<Rightarrow> Inr (sort_key (\<lambda>s. (sch_created_at s, sch_id s)) ss))))"

definition schedule_list_tenant_ids :: "spec_db \<Rightarrow> string list" where
  "schedule_list_tenant_ids db = trigger_list_tenant_ids (sd_triggers db)"

definition schedule_get :: "schedule_env \<Rightarrow> nat list \<Rightarrow> string \<Rightarrow> string \<Rightarrow> spec_db \<Rightarrow> schedule_error + schedule option" where
  "schedule_get X uuid tenant i db = (case sch_tenant tenant of Inl e \<Rightarrow> Inl e
     | Inr t \<Rightarrow> (case sch_identifier uuid (Some i) of Inl e \<Rightarrow> Inl e
       | Inr sid \<Rightarrow> (case schedule_active X t sid db of Inl e \<Rightarrow> Inl e
         | Inr None \<Rightarrow> Inr None
         | Inr (Some g) \<Rightarrow>
             if tw_source_key (rv_payload g) \<noteq> Some (sch_source_key sid) \<or> \<not> is_schedule g then Inr None
             else (case schedule_project X db g of Inl e \<Rightarrow> Inl e | Inr s \<Rightarrow> Inr (Some s)))))"

text \<open>The resolver the process installs: the active \<open>routine\<close> agent of the tenant, seeding the defaults if needed.\<close>

definition resolve_agent_spec :: "spec_env \<Rightarrow> timestamp \<Rightarrow> string \<Rightarrow> string \<Rightarrow> (spec_db, schedule_error, agent_ref) oper" where
  "resolve_agent_spec E now t spec_id db = (case agent_get_active_ref t spec_id (sd_agents db) of Inl e \<Rightarrow> raises (ScheduleSpecError e) db
     | Inr (Some ref) \<Rightarrow> ok ref db
     | Inr None \<Rightarrow> (case seed_default_agent_spec_refs (se_agent_digest E) now t ''bootstrap'' (sd_agents db) of
         (Inl e, a) \<Rightarrow> raises (ScheduleSpecError e) (db\<lparr>sd_agents := a\<rparr>)
       | (Inr refs, a) \<Rightarrow> (case map_of refs spec_id of
           None \<Rightarrow> raises (ScheduleRuntimeError (''active '' @ spec_id @ '' AgentSpec is unavailable'')) (db\<lparr>sd_agents := a\<rparr>)
         | Some ref \<Rightarrow> ok ref (db\<lparr>sd_agents := a\<rparr>))))"

definition clamp_missed :: "py_datetime \<Rightarrow> schedule_write \<Rightarrow> schedule_error + schedule_write" where
  "clamp_missed clock w = (case sw_trigger w of
       SchAt (Aware at) _ \<Rightarrow>
         if sw_enabled w then
           (case sch_now clock of Inl e \<Rightarrow> Inl e | Inr now \<Rightarrow> Inr (if at \<le> now then w\<lparr>sw_enabled := False\<rparr> else w))
         else Inr w
     | _ \<Rightarrow> Inr w)"

text \<open>
  The revision a save starts from: the number of the new one, the expectation for the switch, and the
  agent, which a first revision resolves and a later one keeps.
\<close>

definition save_base ::
  "schedule_env \<Rightarrow> schedule_draws \<Rightarrow> string \<Rightarrow> string \<Rightarrow> int option \<Rightarrow>
   trigger_spec_write revision option \<Rightarrow> trigger_spec_write revision option \<Rightarrow>
   (spec_db, schedule_error, int \<times> int option \<times> agent_ref) oper" where
  "save_base X d t sid expected latest active db =
     (case active of
        None \<Rightarrow> (case latest of
            Some l \<Rightarrow> raises (ScheduleConflictError (''schedule is inactive at revision '' @ str_int (rv_revision l))) db
          | None \<Rightarrow> (case expected of
              Some n \<Rightarrow> raises (ScheduleConflictError (''schedule does not exist at revision '' @ str_int n)) db
            | None \<Rightarrow> (case resolve_agent_spec (sc_specs X) (dr_seeded_at d) t ''routine'' db of
                (Inl e, db') \<Rightarrow> raises e db' | (Inr ref, db') \<Rightarrow> ok (1, None, ref) db')))
      | Some a \<Rightarrow> (case expected of
            None \<Rightarrow> raises (ScheduleConflictError ''expected_revision is required when updating'') db
          | Some n \<Rightarrow>
              if rv_revision a \<noteq> n
              then raises (ScheduleConflictError (''expected revision '' @ str_int n @ '', found '' @ str_int (rv_revision a))) db
              else if map_option rv_revision latest \<noteq> Some (rv_revision a)
              then raises (ScheduleConflictError ''schedule changed outside the schedule facade'') db
              else ok (rv_revision a + 1, Some (rv_revision a), tw_agent_spec (rv_payload a)) db))"

definition save_create ::
  "schedule_env \<Rightarrow> schedule_draws \<Rightarrow> string \<Rightarrow> string \<Rightarrow> string \<Rightarrow> schedule_write \<Rightarrow> int \<Rightarrow> agent_ref \<Rightarrow> int option \<Rightarrow> int option \<Rightarrow>
   (spec_db, schedule_error, string \<times> string \<times> string \<times> trigger_spec_write revision \<times> int option) oper" where
  "save_create X d t sid actor v n ref expected_latest expected_active =
     checked (specs (model_error (TriggerSpecWrite (se_zone (sc_specs X)) (se_cron (sc_specs X)) (trigger_write sid n v ref))))
       (\<lambda>spec_write db.
          (case trigger_save (se_zone (sc_specs X)) (se_cron (sc_specs X)) (se_trigger_digest (sc_specs X)) [] (dr_created_at d)
              (sd_agents db) t actor spec_write (Some (sch_trigger_id (sc_sha X) sid)) expected_latest (sd_triggers db) of
             (r, g) \<Rightarrow> ((case caught sid r of Inl e \<Rightarrow> Inl e | Inr created \<Rightarrow> Inr (t, sid, actor, created, expected_active)),
               db\<lparr>sd_triggers := g\<rparr>)))"

text \<open>
  The first half of \<open>save\<close>, up to the stored revision. It gives the tenant, the schedule, the actor, the
  new revision and the expectation for its activation.
\<close>

definition save_stored ::
  "schedule_env \<Rightarrow> schedule_draws \<Rightarrow> string \<Rightarrow> schedule_write \<Rightarrow> string option \<Rightarrow> int option \<Rightarrow> string \<Rightarrow>
   (spec_db, schedule_error, string \<times> string \<times> string \<times> trigger_spec_write revision \<times> int option) oper" where
  "save_stored X d tenant w schedule_id expected actor_id =
     checked (sch_tenant tenant) (\<lambda>t. checked (sch_identifier (dr_uuid d) schedule_id) (\<lambda>sid.
     checked (sch_actor actor_id) (\<lambda>actor. checked (clamp_missed (dr_clock d) w) (\<lambda>v db.
     checked (schedule_latest X t sid db) (\<lambda>latest. checked (schedule_active X t sid db) (\<lambda>active db.
       if (case latest of None \<Rightarrow> False | Some l \<Rightarrow> tw_source_key (rv_payload l) \<noteq> Some (sch_source_key sid))
       then raises (ScheduleConflictError ''schedule identifier collides with another trigger'') db
       else (case save_base X d t sid expected latest active db of
          (Inl e, db1) \<Rightarrow> raises e db1
        | (Inr (n, expected_active, ref), db1) \<Rightarrow>
            save_create X d t sid actor v n ref (map_option rv_revision latest) expected_active db1))) db))))"

definition schedule_save ::
  "schedule_env \<Rightarrow> schedule_draws \<Rightarrow> string \<Rightarrow> schedule_write \<Rightarrow> string option \<Rightarrow> int option \<Rightarrow> string \<Rightarrow>
   (spec_db, schedule_error, schedule) oper" where
  "schedule_save X d tenant w schedule_id expected actor_id db =
     (case save_stored X d tenant w schedule_id expected actor_id db of
        (Inl e, db1) \<Rightarrow> raises e db1
      | (Inr (t, sid, actor, created, expected_active), db1) \<Rightarrow>
          (case trigger_service_activate (se_zone (sc_specs X)) (se_cron (sc_specs X)) (se_trigger_check (sc_specs X))
              (dr_updated_at d) t actor (sch_trigger_id (sc_sha X) sid) (rv_revision created) expected_active (sd_triggers db1) of
             (r, g) \<Rightarrow> checked (caught sid r) (\<lambda>activated db2.
               case sc_on_changed X activated of Some e \<Rightarrow> raises e db2
               | None \<Rightarrow> (schedule_project X db2 activated, db2)) (db1\<lparr>sd_triggers := g\<rparr>)))"

definition schedule_delete ::
  "schedule_env \<Rightarrow> schedule_draws \<Rightarrow> string \<Rightarrow> string \<Rightarrow> int \<Rightarrow> string \<Rightarrow> (spec_db, schedule_error, unit) oper" where
  "schedule_delete X d tenant schedule_id expected actor_id =
     checked (sch_tenant tenant) (\<lambda>t. checked (sch_identifier (dr_uuid d) (Some schedule_id)) (\<lambda>sid.
     checked (sch_actor actor_id) (\<lambda>_ db. checked (schedule_active X t sid db) (\<lambda>active db.
       case active of None \<Rightarrow> raises (ScheduleNotFoundError sid) db
       | Some a \<Rightarrow>
           if tw_source_key (rv_payload a) \<noteq> Some (sch_source_key sid) \<or> \<not> is_schedule a
           then raises (ScheduleNotFoundError sid) db
           else if rv_revision a \<noteq> expected
           then raises (ScheduleConflictError (''expected revision '' @ str_int expected @ '', found '' @ str_int (rv_revision a))) db
           else (case trigger_deactivate t (sch_trigger_id (sc_sha X) sid) expected (sd_triggers db) of
             (r, g) \<Rightarrow> checked (caught sid r) (\<lambda>_ db2.
               case sc_on_deleted X t (sch_trigger_id (sc_sha X) sid) of Some e \<Rightarrow> raises e db2 | None \<Rightarrow> ok () db2)
               (db\<lparr>sd_triggers := g\<rparr>))) db)))"

section \<open>What the operations keep\<close>

abbreviation trigger_rows_of :: "schedule_env \<Rightarrow> trigger_spec_write row_class" where
  "trigger_rows_of X \<equiv> trigger_row (se_zone (sc_specs X)) (se_cron (sc_specs X))"

definition current :: "trigger_spec_write rev_db \<Rightarrow> string \<Rightarrow> string \<Rightarrow> bool" where
  "current g t i = (get_active_number t i g = map_option rv_revision (latest_row g t i))"

lemma active_number_row:
  assumes "rev_inv mk g" "get_active_number t i g = Some n"
  obtains r where "row_at g t i n = Some r" "rv_revision r = n" "mk r = Inr r"
proof -
  from assms(2) obtain a where a: "active_row g t i = Some a" "ar_revision a = n" by (auto simp: get_active_number_def)
  with rev_invD(4) [OF assms(1)] active_row_mem [OF a(1)] obtain r where r: "row_at g t i n = Some r" by fastforce
  with row_at_mem [OF r] rev_invD(1) [OF assms(1)] that show thesis by blast
qed

lemma schedule_reads:
  assumes "spec_inv (sc_specs X) db"
  shows "schedule_latest X t sid db = Inr (latest_row (sd_triggers db) t (sch_trigger_id (sc_sha X) sid))"
    "schedule_active X t sid db = Inr (Option.bind (get_active_number t (sch_trigger_id (sc_sha X) sid) (sd_triggers db))
       (row_at (sd_triggers db) t (sch_trigger_id (sc_sha X) sid)))"
proof -
  let ?i = "sch_trigger_id (sc_sha X) sid" and ?g = "sd_triggers db"
  note inv = spec_invD(2) [OF assms]
  have "latest_row ?g t ?i = Some r \<Longrightarrow> r \<in> set (revisions ?g)" for r
    unfolding latest_row_def by (drule top_by_mem) (rule subsetD [OF rows_subset])
  then show "schedule_latest X t sid db = Inr (latest_row ?g t ?i)"
    unfolding schedule_latest_def trigger_get_latest_def get_latest_row_def using read_opt_inv [OF inv] by (simp add: specs_def)
  show "schedule_active X t sid db = Inr (Option.bind (get_active_number t ?i ?g) (row_at ?g t ?i))"
  proof (cases "active_row ?g t ?i")
    case (Some a)
    have "read_opt (trigger_rows_of X) (row_at ?g t ?i (ar_revision a)) = Inr (row_at ?g t ?i (ar_revision a))"
      by (rule read_opt_inv [OF inv]) (simp add: row_at_mem)
    with Some show ?thesis by (simp add: schedule_active_def trigger_get_active_def get_active_row_def get_active_number_def specs_def)
  qed (simp add: schedule_active_def trigger_get_active_def get_active_row_def get_active_number_def specs_def)
qed

lemma spec_inv_agents:
  "spec_inv E db \<Longrightarrow> evolves agent_row (sd_agents db) a \<Longrightarrow> spec_inv E (db\<lparr>sd_agents := a\<rparr>)"
  using target_ok_mono by (fastforce simp: spec_inv_def evolves_inv)

lemma spec_inv_triggers:
  "spec_inv E db \<Longrightarrow> rev_inv (trigger_row (se_zone E) (se_cron E)) g \<Longrightarrow>
   (\<And>r. r \<in> set (revisions g) \<Longrightarrow> target_ok (sd_agents db) r) \<Longrightarrow> spec_inv E (db\<lparr>sd_triggers := g\<rparr>)"
  by (simp add: spec_inv_def)

lemma resolve_keeps:
  assumes "spec_inv E db" "resolve_agent_spec E now t s db = (x, db')"
  shows "spec_inv E db' \<and> sd_triggers db' = sd_triggers db"
proof (cases "agent_get_active_ref t s (sd_agents db) = Inr None")
  case False
  with assms show ?thesis by (auto simp: resolve_agent_spec_def split: sum.splits option.splits)
next
  case True
  obtain y a where y: "seed_defaults (se_agent_digest E) now t ''bootstrap'' (sd_agents db) = (y, a)" by fastforce
  have "db' = db\<lparr>sd_agents := a\<rparr>" using assms(2) True y
    by (auto simp: resolve_agent_spec_def seed_default_agent_spec_refs_def split: sum.splits option.splits)
  with spec_inv_agents [OF assms(1) seed_defaults_keeps [OF spec_invD(1) [OF assms(1)] y]] show ?thesis by simp
qed

lemma save_base_law:
  assumes "spec_inv (sc_specs X) db" "save_base X d t sid expected latest active db = (x, db')"
  shows "spec_inv (sc_specs X) db' \<and> sd_triggers db' = sd_triggers db"
    and "x = Inr (n, ea, ref) \<Longrightarrow> map_option rv_revision active = ea \<and> map_option rv_revision latest = ea \<and> expected = ea"
  using assms(2) resolve_keeps [OF assms(1)] assms(1)
  by (auto simp: save_base_def split: option.splits sum.splits prod.splits if_splits)

text \<open>A revision that was stored: what was checked before, and the transaction that stored it.\<close>

definition stored_from ::
  "schedule_env \<Rightarrow> schedule_draws \<Rightarrow> string \<Rightarrow> schedule_write \<Rightarrow> string option \<Rightarrow> int option \<Rightarrow> string \<Rightarrow> spec_db \<Rightarrow>
   string \<Rightarrow> string \<Rightarrow> string \<Rightarrow> trigger_spec_write revision \<Rightarrow> spec_db \<Rightarrow> bool" where
  "stored_from X d tenant w schedule_id expected actor_id db t sid actor created db1 =
     (sch_tenant tenant = Inr t \<and> sch_identifier (dr_uuid d) schedule_id = Inr sid \<and> sch_actor actor_id = Inr actor \<and>
      current (sd_triggers db) t (sch_trigger_id (sc_sha X) sid) \<and>
      get_active_number t (sch_trigger_id (sc_sha X) sid) (sd_triggers db) = expected \<and>
      (\<exists>v n ref w' agents. clamp_missed (dr_clock d) w = Inr v \<and> rev_inv agent_row agents \<and>
        (\<forall>r \<in> set (revisions (sd_triggers db)). target_ok agents r) \<and> sd_agents db1 = agents \<and>
        TriggerSpecWrite (se_zone (sc_specs X)) (se_cron (sc_specs X)) (trigger_write sid n v ref) = Inr w' \<and>
        trigger_create_revision (se_zone (sc_specs X)) (se_cron (sc_specs X)) (se_trigger_digest (sc_specs X)) (dr_created_at d)
          agents t (py_strip (sch_trigger_id (sc_sha X) sid)) w' expected actor (sd_triggers db) = (Inr created, sd_triggers db1)))"

lemma caught_Inr [simp]: "caught sid x = Inr y \<longleftrightarrow> x = Inr y"
  by (auto simp: caught_def split: sum.splits spec_error.splits)

lemma caught_ok [simp]: "caught sid (Inr y) = Inr y"
  by simp

lemma specs_Inr [simp]: "specs x = Inr y \<longleftrightarrow> x = Inr y"
  by (auto simp: specs_def split: sum.splits)

lemma sch_id_given: "id_or_fresh [] (Some (sch_trigger_id sha sid)) = py_strip (sch_trigger_id sha sid)"
  by (simp add: id_or_fresh_def Let_def)

lemma trigger_create_error:
  assumes "trigger_create_revision zone cron dg now agents t i w expected by g = (Inl e, g')"
  shows "g' = g"
  using assms by (auto simp: trigger_create_revision_def checked_def create_revision_row_def insert_revision_def
      split: sum.splits option.splits if_splits)

lemma save_create_law:
  assumes "save_create X d t sid actor v n ref expected ea db = (x, db1)"
  shows "(\<exists>e. x = Inl e \<and> db1 = db) \<or>
    (\<exists>w' created. x = Inr (t, sid, actor, created, ea) \<and>
       TriggerSpecWrite (se_zone (sc_specs X)) (se_cron (sc_specs X)) (trigger_write sid n v ref) = Inr w' \<and>
       trigger_create_revision (se_zone (sc_specs X)) (se_cron (sc_specs X)) (se_trigger_digest (sc_specs X)) (dr_created_at d)
         (sd_agents db) t (py_strip (sch_trigger_id (sc_sha X) sid)) w' expected actor (sd_triggers db) = (Inr created, sd_triggers db1) \<and>
       sd_agents db1 = sd_agents db)"
  using assms unfolding save_create_def
proof (cases rule: checked_cases)
  case (good w')
  obtain r g where c: "trigger_create_revision (se_zone (sc_specs X)) (se_cron (sc_specs X)) (se_trigger_digest (sc_specs X)) (dr_created_at d)
      (sd_agents db) t (py_strip (sch_trigger_id (sc_sha X) sid)) w' expected actor (sd_triggers db) = (r, g)" by fastforce
  have x: "x = (case caught sid r of Inl e \<Rightarrow> Inl e | Inr created \<Rightarrow> Inr (t, sid, actor, created, ea))" "db1 = db\<lparr>sd_triggers := g\<rparr>"
    using good(2) c by (simp_all add: trigger_save_def sch_id_given)
  show ?thesis
  proof (cases r)
    case (Inl e)
    then have "db1 = db" using c x(2) trigger_create_error by fastforce
    moreover obtain e' where "caught sid r = Inl e'" using Inl by (cases "caught sid r") simp_all
    ultimately show ?thesis using x(1) by simp
  next
    case (Inr created)
    with x c good(1) show ?thesis by simp
  qed
qed simp

lemma save_stored_law:
  assumes inv: "spec_inv (sc_specs X) db"
    and s: "save_stored X d tenant w schedule_id expected actor_id db = (x, db1)"
  shows "case x of Inl e \<Rightarrow> spec_inv (sc_specs X) db1 \<and> sd_triggers db1 = sd_triggers db
    | Inr (t, sid, actor, created, ea) \<Rightarrow> ea = expected \<and> stored_from X d tenant w schedule_id expected actor_id db t sid actor created db1"
proof (cases "\<exists>t sid actor v. sch_tenant tenant = Inr t \<and> sch_identifier (dr_uuid d) schedule_id = Inr sid \<and> sch_actor actor_id = Inr actor \<and>
    clamp_missed (dr_clock d) w = Inr v")
  case False
  with s inv show ?thesis by (auto simp: save_stored_def checked_def split: sum.splits)
next
  case True
  then obtain t sid actor v where a: "sch_tenant tenant = Inr t" "sch_identifier (dr_uuid d) schedule_id = Inr sid" "sch_actor actor_id = Inr actor"
    "clamp_missed (dr_clock d) w = Inr v" by blast
  let ?g = "sd_triggers db" and ?i = "sch_trigger_id (sc_sha X) sid"
  let ?latest = "latest_row ?g t ?i" and ?active = "Option.bind (get_active_number t ?i ?g) (row_at ?g t ?i)"
  obtain y db2 where y: "save_base X d t sid expected ?latest ?active db = (y, db2)" by fastforce
  note base = save_base_law(1) [OF inv y]
  note law = save_base_law(2) [OF inv y]
  note run = s [unfolded save_stored_def a checked_simps schedule_reads [OF inv] y]
  show ?thesis
  proof (cases "case ?latest of None \<Rightarrow> False | Some l \<Rightarrow> tw_source_key (rv_payload l) \<noteq> Some (sch_source_key sid)")
    case True
    with run inv show ?thesis by auto
  next
    case good: False
    show ?thesis
    proof (cases y)
      case (Inl e)
      with run good base show ?thesis by auto
    next
      case (Inr z)
      obtain n ea ref where z: "z = (n, ea, ref)" by (cases z)
      note law = law [OF Inr [unfolded z]]
      have act: "ea = get_active_number t ?i ?g"
      proof (cases "get_active_number t ?i ?g")
        case (Some m)
        obtain r where "row_at ?g t ?i m = Some r" "rv_revision r = m" by (rule active_number_row [OF spec_invD(2) [OF inv] Some])
        with Some law show ?thesis by simp
      qed (use law in simp)
      have run': "save_create X d t sid actor v n ref expected ea db2 = (x, db1)" using run good Inr z law by auto
      from save_create_law [OF run'] show ?thesis
      proof (elim disjE exE conjE)
        fix w' created
        assume "x = Inr (t, sid, actor, created, ea)" "TriggerSpecWrite (se_zone (sc_specs X)) (se_cron (sc_specs X)) (trigger_write sid n v ref) = Inr w'"
          "trigger_create_revision (se_zone (sc_specs X)) (se_cron (sc_specs X)) (se_trigger_digest (sc_specs X)) (dr_created_at d)
             (sd_agents db2) t (py_strip ?i) w' expected actor (sd_triggers db2) = (Inr created, sd_triggers db1)" "sd_agents db1 = sd_agents db2"
        with a law act base spec_invD [of "sc_specs X" db2] show ?thesis
          by (auto simp: stored_from_def current_def)
      qed (use base in simp)
    qed
  qed
qed

lemma sch_tenantD: "sch_tenant x = Inr t \<Longrightarrow> py_strip t = t \<and> t \<noteq> [] \<and> length t \<le> 200 \<and> t = py_strip x"
  by (auto simp: sch_tenant_def Let_def split: if_splits)

lemma sch_trigger_id_strip:
  assumes "hex_digest (sha sid)"
  shows "py_strip (sch_trigger_id sha sid) = sch_trigger_id sha sid"
proof -
  have "list_all (\<lambda>c. \<not> py_isspace c) (take 24 (sha sid))"
    using assms hex_not_space by (fastforce simp: hex_digest_def list_all_iff dest!: in_set_takeD)
  moreover have "list_all (\<lambda>c. \<not> py_isspace c) ''schedule_''" by code_simp
  ultimately show ?thesis unfolding sch_trigger_id_def by (intro strip_no_space) simp
qed

lemma create_effect:
  assumes inv: "spec_inv E db" "rev_inv agent_row agents" "\<forall>r \<in> set (revisions (sd_triggers db)). target_ok agents r"
    and w: "TriggerSpecWrite (se_zone E) (se_cron E) w0 = Inr w" "py_strip t = t" "py_strip i = i"
    and c: "trigger_create_revision (se_zone E) (se_cron E) dg now agents t i w expected by (sd_triggers db) = (Inr s, g)"
  shows "rev_inv (trigger_row (se_zone E) (se_cron E)) g \<and> (\<forall>r \<in> set (revisions g). target_ok agents r) \<and>
    active_refs g = active_refs (sd_triggers db) \<and> latest_row g t i = Some s \<and> row_at g t i (rv_revision s) = Some s \<and>
    (\<forall>t' i'. (t', i') \<noteq> (t, i) \<longrightarrow> rows g t' i' = rows (sd_triggers db) t' i') \<and>
    (g = sd_triggers db \<and> rv_content_digest s = dg w \<or>
     rv_payload s = w \<and> rows g t i = rows (sd_triggers db) t i @ [s])"
proof -
  let ?mk = "trigger_row (se_zone E) (se_cron E)" and ?g = "sd_triggers db"
  have n: "strip_trigger w = w" using constructD [OF w(1) [unfolded TriggerSpecWrite_def]] by simp
  have i: "rev_inv ?mk g" using trigger_create_keeps [OF spec_invD(2) [OF inv(1)] n c] by (rule evolves_inv)
  have tgt: "\<forall>r \<in> set (revisions g). target_ok agents r" by (rule trigger_create_target [OF inv(2) spec_invD(2) [OF inv(1)] n c inv(3)])
  obtain y where "create_revision_row ''TriggerSpec'' ?mk t i w (dg w) now expected by ?g = (Inr s, g)"
    using c unfolding trigger_create_revision_def by (cases rule: checked_cases) auto
  from trigger_rows.append_row_law [OF spec_invD(2) [OF inv(1)] n this]
  have "g = ?g \<and> latest_row ?g t i = Some s \<and> rv_content_digest s = dg w \<or>
      g = ?g\<lparr>revisions := revisions ?g @ [s]\<rparr> \<and> rv_payload s = w \<and> rv_tenant_id s = t \<and> rv_id s = i"
    using w(2,3) by (auto simp: appended_def)
  moreover from this have "rows g t i \<noteq> [] \<and> last (rows g t i) = s" using latest_row_inv [OF i] by (auto simp: rows_append split: if_splits)
  ultimately have l: "latest_row g t i = Some s" using latest_row_inv [OF i] by simp
  then have m: "s \<in> set (rows g t i)" unfolding latest_row_def by (rule top_by_mem)
  have "row_at g t i (rv_revision s) = Some s"
  proof -
    obtain r where r: "sel (\<lambda>r. rv_revision r = rv_revision s) (rows g t i) = Some r"
      using m sel_cong_ex [of "rows g t i" "\<lambda>r. rv_revision r = rv_revision s"] by blast
    with sel_SomeD [OF r] m numbered_inj [OF rev_invD(2) [OF i]] show ?thesis unfolding row_at_rows by metis
  qed
  with i tgt l show ?thesis
    using \<open>g = ?g \<and> latest_row ?g t i = Some s \<and> rv_content_digest s = dg w \<or> _\<close> by (auto simp: rows_append)
qed

lemma stored_effect:
  assumes "spec_inv (sc_specs X) db" "hex_digest (sc_sha X sid)"
    and "stored_from X d tenant w schedule_id expected actor_id db t sid actor created db1"
  defines "i \<equiv> sch_trigger_id (sc_sha X) sid"
  shows "spec_inv (sc_specs X) db1" "active_refs (sd_triggers db1) = active_refs (sd_triggers db)"
    "latest_row (sd_triggers db1) t i = Some created" "row_at (sd_triggers db1) t i (rv_revision created) = Some created"
    "(t', i') \<noteq> (t, i) \<Longrightarrow> rows (sd_triggers db1) t' i' = rows (sd_triggers db) t' i'"
    "\<exists>v n ref w'. clamp_missed (dr_clock d) w = Inr v \<and> TriggerSpecWrite (se_zone (sc_specs X)) (se_cron (sc_specs X)) (trigger_write sid n v ref) = Inr w' \<and>
       (sd_triggers db1 = sd_triggers db \<and> rv_content_digest created = se_trigger_digest (sc_specs X) w' \<or>
        rv_payload created = w' \<and> rows (sd_triggers db1) t i = rows (sd_triggers db) t i @ [created])"
proof -
  have s: "py_strip t = t" "py_strip i = i"
    using assms(3) sch_tenantD sch_trigger_id_strip [of "sc_sha X", OF assms(2)] unfolding i_def by (auto simp: stored_from_def)
  obtain v n ref w' where v: "clamp_missed (dr_clock d) w = Inr v" and a: "rev_inv agent_row (sd_agents db1)"
      "\<forall>r \<in> set (revisions (sd_triggers db)). target_ok (sd_agents db1) r"
    and w': "TriggerSpecWrite (se_zone (sc_specs X)) (se_cron (sc_specs X)) (trigger_write sid n v ref) = Inr w'"
    and c: "trigger_create_revision (se_zone (sc_specs X)) (se_cron (sc_specs X)) (se_trigger_digest (sc_specs X)) (dr_created_at d)
          (sd_agents db1) t i w' expected actor (sd_triggers db) = (Inr created, sd_triggers db1)"
    using assms(3) s(2) unfolding stored_from_def i_def by auto
  note e = create_effect [OF assms(1) a w' s c]
  show "spec_inv (sc_specs X) db1" using a e by (simp add: spec_inv_def)
  show "active_refs (sd_triggers db1) = active_refs (sd_triggers db)" "latest_row (sd_triggers db1) t i = Some created"
    "row_at (sd_triggers db1) t i (rv_revision created) = Some created"
    "(t', i') \<noteq> (t, i) \<Longrightarrow> rows (sd_triggers db1) t' i' = rows (sd_triggers db) t' i'" using e by blast+
  show "\<exists>v n ref w'. clamp_missed (dr_clock d) w = Inr v \<and> TriggerSpecWrite (se_zone (sc_specs X)) (se_cron (sc_specs X)) (trigger_write sid n v ref) = Inr w' \<and>
       (sd_triggers db1 = sd_triggers db \<and> rv_content_digest created = se_trigger_digest (sc_specs X) w' \<or>
        rv_payload created = w' \<and> rows (sd_triggers db1) t i = rows (sd_triggers db) t i @ [created])"
    using e v w' by blast
qed

lemma activate_effect:
  assumes "spec_inv E db" "trigger_service_activate (se_zone E) (se_cron E) va now t actor i n ea (sd_triggers db) = (x, g)"
  shows "spec_inv E (db\<lparr>sd_triggers := g\<rparr>)" "revisions g = revisions (sd_triggers db)"
    "(t', i') \<noteq> (t, i) \<Longrightarrow> active_row g t' i' = active_row (sd_triggers db) t' i'"
    "x = Inr s \<Longrightarrow> row_at (sd_triggers db) t i n = Some s \<and> get_active_number t i g = Some n"
    "x = Inl e \<Longrightarrow> g = sd_triggers db"
proof -
  let ?mk = "trigger_row (se_zone E) (se_cron E)"
  note inv = spec_invD(2) [OF assms(1)]
  have row: "row_at (sd_triggers db) t i n = Some r \<Longrightarrow> ?mk r = Inr y \<Longrightarrow> y = r" for r y
    using rev_invD(1) [OF inv] row_at_mem by fastforce
  have "(\<exists>e. x = Inl e \<and> g = sd_triggers db) \<or> trigger_activate (se_zone E) (se_cron E) t i n ea now actor (sd_triggers db) = (x, g)"
    using assms(2) by (auto simp: trigger_service_activate_def split: sum.splits option.splits)
  then have law: "(\<exists>e. x = Inl e \<and> g = sd_triggers db) \<or>
    (\<exists>r. x = Inr r \<and> row_at (sd_triggers db) t i n = Some r \<and> (get_active_number t i g = Some n \<and> g = sd_triggers db \<or>
      switched (sd_triggers db) t i (Some n) g \<and> rev_inv ?mk g))"
    using activate_law [OF inv, of "''TriggerSpec''" "SpecNotFoundId i" ?mk t i n ea now actor x g] row unfolding trigger_activate_def by blast
  then show "revisions g = revisions (sd_triggers db)" by (auto simp: switched_def)
  with law spec_inv_triggers [OF assms(1)] inv spec_invD(3) [OF assms(1)] show "spec_inv E (db\<lparr>sd_triggers := g\<rparr>)" by metis
  show "(t', i') \<noteq> (t, i) \<Longrightarrow> active_row g t' i' = active_row (sd_triggers db) t' i'" using law by (auto simp: switched_def)
  show "x = Inr s \<Longrightarrow> row_at (sd_triggers db) t i n = Some s \<and> get_active_number t i g = Some n" "x = Inl e \<Longrightarrow> g = sd_triggers db"
    using law by (auto simp: switched_def)
qed

definition hex_sha :: "schedule_env \<Rightarrow> bool" where
  "hex_sha X = (\<forall>s. hex_digest (sc_sha X s))"

text \<open>A save: everything it did, given the state before.\<close>

lemma save_cases:
  assumes inv: "spec_inv (sc_specs X) db" and hex: "hex_sha X"
    and s: "schedule_save X d tenant w schedule_id expected actor_id db = (x, db')"
  obtains (unstored) e where "x = Inl e" "spec_inv (sc_specs X) db'" "sd_triggers db' = sd_triggers db"
  | (stored) t sid actor created db1 y g where
      "stored_from X d tenant w schedule_id expected actor_id db t sid actor created db1" "spec_inv (sc_specs X) db1"
      "trigger_service_activate (se_zone (sc_specs X)) (se_cron (sc_specs X)) (se_trigger_check (sc_specs X))
         (dr_updated_at d) t actor (sch_trigger_id (sc_sha X) sid) (rv_revision created) expected (sd_triggers db1) = (y, g)"
      "db' = db1\<lparr>sd_triggers := g\<rparr>" "\<And>z. x = Inr z \<Longrightarrow> \<exists>a. y = Inr a \<and> schedule_project X db' a = Inr z"
proof -
  obtain r db1 where r: "save_stored X d tenant w schedule_id expected actor_id db = (r, db1)" by fastforce
  note law = save_stored_law [OF inv r]
  show thesis
  proof (cases r)
    case (Inl e)
    then have "x = Inl e" "db' = db1" using s r by (auto simp: schedule_save_def)
    with law Inl unstored show thesis by simp
  next
    case (Inr q)
    obtain t sid actor created ea where q: "q = (t, sid, actor, created, ea)" by (cases q)
    have f: "ea = expected" "stored_from X d tenant w schedule_id expected actor_id db t sid actor created db1" using law Inr q by simp_all
    obtain y g where y: "trigger_service_activate (se_zone (sc_specs X)) (se_cron (sc_specs X)) (se_trigger_check (sc_specs X))
         (dr_updated_at d) t actor (sch_trigger_id (sc_sha X) sid) (rv_revision created) expected (sd_triggers db1) = (y, g)" by fastforce
    have "checked (caught sid y) (\<lambda>activated db2. case sc_on_changed X activated of Some e \<Rightarrow> raises e db2
        | None \<Rightarrow> (schedule_project X db2 activated, db2)) (db1\<lparr>sd_triggers := g\<rparr>) = (x, db')"
      using s y by (simp add: schedule_save_def r Inr q f(1))
    then have "db' = db1\<lparr>sd_triggers := g\<rparr>" "\<And>z. x = Inr z \<Longrightarrow> \<exists>a. y = Inr a \<and> schedule_project X db' a = Inr z"
      by (auto simp: checked_def split: sum.splits option.splits)
    with stored [OF f(2) stored_effect(1) [OF inv _ f(2)] y] hex show thesis by (simp add: hex_sha_def)
  qed
qed

lemma delete_law:
  assumes inv: "spec_inv (sc_specs X) db" and s: "schedule_delete X d tenant schedule_id expected actor_id db = (x, db')"
  shows "(\<exists>e. x = Inl e) \<and> db' = db \<or>
    (\<exists>t sid g. sch_tenant tenant = Inr t \<and> sch_identifier (dr_uuid d) (Some schedule_id) = Inr sid \<and> db' = db\<lparr>sd_triggers := g\<rparr> \<and>
       get_active_number t (sch_trigger_id (sc_sha X) sid) (sd_triggers db) = Some expected \<and>
       switched (sd_triggers db) t (sch_trigger_id (sc_sha X) sid) None g \<and> rev_inv (trigger_rows_of X) g)"
proof -
  have "(\<exists>e. x = Inl e) \<and> db' = db \<or> (\<exists>t sid g r. sch_tenant tenant = Inr t \<and> sch_identifier (dr_uuid d) (Some schedule_id) = Inr sid \<and>
      deactivate_row ''TriggerSpec'' t (sch_trigger_id (sc_sha X) sid) expected (sd_triggers db) = (r, g) \<and> db' = db\<lparr>sd_triggers := g\<rparr> \<and> (\<forall>e. r = Inl e \<longrightarrow> (\<exists>e. x = Inl e)))"
    using s by (auto simp: schedule_delete_def checked_def trigger_deactivate_def split: sum.splits option.splits if_splits prod.splits)
  then show ?thesis
  proof (elim disjE exE conjE)
    fix t sid g r
    assume a: "sch_tenant tenant = Inr t" "sch_identifier (dr_uuid d) (Some schedule_id) = Inr sid"
      and r: "deactivate_row ''TriggerSpec'' t (sch_trigger_id (sc_sha X) sid) expected (sd_triggers db) = (r, g)"
        "db' = db\<lparr>sd_triggers := g\<rparr>" "\<forall>e. r = Inl e \<longrightarrow> (\<exists>e. x = Inl e)"
    from deactivate_law [OF spec_invD(2) [OF inv] r(1)] show ?thesis using a r(2,3) by fastforce
  qed blast
qed

section \<open>The facade driven by calls\<close>

text \<open>
  Schedule operations, a save whose process stops after storing the revision, and the calls other clients
  make on the specifications.
\<close>

datatype facade_call =
    SpecCall spec_call
  | ScheduleSave schedule_draws string schedule_write "string option" "int option" string
  | ScheduleStop schedule_draws string schedule_write "string option" "int option" string
  | ScheduleDelete schedule_draws string string int string

fun facade_exec :: "schedule_env \<Rightarrow> facade_call \<Rightarrow> (spec_db, schedule_error, unit) oper" where
  "facade_exec X (SpecCall c) db = (case spec_exec (sc_specs X) c db of (r, db') \<Rightarrow> (specs r, db'))"
| "facade_exec X (ScheduleSave d tenant w i expected actor) db =
     (case ScheduleWrite (se_zone (sc_specs X)) (se_cron (sc_specs X)) w of Inl e \<Rightarrow> raises (ScheduleInvalid e) db
      | Inr v \<Rightarrow> (case schedule_save X d tenant v i expected actor db of
          (Inl e, db') \<Rightarrow> raises e db' | (Inr _, db') \<Rightarrow> ok () db'))"
| "facade_exec X (ScheduleStop d tenant w i expected actor) db =
     (case ScheduleWrite (se_zone (sc_specs X)) (se_cron (sc_specs X)) w of Inl e \<Rightarrow> raises (ScheduleInvalid e) db
      | Inr v \<Rightarrow> (case save_stored X d tenant v i expected actor db of
          (Inl e, db') \<Rightarrow> raises e db' | (Inr _, db') \<Rightarrow> ok () db'))"
| "facade_exec X (ScheduleDelete d tenant i expected actor) db = schedule_delete X d tenant i expected actor db"

definition through_facade :: "facade_call \<Rightarrow> bool" where
  "through_facade c = (case c of SpecCall _ \<Rightarrow> False | _ \<Rightarrow> True)"

lemma stop_cases:
  assumes "spec_inv (sc_specs X) db" "hex_sha X" "save_stored X d tenant w schedule_id expected actor_id db = (x, db1)"
  obtains (unstored) e where "x = Inl e" "spec_inv (sc_specs X) db1" "sd_triggers db1 = sd_triggers db"
  | (stored) t sid actor created where "x = Inr (t, sid, actor, created, expected)" "spec_inv (sc_specs X) db1"
      "stored_from X d tenant w schedule_id expected actor_id db t sid actor created db1"
  using save_stored_law [OF assms(1,3)] stored_effect(1) [OF assms(1)] assms(2) by (cases x) (auto simp: hex_sha_def)

lemma exec_write:
  "facade_exec X (ScheduleSave d tenant w i expected actor) db = (x, db') \<Longrightarrow>
     x \<noteq> Inr () \<and> db' = db \<or> (\<exists>v y. schedule_save X d tenant v i expected actor db = (y, db'))"
  "facade_exec X (ScheduleStop d tenant w i expected actor) db = (x, db') \<Longrightarrow>
     x \<noteq> Inr () \<and> db' = db \<or> (\<exists>v y. save_stored X d tenant v i expected actor db = (y, db'))"
  by (auto split: sum.splits prod.splits)

lemma facade_inv:
  assumes "hex_sha X" "spec_inv (sc_specs X) db"
  shows "spec_inv (sc_specs X) (snd (facade_exec X c db))"
proof -
  obtain x db' where e: "facade_exec X c db = (x, db')" by fastforce
  have "spec_inv (sc_specs X) db'"
  proof (cases c)
    case (SpecCall b)
    with e spec_exec_keeps [OF assms(2), of b] show ?thesis by (auto split: prod.splits)
  next
    case (ScheduleSave d tenant w i expected actor)
    from exec_write(1) [OF e [unfolded ScheduleSave]] show ?thesis
    proof (elim disjE exE)
      fix v y assume "schedule_save X d tenant v i expected actor db = (y, db')"
      then show ?thesis
        by (cases rule: save_cases [OF assms(2,1)]) (use activate_effect(1) in auto)
    qed (use assms(2) in simp)
  next
    case (ScheduleStop d tenant w i expected actor)
    from exec_write(2) [OF e [unfolded ScheduleStop]] show ?thesis
    proof (elim disjE exE)
      fix v y assume "save_stored X d tenant v i expected actor db = (y, db')"
      then show ?thesis by (cases rule: stop_cases [OF assms(2,1)]) auto
    qed (use assms(2) in simp)
  next
    case (ScheduleDelete d tenant i expected actor)
    have del: "schedule_delete X d tenant i expected actor db = (x, db')" using e ScheduleDelete by simp
    from delete_law [OF assms(2) del] assms(2) spec_invD(3) [OF assms(2)] show ?thesis
      by (auto simp: switched_def intro!: spec_inv_triggers)
  qed
  with e show ?thesis by simp
qed

interpretation facade_calls: call_system "facade_exec X" empty_spec_db "\<lambda>db. hex_sha X \<longrightarrow> spec_inv (sc_specs X) db" for X :: schedule_env
  by unfold_locales (use spec_calls.inv_start facade_inv in blast)+

definition after_facade :: "schedule_env \<Rightarrow> facade_call list \<Rightarrow> spec_db" where
  "after_facade X cs = snd (run_calls (facade_exec X) cs empty_spec_db)"

lemma after_facade_inv: "hex_sha X \<Longrightarrow> spec_inv (sc_specs X) (after_facade X cs)"
  unfolding after_facade_def using facade_calls.run_start_inv by blast

section \<open>A revision that was never activated\<close>

lemma current_cong:
  "rows g' t i = rows g t i \<Longrightarrow> active_row g' t i = active_row g t i \<Longrightarrow> current g' t i = current g t i"
  by (simp add: current_def get_active_number_def latest_row_def)

lemma same_active_refs: "active_refs g' = active_refs g \<Longrightarrow> active_row g' t i = active_row g t i"
  by (simp add: active_row_def)

lemma same_revisions: "revisions g' = revisions g \<Longrightarrow> rows g' t i = rows g t i"
  by (simp add: rows_def)

lemma stored_other:
  assumes "spec_inv (sc_specs X) db" "hex_sha X" "stored_from X d tenant w schedule_id expected actor_id db t' sid actor created db1"
    and "\<not> current (sd_triggers db) t i"
  shows "(t, i) \<noteq> (t', sch_trigger_id (sc_sha X) sid) \<and> \<not> current (sd_triggers db1) t i"
proof -
  have ne: "(t, i) \<noteq> (t', sch_trigger_id (sc_sha X) sid)" using assms(3,4) by (auto simp: stored_from_def)
  have "hex_digest (sc_sha X sid)" using assms(2) by (simp add: hex_sha_def)
  note e = stored_effect [OF assms(1) this assms(3)]
  from ne assms(4) current_cong [OF e(5) [OF ne] same_active_refs [OF e(2)]] show ?thesis by simp
qed

lemma save_stays_stale:
  assumes "spec_inv (sc_specs X) db" "hex_sha X" "schedule_save X d tenant w schedule_id expected actor_id db = (x, db')"
    and stale: "\<not> current (sd_triggers db) t i"
  shows "\<not> current (sd_triggers db') t i"
  using assms(1-3)
proof (cases rule: save_cases)
  case (stored t' sid actor created db1 y g)
  note o = stored_other [OF assms(1,2) stored(1) stale]
  note a = activate_effect [OF stored(2,3)]
  have "current g t i = current (sd_triggers db1) t i" using current_cong [OF same_revisions [OF a(2)] a(3)] o by blast
  with o stored(4) show ?thesis by simp
qed (use stale in auto)

lemma stop_stays_stale:
  assumes "spec_inv (sc_specs X) db" "hex_sha X" "save_stored X d tenant w schedule_id expected actor_id db = (x, db')"
    and "\<not> current (sd_triggers db) t i"
  shows "\<not> current (sd_triggers db') t i"
  using assms(3) by (cases rule: stop_cases [OF assms(1,2)]) (use assms(4) stored_other [OF assms(1,2)] in auto)

lemma deleted_is_stale:
  assumes "rev_inv mk g" "get_active_number t i g = Some n" "switched g t i None g'"
  shows "\<not> current g' t i"
proof -
  obtain r where "row_at g t i n = Some r" by (rule active_number_row [OF assms(1,2)])
  then have "rows g t i \<noteq> []" unfolding row_at_rows by auto
  with assms(3) same_revisions [of g' g t i] show ?thesis by (auto simp: current_def switched_def latest_row_def)
qed

lemma facade_stays_stale:
  assumes "hex_sha X" "spec_inv (sc_specs X) db" "through_facade c" "\<not> current (sd_triggers db) t i"
  shows "\<not> current (sd_triggers (snd (facade_exec X c db))) t i"
proof -
  obtain x db' where e: "facade_exec X c db = (x, db')" by fastforce
  have "\<not> current (sd_triggers db') t i"
  proof (cases c)
    case (ScheduleSave d tenant w j expected actor)
    from exec_write(1) [OF e [unfolded ScheduleSave]] assms(4) save_stays_stale [OF assms(2,1)] show ?thesis by blast
  next
    case (ScheduleStop d tenant w j expected actor)
    from exec_write(2) [OF e [unfolded ScheduleStop]] assms(4) stop_stays_stale [OF assms(2,1)] show ?thesis by blast
  next
    case (ScheduleDelete d tenant j expected actor)
    have del: "schedule_delete X d tenant j expected actor db = (x, db')" using e ScheduleDelete by simp
    from delete_law [OF assms(2) del] show ?thesis
    proof (elim disjE exE conjE)
      fix t' sid g
      let ?i = "sch_trigger_id (sc_sha X) sid"
      assume g: "db' = db\<lparr>sd_triggers := g\<rparr>" "get_active_number t' ?i (sd_triggers db) = Some expected" "switched (sd_triggers db) t' ?i None g"
      show ?thesis
      proof (cases "(t, i) = (t', ?i)")
        case True
        with deleted_is_stale [OF spec_invD(2) [OF assms(2)] g(2,3)] g(1) show ?thesis by simp
      next
        case False
        with g(3) have "rows g t i = rows (sd_triggers db) t i" "active_row g t i = active_row (sd_triggers db) t i"
          using same_revisions [of g "sd_triggers db" t i] by (auto simp: switched_def)
        from current_cong [OF this] assms(4) show ?thesis unfolding g(1) by simp
      qed
    qed (use assms(4) in simp)
  qed (use assms(3) in \<open>simp add: through_facade_def\<close>)
  with e show ?thesis by simp
qed

lemma run_stays_stale:
  assumes "hex_sha X" "spec_inv (sc_specs X) db" "list_all through_facade cs" "\<not> current (sd_triggers db) t i"
  shows "spec_inv (sc_specs X) (snd (run_calls (facade_exec X) cs db)) \<and> \<not> current (sd_triggers (snd (run_calls (facade_exec X) cs db))) t i"
  using assms(2-4)
proof (induction cs arbitrary: db)
  case (Cons c cs)
  with facade_inv [OF assms(1)] facade_stays_stale [OF assms(1)] show ?case by (simp add: Let_def)
qed simp

lemma stop_is_stale:
  assumes "spec_inv (sc_specs X) db" "hex_sha X" "stored_from X d tenant w schedule_id expected actor_id db t sid actor created db1"
    and "sd_triggers db1 \<noteq> sd_triggers db"
  shows "\<not> current (sd_triggers db1) t (sch_trigger_id (sc_sha X) sid)"
proof -
  let ?i = "sch_trigger_id (sc_sha X) sid" and ?g = "sd_triggers db"
  have "hex_digest (sc_sha X sid)" using assms(2) by (simp add: hex_sha_def)
  note e = stored_effect [OF assms(1) this assms(3)]
  have r: "rows (sd_triggers db1) t ?i = rows ?g t ?i @ [created]" using e(6) assms(4) by blast
  then have n: "rv_revision created = int (length (rows ?g t ?i)) + 1"
    using last_row_number [OF spec_invD(2) [OF e(1)], of t ?i] by simp
  have "current ?g t ?i" using assms(3) by (simp add: stored_from_def)
  moreover have "rows ?g t ?i \<noteq> [] \<Longrightarrow> rv_revision (last (rows ?g t ?i)) = int (length (rows ?g t ?i))"
    by (rule last_row_number [OF spec_invD(2) [OF assms(1)]])
  ultimately have "get_active_number t ?i ?g \<noteq> Some (rv_revision created)"
    using n latest_row_inv [OF spec_invD(2) [OF assms(1)], of t ?i] by (auto simp: current_def)
  then show ?thesis using e(3) same_active_refs [OF e(2)] by (simp add: current_def get_active_number_def)
qed

text \<open>
  C40: A schedule whose save stopped between storing the new revision and activating it (the process
  died, or the activation was refused) can never be edited again, and a deleted identifier can never be used again. Whatever
  schedules are then saved, deleted or half saved, every later save of that identifier fails and
  writes no trigger revision.
\<close>

theorem unactivated_revision_blocks_schedule:
  assumes "hex_sha X" "db = after_facade X cs" "py_strip sid \<noteq> []"
    and "(\<exists>d w expected actor r. save_stored X d tenant w (Some sid) expected actor db = (Inr r, db1) \<and> sd_triggers db1 \<noteq> sd_triggers db) \<or>
      (\<exists>d expected actor. schedule_delete X d tenant sid expected actor db = (Inr (), db1))"
    and "list_all through_facade cs'" "db2 = snd (run_calls (facade_exec X) cs' db1)"
  shows "\<exists>e db3. schedule_save X d tenant w (Some sid) expected actor db2 = (Inl e, db3) \<and> sd_triggers db3 = sd_triggers db2"
proof -
  have inv: "spec_inv (sc_specs X) db" unfolding assms(2) by (rule after_facade_inv [OF assms(1)])
  have id: "sch_identifier u (Some sid) = sch_identifier [] (Some sid)" for u using assms(3) by (simp add: sch_identifier_def Let_def)
  obtain t i where t: "sch_tenant tenant = Inr t" "sch_identifier [] (Some sid) = Inr i"
    and stale: "spec_inv (sc_specs X) db1" "\<not> current (sd_triggers db1) t (sch_trigger_id (sc_sha X) i)"
    using assms(4)
  proof (elim disjE exE conjE)
    fix d w expected actor r
    assume s: "save_stored X d tenant w (Some sid) expected actor db = (Inr r, db1)" and ne: "sd_triggers db1 \<noteq> sd_triggers db"
    from inv assms(1) s show thesis
    proof (cases rule: stop_cases)
      case (stored t i actor created)
      have "sch_tenant tenant = Inr t" "sch_identifier [] (Some sid) = Inr i"
        using stored(3) id [of "dr_uuid d"] by (simp_all add: stored_from_def)
      then show thesis using that stored(2) stop_is_stale [OF inv assms(1) stored(3) ne] by blast
    qed simp
  next
    fix d expected actor
    assume s: "schedule_delete X d tenant sid expected actor db = (Inr (), db1)"
    from delete_law [OF inv s] obtain t i g where g: "sch_tenant tenant = Inr t" "sch_identifier (dr_uuid d) (Some sid) = Inr i"
        "db1 = db\<lparr>sd_triggers := g\<rparr>" "get_active_number t (sch_trigger_id (sc_sha X) i) (sd_triggers db) = Some expected"
        "switched (sd_triggers db) t (sch_trigger_id (sc_sha X) i) None g" "rev_inv (trigger_rows_of X) g" by blast
    have "spec_inv (sc_specs X) db1" unfolding g(3) using spec_inv_triggers [OF inv g(6)] spec_invD(3) [OF inv] g(5) by (simp add: switched_def)
    with that [OF g(1)] g(2,3) id [of "dr_uuid d"] deleted_is_stale [OF spec_invD(2) [OF inv] g(4,5)] show thesis by simp
  qed
  note later = run_stays_stale [OF assms(1) stale(1) assms(5) stale(2), folded assms(6)]
  obtain x db3 where x: "schedule_save X d tenant w (Some sid) expected actor db2 = (x, db3)" by fastforce
  with conjunct1 [OF later] assms(1) show ?thesis
  proof (cases rule: save_cases)
    case (stored t' i' actor' created db1' y g)
    have "t' = t" "i' = i" using stored(1) t id [of "dr_uuid d"] by (simp_all add: stored_from_def)
    with stored(1) later show ?thesis by (simp add: stored_from_def)
  qed (use x in auto)
qed

section \<open>A saved schedule is what was written\<close>

lemma strip_append:
  assumes "p \<noteq> []" "\<not> py_isspace (hd p)" "s \<noteq> []" "py_strip s = s"
  shows "py_strip (p @ s) = p @ s"
proof -
  have "dropWhile py_isspace (p @ s) = p @ s" using assms(1,2) by (cases p) simp_all
  moreover have "dropWhile py_isspace (rev (p @ s)) = rev (p @ s)"
    using hd_dropWhile_strip [of s] assms(3,4) by (cases s rule: rev_cases) simp_all
  ultimately show ?thesis by (simp add: py_strip_def)
qed

lemma sch_identifierD:
  assumes "sch_identifier uuid i = Inr sid"
  shows "py_strip sid = sid" "sid \<noteq> []" "length sid \<le> 100" "sch_identifier u (Some sid) = Inr sid"
proof -
  show a: "py_strip sid = sid" "sid \<noteq> []" "length sid \<le> 100"
    using assms slug_strip [OF new_short_id_slug, of uuid "''sch''" 6 sid] new_short_id_slug [of uuid "''sch''" 6 sid]
    by (auto simp: slug_def name_of_def sch_identifier_def Let_def split: option.splits sum.splits if_splits)
  show "sch_identifier u (Some sid) = Inr sid" using a by (simp add: sch_identifier_def)
qed

lemma ScheduleWriteD:
  assumes "ScheduleWrite zone cron v = Inr v"
  shows "py_strip (sw_name v) = sw_name v" "strip_sch_trigger (sw_trigger v) = sw_trigger v" "strip_action (sw_action v) = sw_action v"
    "ScheduleTrigger zone cron (sw_trigger v) = Inr (sw_trigger v)" "ScheduleAction (sw_action v) = Inr (sw_action v)"
proof -
  have v: "strip_write v = v" "write_fields zone cron v = []" using constructD [OF assms [unfolded ScheduleWrite_def]] by simp_all
  show "py_strip (sw_name v) = sw_name v" using arg_cong [OF v(1), of sw_name] by (simp add: strip_write_def)
  show s: "strip_sch_trigger (sw_trigger v) = sw_trigger v" using arg_cong [OF v(1), of sw_trigger] by (simp add: strip_write_def)
  show a: "strip_action (sw_action v) = sw_action v" using arg_cong [OF v(1), of sw_action] by (simp add: strip_write_def)
  obtain y z where "ScheduleTrigger zone cron (sw_trigger v) = Inr y" "ScheduleAction (sw_action v) = Inr z"
    using v(2) by (auto simp: write_fields_def split: sum.splits)
  with constructD [OF this(1) [unfolded ScheduleTrigger_def]] constructD [OF this(2) [unfolded ScheduleAction_def]] s a
  show "ScheduleTrigger zone cron (sw_trigger v) = Inr (sw_trigger v)" "ScheduleAction (sw_action v) = Inr (sw_action v)" by simp_all
qed

lemma strip_write_idem: "strip_write (strip_write w) = strip_write w"
proof -
  have "strip_sch_trigger (strip_sch_trigger x) = strip_sch_trigger x" "strip_action (strip_action a) = strip_action a" for x a
    by (cases x, simp_all) (cases a, simp_all)
  then show ?thesis by (simp add: strip_write_def)
qed

lemma clamp_valid:
  assumes "ScheduleWrite zone cron w = Inr w" "clamp_missed clock w = Inr v"
  shows "ScheduleWrite zone cron v = Inr v"
proof -
  have "v = w \<or> v = w\<lparr>sw_enabled := False\<rparr>"
    using assms(2) by (auto simp: clamp_missed_def split: schedule_trigger.splits py_datetime.splits sum.splits if_splits)
  with assms(1) show ?thesis
    by (cases w) (auto simp: ScheduleWrite_def construct_def Let_def strip_write_def write_fields_def split: if_splits)
qed

lemma strip_trigger_write:
  assumes "ScheduleWrite zone cron v = Inr v" "py_strip sid = sid" "sid \<noteq> []"
  shows "strip_trigger (trigger_write sid n v ref) = trigger_write sid n v (strip_ref ref)"
proof -
  note v = ScheduleWriteD [OF assms(1)]
  have key: "py_strip (sch_source_key sid) = sch_source_key sid"
    unfolding sch_source_key_def schedule_source_prefix_def by (rule strip_append) (use assms(2,3) in \<open>simp_all add: py_isspace_def\<close>)
  have labels: "strip_labels [(''schedule_action'', ''agent_job''), (''schedule_contract'', ''v1'')] = [(''schedule_action'', ''agent_job''), (''schedule_contract'', ''v1'')]"
    "strip_labels [(''schedule_action'', ''reminder''), (''schedule_contract'', ''v1'')] = [(''schedule_action'', ''reminder''), (''schedule_contract'', ''v1'')]"
    by code_simp+
  have instr: "py_strip (case sw_action v of AgentJob i \<Rightarrow> i | Reminder m \<Rightarrow> reminder_prefix @ m) =
      (case sw_action v of AgentJob i \<Rightarrow> i | Reminder m \<Rightarrow> reminder_prefix @ m)"
  proof (cases "sw_action v")
    case (Reminder m)
    have "m \<noteq> []" "py_strip m = m" using v(3,5) Reminder by (auto simp: ScheduleAction_def construct_def split: if_splits)
    then have "py_strip (reminder_prefix @ m) = reminder_prefix @ m"
      by (intro strip_append) (simp_all add: reminder_prefix_def py_isspace_def)
    with Reminder show ?thesis by simp
  qed (use v(3) in auto)
  have source: "strip_source (case sw_trigger v of SchAt at tz \<Rightarrow> AtTrigger at tz | SchCron e tz \<Rightarrow> CronTriggerSpec e tz) =
      (case sw_trigger v of SchAt at tz \<Rightarrow> AtTrigger at tz | SchCron e tz \<Rightarrow> CronTriggerSpec e tz)"
    using v(2) by (cases "sw_trigger v") auto
  show ?thesis
    unfolding strip_trigger_def trigger_write_def using v(1) key instr source labels
    by (simp add: strip_delivery_def split: schedule_action.splits)
qed

lemma newest_first:
  assumes "numbered rs"
  shows "sort_key (\<lambda>r. - rv_revision r) rs = rev rs"
proof -
  let ?f = "\<lambda>r. - rv_revision r"
  have m: "map rv_revision rs = map int [1..<Suc (length rs)]" using assms by (simp add: numbered_def)
  have "distinct (map rv_revision rs)" "sorted (map rv_revision rs)" unfolding m by (simp_all add: distinct_map sorted_map del: upt_Suc)
  then have d: "inj_on ?f (set rs)" "distinct rs" and s: "sorted (map ?f (rev rs))"
    by (auto simp: distinct_map inj_on_def sorted_map sorted_wrt_rev)
  show ?thesis by (rule map_sorted_distinct_set_unique [of ?f]) (use d s in \<open>auto simp: distinct_map\<close>)
qed

lemma list_revisions_inv:
  assumes "rev_inv (trigger_row zone cron) g"
  shows "trigger_list_revisions zone cron t i g = Inr (rev (rows g t i))"
  unfolding trigger_list_revisions_def list_revision_rows_def newest_first [OF rev_invD(2) [OF assms]]
  by (rule read_all_inv [OF assms]) (use rows_subset in auto)

lemma project_action_write:
  assumes "ScheduleAction (sw_action v) = Inr (sw_action v)"
  shows "project_action (trigger_write sid n v ref) = Inr (sw_action v)"
  using assms by (cases "sw_action v") (simp_all add: project_action_def trigger_write_def py_prefix_iff)

lemma project_source_write:
  assumes "ScheduleTrigger zone cron (sw_trigger v) = Inr (sw_trigger v)"
  shows "project_source zone cron (tw_source (trigger_write sid n v ref)) = Inr (sw_trigger v)"
  using assms by (cases "sw_trigger v") (simp_all add: project_source_def trigger_write_def)

lemma trigger_write_sel:
  "tw_name (trigger_write sid n v ref) = sw_name v" "tw_enabled (trigger_write sid n v ref) = sw_enabled v"
  "tw_source_key (trigger_write sid n v ref) = Some (sch_source_key sid)"
  "ds_mode (tw_delivery (trigger_write sid n v ref)) = DeliverOwner \<longleftrightarrow> sw_notify_owner v"
  by (simp_all add: trigger_write_def)

lemma key_text_write: "rv_payload r = trigger_write sid n v ref \<Longrightarrow> key_text r = schedule_source_prefix @ sid"
  by (simp add: key_text_def trigger_write_def sch_source_key_def)

lemma is_schedule_write: "rv_payload r = trigger_write sid n v ref \<Longrightarrow> is_schedule r"
  by (simp add: is_schedule_def key_text_write py_prefix_iff) (simp add: trigger_write_def)

lemma project_write:
  assumes inv: "rev_inv (trigger_row zone cron) g" and v: "ScheduleWrite zone cron v = Inr v" "py_strip sid = sid"
    and r: "rv_payload r = trigger_write sid n v ref" "r \<in> set (rows g t i)"
    and z: "project zone cron g r = Inr z"
  shows "schedule_write.truncate z = v \<and> sch_id z = sid \<and> sch_tenant_id z = t \<and> sch_revision z = rv_revision r \<and>
    sch_created_at z = rv_created_at (hd (rows g t i))"
proof -
  note w = ScheduleWriteD [OF v(1)]
  have k: "rv_tenant_id r = t" "rv_id r = i" using rows_key [OF r(2)] by simp_all
  have t: "py_strip t = t" using trigger_rows.stored_key(1) [OF inv, of t i] r(2) by fastforce
  have "z = strip_schedule \<lparr>sw_name = sw_name v, sw_trigger = sw_trigger v, sw_action = sw_action v,
      sw_notify_owner = sw_notify_owner v, sw_enabled = sw_enabled v, sch_id = sid, sch_tenant_id = t, sch_revision = rv_revision r,
      sch_created_at = rv_created_at (last (rev (rows g t i))), sch_updated_at = rv_created_at r\<rparr>"
    using z r project_source_write [OF w(4), of sid n ref] project_action_write [OF w(5), of sid n ref] list_revisions_inv [OF inv, of t i] k
    by (auto simp: project_def key_text_write Schedule_def trigger_write_sel split: sum.splits if_splits dest!: constructD)
  with w t v(2) show ?thesis by (simp add: strip_schedule_def strip_write_def schedule_write.defs last_rev)
qed

lemma stored_payload:
  assumes "\<exists>v n ref w'. clamp_missed clock w = Inr v \<and> TriggerSpecWrite zone cron (trigger_write sid n v ref) = Inr w' \<and>
       (g1 = g \<and> rv_content_digest created = dg w' \<or> rv_payload created = w' \<and> rows g1 t i = rows g t i @ [created])"
    and "clamp_missed clock w = Inr v" "ScheduleWrite zone cron v = Inr v" "py_strip sid = sid" "sid \<noteq> []" "latest_row g1 t i = Some created"
    and "\<forall>r \<in> set (revisions g). \<forall>n ref. rv_content_digest r = dg (trigger_write sid n v ref) \<longrightarrow> rv_payload r = trigger_write sid n v ref"
  obtains n ref where "rv_payload created = trigger_write sid n v ref"
    "rows g1 t i = rows g t i \<or> rows g1 t i = rows g t i @ [created]"
proof -
  obtain n ref w' where w': "TriggerSpecWrite zone cron (trigger_write sid n v ref) = Inr w'"
    and d: "g1 = g \<and> rv_content_digest created = dg w' \<or> rv_payload created = w' \<and> rows g1 t i = rows g t i @ [created]"
    using assms(1,2) by auto
  have eq: "w' = trigger_write sid n v (strip_ref ref)"
    using constructD [OF w' [unfolded TriggerSpecWrite_def]] strip_trigger_write [OF assms(3-5)] by simp
  have "created \<in> set (rows g1 t i)" using assms(6) unfolding latest_row_def by (rule top_by_mem)
  with d eq assms(7) rows_subset have "rv_payload created = trigger_write sid n v (strip_ref ref)" by blast
  with that d show thesis by blast
qed

text \<open>Reading the active revision through the facade.\<close>

lemma get_of_active:
  assumes "spec_inv (sc_specs X) db" "sch_tenant t = Inr t" "sch_identifier u (Some sid) = Inr sid"
    and "get_active_number t (sch_trigger_id (sc_sha X) sid) (sd_triggers db) = Some n"
    and "row_at (sd_triggers db) t (sch_trigger_id (sc_sha X) sid) n = Some r" "rv_payload r = trigger_write sid m v ref"
  shows "schedule_get X u t sid db = (case schedule_project X db r of Inl e \<Rightarrow> Inl e | Inr s \<Rightarrow> Inr (Some s))"
  using assms is_schedule_write [OF assms(6)]
  by (simp add: schedule_get_def schedule_reads [OF assms(1)] trigger_write_sel)

lemma got_schedule:
  assumes inv: "spec_inv (sc_specs X) db" "sch_tenant t = Inr t" "sch_identifier u (Some sid) = Inr sid"
    and "schedule_get X u t sid db = Inr (Some s)"
  shows "get_active_number t (sch_trigger_id (sc_sha X) sid) (sd_triggers db) = Some (sch_revision s)"
    "rows (sd_triggers db) t (sch_trigger_id (sc_sha X) sid) \<noteq> []"
    "sch_created_at s = rv_created_at (hd (rows (sd_triggers db) t (sch_trigger_id (sc_sha X) sid)))"
proof -
  let ?i = "sch_trigger_id (sc_sha X) sid" and ?g = "sd_triggers db"
  obtain n r where n: "get_active_number t ?i ?g = Some n" "row_at ?g t ?i n = Some r" and p: "schedule_project X db r = Inr s"
    using assms(4) by (auto simp: schedule_get_def inv(2,3) schedule_reads [OF inv(1)] bind_eq_Some_conv
        split: option.splits sum.splits if_splits)
  have k: "rv_tenant_id r = t" "rv_id r = ?i" "rv_revision r = n" using row_at_mem [OF n(2)] by simp_all
  have f: "sch_revision s = rv_revision r \<and> sch_created_at s = (if rows ?g t ?i = [] then rv_created_at r else rv_created_at (hd (rows ?g t ?i)))"
    using p k list_revisions_inv [OF spec_invD(2) [OF inv(1)], of t ?i]
    by (auto simp: schedule_project_def project_def Schedule_def strip_schedule_def strip_write_def last_rev
        split: sum.splits if_splits dest!: constructD)
  show ne: "rows ?g t ?i \<noteq> []" using n(2) unfolding row_at_rows by auto
  show "get_active_number t ?i ?g = Some (sch_revision s)" "sch_created_at s = rv_created_at (hd (rows ?g t ?i))"
    using n(1) f k(3) ne by simp_all
qed

lemma save_success:
  assumes "spec_inv (sc_specs X) db" "hex_sha X" "sch_tenant tenant = Inr t" "sch_identifier (dr_uuid d) i = Inr sid"
    and "schedule_save X d tenant w i expected actor db = (Inr s, db')"
  obtains actor' created db1 a g where "stored_from X d tenant w i expected actor db t sid actor' created db1" "spec_inv (sc_specs X) db1"
    "trigger_service_activate (se_zone (sc_specs X)) (se_cron (sc_specs X)) (se_trigger_check (sc_specs X))
       (dr_updated_at d) t actor' (sch_trigger_id (sc_sha X) sid) (rv_revision created) expected (sd_triggers db1) = (Inr a, g)"
    "db' = db1\<lparr>sd_triggers := g\<rparr>" "schedule_project X db' a = Inr s"
  using assms(1,2,5)
proof (cases rule: save_cases)
  case (stored t' sid' actor' created db1 y g)
  have "t' = t" "sid' = sid" using stored(1) assms(3,4) by (simp_all add: stored_from_def)
  with stored(1-4) stored(5) [OF refl] that show thesis by blast
qed simp

text \<open>
  C20: A save that returns gives back exactly what was written, with the one exception the service makes: a
  one-off whose time has passed is stored disabled. The schedule then read under the same tenant and
  identifier is the one returned, reminders and agent jobs, one-offs and cron expressions alike.
  An edit must name the revision that was readable before, and keeps the schedule's creation time.
  The digest is assumed not to confuse this write with a stored revision.
\<close>

theorem saved_schedule_reads_back:
  assumes "hex_sha X" "db = after_facade X cs"
    and "ScheduleWrite (se_zone (sc_specs X)) (se_cron (sc_specs X)) w0 = Inr w" "clamp_missed (dr_clock d) w = Inr v"
    and "sch_tenant tenant = Inr t" "sch_identifier (dr_uuid d) i = Inr sid"
    and "\<forall>r \<in> set (revisions (sd_triggers db)). \<forall>n ref.
      rv_content_digest r = se_trigger_digest (sc_specs X) (trigger_write sid n v ref) \<longrightarrow> rv_payload r = trigger_write sid n v ref"
    and "schedule_save X d tenant w i expected actor db = (Inr s, db')"
  shows "schedule_write.truncate s = v \<and> sch_id s = sid \<and> sch_tenant_id s = t \<and> schedule_get X u t sid db' = Inr (Some s) \<and>
    (\<forall>s0. schedule_get X u t sid db = Inr (Some s0) \<longrightarrow> expected = Some (sch_revision s0) \<and> sch_created_at s = sch_created_at s0)"
proof -
  let ?i = "sch_trigger_id (sc_sha X) sid"
  have inv: "spec_inv (sc_specs X) db" unfolding assms(2) by (rule after_facade_inv [OF assms(1)])
  have "ScheduleWrite (se_zone (sc_specs X)) (se_cron (sc_specs X)) w = Inr w"
    using construct_again [OF _ assms(3) [unfolded ScheduleWrite_def]] strip_write_idem unfolding ScheduleWrite_def by blast
  note v = clamp_valid [OF this assms(4)]
  note sid = sch_identifierD [OF assms(6)]
  have t: "sch_tenant t = Inr t" using sch_tenantD [OF assms(5)] by (auto simp: sch_tenant_def Let_def)
  obtain actor' created db1 a g where st: "stored_from X d tenant w i expected actor db t sid actor' created db1" "spec_inv (sc_specs X) db1"
    and ac: "trigger_service_activate (se_zone (sc_specs X)) (se_cron (sc_specs X)) (se_trigger_check (sc_specs X))
         (dr_updated_at d) t actor' ?i (rv_revision created) expected (sd_triggers db1) = (Inr a, g)"
    and db': "db' = db1\<lparr>sd_triggers := g\<rparr>" and p: "schedule_project X db' a = Inr s"
    using save_success [OF inv assms(1,5,6,8)] by metis
  have "hex_digest (sc_sha X sid)" using assms(1) by (simp add: hex_sha_def)
  note e = stored_effect [OF inv this st(1)]
  note ae = activate_effect [OF st(2) ac]
  have inv': "spec_inv (sc_specs X) db'" and a: "a = created" "row_at g t ?i (rv_revision created) = Some created" "get_active_number t ?i g = Some (rv_revision created)"
    using ae(1) ae(4) [OF refl] e(4) db' ae(2) by (simp_all add: row_at_def)
  have rows: "rows g t ?i = rows (sd_triggers db1) t ?i" by (rule same_revisions [OF ae(2)])
  have mem: "created \<in> set (rows g t ?i)" using sel_SomeD a(2) unfolding row_at_rows by fastforce
  obtain n ref where pay: "rv_payload created = trigger_write sid n v ref"
    and grow: "rows (sd_triggers db1) t ?i = rows (sd_triggers db) t ?i \<or> rows (sd_triggers db1) t ?i = rows (sd_triggers db) t ?i @ [created]"
    using stored_payload [OF e(6) assms(4) v sid(1,2) e(3) assms(7)] by blast
  note pr = project_write [OF spec_invD(2) [OF inv'] v sid(1) pay, of t ?i s]
  have s: "schedule_write.truncate s = v \<and> sch_id s = sid \<and> sch_tenant_id s = t \<and> sch_created_at s = rv_created_at (hd (rows g t ?i))"
    using pr mem p a(1) db' by (simp add: schedule_project_def)
  have "schedule_get X u t sid db' = Inr (Some s)"
    using get_of_active [OF inv' t sid(4), of "rv_revision created" created] a pay p db' by simp
  moreover have "expected = Some (sch_revision s0) \<and> sch_created_at s = sch_created_at s0" if "schedule_get X u t sid db = Inr (Some s0)" for s0
  proof -
    note o = got_schedule [OF inv t sid(4) that]
    have "get_active_number t ?i (sd_triggers db) = expected" using st(1) by (simp add: stored_from_def)
    with o s grow rows show ?thesis by auto
  qed
  ultimately show ?thesis using s by blast
qed

section \<open>A concrete schedule\<close>

definition example_schedules :: schedule_env where
  "example_schedules = \<lparr>sc_specs = example_env\<lparr>se_trigger_digest := (\<lambda>w. replicate 63 CHR ''0'' @ (if tw_name w = ''a'' then ''a'' else ''b''))\<rparr>,
     sc_sha = (\<lambda>_. replicate 64 CHR ''0''), sc_on_changed = (\<lambda>_. None), sc_on_deleted = (\<lambda>_ _. None)\<rparr>"

definition schedule_at :: "nat \<Rightarrow> schedule_draws" where
  "schedule_at n = \<lparr>dr_clock = Aware (At n), dr_uuid = [], dr_seeded_at = At n, dr_created_at = At n, dr_updated_at = At n\<rparr>"

definition example_write :: "string \<Rightarrow> schedule_action \<Rightarrow> schedule_write" where
  "example_write name action = \<lparr>sw_name = name, sw_trigger = SchAt (Aware (At 5)) ''UTC'', sw_action = action,
     sw_notify_owner = True, sw_enabled = True\<rparr>"

definition routine_agent :: agent_spec_write where
  "routine_agent = small_agent 7\<lparr>aw_isolation := PrivateSpec\<rparr>"

definition schedule_calls :: "facade_call list" where
  "schedule_calls = [SpecCall (AgentSave (At 1) [] ''t'' ''u'' routine_agent (Some ''routine'') None),
     SpecCall (AgentActivate (At 1) ''t'' ''u'' ''routine'' 1 None),
     ScheduleSave (schedule_at 2) ''t'' (example_write ''a'' (AgentJob ''w'')) (Some ''s'') None ''o'']"

definition schedule_rows :: spec_db where
  "schedule_rows = \<lparr>
     sd_agents = \<lparr>
       revisions = [new_row ''t'' ''routine'' 1 routine_agent (se_agent_digest example_env routine_agent) (At 1) ''u''],
       active_refs = [\<lparr>ar_tenant_id = ''t'', ar_id = ''routine'', ar_revision = 1, ar_updated_at = At 1, ar_updated_by = ''u''\<rparr>]\<rparr>,
     sd_triggers = \<lparr>
       revisions = [new_row ''t'' ''schedule_000000000000000000000000'' 1
         (trigger_write ''s'' 1 (example_write ''a'' (AgentJob ''w'')) \<lparr>ref_tenant_id = ''t'', ref_spec_id = ''routine'', ref_revision = 1\<rparr>)
         (replicate 63 CHR ''0'' @ ''a'') (At 2) ''o''],
       active_refs = [\<lparr>ar_tenant_id = ''t'', ar_id = ''schedule_000000000000000000000000'', ar_revision = 1,
         ar_updated_at = At 2, ar_updated_by = ''o''\<rparr>]\<rparr>\<rparr>"

lemma schedule_run: "after_facade example_schedules schedule_calls = schedule_rows"
  by code_simp

lemma example_hex: "hex_sha example_schedules"
proof -
  have "hex_digest (replicate 64 CHR ''0'')" by code_simp
  then show ?thesis by (simp add: hex_sha_def example_schedules_def)
qed

lemma example_valid:
  "ScheduleWrite (se_zone (sc_specs example_schedules)) (se_cron (sc_specs example_schedules)) (example_write ''b'' (Reminder ''w'')) =
     Inr (example_write ''b'' (Reminder ''w''))"
  "clamp_missed (dr_clock (schedule_at 7)) (example_write ''b'' (Reminder ''w'')) = Inr (example_write ''b'' (Reminder ''w'')\<lparr>sw_enabled := False\<rparr>)"
  "sch_tenant ''t'' = Inr ''t''" "sch_identifier (dr_uuid (schedule_at 7)) (Some ''s'') = Inr ''s''" "py_strip ''s'' \<noteq> []"
  by code_simp+

definition second_row :: "trigger_spec_write revision" where
  "second_row = new_row ''t'' ''schedule_000000000000000000000000'' 2
     (trigger_write ''s'' 2 (example_write ''b'' (Reminder ''w'')\<lparr>sw_enabled := False\<rparr>) \<lparr>ref_tenant_id = ''t'', ref_spec_id = ''routine'', ref_revision = 1\<rparr>)
     (replicate 63 CHR ''0'' @ ''b'') (At 7) ''o''"

definition stored_rows :: spec_db where
  "stored_rows = schedule_rows\<lparr>sd_triggers := (sd_triggers schedule_rows)\<lparr>revisions := revisions (sd_triggers schedule_rows) @ [second_row]\<rparr>\<rparr>"

lemma example_stored:
  "save_stored example_schedules (schedule_at 7) ''t'' (example_write ''b'' (Reminder ''w'')) (Some ''s'') (Some 1) ''o'' schedule_rows =
     (Inr (''t'', ''s'', ''o'', second_row, Some 1), stored_rows)"
  by code_simp

definition saved_rows :: spec_db where
  "saved_rows = stored_rows\<lparr>sd_triggers := (sd_triggers stored_rows)\<lparr>active_refs := [\<lparr>ar_tenant_id = ''t'',
     ar_id = ''schedule_000000000000000000000000'', ar_revision = 2, ar_updated_at = At 7, ar_updated_by = ''o''\<rparr>]\<rparr>\<rparr>"

lemma example_activated:
  "trigger_service_activate (se_zone (sc_specs example_schedules)) (se_cron (sc_specs example_schedules)) (se_trigger_check (sc_specs example_schedules))
     (dr_updated_at (schedule_at 7)) ''t'' ''o'' (sch_trigger_id (sc_sha example_schedules) ''s'') (rv_revision second_row) (Some 1) (sd_triggers stored_rows) =
     (Inr second_row, sd_triggers saved_rows)"
  by code_simp

lemma example_projected: "is_ok (schedule_project example_schedules saved_rows second_row, ())"
  by code_simp

lemma example_saved:
  "\<exists>s. schedule_save example_schedules (schedule_at 7) ''t'' (example_write ''b'' (Reminder ''w'')) (Some ''s'') (Some 1) ''o'' schedule_rows = (Inr s, saved_rows)"
proof -
  have "stored_rows\<lparr>sd_triggers := sd_triggers saved_rows\<rparr> = saved_rows" "sc_on_changed example_schedules second_row = None"
    by (simp_all add: saved_rows_def example_schedules_def)
  with example_projected show ?thesis
    unfolding schedule_save_def by (auto simp: example_stored example_activated is_ok_def split: sum.splits)
qed

theorem saved_schedule_reads_back_witness:
  "\<exists>s. schedule_save example_schedules (schedule_at 7) ''t'' (example_write ''b'' (Reminder ''w'')) (Some ''s'') (Some 1) ''o'' schedule_rows = (Inr s, saved_rows) \<and>
     schedule_get example_schedules [] ''t'' ''s'' saved_rows = Inr (Some s) \<and> sw_action s = Reminder ''w'' \<and> \<not> sw_enabled s"
proof -
  obtain s where s: "schedule_save example_schedules (schedule_at 7) ''t'' (example_write ''b'' (Reminder ''w'')) (Some ''s'') (Some 1) ''o'' schedule_rows = (Inr s, saved_rows)"
    using example_saved by blast
  let ?v = "example_write ''b'' (Reminder ''w'')\<lparr>sw_enabled := False\<rparr>"
  have "\<forall>r \<in> set (revisions (sd_triggers schedule_rows)). \<forall>n ref.
      rv_content_digest r = se_trigger_digest (sc_specs example_schedules) (trigger_write ''s'' n ?v ref) \<longrightarrow> rv_payload r = trigger_write ''s'' n ?v ref"
    by (simp add: schedule_rows_def new_row_def example_schedules_def trigger_write_sel example_write_def)
  from saved_schedule_reads_back [OF example_hex schedule_run [symmetric] example_valid(1-4) this s, of "[]"]
  have v: "schedule_write.truncate s = ?v" and g: "schedule_get example_schedules [] ''t'' ''s'' saved_rows = Inr (Some s)" by simp_all
  from arg_cong [OF v, of sw_action] arg_cong [OF v, of sw_enabled] have "sw_action s = Reminder ''w''" "\<not> sw_enabled s"
    by (simp_all add: schedule_write.defs example_write_def)
  with s g show ?thesis by blast
qed

theorem unactivated_revision_blocks_schedule_witness:
  "\<exists>e db. schedule_save example_schedules (schedule_at 8) ''t'' (example_write ''c'' (Reminder ''w'')) (Some ''s'') (Some 1) ''o'' stored_rows = (Inl e, db) \<and>
     sd_triggers db = sd_triggers stored_rows"
proof -
  have "sd_triggers stored_rows \<noteq> sd_triggers schedule_rows" by (simp add: stored_rows_def schedule_rows_def)
  with example_stored have stop: "(\<exists>d w expected actor r. save_stored example_schedules d ''t'' w (Some ''s'') expected actor schedule_rows = (Inr r, stored_rows) \<and>
        sd_triggers stored_rows \<noteq> sd_triggers schedule_rows) \<or>
      (\<exists>d expected actor. schedule_delete example_schedules d ''t'' ''s'' expected actor schedule_rows = (Inr (), stored_rows))" by blast
  show ?thesis
    by (rule unactivated_revision_blocks_schedule [OF example_hex schedule_run [symmetric] example_valid(5) stop, of "[]"]) simp_all
qed

end
