(* ===== verification/Codec.thy ===== *)
theory Codec
  imports Prelude
begin

text \<open>
  The byte codecs of the Python standard library the stores use, on byte strings (lists of characters
  0..255): URL-safe Base64 as \<open>base64.urlsafe_b64encode\<close> and \<open>base64.urlsafe_b64decode\<close> do it, the
  latter with the lenient reading of \<open>binascii.a2b_base64\<close> (characters outside the alphabet are
  skipped, reading ends at a complete padding), and UTF-8 for the code points of the model's strings.
  \<open>None\<close> is the \<open>ValueError\<close> of the decoder.
\<close>

section \<open>Base64\<close>

definition b64_char :: "nat \<Rightarrow> char" where
  "b64_char i = (if i < 26 then char_of (65 + i) else if i < 52 then char_of (71 + i)
     else if i < 62 then char_of (i - 4) else if i = 62 then CHR ''-'' else CHR ''_'')"

definition b64_value :: "char \<Rightarrow> nat option" where
  "b64_value c = (let n = of_char c :: nat in
     if 65 \<le> n \<and> n \<le> 90 then Some (n - 65) else if 97 \<le> n \<and> n \<le> 122 then Some (n - 71)
     else if 48 \<le> n \<and> n \<le> 57 then Some (n + 4)
     else if c = CHR ''-'' \<or> c = CHR ''+'' then Some 62 else if c = CHR ''_'' \<or> c = CHR ''/'' then Some 63 else None)"

fun urlsafe_b64encode :: "string \<Rightarrow> string" where
  "urlsafe_b64encode [] = []"
| "urlsafe_b64encode [a] = [b64_char (of_char a div 4), b64_char (of_char a mod 4 * 16), CHR ''='', CHR ''='']"
| "urlsafe_b64encode [a, b] = [b64_char (of_char a div 4), b64_char (of_char a mod 4 * 16 + of_char b div 16),
     b64_char (of_char b mod 16 * 4), CHR ''='']"
| "urlsafe_b64encode (a # b # c # r) = b64_char (of_char a div 4) # b64_char (of_char a mod 4 * 16 + of_char b div 16) #
     b64_char (of_char b mod 16 * 4 + of_char c div 64) # b64_char (of_char c mod 64) # urlsafe_b64encode r"

text \<open>The arguments are the position in a group of four, the bits left over and the padding seen.\<close>

fun a2b_base64 :: "nat \<Rightarrow> nat \<Rightarrow> nat \<Rightarrow> string \<Rightarrow> string option" where
  "a2b_base64 quad left pads [] = (if quad = 0 then Some [] else None)"
| "a2b_base64 quad left pads (c # cs) =
     (if c = CHR ''='' then
        (if 2 \<le> quad \<and> 4 \<le> quad + Suc pads then Some []
         else a2b_base64 quad left (if 2 \<le> quad then Suc pads else pads) cs)
      else case b64_value c of None \<Rightarrow> a2b_base64 quad left pads cs
        | Some v \<Rightarrow>
          if quad = 0 then a2b_base64 1 v 0 cs
          else if quad = 1 then map_option (Cons (char_of (left * 4 + v div 16))) (a2b_base64 2 (v mod 16) 0 cs)
          else if quad = 2 then map_option (Cons (char_of (left * 16 + v div 4))) (a2b_base64 3 (v mod 4) 0 cs)
          else map_option (Cons (char_of (left * 64 + v))) (a2b_base64 0 0 0 cs))"

definition urlsafe_b64decode :: "string \<Rightarrow> string option" where
  "urlsafe_b64decode s = (if list_ex (\<lambda>c. 128 \<le> (of_char c :: nat)) s then None else a2b_base64 0 0 0 s)"

lemma b64_char_facts:
  assumes "i < 64"
  shows "b64_value (b64_char i) = Some i" "b64_char i \<noteq> CHR ''=''" "of_char (b64_char i) < (128 :: nat)"
proof -
  have v: "of_char (b64_char i) = (if i < 26 then 65 + i else if i < 52 then 71 + i else if i < 62 then i - 4
      else if i = 62 then 45 else (95 :: nat))"
    by (simp add: b64_char_def)
  have code: "c = CHR ''-'' \<longleftrightarrow> of_char c = (45 :: nat)" "c = CHR ''+'' \<longleftrightarrow> of_char c = (43 :: nat)"
    "c = CHR ''_'' \<longleftrightarrow> of_char c = (95 :: nat)" "c = CHR ''/'' \<longleftrightarrow> of_char c = (47 :: nat)"
    "c = CHR ''='' \<longleftrightarrow> of_char c = (61 :: nat)" for c
    by (simp_all flip: of_char_eq_iff [where 'a = nat])
  show "b64_char i \<noteq> CHR ''=''" "of_char (b64_char i) < (128 :: nat)" using assms by (auto simp: code v)
  show "b64_value (b64_char i) = Some i" unfolding b64_value_def Let_def code v using assms by auto
qed

lemma char_bound: "of_char c < (256 :: nat)"
proof -
  have "of_char c mod 256 < (256 :: nat)" by simp
  then show ?thesis by simp
qed

lemma group_bits:
  assumes "a < (256 :: nat)" "b < 256" "c < 256"
  shows "a div 4 < 64" "a mod 4 * 16 + b div 16 < 64" "b mod 16 * 4 + c div 64 < 64" "c mod 64 < 64"
    "a div 4 * 4 + (a mod 4 * 16 + b div 16) div 16 = a" "(a mod 4 * 16 + b div 16) mod 16 = b div 16"
    "b div 16 * 16 + (b mod 16 * 4 + c div 64) div 4 = b" "(b mod 16 * 4 + c div 64) mod 4 = c div 64"
    "c div 64 * 64 + c mod 64 = c"
proof -
  have x: "b div 16 < 16" "c div 64 < 4" "a mod 4 < 4" "b mod 16 < 16" using assms by simp_all
  show "a div 4 < 64" "c mod 64 < 64" using assms by simp_all
  show "a mod 4 * 16 + b div 16 < 64" "b mod 16 * 4 + c div 64 < 64" using x by linarith+
  show "a div 4 * 4 + (a mod 4 * 16 + b div 16) div 16 = a" "b div 16 * 16 + (b mod 16 * 4 + c div 64) div 4 = b"
    using x by (simp_all add: div_mult_mod_eq)
  show "(a mod 4 * 16 + b div 16) mod 16 = b div 16" "(b mod 16 * 4 + c div 64) mod 4 = c div 64"
    using x by simp_all
  show "c div 64 * 64 + c mod 64 = c" by simp
qed

lemma a2b_pad:
  "a2b_base64 quad left pads (CHR ''='' # cs) = (if 2 \<le> quad \<and> 4 \<le> quad + Suc pads then Some []
     else a2b_base64 quad left (if 2 \<le> quad then Suc pads else pads) cs)"
  by simp

lemma a2b_char:
  assumes "i < 64"
  shows "a2b_base64 quad left pads (b64_char i # cs) =
    (if quad = 0 then a2b_base64 1 i 0 cs
     else if quad = 1 then map_option (Cons (char_of (left * 4 + i div 16))) (a2b_base64 2 (i mod 16) 0 cs)
     else if quad = 2 then map_option (Cons (char_of (left * 16 + i div 4))) (a2b_base64 3 (i mod 4) 0 cs)
     else map_option (Cons (char_of (left * 64 + i))) (a2b_base64 0 0 0 cs))"
  using b64_char_facts [OF assms] by simp

lemmas a2b_steps = a2b_pad a2b_char a2b_base64.simps(1)

lemma a2b_encode: "a2b_base64 0 0 0 (urlsafe_b64encode s) = Some s"
proof (induction s rule: urlsafe_b64encode.induct)
  case (2 a)
  note g = group_bits [OF char_bound [of a], of 0 0, simplified]
  show ?case using g(1,2,5) by (simp add: a2b_steps del: a2b_base64.simps)
next
  case (3 a b)
  note g = group_bits [OF char_bound [of a] char_bound [of b], of 0, simplified]
  show ?case using g by (simp add: a2b_steps del: a2b_base64.simps)
next
  case (4 a b c r)
  note g = group_bits [OF char_bound [of a] char_bound [of b] char_bound [of c]]
  show ?case using 4 g by (simp add: a2b_steps del: a2b_base64.simps)
qed simp

lemma encode_ascii: "list_all (\<lambda>c. of_char c < (128 :: nat)) (urlsafe_b64encode s)"
proof (induction s rule: urlsafe_b64encode.induct)
  case (2 a)
  note g = group_bits [OF char_bound [of a], of 0 0, simplified]
  show ?case using g(1,2) by (simp add: b64_char_facts(3))
next
  case (3 a b)
  note g = group_bits [OF char_bound [of a] char_bound [of b], of 0, simplified]
  show ?case using g by (simp add: b64_char_facts(3))
next
  case (4 a b c r)
  note g = group_bits [OF char_bound [of a] char_bound [of b] char_bound [of c]]
  show ?case using 4 g by (simp add: b64_char_facts(3))
qed simp

lemma b64_round_trip [simp]: "urlsafe_b64decode (urlsafe_b64encode s) = Some s"
  using encode_ascii [of s] a2b_encode [of s] by (auto simp: urlsafe_b64decode_def list_ex_iff list_all_iff not_le)

section \<open>UTF-8\<close>

definition utf8_char :: "char \<Rightarrow> string" where
  "utf8_char c = (let n = of_char c :: nat in if n < 128 then [c] else [char_of (192 + n div 64), char_of (128 + n mod 64)])"

definition utf8 :: "string \<Rightarrow> string" where
  "utf8 s = concat (map utf8_char s)"

fun un_utf8 :: "string \<Rightarrow> string option" where
  "un_utf8 [] = Some []"
| "un_utf8 (c # cs) = (let n = of_char c :: nat in
     if n < 128 then map_option (Cons c) (un_utf8 cs)
     else if n = 194 \<or> n = 195 then
       (case cs of [] \<Rightarrow> None
        | d # ds \<Rightarrow> let m = of_char d :: nat in
            if 128 \<le> m \<and> m < 192 then map_option (Cons (char_of ((n - 192) * 64 + (m - 128)))) (un_utf8 ds) else None)
     else None)"

lemma un_utf8_char: "un_utf8 (utf8_char c @ s) = map_option (Cons c) (un_utf8 s)"
proof (cases "of_char c < (128 :: nat)")
  case True
  then show ?thesis by (simp add: utf8_char_def)
next
  case False
  let ?n = "of_char c :: nat"
  have n: "?n < 256" "128 \<le> ?n" using char_bound [of c] False by simp_all
  then have d: "?n div 64 = 2 \<or> ?n div 64 = 3" by linarith
  have h: "of_char (char_of (192 + ?n div 64) :: char) = 192 + ?n div 64"
    "of_char (char_of (128 + ?n mod 64) :: char) = 128 + ?n mod 64" using n d by (auto simp: of_char_of)
  have "char_of (?n div 64 * 64 + ?n mod 64) = c" by simp
  with False d h show ?thesis by (auto simp: utf8_char_def Let_def)
qed

lemma utf8_round_trip [simp]: "un_utf8 (utf8 s) = Some s"
  by (induction s) (simp_all add: utf8_def un_utf8_char)

section \<open>Random tokens\<close>

text \<open>\<open>os.urandom\<close> and \<open>secrets.token_urlsafe\<close>, on the bytes a random source yields.\<close>

definition token_bytes :: "(nat \<Rightarrow> char) \<Rightarrow> nat \<Rightarrow> string" where
  "token_bytes random n = map random [0..<n]"

definition token_urlsafe :: "(nat \<Rightarrow> char) \<Rightarrow> nat \<Rightarrow> string" where
  "token_urlsafe random n = rev (dropWhile (\<lambda>c. c = CHR ''='') (rev (urlsafe_b64encode (token_bytes random n))))"

lemma encode_has_char: "s \<noteq> [] \<Longrightarrow> \<exists>c \<in> set (urlsafe_b64encode s). c \<noteq> CHR ''=''"
  using b64_char_facts(2) char_bound by (cases s rule: urlsafe_b64encode.cases) (auto intro!: bexI [of _ "b64_char (of_char (hd s) div 4)"])

lemma token_urlsafe_nonempty: "0 < n \<Longrightarrow> token_urlsafe random n \<noteq> []"
proof -
  assume "0 < n"
  then have "token_bytes random n \<noteq> []" by (simp add: token_bytes_def)
  then show ?thesis using encode_has_char by (fastforce simp: token_urlsafe_def dropWhile_eq_Nil_conv)
qed

end
