(* ===== verification/HostConfig.thy ===== *)
theory HostConfig
  imports Codec
begin

text \<open>
  \<^verbatim>\<open>host/store.py\<close>, class \<open>HostStore\<close>: who owns the host (one row of token hashes) and its encrypted,
  revisioned configuration; \<^verbatim>\<open>secrets/cipher.py\<close>, the cipher the secrets go through; and from
  \<^verbatim>\<open>host/service.py\<close> the activation \<open>HostService._apply\<close>, with the network checks and the switch of the
  runtime as outcomes that are arguments. Also arguments are clock readings, drawn tokens and nonces, SHA-256
  in hex (\<open>sha\<close>), AES-GCM (\<open>ci_seal\<close>, \<open>ci_open\<close>) and \<open>str\<close> of a JSON value that is not a string (\<open>ci_str\<close>).
\<close>

section \<open>Data\<close>

datatype host_error =
    HostValueError string
  | HostConfigError string
  | HostConfigConflictError string
  | HostPermissionError string
  | SecretCipherError string
  | HostTypeError
  | HostActivationError string
  | HostCancelled

datatype config_status = Staged | Active | Inactive | FailedConfig

record host_auth =
  ha_owner_token_hash :: "string option"
  ha_setup_token_hash :: "string option"
  ha_updated_at :: timestamp

record config_row =
  cr_revision :: int
  cr_status :: config_status
  cr_base_url :: string
  cr_model :: string
  cr_telegram_user_id :: "int option"
  cr_secrets :: json
  cr_created_at :: timestamp
  cr_error :: "string option"

record host_db =
  schema_version :: "int option"
  host_auth_row :: "host_auth option"
  config_rows :: "config_row list"
  config_seq :: int

record host_config_input =
  hi_expected_revision :: "int option"
  hi_api_key :: "string option"
  hi_base_url :: string
  hi_model :: string
  hi_telegram_bot_token :: "string option"
  hi_telegram_user_id :: "int option"

record host_config =
  hc_revision :: int
  hc_status :: config_status
  hc_api_key :: string
  hc_base_url :: string
  hc_model :: string
  hc_telegram_bot_token :: "string option"
  hc_telegram_user_id :: "int option"
  hc_internal_runtime_token :: string
  hc_telegram_pairing_code :: "string option"
  hc_created_at :: timestamp
  hc_error :: "string option"

record host_config_view =
  hv_revision :: int
  hv_status :: config_status
  hv_base_url :: string
  hv_model :: string
  hv_api_key_configured :: bool
  hv_telegram_configured :: bool
  hv_telegram_user_id :: "int option"
  hv_telegram_pairing_required :: bool
  hv_created_at :: timestamp
  hv_error :: "string option"

definition empty_host_db :: host_db where
  "empty_host_db = \<lparr>schema_version = None, host_auth_row = None, config_rows = [], config_seq = 0\<rparr>"

section \<open>Cipher\<close>

record host_cipher =
  ci_key_id :: string
  ci_seal :: "string \<Rightarrow> string \<Rightarrow> string \<Rightarrow> string"
  ci_open :: "string \<Rightarrow> string \<Rightarrow> string \<Rightarrow> string option"
  ci_str :: "json \<Rightarrow> string"

record encrypted_secret =
  es_key_id :: string
  es_nonce :: string
  es_ciphertext :: string

definition cipher_encrypt :: "host_cipher \<Rightarrow> string \<Rightarrow> string \<Rightarrow> string \<Rightarrow> encrypted_secret" where
  "cipher_encrypt C nonce plaintext associated_data = \<lparr>es_key_id = ci_key_id C, es_nonce = nonce,
     es_ciphertext = ci_seal C nonce plaintext associated_data\<rparr>"

text \<open>
  \<open>ci_open\<close> gives \<open>None\<close> when AES-GCM refuses; a nonce of a length it does not take, which the code never
  writes, raises \<open>ValueError\<close> there and is not told apart here.
\<close>

definition cipher_decrypt :: "host_cipher \<Rightarrow> encrypted_secret \<Rightarrow> string \<Rightarrow> host_error + string" where
  "cipher_decrypt C v associated_data =
     (if es_key_id v \<noteq> ci_key_id C then Inl (SecretCipherError ''secret was encrypted by an unavailable host key'')
      else case ci_open C (es_nonce v) (es_ciphertext v) associated_data of
        None \<Rightarrow> Inl (SecretCipherError ''secret ciphertext failed authentication'') | Some p \<Rightarrow> Inr p)"

section \<open>Encoding of a configuration\<close>

definition associated_data :: "int \<Rightarrow> string \<Rightarrow> string" where
  "associated_data revision name = utf8 (''opentulpa-host-config:'' @ str_int revision @ '':'' @ name)"

definition encrypt :: "host_cipher \<Rightarrow> string \<Rightarrow> int \<Rightarrow> string \<Rightarrow> string option \<Rightarrow> json" where
  "encrypt C nonce revision name v = (case v of None \<Rightarrow> JNull
     | Some s \<Rightarrow> (let e = cipher_encrypt C nonce (utf8 s) (associated_data revision name) in
         JObj [(''key_id'', JStr (es_key_id e)), (''nonce'', JStr (urlsafe_b64encode (es_nonce e))),
           (''ciphertext'', JStr (urlsafe_b64encode (es_ciphertext e)))]))"

fun b64_field :: "json option \<Rightarrow> string option" where
  "b64_field (Some (JStr s)) = urlsafe_b64decode s"
| "b64_field _ = None"

definition decrypt :: "host_cipher \<Rightarrow> int \<Rightarrow> string \<Rightarrow> json \<Rightarrow> host_error + string option" where
  "decrypt C revision name v = (case v of JNull \<Rightarrow> Inr None
     | JObj kvs \<Rightarrow> (case (map_of kvs ''key_id'', b64_field (map_of kvs ''nonce''), b64_field (map_of kvs ''ciphertext'')) of
           (Some k, Some nonce, Some ciphertext) \<Rightarrow>
             (case cipher_decrypt C \<lparr>es_key_id = (case k of JStr s \<Rightarrow> s | _ \<Rightarrow> ci_str C k), es_nonce = nonce, es_ciphertext = ciphertext\<rparr>
                 (associated_data revision name) of
                Inl e \<Rightarrow> Inl e
              | Inr plain \<Rightarrow> (case un_utf8 plain of None \<Rightarrow> Inl (HostValueError ''invalid UTF-8'') | Some s \<Rightarrow> Inr (Some s)))
         | _ \<Rightarrow> Inl (HostConfigError ''encrypted host configuration is corrupt''))
     | _ \<Rightarrow> Inl (HostConfigError ''encrypted host configuration is corrupt''))"

text \<open>\<open>payload[name]\<close> and \<open>payload.get(name)\<close>; a missing key and every \<open>ValueError\<close> become \<open>HostConfigError\<close>.\<close>

definition secret_of :: "host_cipher \<Rightarrow> int \<Rightarrow> (string \<times> json) list \<Rightarrow> bool \<Rightarrow> string \<Rightarrow> host_error + string option" where
  "secret_of C revision payload needed name =
     (case map_of payload name of
        None \<Rightarrow> if needed then Inl (HostConfigError ''host configuration is corrupt'') else Inr None
      | Some j \<Rightarrow> (case decrypt C revision name j of
            Inl (HostValueError _) \<Rightarrow> Inl (HostConfigError ''host configuration is corrupt'') | r \<Rightarrow> r))"

definition nonempty :: "string option \<Rightarrow> string option" where
  "nonempty v = (case v of None \<Rightarrow> None | Some s \<Rightarrow> if s = [] then None else Some s)"

definition decode :: "host_cipher \<Rightarrow> config_row \<Rightarrow> host_error + host_config" where
  "decode C row = (let revision = cr_revision row in case cr_secrets row of
     JObj payload \<Rightarrow>
       (case secret_of C revision payload True ''api_key'' of Inl e \<Rightarrow> Inl e | Inr api_key \<Rightarrow>
        (case secret_of C revision payload True ''internal_runtime_token'' of Inl e \<Rightarrow> Inl e | Inr internal \<Rightarrow>
         (case secret_of C revision payload False ''telegram_bot_token'' of Inl e \<Rightarrow> Inl e | Inr telegram \<Rightarrow>
          (case secret_of C revision payload False ''telegram_pairing_code'' of Inl e \<Rightarrow> Inl e | Inr pairing \<Rightarrow>
           (case (nonempty api_key, nonempty internal) of
              (Some a, Some i) \<Rightarrow> Inr \<lparr>hc_revision = revision, hc_status = cr_status row, hc_api_key = a,
                hc_base_url = cr_base_url row, hc_model = cr_model row, hc_telegram_bot_token = nonempty telegram,
                hc_telegram_user_id = cr_telegram_user_id row, hc_internal_runtime_token = i,
                hc_telegram_pairing_code = nonempty pairing, hc_created_at = cr_created_at row, hc_error = cr_error row\<rparr>
            | _ \<Rightarrow> Inl (HostConfigError ''host configuration is incomplete''))))))
   | _ \<Rightarrow> Inl HostTypeError)"

definition decode_opt :: "host_cipher \<Rightarrow> config_row option \<Rightarrow> host_error + host_config option" where
  "decode_opt C r = (case r of None \<Rightarrow> Inr None
     | Some row \<Rightarrow> (case decode C row of Inl e \<Rightarrow> Inl e | Inr c \<Rightarrow> Inr (Some c)))"

definition config_at :: "int \<Rightarrow> host_db \<Rightarrow> config_row option" where
  "config_at n db = sel (\<lambda>r. cr_revision r = n) (config_rows db)"

definition active_row :: "host_db \<Rightarrow> config_row option" where
  "active_row db = sel (\<lambda>r. cr_status r = Active) (config_rows db)"

definition active_config :: "host_cipher \<Rightarrow> host_db \<Rightarrow> host_error + host_config option" where
  "active_config C db = decode_opt C (active_row db)"

definition get_config :: "host_cipher \<Rightarrow> int \<Rightarrow> host_db \<Rightarrow> host_error + host_config option" where
  "get_config C n db = decode_opt C (config_at n db)"

definition view :: "host_config \<Rightarrow> host_config_view" where
  "view c = \<lparr>hv_revision = hc_revision c, hv_status = hc_status c, hv_base_url = hc_base_url c, hv_model = hc_model c,
     hv_api_key_configured = True, hv_telegram_configured = (hc_telegram_bot_token c \<noteq> None),
     hv_telegram_user_id = hc_telegram_user_id c,
     hv_telegram_pairing_required = (hc_telegram_bot_token c \<noteq> None \<and> hc_telegram_user_id c = None),
     hv_created_at = hc_created_at c, hv_error = hc_error c\<rparr>"

fun view_all :: "host_cipher \<Rightarrow> config_row list \<Rightarrow> host_error + host_config_view list" where
  "view_all C [] = Inr []"
| "view_all C (r # rs) = (case decode C r of Inl e \<Rightarrow> Inl e
     | Inr c \<Rightarrow> (case view_all C rs of Inl e \<Rightarrow> Inl e | Inr vs \<Rightarrow> Inr (view c # vs)))"

definition list_views :: "host_cipher \<Rightarrow> host_db \<Rightarrow> host_error + host_config_view list" where
  "list_views C db = view_all C (take 20 (sort_key (\<lambda>r. - cr_revision r) (config_rows db)))"

section \<open>Ownership\<close>

definition migrate :: "timestamp \<Rightarrow> (host_db, host_error, unit) oper" where
  "migrate now db =
     (if (case schema_version db of None \<Rightarrow> False | Some v \<Rightarrow> v > 1)
      then raises (HostConfigError ''host database uses a newer schema'') db
      else ok () (db\<lparr>schema_version := Some 1,
        host_auth_row := (case host_auth_row db of None \<Rightarrow> Some \<lparr>ha_owner_token_hash = None, ha_setup_token_hash = None,
          ha_updated_at = now\<rparr> | Some a \<Rightarrow> Some a)\<rparr>))"

definition configure_setup_token :: "(string \<Rightarrow> string) \<Rightarrow> timestamp \<Rightarrow> string \<Rightarrow> (host_db, host_error, unit) oper" where
  "configure_setup_token sha now token db =
     (let v = py_strip token in
      if length v < 16 then raises (HostValueError ''setup token must contain at least 16 characters'') db
      else ok () (db\<lparr>host_auth_row := map_option (\<lambda>a. if ha_owner_token_hash a \<noteq> None then a
        else a\<lparr>ha_setup_token_hash := Some (case ha_setup_token_hash a of None \<Rightarrow> sha v | Some h \<Rightarrow> h), ha_updated_at := now\<rparr>)
          (host_auth_row db)\<rparr>))"

definition owner_hash :: "host_db \<Rightarrow> string option" where
  "owner_hash db = (case host_auth_row db of None \<Rightarrow> None | Some a \<Rightarrow> nonempty (ha_owner_token_hash a))"

definition claimed :: "host_db \<Rightarrow> bool" where
  "claimed db = (owner_hash db \<noteq> None)"

definition claim_host ::
  "(string \<Rightarrow> string) \<Rightarrow> timestamp \<Rightarrow> string option \<Rightarrow> string \<Rightarrow> (host_db, host_error, unit) oper" where
  "claim_host sha now setup_token owner_token db =
     (let owner = py_strip owner_token in
      if length owner < 32 then raises (HostValueError ''owner token must contain at least 32 characters'') db
      else case host_auth_row db of
        None \<Rightarrow> raises (HostConfigError ''host authentication state is missing'') db
      | Some a \<Rightarrow> (case nonempty (ha_owner_token_hash a) of
          Some h \<Rightarrow> if sha owner \<noteq> h then raises (HostConfigConflictError ''host is already claimed'') db else ok () db
        | None \<Rightarrow>
          (let supplied = sha (py_strip (case setup_token of None \<Rightarrow> [] | Some s \<Rightarrow> s)) in
           if nonempty (ha_setup_token_hash a) \<noteq> Some supplied then raises (HostPermissionError ''invalid setup token'') db
           else ok () (db\<lparr>host_auth_row := Some (a\<lparr>ha_owner_token_hash := Some (sha owner), ha_setup_token_hash := None,
             ha_updated_at := now\<rparr>)\<rparr>))))"

definition authorize_owner :: "(string \<Rightarrow> string) \<Rightarrow> string option \<Rightarrow> host_db \<Rightarrow> bool" where
  "authorize_owner sha token db =
     (let v = py_strip (case token of None \<Rightarrow> [] | Some s \<Rightarrow> s) in
      v \<noteq> [] \<and> owner_hash db = Some (sha v))"

section \<open>Configuration\<close>

text \<open>The random bytes drawn while staging, by what they are for.\<close>

type_synonym stage_draws = "string \<Rightarrow> nat \<Rightarrow> char"

definition nonce :: "stage_draws \<Rightarrow> string \<Rightarrow> string" where
  "nonce d name = token_bytes (d name) 12"

definition secrets_json :: "host_cipher \<Rightarrow> stage_draws \<Rightarrow> int \<Rightarrow> string \<Rightarrow> string option \<Rightarrow> string option \<Rightarrow> json" where
  "secrets_json C d revision api_key telegram_token pairing_code =
     JObj [(''api_key'', encrypt C (nonce d ''api_key'') revision ''api_key'' (Some api_key)),
       (''internal_runtime_token'', encrypt C (nonce d ''internal_runtime_token'') revision ''internal_runtime_token'' (Some (token_urlsafe (d ''internal_token'') 48))),
       (''telegram_bot_token'', encrypt C (nonce d ''telegram_bot_token'') revision ''telegram_bot_token'' telegram_token),
       (''telegram_pairing_code'', encrypt C (nonce d ''telegram_pairing_code'') revision ''telegram_pairing_code'' pairing_code)]"

definition staged_api_key :: "host_config_input \<Rightarrow> host_config option \<Rightarrow> string option" where
  "staged_api_key v act = (case nonempty (hi_api_key v) of Some k \<Rightarrow> Some k | None \<Rightarrow> nonempty (map_option hc_api_key act))"

definition staged_telegram :: "host_config_input \<Rightarrow> host_config option \<Rightarrow> string option" where
  "staged_telegram v act = (case hi_telegram_bot_token v of Some t \<Rightarrow> Some t
     | None \<Rightarrow> (case act of None \<Rightarrow> None | Some c \<Rightarrow> hc_telegram_bot_token c))"

definition pairing_code :: "stage_draws \<Rightarrow> string option \<Rightarrow> int option \<Rightarrow> string option" where
  "pairing_code d telegram_token user_id = (case nonempty telegram_token of None \<Rightarrow> None
     | Some t \<Rightarrow> Some (if user_id = None then py_tail 8 t else token_urlsafe (d ''pairing_code'') 9))"

definition stage_row :: "host_cipher \<Rightarrow> stage_draws \<Rightarrow> timestamp \<Rightarrow> host_config_input \<Rightarrow> string \<Rightarrow> string option \<Rightarrow> int \<Rightarrow> config_row" where
  "stage_row C d now v api_key telegram_token revision = \<lparr>cr_revision = revision, cr_status = Staged, cr_base_url = hi_base_url v,
     cr_model = hi_model v, cr_telegram_user_id = hi_telegram_user_id v,
     cr_secrets = secrets_json C d revision api_key telegram_token (pairing_code d telegram_token (hi_telegram_user_id v)),
     cr_created_at = now, cr_error = None\<rparr>"

definition found :: "string \<Rightarrow> host_error + host_config option \<Rightarrow> host_error + host_config" where
  "found msg r = (case r of Inl e \<Rightarrow> Inl e | Inr None \<Rightarrow> Inl (HostConfigError msg) | Inr (Some c) \<Rightarrow> Inr c)"

definition stage :: "host_cipher \<Rightarrow> stage_draws \<Rightarrow> timestamp \<Rightarrow> host_config_input \<Rightarrow> (host_db, host_error, host_config) oper" where
  "stage C d now v db = (case active_config C db of Inl e \<Rightarrow> raises e db
     | Inr act \<Rightarrow>
       if act = None \<and> hi_expected_revision v \<noteq> None
       then raises (HostConfigConflictError ''no active configuration exists'') db
       else if act \<noteq> None \<and> hi_expected_revision v \<noteq> map_option hc_revision act
       then raises (HostConfigConflictError ''active configuration revision changed'') db
       else (case staged_api_key v act of
          None \<Rightarrow> raises (HostValueError ''api_key is required for the first configuration'') db
        | Some api_key \<Rightarrow>
          let telegram_token = staged_telegram v act in
          if telegram_token = None \<and> hi_telegram_user_id v \<noteq> None
          then raises (HostValueError ''Telegram bot token is required when a user ID is configured'') db
          else
            let revision = config_seq db + 1;
                db1 = db\<lparr>config_rows := config_rows db @ [stage_row C d now v api_key telegram_token revision], config_seq := revision\<rparr>
            in (found ''staged configuration disappeared'' (get_config C revision db1), db1)))"

definition activate :: "host_cipher \<Rightarrow> int \<Rightarrow> (host_db, host_error, host_config) oper" where
  "activate C revision db =
     (if map_option cr_status (config_at revision db) \<noteq> Some Staged
      then raises (HostConfigConflictError ''configuration is not staged'') db
      else
        let db1 = db\<lparr>config_rows := upd (\<lambda>r. cr_revision r = revision) (\<lambda>r. r\<lparr>cr_status := Active, cr_error := None\<rparr>)
              (upd (\<lambda>r. cr_status r = Active) (\<lambda>r. r\<lparr>cr_status := Inactive\<rparr>) (config_rows db))\<rparr>
        in (found ''activated configuration disappeared'' (get_config C revision db1), db1))"

definition fail_config :: "int \<Rightarrow> string \<Rightarrow> (host_db, host_error, unit) oper" where
  "fail_config revision error db =
     (let safe_error = take 1000 (py_strip (if error = [] then ''configuration activation failed'' else error)) in
      ok () (db\<lparr>config_rows := upd (\<lambda>r. cr_revision r = revision \<and> cr_status r = Staged)
        (\<lambda>r. r\<lparr>cr_status := FailedConfig, cr_error := Some safe_error\<rparr>) (config_rows db)\<rparr>))"

section \<open>Activation of a configuration\<close>

datatype step_outcome = StepFine | StepRaised string | StepCancelled

text \<open>\<open>StepRaised\<close> carries \<open>_safe_error\<close> of the exception; an error of the store has no message of its own there.\<close>

definition generic_error :: string where
  "generic_error = ''The runtime could not activate this configuration.''"

definition apply_config ::
  "host_cipher \<Rightarrow> stage_draws \<Rightarrow> timestamp \<Rightarrow> step_outcome \<Rightarrow> step_outcome \<Rightarrow> host_config_input \<Rightarrow> (host_db, host_error, host_config_view) oper" where
  "apply_config C d now validation switch v db = (case active_config C db of Inl e \<Rightarrow> raises e db
     | Inr previous \<Rightarrow> (case validation of
         StepRaised m \<Rightarrow> raises (HostActivationError m) db
       | StepCancelled \<Rightarrow> raises HostCancelled db
       | StepFine \<Rightarrow> (case stage C d now v db of (Inl e, db1) \<Rightarrow> raises e db1
           | (Inr staged, db1) \<Rightarrow> (case switch of
               StepCancelled \<Rightarrow> raises HostCancelled db1
             | StepRaised m \<Rightarrow> raises (HostActivationError m) (snd (fail_config (hc_revision staged) m db1))
             | StepFine \<Rightarrow> (case activate C (hc_revision staged) db1 of
                   (Inl e, db2) \<Rightarrow> raises (HostActivationError generic_error) (snd (fail_config (hc_revision staged) generic_error db2))
                 | (Inr act, db2) \<Rightarrow> ok (view act) db2)))))"

section \<open>The store driven by calls\<close>

datatype host_call =
    Migrate timestamp
  | ConfigureSetupToken timestamp string
  | ClaimHost timestamp "string option" string
  | StageConfig stage_draws timestamp host_config_input
  | ActivateConfig int
  | FailConfig int string
  | ApplyConfig stage_draws timestamp step_outcome step_outcome host_config_input

definition as_unit :: "(host_error + 'a) \<times> host_db \<Rightarrow> (host_error + unit) \<times> host_db" where
  "as_unit r = ((case fst r of Inl e \<Rightarrow> Inl e | Inr _ \<Rightarrow> Inr ()), snd r)"

fun host_exec :: "host_cipher \<Rightarrow> (string \<Rightarrow> string) \<Rightarrow> host_call \<Rightarrow> (host_db, host_error, unit) oper" where
  "host_exec C sha (Migrate now) db = migrate now db"
| "host_exec C sha (ConfigureSetupToken now token) db = configure_setup_token sha now token db"
| "host_exec C sha (ClaimHost now setup owner) db = claim_host sha now setup owner db"
| "host_exec C sha (StageConfig d now v) db = as_unit (stage C d now v db)"
| "host_exec C sha (ActivateConfig n) db = as_unit (activate C n db)"
| "host_exec C sha (FailConfig n e) db = fail_config n e db"
| "host_exec C sha (ApplyConfig d now validation switch v) db = as_unit (apply_config C d now validation switch v db)"

section \<open>What is written can be read\<close>

text \<open>The law of the authenticated cipher: what was sealed opens under the same nonce and data.\<close>

definition cipher_ok :: "host_cipher \<Rightarrow> bool" where
  "cipher_ok C = (\<forall>n p ad. ci_open C n (ci_seal C n p ad) ad = Some p)"

lemma decrypt_encrypt: "cipher_ok C \<Longrightarrow> decrypt C revision name (encrypt C n revision name v) = Inr v"
  by (cases v) (simp_all add: cipher_ok_def encrypt_def decrypt_def cipher_encrypt_def cipher_decrypt_def Let_def)

lemma secret_of_secrets:
  assumes "cipher_ok C"
  shows "\<exists>payload. secrets_json C d revision api_key telegram pairing = JObj payload \<and>
    secret_of C revision payload True ''api_key'' = Inr (Some api_key) \<and>
    secret_of C revision payload True ''internal_runtime_token'' = Inr (Some (token_urlsafe (d ''internal_token'') 48)) \<and>
    secret_of C revision payload False ''telegram_bot_token'' = Inr telegram \<and>
    secret_of C revision payload False ''telegram_pairing_code'' = Inr pairing"
  by (simp add: secrets_json_def secret_of_def decrypt_encrypt [OF assms])

definition staged_config :: "stage_draws \<Rightarrow> timestamp \<Rightarrow> host_config_input \<Rightarrow> string \<Rightarrow> string option \<Rightarrow> int \<Rightarrow> host_config" where
  "staged_config d now v api_key telegram revision = \<lparr>hc_revision = revision, hc_status = Staged, hc_api_key = api_key,
     hc_base_url = hi_base_url v, hc_model = hi_model v, hc_telegram_bot_token = nonempty telegram,
     hc_telegram_user_id = hi_telegram_user_id v, hc_internal_runtime_token = token_urlsafe (d ''internal_token'') 48,
     hc_telegram_pairing_code = nonempty (pairing_code d telegram (hi_telegram_user_id v)), hc_created_at = now, hc_error = None\<rparr>"

lemma decode_stage_row:
  assumes "cipher_ok C" "api_key \<noteq> []"
  shows "decode C (stage_row C d now v api_key telegram revision) = Inr (staged_config d now v api_key telegram revision)"
proof -
  have "nonempty (Some (token_urlsafe (d ''internal_token'') 48)) = Some (token_urlsafe (d ''internal_token'') 48)"
    using token_urlsafe_nonempty [of 48 "d ''internal_token''"] by (simp add: nonempty_def)
  moreover have "nonempty (Some api_key) = Some api_key" using assms(2) by (simp add: nonempty_def)
  moreover obtain payload where p: "secrets_json C d revision api_key telegram (pairing_code d telegram (hi_telegram_user_id v)) = JObj payload"
    "secret_of C revision payload True ''api_key'' = Inr (Some api_key)"
    "secret_of C revision payload True ''internal_runtime_token'' = Inr (Some (token_urlsafe (d ''internal_token'') 48))"
    "secret_of C revision payload False ''telegram_bot_token'' = Inr telegram"
    "secret_of C revision payload False ''telegram_pairing_code'' = Inr (pairing_code d telegram (hi_telegram_user_id v))"
    using secret_of_secrets [OF assms(1)] by metis
  ultimately show ?thesis by (simp add: decode_def stage_row_def staged_config_def)
qed

lemma decode_status:
  "decode C (r\<lparr>cr_status := s, cr_error := e\<rparr>) =
     (case decode C r of Inl x \<Rightarrow> Inl x | Inr c \<Rightarrow> Inr (c\<lparr>hc_status := s, hc_error := e\<rparr>))"
  by (simp add: decode_def Let_def split: json.splits sum.splits option.splits prod.splits)

section \<open>Invariant and life cycle of a revision\<close>

definition readable :: "host_cipher \<Rightarrow> config_row \<Rightarrow> bool" where
  "readable C r = (\<exists>c. decode C r = Inr c)"

definition host_inv :: "host_cipher \<Rightarrow> host_db \<Rightarrow> bool" where
  "host_inv C db = (distinct (map cr_revision (config_rows db)) \<and> 0 \<le> config_seq db \<and>
     (\<forall>r \<in> set (config_rows db). 1 \<le> cr_revision r \<and> cr_revision r \<le> config_seq db \<and> readable C r) \<and>
     length (filter (\<lambda>r. cr_status r = Active) (config_rows db)) \<le> 1)"

fun status_le :: "config_status \<Rightarrow> config_status \<Rightarrow> bool" where
  "status_le Staged s = True"
| "status_le Active s = (s = Active \<or> s = Inactive)"
| "status_le Inactive s = (s = Inactive)"
| "status_le FailedConfig s = (s = FailedConfig)"

definition row_core :: "config_row \<Rightarrow> config_row" where
  "row_core r = r\<lparr>cr_status := Staged, cr_error := None\<rparr>"

definition row_step :: "config_row \<Rightarrow> config_row \<Rightarrow> bool" where
  "row_step r r' = (row_core r' = row_core r \<and> status_le (cr_status r) (cr_status r'))"

definition rows_evolve :: "host_db \<Rightarrow> host_db \<Rightarrow> bool" where
  "rows_evolve db db' = (\<exists>old new. config_rows db' = old @ new \<and> list_all2 row_step (config_rows db) old)"

lemma status_le_refl [simp]: "status_le s s"
  by (cases s) simp_all

lemma status_le_trans: "status_le a b \<Longrightarrow> status_le b c \<Longrightarrow> status_le a c"
  by (cases a; cases b; cases c) simp_all

lemma row_step_refl [simp]: "row_step r r"
  by (simp add: row_step_def)

lemma row_step_trans: "row_step a b \<Longrightarrow> row_step b c \<Longrightarrow> row_step a c"
  by (auto simp: row_step_def intro: status_le_trans)

lemma rows_evolve_refl [simp]: "rows_evolve db db"
  unfolding rows_evolve_def by (intro exI [of _ "config_rows db"] exI [of _ "[]"]) (simp add: list_all2_same)

lemma rows_evolve_trans:
  assumes "rows_evolve a b" "rows_evolve b c"
  shows "rows_evolve a c"
proof -
  obtain o1 n1 where b: "config_rows b = o1 @ n1" "list_all2 row_step (config_rows a) o1" using assms(1) by (auto simp: rows_evolve_def)
  obtain o2 n2 where c: "config_rows c = o2 @ n2" "list_all2 row_step (o1 @ n1) o2" using assms(2) b(1) by (auto simp: rows_evolve_def)
  obtain u v where "o2 = u @ v" "list_all2 row_step o1 u" using c(2) by (auto simp: list_all2_append1)
  with b(2) c(1) show ?thesis unfolding rows_evolve_def
    by (intro exI [of _ u] exI [of _ "v @ n2"]) (auto intro: list_all2_trans [of row_step row_step row_step, OF row_step_trans])
qed

lemma rows_evolve_upd:
  assumes "\<And>r. r \<in> set (config_rows db) \<Longrightarrow> P r \<Longrightarrow> row_step r (f r)"
  shows "rows_evolve db (db\<lparr>config_rows := upd P f (config_rows db)\<rparr>)"
proof -
  have "list_all2 row_step t (upd P f t)" if "set t \<subseteq> set (config_rows db)" for t
    using that assms by (induction t) auto
  then show ?thesis unfolding rows_evolve_def by (intro exI [of _ "upd P f (config_rows db)"] exI [of _ "[]"]) simp
qed

lemma readable_core: "row_core r' = row_core r \<Longrightarrow> readable C r' = readable C r"
proof -
  have "readable C (row_core r) = readable C r" for r
    by (simp add: readable_def row_core_def decode_status split: sum.splits)
  then show "row_core r' = row_core r \<Longrightarrow> readable C r' = readable C r" by metis
qed

lemma core_revision: "row_core r' = row_core r \<Longrightarrow> cr_revision r' = cr_revision r"
  by (drule arg_cong [where f = cr_revision]) (simp add: row_core_def)

lemma host_invD:
  assumes "host_inv C db"
  shows "distinct (map cr_revision (config_rows db))" "0 \<le> config_seq db"
    "r \<in> set (config_rows db) \<Longrightarrow> 1 \<le> cr_revision r \<and> cr_revision r \<le> config_seq db \<and> readable C r"
    "length (filter (\<lambda>r. cr_status r = Active) (config_rows db)) \<le> 1"
  using assms by (simp_all add: host_inv_def)

lemma config_inv_upd:
  assumes inv: "host_inv C db" and f: "\<And>r. P r \<Longrightarrow> row_core (f r) = row_core r"
    and one: "length (filter (\<lambda>r. cr_status r = Active) (upd P f (config_rows db))) \<le> 1"
  shows "host_inv C (db\<lparr>config_rows := upd P f (config_rows db)\<rparr>)"
proof -
  have "map cr_revision (upd P f (config_rows db)) = map cr_revision (config_rows db)"
    by (rule map_upd) (rule core_revision [OF f])
  moreover have "1 \<le> cr_revision r' \<and> cr_revision r' \<le> config_seq db \<and> readable C r'" if "r' \<in> set (upd P f (config_rows db))" for r'
  proof -
    from upd_memD [OF that] obtain r where r: "r \<in> set (config_rows db)" "r' = (if P r then f r else r)" by blast
    then have core: "row_core r' = row_core r" using f by simp
    from core_revision [OF core] readable_core [OF core] host_invD(3) [OF inv r(1)] show ?thesis by simp
  qed
  ultimately show ?thesis using host_invD(1,2) [OF inv] one by (simp add: host_inv_def)
qed

lemma config_inv_append:
  assumes inv: "host_inv C db" and r: "cr_revision r = config_seq db + 1" "cr_status r \<noteq> Active" "readable C r"
  shows "host_inv C (db\<lparr>config_rows := config_rows db @ [r], config_seq := config_seq db + 1\<rparr>)"
proof -
  have "\<forall>s \<in> set (config_rows db). 1 \<le> cr_revision s \<and> cr_revision s \<le> config_seq db + 1 \<and> readable C s"
    using inv by (fastforce simp: host_inv_def)
  moreover have "config_seq db + 1 \<notin> cr_revision ` set (config_rows db)" using inv by (fastforce simp: host_inv_def)
  ultimately show ?thesis using inv r by (simp add: host_inv_def)
qed

lemma active_after_upd:
  assumes "\<And>r. P r \<Longrightarrow> cr_status r \<noteq> Active \<and> cr_status (f r) \<noteq> Active"
  shows "filter (\<lambda>r. cr_status r = Active) (upd P f t) = filter (\<lambda>r. cr_status r = Active) t"
  using assms by (induction t) auto

lemma fail_config_step:
  assumes "host_inv C db" "fail_config n e db = (x, db')"
  shows "host_inv C db' \<and> rows_evolve db db' \<and> host_auth_row db' = host_auth_row db \<and>
    filter (\<lambda>r. cr_status r = Active) (config_rows db') = filter (\<lambda>r. cr_status r = Active) (config_rows db)"
proof -
  let ?P = "\<lambda>r. cr_revision r = n \<and> cr_status r = Staged"
  let ?f = "\<lambda>r. r\<lparr>cr_status := FailedConfig, cr_error := Some (take 1000 (py_strip (if e = [] then ''configuration activation failed'' else e)))\<rparr>"
  have db': "db' = db\<lparr>config_rows := upd ?P ?f (config_rows db)\<rparr>" using assms(2) by (simp add: fail_config_def Let_def)
  have same: "filter (\<lambda>r. cr_status r = Active) (upd ?P ?f (config_rows db)) = filter (\<lambda>r. cr_status r = Active) (config_rows db)"
    by (rule active_after_upd) simp
  have "host_inv C db'" unfolding db'
    by (rule config_inv_upd [OF assms(1)]) (use same host_invD(4) [OF assms(1)] in \<open>simp_all add: row_core_def\<close>)
  moreover have "rows_evolve db db'" unfolding db' by (rule rows_evolve_upd) (simp add: row_step_def row_core_def)
  ultimately show ?thesis using same db' by simp
qed

lemma staged_keyed:
  assumes "host_inv C db" "map_option cr_status (config_at n db) = Some Staged" "r \<in> set (config_rows db)" "cr_revision r = n"
  shows "config_at n db = Some r \<and> cr_status r = Staged"
proof -
  obtain s where s: "config_at n db = Some s" "cr_status s = Staged" using assms(2) by auto
  then have "s \<in> set (config_rows db)" "cr_revision s = n" using sel_SomeD [OF s(1) [unfolded config_at_def]] by blast+
  then have "s = r" using distinct_key_eq [OF host_invD(1) [OF assms(1)] _ assms(3), of s] assms(4) by simp
  with s show ?thesis by simp
qed

lemma activate_step:
  assumes inv: "host_inv C db" and c: "activate C n db = (x, db')"
  shows "(\<exists>e. x = Inl e \<and> db' = db \<and> map_option cr_status (config_at n db) \<noteq> Some Staged) \<or>
    (\<exists>r cfg. config_at n db = Some r \<and> cr_status r = Staged \<and> decode C r = Inr cfg \<and>
      x = Inr (cfg\<lparr>hc_status := Active, hc_error := None\<rparr>) \<and>
      host_inv C db' \<and> rows_evolve db db' \<and> host_auth_row db' = host_auth_row db \<and>
      filter (\<lambda>r. cr_status r = Active) (config_rows db') = [r\<lparr>cr_status := Active, cr_error := None\<rparr>])"
proof (cases "map_option cr_status (config_at n db) = Some Staged")
  case False
  with c show ?thesis by (auto simp: activate_def)
next
  case True
  then obtain r where r: "config_at n db = Some r" "cr_status r = Staged" by auto
  have mem: "r \<in> set (config_rows db)" "cr_revision r = n" using sel_SomeD [OF r(1) [unfolded config_at_def]] by blast+
  let ?g = "\<lambda>r. r\<lparr>cr_status := Inactive\<rparr>" and ?f = "\<lambda>r. r\<lparr>cr_status := Active, cr_error := None\<rparr>"
  let ?db1 = "db\<lparr>config_rows := upd (\<lambda>r. cr_status r = Active) ?g (config_rows db)\<rparr>"
  have none: "filter (\<lambda>r. cr_status r = Active) (upd (\<lambda>r. cr_status r = Active) ?g t) = []" for t by (induction t) auto
  have inv1: "host_inv C ?db1" by (rule config_inv_upd [OF inv]) (simp_all add: none row_core_def)
  have ev1: "rows_evolve db ?db1" by (rule rows_evolve_upd) (simp add: row_step_def row_core_def)
  have mem1: "r \<in> set (config_rows ?db1)" using mem(1) r(2) by (auto simp: set_upd)
  have key1: "s = r" if "s \<in> set (config_rows ?db1)" "cr_revision s = n" for s
    using distinct_key_eq [OF host_invD(1) [OF inv1] that(1) mem1] that(2) mem(2) by simp
  let ?P = "\<lambda>s. cr_revision s = n"
  have db': "db' = ?db1\<lparr>config_rows := upd ?P ?f (config_rows ?db1)\<rparr>" using c True by (auto simp: activate_def Let_def)
  have act: "filter (\<lambda>r. cr_status r = Active) (upd ?P ?f (config_rows ?db1)) = [?f r]"
  proof -
    have m: "filter (\<lambda>s. cr_status s = Active) (upd ?P ?f t) = map ?f (filter ?P t)"
      if "\<forall>s \<in> set t. cr_status s \<noteq> Active" for t using that by (induction t) auto
    have na: "\<forall>s \<in> set (config_rows ?db1). cr_status s \<noteq> Active" using none [of "config_rows db"] by (simp add: filter_empty_conv)
    have one: "filter ?P (config_rows ?db1) = [r]"
      by (rule filter_unique [OF host_invD(1) [OF inv1] mem1]) (simp_all add: mem(2))
    from m [OF na] one show ?thesis by simp
  qed
  have inv': "host_inv C db'" unfolding db' by (rule config_inv_upd [OF inv1]) (use act in \<open>simp_all add: row_core_def\<close>)
  have "rows_evolve ?db1 db'" unfolding db'
    by (rule rows_evolve_upd) (use key1 r(2) in \<open>auto simp: row_step_def row_core_def\<close>)
  with ev1 have ev: "rows_evolve db db'" by (rule rows_evolve_trans)
  obtain cfg where cfg: "decode C r = Inr cfg" using host_invD(3) [OF inv mem(1)] by (auto simp: readable_def)
  have "?f r \<in> set (filter (\<lambda>r. cr_status r = Active) (upd ?P ?f (config_rows ?db1)))" unfolding act by simp
  then have "?f r \<in> set (upd ?P ?f (config_rows ?db1))" by (simp only: set_filter mem_Collect_eq)
  then have "?f r \<in> set (config_rows db')" unfolding db' by simp
  then have "config_at n db' = Some (?f r)"
    unfolding config_at_def by (intro sel_unique [OF host_invD(1) [OF inv']]) (simp_all add: mem(2))
  then have "get_config C n db' = Inr (Some (cfg\<lparr>hc_status := Active, hc_error := None\<rparr>))"
    by (simp add: get_config_def decode_opt_def decode_status cfg)
  then have "x = Inr (cfg\<lparr>hc_status := Active, hc_error := None\<rparr>)" using c True db' by (auto simp: activate_def Let_def found_def)
  with r cfg inv' ev act db' show ?thesis by simp
qed

lemma active_config_inv:
  assumes "host_inv C db"
  shows "\<exists>act. active_config C db = Inr act \<and> (act = None \<longleftrightarrow> active_row db = None) \<and>
    (\<forall>c. act = Some c \<longrightarrow> (\<exists>r. active_row db = Some r \<and> decode C r = Inr c))"
proof (cases "active_row db")
  case None
  then show ?thesis by (simp add: active_config_def decode_opt_def)
next
  case (Some r)
  have "r \<in> set (config_rows db)" using sel_SomeD [OF Some [unfolded active_row_def]] by blast
  then obtain c where "decode C r = Inr c" using host_invD(3) [OF assms] by (auto simp: readable_def)
  with Some show ?thesis by (simp add: active_config_def decode_opt_def)
qed

lemma nonempty_SomeD: "nonempty v = Some s \<Longrightarrow> s \<noteq> []"
  by (auto simp: nonempty_def split: option.splits if_splits)

lemma staged_api_key_nonempty: "staged_api_key v act = Some k \<Longrightarrow> k \<noteq> []"
  by (auto simp: staged_api_key_def dest: nonempty_SomeD split: option.splits)

lemma stage_step:
  assumes C: "cipher_ok C" and inv: "host_inv C db" and c: "stage C d now v db = (x, db')"
  shows "(\<exists>e. x = Inl e \<and> db' = db) \<or>
    (\<exists>act k. active_config C db = Inr act \<and> staged_api_key v act = Some k \<and> hi_expected_revision v = map_option hc_revision act \<and>
      x = Inr (staged_config d now v k (staged_telegram v act) (config_seq db + 1)) \<and>
      db' = db\<lparr>config_rows := config_rows db @ [stage_row C d now v k (staged_telegram v act) (config_seq db + 1)], config_seq := config_seq db + 1\<rparr> \<and>
      config_at (config_seq db + 1) db' = Some (stage_row C d now v k (staged_telegram v act) (config_seq db + 1)) \<and>
      host_inv C db' \<and> rows_evolve db db')"
proof -
  obtain act where act: "active_config C db = Inr act" using active_config_inv [OF inv] by blast
  let ?tg = "staged_telegram v act" and ?n = "config_seq db + 1"
  consider (conflict) "hi_expected_revision v \<noteq> map_option hc_revision act"
    | (no_key) "hi_expected_revision v = map_option hc_revision act" "staged_api_key v act = None"
    | (no_token) k where "hi_expected_revision v = map_option hc_revision act" "staged_api_key v act = Some k"
        "?tg = None" "hi_telegram_user_id v \<noteq> None"
    | (fine) k where "hi_expected_revision v = map_option hc_revision act" "staged_api_key v act = Some k"
        "\<not> (?tg = None \<and> hi_telegram_user_id v \<noteq> None)" by (cases "staged_api_key v act") blast+
  then show ?thesis
  proof cases
    case conflict
    with c [symmetric] act show ?thesis by (cases act) (simp_all add: stage_def)
  next
    case no_key
    with c [symmetric] act show ?thesis by (cases act) (simp_all add: stage_def)
  next
    case no_token
    with c [symmetric] act show ?thesis by (cases act) (simp_all add: stage_def)
  next
    case k: fine
    let ?r = "stage_row C d now v k ?tg ?n"
    let ?db = "db\<lparr>config_rows := config_rows db @ [?r], config_seq := ?n\<rparr>"
    have rev: "cr_revision ?r = ?n" "cr_status ?r = Staged" by (simp_all add: stage_row_def)
    have dec: "decode C ?r = Inr (staged_config d now v k ?tg ?n)"
      by (rule decode_stage_row [OF C staged_api_key_nonempty [OF k(2)]])
    have fresh: "cr_revision s \<noteq> ?n" if "s \<in> set (config_rows db)" for s using host_invD(3) [OF inv that] by linarith
    have at: "config_at ?n ?db = Some ?r"
      using fresh rev(1) by (auto simp: config_at_def sel_append sel_None [THEN iffD2])
    have "host_inv C ?db" by (rule config_inv_append [OF inv rev(1)]) (use rev(2) dec in \<open>simp_all add: readable_def\<close>)
    moreover have "rows_evolve db ?db" unfolding rows_evolve_def
      by (intro exI [of _ "config_rows db"] exI [of _ "[?r]"]) (simp add: list_all2_same)
    moreover have "\<not> (act = None \<and> hi_expected_revision v \<noteq> None)" "\<not> (act \<noteq> None \<and> hi_expected_revision v \<noteq> map_option hc_revision act)"
      using k(1) by auto
    then have "(x, db') = (Inr (staged_config d now v k ?tg ?n), ?db)"
      unfolding c [symmetric] stage_def act sum.case if_not_P if_not_P [OF k(3)] k(2) option.case Let_def
      by (simp add: found_def get_config_def decode_opt_def at dec)
    ultimately show ?thesis using act k at by auto
  qed
qed

lemma sel_filter_one: "filter P t = [r] \<Longrightarrow> sel P t = Some r"
proof -
  assume f: "filter P t = [r]"
  then have "r \<in> set (filter P t)" by simp
  then obtain s where s: "sel P t = Some s" using sel_cong_ex [of t P] by auto
  then have "s \<in> set (filter P t)" using sel_SomeD [OF s] by simp
  with f s show ?thesis by simp
qed

lemma fail_staged:
  assumes "\<forall>s \<in> set (config_rows db). cr_revision s \<noteq> n" "cr_revision r = n" "cr_status r = Staged"
    and "config_rows db1 = config_rows db @ [r]" "fail_config n e db1 = (x, db')"
  shows "\<exists>r'. config_rows db' = config_rows db @ [r'] \<and> cr_status r' = FailedConfig"
proof -
  have "upd (\<lambda>r. cr_revision r = n \<and> cr_status r = Staged) f (config_rows db) = config_rows db" for f
    using assms(1) by (intro upd_none) auto
  with assms(2-5) show ?thesis by (auto simp: fail_config_def Let_def)
qed

lemma apply_step:
  assumes C: "cipher_ok C" and inv: "host_inv C db" and c: "apply_config C d now validation switch v db = (x, db')"
  shows "host_inv C db' \<and> rows_evolve db db' \<and> host_auth_row db' = host_auth_row db \<and>
    (\<forall>w. x = Inr w \<longrightarrow> (\<exists>cfg db1. stage C d now v db = (Inr cfg, db1) \<and>
       active_config C db' = Inr (Some (cfg\<lparr>hc_status := Active\<rparr>)) \<and> w = view (cfg\<lparr>hc_status := Active\<rparr>))) \<and>
    (\<forall>e. x = Inl e \<longrightarrow> active_row db' = active_row db \<and>
       (e \<noteq> HostCancelled \<longrightarrow> filter (\<lambda>r. cr_status r = Staged) (config_rows db') = filter (\<lambda>r. cr_status r = Staged) (config_rows db)))"
    (is "?goal x db'")
proof -
  obtain act where act: "active_config C db = Inr act" using active_config_inv [OF inv] by blast
  have unchanged: "?goal (Inl e) db" for e using inv by simp
  obtain y db1 where s: "stage C d now v db = (y, db1)" by fastforce
  show ?thesis
  proof (cases "validation = StepFine \<and> (\<exists>cfg. y = Inr cfg)")
    case False
    then have "(\<exists>e. x = Inl e) \<and> db' = db"
      using c act s stage_step [OF C inv s] by (cases validation; cases y) (auto simp: apply_config_def)
    with unchanged show ?thesis by blast
  next
    case True
    then obtain cfg where fine: "validation = StepFine" "y = Inr cfg" by blast
    from stage_step [OF C inv s] fine(2) obtain k where
      cfg: "cfg = staged_config d now v k (staged_telegram v act) (config_seq db + 1)" and
      at: "config_at (config_seq db + 1) db1 = Some (stage_row C d now v k (staged_telegram v act) (config_seq db + 1))" and
      db1: "db1 = db\<lparr>config_rows := config_rows db @ [stage_row C d now v k (staged_telegram v act) (config_seq db + 1)], config_seq := config_seq db + 1\<rparr>" and
      inv1: "host_inv C db1" and ev1: "rows_evolve db db1" and k: "staged_api_key v act = Some k"
      using act by auto
    let ?n = "config_seq db + 1" and ?r = "stage_row C d now v k (staged_telegram v act) (config_seq db + 1)"
    have r: "cr_revision ?r = ?n" "cr_status ?r = Staged" "cr_error ?r = None" "hc_revision cfg = ?n" "hc_error cfg = None"
      by (simp_all add: stage_row_def cfg staged_config_def)
    have app: "apply_config C d now validation switch v db = (case switch of
               StepCancelled \<Rightarrow> raises HostCancelled db1
             | StepRaised m \<Rightarrow> raises (HostActivationError m) (snd (fail_config ?n m db1))
             | StepFine \<Rightarrow> (case activate C ?n db1 of
                   (Inl e, db2) \<Rightarrow> raises (HostActivationError generic_error) (snd (fail_config ?n generic_error db2))
                 | (Inr act, db2) \<Rightarrow> ok (view act) db2))"
      unfolding apply_config_def act s fine r(4) [symmetric] by simp
    show ?thesis
    proof (cases switch)
      case StepCancelled
      then have "x = Inl HostCancelled" "db' = db1" using c app by auto
      with inv1 ev1 db1 r(2) show ?thesis by (simp add: active_row_def sel_append split: option.splits)
    next
      case (StepRaised m)
      obtain z db2 where f: "fail_config ?n m db1 = (z, db2)" by fastforce
      have x: "x = Inl (HostActivationError m)" "db' = db2" using c app StepRaised f by auto
      have rows1: "config_rows db1 = config_rows db @ [?r]" using db1 by simp
      have fresh: "\<forall>q \<in> set (config_rows db). cr_revision q \<noteq> ?n" using host_invD(3) [OF inv] by fastforce
      obtain r' where r': "config_rows db' = config_rows db @ [r']" "cr_status r' = FailedConfig"
        using fail_staged [OF fresh r(1,2) rows1 f] x(2) by blast
      have same: "active_row db' = active_row db"
        "filter (\<lambda>r. cr_status r = Staged) (config_rows db') = filter (\<lambda>r. cr_status r = Staged) (config_rows db)"
        using r' by (simp_all add: active_row_def sel_append split: option.splits)
      have "host_auth_row db1 = host_auth_row db" using db1 by simp
      with fail_config_step [OF inv1 f] x same rows_evolve_trans [OF ev1] show ?thesis by simp
    next
      case StepFine
      obtain z db2 where a: "activate C ?n db1 = (z, db2)" by fastforce
      have dec: "decode C ?r = Inr cfg" using decode_stage_row [OF C staged_api_key_nonempty [OF k]] cfg by simp
      have st: "map_option cr_status (config_at ?n db1) = Some Staged" using at r(2) by simp
      from activate_step [OF inv1 a] st at dec have
        z: "z = Inr (cfg\<lparr>hc_status := Active, hc_error := None\<rparr>)" and
        keep: "host_inv C db2" "rows_evolve db1 db2" "host_auth_row db2 = host_auth_row db1"
          "filter (\<lambda>r. cr_status r = Active) (config_rows db2) = [?r\<lparr>cr_status := Active, cr_error := None\<rparr>]" by auto
      have e: "cfg\<lparr>hc_status := Active, hc_error := None\<rparr> = cfg\<lparr>hc_status := Active\<rparr>" using r(5) by simp
      have x: "x = Inr (view (cfg\<lparr>hc_status := Active\<rparr>))" "db' = db2" using c app StepFine a z e by auto
      have "active_row db2 = Some (?r\<lparr>cr_status := Active, cr_error := None\<rparr>)"
        unfolding active_row_def by (rule sel_filter_one [OF keep(4)])
      then have "active_config C db2 = Inr (Some (cfg\<lparr>hc_status := Active\<rparr>))"
        using dec e by (simp add: active_config_def decode_opt_def decode_status)
      moreover have "host_auth_row db1 = host_auth_row db" using db1 by simp
      ultimately show ?thesis using x s fine(2) keep rows_evolve_trans [OF ev1 keep(2)] by auto
    qed
  qed
qed

lemma migrate_rows: "migrate now db = (x, db') \<Longrightarrow> config_rows db' = config_rows db \<and> config_seq db' = config_seq db \<and> owner_hash db' = owner_hash db"
  by (auto simp: migrate_def owner_hash_def nonempty_def split: if_splits option.splits)

lemma setup_rows:
  "configure_setup_token sha now token db = (x, db') \<Longrightarrow>
   config_rows db' = config_rows db \<and> config_seq db' = config_seq db \<and> owner_hash db' = owner_hash db"
  by (auto simp: configure_setup_token_def owner_hash_def nonempty_def Let_def split: if_splits option.splits)

lemma claim_host_rows:
  "claim_host sha now setup owner db = (x, db') \<Longrightarrow> config_rows db' = config_rows db \<and> config_seq db' = config_seq db"
  by (auto simp: claim_host_def Let_def split: if_splits option.splits)

lemma claim_owner:
  assumes "claim_host sha now setup owner db = (x, db')" "owner_hash db = Some h"
  shows "db' = db \<and> (x = Inr () \<longrightarrow> sha (py_strip owner) = h)"
  using assms by (auto simp: claim_host_def owner_hash_def Let_def split: if_splits option.splits)

lemma same_rows:
  assumes "host_inv C db" "config_rows db' = config_rows db" "config_seq db' = config_seq db"
  shows "host_inv C db' \<and> rows_evolve db db'"
proof -
  have "rows_evolve db db' = rows_evolve db db" by (simp only: rows_evolve_def assms(2))
  with assms show ?thesis by (simp add: host_inv_def)
qed

lemma host_exec_step:
  assumes C: "cipher_ok C" and inv: "host_inv C db" and c: "host_exec C sha c db = (x, db')"
  shows "host_inv C db' \<and> rows_evolve db db'"
proof (cases c)
  case (StageConfig d now v)
  then obtain y where "stage C d now v db = (y, db')" using c by (cases "stage C d now v db") (auto simp: as_unit_def)
  from stage_step [OF C inv this] inv show ?thesis by auto
next
  case (ActivateConfig n)
  then obtain y where "activate C n db = (y, db')" using c by (cases "activate C n db") (auto simp: as_unit_def)
  from activate_step [OF inv this] inv show ?thesis by auto
next
  case (ApplyConfig d now validation switch v)
  then obtain y where "apply_config C d now validation switch v db = (y, db')"
    using c by (cases "apply_config C d now validation switch v db") (auto simp: as_unit_def)
  from apply_step [OF C inv this] show ?thesis by blast
next
  case (FailConfig n e)
  with fail_config_step [OF inv] c show ?thesis by simp
qed (use c same_rows [OF inv] migrate_rows setup_rows claim_host_rows in auto)

lemma stage_auth: "stage C d now v db = (x, db') \<Longrightarrow> host_auth_row db' = host_auth_row db"
  by (auto simp: stage_def Let_def split: sum.splits option.splits if_splits)

lemma activate_auth: "activate C n db = (x, db') \<Longrightarrow> host_auth_row db' = host_auth_row db"
  by (auto simp: activate_def Let_def split: if_splits)

lemma fail_auth: "fail_config n e db = (x, db') \<Longrightarrow> host_auth_row db' = host_auth_row db"
  by (auto simp: fail_config_def Let_def)

lemma snd_auth:
  "host_auth_row (snd (stage C d now v db)) = host_auth_row db" "host_auth_row (snd (activate C n db)) = host_auth_row db"
  "host_auth_row (snd (fail_config n e db)) = host_auth_row db"
  by (metis prod.collapse stage_auth, metis prod.collapse activate_auth, metis prod.collapse fail_auth)

lemma apply_auth: "host_auth_row (snd (apply_config C d now validation switch v db)) = host_auth_row db"
  using snd_auth(1) [of C d now v db]
  by (auto simp: apply_config_def snd_auth(3) split: sum.splits prod.splits step_outcome.splits dest!: stage_auth activate_auth)

lemma owner_step:
  assumes "owner_hash db = Some h"
  shows "owner_hash (snd (host_exec C sha c db)) = Some h"
proof (cases c)
  case (Migrate now)
  with assms migrate_rows [of now db] show ?thesis by (cases "migrate now db") simp
next
  case (ConfigureSetupToken now token)
  with assms setup_rows [of sha now token db] show ?thesis by (cases "configure_setup_token sha now token db") simp
next
  case (ClaimHost now st owner)
  with assms claim_owner [of sha now st owner db] show ?thesis by (cases "claim_host sha now st owner db") simp
qed (use assms in \<open>simp_all add: owner_hash_def as_unit_def snd_auth apply_auth\<close>)

definition kept_inv :: "host_cipher \<Rightarrow> host_db \<Rightarrow> bool" where
  "kept_inv C db = (cipher_ok C \<longrightarrow> host_inv C db)"

interpretation host_calls: call_system "host_exec C sha" empty_host_db "kept_inv C"
  for C :: host_cipher and sha :: "string \<Rightarrow> string"
proof
  show "kept_inv C empty_host_db" by (simp add: kept_inv_def host_inv_def empty_host_db_def)
  show "kept_inv C (snd (host_exec C sha c db))" if "kept_inv C db" for db c
    using that host_exec_step [of C db sha c] by (cases "host_exec C sha c db") (auto simp: kept_inv_def)
qed

lemma run_evolves:
  assumes "cipher_ok C" "host_inv C db"
  shows "rows_evolve db (snd (run_calls (host_exec C sha) cs db))"
  using assms(2)
proof (induction cs arbitrary: db)
  case (Cons c cs)
  obtain x db1 where c: "host_exec C sha c db = (x, db1)" by fastforce
  note s = host_exec_step [OF assms(1) Cons.prems c]
  from rows_evolve_trans [OF conjunct2 [OF s] Cons.IH [OF conjunct1 [OF s]]] c show ?case by (simp add: Let_def)
qed simp

lemma reachable_host_inv: "cipher_ok C \<Longrightarrow> host_inv C (snd (run_calls (host_exec C sha) cs empty_host_db))"
  using host_calls.run_start_inv [of C sha cs] by (simp add: kept_inv_def)

lemma evolve_row:
  assumes "rows_evolve db db'" "r \<in> set (config_rows db)"
  shows "\<exists>r' \<in> set (config_rows db'). row_step r r'"
proof -
  obtain old new where "config_rows db' = old @ new" "list_all2 row_step (config_rows db) old"
    using assms(1) by (auto simp: rows_evolve_def)
  with assms(2) show ?thesis by (fastforce simp: list_all2_conv_all_nth in_set_conv_nth)
qed

lemma step_decode:
  assumes "row_step r r'" "decode C r = Inr c"
  shows "decode C r' = Inr (c\<lparr>hc_status := cr_status r', hc_error := cr_error r'\<rparr>)"
proof -
  have "r' = r\<lparr>cr_status := cr_status r', cr_error := cr_error r'\<rparr>"
    using assms(1) by (cases r; cases r') (simp add: row_step_def row_core_def)
  with assms(2) decode_status [where C = C and r = r and s = "cr_status r'" and e = "cr_error r'"] show ?thesis by simp
qed

lemma get_stored:
  assumes "host_inv C db" "r \<in> set (config_rows db)"
  shows "get_config C (cr_revision r) db = (case decode C r of Inl e \<Rightarrow> Inl e | Inr c \<Rightarrow> Inr (Some c))"
proof -
  have "config_at (cr_revision r) db = Some r"
    unfolding config_at_def by (rule sel_unique [OF host_invD(1) [OF assms(1)] assms(2)]) simp_all
  then show ?thesis by (simp add: get_config_def decode_opt_def)
qed

section \<open>Properties\<close>

text \<open>
  After any calls on the host store, its configuration is in order: revisions are distinct, at
  most one is active, and every stored one can be decrypted and read. Whatever calls follow, a
  revision keeps its content and moves only forward, from staged to active or failed and from active
  to inactive. The cipher is assumed to open what it sealed.
\<close>

theorem host_configs_stay_consistent:
  assumes "cipher_ok C" "db = snd (run_calls (host_exec C sha) cs empty_host_db)" "db' = snd (run_calls (host_exec C sha) cs' db)"
  shows "distinct (map cr_revision (config_rows db)) \<and> length (filter (\<lambda>r. cr_status r = Active) (config_rows db)) \<le> 1 \<and>
    (\<forall>r \<in> set (config_rows db). (\<exists>c. get_config C (cr_revision r) db = Inr (Some c)) \<and>
       (\<exists>r' \<in> set (config_rows db'). row_core r' = row_core r \<and> status_le (cr_status r) (cr_status r')))"
proof -
  have inv: "host_inv C db" unfolding assms(2) by (rule reachable_host_inv [OF assms(1)])
  have ev: "rows_evolve db db'" unfolding assms(3) by (rule run_evolves [OF assms(1) inv])
  have "(\<exists>c. get_config C (cr_revision r) db = Inr (Some c)) \<and>
      (\<exists>r' \<in> set (config_rows db'). row_core r' = row_core r \<and> status_le (cr_status r) (cr_status r'))"
    if r: "r \<in> set (config_rows db)" for r
  proof -
    obtain c where "decode C r = Inr c" using host_invD(3) [OF inv r] by (auto simp: readable_def)
    with get_stored [OF inv r] evolve_row [OF ev r] show ?thesis by (auto simp: row_step_def)
  qed
  with host_invD(1,4) [OF inv] show ?thesis by blast
qed

definition plain_cipher :: host_cipher where
  "plain_cipher = \<lparr>ci_key_id = ''host-v1'', ci_seal = (\<lambda>n p ad. ad @ p),
     ci_open = (\<lambda>n c ad. if take (length ad) c = ad then Some (drop (length ad) c) else None), ci_str = (\<lambda>_. [])\<rparr>"

definition example_input :: host_config_input where
  "example_input = \<lparr>hi_expected_revision = None, hi_api_key = Some ''sk'', hi_base_url = ''https://m'', hi_model = ''m'',
     hi_telegram_bot_token = Some ''12345:abcdefgh'', hi_telegram_user_id = None\<rparr>"

definition zero_draws :: stage_draws where
  "zero_draws name i = CHR 0x00"

lemma plain_cipher_ok: "cipher_ok plain_cipher"
  by (simp add: cipher_ok_def plain_cipher_def)

lemma example_stage:
  "\<exists>db1. stage plain_cipher zero_draws (At 1) example_input empty_host_db =
     (Inr (staged_config zero_draws (At 1) example_input ''sk'' (Some ''12345:abcdefgh'') 1), db1) \<and> (\<exists>r \<in> set (config_rows db1). cr_revision r = 1)"
proof -
  have a: "active_config plain_cipher empty_host_db = Inr None"
    by (simp add: active_config_def active_row_def decode_opt_def empty_host_db_def)
  have i: "staged_api_key example_input None = Some ''sk''" "staged_telegram example_input None = Some ''12345:abcdefgh''"
    "hi_expected_revision example_input = None"
    by (simp_all add: staged_api_key_def staged_telegram_def example_input_def nonempty_def)
  have "cr_revision (stage_row plain_cipher zero_draws (At 1) example_input ''sk'' (Some ''12345:abcdefgh'') 1) = 1"
    by (simp add: stage_row_def)
  moreover have "config_rows empty_host_db = []" "config_seq empty_host_db = 0" by (simp_all add: empty_host_db_def)
  ultimately show ?thesis
    by (simp add: stage_def a i get_config_def config_at_def decode_opt_def found_def decode_stage_row [OF plain_cipher_ok] Let_def)
qed

theorem host_configs_stay_consistent_witness:
  "\<exists>c. get_config plain_cipher 1
     (snd (run_calls (host_exec plain_cipher (\<lambda>s. s)) [StageConfig zero_draws (At 1) example_input] empty_host_db)) = Inr (Some c)"
proof -
  let ?db = "snd (run_calls (host_exec plain_cipher (\<lambda>s. s)) [StageConfig zero_draws (At 1) example_input] empty_host_db)"
  obtain r where "r \<in> set (config_rows ?db)" "cr_revision r = 1" using example_stage by (auto simp: as_unit_def)
  with host_configs_stay_consistent [OF plain_cipher_ok refl refl, of "\<lambda>s. s" "[StageConfig zero_draws (At 1) example_input]"]
  show ?thesis by fastforce
qed

text \<open>
  A staged configuration is what the owner submitted and stays readable. The secrets that were
  given come back after encryption, Base64 and storage; a missing API key or bot token is taken from
  the active configuration. Whatever calls follow, reading the revision gives the same configuration
  up to its status and error.
\<close>

theorem staged_config_reads_back:
  assumes "cipher_ok C" "db = snd (run_calls (host_exec C sha) cs empty_host_db)"
    and "stage C d now v db = (Inr cfg, db1)" "db2 = snd (run_calls (host_exec C sha) cs2 db1)"
  shows "\<exists>act s e. active_config C db = Inr act \<and>
    get_config C (hc_revision cfg) db2 = Inr (Some (cfg\<lparr>hc_status := s, hc_error := e\<rparr>)) \<and>
    hc_base_url cfg = hi_base_url v \<and> hc_model cfg = hi_model v \<and> hc_telegram_user_id cfg = hi_telegram_user_id v \<and>
    Some (hc_api_key cfg) = staged_api_key v act \<and> hc_telegram_bot_token cfg = nonempty (staged_telegram v act)"
proof -
  have inv: "host_inv C db" unfolding assms(2) by (rule reachable_host_inv [OF assms(1)])
  from stage_step [OF assms(1) inv assms(3)] obtain act k where
    act: "active_config C db = Inr act" "staged_api_key v act = Some k" and
    cfg: "cfg = staged_config d now v k (staged_telegram v act) (config_seq db + 1)" and
    db1: "config_rows db1 = config_rows db @ [stage_row C d now v k (staged_telegram v act) (config_seq db + 1)]" and
    inv1: "host_inv C db1" by auto
  let ?r = "stage_row C d now v k (staged_telegram v act) (config_seq db + 1)"
  have dec: "decode C ?r = Inr cfg" unfolding cfg by (rule decode_stage_row [OF assms(1) staged_api_key_nonempty [OF act(2)]])
  have "?r \<in> set (config_rows db1)" using db1 by simp
  from evolve_row [OF run_evolves [OF assms(1) inv1] this, of sha cs2] obtain r' where
    r': "r' \<in> set (config_rows db2)" "row_step ?r r'" unfolding assms(4) by blast
  have inv2: "host_inv C db2"
    unfolding assms(4) using host_calls.run_inv [of C db1 sha cs2] inv1 assms(1) by (simp add: kept_inv_def)
  have "cr_revision r' = hc_revision cfg"
    using r'(2) core_revision [of r' ?r] by (simp add: row_step_def cfg staged_config_def stage_row_def)
  then have "get_config C (hc_revision cfg) db2 = Inr (Some (cfg\<lparr>hc_status := cr_status r', hc_error := cr_error r'\<rparr>))"
    using get_stored [OF inv2 r'(1)] step_decode [OF r'(2) dec] by simp
  with act cfg show ?thesis by (auto simp: staged_config_def)
qed

theorem staged_config_reads_back_witness:
  "\<exists>cfg db1. stage plain_cipher zero_draws (At 1) example_input empty_host_db = (Inr cfg, db1) \<and> hc_api_key cfg = ''sk'' \<and>
    (\<exists>s e. get_config plain_cipher (hc_revision cfg) (snd (run_calls (host_exec plain_cipher (\<lambda>s. s)) [ActivateConfig 1] db1)) =
       Inr (Some (cfg\<lparr>hc_status := s, hc_error := e\<rparr>)))"
proof -
  have e: "empty_host_db = snd (run_calls (host_exec plain_cipher (\<lambda>s. s)) [] empty_host_db)" by simp
  obtain cfg db1 where s: "stage plain_cipher zero_draws (At 1) example_input empty_host_db = (Inr cfg, db1)"
    using example_stage by blast
  have "staged_api_key example_input act = Some ''sk''" for act by (simp add: staged_api_key_def example_input_def nonempty_def)
  with staged_config_reads_back [OF plain_cipher_ok e s refl, of "[ActivateConfig 1]"] s show ?thesis by auto
qed

text \<open>
  C22: A configuration whose activation fails never replaces the active one. Applying a configuration
  either succeeds, and then the active configuration is exactly the staged one and the caller gets
  its secret-free view; or it raises, and then the active configuration is untouched and, unless the
  task was cancelled, the attempt leaves nothing staged.
\<close>

theorem failed_activation_keeps_active_config:
  assumes "cipher_ok C" "db = snd (run_calls (host_exec C sha) cs empty_host_db)"
    and "apply_config C d now validation switch v db = (x, db')"
  shows "case x of
      Inl e \<Rightarrow> active_config C db' = active_config C db \<and>
        (e = HostCancelled \<or> filter (\<lambda>r. cr_status r = Staged) (config_rows db') = filter (\<lambda>r. cr_status r = Staged) (config_rows db))
    | Inr w \<Rightarrow> (\<exists>cfg db1. stage C d now v db = (Inr cfg, db1) \<and>
        active_config C db' = Inr (Some (cfg\<lparr>hc_status := Active\<rparr>)) \<and> w = view (cfg\<lparr>hc_status := Active\<rparr>))"
proof -
  have inv: "host_inv C db" unfolding assms(2) by (rule reachable_host_inv [OF assms(1)])
  from apply_step [OF assms(1) inv assms(3)] show ?thesis by (cases x) (auto simp: active_config_def)
qed

theorem failed_activation_keeps_active_config_witness:
  "active_config plain_cipher (snd (apply_config plain_cipher zero_draws (At 1) StepFine (StepRaised ''x'') example_input empty_host_db)) = Inr None"
proof -
  let ?a = "apply_config plain_cipher zero_draws (At 1) StepFine (StepRaised ''x'') example_input empty_host_db"
  have e: "empty_host_db = snd (run_calls (host_exec plain_cipher (\<lambda>s. s)) [] empty_host_db)" by simp
  have a: "active_config plain_cipher empty_host_db = Inr None"
    by (simp add: active_config_def active_row_def decode_opt_def empty_host_db_def)
  have "fst ?a = Inl (HostActivationError ''x'')" using example_stage a by (auto simp: apply_config_def)
  then have "?a = (Inl (HostActivationError ''x''), snd ?a)" by (cases ?a) simp
  from failed_activation_keeps_active_config [OF plain_cipher_ok e this] a show ?thesis by simp
qed

text \<open>
  C23: The host has one owner for good. A claim of an unclaimed host succeeds only with the configured
  setup token; after it, whatever calls follow, exactly the tokens with the owner's hash are
  authorized and any further claim that succeeds is by such a token and changes nothing.
\<close>

theorem host_ownership_is_permanent:
  assumes hash_nonempty: "\<forall>s. sha s \<noteq> []"
    and "claim_host sha now given owner db = (Inr (), db1)" "db2 = snd (run_calls (host_exec C sha) cs db1)"
  shows "(claimed db \<or> (\<exists>a. host_auth_row db = Some a \<and>
        ha_setup_token_hash a = Some (sha (py_strip (case given of None \<Rightarrow> [] | Some s \<Rightarrow> s))))) \<and>
    (authorize_owner sha (Some token) db2 \<longleftrightarrow> py_strip token \<noteq> [] \<and> sha (py_strip token) = sha (py_strip owner)) \<and>
    (claim_host sha now2 given2 owner2 db2 = (Inr (), db3) \<longrightarrow> db3 = db2 \<and> sha (py_strip owner2) = sha (py_strip owner))"
proof -
  have one: "owner_hash db1 = Some (sha (py_strip owner))"
    using assms(2) hash_nonempty by (auto simp: claim_host_def owner_hash_def nonempty_def Let_def split: if_splits option.splits)
  have "owner_hash db2 = Some (sha (py_strip owner))"
    unfolding assms(3) by (rule run_calls_keep [where P = "\<lambda>d. owner_hash d = Some (sha (py_strip owner))"]) (use one owner_step in blast)+
  then have two: "authorize_owner sha (Some token) db2 \<longleftrightarrow> py_strip token \<noteq> [] \<and> sha (py_strip token) = sha (py_strip owner)"
    "claim_host sha now2 given2 owner2 db2 = (Inr (), db3) \<longrightarrow> db3 = db2 \<and> sha (py_strip owner2) = sha (py_strip owner)"
    using claim_owner [of sha now2 given2 owner2 db2 "Inr ()" db3] by (auto simp: authorize_owner_def Let_def)
  have "claimed db \<or> (\<exists>a. host_auth_row db = Some a \<and>
      ha_setup_token_hash a = Some (sha (py_strip (case given of None \<Rightarrow> [] | Some s \<Rightarrow> s))))"
    using assms(2) by (auto simp: claim_host_def claimed_def owner_hash_def nonempty_def Let_def split: if_splits option.splits)
  with two show ?thesis by blast
qed

theorem host_ownership_is_permanent_witness:
  "authorize_owner (\<lambda>s. CHR ''h'' # s) (Some (replicate 40 CHR ''o''))
     (snd (run_calls (host_exec plain_cipher (\<lambda>s. CHR ''h'' # s)) [ConfigureSetupToken (At 9) (replicate 20 CHR ''z'')]
       (snd (claim_host (\<lambda>s. CHR ''h'' # s) (At 3) (Some (replicate 20 CHR ''s'')) (replicate 40 CHR ''o'')
         \<lparr>schema_version = Some 1, host_auth_row = Some \<lparr>ha_owner_token_hash = None,
            ha_setup_token_hash = Some (CHR ''h'' # replicate 20 CHR ''s''), ha_updated_at = At 1\<rparr>, config_rows = [], config_seq = 0\<rparr>))))"
proof -
  let ?sha = "\<lambda>s. CHR ''h'' # s"
  let ?db = "\<lparr>schema_version = Some 1, host_auth_row = Some \<lparr>ha_owner_token_hash = None,
    ha_setup_token_hash = Some (CHR ''h'' # replicate 20 CHR ''s''), ha_updated_at = At 1\<rparr>, config_rows = [], config_seq = 0\<rparr>"
  let ?c = "claim_host ?sha (At 3) (Some (replicate 20 CHR ''s'')) (replicate 40 CHR ''o'') ?db"
  have "fst ?c = Inr ()" by code_simp
  then have c: "?c = (Inr (), snd ?c)" by (cases ?c) simp
  have t: "py_strip (replicate 40 CHR ''o'') \<noteq> []" by code_simp
  have n: "\<forall>s. ?sha s \<noteq> []" by simp
  from host_ownership_is_permanent [OF n c refl, of "replicate 40 CHR ''o''"] t show ?thesis by blast
qed

end
