(* ===== verification/SecretVault.thy ===== *)
theory SecretVault
  imports HostConfig SpecModels Ids
begin

text \<open>
  \<^verbatim>\<open>secrets/models.py\<close>, \<^verbatim>\<open>secrets/vault.py\<close> and \<^verbatim>\<open>secrets/service.py\<close>: the vault of tenant secrets. A secret is
  a handle with a history of revisions (pending, active, revoked); a value is stored encrypted with the
  cipher of \<^verbatim>\<open>secrets/cipher.py\<close>, leaves the vault only through a grant that is redeemed once, and is
  removed from texts and payloads before they are logged. Arguments of the operations are clock
  readings, drawn bytes (\<open>uuid4\<close>, \<open>token_urlsafe\<close>, the nonce) and SHA-256 in hex (\<open>sha\<close>).
  A rolled back transaction leaves the database as it was.
\<close>

section \<open>Data\<close>

datatype secret_state = Pending | ActiveSecret | Revoked

datatype vault_error =
    VaultValueError string
  | VaultValidationError validation_error
  | VaultConflictError string
  | VaultNotFoundError string
  | SecretGrantError string
  | VaultCipherError host_error
  | VaultDecodeError
  | VaultIntegrityError
  | VaultTypeError

record secret_handle =
  sh_tenant_id :: string
  sh_id :: string
  sh_revision :: int
  sh_name :: string
  sh_state :: secret_state
  sh_scopes :: "string list"
  sh_created_at :: timestamp
  sh_created_by :: string

record secret_grant_receipt =
  gr_id :: string
  gr_tenant_id :: string
  gr_secret_id :: string
  gr_secret_revision :: int
  gr_capability_id :: string
  gr_scopes :: "string list"
  gr_expires_at :: timestamp

record issued_secret_grant =
  ig_receipt :: secret_grant_receipt
  ig_token :: string

record secret_material =
  sm_grant_id :: string
  sm_secret_id :: string
  sm_name :: string
  sm_scope :: string
  sm_value :: string

text \<open>The three tables. The columns \<open>key_id\<close>, \<open>nonce\<close> and \<open>ciphertext\<close> are null together.\<close>

record secret_revision =
  sr_tenant_id :: string
  sr_id :: string
  sr_revision :: int
  sr_name :: string
  sr_state :: secret_state
  sr_scopes :: "string list"
  sr_sealed :: "encrypted_secret option"
  sr_created_at :: timestamp
  sr_created_by :: string

record secret_ref =
  cf_tenant_id :: string
  cf_id :: string
  cf_revision :: int
  cf_updated_at :: timestamp
  cf_updated_by :: string

record secret_grant =
  sg_id :: string
  sg_tenant_id :: string
  sg_secret_id :: string
  sg_secret_revision :: int
  sg_capability_id :: string
  sg_scopes :: "string list"
  sg_token_hash :: string
  sg_expires_at :: timestamp
  sg_created_at :: timestamp
  sg_consumed_at :: "timestamp option"

record vault_db =
  secret_revisions :: "secret_revision list"
  secret_current_refs :: "secret_ref list"
  secret_grants :: "secret_grant list"

definition empty_vault :: vault_db where
  "empty_vault = \<lparr>secret_revisions = [], secret_current_refs = [], secret_grants = []\<rparr>"

section \<open>Models\<close>

text \<open>\<open>^[a-z][a-z0-9_]*(?:\.[a-z][a-z0-9_]*)*$\<close>; the flag says that a segment has to begin.\<close>

fun secret_scope :: "bool \<Rightarrow> string \<Rightarrow> bool" where
  "secret_scope start [] = (\<not> start)"
| "secret_scope start (c # cs) =
     (if start then is_lower c \<and> secret_scope False cs
      else if c = CHR ''.'' then secret_scope True cs
      else (is_lower c \<or> is_digit c \<or> c = CHR ''_'') \<and> secret_scope False cs)"

definition scopes_ok :: "string list \<Rightarrow> bool" where
  "scopes_ok s = (sized 1 100 s \<and> list_all (secret_scope True) s)"

definition handle_norm :: "secret_handle \<Rightarrow> secret_handle" where
  "handle_norm h = h\<lparr>sh_tenant_id := py_strip (sh_tenant_id h), sh_id := py_strip (sh_id h), sh_name := py_strip (sh_name h),
     sh_scopes := map py_strip (sh_scopes h), sh_created_by := py_strip (sh_created_by h)\<rparr>"

definition handle_fields :: "secret_handle \<Rightarrow> string list" where
  "handle_fields h = bad ''tenant_id'' (protocol_id (sh_tenant_id h)) @ bad ''id'' (slug (sh_id h)) @
     bad ''revision'' (1 \<le> sh_revision h) @ bad ''name'' (slug (sh_name h)) @ bad ''scopes'' (scopes_ok (sh_scopes h)) @
     bad ''created_by'' (protocol_id (sh_created_by h))"

definition SecretHandle :: "secret_handle \<Rightarrow> vault_error + secret_handle" where
  "SecretHandle h = map_sum VaultValidationError id (construct handle_norm handle_fields (\<lambda>_. None) h)"

definition receipt_norm :: "secret_grant_receipt \<Rightarrow> secret_grant_receipt" where
  "receipt_norm r = r\<lparr>gr_id := py_strip (gr_id r), gr_tenant_id := py_strip (gr_tenant_id r), gr_secret_id := py_strip (gr_secret_id r),
     gr_capability_id := py_strip (gr_capability_id r), gr_scopes := map py_strip (gr_scopes r)\<rparr>"

definition receipt_fields :: "secret_grant_receipt \<Rightarrow> string list" where
  "receipt_fields r = bad ''id'' (slug (gr_id r)) @ bad ''tenant_id'' (protocol_id (gr_tenant_id r)) @
     bad ''secret_id'' (slug (gr_secret_id r)) @ bad ''secret_revision'' (1 \<le> gr_secret_revision r) @
     bad ''capability_id'' (slug (gr_capability_id r)) @ bad ''scopes'' (scopes_ok (gr_scopes r))"

definition SecretGrantReceipt :: "secret_grant_receipt \<Rightarrow> vault_error + secret_grant_receipt" where
  "SecretGrantReceipt r = map_sum VaultValidationError id (construct receipt_norm receipt_fields (\<lambda>_. None) r)"

definition material_norm :: "secret_material \<Rightarrow> secret_material" where
  "material_norm m = m\<lparr>sm_grant_id := py_strip (sm_grant_id m), sm_secret_id := py_strip (sm_secret_id m),
     sm_name := py_strip (sm_name m), sm_scope := py_strip (sm_scope m)\<rparr>"

definition material_fields :: "secret_material \<Rightarrow> string list" where
  "material_fields m = bad ''grant_id'' (slug (sm_grant_id m)) @ bad ''secret_id'' (slug (sm_secret_id m)) @
     bad ''name'' (slug (sm_name m)) @ bad ''scope'' (secret_scope True (sm_scope m))"

definition SecretMaterial :: "secret_material \<Rightarrow> vault_error + secret_material" where
  "SecretMaterial m = map_sum VaultValidationError id (construct material_norm material_fields (\<lambda>_. None) m)"

lemma model_iff:
  "map_sum VaultValidationError id (construct norm flds (\<lambda>_. None) x) = Inr y \<longleftrightarrow> y = norm x \<and> flds y = []"
  by (auto simp: construct_def Let_def split: if_splits)

lemmas SecretHandle_iff = model_iff [of handle_norm handle_fields, folded SecretHandle_def]
  and SecretGrantReceipt_iff = model_iff [of receipt_norm receipt_fields, folded SecretGrantReceipt_def]
  and SecretMaterial_iff = model_iff [of material_norm material_fields, folded SecretMaterial_def]

lemma handle_norm_idem [simp]: "handle_norm (handle_norm h) = handle_norm h"
  by (simp add: handle_norm_def)

lemma handle_norm_sel [simp]:
  "sh_tenant_id (handle_norm h) = py_strip (sh_tenant_id h)" "sh_id (handle_norm h) = py_strip (sh_id h)"
  "sh_revision (handle_norm h) = sh_revision h" "sh_name (handle_norm h) = py_strip (sh_name h)"
  "sh_state (handle_norm h) = sh_state h" "sh_scopes (handle_norm h) = map py_strip (sh_scopes h)"
  "sh_created_at (handle_norm h) = sh_created_at h" "sh_created_by (handle_norm h) = py_strip (sh_created_by h)"
  by (simp_all add: handle_norm_def)

section \<open>Helpers of the vault\<close>

definition scopes_of :: "string list \<Rightarrow> vault_error + string list" where
  "scopes_of v = (let scopes = map py_strip v in
     if scopes = [] \<or> list_ex (\<lambda>s. s = []) scopes then Inl (VaultValueError ''at least one non-empty secret scope is required'')
     else if \<not> distinct scopes then Inl (VaultValueError ''secret scopes must be unique'')
     else Inr scopes)"

definition handle_of :: "secret_revision \<Rightarrow> vault_error + secret_handle" where
  "handle_of row = SecretHandle \<lparr>sh_tenant_id = sr_tenant_id row, sh_id = sr_id row, sh_revision = sr_revision row,
     sh_name = sr_name row, sh_state = sr_state row, sh_scopes = sr_scopes row, sh_created_at = sr_created_at row,
     sh_created_by = sr_created_by row\<rparr>"

definition secret_aad :: "string \<Rightarrow> string \<Rightarrow> int \<Rightarrow> string \<Rightarrow> string" where
  "secret_aad tenant_id secret_id revision name =
     utf8 (''opentulpa-secret-v1'' @ [CHR 0x00] @ tenant_id @ [CHR 0x00] @ secret_id @ [CHR 0x00] @ str_int revision @ [CHR 0x00] @ name)"

definition clean_value :: "string \<Rightarrow> vault_error + string" where
  "clean_value v = (let encoded = utf8 v in
     if encoded = [] then Inl (VaultValueError ''secret value must not be empty'')
     else if 1048576 < length encoded then Inl (VaultValueError ''secret value must be at most 1 MiB'')
     else Inr encoded)"

definition row_of_secret :: "string \<Rightarrow> string \<Rightarrow> secret_revision \<Rightarrow> bool" where
  "row_of_secret t i r = (sr_tenant_id r = t \<and> sr_id r = i)"

definition revision_row :: "string \<Rightarrow> string \<Rightarrow> int \<Rightarrow> vault_db \<Rightarrow> secret_revision option" where
  "revision_row t i n db = sel (\<lambda>r. row_of_secret t i r \<and> sr_revision r = n) (secret_revisions db)"

definition current_ref :: "string \<Rightarrow> string \<Rightarrow> vault_db \<Rightarrow> secret_ref option" where
  "current_ref t i db = sel (\<lambda>f. cf_tenant_id f = t \<and> cf_id f = i) (secret_current_refs db)"

text \<open>The join of \<open>secret_current_refs\<close> with \<open>secret_revisions\<close>.\<close>

definition current_row :: "string \<Rightarrow> string \<Rightarrow> vault_db \<Rightarrow> vault_error + secret_revision" where
  "current_row t i db = (case current_ref t i db of None \<Rightarrow> Inl (VaultNotFoundError i)
     | Some f \<Rightarrow> (case revision_row t i (cf_revision f) db of None \<Rightarrow> Inl (VaultNotFoundError i) | Some r \<Rightarrow> Inr r))"

definition insert_secret_revision :: "secret_revision \<Rightarrow> (vault_db, vault_error, unit) oper" where
  "insert_secret_revision r db = (case revision_row (sr_tenant_id r) (sr_id r) (sr_revision r) db of
     Some _ \<Rightarrow> raises VaultIntegrityError db
   | None \<Rightarrow> ok () (db\<lparr>secret_revisions := secret_revisions db @ [r]\<rparr>))"

definition advance_current_ref :: "secret_handle \<Rightarrow> int \<Rightarrow> timestamp \<Rightarrow> string \<Rightarrow> (vault_db, vault_error, unit) oper" where
  "advance_current_ref h expected_revision updated_at updated_by db =
     (let P = (\<lambda>f. cf_tenant_id f = sh_tenant_id h \<and> cf_id f = sh_id h \<and> cf_revision f = expected_revision) in
      if length (filter P (secret_current_refs db)) \<noteq> 1
      then raises (VaultConflictError ''secret changed during revision transition'') db
      else ok () (db\<lparr>secret_current_refs := upd P (\<lambda>f. f\<lparr>cf_revision := sh_revision h, cf_updated_at := updated_at,
        cf_updated_by := updated_by\<rparr>) (secret_current_refs db)\<rparr>))"

text \<open>A transaction: an exception inside it undoes every write.\<close>

definition transaction :: "(vault_db, vault_error, 'a) oper \<Rightarrow> (vault_db, vault_error, 'a) oper" where
  "transaction body db = (case body db of (Inl e, _) \<Rightarrow> raises e db | (Inr x, db') \<Rightarrow> ok x db')"

section \<open>Handles\<close>

definition create_pending :: "nat list \<Rightarrow> timestamp \<Rightarrow> string \<Rightarrow> string \<Rightarrow> string list \<Rightarrow> string \<Rightarrow> string option \<Rightarrow>
    (vault_db, vault_error, secret_handle) oper" where
  "create_pending uuid now tenant_id name scopes created_by secret_id =
     checked (case py_strip (case secret_id of None \<Rightarrow> [] | Some s \<Rightarrow> s) of
          [] \<Rightarrow> map_sum VaultValueError id (new_short_id uuid ''sec'' 12) | s \<Rightarrow> Inr s) (\<lambda>handle_id.
     checked (scopes_of scopes) (\<lambda>scopes.
     checked (SecretHandle \<lparr>sh_tenant_id = tenant_id, sh_id = handle_id, sh_revision = 1, sh_name = name, sh_state = Pending,
         sh_scopes = scopes, sh_created_at = now, sh_created_by = created_by\<rparr>) (\<lambda>handle.
     transaction (\<lambda>db.
       if current_ref (sh_tenant_id handle) (sh_id handle) db \<noteq> None
       then raises (VaultConflictError ''secret handle already exists'') db
       else case insert_secret_revision \<lparr>sr_tenant_id = sh_tenant_id handle, sr_id = sh_id handle, sr_revision = 1,
              sr_name = sh_name handle, sr_state = Pending, sr_scopes = sh_scopes handle, sr_sealed = None,
              sr_created_at = sh_created_at handle, sr_created_by = sh_created_by handle\<rparr> db of
           (Inl e, db) \<Rightarrow> raises e db
         | (Inr _, db) \<Rightarrow> ok handle (db\<lparr>secret_current_refs := secret_current_refs db @
             [\<lparr>cf_tenant_id = sh_tenant_id handle, cf_id = sh_id handle, cf_revision = 1,
               cf_updated_at = sh_created_at handle, cf_updated_by = sh_created_by handle\<rparr>]\<rparr>)))))"

definition get_handle :: "string \<Rightarrow> string \<Rightarrow> vault_db \<Rightarrow> vault_error + secret_handle option" where
  "get_handle t i db = (case current_row t i db of Inl _ \<Rightarrow> Inr None | Inr r \<Rightarrow> map_sum id Some (handle_of r))"

fun handles_of :: "secret_revision list \<Rightarrow> vault_error + secret_handle list" where
  "handles_of [] = Inr []"
| "handles_of (r # rs) = (case handle_of r of Inl e \<Rightarrow> Inl e
     | Inr h \<Rightarrow> (case handles_of rs of Inl e \<Rightarrow> Inl e | Inr hs \<Rightarrow> Inr (h # hs)))"

definition list_handles :: "string \<Rightarrow> vault_db \<Rightarrow> vault_error + secret_handle list" where
  "list_handles t db = handles_of (sort_key (\<lambda>r. (sr_name r, sr_id r))
     (concat (map (\<lambda>f. case revision_row t (cf_id f) (cf_revision f) db of None \<Rightarrow> [] | Some r \<Rightarrow> [r])
       (filter (\<lambda>f. cf_tenant_id f = t) (secret_current_refs db)))))"

fun state_value :: "secret_state \<Rightarrow> string" where
  "state_value Pending = ''pending''"
| "state_value ActiveSecret = ''active''"
| "state_value Revoked = ''revoked''"

definition revision_conflict :: "int \<Rightarrow> int \<Rightarrow> vault_error" where
  "revision_conflict actual expected =
     VaultConflictError (''secret revision is '' @ str_int actual @ '', expected '' @ str_int expected)"

definition write_active_revision :: "host_cipher \<Rightarrow> string \<Rightarrow> timestamp \<Rightarrow> string \<Rightarrow> string \<Rightarrow> int \<Rightarrow> secret_state \<Rightarrow> string \<Rightarrow>
    string list option \<Rightarrow> string \<Rightarrow> (vault_db, vault_error, secret_handle) oper" where
  "write_active_revision C iv now tenant_id secret_id expected_revision expected_state v scopes updated_by =
     checked (clean_value v) (\<lambda>plaintext. transaction (\<lambda>db.
       checked (current_row tenant_id secret_id db) (\<lambda>current.
       checked (handle_of current) (\<lambda>handle db.
         if sh_revision handle \<noteq> expected_revision then raises (revision_conflict (sh_revision handle) expected_revision) db
         else if sh_state handle \<noteq> expected_state
         then raises (VaultConflictError (''secret must be '' @ state_value expected_state @ '' for this operation'')) db
         else (let revision = sh_revision handle + 1;
                 next_scopes = (case scopes of None \<Rightarrow> sh_scopes handle | Some [] \<Rightarrow> sh_scopes handle | Some s \<Rightarrow> s);
                 encrypted = cipher_encrypt C iv plaintext (secret_aad (sh_tenant_id handle) (sh_id handle) revision (sh_name handle)) in
           checked (SecretHandle \<lparr>sh_tenant_id = sh_tenant_id handle, sh_id = sh_id handle, sh_revision = revision,
               sh_name = sh_name handle, sh_state = ActiveSecret, sh_scopes = next_scopes, sh_created_at = now,
               sh_created_by = updated_by\<rparr>) (\<lambda>next_handle db.
             case insert_secret_revision \<lparr>sr_tenant_id = sh_tenant_id next_handle, sr_id = sh_id next_handle,
                 sr_revision = sh_revision next_handle, sr_name = sh_name next_handle, sr_state = ActiveSecret,
                 sr_scopes = sh_scopes next_handle, sr_sealed = Some encrypted,
                 sr_created_at = sh_created_at next_handle, sr_created_by = sh_created_by next_handle\<rparr> db of
               (Inl e, db) \<Rightarrow> raises e db
             | (Inr _, db) \<Rightarrow> (case advance_current_ref next_handle (sh_revision handle) now updated_by db of
                   (Inl e, db) \<Rightarrow> raises e db | (Inr _, db) \<Rightarrow> ok next_handle db)) db))) db))"

definition fulfill :: "host_cipher \<Rightarrow> string \<Rightarrow> timestamp \<Rightarrow> string \<Rightarrow> string \<Rightarrow> int \<Rightarrow> string \<Rightarrow> string \<Rightarrow>
    (vault_db, vault_error, secret_handle) oper" where
  "fulfill C iv now tenant_id secret_id expected_revision v updated_by =
     write_active_revision C iv now tenant_id secret_id expected_revision Pending v None updated_by"

definition rotate :: "host_cipher \<Rightarrow> string \<Rightarrow> timestamp \<Rightarrow> string \<Rightarrow> string \<Rightarrow> int \<Rightarrow> string \<Rightarrow> string \<Rightarrow> string list option \<Rightarrow>
    (vault_db, vault_error, secret_handle) oper" where
  "rotate C iv now tenant_id secret_id expected_revision v updated_by scopes =
     checked (case scopes of None \<Rightarrow> Inr None | Some s \<Rightarrow> map_sum id Some (scopes_of s)) (\<lambda>scopes.
     write_active_revision C iv now tenant_id secret_id expected_revision ActiveSecret v scopes updated_by)"

definition revoke :: "timestamp \<Rightarrow> string \<Rightarrow> string \<Rightarrow> int \<Rightarrow> string \<Rightarrow> (vault_db, vault_error, secret_handle) oper" where
  "revoke now tenant_id secret_id expected_revision updated_by = transaction (\<lambda>db.
     checked (current_row tenant_id secret_id db) (\<lambda>current.
     checked (handle_of current) (\<lambda>handle db.
       if sh_revision handle \<noteq> expected_revision then raises (revision_conflict (sh_revision handle) expected_revision) db
       else if sh_state handle = Revoked then ok handle db
       else checked (SecretHandle \<lparr>sh_tenant_id = sh_tenant_id handle, sh_id = sh_id handle, sh_revision = sh_revision handle + 1,
             sh_name = sh_name handle, sh_state = Revoked, sh_scopes = sh_scopes handle, sh_created_at = now,
             sh_created_by = updated_by\<rparr>) (\<lambda>revoked db.
           case insert_secret_revision \<lparr>sr_tenant_id = sh_tenant_id revoked, sr_id = sh_id revoked,
               sr_revision = sh_revision revoked, sr_name = sh_name revoked, sr_state = Revoked,
               sr_scopes = sh_scopes revoked, sr_sealed = None,
               sr_created_at = sh_created_at revoked, sr_created_by = sh_created_by revoked\<rparr> db of
             (Inl e, db) \<Rightarrow> raises e db
           | (Inr _, db) \<Rightarrow> (case advance_current_ref revoked (sh_revision handle) now updated_by db of
                 (Inl e, db) \<Rightarrow> raises e db | (Inr _, db) \<Rightarrow> ok revoked db)) db)) db)"

section \<open>Grants\<close>

definition issue_grant :: "(string \<Rightarrow> string) \<Rightarrow> nat list \<Rightarrow> (nat \<Rightarrow> char) \<Rightarrow> timestamp \<Rightarrow> string \<Rightarrow> string \<Rightarrow> string \<Rightarrow> string list \<Rightarrow> int \<Rightarrow>
    (vault_db, vault_error, issued_secret_grant) oper" where
  "issue_grant sha uuid random now tenant_id secret_id capability_id scopes ttl_seconds =
     checked (scopes_of scopes) (\<lambda>requested_scopes.
     checked (if ttl_seconds < 1 \<or> 3600 < ttl_seconds
         then Inl (VaultValueError ''secret grant TTL must be between 1 and 3600 seconds'') else Inr ()) (\<lambda>_.
     transaction (\<lambda>db.
       checked (current_row tenant_id secret_id db) (\<lambda>row.
       checked (handle_of row) (\<lambda>handle db.
         if sh_state handle \<noteq> ActiveSecret then raises (SecretGrantError ''secret is not active'') db
         else if \<not> set requested_scopes \<subseteq> set (sh_scopes handle)
         then raises (SecretGrantError ''requested scope is not allowed for this secret'') db
         else checked (map_sum VaultValueError id (new_short_id uuid ''grant'' 12)) (\<lambda>grant_id.
           let raw_token = token_urlsafe random 32; token_hash = sha (utf8 raw_token) in
           checked (SecretGrantReceipt \<lparr>gr_id = grant_id, gr_tenant_id = sh_tenant_id handle, gr_secret_id = sh_id handle,
               gr_secret_revision = sh_revision handle, gr_capability_id = capability_id, gr_scopes = requested_scopes,
               gr_expires_at = plus_seconds now ttl_seconds\<rparr>) (\<lambda>receipt db.
             if \<exists>g \<in> set (secret_grants db). sg_id g = gr_id receipt \<or> sg_token_hash g = token_hash
             then raises VaultIntegrityError db
             else ok \<lparr>ig_receipt = receipt, ig_token = raw_token\<rparr> (db\<lparr>secret_grants := secret_grants db @
               [\<lparr>sg_id = gr_id receipt, sg_tenant_id = gr_tenant_id receipt, sg_secret_id = gr_secret_id receipt,
                 sg_secret_revision = gr_secret_revision receipt, sg_capability_id = gr_capability_id receipt,
                 sg_scopes = gr_scopes receipt, sg_token_hash = token_hash, sg_expires_at = gr_expires_at receipt,
                 sg_created_at = now, sg_consumed_at = None\<rparr>]\<rparr>))) db)) db)))"

text \<open>The row \<open>redeem_grant\<close> reads: the grant joined with its revision and the current reference.\<close>

definition grant_row :: "string \<Rightarrow> vault_db \<Rightarrow> (secret_grant \<times> secret_revision \<times> secret_ref) option" where
  "grant_row token_hash db = (case sel (\<lambda>g. sg_token_hash g = token_hash) (secret_grants db) of None \<Rightarrow> None
     | Some g \<Rightarrow> (case (revision_row (sg_tenant_id g) (sg_secret_id g) (sg_secret_revision g) db,
           current_ref (sg_tenant_id g) (sg_secret_id g) db) of
         (Some r, Some f) \<Rightarrow> Some (g, r, f) | _ \<Rightarrow> None))"

definition unseal :: "host_cipher \<Rightarrow> secret_revision \<Rightarrow> vault_error + string" where
  "unseal C r = (case sr_sealed r of None \<Rightarrow> Inl VaultTypeError
     | Some e \<Rightarrow> (case cipher_decrypt C e (secret_aad (sr_tenant_id r) (sr_id r) (sr_revision r) (sr_name r)) of
           Inl err \<Rightarrow> Inl (VaultCipherError err)
         | Inr plain \<Rightarrow> (case un_utf8 plain of None \<Rightarrow> Inl VaultDecodeError | Some s \<Rightarrow> Inr s)))"

definition consume_grant :: "string \<Rightarrow> timestamp \<Rightarrow> (vault_db, vault_error, unit) oper" where
  "consume_grant grant_id now db =
     (let P = (\<lambda>g. sg_id g = grant_id \<and> sg_consumed_at g = None) in
      if length (filter P (secret_grants db)) \<noteq> 1 then raises (SecretGrantError ''secret grant was already consumed'') db
      else ok () (db\<lparr>secret_grants := upd P (\<lambda>g. g\<lparr>sg_consumed_at := Some now\<rparr>) (secret_grants db)\<rparr>))"

definition redeem_grant :: "host_cipher \<Rightarrow> (string \<Rightarrow> string) \<Rightarrow> timestamp \<Rightarrow> string \<Rightarrow> string \<Rightarrow> string \<Rightarrow>
    (vault_db, vault_error, secret_material) oper" where
  "redeem_grant C sha now token capability_id scope db =
     (case grant_row (sha (utf8 token)) db of
        None \<Rightarrow> raises (SecretGrantError ''secret grant is invalid'') db
      | Some (g, r, f) \<Rightarrow>
          if sg_consumed_at g \<noteq> None then raises (SecretGrantError ''secret grant was already consumed'') db
          else if sg_expires_at g \<le> now then raises (SecretGrantError ''secret grant has expired'') db
          else if sg_capability_id g \<noteq> py_strip capability_id
          then raises (SecretGrantError ''secret grant belongs to another capability'') db
          else if scope \<notin> set (sg_scopes g)
          then raises (SecretGrantError ''secret grant does not include the requested scope'') db
          else if cf_revision f \<noteq> sg_secret_revision g
          then raises (SecretGrantError ''secret grant was invalidated by a newer revision'') db
          else if sr_state r \<noteq> ActiveSecret then raises (SecretGrantError ''secret is not active'') db
          else (case unseal C r of Inl e \<Rightarrow> raises e db
            | Inr plaintext \<Rightarrow> (case consume_grant (sg_id g) now db of
                (Inl e, _) \<Rightarrow> raises e db
              | (Inr _, db') \<Rightarrow> (SecretMaterial \<lparr>sm_grant_id = sg_id g, sm_secret_id = sg_secret_id g, sm_name = sr_name r,
                  sm_scope = scope, sm_value = plaintext\<rparr>, db'))))"

section \<open>Invariant\<close>

definition raw_handle :: "secret_revision \<Rightarrow> secret_handle" where
  "raw_handle r = \<lparr>sh_tenant_id = sr_tenant_id r, sh_id = sr_id r, sh_revision = sr_revision r, sh_name = sr_name r,
     sh_state = sr_state r, sh_scopes = sr_scopes r, sh_created_at = sr_created_at r, sh_created_by = sr_created_by r\<rparr>"

definition secret_rows :: "string \<Rightarrow> string \<Rightarrow> vault_db \<Rightarrow> secret_revision list" where
  "secret_rows t i db = filter (row_of_secret t i) (secret_revisions db)"

definition head_revision :: "string \<Rightarrow> string \<Rightarrow> vault_db \<Rightarrow> int" where
  "head_revision t i db = (case current_ref t i db of None \<Rightarrow> 0 | Some f \<Rightarrow> cf_revision f)"

text \<open>A stored row reads back as a handle, and an active one opens.\<close>

definition row_ok :: "host_cipher \<Rightarrow> secret_revision \<Rightarrow> bool" where
  "row_ok C r = (handle_of r = Inr (raw_handle r) \<and> (sr_state r = ActiveSecret \<longrightarrow> (\<exists>v. unseal C r = Inr v \<and> v \<noteq> [])))"

definition grant_ok :: "vault_db \<Rightarrow> secret_grant \<Rightarrow> bool" where
  "grant_ok db g = (slug (sg_id g) \<and> scopes_ok (sg_scopes g) \<and> map py_strip (sg_scopes g) = sg_scopes g \<and>
     (\<exists>r \<in> set (secret_revisions db).
     row_of_secret (sg_tenant_id g) (sg_secret_id g) r \<and> sr_revision r = sg_secret_revision g \<and>
     sr_state r = ActiveSecret \<and> set (sg_scopes g) \<subseteq> set (sr_scopes r)))"

definition ref_key :: "secret_ref \<Rightarrow> string \<times> string" where
  "ref_key f = (cf_tenant_id f, cf_id f)"

definition vault_inv :: "host_cipher \<Rightarrow> vault_db \<Rightarrow> bool" where
  "vault_inv C db =
     ((\<forall>t i. map sr_revision (secret_rows t i db) = [1..head_revision t i db]) \<and>
      distinct (map ref_key (secret_current_refs db)) \<and> (\<forall>f \<in> set (secret_current_refs db). 1 \<le> cf_revision f) \<and>
      (\<forall>r \<in> set (secret_revisions db). row_ok C r) \<and>
      (\<forall>g \<in> set (secret_grants db). grant_ok db g) \<and>
      distinct (map sg_id (secret_grants db)) \<and> distinct (map sg_token_hash (secret_grants db)))"

lemma vault_invD:
  assumes "vault_inv C db"
  shows "map sr_revision (secret_rows t i db) = [1..head_revision t i db]"
    and "distinct (map ref_key (secret_current_refs db))"
    and "f \<in> set (secret_current_refs db) \<Longrightarrow> 1 \<le> cf_revision f"
    and "r \<in> set (secret_revisions db) \<Longrightarrow> row_ok C r"
    and "g \<in> set (secret_grants db) \<Longrightarrow> grant_ok db g"
    and "distinct (map sg_id (secret_grants db))" "distinct (map sg_token_hash (secret_grants db))"
  using assms unfolding vault_inv_def by blast+

lemma handle_of_raw: "handle_of r = SecretHandle (raw_handle r)"
  by (simp add: handle_of_def raw_handle_def)

lemma raw_handle_sel [simp]:
  "sh_tenant_id (raw_handle r) = sr_tenant_id r" "sh_id (raw_handle r) = sr_id r" "sh_revision (raw_handle r) = sr_revision r"
  "sh_name (raw_handle r) = sr_name r" "sh_state (raw_handle r) = sr_state r" "sh_scopes (raw_handle r) = sr_scopes r"
  "sh_created_at (raw_handle r) = sr_created_at r" "sh_created_by (raw_handle r) = sr_created_by r"
  by (simp_all add: raw_handle_def)

lemma row_okD:
  assumes "row_ok C r"
  shows "handle_of r = Inr (raw_handle r)" "handle_norm (raw_handle r) = raw_handle r" "1 \<le> sr_revision r" "slug (sr_name r)"
    "slug (sr_id r)" "scopes_ok (sr_scopes r)" "map py_strip (sr_scopes r) = sr_scopes r"
    "py_strip (sr_tenant_id r) = sr_tenant_id r" "protocol_id (sr_tenant_id r)"
proof -
  from assms show h: "handle_of r = Inr (raw_handle r)" by (simp add: row_ok_def)
  then have n: "raw_handle r = handle_norm (raw_handle r)" and f: "handle_fields (raw_handle r) = []"
    by (simp_all add: handle_of_raw SecretHandle_iff)
  show "handle_norm (raw_handle r) = raw_handle r" using n by simp
  show "1 \<le> sr_revision r" "slug (sr_name r)" "slug (sr_id r)" "scopes_ok (sr_scopes r)" "protocol_id (sr_tenant_id r)"
    using f by (simp_all add: handle_fields_def)
  show "map py_strip (sr_scopes r) = sr_scopes r" "py_strip (sr_tenant_id r) = sr_tenant_id r"
    using arg_cong [OF n, of sh_scopes] arg_cong [OF n, of sh_tenant_id] by simp_all
qed

text \<open>What a reader sees of a secret: the states, scopes and values of its revisions, oldest first.\<close>

type_synonym log_entry = "secret_state \<times> string list \<times> string option"

definition entry_of :: "host_cipher \<Rightarrow> secret_revision \<Rightarrow> log_entry" where
  "entry_of C r = (sr_state r, sr_scopes r, case sr_sealed r of None \<Rightarrow> None | Some _ \<Rightarrow> (case unseal C r of Inl _ \<Rightarrow> None | Inr v \<Rightarrow> Some v))"

definition secret_log :: "host_cipher \<Rightarrow> string \<Rightarrow> string \<Rightarrow> vault_db \<Rightarrow> log_entry list" where
  "secret_log C t i db = map (entry_of C) (secret_rows t i db)"

lemma unseal_entry: "unseal C r = Inr v \<Longrightarrow> entry_of C r = (sr_state r, sr_scopes r, Some v)"
  by (cases "sr_sealed r") (simp_all add: unseal_def entry_of_def)

lemma rows_mem: "r \<in> set (secret_rows t i db) \<longleftrightarrow> r \<in> set (secret_revisions db) \<and> sr_tenant_id r = t \<and> sr_id r = i"
  by (auto simp: secret_rows_def row_of_secret_def)

lemma rows_nth:
  assumes "vault_inv C db" "k < length (secret_rows t i db)"
  shows "sr_revision (secret_rows t i db ! k) = int k + 1"
proof -
  have l: "length (secret_rows t i db) = nat (head_revision t i db)"
    using arg_cong [OF vault_invD(1) [OF assms(1)], of length t i] by simp
  have "sr_revision (secret_rows t i db ! k) = map sr_revision (secret_rows t i db) ! k" using assms(2) by simp
  also have "\<dots> = int k + 1" unfolding vault_invD(1) [OF assms(1)] using assms(2) l by (subst nth_upto) auto
  finally show ?thesis .
qed

lemma rows_length: "vault_inv C db \<Longrightarrow> length (secret_rows t i db) = nat (head_revision t i db)"
  using arg_cong [OF vault_invD(1), of C db length t i] by simp

lemma revision_row_mem:
  assumes "vault_inv C db" "r \<in> set (secret_revisions db)"
  shows "revision_row (sr_tenant_id r) (sr_id r) (sr_revision r) db = Some r"
proof -
  let ?P = "\<lambda>s. row_of_secret (sr_tenant_id r) (sr_id r) s \<and> sr_revision s = sr_revision r"
  have d: "distinct (map sr_revision (secret_rows (sr_tenant_id r) (sr_id r) db))"
    unfolding vault_invD(1) [OF assms(1)] by simp
  obtain s where s: "sel ?P (secret_revisions db) = Some s"
    using assms(2) sel_cong_ex [of "secret_revisions db" ?P] by (auto simp: row_of_secret_def)
  then have "s \<in> set (secret_rows (sr_tenant_id r) (sr_id r) db)" "sr_revision s = sr_revision r"
    using sel_SomeD [OF s] by (auto simp: secret_rows_def)
  moreover have "r \<in> set (secret_rows (sr_tenant_id r) (sr_id r) db)" using assms(2) by (simp add: rows_mem)
  ultimately have "s = r" using distinct_key_eq [OF d] by blast
  with s show ?thesis by (simp add: revision_row_def)
qed

lemma revision_row_SomeD:
  "revision_row t i n db = Some r \<Longrightarrow> r \<in> set (secret_revisions db) \<and> sr_tenant_id r = t \<and> sr_id r = i \<and> sr_revision r = n"
  unfolding revision_row_def by (drule sel_SomeD) (simp add: row_of_secret_def)

lemma head_pos: "vault_inv C db \<Longrightarrow> current_ref t i db = Some f \<Longrightarrow> 1 \<le> cf_revision f \<and> head_revision t i db = cf_revision f"
  using vault_invD(3) [of C db f] sel_SomeD [of _ "secret_current_refs db" f] by (fastforce simp: current_ref_def head_revision_def)

text \<open>The current row is the newest one of its secret.\<close>

lemma current_row_last:
  assumes inv: "vault_inv C db" and c: "current_row t i db = Inr cur"
  shows "secret_rows t i db \<noteq> []" "cur = last (secret_rows t i db)" "sr_revision cur = head_revision t i db"
    "sr_tenant_id cur = t" "sr_id cur = i" "cur \<in> set (secret_revisions db)" "row_ok C cur"
proof -
  from c obtain f where f: "current_ref t i db = Some f" and r: "revision_row t i (cf_revision f) db = Some cur"
    by (auto simp: current_row_def split: option.splits)
  note m = revision_row_SomeD [OF r] and h = head_pos [OF inv f]
  show key: "sr_tenant_id cur = t" "sr_id cur = i" "cur \<in> set (secret_revisions db)" "sr_revision cur = head_revision t i db"
    using m h by auto
  then have mem: "cur \<in> set (secret_rows t i db)" by (simp add: rows_mem)
  then show ne: "secret_rows t i db \<noteq> []" by auto
  have "sr_revision (last (secret_rows t i db)) = head_revision t i db"
    using rows_nth [OF inv, of "length (secret_rows t i db) - 1" t i] ne rows_length [OF inv, of t i] h
    by (auto simp: last_conv_nth)
  moreover have "distinct (map sr_revision (secret_rows t i db))" unfolding vault_invD(1) [OF inv] by simp
  ultimately show "cur = last (secret_rows t i db)"
    using distinct_key_eq mem last_in_set [OF ne] key(4) by metis
  show "row_ok C cur" by (rule vault_invD(4) [OF inv key(3)])
qed

lemma current_row_None:
  assumes inv: "vault_inv C db" and c: "current_row t i db = Inl e"
  shows "secret_rows t i db = []" "e = VaultNotFoundError i"
proof -
  have "current_ref t i db = None"
  proof (rule ccontr)
    assume "current_ref t i db \<noteq> None"
    then obtain f where f: "current_ref t i db = Some f" by blast
    have h: "1 \<le> cf_revision f" "head_revision t i db = cf_revision f" using head_pos [OF inv f] by auto
    then have ne: "secret_rows t i db \<noteq> []" using rows_length [OF inv, of t i] by auto
    let ?l = "last (secret_rows t i db)"
    have "sr_revision ?l = cf_revision f"
      using rows_nth [OF inv, of "length (secret_rows t i db) - 1" t i] ne rows_length [OF inv, of t i] h
      by (auto simp: last_conv_nth)
    moreover have "?l \<in> set (secret_revisions db)" "sr_tenant_id ?l = t" "sr_id ?l = i"
      using last_in_set [OF ne] rows_mem by blast+
    ultimately have "revision_row t i (cf_revision f) db = Some ?l" using revision_row_mem [OF inv] by metis
    with c f show False by (simp add: current_row_def)
  qed
  with c show "secret_rows t i db = []" "e = VaultNotFoundError i"
    using rows_length [OF inv, of t i] by (auto simp: current_row_def head_revision_def)
qed

section \<open>Appending a revision\<close>

text \<open>The database after a new revision \<open>r\<close> of a secret, with the references \<open>refs\<close>.\<close>

definition appended :: "secret_revision \<Rightarrow> secret_ref list \<Rightarrow> vault_db \<Rightarrow> vault_db" where
  "appended r refs db = db\<lparr>secret_revisions := secret_revisions db @ [r], secret_current_refs := refs\<rparr>"

lemma appended_simps [simp]:
  "secret_revisions (appended r refs db) = secret_revisions db @ [r]" "secret_current_refs (appended r refs db) = refs"
  "secret_grants (appended r refs db) = secret_grants db"
  by (simp_all add: appended_def)

lemma appended_rows:
  "secret_rows t i (appended r refs db) = secret_rows t i db @ (if sr_tenant_id r = t \<and> sr_id r = i then [r] else [])"
  by (simp add: secret_rows_def row_of_secret_def)

lemma appended_log:
  "secret_log C t i (appended r refs db) = secret_log C t i db @ (if sr_tenant_id r = t \<and> sr_id r = i then [entry_of C r] else [])"
  by (simp add: secret_log_def appended_rows)

lemma grant_ok_grows: "grant_ok db g \<Longrightarrow> set (secret_revisions db) \<subseteq> set (secret_revisions db') \<Longrightarrow> grant_ok db' g"
  unfolding grant_ok_def by blast

lemma appended_inv:
  assumes inv: "vault_inv C db" and r: "row_ok C r" "sr_revision r = head_revision (sr_tenant_id r) (sr_id r) db + 1"
    and refs: "distinct (map ref_key refs)" "\<forall>f \<in> set refs. 1 \<le> cf_revision f"
    and heads: "\<And>t i. head_revision t i (appended r refs db) =
      (if sr_tenant_id r = t \<and> sr_id r = i then sr_revision r else head_revision t i db)"
  shows "vault_inv C (appended r refs db)"
proof -
  have "1 \<le> sr_revision r" by (rule row_okD(3) [OF r(1)])
  then have "[1..sr_revision r] = [1..head_revision (sr_tenant_id r) (sr_id r) db] @ [sr_revision r]"
    using r(2) upto_rec2 [of 1 "sr_revision r"] by simp
  then have "map sr_revision (secret_rows t i (appended r refs db)) = [1..head_revision t i (appended r refs db)]" for t i
    using vault_invD(1) [OF inv, of t i] by (auto simp: appended_rows heads)
  moreover have "grant_ok (appended r refs db) g" if "g \<in> set (secret_grants db)" for g
    by (rule grant_ok_grows [OF vault_invD(5) [OF inv that]]) auto
  ultimately show ?thesis
    unfolding vault_inv_def using refs r(1) vault_invD(4,6,7) [OF inv] by auto
qed

lemma no_row_beyond:
  assumes "vault_inv C db" "head_revision t i db < n"
  shows "revision_row t i n db = None"
proof (rule ccontr)
  assume "revision_row t i n db \<noteq> None"
  then obtain r where "revision_row t i n db = Some r" by blast
  then have "n \<in> set (map sr_revision (secret_rows t i db))" by (auto dest!: revision_row_SomeD simp: rows_mem)
  with assms(2) show False unfolding vault_invD(1) [OF assms(1)] by simp
qed

text \<open>Inserting the next revision and moving the reference to it always succeeds.\<close>

lemma insert_advance:
  assumes inv: "vault_inv C db" and c: "current_row t i db = Inr cur"
    and r: "row_ok C r" "sr_tenant_id r = t" "sr_id r = i" "sr_revision r = sr_revision cur + 1"
    and h: "sh_tenant_id h = t" "sh_id h = i" "sh_revision h = sr_revision r"
  shows "\<exists>refs. insert_secret_revision r db = (Inr (), db\<lparr>secret_revisions := secret_revisions db @ [r]\<rparr>) \<and>
    advance_current_ref h (sr_revision cur) now who (db\<lparr>secret_revisions := secret_revisions db @ [r]\<rparr>) = (Inr (), appended r refs db) \<and>
    vault_inv C (appended r refs db)"
proof -
  note cur = current_row_last [OF inv c]
  let ?P = "\<lambda>f. cf_tenant_id f = t \<and> cf_id f = i \<and> cf_revision f = sr_revision cur"
  let ?u = "\<lambda>f. f\<lparr>cf_revision := sr_revision r, cf_updated_at := now, cf_updated_by := who\<rparr>"
  let ?refs = "upd ?P ?u (secret_current_refs db)"
  obtain f where f: "current_ref t i db = Some f" using c by (auto simp: current_row_def split: option.splits)
  then have fm: "f \<in> set (secret_current_refs db)" "cf_tenant_id f = t" "cf_id f = i" unfolding current_ref_def
    using sel_SomeD [of "\<lambda>f. cf_tenant_id f = t \<and> cf_id f = i"] by blast+
  have fr: "cf_revision f = sr_revision cur" using cur(3) head_pos [OF inv f] by simp
  have one: "length (filter ?P (secret_current_refs db)) = 1"
    by (subst filter_keyed [OF vault_invD(2) [OF inv]]) (use fm fr in \<open>auto simp: ref_key_def\<close>)
  have ins: "insert_secret_revision r db = (Inr (), db\<lparr>secret_revisions := secret_revisions db @ [r]\<rparr>)"
    using no_row_beyond [OF inv, of t i "sr_revision r"] r cur(3) by (simp add: insert_secret_revision_def)
  have adv: "advance_current_ref h (sr_revision cur) now who (db\<lparr>secret_revisions := secret_revisions db @ [r]\<rparr>) = (Inr (), appended r ?refs db)"
    using one h by (simp add: advance_current_ref_def appended_def Let_def)
  have keys: "map ref_key ?refs = map ref_key (secret_current_refs db)" by (rule map_upd) (simp add: ref_key_def)
  have ref: "current_ref t' i' (appended r ?refs db) = map_option (\<lambda>f. if ?P f then ?u f else f) (current_ref t' i' db)" for t' i'
    unfolding current_ref_def appended_simps by (rule sel_upd) simp
  have "head_revision t' i' (appended r ?refs db) = (if t = t' \<and> i = i' then sr_revision r else head_revision t' i' db)" for t' i'
  proof (cases "current_ref t' i' db")
    case None
    with f ref [of t' i'] show ?thesis by (auto simp: head_revision_def)
  next
    case (Some f')
    then have "cf_tenant_id f' = t'" "cf_id f' = i'" unfolding current_ref_def
      using sel_SomeD [of "\<lambda>f. cf_tenant_id f = t' \<and> cf_id f = i'"] by blast+
    with Some f fr ref [of t' i'] show ?thesis by (auto simp: head_revision_def)
  qed
  moreover have "\<forall>f \<in> set ?refs. 1 \<le> cf_revision f"
    using vault_invD(3) [OF inv] r(4) vault_invD(3) [OF inv fm(1)] fr by (auto simp: set_upd)
  ultimately have "vault_inv C (appended r ?refs db)"
    using r cur(3) vault_invD(2) [OF inv] keys by (intro appended_inv [OF inv r(1)]) auto
  with ins adv show ?thesis by blast
qed

section \<open>What each operation does\<close>

lemma transaction_cases:
  assumes "transaction body db = (x, db')"
  obtains (failed) e d where "body db = (Inl e, d)" "x = Inl e" "db' = db"
  | (committed) y where "body db = (Inr y, db')" "x = Inr y"
  using assms by (cases "body db"; cases "fst (body db)") (auto simp: transaction_def)

text \<open>The result of an operation that may append one revision.\<close>

definition grew :: "host_cipher \<Rightarrow> secret_handle \<Rightarrow> secret_revision \<Rightarrow> vault_db \<Rightarrow> vault_db \<Rightarrow> bool" where
  "grew C h r db db' = (raw_handle r = h \<and> row_ok C r \<and> (\<exists>refs. db' = appended r refs db) \<and> vault_inv C db')"

lemma create_pending_step:
  assumes inv: "vault_inv C db" and c: "create_pending uuid now t n sc who sid db = (x, db')"
  shows "(\<exists>e. x = Inl e \<and> db' = db) \<or>
    (\<exists>h r. x = Inr h \<and> grew C h r db db' \<and> sr_state r = Pending \<and> sr_sealed r = None \<and> sr_tenant_id r = py_strip t \<and>
       secret_rows (sr_tenant_id r) (sr_id r) db = [])"
proof (insert c [unfolded create_pending_def], (erule checked_cases, blast)+, erule transaction_cases, blast, goal_cases)
  case (1 i scopes h y)
  let ?r = "\<lparr>sr_tenant_id = sh_tenant_id h, sr_id = sh_id h, sr_revision = 1, sr_name = sh_name h, sr_state = Pending,
    sr_scopes = sh_scopes h, sr_sealed = None, sr_created_at = sh_created_at h, sr_created_by = sh_created_by h\<rparr>"
  let ?f = "\<lparr>cf_tenant_id = sh_tenant_id h, cf_id = sh_id h, cf_revision = 1, cf_updated_at = sh_created_at h, cf_updated_by = sh_created_by h\<rparr>"
  let ?refs = "secret_current_refs db @ [?f]"
  have none: "current_ref (sh_tenant_id h) (sh_id h) db = None" using 1(4) by (auto split: if_splits)
  have head: "head_revision (sh_tenant_id h) (sh_id h) db = 0" using none by (simp add: head_revision_def)
  have h: "h = handle_norm \<lparr>sh_tenant_id = t, sh_id = i, sh_revision = 1, sh_name = n, sh_state = Pending,
      sh_scopes = scopes, sh_created_at = now, sh_created_by = who\<rparr>" "handle_fields h = []"
    using 1(3) unfolding SecretHandle_iff by blast+
  have raw: "raw_handle ?r = h" using h(1) by (simp add: raw_handle_def handle_norm_def)
  have ok: "row_ok C ?r" unfolding row_ok_def handle_of_raw raw SecretHandle_iff using h by simp
  have "revision_row (sh_tenant_id h) (sh_id h) 1 db = None" by (rule no_row_beyond [OF inv]) (simp add: head)
  then have db': "y = h \<and> db' = appended ?r ?refs db" using 1(4) none by (auto simp: insert_secret_revision_def appended_def)
  have fresh: "\<not> (cf_tenant_id f = sh_tenant_id h \<and> cf_id f = sh_id h)" if "f \<in> set (secret_current_refs db)" for f
    using none that unfolding current_ref_def sel_None by blast
  have "vault_inv C (appended ?r ?refs db)"
  proof (rule appended_inv [OF inv ok])
    show "distinct (map ref_key ?refs)" using vault_invD(2) [OF inv] fresh by (fastforce simp: ref_key_def)
    show "\<forall>f \<in> set ?refs. 1 \<le> cf_revision f" using vault_invD(3) [OF inv] by auto
    show "head_revision t' i' (appended ?r ?refs db) =
        (if sr_tenant_id ?r = t' \<and> sr_id ?r = i' then sr_revision ?r else head_revision t' i' db)" for t' i'
      using none by (auto simp: head_revision_def current_ref_def sel_append split: option.splits)
  qed (simp add: head)
  moreover have "secret_rows (sh_tenant_id h) (sh_id h) db = []" using rows_length [OF inv, of "sh_tenant_id h" "sh_id h"] head by simp
  ultimately have "x = Inr h \<and> grew C h ?r db db' \<and> sr_state ?r = Pending \<and> sr_sealed ?r = None \<and> sr_tenant_id ?r = py_strip t \<and>
       secret_rows (sr_tenant_id ?r) (sr_id ?r) db = []"
    using 1(5) db' raw ok h(1) unfolding grew_def by auto
  then show ?case by blast
qed

lemma utf8_Nil: "utf8 v = [] \<longleftrightarrow> v = []"
  by (cases v) (auto simp: utf8_def utf8_char_def Let_def)

lemma unseal_sealed:
  assumes "cipher_ok C" "sr_sealed r = Some (cipher_encrypt C iv (utf8 v) (secret_aad (sr_tenant_id r) (sr_id r) (sr_revision r) (sr_name r)))"
  shows "unseal C r = Inr v"
  using assms by (simp add: unseal_def cipher_encrypt_def cipher_decrypt_def cipher_ok_def)

lemma write_step:
  assumes C: "cipher_ok C" and inv: "vault_inv C db"
    and c: "write_active_revision C iv now t i rv st v sc who db = (x, db')"
  shows "(\<exists>e. x = Inl e \<and> db' = db) \<or>
    (\<exists>h r cur. x = Inr h \<and> current_row t i db = Inr cur \<and> sr_revision cur = rv \<and> sr_state cur = st \<and> v \<noteq> [] \<and>
       grew C h r db db' \<and> sr_state r = ActiveSecret \<and> sr_sealed r \<noteq> None \<and> unseal C r = Inr v \<and>
       sr_tenant_id r = t \<and> sr_id r = i \<and> sr_revision r = rv + 1)"
proof (insert c [unfolded write_active_revision_def], erule checked_cases, blast, erule transaction_cases, blast, goal_cases)
  case (1 plain y)
  from 1(2) obtain cur where cur: "current_row t i db = Inr cur" by (cases "current_row t i db") auto
  note last = current_row_last [OF inv cur]
  let ?old = "raw_handle cur"
  let ?sc = "case sc of None \<Rightarrow> sh_scopes ?old | Some [] \<Rightarrow> sh_scopes ?old | Some s \<Rightarrow> s"
  let ?e = "cipher_encrypt C iv plain (secret_aad t i (sr_revision cur + 1) (sr_name cur))"
  let ?h = "\<lparr>sh_tenant_id = t, sh_id = i, sh_revision = sr_revision cur + 1, sh_name = sr_name cur, sh_state = ActiveSecret,
    sh_scopes = ?sc, sh_created_at = now, sh_created_by = who\<rparr>"
  have plain: "plain = utf8 v" "v \<noteq> []" using 1(1) utf8_Nil by (auto simp: clean_value_def Let_def split: if_splits)
  have rv: "sr_revision cur = rv" "sr_state cur = st"
    using 1(2) cur row_okD(1) [OF last(7)] by (auto split: if_splits)
  obtain h where h: "SecretHandle ?h = Inr h"
    using 1(2) cur row_okD(1) [OF last(7)] rv last(4,5) by (cases "SecretHandle ?h") (auto simp: Let_def)
  have hn: "h = handle_norm ?h" "handle_fields h = []" using h unfolding SecretHandle_iff by blast+
  let ?r = "\<lparr>sr_tenant_id = sh_tenant_id h, sr_id = sh_id h, sr_revision = sh_revision h, sr_name = sh_name h, sr_state = ActiveSecret,
    sr_scopes = sh_scopes h, sr_sealed = Some ?e, sr_created_at = sh_created_at h, sr_created_by = sh_created_by h\<rparr>"
  have ids: "py_strip t = t" "py_strip i = i" "py_strip (sr_name cur) = sr_name cur"
    using row_okD(8) [OF last(7)] slug_strip [OF row_okD(5) [OF last(7)]] slug_strip [OF row_okD(4) [OF last(7)]] last(4,5) by auto
  have key: "sh_tenant_id h = t" "sh_id h = i" "sh_revision h = sr_revision cur + 1" "sh_name h = sr_name cur" "sh_state h = ActiveSecret"
    using hn(1) ids by simp_all
  have raw: "raw_handle ?r = h" using key(5) by (simp add: raw_handle_def)
  have un: "unseal C ?r = Inr v" by (rule unseal_sealed [OF C]) (simp add: key plain(1))
  have ok: "row_ok C ?r" unfolding row_ok_def handle_of_raw raw SecretHandle_iff using hn un plain(2) by simp
  obtain refs where ia: "insert_secret_revision ?r db = (Inr (), db\<lparr>secret_revisions := secret_revisions db @ [?r]\<rparr>)"
    "advance_current_ref h (sr_revision cur) now who (db\<lparr>secret_revisions := secret_revisions db @ [?r]\<rparr>) = (Inr (), appended ?r refs db)"
    "vault_inv C (appended ?r refs db)"
    using insert_advance [OF inv cur ok, of h now who] key by auto
  have "y = h \<and> db' = appended ?r refs db"
    using 1(2) by (auto simp: cur row_okD(1) [OF last(7)] rv last(4,5) h [unfolded rv] ia [unfolded rv] Let_def)
  then have "x = Inr h \<and> current_row t i db = Inr cur \<and> sr_revision cur = rv \<and> sr_state cur = st \<and> v \<noteq> [] \<and>
       grew C h ?r db db' \<and> sr_state ?r = ActiveSecret \<and> sr_sealed ?r \<noteq> None \<and> unseal C ?r = Inr v \<and>
       sr_tenant_id ?r = t \<and> sr_id ?r = i \<and> sr_revision ?r = rv + 1"
    using 1(3) cur rv plain(2) ok raw un ia(3) key unfolding grew_def by auto
  then show ?case by blast
qed

lemma revoke_step:
  assumes inv: "vault_inv C db" and c: "revoke now t i rv who db = (x, db')"
  shows "(\<exists>e. x = Inl e \<and> db' = db) \<or>
    (\<exists>cur. x = Inr (raw_handle cur) \<and> db' = db \<and> current_row t i db = Inr cur \<and> sr_revision cur = rv \<and> sr_state cur = Revoked) \<or>
    (\<exists>h r cur. x = Inr h \<and> current_row t i db = Inr cur \<and> sr_revision cur = rv \<and> sr_state cur \<noteq> Revoked \<and>
       grew C h r db db' \<and> sr_state r = Revoked \<and> sr_sealed r = None \<and> sr_tenant_id r = t \<and> sr_id r = i \<and> sr_revision r = rv + 1 \<and>
       sr_scopes r = sr_scopes cur)"
proof (insert c [unfolded revoke_def], erule transaction_cases, blast, goal_cases)
  case (1 y)
  from 1(1) obtain cur where cur: "current_row t i db = Inr cur" by (cases "current_row t i db") auto
  note last = current_row_last [OF inv cur]
  note handle = row_okD(1) [OF last(7)]
  have rv: "sr_revision cur = rv" using 1(1) cur handle by (auto split: if_splits)
  show ?case
  proof (cases "sr_state cur = Revoked")
    case True
    then have "y = raw_handle cur" "db' = db" using 1(1) cur handle rv by auto
    with True cur rv 1(2) show ?thesis by blast
  next
    case False
    let ?h = "\<lparr>sh_tenant_id = t, sh_id = i, sh_revision = sr_revision cur + 1, sh_name = sr_name cur, sh_state = Revoked,
      sh_scopes = sr_scopes cur, sh_created_at = now, sh_created_by = who\<rparr>"
    obtain h where h: "SecretHandle ?h = Inr h"
      using 1(1) cur handle rv False last(4,5) by (cases "SecretHandle ?h") auto
    have hn: "h = handle_norm ?h" "handle_fields h = []" using h unfolding SecretHandle_iff by blast+
    let ?r = "\<lparr>sr_tenant_id = sh_tenant_id h, sr_id = sh_id h, sr_revision = sh_revision h, sr_name = sh_name h, sr_state = Revoked,
      sr_scopes = sh_scopes h, sr_sealed = None, sr_created_at = sh_created_at h, sr_created_by = sh_created_by h\<rparr>"
    have ids: "py_strip t = t" "py_strip i = i"
      using row_okD(8) [OF last(7)] slug_strip [OF row_okD(5) [OF last(7)]] last(4,5) by auto
    have key: "sh_tenant_id h = t" "sh_id h = i" "sh_revision h = sr_revision cur + 1" "sh_state h = Revoked" "sh_scopes h = sr_scopes cur"
      using hn(1) ids row_okD(7) [OF last(7)] by simp_all
    have raw: "raw_handle ?r = h" using key(4) by (simp add: raw_handle_def)
    have ok: "row_ok C ?r" unfolding row_ok_def handle_of_raw raw SecretHandle_iff using hn by simp
    obtain refs where ia: "insert_secret_revision ?r db = (Inr (), db\<lparr>secret_revisions := secret_revisions db @ [?r]\<rparr>)"
      "advance_current_ref h (sr_revision cur) now who (db\<lparr>secret_revisions := secret_revisions db @ [?r]\<rparr>) = (Inr (), appended ?r refs db)"
      "vault_inv C (appended ?r refs db)"
      using insert_advance [OF inv cur ok, of h now who] key by auto
    have "y = h \<and> db' = appended ?r refs db"
      using 1(1) by (auto simp: cur handle rv False last(4,5) h [unfolded rv] ia [unfolded rv])
    then have "x = Inr h \<and> current_row t i db = Inr cur \<and> sr_revision cur = rv \<and> sr_state cur \<noteq> Revoked \<and>
         grew C h ?r db db' \<and> sr_state ?r = Revoked \<and> sr_sealed ?r = None \<and> sr_tenant_id ?r = t \<and> sr_id ?r = i \<and>
         sr_revision ?r = rv + 1 \<and> sr_scopes ?r = sr_scopes cur"
      using 1(2) cur rv False ok raw ia(3) key unfolding grew_def by auto
    then show ?thesis by blast
  qed
qed

text \<open>The row \<open>issue_grant\<close> inserts.\<close>

definition granted :: "(string \<Rightarrow> string) \<Rightarrow> timestamp \<Rightarrow> issued_secret_grant \<Rightarrow> secret_grant" where
  "granted sha now ig = (let r = ig_receipt ig in \<lparr>sg_id = gr_id r, sg_tenant_id = gr_tenant_id r, sg_secret_id = gr_secret_id r,
     sg_secret_revision = gr_secret_revision r, sg_capability_id = gr_capability_id r, sg_scopes = gr_scopes r,
     sg_token_hash = sha (utf8 (ig_token ig)), sg_expires_at = gr_expires_at r, sg_created_at = now, sg_consumed_at = None\<rparr>)"

lemma granted_sel [simp]:
  "sg_id (granted sha now ig) = gr_id (ig_receipt ig)" "sg_tenant_id (granted sha now ig) = gr_tenant_id (ig_receipt ig)"
  "sg_secret_id (granted sha now ig) = gr_secret_id (ig_receipt ig)" "sg_secret_revision (granted sha now ig) = gr_secret_revision (ig_receipt ig)"
  "sg_capability_id (granted sha now ig) = gr_capability_id (ig_receipt ig)" "sg_scopes (granted sha now ig) = gr_scopes (ig_receipt ig)"
  "sg_token_hash (granted sha now ig) = sha (utf8 (ig_token ig))" "sg_expires_at (granted sha now ig) = gr_expires_at (ig_receipt ig)"
  "sg_consumed_at (granted sha now ig) = None"
  by (simp_all add: granted_def Let_def)

lemma issue_step:
  assumes inv: "vault_inv C db" and c: "issue_grant sha uuid random now t i cap sc ttl db = (x, db')"
  shows "(\<exists>e. x = Inl e \<and> db' = db) \<or>
    (\<exists>ig cur. x = Inr ig \<and> current_row t i db = Inr cur \<and> sr_state cur = ActiveSecret \<and>
       gr_tenant_id (ig_receipt ig) = t \<and> gr_secret_id (ig_receipt ig) = i \<and> gr_secret_revision (ig_receipt ig) = sr_revision cur \<and>
       gr_capability_id (ig_receipt ig) = py_strip cap \<and> gr_expires_at (ig_receipt ig) = plus_seconds now ttl \<and>
       scopes_of sc = Inr (gr_scopes (ig_receipt ig)) \<and> set (gr_scopes (ig_receipt ig)) \<subseteq> set (sr_scopes cur) \<and>
       (\<forall>g \<in> set (secret_grants db). sg_token_hash g \<noteq> sha (utf8 (ig_token ig)) \<and> sg_id g \<noteq> gr_id (ig_receipt ig)) \<and>
       db' = db\<lparr>secret_grants := secret_grants db @ [granted sha now ig]\<rparr> \<and> vault_inv C db')"
proof (insert c [unfolded issue_grant_def], (erule checked_cases, blast)+, erule transaction_cases, blast, goal_cases)
  case (1 scopes u y)
  from 1(3) obtain cur where cur: "current_row t i db = Inr cur" by (cases "current_row t i db") auto
  note last = current_row_last [OF inv cur]
  note handle = row_okD(1) [OF last(7)]
  have st: "sr_state cur = ActiveSecret" "set scopes \<subseteq> set (sr_scopes cur)" using 1(3) cur handle by (auto split: if_splits)
  obtain gid where gid: "new_short_id uuid ''grant'' 12 = Inr gid"
    using 1(3) cur handle st by (cases "new_short_id uuid ''grant'' 12") auto
  let ?rc = "\<lparr>gr_id = gid, gr_tenant_id = t, gr_secret_id = i, gr_secret_revision = sr_revision cur,
    gr_capability_id = cap, gr_scopes = scopes, gr_expires_at = plus_seconds now ttl\<rparr>"
  obtain rc where rc: "SecretGrantReceipt ?rc = Inr rc"
    using 1(3) cur handle st gid last(4,5) by (cases "SecretGrantReceipt ?rc") (auto simp: Let_def)
  have sc: "map py_strip scopes = scopes" using 1(1) by (auto simp: scopes_of_def Let_def split: if_splits)
  have rn: "rc = receipt_norm ?rc" "receipt_fields rc = []" using rc unfolding SecretGrantReceipt_iff by blast+
  have ids: "py_strip t = t" "py_strip i = i"
    using row_okD(8) [OF last(7)] slug_strip [OF row_okD(5) [OF last(7)]] last(4,5) by auto
  have key: "gr_id rc = py_strip gid" "gr_tenant_id rc = t" "gr_secret_id rc = i" "gr_secret_revision rc = sr_revision cur"
    "gr_capability_id rc = py_strip cap" "gr_scopes rc = scopes" "gr_expires_at rc = plus_seconds now ttl"
    using rn(1) ids sc by (simp_all add: receipt_norm_def)
  have fine: "slug (gr_id rc)" "scopes_ok (gr_scopes rc)" using rn(2) by (simp_all add: receipt_fields_def)
  let ?ig = "\<lparr>ig_receipt = rc, ig_token = token_urlsafe random 32\<rparr>" and ?h = "sha (utf8 (token_urlsafe random 32))"
  have new: "\<not> (\<exists>g \<in> set (secret_grants db). sg_id g = gr_id rc \<or> sg_token_hash g = ?h)"
    using 1(3) cur handle st gid rc last(4,5) by (auto simp: Let_def split: if_splits)
  let ?db = "db\<lparr>secret_grants := secret_grants db @ [granted sha now ?ig]\<rparr>"
  have "y = ?ig \<and> db' = ?db"
    using 1(3) new by (auto simp: cur handle st gid last(4,5) rc Let_def granted_def)
  moreover have "grant_ok ?db (granted sha now ?ig)"
    unfolding grant_ok_def using key fine sc st last(4-6) by (auto simp: row_of_secret_def)
  then have "vault_inv C ?db"
    using inv new unfolding vault_inv_def by (auto simp: grant_ok_def secret_rows_def head_revision_def current_ref_def)
  ultimately have "x = Inr ?ig \<and> current_row t i db = Inr cur \<and> sr_state cur = ActiveSecret \<and>
       gr_tenant_id (ig_receipt ?ig) = t \<and> gr_secret_id (ig_receipt ?ig) = i \<and> gr_secret_revision (ig_receipt ?ig) = sr_revision cur \<and>
       gr_capability_id (ig_receipt ?ig) = py_strip cap \<and> gr_expires_at (ig_receipt ?ig) = plus_seconds now ttl \<and>
       scopes_of sc = Inr (gr_scopes (ig_receipt ?ig)) \<and> set (gr_scopes (ig_receipt ?ig)) \<subseteq> set (sr_scopes cur) \<and>
       (\<forall>g \<in> set (secret_grants db). sg_token_hash g \<noteq> sha (utf8 (ig_token ?ig)) \<and> sg_id g \<noteq> gr_id (ig_receipt ?ig)) \<and>
       db' = db\<lparr>secret_grants := secret_grants db @ [granted sha now ?ig]\<rparr> \<and> vault_inv C db'"
    using 1(1,4) cur st key new by auto
  then show ?case by blast
qed

lemma short_id_grant: "\<exists>i. new_short_id uuid ''grant'' 12 = Inr i"
  by (simp add: new_short_id_def id_prefix_def name_of_def is_lower_def is_digit_def py_lower_def py_lower_char_def py_strip_def py_isspace_def Let_def)

lemma scopes_ok_subset:
  assumes "scopes_of sc = Inr s" "set s \<subseteq> set u" "scopes_ok u"
  shows "scopes_ok s"
proof -
  have s: "distinct s" "s \<noteq> []" using assms(1) by (auto simp: scopes_of_def Let_def split: if_splits)
  have "length s = card (set s)" by (rule distinct_card [OF s(1), symmetric])
  also have "\<dots> \<le> card (set u)" using assms(2) by (simp add: card_mono)
  also have "\<dots> \<le> length u" by (rule card_length)
  finally have "length s \<le> length u" .
  with s assms(2,3) show ?thesis by (cases s) (auto simp: scopes_ok_def sized_def list_all_iff)
qed

text \<open>A grant for allowed scopes of an active secret is issued unless a drawn identifier or token repeats.\<close>

lemma issue_ok:
  assumes inv: "vault_inv C db" and cur: "current_row t i db = Inr cur" "sr_state cur = ActiveSecret"
    and args: "scopes_of sc = Inr s" "set s \<subseteq> set (sr_scopes cur)" "1 \<le> ttl" "ttl \<le> 3600" "slug (py_strip cap)"
    and fresh: "\<forall>g \<in> set (secret_grants db). sg_token_hash g \<noteq> sha (utf8 (token_urlsafe random 32)) \<and> Inr (sg_id g) \<noteq> new_short_id uuid ''grant'' 12"
  shows "\<exists>ig db'. issue_grant sha uuid random now t i cap sc ttl db = (Inr ig, db')"
proof -
  note last = current_row_last [OF inv cur(1)]
  obtain gid where gid: "new_short_id uuid ''grant'' 12 = Inr gid" using short_id_grant by blast
  let ?rc = "\<lparr>gr_id = gid, gr_tenant_id = t, gr_secret_id = i, gr_secret_revision = sr_revision cur,
    gr_capability_id = cap, gr_scopes = s, gr_expires_at = plus_seconds now ttl\<rparr>"
  note g = new_short_id_slug [OF gid] and ok = row_okD [OF last(7), unfolded last(4,5)]
  have "map py_strip s = s" using args(1) by (auto simp: scopes_of_def Let_def split: if_splits)
  then have rc: "SecretGrantReceipt ?rc = Inr (?rc\<lparr>gr_capability_id := py_strip cap\<rparr>)"
    unfolding SecretGrantReceipt_iff
    using args(5) g slug_strip [OF g] ok slug_strip [OF ok(5)] scopes_ok_subset [OF args(1,2) ok(6)]
    by (simp add: receipt_norm_def receipt_fields_def)
  have new: "\<not> (\<exists>g \<in> set (secret_grants db). sg_id g = gid \<or> sg_token_hash g = sha (utf8 (token_urlsafe random 32)))"
    using fresh gid by auto
  show ?thesis
    using args(1-4) by (auto simp: issue_grant_def transaction_def cur row_okD(1) [OF last(7)] last(4,5) gid rc new Let_def)
qed

lemma grant_revision:
  assumes inv: "vault_inv C db" and g: "g \<in> set (secret_grants db)"
  shows "\<exists>r. revision_row (sg_tenant_id g) (sg_secret_id g) (sg_secret_revision g) db = Some r \<and> r \<in> set (secret_revisions db) \<and>
    sr_tenant_id r = sg_tenant_id g \<and> sr_id r = sg_secret_id g \<and> sr_revision r = sg_secret_revision g \<and> sr_state r = ActiveSecret \<and> row_ok C r"
proof -
  from vault_invD(5) [OF inv g] obtain r where r: "r \<in> set (secret_revisions db)" "sr_tenant_id r = sg_tenant_id g" "sr_id r = sg_secret_id g"
    "sr_revision r = sg_secret_revision g" "sr_state r = ActiveSecret" by (auto simp: grant_ok_def row_of_secret_def)
  with revision_row_mem [OF inv r(1)] vault_invD(4) [OF inv r(1)] show ?thesis by auto
qed

text \<open>The database after the grant \<open>i\<close> is marked as consumed.\<close>

definition consumed :: "string \<Rightarrow> timestamp \<Rightarrow> vault_db \<Rightarrow> vault_db" where
  "consumed i now db = db\<lparr>secret_grants := upd (\<lambda>g. sg_id g = i \<and> sg_consumed_at g = None)
     (\<lambda>g. g\<lparr>sg_consumed_at := Some now\<rparr>) (secret_grants db)\<rparr>"

lemma consumed_simps [simp]:
  "secret_revisions (consumed i now db) = secret_revisions db" "secret_current_refs (consumed i now db) = secret_current_refs db"
  "secret_rows t k (consumed i now db) = secret_rows t k db" "head_revision t k (consumed i now db) = head_revision t k db"
  by (simp_all add: consumed_def secret_rows_def head_revision_def current_ref_def)

lemma consumed_inv: "vault_inv C db \<Longrightarrow> vault_inv C (consumed i now db)"
proof -
  assume inv: "vault_inv C db"
  have "map sg_id (secret_grants (consumed i now db)) = map sg_id (secret_grants db)"
    "map sg_token_hash (secret_grants (consumed i now db)) = map sg_token_hash (secret_grants db)"
    unfolding consumed_def by (simp_all add: map_upd)
  moreover have "grant_ok (consumed i now db) g'" if g': "g' \<in> set (secret_grants (consumed i now db))" for g'
  proof -
    from upd_memD [OF g' [unfolded consumed_def, simplified]] obtain g where
      "g \<in> set (secret_grants db)" "g' = (if sg_id g = i \<and> sg_consumed_at g = None then g\<lparr>sg_consumed_at := Some now\<rparr> else g)" by blast
    with vault_invD(5) [OF inv, of g] show ?thesis by (auto simp: grant_ok_def)
  qed
  ultimately show ?thesis using inv unfolding vault_inv_def by simp
qed

lemma scopes_stripped:
  assumes "scopes_ok s" "map py_strip s = s" "x \<in> set s"
  shows "secret_scope True x" "py_strip x = x"
  using assms by (auto simp: scopes_ok_def list_all_iff map_idI in_set_conv_nth) (metis nth_map)

lemma redeem_ok:
  assumes inv: "vault_inv C db" and row: "grant_row (sha (utf8 token)) db = Some (g, r, f)"
    and live: "sg_consumed_at g = None" "now < sg_expires_at g" "sg_capability_id g = py_strip cap" "scope \<in> set (sg_scopes g)"
      "cf_revision f = sg_secret_revision g"
  shows "\<exists>v. unseal C r = Inr v \<and> redeem_grant C sha now token cap scope db =
    (Inr \<lparr>sm_grant_id = sg_id g, sm_secret_id = sg_secret_id g, sm_name = sr_name r, sm_scope = scope, sm_value = v\<rparr>, consumed (sg_id g) now db)"
proof -
  have g: "g \<in> set (secret_grants db)" and r: "revision_row (sg_tenant_id g) (sg_secret_id g) (sg_secret_revision g) db = Some r"
    using row sel_SomeD [of "\<lambda>g. sg_token_hash g = sha (utf8 token)" "secret_grants db" g] by (auto simp: grant_row_def split: option.splits)
  note gr = grant_revision [OF inv g, unfolded r]
  then have st: "sr_state r = ActiveSecret" and ok: "row_ok C r" and i: "sr_id r = sg_secret_id g" by auto
  obtain v where v: "unseal C r = Inr v" using ok st by (auto simp: row_ok_def)
  let ?P = "\<lambda>h. sg_id h = sg_id g \<and> sg_consumed_at h = None"
  have "length (filter ?P (secret_grants db)) = 1"
    by (subst filter_keyed [OF vault_invD(6) [OF inv]]) (use g live(1) in auto)
  then have con: "consume_grant (sg_id g) now db = (Inr (), consumed (sg_id g) now db)"
    by (simp add: consume_grant_def consumed_def Let_def)
  have gok: "slug (sg_id g)" "scopes_ok (sg_scopes g)" "map py_strip (sg_scopes g) = sg_scopes g"
    using vault_invD(5) [OF inv g] by (auto simp: grant_ok_def)
  let ?m = "\<lparr>sm_grant_id = sg_id g, sm_secret_id = sg_secret_id g, sm_name = sr_name r, sm_scope = scope, sm_value = v\<rparr>"
  note sc = scopes_stripped [OF gok(2,3) live(4)]
  have "SecretMaterial ?m = Inr ?m"
    unfolding SecretMaterial_iff using gok(1) slug_strip [OF gok(1)] row_okD(4,5) [OF ok] slug_strip [OF row_okD(4) [OF ok]]
      slug_strip [OF row_okD(5) [OF ok]] sc i by (simp add: material_norm_def material_fields_def)
  with row live st v con show ?thesis by (auto simp: redeem_grant_def)
qed

lemma redeem_step:
  assumes inv: "vault_inv C db" and c: "redeem_grant C sha now token cap scope db = (x, db')"
  shows "(\<exists>e. x = Inl e \<and> db' = db) \<or>
    (\<exists>m g r. x = Inr m \<and> g \<in> set (secret_grants db) \<and> sg_token_hash g = sha (utf8 token) \<and> sg_consumed_at g = None \<and>
       now < sg_expires_at g \<and> sg_capability_id g = py_strip cap \<and> scope \<in> set (sg_scopes g) \<and> set (sg_scopes g) \<subseteq> set (sr_scopes r) \<and>
       current_row (sg_tenant_id g) (sg_secret_id g) db = Inr r \<and> sr_revision r = sg_secret_revision g \<and> sr_state r = ActiveSecret \<and>
       unseal C r = Inr (sm_value m) \<and> sm_grant_id m = sg_id g \<and> sm_secret_id m = sg_secret_id g \<and> sm_scope m = scope \<and>
       db' = consumed (sg_id g) now db \<and> vault_inv C db')"
proof (cases "\<exists>g r f. grant_row (sha (utf8 token)) db = Some (g, r, f) \<and> sg_consumed_at g = None \<and> now < sg_expires_at g \<and>
    sg_capability_id g = py_strip cap \<and> scope \<in> set (sg_scopes g) \<and> cf_revision f = sg_secret_revision g")
  case True
  then obtain g r f where row: "grant_row (sha (utf8 token)) db = Some (g, r, f)" and
    live: "sg_consumed_at g = None" "now < sg_expires_at g" "sg_capability_id g = py_strip cap" "scope \<in> set (sg_scopes g)"
      "cf_revision f = sg_secret_revision g" by blast
  from redeem_ok [where sha = sha and token = token, OF inv row live] c obtain v where v: "unseal C r = Inr v" and
    x: "x = Inr \<lparr>sm_grant_id = sg_id g, sm_secret_id = sg_secret_id g, sm_name = sr_name r, sm_scope = scope, sm_value = v\<rparr>"
      "db' = consumed (sg_id g) now db" by auto
  have g: "g \<in> set (secret_grants db)" "sg_token_hash g = sha (utf8 token)"
    and r: "revision_row (sg_tenant_id g) (sg_secret_id g) (sg_secret_revision g) db = Some r"
    and f: "current_ref (sg_tenant_id g) (sg_secret_id g) db = Some f"
    using row sel_SomeD [of "\<lambda>g. sg_token_hash g = sha (utf8 token)" "secret_grants db" g] by (auto simp: grant_row_def split: option.splits)
  have cur: "current_row (sg_tenant_id g) (sg_secret_id g) db = Inr r" using f r live(5) by (simp add: current_row_def)
  have sc: "set (sg_scopes g) \<subseteq> set (sr_scopes r)"
  proof -
    from vault_invD(5) [OF inv g(1)] obtain s where s: "s \<in> set (secret_revisions db)" "sr_tenant_id s = sg_tenant_id g" "sr_id s = sg_secret_id g"
      "sr_revision s = sg_secret_revision g" "set (sg_scopes g) \<subseteq> set (sr_scopes s)" by (auto simp: grant_ok_def row_of_secret_def)
    with revision_row_mem [OF inv s(1)] r show ?thesis by simp
  qed
  have "sr_state r = ActiveSecret" "sr_revision r = sg_secret_revision g" using grant_revision [OF inv g(1)] r by auto
  with g live cur v x sc consumed_inv [OF inv] show ?thesis by auto
next
  case False
  then have "\<exists>e. (x, db') = (Inl e, db)"
    unfolding c [symmetric] redeem_grant_def by (auto split: option.splits prod.splits sum.splits simp: not_less)
  then show ?thesis by blast
qed

section \<open>Calls on a vault\<close>

datatype vault_call =
    CreatePending "nat list" timestamp string string "string list" string "string option"
  | Fulfill string timestamp string string int string string
  | Rotate string timestamp string string int string string "string list option"
  | Revoke timestamp string string int string
  | IssueGrant "nat list" "nat \<Rightarrow> char" timestamp string string string "string list" int
  | RedeemGrant timestamp string string string

datatype vault_result =
    HandleResult secret_handle
  | GrantResult issued_secret_grant
  | MaterialResult secret_material

definition as_result :: "('a \<Rightarrow> vault_result) \<Rightarrow> (vault_error + 'a) \<times> vault_db \<Rightarrow> (vault_error + vault_result) \<times> vault_db" where
  "as_result f r = map_prod (map_sum id f) id r"

lemma as_result_simps [simp]:
  "snd (as_result f r) = snd r" "fst (as_result f r) = map_sum id f (fst r)" "as_result f (y, db) = (map_sum id f y, db)"
  by (simp_all add: as_result_def)

fun vault_exec :: "host_cipher \<Rightarrow> (string \<Rightarrow> string) \<Rightarrow> vault_call \<Rightarrow> (vault_db, vault_error, vault_result) oper" where
  "vault_exec C sha (CreatePending uuid now t n sc who sid) db = as_result HandleResult (create_pending uuid now t n sc who sid db)"
| "vault_exec C sha (Fulfill iv now t i rv v who) db = as_result HandleResult (fulfill C iv now t i rv v who db)"
| "vault_exec C sha (Rotate iv now t i rv v who sc) db = as_result HandleResult (rotate C iv now t i rv v who sc db)"
| "vault_exec C sha (Revoke now t i rv who) db = as_result HandleResult (revoke now t i rv who db)"
| "vault_exec C sha (IssueGrant uuid random now t i cap sc ttl) db = as_result GrantResult (issue_grant sha uuid random now t i cap sc ttl db)"
| "vault_exec C sha (RedeemGrant now token cap scope) db = as_result MaterialResult (redeem_grant C sha now token cap scope db)"

text \<open>
  The contract: a secret is the list of its entries. A successful call appends one entry to one
  list, provided the list has the expected length and its last entry the expected state; a failed
  call, a grant and a second revocation append nothing.
\<close>

type_synonym secret_logs = "string \<times> string \<Rightarrow> log_entry list"

definition logs :: "host_cipher \<Rightarrow> vault_db \<Rightarrow> secret_logs" where
  "logs C db = (\<lambda>(t, i). secret_log C t i db)"

definition add_entry :: "string \<times> string \<Rightarrow> log_entry \<Rightarrow> secret_logs \<Rightarrow> secret_logs" where
  "add_entry k e L = L(k := L k @ [e])"

definition last_state :: "log_entry list \<Rightarrow> secret_state option" where
  "last_state es = (if es = [] then None else Some (fst (last es)))"

fun spec_after :: "vault_call \<Rightarrow> vault_error + vault_result \<Rightarrow> secret_logs \<Rightarrow> secret_logs" where
  "spec_after (CreatePending _ _ _ _ _ _ _) (Inr (HandleResult h)) L = add_entry (sh_tenant_id h, sh_id h) (Pending, sh_scopes h, None) L"
| "spec_after (Fulfill _ _ t i _ v _) (Inr (HandleResult h)) L = add_entry (t, i) (ActiveSecret, sh_scopes h, Some v) L"
| "spec_after (Rotate _ _ t i _ v _ _) (Inr (HandleResult h)) L = add_entry (t, i) (ActiveSecret, sh_scopes h, Some v) L"
| "spec_after (Revoke _ t i _ _) (Inr (HandleResult h)) L =
     (if last_state (L (t, i)) = Some Revoked then L else add_entry (t, i) (Revoked, sh_scopes h, None) L)"
| "spec_after _ _ L = L"

fun spec_guard :: "vault_call \<Rightarrow> vault_error + vault_result \<Rightarrow> secret_logs \<Rightarrow> bool" where
  "spec_guard (CreatePending _ _ _ _ _ _ _) (Inr (HandleResult h)) L = (L (sh_tenant_id h, sh_id h) = [] \<and> sh_revision h = 1)"
| "spec_guard (Fulfill _ _ t i rv v _) (Inr (HandleResult h)) L =
     (int (length (L (t, i))) = rv \<and> last_state (L (t, i)) = Some Pending \<and> v \<noteq> [] \<and> sh_revision h = rv + 1)"
| "spec_guard (Rotate _ _ t i rv v _ _) (Inr (HandleResult h)) L =
     (int (length (L (t, i))) = rv \<and> last_state (L (t, i)) = Some ActiveSecret \<and> v \<noteq> [] \<and> sh_revision h = rv + 1)"
| "spec_guard (Revoke _ t i rv _) (Inr (HandleResult h)) L = (int (length (L (t, i))) = rv \<and> L (t, i) \<noteq> [])"
| "spec_guard _ _ L = True"

lemma logs_grew:
  assumes "grew C h r db db'"
  shows "logs C db' = add_entry (sr_tenant_id r, sr_id r) (entry_of C r) (logs C db)"
  using assms by (auto simp: grew_def logs_def add_entry_def appended_log fun_eq_iff)

lemma log_current:
  assumes "vault_inv C db" "current_row t i db = Inr cur"
  shows "int (length (logs C db (t, i))) = sr_revision cur" "last_state (logs C db (t, i)) = Some (sr_state cur)"
    "logs C db (t, i) \<noteq> []" "last (logs C db (t, i)) = entry_of C cur"
proof -
  note cur = current_row_last [OF assms]
  have "1 \<le> head_revision t i db" using row_okD(3) [OF cur(7)] cur(3) by simp
  then show "int (length (logs C db (t, i))) = sr_revision cur" "logs C db (t, i) \<noteq> []"
    using rows_length [OF assms(1), of t i] cur(1,3) by (simp_all add: logs_def secret_log_def)
  show "last (logs C db (t, i)) = entry_of C cur" "last_state (logs C db (t, i)) = Some (sr_state cur)"
    using cur(1,2) by (simp_all add: logs_def secret_log_def last_state_def last_map entry_of_def)
qed

lemma write_spec:
  assumes "cipher_ok C" "vault_inv C db" "write_active_revision C iv now t i rv st v sc who db = (x, db')"
  shows "vault_inv C db' \<and> (case x of Inl _ \<Rightarrow> db' = db
    | Inr h \<Rightarrow> logs C db' = add_entry (t, i) (ActiveSecret, sh_scopes h, Some v) (logs C db) \<and>
        int (length (logs C db (t, i))) = rv \<and> last_state (logs C db (t, i)) = Some st \<and> v \<noteq> [] \<and> sh_revision h = rv + 1 \<and>
        secret_grants db' = secret_grants db)"
proof (rule disjE [OF write_step [OF assms]])
  assume "\<exists>h r cur. x = Inr h \<and> current_row t i db = Inr cur \<and> sr_revision cur = rv \<and> sr_state cur = st \<and> v \<noteq> [] \<and>
       grew C h r db db' \<and> sr_state r = ActiveSecret \<and> sr_sealed r \<noteq> None \<and> unseal C r = Inr v \<and>
       sr_tenant_id r = t \<and> sr_id r = i \<and> sr_revision r = rv + 1"
  then obtain h r cur where x: "x = Inr h" "current_row t i db = Inr cur" "sr_revision cur = rv" "sr_state cur = st" "v \<noteq> []"
    and g: "grew C h r db db'" and r: "sr_state r = ActiveSecret" "sr_sealed r \<noteq> None" "unseal C r = Inr v"
       "sr_tenant_id r = t" "sr_id r = i" "sr_revision r = rv + 1" by blast
  have "entry_of C r = (ActiveSecret, sr_scopes r, Some v)" using r by (auto simp: entry_of_def)
  moreover have "raw_handle r = h" "vault_inv C db'" "secret_grants db' = secret_grants db" using g by (auto simp: grew_def)
  ultimately show ?thesis using logs_grew [OF g] r log_current [OF assms(2) x(2)] x by auto
qed (use assms(2) in auto)

lemma revoke_spec:
  assumes "vault_inv C db" "revoke now t i rv who db = (x, db')"
  shows "vault_inv C db' \<and> (case x of Inl _ \<Rightarrow> db' = db
    | Inr h \<Rightarrow> int (length (logs C db (t, i))) = rv \<and> logs C db (t, i) \<noteq> [] \<and> secret_grants db' = secret_grants db \<and>
        logs C db' = (if last_state (logs C db (t, i)) = Some Revoked then logs C db
          else add_entry (t, i) (Revoked, sh_scopes h, None) (logs C db)))"
proof -
  from revoke_step [OF assms] consider
      e where "x = Inl e" "db' = db"
    | cur where "x = Inr (raw_handle cur)" "db' = db" "current_row t i db = Inr cur" "sr_revision cur = rv" "sr_state cur = Revoked"
    | h r cur where "x = Inr h" "current_row t i db = Inr cur" "sr_revision cur = rv" "sr_state cur \<noteq> Revoked"
       "grew C h r db db'" "sr_state r = Revoked" "sr_sealed r = None" "sr_tenant_id r = t" "sr_id r = i" by blast
  then show ?thesis
  proof cases
    case 1
    with assms(1) show ?thesis by simp
  next
    case 2
    with assms(1) log_current [OF assms(1) 2(3)] show ?thesis by simp
  next
    case 3
    have "entry_of C r = (Revoked, sr_scopes r, None)" using 3 by (simp add: entry_of_def)
    moreover have "raw_handle r = h" "vault_inv C db'" "secret_grants db' = secret_grants db" using 3(5) by (auto simp: grew_def)
    ultimately show ?thesis using 3 logs_grew [OF 3(5)] log_current [OF assms(1) 3(2)] by auto
  qed
qed

lemma same_logs: "secret_revisions db' = secret_revisions db \<Longrightarrow> logs C db' = logs C db"
  by (simp add: logs_def secret_log_def secret_rows_def)

lemma vault_exec_spec:
  assumes C: "cipher_ok C" and inv: "vault_inv C db" and c: "vault_exec C sha c db = (x, db')"
  shows "vault_inv C db' \<and> logs C db' = spec_after c x (logs C db) \<and> spec_guard c x (logs C db)"
proof (cases c)
  case (CreatePending uuid now t n sc who sid)
  with c obtain y where y: "create_pending uuid now t n sc who sid db = (y, db')" "x = map_sum id HandleResult y"
    by (cases "create_pending uuid now t n sc who sid db") auto
  from create_pending_step [OF inv y(1)] show ?thesis
  proof (elim disjE exE conjE)
    fix h r assume s: "y = Inr h" "grew C h r db db'" "sr_state r = Pending" "sr_sealed r = None" "secret_rows (sr_tenant_id r) (sr_id r) db = []"
    have raw: "raw_handle r = h" "vault_inv C db'" using s(2) by (auto simp: grew_def)
    have h: "sh_tenant_id h = sr_tenant_id r" "sh_id h = sr_id r" "sh_scopes h = sr_scopes r" "sh_revision h = sr_revision r"
      using raw(1) by auto
    have e: "logs C db (sr_tenant_id r, sr_id r) = []" using s(5) by (simp add: logs_def secret_log_def)
    have "secret_rows (sr_tenant_id r) (sr_id r) db' = [r]" using s(2,5) by (auto simp: grew_def appended_rows)
    then have "sr_revision r = 1" using rows_nth [OF raw(2), of 0 "sr_tenant_id r" "sr_id r"] by simp
    moreover have "entry_of C r = (Pending, sr_scopes r, None)" using s by (simp add: entry_of_def)
    ultimately show ?thesis using CreatePending y(2) s(1) raw(2) logs_grew [OF s(2)] e h by simp
  qed (use CreatePending y inv in auto)
next
  case (Fulfill iv now t i rv v who)
  with c obtain y where y: "fulfill C iv now t i rv v who db = (y, db')" "x = map_sum id HandleResult y"
    by (cases "fulfill C iv now t i rv v who db") auto
  from write_spec [OF C inv y(1) [unfolded fulfill_def]] Fulfill y(2) show ?thesis by (cases y) auto
next
  case (Rotate iv now t i rv v who sc)
  with c obtain y where y: "rotate C iv now t i rv v who sc db = (y, db')" "x = map_sum id HandleResult y"
    by (cases "rotate C iv now t i rv v who sc db") auto
  from y(1) [unfolded rotate_def] show ?thesis
  proof (cases rule: checked_cases)
    case (good s)
    from write_spec [OF C inv good(2)] Rotate y(2) show ?thesis by (cases y) auto
  qed (use Rotate y inv in auto)
next
  case (Revoke now t i rv who)
  with c obtain y where y: "revoke now t i rv who db = (y, db')" "x = map_sum id HandleResult y"
    by (cases "revoke now t i rv who db") auto
  from revoke_spec [OF inv y(1)] Revoke y(2) show ?thesis by (cases y) auto
next
  case (IssueGrant uuid random now t i cap sc ttl)
  with c obtain y where y: "issue_grant sha uuid random now t i cap sc ttl db = (y, db')" "x = map_sum id GrantResult y"
    by (cases "issue_grant sha uuid random now t i cap sc ttl db") auto
  have "vault_inv C db' \<and> secret_revisions db' = secret_revisions db" using issue_step [OF inv y(1)] by (elim disjE exE conjE) (simp_all add: inv)
  with IssueGrant y(2) same_logs [of db' db C] show ?thesis by (cases y) simp_all
next
  case (RedeemGrant now token cap scope)
  with c obtain y where y: "redeem_grant C sha now token cap scope db = (y, db')" "x = map_sum id MaterialResult y"
    by (cases "redeem_grant C sha now token cap scope db") auto
  have "vault_inv C db' \<and> secret_revisions db' = secret_revisions db" using redeem_step [OF inv y(1)] by (elim disjE exE conjE) (simp_all add: inv)
  with RedeemGrant y(2) same_logs [of db' db C] show ?thesis by (cases y) simp_all
qed

definition vault_kept :: "host_cipher \<Rightarrow> vault_db \<Rightarrow> bool" where
  "vault_kept C db = (cipher_ok C \<longrightarrow> vault_inv C db)"

lemma empty_vault_inv: "vault_inv C empty_vault"
  by (simp add: vault_inv_def empty_vault_def secret_rows_def head_revision_def current_ref_def)

interpretation vault_calls: call_system "vault_exec C sha" empty_vault "vault_kept C"
  for C :: host_cipher and sha :: "string \<Rightarrow> string"
proof
  show "vault_kept C empty_vault" by (simp add: vault_kept_def empty_vault_inv)
  show "vault_kept C (snd (vault_exec C sha c db))" if "vault_kept C db" for db c
    using that vault_exec_spec [of C db sha c] by (cases "vault_exec C sha c db") (auto simp: vault_kept_def)
qed

lemma reachable_vault: "cipher_ok C \<Longrightarrow> vault_inv C (snd (run_calls (vault_exec C sha) cs empty_vault))"
  using vault_calls.run_start_inv [of C sha cs] by (simp add: vault_kept_def)

lemma run_vault: "cipher_ok C \<Longrightarrow> vault_inv C db \<Longrightarrow> vault_inv C (snd (run_calls (vault_exec C sha) cs db))"
  using vault_calls.run_inv [of C db sha cs] by (simp add: vault_kept_def)

section \<open>Grants over a run\<close>

fun redeems :: "(string \<Rightarrow> string) \<Rightarrow> string \<Rightarrow> vault_call \<times> (vault_error + vault_result) \<Rightarrow> bool" where
  "redeems sha h (RedeemGrant _ token _ _, Inr _) = (sha (utf8 token) = h)"
| "redeems sha h _ = False"

definition spent :: "string \<Rightarrow> vault_db \<Rightarrow> bool" where
  "spent h db = (\<exists>g \<in> set (secret_grants db). sg_token_hash g = h \<and> sg_consumed_at g \<noteq> None)"

lemma write_grants: "write_active_revision C iv now t i rv st v sc who db = (x, db') \<Longrightarrow> cipher_ok C \<Longrightarrow> vault_inv C db \<Longrightarrow> secret_grants db' = secret_grants db"
  using write_spec [of C db iv now t i rv st v sc who x db'] by (cases x) auto

lemma other_calls_keep_grants:
  assumes C: "cipher_ok C" and inv: "vault_inv C db" and c: "vault_exec C sha c db = (x, db')"
  shows "secret_grants db' = secret_grants db \<or>
    (\<exists>ig now. secret_grants db' = secret_grants db @ [granted sha now ig] \<and> \<not> redeems sha h (c, x)) \<or>
    (\<exists>now token cap scope g. c = RedeemGrant now token cap scope \<and> g \<in> set (secret_grants db) \<and> sg_token_hash g = sha (utf8 token) \<and>
       sg_consumed_at g = None \<and> db' = consumed (sg_id g) now db \<and> (\<exists>m. x = Inr (MaterialResult m)))"
proof (cases c)
  case (CreatePending uuid now t n sc who sid)
  with c obtain y where y: "create_pending uuid now t n sc who sid db = (y, db')" by (cases "create_pending uuid now t n sc who sid db") auto
  show ?thesis using create_pending_step [OF inv y] by (elim disjE exE conjE) (auto simp: grew_def)
next
  case (Fulfill iv now t i rv v who)
  with c obtain y where y: "fulfill C iv now t i rv v who db = (y, db')" by (cases "fulfill C iv now t i rv v who db") auto
  show ?thesis using write_grants [OF y [unfolded fulfill_def] C inv] by simp
next
  case (Rotate iv now t i rv v who sc)
  with c obtain y where y: "rotate C iv now t i rv v who sc db = (y, db')" by (cases "rotate C iv now t i rv v who sc db") auto
  from y [unfolded rotate_def] show ?thesis by (cases rule: checked_cases) (auto dest!: write_grants [OF _ C inv])
next
  case (Revoke now t i rv who)
  with c obtain y where y: "revoke now t i rv who db = (y, db')" by (cases "revoke now t i rv who db") auto
  from revoke_spec [OF inv y] show ?thesis by (cases y) auto
next
  case (IssueGrant uuid random now t i cap sc ttl)
  with c obtain y where y: "issue_grant sha uuid random now t i cap sc ttl db = (y, db')" by (cases "issue_grant sha uuid random now t i cap sc ttl db") auto
  have "secret_grants db' = secret_grants db \<or> (\<exists>ig. secret_grants db' = secret_grants db @ [granted sha now ig])"
    using issue_step [OF inv y] by (elim disjE exE conjE) (simp, rule disjI2, rule exI, simp)
  with IssueGrant show ?thesis by auto
next
  case (RedeemGrant now token cap scope)
  with c obtain y where y: "redeem_grant C sha now token cap scope db = (y, db')" "x = map_sum id MaterialResult y"
    by (cases "redeem_grant C sha now token cap scope db") auto
  from redeem_step [OF inv y(1)] show ?thesis
  proof (elim disjE exE conjE)
    fix m g r assume "y = Inr m" "g \<in> set (secret_grants db)" "sg_token_hash g = sha (utf8 token)" "sg_consumed_at g = None"
      "db' = consumed (sg_id g) now db"
    with RedeemGrant y(2) show ?thesis by auto
  qed simp
qed

lemma spent_step:
  assumes C: "cipher_ok C" and inv: "vault_inv C db" and c: "vault_exec C sha c db = (x, db')"
  shows "(spent h db \<longrightarrow> spent h db' \<and> \<not> redeems sha h (c, x)) \<and> (redeems sha h (c, x) \<longrightarrow> spent h db')"
  using other_calls_keep_grants [OF C inv c, of h]
proof (elim disjE exE conjE)
  assume "secret_grants db' = secret_grants db"
  moreover have "\<not> redeems sha h (c, x)" if r: "redeems sha h (c, x)" "secret_grants db' = secret_grants db"
  proof -
    from r(1) obtain now token cap scope y where cr: "c = RedeemGrant now token cap scope" "x = Inr y" by (cases "(sha, h, (c, x))" rule: redeems.cases) auto
    with c obtain m where m: "redeem_grant C sha now token cap scope db = (Inr m, db')"
      by (cases "redeem_grant C sha now token cap scope db"; cases "fst (redeem_grant C sha now token cap scope db)") auto
    from redeem_step [OF inv m] obtain g where g: "g \<in> set (secret_grants db)" "sg_consumed_at g = None" "db' = consumed (sg_id g) now db" by blast
    have "g\<lparr>sg_consumed_at := Some now\<rparr> \<in> set (secret_grants db')" using g by (force simp: consumed_def set_upd)
    moreover have "distinct (map sg_id (secret_grants db))" by (rule vault_invD(6) [OF inv])
    ultimately have "g\<lparr>sg_consumed_at := Some now\<rparr> = g" using distinct_key_eq [of sg_id "secret_grants db"] g(1) r(2) by force
    then have "sg_consumed_at (g\<lparr>sg_consumed_at := Some now\<rparr>) = sg_consumed_at g" by (rule arg_cong)
    with g(2) show ?thesis by simp
  qed
  ultimately show ?thesis by (auto simp: spent_def)
next
  fix ig now assume "secret_grants db' = secret_grants db @ [granted sha now ig]" "\<not> redeems sha h (c, x)"
  then show ?thesis by (auto simp: spent_def)
next
  fix now token cap scope g m
  assume s: "c = RedeemGrant now token cap scope" "g \<in> set (secret_grants db)" "sg_token_hash g = sha (utf8 token)" "sg_consumed_at g = None"
    "db' = consumed (sg_id g) now db" "x = Inr (MaterialResult m)"
  have "\<not> spent h db" if "sg_token_hash g = h"
    using distinct_key_eq [OF vault_invD(7) [OF inv] s(2)] s(4) that by (force simp: spent_def)
  moreover have "spent h db'" if "spent h db"
    using that s(5) by (force simp: spent_def consumed_def bex_upd)
  moreover have "spent h db'" if "sg_token_hash g = h"
    unfolding spent_def s(5) consumed_def using s(2,4) that by (auto simp: bex_upd)
  ultimately show ?thesis using s(1,3,6) by auto
qed

lemma grant_survives:
  assumes C: "cipher_ok C" and inv: "vault_inv C db" and c: "vault_exec C sha c db = (x, db')"
    and g: "g \<in> set (secret_grants db)" "\<not> redeems sha (sg_token_hash g) (c, x)"
  shows "g \<in> set (secret_grants db')"
  using other_calls_keep_grants [OF C inv c, of "sg_token_hash g"]
proof (elim disjE exE conjE)
  fix now token cap scope g' m
  assume s: "c = RedeemGrant now token cap scope" "g' \<in> set (secret_grants db)" "sg_token_hash g' = sha (utf8 token)"
    "db' = consumed (sg_id g') now db" "x = Inr (MaterialResult m)"
  then have "sg_id g \<noteq> sg_id g'" using g distinct_key_eq [OF vault_invD(6) [OF inv] g(1) s(2)] by auto
  with s(4) g(1) show ?thesis by (auto simp: consumed_def set_upd image_iff intro!: bexI [of _ g])
qed (use g in auto)

lemma grant_survives_run:
  assumes C: "cipher_ok C" and inv: "vault_inv C db" and g: "g \<in> set (secret_grants db)"
    and none: "filter (redeems sha (sg_token_hash g)) (fst (run_calls (vault_exec C sha) cs db)) = []"
  shows "g \<in> set (secret_grants (snd (run_calls (vault_exec C sha) cs db)))"
  using inv g none
proof (induction cs arbitrary: db)
  case (Cons c cs)
  obtain x db1 where c: "vault_exec C sha c db = (x, db1)" by fastforce
  have "\<not> redeems sha (sg_token_hash g) (c, x)" using Cons.prems(3) c by (auto simp: Let_def split: if_splits)
  from grant_survives [OF C Cons.prems(1) c Cons.prems(2) this] vault_exec_spec [OF C Cons.prems(1) c] Cons c
  show ?case by (auto simp: Let_def split: if_splits)
qed simp

lemma redemptions_bound:
  assumes C: "cipher_ok C" and inv: "vault_inv C db"
  shows "length (filter (redeems sha h) (fst (run_calls (vault_exec C sha) cs db))) \<le> (if spent h db then 0 else 1)"
  using inv
proof (induction cs arbitrary: db)
  case (Cons c cs)
  obtain x db1 where c: "vault_exec C sha c db = (x, db1)" by fastforce
  note sp = spent_step [OF C Cons.prems c, of h]
  have "vault_inv C db1" using vault_exec_spec [OF C Cons.prems c] by blast
  from Cons.IH [OF this] sp c show ?case by (auto simp: Let_def split: if_splits)
qed simp

lemma granted_redeems:
  assumes C: "cipher_ok C" and inv: "vault_inv C db"
    and issue: "issue_grant sha uuid random now t i cap sc ttl db = (Inr ig, db1)" and db2: "db2 = snd (run_calls (vault_exec C sha) cs2 db1)"
    and unused: "filter (redeems sha (sha (utf8 (ig_token ig)))) (fst (run_calls (vault_exec C sha) cs2 db1)) = []"
    and same: "logs C db2 (t, i) = logs C db (t, i)"
    and args: "now2 < plus_seconds now ttl" "py_strip cap2 = py_strip cap" "scope \<in> py_strip ` set sc"
  shows "\<exists>m. fst (redeem_grant C sha now2 (ig_token ig) cap2 scope db2) = Inr m \<and>
    snd (snd (last (logs C db (t, i)))) = Some (sm_value m)"
proof -
  let ?g = "granted sha now ig"
  from issue_step [OF inv issue] obtain cur where cur: "current_row t i db = Inr cur" "sr_state cur = ActiveSecret" and
    rc: "gr_tenant_id (ig_receipt ig) = t" "gr_secret_id (ig_receipt ig) = i" "gr_secret_revision (ig_receipt ig) = sr_revision cur"
      "gr_capability_id (ig_receipt ig) = py_strip cap" "gr_expires_at (ig_receipt ig) = plus_seconds now ttl"
      "scopes_of sc = Inr (gr_scopes (ig_receipt ig))" and
    db1: "db1 = db\<lparr>secret_grants := secret_grants db @ [?g]\<rparr>" "vault_inv C db1" by blast
  have mem: "?g \<in> set (secret_grants db2)" unfolding db2
    by (rule grant_survives_run [OF C db1(2)]) (use db1(1) unused in simp_all)
  have inv2: "vault_inv C db2" unfolding db2 by (rule run_vault [OF C db1(2)])
  obtain r2 where r2: "current_row t i db2 = Inr r2"
    using current_row_None [OF inv2, of t i] log_current(3) [OF inv cur(1)] same
    by (cases "current_row t i db2") (auto simp: logs_def secret_log_def)
  have eq: "sr_revision r2 = sr_revision cur" "entry_of C r2 = entry_of C cur"
    using log_current [OF inv2 r2] log_current [OF inv cur(1)] same by simp_all
  from r2 obtain f where f: "current_ref t i db2 = Some f" "revision_row t i (cf_revision f) db2 = Some r2"
    by (auto simp: current_row_def split: option.splits)
  have rev: "cf_revision f = sr_revision cur" using eq(1) revision_row_SomeD [OF f(2)] by simp
  have "sel (\<lambda>g. sg_token_hash g = sha (utf8 (ig_token ig))) (secret_grants db2) = Some ?g"
    by (rule sel_unique [OF vault_invD(7) [OF inv2] mem]) simp_all
  then have row: "grant_row (sha (utf8 (ig_token ig))) db2 = Some (?g, r2, f)"
    using f rc rev by (simp add: grant_row_def)
  have "gr_scopes (ig_receipt ig) = map py_strip sc" using rc(6) by (auto simp: scopes_of_def Let_def split: if_splits)
  then have "\<exists>v. unseal C r2 = Inr v \<and> redeem_grant C sha now2 (ig_token ig) cap2 scope db2 =
      (Inr \<lparr>sm_grant_id = sg_id ?g, sm_secret_id = sg_secret_id ?g, sm_name = sr_name r2, sm_scope = scope, sm_value = v\<rparr>, consumed (sg_id ?g) now2 db2)"
    using rc rev args by (intro redeem_ok [where sha = sha and token = "ig_token ig", OF inv2 row]) simp_all
  then obtain v where v: "unseal C r2 = Inr v"
    "fst (redeem_grant C sha now2 (ig_token ig) cap2 scope db2) = Inr \<lparr>sm_grant_id = sg_id ?g, sm_secret_id = sg_secret_id ?g, sm_name = sr_name r2, sm_scope = scope, sm_value = v\<rparr>"
    by auto
  have "snd (snd (entry_of C r2)) = Some v" using unseal_entry [OF v(1)] by simp
  with v(2) eq(2) log_current(4) [OF inv cur(1)] show ?thesis by simp
qed

section \<open>Properties\<close>

text \<open>
  C7: The vault implements the contract of secret histories. Through any calls, a secret is the list of
  its entries with the values as they were given: storing a value appends exactly that value, with
  compare-and-swap on the length and the state of the list; revoking appends a revocation once; every
  failed call and every grant operation leaves all histories as they were.
\<close>

theorem vault_implements_histories:
  assumes "cipher_ok C" "db = snd (run_calls (vault_exec C sha) cs empty_vault)" "vault_exec C sha c db = (x, db')"
  shows "logs C db' = spec_after c x (logs C db) \<and> spec_guard c x (logs C db)"
  using vault_exec_spec [OF assms(1) reachable_vault [OF assms(1)] assms(3) [unfolded assms(2)]] assms(2) by blast

text \<open>
  C35: A grant is redeemed at most once. Whatever the sequence of calls, at most one of the redemptions
  that present a given token (by its hash) succeeds.
\<close>

theorem grants_redeem_at_most_once:
  assumes "cipher_ok C"
  shows "length (filter (redeems sha h) (fst (run_calls (vault_exec C sha) cs empty_vault))) \<le> 1"
  using redemptions_bound [OF assms empty_vault_inv, of sha h cs] by (simp split: if_splits)

text \<open>
  C8: What a redemption releases. The token belongs to a stored grant that is unused and has not
  expired, the capability is the one it was issued to, the scope is one of the granted scopes, which
  the secret allows, and the value is the newest entry of the secret, which is active: a grant issued
  before a rotation or a revocation releases nothing.
\<close>

theorem released_secret_is_current:
  assumes "cipher_ok C" "db = snd (run_calls (vault_exec C sha) cs empty_vault)"
    and "redeem_grant C sha now token cap scope db = (Inr m, db')"
  shows "\<exists>g \<in> set (secret_grants db). \<exists>scopes. sg_token_hash g = sha (utf8 token) \<and> sg_consumed_at g = None \<and> now < sg_expires_at g \<and>
    sg_capability_id g = py_strip cap \<and> scope \<in> set (sg_scopes g) \<and> set (sg_scopes g) \<subseteq> set scopes \<and>
    last_state (logs C db (sg_tenant_id g, sg_secret_id g)) = Some ActiveSecret \<and>
    last (logs C db (sg_tenant_id g, sg_secret_id g)) = (ActiveSecret, scopes, Some (sm_value m)) \<and>
    int (length (logs C db (sg_tenant_id g, sg_secret_id g))) = sg_secret_revision g"
proof -
  have inv: "vault_inv C db" unfolding assms(2) by (rule reachable_vault [OF assms(1)])
  from redeem_step [OF inv assms(3)] obtain g r where g: "g \<in> set (secret_grants db)" "sg_token_hash g = sha (utf8 token)" "sg_consumed_at g = None"
    "now < sg_expires_at g" "sg_capability_id g = py_strip cap" "scope \<in> set (sg_scopes g)" "set (sg_scopes g) \<subseteq> set (sr_scopes r)" and
    r: "current_row (sg_tenant_id g) (sg_secret_id g) db = Inr r" "sr_revision r = sg_secret_revision g" "sr_state r = ActiveSecret"
      "unseal C r = Inr (sm_value m)" by blast
  have "entry_of C r = (ActiveSecret, sr_scopes r, Some (sm_value m))" using unseal_entry [OF r(4)] r(3) by simp
  with log_current [OF inv r(1)] r g show ?thesis by (intro bexI [of _ g] exI [of _ "sr_scopes r"]) auto
qed

text \<open>
  A granted secret can be fetched. After a grant was issued, and as long as the secret has not
  changed and the token was not redeemed, presenting the token with the capability and one of the
  scopes before the expiry returns the value that was stored last, whatever other calls came between.
\<close>

theorem granted_secret_is_released:
  assumes "cipher_ok C" "db = snd (run_calls (vault_exec C sha) cs empty_vault)"
    and "issue_grant sha uuid random now t i cap sc ttl db = (Inr ig, db1)" "db2 = snd (run_calls (vault_exec C sha) cs2 db1)"
    and "filter (redeems sha (sha (utf8 (ig_token ig)))) (fst (run_calls (vault_exec C sha) cs2 db1)) = []"
    and "logs C db2 (t, i) = logs C db (t, i)"
    and "now2 < plus_seconds now ttl" "py_strip cap2 = py_strip cap" "scope \<in> py_strip ` set sc"
  shows "\<exists>m. fst (redeem_grant C sha now2 (ig_token ig) cap2 scope db2) = Inr m \<and>
    snd (snd (last (logs C db (t, i)))) = Some (sm_value m)"
  by (rule granted_redeems [OF assms(1) _ assms(3-9)]) (use reachable_vault [OF assms(1)] assms(2) in simp)

section \<open>A concrete run\<close>

definition example_row :: secret_revision where
  "example_row = \<lparr>sr_tenant_id = ''t'', sr_id = ''s1'', sr_revision = 1, sr_name = ''key'', sr_state = Pending, sr_scopes = [''use''],
     sr_sealed = None, sr_created_at = At 1, sr_created_by = ''o''\<rparr>"

definition example_vault :: vault_db where
  "example_vault = \<lparr>secret_revisions = [example_row],
     secret_current_refs = [\<lparr>cf_tenant_id = ''t'', cf_id = ''s1'', cf_revision = 1, cf_updated_at = At 1, cf_updated_by = ''o''\<rparr>], secret_grants = []\<rparr>"

definition example_create :: vault_call where
  "example_create = CreatePending [] (At 1) ''t'' ''key'' [''use''] ''o'' (Some ''s1'')"

definition example_fulfill :: vault_call where
  "example_fulfill = Fulfill ''n'' (At 2) ''t'' ''s1'' 1 ''v'' ''o''"

lemma example_create_eval:
  "vault_exec plain_cipher (\<lambda>s. s) example_create empty_vault = (Inr (HandleResult (raw_handle example_row)), example_vault)"
  by (simp add: example_create_def create_pending_def empty_vault_def py_strip_def py_isspace_def scopes_of_def Let_def SecretHandle_def
      construct_def handle_norm_def handle_fields_def bad_def protocol_id_def sized_def slug_def name_of_def is_lower_def is_digit_def
      scopes_ok_def transaction_def current_ref_def insert_secret_revision_def revision_row_def raw_handle_def example_row_def example_vault_def)

lemma example_handle: "handle_of example_row = Inr (raw_handle example_row)"
  by (simp add: example_row_def handle_of_def raw_handle_def py_strip_def py_isspace_def SecretHandle_def
      construct_def handle_norm_def handle_fields_def bad_def protocol_id_def sized_def slug_def name_of_def is_lower_def is_digit_def scopes_ok_def)

lemma example_fulfill_eval:
  "\<exists>h db. vault_exec plain_cipher (\<lambda>s. s) example_fulfill example_vault = (Inr (HandleResult h), db) \<and> sh_scopes h = [''use'']"
proof -
  have cur: "current_row ''t'' ''s1'' example_vault = Inr example_row"
    by (simp add: current_row_def current_ref_def revision_row_def row_of_secret_def example_vault_def example_row_def)
  have v: "clean_value ''v'' = Inr (utf8 ''v'')" by (simp add: clean_value_def utf8_def utf8_char_def Let_def)
  show ?thesis
    by (simp add: example_fulfill_def fulfill_def write_active_revision_def v transaction_def cur example_handle)
      (simp add: example_row_def example_vault_def raw_handle_def py_strip_def py_isspace_def SecretHandle_def Let_def
        construct_def handle_norm_def handle_fields_def bad_def protocol_id_def sized_def slug_def name_of_def is_lower_def is_digit_def
        scopes_ok_def insert_secret_revision_def advance_current_ref_def revision_row_def row_of_secret_def)
qed

definition example_calls :: "vault_call list" where
  "example_calls = [example_create, example_fulfill]"

definition stored_vault :: vault_db where
  "stored_vault = snd (run_calls (vault_exec plain_cipher (\<lambda>s. s)) example_calls empty_vault)"

lemma stored_vault_inv: "vault_inv plain_cipher stored_vault"
  unfolding stored_vault_def by (rule reachable_vault [OF plain_cipher_ok])

lemma stored_logs:
  "logs plain_cipher stored_vault (''t'', ''s1'') = [(Pending, [''use''], None), (ActiveSecret, [''use''], Some ''v'')]"
proof -
  obtain h where f: "vault_exec plain_cipher (\<lambda>s. s) example_fulfill example_vault = (Inr (HandleResult h), stored_vault)" "sh_scopes h = [''use'']"
    using example_fulfill_eval by (auto simp: stored_vault_def example_calls_def example_create_eval)
  have inv: "vault_inv plain_cipher example_vault"
    using vault_exec_spec [OF plain_cipher_ok empty_vault_inv example_create_eval] by blast
  have "logs plain_cipher example_vault (''t'', ''s1'') = [(Pending, [''use''], None)]"
    by (simp add: logs_def secret_log_def secret_rows_def row_of_secret_def entry_of_def example_vault_def example_row_def)
  with vault_exec_spec [OF plain_cipher_ok inv f(1)] f(2) show ?thesis by (simp add: example_fulfill_def add_entry_def)
qed

lemma stored_current:
  "\<exists>cur. current_row ''t'' ''s1'' stored_vault = Inr cur \<and> sr_state cur = ActiveSecret \<and> sr_scopes cur = [''use'']"
proof -
  obtain cur where c: "current_row ''t'' ''s1'' stored_vault = Inr cur"
    using current_row_None [OF stored_vault_inv, of "''t''" "''s1''"] stored_logs
    by (cases "current_row ''t'' ''s1'' stored_vault") (auto simp: logs_def secret_log_def)
  with log_current(4) [OF stored_vault_inv c] stored_logs show ?thesis by (simp add: entry_of_def)
qed

lemma stored_grants: "secret_grants stored_vault = []"
proof -
  obtain x where f: "fulfill plain_cipher ''n'' (At 2) ''t'' ''s1'' 1 ''v'' ''o'' example_vault = (x, stored_vault)"
    by (simp add: stored_vault_def example_calls_def example_create_eval example_fulfill_def Let_def prod_eq_iff)
  have inv: "vault_inv plain_cipher example_vault"
    using vault_exec_spec [OF plain_cipher_ok empty_vault_inv example_create_eval] by blast
  show ?thesis using write_grants [OF f [unfolded fulfill_def] plain_cipher_ok inv] by (simp add: example_vault_def)
qed

definition example_issue :: "vault_db \<Rightarrow> (vault_error + issued_secret_grant) \<times> vault_db" where
  "example_issue = issue_grant (\<lambda>s. s) [] (\<lambda>_. CHR ''a'') (At 3) ''t'' ''s1'' ''cap'' [''use''] 60"

lemma example_issue_ok: "\<exists>ig db'. example_issue stored_vault = (Inr ig, db')"
proof -
  obtain cur where c: "current_row ''t'' ''s1'' stored_vault = Inr cur" "sr_state cur = ActiveSecret" "sr_scopes cur = [''use'']"
    using stored_current by blast
  have a: "scopes_of [''use''] = Inr [''use'']" "slug (py_strip ''cap'')"
    by (simp_all add: scopes_of_def slug_def name_of_def py_strip_def py_isspace_def is_lower_def is_digit_def)
  show ?thesis unfolding example_issue_def
    by (rule issue_ok [OF stored_vault_inv c(1,2) a(1) _ _ _ a(2)]) (simp_all add: c(3) stored_grants)
qed

theorem vault_implements_histories_witness:
  "logs plain_cipher (snd (vault_exec plain_cipher (\<lambda>s. s) example_create empty_vault)) (''t'', ''s1'') = [(Pending, [''use''], None)]"
proof -
  have "empty_vault = snd (run_calls (vault_exec plain_cipher (\<lambda>s. s)) [] empty_vault)" by simp
  from vault_implements_histories [OF plain_cipher_ok this example_create_eval]
  show ?thesis
    by (simp add: example_create_eval) (simp add: example_create_def add_entry_def example_row_def logs_def secret_log_def secret_rows_def empty_vault_def)
qed

theorem grants_redeem_at_most_once_witness:
  "length (filter (redeems (\<lambda>s. s) ''h'') (fst (run_calls (vault_exec plain_cipher (\<lambda>s. s)) example_calls empty_vault))) \<le> 1"
  by (rule grants_redeem_at_most_once [OF plain_cipher_ok])

theorem granted_secret_is_released_witness:
  "\<exists>ig db1 m. example_issue stored_vault = (Inr ig, db1) \<and>
     fst (redeem_grant plain_cipher (\<lambda>s. s) (At 4) (ig_token ig) ''cap'' ''use'' db1) = Inr m \<and> sm_value m = ''v''"
proof -
  obtain ig db1 where i: "example_issue stored_vault = (Inr ig, db1)" using example_issue_ok by blast
  have e: "db1 = snd (run_calls (vault_exec plain_cipher (\<lambda>s. s)) [] db1)" by simp
  have l: "logs plain_cipher db1 (''t'', ''s1'') = logs plain_cipher stored_vault (''t'', ''s1'')"
    using issue_step [OF stored_vault_inv i [unfolded example_issue_def]] same_logs [of db1 stored_vault plain_cipher] by auto
  have "''use'' \<in> py_strip ` set [''use'']" by (simp add: py_strip_def py_isspace_def)
  from granted_secret_is_released [OF plain_cipher_ok stored_vault_def i [unfolded example_issue_def] e _ l _ refl this, of "At 4"]
  obtain m where "fst (redeem_grant plain_cipher (\<lambda>s. s) (At 4) (ig_token ig) ''cap'' ''use'' db1) = Inr m"
    "snd (snd (last (logs plain_cipher stored_vault (''t'', ''s1'')))) = Some (sm_value m)" by auto
  with i stored_logs show ?thesis by auto
qed

theorem released_secret_is_current_witness:
  "\<exists>ig db1 m db2. example_issue stored_vault = (Inr ig, db1) \<and>
     redeem_grant plain_cipher (\<lambda>s. s) (At 4) (ig_token ig) ''cap'' ''use'' db1 = (Inr m, db2) \<and> (\<exists>g \<in> set (secret_grants db1). At 4 < sg_expires_at g)"
proof -
  obtain ig db1 where i: "example_issue stored_vault = (Inr ig, db1)" using example_issue_ok by blast
  have e: "db1 = snd (run_calls (vault_exec plain_cipher (\<lambda>s. s)) [] db1)" by simp
  have l: "logs plain_cipher db1 (''t'', ''s1'') = logs plain_cipher stored_vault (''t'', ''s1'')"
    using issue_step [OF stored_vault_inv i [unfolded example_issue_def]] same_logs [of db1 stored_vault plain_cipher] by auto
  have u: "''use'' \<in> py_strip ` set [''use'']" by (simp add: py_strip_def py_isspace_def)
  obtain m db2 where m: "redeem_grant plain_cipher (\<lambda>s. s) (At 4) (ig_token ig) ''cap'' ''use'' db1 = (Inr m, db2)"
    using granted_redeems [OF plain_cipher_ok stored_vault_inv i [unfolded example_issue_def] e _ l _ refl u, of "At 4"]
    by (cases "redeem_grant plain_cipher (\<lambda>s. s) (At 4) (ig_token ig) ''cap'' ''use'' db1") auto
  let ?issue = "IssueGrant [] (\<lambda>_. CHR ''a'') (At 3) ''t'' ''s1'' ''cap'' [''use''] 60"
  have "db1 = snd (run_calls (vault_exec plain_cipher (\<lambda>s. s)) (example_calls @ [?issue]) empty_vault)"
    using i unfolding stored_vault_def example_issue_def example_calls_def by (auto simp: Let_def)
  from released_secret_is_current [OF plain_cipher_ok this m] i m show ?thesis by blast
qed

end
