(* ===== verification/SecretService.thy ===== *)
theory SecretService
  imports SecretVault
begin

text \<open>
  The users of the secret vault: the redaction of texts and payloads (\<^verbatim>\<open>secrets/vault.py\<close>,
  \<open>redact_text\<close> and \<open>redact_payload\<close>) and \<^verbatim>\<open>secrets/service.py\<close>, class \<open>SecretVaultService\<close>, through which the
  control plane stores and revokes secrets and the sandbox and the runtime environment receive them.
  The change listeners are code of other components: a call of one is recorded as an event, and an
  exception it raises is logged and dropped by the code. \<open>str\<close> of a mapping key is an argument.
\<close>

section \<open>Redaction\<close>

text \<open>\<open>s.replace(old, new)\<close> for a non-empty \<open>old\<close>: from left to right, without overlaps.\<close>

function py_replace :: "string \<Rightarrow> string \<Rightarrow> string \<Rightarrow> string" where
  "py_replace old new s = (case s of [] \<Rightarrow> []
     | c # cs \<Rightarrow> if old \<noteq> [] \<and> py_prefix old s then new @ py_replace old new (drop (length old) s) else c # py_replace old new cs)"
  by auto
termination by (relation "measure (\<lambda>(_, _, s). length s)") auto

declare py_replace.simps [simp del]

definition redacted_mark :: string where
  "redacted_mark = ''[redacted]''"

definition redact_with :: "string list \<Rightarrow> string \<Rightarrow> string" where
  "redact_with vals text =
     foldl (\<lambda>redacted v. if v \<noteq> [] then py_replace v redacted_mark redacted else redacted) text
       (sort_key (\<lambda>v. - int (length v)) vals)"

datatype ('k, 'o) payload =
    PStr string
  | PMap "('k \<times> ('k, 'o) payload) list"
  | PTuple "('k, 'o) payload list"
  | PList "('k, 'o) payload list"
  | POther 'o

fun redact_payload_with :: "('k \<Rightarrow> string) \<Rightarrow> string list \<Rightarrow> ('k, 'o) payload \<Rightarrow> (string, 'o) payload" where
  "redact_payload_with str vals (PStr s) = PStr (redact_with vals s)"
| "redact_payload_with str vals (PMap kvs) = PMap (dict_of (map (\<lambda>(k, p). (str k, redact_payload_with str vals p)) kvs))"
| "redact_payload_with str vals (PTuple ps) = PTuple (map (redact_payload_with str vals) ps)"
| "redact_payload_with str vals (PList ps) = PList (map (redact_payload_with str vals) ps)"
| "redact_payload_with str vals (POther x) = POther x"

fun unseal_all :: "host_cipher \<Rightarrow> secret_revision list \<Rightarrow> vault_error + string list" where
  "unseal_all C [] = Inr []"
| "unseal_all C (r # rs) = (case unseal C r of Inl e \<Rightarrow> Inl e
     | Inr v \<Rightarrow> (case unseal_all C rs of Inl e \<Rightarrow> Inl e | Inr vs \<Rightarrow> Inr (v # vs)))"

definition plaintext_values :: "host_cipher \<Rightarrow> string \<Rightarrow> vault_db \<Rightarrow> vault_error + string list" where
  "plaintext_values C t db = unseal_all C (filter (\<lambda>r. sr_tenant_id r = t \<and> sr_state r = ActiveSecret) (secret_revisions db))"

definition redact_text :: "host_cipher \<Rightarrow> string \<Rightarrow> string \<Rightarrow> vault_db \<Rightarrow> vault_error + string" where
  "redact_text C t text db = map_sum id (\<lambda>vs. redact_with vs text) (plaintext_values C t db)"

definition redact_payload :: "host_cipher \<Rightarrow> ('k \<Rightarrow> string) \<Rightarrow> string \<Rightarrow> ('k, 'o) payload \<Rightarrow> vault_db \<Rightarrow> vault_error + (string, 'o) payload" where
  "redact_payload C str t p db = map_sum id (\<lambda>vs. redact_payload_with str vs p) (plaintext_values C t db)"

section \<open>The service\<close>

record vault_service =
  vs_vault :: vault_db
  vs_change_listeners :: "string list"
  vs_events :: "(string \<times> string \<times> string \<times> string) list"

definition add_change_listener :: "string \<Rightarrow> vault_service \<Rightarrow> vault_service" where
  "add_change_listener l s = (if l \<in> set (vs_change_listeners s) then s else s\<lparr>vs_change_listeners := vs_change_listeners s @ [l]\<rparr>)"

definition notify_changed :: "secret_handle \<Rightarrow> string \<Rightarrow> vault_service \<Rightarrow> vault_service" where
  "notify_changed h actor_id s = s\<lparr>vs_events := vs_events s @ map (\<lambda>l. (l, sh_tenant_id h, actor_id, sh_id h)) (vs_change_listeners s)\<rparr>"

definition on_vault :: "(vault_db, vault_error, 'a) oper \<Rightarrow> (vault_service, vault_error, 'a) oper" where
  "on_vault f s = (case f (vs_vault s) of (x, db) \<Rightarrow> (x, s\<lparr>vs_vault := db\<rparr>))"

definition changed :: "string \<Rightarrow> (vault_service, vault_error, secret_handle) oper \<Rightarrow> (vault_service, vault_error, secret_handle) oper" where
  "changed actor_id f s = (case f s of (Inl e, s') \<Rightarrow> raises e s' | (Inr h, s') \<Rightarrow> ok h (notify_changed h actor_id s'))"

text \<open>One grant issued and redeemed at once; \<open>now1\<close> and \<open>now2\<close> are the two clock readings.\<close>

definition issue_and_redeem :: "host_cipher \<Rightarrow> (string \<Rightarrow> string) \<Rightarrow> nat list \<Rightarrow> (nat \<Rightarrow> char) \<Rightarrow> timestamp \<Rightarrow> timestamp \<Rightarrow> string \<Rightarrow> string \<Rightarrow> string \<Rightarrow> string \<Rightarrow>
    (vault_db, vault_error, string) oper" where
  "issue_and_redeem C sha uuid random now1 now2 tenant_id secret_id capability_id scope db =
     (case issue_grant sha uuid random now1 tenant_id secret_id capability_id [scope] 60 db of
        (Inl e, db) \<Rightarrow> raises e db
      | (Inr grant, db) \<Rightarrow> (case redeem_grant C sha now2 (ig_token grant) capability_id scope db of
            (Inl e, db) \<Rightarrow> raises e db | (Inr material, db) \<Rightarrow> ok (sm_value material) db))"

definition resolve_for_sandbox :: "host_cipher \<Rightarrow> (string \<Rightarrow> string) \<Rightarrow> nat list \<Rightarrow> (nat \<Rightarrow> char) \<Rightarrow> timestamp \<Rightarrow> timestamp \<Rightarrow> string \<Rightarrow> string \<Rightarrow> string \<Rightarrow> string \<Rightarrow>
    (vault_db, vault_error, string) oper" where
  "resolve_for_sandbox C sha uuid random now1 now2 tenant_id secret_id scope mount_type db =
     (if py_strip mount_type \<notin> {''ssh_password'', ''ssh_private_key''}
      then raises (SecretGrantError ''sandbox secret mount type is unsupported'') db
      else issue_and_redeem C sha uuid random now1 now2 tenant_id secret_id ''sandbox_ssh_diagnostic'' scope db)"

text \<open>\<open>str.casefold\<close> on code points 0..255, where it differs from \<open>lower\<close> only for the sharp s; the micro
  sign, which folds to a Greek letter, stays itself, which no handle name contains.\<close>

definition py_casefold :: "string \<Rightarrow> string" where
  "py_casefold s = concat (map (\<lambda>c. if (of_char c :: nat) = 223 then ''ss'' else [py_lower_char c]) s)"

definition RUNTIME_ENVIRONMENT_SCOPES :: "(string \<times> string) list" where
  "RUNTIME_ENVIRONMENT_SCOPES =
     [(''browser_use_api_key'', ''browser.manage''), (''composio_api_key'', ''composio.manage''),
      (''daytona_api_key'', ''daytona.manage''), (''gh_token'', ''github.read''), (''github_token'', ''github.read'')]"

definition environment_scope :: "string \<Rightarrow> string" where
  "environment_scope name = (case map_of RUNTIME_ENVIRONMENT_SCOPES (py_casefold name) of None \<Rightarrow> ''credential.use'' | Some s \<Rightarrow> s)"

definition resolve_for_runtime_environment :: "host_cipher \<Rightarrow> (string \<Rightarrow> string) \<Rightarrow> nat list \<Rightarrow> (nat \<Rightarrow> char) \<Rightarrow> timestamp \<Rightarrow> timestamp \<Rightarrow>
    string \<Rightarrow> string \<Rightarrow> string \<Rightarrow> (vault_db, vault_error, string) oper" where
  "resolve_for_runtime_environment C sha uuid random now1 now2 tenant_id secret_id environment_name db =
     (case get_handle tenant_id secret_id db of
        Inl e \<Rightarrow> raises e db
      | Inr None \<Rightarrow> raises (SecretGrantError ''runtime environment secret handle is unavailable'') db
      | Inr (Some handle) \<Rightarrow>
          if sh_state handle \<noteq> ActiveSecret then raises (SecretGrantError ''runtime environment secret handle is unavailable'') db
          else if py_casefold (sh_name handle) \<noteq> py_casefold (py_strip environment_name)
          then raises (SecretGrantError ''runtime environment secret name does not match'') db
          else if environment_scope (sh_name handle) \<notin> set (sh_scopes handle)
          then raises (SecretGrantError ''runtime environment secret scope is not allowed'') db
          else issue_and_redeem C sha uuid random now1 now2 tenant_id (sh_id handle) ''runtime_environment''
            (environment_scope (sh_name handle)) db)"

definition service_create_pending :: "nat list \<Rightarrow> timestamp \<Rightarrow> string \<Rightarrow> string \<Rightarrow> string \<Rightarrow> string list \<Rightarrow> string option \<Rightarrow>
    (vault_service, vault_error, secret_handle) oper" where
  "service_create_pending uuid now tenant_id actor_id name scopes secret_id =
     on_vault (create_pending uuid now tenant_id name scopes actor_id secret_id)"

definition store_secret :: "host_cipher \<Rightarrow> string \<Rightarrow> timestamp \<Rightarrow> string \<Rightarrow> string \<Rightarrow> string \<Rightarrow> int \<Rightarrow> string \<Rightarrow> string list option \<Rightarrow>
    (vault_service, vault_error, secret_handle) oper" where
  "store_secret C iv now tenant_id actor_id secret_id expected_revision v scopes s =
     (case get_handle tenant_id secret_id (vs_vault s) of
        Inl e \<Rightarrow> raises e s
      | Inr None \<Rightarrow> raises (VaultNotFoundError secret_id) s
      | Inr (Some handle) \<Rightarrow> (case sh_state handle of
            Pending \<Rightarrow> if scopes \<noteq> None
              then raises (VaultConflictError ''pending secret scopes cannot change while storing its first value'') s
              else changed actor_id (on_vault (fulfill C iv now tenant_id secret_id expected_revision v actor_id)) s
          | ActiveSecret \<Rightarrow> changed actor_id (on_vault (rotate C iv now tenant_id secret_id expected_revision v actor_id scopes)) s
          | Revoked \<Rightarrow> raises (VaultConflictError ''revoked secret handles cannot be restored'') s))"

definition service_revoke :: "timestamp \<Rightarrow> string \<Rightarrow> string \<Rightarrow> string \<Rightarrow> int \<Rightarrow> (vault_service, vault_error, secret_handle) oper" where
  "service_revoke now tenant_id actor_id secret_id expected_revision =
     changed actor_id (on_vault (revoke now tenant_id secret_id expected_revision actor_id))"

section \<open>What replacing removes\<close>

text \<open>The values the redaction is certain to remove: no bracket inside, and not a part of the mark.\<close>

definition redactable :: "string \<Rightarrow> bool" where
  "redactable v = (v \<noteq> [] \<and> CHR ''['' \<notin> set v \<and> CHR '']'' \<notin> set v \<and> \<not> py_in v ''redacted'')"

lemma py_in_split:
  assumes "v \<noteq> []" "c \<notin> set v" "py_in v (x @ c # y)"
  shows "py_in v x \<or> py_in v y"
proof -
  from assms(3) obtain a b where ab: "x @ c # y = a @ v @ b" by (auto simp: py_in_iff)
  then consider z where "x = a @ z" "z @ c # y = v @ b" | z where "a = x @ z" "c # y = z @ v @ b"
    by (auto simp: append_eq_append_conv2)
  then show ?thesis
  proof cases
    case l: 1
    from l(2) consider w where "z = v @ w" | w where "v = z @ w" "c # y = w @ b" by (auto simp: append_eq_append_conv2)
    then show ?thesis
    proof cases
      case 1
      with l(1) have "x = a @ v @ w" by simp
      then show ?thesis unfolding py_in_iff by blast
    next
      case 2
      then have "w = []" using assms(2) by (cases w) auto
      with 2 l(1) have "x = a @ v @ []" by simp
      then show ?thesis unfolding py_in_iff by blast
    qed
  next
    case r: 2
    then have "z \<noteq> []" using assms(1,2) by (cases v) auto
    then obtain z' where "z = c # z'" using r(2) by (cases z) auto
    with r(2) have "y = z' @ v @ b" by simp
    then show ?thesis unfolding py_in_iff by blast
  qed
qed

lemma py_in_mark:
  assumes "redactable v" "py_in v (x @ redacted_mark @ y)"
  shows "py_in v x \<or> py_in v y"
proof -
  have v: "v \<noteq> []" "CHR ''['' \<notin> set v" "CHR '']'' \<notin> set v" "\<not> py_in v ''redacted''" using assms(1) by (simp_all add: redactable_def)
  have "py_in v (x @ CHR ''['' # (''redacted'' @ CHR '']'' # y))" using assms(2) by (simp add: redacted_mark_def)
  from py_in_split [OF v(1,2) this] py_in_split [OF v(1,3), of "''redacted''" y] v(4) show ?thesis by blast
qed

lemma py_in_append: "\<not> py_in v (x @ y) \<Longrightarrow> \<not> py_in v x \<and> \<not> py_in v y"
  unfolding py_in_iff by (metis append.assoc)

lemma py_replace_hit: "w \<noteq> [] \<Longrightarrow> py_replace w m (w @ u) = m @ py_replace w m u"
proof -
  assume w: "w \<noteq> []"
  then obtain c cs where c: "w @ u = c # cs" by (cases w) auto
  have p: "py_prefix w (w @ u)" by (simp add: py_prefix_iff)
  have "drop (length w) (c # cs) = u" unfolding c [symmetric] by simp
  with w p show ?thesis by (subst py_replace.simps) (simp add: c)
qed

lemma py_replace_miss: "\<not> py_prefix w (c # cs) \<Longrightarrow> py_replace w m (c # cs) = c # py_replace w m cs"
  by (subst py_replace.simps) simp

lemma py_replace_keeps_out:
  assumes v: "redactable v" and w: "w \<noteq> []"
  shows "\<not> py_in v (pre @ s) \<Longrightarrow> \<not> py_in v (pre @ py_replace w redacted_mark s)"
proof (induction "length s" arbitrary: s pre rule: less_induct)
  case less
  show ?case
  proof (cases s)
    case Nil
    with less.prems show ?thesis by (simp add: py_replace.simps)
  next
    case (Cons c cs)
    show ?thesis
    proof (cases "py_prefix w s")
      case True
      then obtain u where u: "s = w @ u" by (auto simp: py_prefix_iff)
      have no: "\<not> py_in v pre" "\<not> py_in v u" using py_in_append less.prems u by metis+
      have "\<not> py_in v ([] @ py_replace w redacted_mark u)"
        by (rule less.hyps) (use u w no(2) in auto)
      moreover have "py_replace w redacted_mark s = redacted_mark @ py_replace w redacted_mark u"
        unfolding u by (rule py_replace_hit [OF w])
      ultimately show ?thesis using py_in_mark [OF v] no(1) by auto
    next
      case False
      have "\<not> py_in v ((pre @ [c]) @ py_replace w redacted_mark cs)"
        by (rule less.hyps) (use Cons less.prems in auto)
      with False Cons show ?thesis by (simp add: py_replace_miss)
    qed
  qed
qed

lemma py_replace_removes:
  assumes v: "redactable v"
  shows "(\<And>a b. pre @ s = a @ v @ b \<Longrightarrow> length pre \<le> length a) \<Longrightarrow> \<not> py_in v (pre @ py_replace v redacted_mark s)"
proof (induction "length s" arbitrary: s pre rule: less_induct)
  case less
  have ne: "v \<noteq> []" using v by (simp add: redactable_def)
  have pre: "\<not> py_in v pre"
  proof
    assume "py_in v pre"
    then obtain a b where ab: "pre = a @ v @ b" by (auto simp: py_in_iff)
    then have "length pre \<le> length a" by (intro less.prems [of a "b @ s"]) simp
    with ab ne show False by simp
  qed
  show ?case
  proof (cases s)
    case Nil
    with pre show ?thesis by (simp add: py_replace.simps)
  next
    case (Cons c cs)
    show ?thesis
    proof (cases "py_prefix v s")
      case True
      then obtain u where u: "s = v @ u" by (auto simp: py_prefix_iff)
      have "\<not> py_in v ([] @ py_replace v redacted_mark u)" by (rule less.hyps) (use u ne in auto)
      moreover have "py_replace v redacted_mark s = redacted_mark @ py_replace v redacted_mark u"
        unfolding u by (rule py_replace_hit [OF ne])
      ultimately show ?thesis using py_in_mark [OF v] pre by auto
    next
      case False
      have "\<not> py_in v ((pre @ [c]) @ py_replace v redacted_mark cs)"
      proof (rule less.hyps)
        fix a b assume ab: "(pre @ [c]) @ cs = a @ v @ b"
        then have "length pre \<le> length a" using Cons by (intro less.prems [of a b]) simp
        moreover have "length a \<noteq> length pre" using ab False Cons by (auto simp: py_prefix_iff)
        ultimately show "length (pre @ [c]) \<le> length a" by simp
      qed (use Cons in simp)
      with False Cons show ?thesis by (simp add: py_replace_miss)
    qed
  qed
qed

lemma redact_fold_keeps_out:
  "redactable v \<Longrightarrow> \<not> py_in v s \<Longrightarrow>
   \<not> py_in v (foldl (\<lambda>redacted v. if v \<noteq> [] then py_replace v redacted_mark redacted else redacted) s ws)"
proof (induction ws arbitrary: s)
  case (Cons w ws)
  have "w \<noteq> [] \<Longrightarrow> \<not> py_in v (py_replace w redacted_mark s)"
    using py_replace_keeps_out [OF Cons.prems(1), of w "[]" s] Cons.prems(2) by simp
  with Cons show ?case by simp
qed simp

lemma redact_with_removes:
  assumes "redactable v" "v \<in> set vals"
  shows "\<not> py_in v (redact_with vals text)"
proof -
  let ?f = "\<lambda>redacted v. if v \<noteq> [] then py_replace v redacted_mark redacted else redacted"
  have "v \<in> set (sort_key (\<lambda>v. - int (length v)) vals)" using assms(2) by simp
  then obtain xs ys where s: "sort_key (\<lambda>v. - int (length v)) vals = xs @ v # ys" by (blast dest: split_list)
  have "\<not> py_in v (py_replace v redacted_mark (foldl ?f text xs))"
    using py_replace_removes [OF assms(1), of "[]" "foldl ?f text xs"] by simp
  moreover have "v \<noteq> []" using assms(1) by (simp add: redactable_def)
  ultimately show ?thesis unfolding redact_with_def s using redact_fold_keeps_out [OF assms(1)] by simp
qed

text \<open>The strings of a payload, without the keys of its mappings, which the code does not redact.\<close>

fun strings_of :: "('k, 'o) payload \<Rightarrow> string list" where
  "strings_of (PStr s) = [s]"
| "strings_of (PMap kvs) = concat (map (\<lambda>(_, p). strings_of p) kvs)"
| "strings_of (PTuple ps) = concat (map strings_of ps)"
| "strings_of (PList ps) = concat (map strings_of ps)"
| "strings_of (POther x) = []"

lemma redact_payload_removes:
  assumes "redactable v" "v \<in> set vals" "s \<in> set (strings_of (redact_payload_with str vals p))"
  shows "\<not> py_in v s"
  using assms(3)
proof (induction p arbitrary: s)
  case (PStr x)
  then show ?case using redact_with_removes [OF assms(1,2)] by simp
next
  case (PMap kvs)
  then obtain kq where kq: "kq \<in> set (dict_of (map (\<lambda>(k, p). (str k, redact_payload_with str vals p)) kvs))" "s \<in> set (strings_of (snd kq))"
    by (auto simp: split_beta)
  from dict_of_mem [OF kq(1)] obtain k p where "(k, p) \<in> set kvs" "snd kq = redact_payload_with str vals p" by auto
  with PMap.IH [of "(k, p)" p s] kq(2) show ?case by simp
qed auto

lemma unseal_all_ok:
  assumes "\<And>r. r \<in> set rs \<Longrightarrow> \<exists>v. unseal C r = Inr v"
  shows "\<exists>vs. unseal_all C rs = Inr vs \<and> (\<forall>r \<in> set rs. \<exists>v \<in> set vs. unseal C r = Inr v)"
  using assms
proof (induction rs)
  case (Cons r rs)
  from Cons.prems obtain v where v: "unseal C r = Inr v" by auto
  from Cons obtain vs where "unseal_all C rs = Inr vs" "\<forall>r \<in> set rs. \<exists>v \<in> set vs. unseal C r = Inr v" by auto
  with v show ?case by auto
qed simp

lemma plaintext_values_complete:
  assumes inv: "vault_inv C db" and e: "(ActiveSecret, sc, Some v) \<in> set (logs C db (t, i))"
  shows "\<exists>vs. plaintext_values C t db = Inr vs \<and> v \<in> set vs"
proof -
  let ?rs = "filter (\<lambda>r. sr_tenant_id r = t \<and> sr_state r = ActiveSecret) (secret_revisions db)"
  have "\<exists>v. unseal C r = Inr v" if "r \<in> set ?rs" for r using vault_invD(4) [OF inv, of r] that by (auto simp: row_ok_def)
  from unseal_all_ok [of ?rs, OF this] obtain vs where vs: "unseal_all C ?rs = Inr vs" "\<forall>r \<in> set ?rs. \<exists>v \<in> set vs. unseal C r = Inr v" by blast
  from e obtain r where r: "r \<in> set (secret_revisions db)" "sr_tenant_id r = t" "entry_of C r = (ActiveSecret, sc, Some v)"
    by (auto simp: logs_def secret_log_def rows_mem)
  then have "sr_state r = ActiveSecret" "unseal C r = Inr v" by (auto simp: entry_of_def split: option.splits sum.splits)
  with r vs show ?thesis by (fastforce simp: plaintext_values_def)
qed

section \<open>Resolving a secret\<close>

lemma issue_and_redeem_sound:
  assumes C: "cipher_ok C" and inv: "vault_inv C db"
    and c: "issue_and_redeem C sha uuid random now1 now2 t i cap scope db = (Inr v, db')"
  shows "\<exists>scopes. last (logs C db (t, i)) = (ActiveSecret, scopes, Some v) \<and> logs C db (t, i) \<noteq> [] \<and> scope \<in> set scopes \<and>
    now2 < plus_seconds now1 60 \<and> spent (sha (utf8 (token_urlsafe random 32))) db' \<and> logs C db' = logs C db \<and> vault_inv C db'"
proof -
  from c obtain ig db1 m where iss: "issue_grant sha uuid random now1 t i cap [scope] 60 db = (Inr ig, db1)"
    and re: "redeem_grant C sha now2 (ig_token ig) cap scope db1 = (Inr m, db')" "sm_value m = v"
    by (auto simp: issue_and_redeem_def split: prod.splits sum.splits)
  let ?g = "granted sha now1 ig"
  have tok: "ig_token ig = token_urlsafe random 32" using iss
    by (auto simp: issue_grant_def transaction_def checked_def Let_def split: prod.splits sum.splits if_splits)
  from issue_step [OF inv iss] obtain cur where cur: "current_row t i db = Inr cur" "sr_state cur = ActiveSecret" and
    rc: "gr_tenant_id (ig_receipt ig) = t" "gr_secret_id (ig_receipt ig) = i" "gr_expires_at (ig_receipt ig) = plus_seconds now1 60" and
    fresh: "\<forall>g \<in> set (secret_grants db). sg_token_hash g \<noteq> sha (utf8 (ig_token ig)) \<and> sg_id g \<noteq> gr_id (ig_receipt ig)" and
    db1: "db1 = db\<lparr>secret_grants := secret_grants db @ [?g]\<rparr>" "vault_inv C db1" by blast
  from redeem_step [OF db1(2) re(1)] obtain g r where g: "g \<in> set (secret_grants db1)" "sg_token_hash g = sha (utf8 (ig_token ig))"
    "now2 < sg_expires_at g" "scope \<in> set (sg_scopes g)" "set (sg_scopes g) \<subseteq> set (sr_scopes r)" and
    r: "current_row (sg_tenant_id g) (sg_secret_id g) db1 = Inr r" "sr_state r = ActiveSecret" "unseal C r = Inr (sm_value m)" and
    db': "db' = consumed (sg_id g) now2 db1" "vault_inv C db'" and un: "sg_consumed_at g = None" by blast
  have gg: "g = ?g" using g(1,2) fresh db1(1) by auto
  have same: "logs C db1 = logs C db" using db1(1) by (intro same_logs) simp
  have "last (logs C db1 (t, i)) = entry_of C r" "logs C db1 (t, i) \<noteq> []" using log_current [OF db1(2) r(1)] gg rc by simp_all
  then have l: "last (logs C db (t, i)) = (ActiveSecret, sr_scopes r, Some v)" "logs C db (t, i) \<noteq> []"
    using same unseal_entry [OF r(3)] r(2) re(2) by simp_all
  have "spent (sha (utf8 (ig_token ig))) db'"
    unfolding spent_def db'(1) consumed_def using g(1,2) un by (auto simp: bex_upd)
  moreover have "logs C db' = logs C db" unfolding same [symmetric] db'(1) by (intro same_logs) simp
  ultimately show ?thesis using l g(3,4,5) gg rc db'(2) tok by auto
qed

section \<open>Properties\<close>

text \<open>
  C9: A stored secret is removed from texts and payloads before they are logged. For every value a tenant's secret has or
  had (revoked and rotated ones included), the redaction of any text and of any payload of that tenant
  succeeds, and neither the text nor any string inside the payload contains the value. Two things are
  left out: the keys of the payload's mappings, which the code copies as they are, and values that
  contain a square bracket or are a part of the word \<open>redacted\<close> itself, which can reappear around or in
  the marker.
\<close>

theorem stored_secrets_are_redacted:
  assumes "cipher_ok C" "db = snd (run_calls (vault_exec C sha) cs empty_vault)"
    and "(ActiveSecret, scopes, Some v) \<in> set (logs C db (t, i))" "redactable v"
  shows "\<exists>text' p'. redact_text C t text db = Inr text' \<and> \<not> py_in v text' \<and>
    redact_payload C str t p db = Inr p' \<and> list_all (\<lambda>s. \<not> py_in v s) (strings_of p')"
proof -
  have inv: "vault_inv C db" unfolding assms(2) by (rule reachable_vault [OF assms(1)])
  obtain vs where "plaintext_values C t db = Inr vs" "v \<in> set vs" using plaintext_values_complete [OF inv assms(3)] by blast
  with redact_with_removes [OF assms(4)] redact_payload_removes [where str = str and p = p, OF assms(4)] show ?thesis
    by (auto simp: redact_text_def redact_payload_def list_all_iff)
qed

theorem stored_secrets_are_redacted_witness:
  "\<exists>text'. redact_text plain_cipher ''t'' ''a v b'' stored_vault = Inr text' \<and> \<not> py_in ''v'' text'"
proof -
  have "redactable ''v''" by (simp add: redactable_def)
  moreover have "(ActiveSecret, [''use''], Some ''v'') \<in> set (logs plain_cipher stored_vault (''t'', ''s1''))" by (simp add: stored_logs)
  ultimately show ?thesis
    using stored_secrets_are_redacted [OF plain_cipher_ok stored_vault_def, of "[''use'']" "''v''" "''t''" "''s1''" "''a v b''" "\<lambda>_ :: nat. []" "POther ()"]
    by blast
qed

text \<open>
  What the sandbox and the runtime environment receive is the current value. When a secret is
  resolved for one of them, the result is the newest value of that secret, the secret is active and
  allows the scope, the clock stayed within the minute of the grant, the grant is spent, and no
  history changed; for the runtime environment the name of the secret is, up to case, the name of
  the variable, and for a sandbox the mount type is one of the two supported.
\<close>

theorem resolved_secret_is_current:
  assumes "cipher_ok C" "db = snd (run_calls (vault_exec C sha) cs empty_vault)"
    and "resolve_for_runtime_environment C sha uuid random now1 now2 t i env db = (Inr v, db') \<or>
      resolve_for_sandbox C sha uuid random now1 now2 t i scope mount db = (Inr v, db')"
  shows "\<exists>scopes. last (logs C db (t, i)) = (ActiveSecret, scopes, Some v) \<and> logs C db (t, i) \<noteq> [] \<and>
    now2 < plus_seconds now1 60 \<and> spent (sha (utf8 (token_urlsafe random 32))) db' \<and> logs C db' = logs C db \<and>
    ((\<exists>h. get_handle t i db = Inr (Some h) \<and> py_casefold (sh_name h) = py_casefold (py_strip env) \<and>
        environment_scope (sh_name h) \<in> set scopes) \<or>
     scope \<in> set scopes \<and> py_strip mount \<in> {''ssh_password'', ''ssh_private_key''})"
proof -
  have inv: "vault_inv C db" unfolding assms(2) by (rule reachable_vault [OF assms(1)])
  from assms(3) show ?thesis
  proof
    assume r: "resolve_for_runtime_environment C sha uuid random now1 now2 t i env db = (Inr v, db')"
    then obtain h where h: "get_handle t i db = Inr (Some h)" "py_casefold (sh_name h) = py_casefold (py_strip env)" and
      c: "issue_and_redeem C sha uuid random now1 now2 t (sh_id h) ''runtime_environment'' (environment_scope (sh_name h)) db = (Inr v, db')"
      by (auto simp: resolve_for_runtime_environment_def split: sum.splits option.splits if_splits)
    have "sh_id h = i"
    proof (cases "current_row t i db")
      case (Inr cur)
      with h(1) current_row_last [OF inv Inr] row_okD(1) [of C cur] show ?thesis by (auto simp: get_handle_def)
    qed (use h(1) in \<open>simp add: get_handle_def\<close>)
    with issue_and_redeem_sound [OF assms(1) inv c] h show ?thesis by auto
  next
    assume "resolve_for_sandbox C sha uuid random now1 now2 t i scope mount db = (Inr v, db')"
    then have "py_strip mount \<in> {''ssh_password'', ''ssh_private_key''}" and
      c: "issue_and_redeem C sha uuid random now1 now2 t i ''sandbox_ssh_diagnostic'' scope db = (Inr v, db')"
      by (auto simp: resolve_for_sandbox_def split: if_splits)
    with issue_and_redeem_sound [OF assms(1) inv c] show ?thesis by auto
  qed
qed

lemma example_resolve:
  "\<exists>db'. resolve_for_sandbox plain_cipher (\<lambda>s. s) [] (\<lambda>_. CHR ''a'') (At 3) (At 4) ''t'' ''s1'' ''use'' ''ssh_password'' stored_vault = (Inr ''v'', db')"
proof -
  obtain cur where c: "current_row ''t'' ''s1'' stored_vault = Inr cur" "sr_state cur = ActiveSecret" "sr_scopes cur = [''use'']"
    using stored_current by blast
  have a: "scopes_of [''use''] = Inr [''use'']" "slug (py_strip ''sandbox_ssh_diagnostic'')"
    by (simp_all add: scopes_of_def slug_def name_of_def py_strip_def py_isspace_def is_lower_def is_digit_def)
  have "\<exists>ig db'. issue_grant (\<lambda>s. s) [] (\<lambda>_. CHR ''a'') (At 3) ''t'' ''s1'' ''sandbox_ssh_diagnostic'' [''use''] 60 stored_vault = (Inr ig, db')"
    by (rule issue_ok [OF stored_vault_inv c(1,2) a(1) _ _ _ a(2)]) (simp_all add: c(3) stored_grants)
  then obtain ig db1 where i: "issue_grant (\<lambda>s. s) [] (\<lambda>_. CHR ''a'') (At 3) ''t'' ''s1'' ''sandbox_ssh_diagnostic'' [''use''] 60 stored_vault = (Inr ig, db1)" by blast
  have e: "db1 = snd (run_calls (vault_exec plain_cipher (\<lambda>s. s)) [] db1)" by simp
  have l: "logs plain_cipher db1 (''t'', ''s1'') = logs plain_cipher stored_vault (''t'', ''s1'')"
    using issue_step [OF stored_vault_inv i] same_logs [of db1 stored_vault plain_cipher] by auto
  have u: "''use'' \<in> py_strip ` set [''use'']" by (simp add: py_strip_def py_isspace_def)
  obtain m db2 where m: "redeem_grant plain_cipher (\<lambda>s. s) (At 4) (ig_token ig) ''sandbox_ssh_diagnostic'' ''use'' db1 = (Inr m, db2)" "sm_value m = ''v''"
    using granted_redeems [OF plain_cipher_ok stored_vault_inv i e _ l _ refl u, of "At 4"] stored_logs
    by (cases "redeem_grant plain_cipher (\<lambda>s. s) (At 4) (ig_token ig) ''sandbox_ssh_diagnostic'' ''use'' db1") auto
  with i show ?thesis by (simp add: resolve_for_sandbox_def issue_and_redeem_def py_strip_def py_isspace_def)
qed

theorem resolved_secret_is_current_witness:
  "\<exists>v db'. resolve_for_sandbox plain_cipher (\<lambda>s. s) [] (\<lambda>_. CHR ''a'') (At 3) (At 4) ''t'' ''s1'' ''use'' ''ssh_password'' stored_vault = (Inr v, db') \<and>
     spent (utf8 (token_urlsafe (\<lambda>_. CHR ''a'') 32)) db'"
proof -
  obtain db' where r: "resolve_for_sandbox plain_cipher (\<lambda>s. s) [] (\<lambda>_. CHR ''a'') (At 3) (At 4) ''t'' ''s1'' ''use'' ''ssh_password'' stored_vault = (Inr ''v'', db')"
    using example_resolve by blast
  from resolved_secret_is_current [OF plain_cipher_ok stored_vault_def disjI2 [OF r], of "[]"] r show ?thesis by auto
qed

text \<open>
  Storing through the service appends the value to the history or changes nothing, tells every
  listener exactly once when it succeeds and nobody otherwise, and never brings a revoked secret back.
\<close>

lemma store_secret_spec:
  assumes "cipher_ok C" "vault_inv C (vs_vault s)" "store_secret C iv now t who i rv v sc s = (x, s')"
  shows "vault_inv C (vs_vault s') \<and> vs_change_listeners s' = vs_change_listeners s \<and> (case x of
      Inl e \<Rightarrow> logs C (vs_vault s') = logs C (vs_vault s) \<and> vs_events s' = vs_events s
    | Inr h \<Rightarrow> logs C (vs_vault s') = add_entry (t, i) (ActiveSecret, sh_scopes h, Some v) (logs C (vs_vault s)) \<and>
        int (length (logs C (vs_vault s) (t, i))) = rv \<and> last_state (logs C (vs_vault s) (t, i)) \<in> {Some Pending, Some ActiveSecret} \<and>
        vs_events s' = vs_events s @ map (\<lambda>l. (l, sh_tenant_id h, who, sh_id h)) (vs_change_listeners s))"
proof -
  have w: "vault_inv C db' \<and> (case y of Inl _ \<Rightarrow> logs C db' = logs C (vs_vault s)
    | Inr h \<Rightarrow> logs C db' = add_entry (t, i) (ActiveSecret, sh_scopes h, Some v) (logs C (vs_vault s)) \<and>
        int (length (logs C (vs_vault s) (t, i))) = rv \<and> last_state (logs C (vs_vault s) (t, i)) \<in> {Some Pending, Some ActiveSecret})"
    if "fulfill C iv now t i rv v who (vs_vault s) = (y, db') \<or> rotate C iv now t i rv v who sc (vs_vault s) = (y, db')" for y db'
  proof (cases "vault_exec C (\<lambda>s. s) (if fulfill C iv now t i rv v who (vs_vault s) = (y, db') then Fulfill iv now t i rv v who else Rotate iv now t i rv v who sc) (vs_vault s)")
    case (Pair z db2)
    have "z = map_sum id HandleResult y" "db2 = db'" using Pair that by (auto split: if_splits)
    with vault_exec_spec [OF assms(1,2) Pair] show ?thesis by (cases y) (auto split: if_splits)
  qed
  show ?thesis
    using assms(2,3) by (auto simp: store_secret_def changed_def on_vault_def notify_changed_def
        split: sum.splits option.splits secret_state.splits if_splits prod.splits dest!: w [OF disjI1] w [OF disjI2])
qed

end
