(* ===== verification/JsonText.thy ===== *)
theory JsonText
  imports Codec
begin

text \<open>
  JSON text as the standard library writes it where its length or its hash matters: \<open>json.dumps\<close> with the
  options the stores use, the order of keys it gives, and the comparison of JSON values. The lemmas bound
  the length of a text from below by the strings inside it.
\<close>

text \<open>\<open>json.dumps\<close> with \<open>ensure_ascii=False\<close>, \<open>separators=(",", ":")\<close> and \<open>sort_keys=True\<close>.\<close>

definition hex_digit :: "nat \<Rightarrow> char" where
  "hex_digit d = ''0123456789abcdef'' ! d"

definition json_char :: "char \<Rightarrow> string" where
  "json_char c = (let n = of_char c :: nat in
     if n = 34 then [char_of (92 :: nat), c] else if n = 92 then [c, c]
     else if n = 10 then [char_of (92 :: nat), CHR ''n''] else if n = 13 then [char_of (92 :: nat), CHR ''r'']
     else if n = 9 then [char_of (92 :: nat), CHR ''t''] else if n = 8 then [char_of (92 :: nat), CHR ''b'']
     else if n = 12 then [char_of (92 :: nat), CHR ''f'']
     else if n < 32 then char_of (92 :: nat) # ''u00'' @ [hex_digit (n div 16), hex_digit (n mod 16)]
     else [c])"

definition json_string :: "string \<Rightarrow> string" where
  "json_string s = [char_of (34 :: nat)] @ concat (map json_char s) @ [char_of (34 :: nat)]"

fun json_dumps :: "json \<Rightarrow> string" where
  "json_dumps JNull = ''null''"
| "json_dumps (JBool b) = (if b then ''true'' else ''false'')"
| "json_dumps (JInt i) = str_int i"
| "json_dumps (JFloat s) = s"
| "json_dumps (JStr s) = json_string s"
| "json_dumps (JArr xs) = ''['' @ join_with '','' (map json_dumps xs) @ '']''"
| "json_dumps (JObj kvs) = ''{'' @ join_with '','' (map (\<lambda>(k, v). json_string k @ '':'' @ json_dumps v) kvs) @ ''}''"

fun sort_json :: "json \<Rightarrow> json" where
  "sort_json (JArr xs) = JArr (map sort_json xs)"
| "sort_json (JObj kvs) = JObj (sort_key fst (map (\<lambda>(k, v). (k, sort_json v)) kvs))"
| "sort_json j = j"

text \<open>
  \<open>a == b\<close> on decoded values: dicts without regard to the order of their keys, and numbers by value, so
  that \<open>1\<close>, \<open>1.0\<close> and \<open>True\<close>, or \<open>0.0\<close> and \<open>-0.0\<close>, are equal. A float is the text of its \<open>repr\<close>; a text that
  ends in \<open>.0\<close> is the integer before the point. Floats from 1e16 on are written with an exponent; their
  texts are compared, and they are taken as different from every integer.
\<close>

definition digit :: "char \<Rightarrow> bool" where
  "digit c = (CHR ''0'' \<le> c \<and> c \<le> CHR ''9'')"

definition digits_value :: "string \<Rightarrow> int" where
  "digits_value s = foldl (\<lambda>n c. 10 * n + (of_char c - 48)) 0 s"

fun float_int :: "string \<Rightarrow> int option" where
  "float_int s = (let neg = take 1 s = ''-''; ds = (if neg then drop 1 s else s); n = length ds - 2 in
     if drop n ds = ''.0'' \<and> 0 < n \<and> list_all digit (take n ds)
     then Some (if neg then - digits_value (take n ds) else digits_value (take n ds)) else None)"

fun norm_json :: "json \<Rightarrow> json" where
  "norm_json (JBool b) = JInt (of_bool b)"
| "norm_json (JFloat s) = (case float_int s of Some i \<Rightarrow> JInt i | None \<Rightarrow> JFloat s)"
| "norm_json (JArr xs) = JArr (map norm_json xs)"
| "norm_json (JObj kvs) = JObj (sort_key fst (map (\<lambda>(k, v). (k, norm_json v)) kvs))"
| "norm_json j = j"

definition json_eq :: "json \<Rightarrow> json \<Rightarrow> bool" where
  "json_eq a b = (norm_json a = norm_json b)"

lemma json_eq_numbers:
  "json_eq (JInt 1) (JFloat ''1.0'')" "json_eq (JBool True) (JInt 1)" "json_eq (JFloat ''0.0'') (JFloat ''-0.0'')"
  "json_eq (JInt (- 12)) (JFloat ''-12.0'')" "\<not> json_eq (JInt 1) (JFloat ''1.5'')" "\<not> json_eq (JInt 1) (JStr ''1'')"
  by code_simp+

fun json_finite :: "json \<Rightarrow> bool" where
  "json_finite (JFloat s) = (s \<notin> {''NaN'', ''Infinity'', ''-Infinity''})"
| "json_finite (JArr xs) = list_all json_finite xs"
| "json_finite (JObj kvs) = list_all (\<lambda>(_, v). json_finite v) kvs"
| "json_finite _ = True"

section \<open>Order and length\<close>

lemma sort_key_values:
  "map (\<lambda>(k, v). (k, f v)) (sort_key fst xs) = sort_key fst (map (\<lambda>(k, v). (k, f v)) xs)"
proof -
  have ins: "map (\<lambda>(k, v). (k, f v)) (insort_key fst x xs) =
      insort_key fst ((\<lambda>(k, v). (k, f v)) x) (map (\<lambda>(k, v). (k, f v)) xs)" for x xs
    by (induction xs) (auto simp: split_beta)
  show ?thesis by (induction xs) (simp_all add: ins)
qed

lemma norm_sort: "norm_json (sort_json v) = norm_json v"
proof (induction v)
  case (JObj kvs)
  have "map (\<lambda>(k, v). (k, norm_json v)) (map (\<lambda>(k, v). (k, sort_json v)) kvs) = map (\<lambda>(k, v). (k, norm_json v)) kvs"
    using JObj.IH by fastforce
  then show ?case by (simp add: sort_key_values sort_key_id_if_sorted del: map_map)
qed auto

lemma json_eq_sort [simp]: "json_eq (sort_json v) u = json_eq v u"
  by (simp add: json_eq_def norm_sort)

fun weight :: "json \<Rightarrow> nat" where
  "weight (JStr s) = length s"
| "weight (JArr xs) = sum_list (map weight xs)"
| "weight (JObj kvs) = sum_list (map (\<lambda>(_, v). weight v) kvs)"
| "weight _ = 0"

lemma json_char_length: "1 \<le> length (json_char c)"
  by (simp add: json_char_def Let_def)

lemma json_string_length: "length s \<le> length (json_string s)"
proof -
  have "length s \<le> length (concat (map json_char s))"
  proof (induction s)
    case (Cons c s)
    with json_char_length [of c] show ?case by simp
  qed simp
  then show ?thesis by (simp add: json_string_def)
qed

lemma join_length: "sum_list (map length xs) \<le> length (join_with sep xs)"
  by (induction sep xs rule: join_with.induct) auto

lemma dumps_length: "weight j \<le> length (json_dumps j)"
proof (induction j)
  case (JStr s)
  then show ?case using json_string_length [of s] by simp
next
  case (JArr xs)
  have "sum_list (map weight xs) \<le> sum_list (map length (map json_dumps xs))"
    using JArr by (simp add: sum_list_mono comp_def)
  also have "\<dots> \<le> length (join_with '','' (map json_dumps xs))" by (rule join_length)
  finally show ?case by simp
next
  case (JObj kvs)
  let ?f = "\<lambda>(k, v). json_string k @ '':'' @ json_dumps v"
  have "sum_list (map (\<lambda>(_, v). weight v) kvs) \<le> sum_list (map length (map ?f kvs))"
    using JObj by (fastforce intro: sum_list_mono simp: comp_def split_beta)
  also have "\<dots> \<le> length (join_with '','' (map ?f kvs))" by (rule join_length)
  finally show ?case by simp
qed simp_all

lemma sum_list_insort: "sum_list (map g (insort_key f x xs)) = g x + sum_list (map g xs)" for g :: "'a \<Rightarrow> nat"
  by (induction xs) auto

lemma sum_list_sort: "sum_list (map g (sort_key f xs)) = sum_list (map g xs)" for g :: "'a \<Rightarrow> nat"
  by (induction xs) (simp_all add: sum_list_insort)

lemma weight_sort [simp]: "weight (sort_json j) = weight j"
proof (induction j)
  case (JObj kvs)
  have "sum_list (map (\<lambda>(_, v). weight v) (map (\<lambda>(k, v). (k, sort_json v)) kvs)) = sum_list (map (\<lambda>(_, v). weight v) kvs)"
    using JObj by (auto intro!: arg_cong [where f = sum_list] map_cong simp: split_beta)
  then show ?case by (simp add: sum_list_sort del: map_map)
next
  case (JArr xs)
  then show ?case by (auto intro!: arg_cong [where f = sum_list])
qed simp_all

lemma utf8_length: "length s \<le> length (utf8 s)"
  by (induction s) (auto simp: utf8_def utf8_char_def Let_def)

end
