(* ===== verification/TelegramState.thy ===== *)
theory TelegramState
  imports JsonText SpecModels
begin

text \<open>
  \<^verbatim>\<open>capability_workers/state.py\<close>, class \<open>TelegramWorkerState\<close>: the durable state of the Telegram worker, kept
  in memory and in one JSON file that every change replaces atomically. An operation that changes the
  state does so in memory and then writes the file; the write is an argument, because it may fail before
  the file is replaced (the file stays as it was) or after it (the directory cannot be synced), and the
  exception leaves the changed memory behind. A restart reads the file. The dictionary keys that are the
  text of an integer are that integer, numbers inside an update keep their JSON text, and the file holds
  what this class wrote; the drawn UUID of a thread is an argument.
\<close>

section \<open>State\<close>

datatype telegram_error =
    TelegramStateError string
  | TelegramValueError string
  | TelegramOSError

record pending_run =
  pr_source_event_id :: string
  pr_update_id :: int
  pr_run_id :: string
  pr_chat_id :: int
  pr_sequence :: int
  pr_accumulated_text :: string
  pr_response_message_id :: "int option"
  pr_rendered_text :: string

record approval_record =
  ap_run_id :: string
  ap_approval_id :: string
  ap_chat_id :: int
  ap_user_id :: int
  ap_allowed_decisions :: "string list"
  ap_tool_name :: string
  ap_description :: string
  ap_delivered :: bool

record telegram_state =
  ts_next_update_id :: int
  ts_paired :: "(int \<times> int) option"
  ts_threads :: "(int \<times> string) list"
  ts_codex_logins :: "(int \<times> string) list"
  ts_update_inbox :: "(int \<times> json) list"
  ts_seen_source_events :: "string list"
  ts_pending_runs :: "(string \<times> pending_run) list"
  ts_approvals :: "(string \<times> approval_record) list"
  ts_awaiting_edits :: "(int \<times> string) list"
  ts_notification_cursor :: int
  ts_pending_notification_acks :: "int list"

definition default_state :: telegram_state where
  "default_state = \<lparr>ts_next_update_id = 0, ts_paired = None, ts_threads = [], ts_codex_logins = [], ts_update_inbox = [],
     ts_seen_source_events = [], ts_pending_runs = [], ts_approvals = [], ts_awaiting_edits = [],
     ts_notification_cursor = 0, ts_pending_notification_acks = []\<rparr>"

definition dict_del :: "'k \<Rightarrow> ('k \<times> 'v) list \<Rightarrow> ('k \<times> 'v) list" where
  "dict_del k d = filter (\<lambda>kv. fst kv \<noteq> k) d"

section \<open>The file\<close>

definition opt_int :: "int option \<Rightarrow> json" where
  "opt_int v = (case v of None \<Rightarrow> JNull | Some i \<Rightarrow> JInt i)"

definition run_json :: "pending_run \<Rightarrow> json" where
  "run_json r = JObj [(''source_event_id'', JStr (pr_source_event_id r)), (''update_id'', JInt (pr_update_id r)), (''run_id'', JStr (pr_run_id r)),
     (''chat_id'', JInt (pr_chat_id r)), (''sequence'', JInt (pr_sequence r)), (''accumulated_text'', JStr (pr_accumulated_text r)),
     (''response_message_id'', opt_int (pr_response_message_id r)), (''rendered_text'', JStr (pr_rendered_text r))]"

definition approval_json :: "approval_record \<Rightarrow> json" where
  "approval_json a = JObj [(''run_id'', JStr (ap_run_id a)), (''approval_id'', JStr (ap_approval_id a)), (''chat_id'', JInt (ap_chat_id a)),
     (''user_id'', JInt (ap_user_id a)), (''allowed_decisions'', JArr (map JStr (ap_allowed_decisions a))), (''tool_name'', JStr (ap_tool_name a)),
     (''description'', JStr (ap_description a)), (''delivered'', JBool (ap_delivered a))]"

definition int_keys :: "('v \<Rightarrow> json) \<Rightarrow> (int \<times> 'v) list \<Rightarrow> json" where
  "int_keys f d = JObj (map (\<lambda>(k, v). (str_int k, f v)) d)"

definition state_json :: "telegram_state \<Rightarrow> json" where
  "state_json s = JObj [(''version'', JInt 1), (''next_update_id'', JInt (ts_next_update_id s)),
     (''paired'', case ts_paired s of None \<Rightarrow> JNull | Some (u, c) \<Rightarrow> JObj [(''user_id'', JInt u), (''chat_id'', JInt c)]),
     (''threads'', int_keys JStr (ts_threads s)), (''codex_logins'', int_keys JStr (ts_codex_logins s)),
     (''update_inbox'', int_keys id (ts_update_inbox s)), (''seen_source_events'', JArr (map JStr (ts_seen_source_events s))),
     (''pending_runs'', JObj (map (\<lambda>(k, r). (k, run_json r)) (ts_pending_runs s))),
     (''approvals'', JObj (map (\<lambda>(k, a). (k, approval_json a)) (ts_approvals s))),
     (''awaiting_edits'', int_keys JStr (ts_awaiting_edits s)), (''notification_cursor'', JInt (ts_notification_cursor s)),
     (''pending_notification_acks'', JArr (map JInt (ts_pending_notification_acks s)))]"

text \<open>The payload of \<open>_write\<close>, and the state that a reader of it gets: every dict in key order.\<close>

definition payload_bytes :: "telegram_state \<Rightarrow> nat" where
  "payload_bytes s = length (utf8 (json_dumps (sort_json (state_json s))))"

definition on_disk :: "telegram_state \<Rightarrow> telegram_state" where
  "on_disk s = s\<lparr>ts_threads := sort_key (str_int \<circ> fst) (ts_threads s), ts_codex_logins := sort_key (str_int \<circ> fst) (ts_codex_logins s),
     ts_update_inbox := sort_key (str_int \<circ> fst) (map (\<lambda>(k, v). (k, sort_json v)) (ts_update_inbox s)),
     ts_pending_runs := sort_key fst (ts_pending_runs s), ts_approvals := sort_key fst (ts_approvals s),
     ts_awaiting_edits := sort_key (str_int \<circ> fst) (ts_awaiting_edits s)\<rparr>"

definition read_state :: "telegram_state option \<Rightarrow> telegram_error + telegram_state" where
  "read_state file = (case file of None \<Rightarrow> Inr default_state
     | Some s \<Rightarrow> if 2000000 < payload_bytes s then Inl (TelegramStateError ''Telegram worker state exceeds the size limit'') else Inr s)"

record telegram_worker =
  tw_state :: telegram_state
  tw_file :: "telegram_state option"

datatype write_outcome = Written | NotWritten | WrittenNotSynced

text \<open>
  The result of an operation before \<open>_write\<close>: an exception before any change, a value without a change,
  or a value and the changed state. \<open>commit\<close> performs the write.
\<close>

type_synonym 'a change = "telegram_error + 'a \<times> telegram_state option"

definition commit :: "write_outcome \<Rightarrow> 'a change \<Rightarrow> (telegram_worker, telegram_error, 'a) oper" where
  "commit w c t = (case c of Inl e \<Rightarrow> raises e t
     | Inr (x, None) \<Rightarrow> ok x t
     | Inr (x, Some s) \<Rightarrow> (case w of
           Written \<Rightarrow> ok x (t\<lparr>tw_state := s, tw_file := Some (on_disk s)\<rparr>)
         | NotWritten \<Rightarrow> raises TelegramOSError (t\<lparr>tw_state := s\<rparr>)
         | WrittenNotSynced \<Rightarrow> raises TelegramOSError (t\<lparr>tw_state := s, tw_file := Some (on_disk s)\<rparr>)))"

section \<open>Operations\<close>

definition next_update_id :: "telegram_state \<Rightarrow> int" where
  "next_update_id s = max 0 (ts_next_update_id s)"

definition paired_identity :: "telegram_state \<Rightarrow> (int \<times> int) option" where
  "paired_identity s = ts_paired s"

definition pair :: "int \<Rightarrow> int \<Rightarrow> telegram_state \<Rightarrow> bool change" where
  "pair user_id chat_id s = (case paired_identity s of
     None \<Rightarrow> Inr (True, Some (s\<lparr>ts_paired := Some (user_id, chat_id)\<rparr>))
   | Some identity \<Rightarrow> Inr (identity = (user_id, chat_id), None))"

definition dict_text :: "'k \<Rightarrow> ('k \<times> string) list \<Rightarrow> string" where
  "dict_text k d = py_strip (case map_of d k of None \<Rightarrow> [] | Some v \<Rightarrow> v)"

definition new_thread_id :: "string \<Rightarrow> int \<Rightarrow> string" where
  "new_thread_id uuid_hex chat_id = ''telegram_'' @ str_int chat_id @ ''_'' @ uuid_hex"

definition thread_id :: "string \<Rightarrow> int \<Rightarrow> telegram_state \<Rightarrow> string change" where
  "thread_id uuid_hex chat_id s = (let v = dict_text chat_id (ts_threads s) in
     if v \<noteq> [] then Inr (v, None)
     else (let v = new_thread_id uuid_hex chat_id in Inr (v, Some (s\<lparr>ts_threads := dict_set (ts_threads s) (chat_id, v)\<rparr>))))"

definition replace_thread :: "int \<Rightarrow> string \<Rightarrow> string \<Rightarrow> telegram_state \<Rightarrow> unit change" where
  "replace_thread chat_id expected_thread_id replacement_thread_id s =
     (let replacement = py_strip replacement_thread_id in
      if replacement = [] then Inl (TelegramValueError ''replacement_thread_id must not be empty'')
      else if dict_text chat_id (ts_threads s) \<noteq> py_strip expected_thread_id
      then Inl (TelegramStateError ''Telegram conversation changed during replacement'')
      else Inr ((), Some (s\<lparr>ts_threads := dict_set (ts_threads s) (chat_id, replacement)\<rparr>)))"

definition codex_login :: "int \<Rightarrow> telegram_state \<Rightarrow> string" where
  "codex_login chat_id s = dict_text chat_id (ts_codex_logins s)"

definition set_codex_login :: "int \<Rightarrow> string option \<Rightarrow> telegram_state \<Rightarrow> unit change" where
  "set_codex_login chat_id login_id s = Inr ((), Some (s\<lparr>ts_codex_logins :=
     (case login_id of None \<Rightarrow> dict_del chat_id (ts_codex_logins s) | Some [] \<Rightarrow> dict_del chat_id (ts_codex_logins s)
      | Some l \<Rightarrow> dict_set (ts_codex_logins s) (chat_id, l))\<rparr>))"

definition accept_update :: "int \<Rightarrow> json \<Rightarrow> telegram_state \<Rightarrow> bool change" where
  "accept_update i update s =
     (if \<not> json_finite update then Inl (TelegramValueError ''Out of range float values are not JSON compliant'')
      else let existing = map_of (ts_update_inbox s) i in
        if (case existing of None \<Rightarrow> False | Some e \<Rightarrow> \<not> json_eq e update)
        then Inl (TelegramStateError ''Telegram update id payload conflict'')
        else Inr (existing = None, Some (s\<lparr>ts_update_inbox := dict_set (ts_update_inbox s) (i, update),
          ts_next_update_id := max (next_update_id s) (i + 1)\<rparr>)))"

definition pending_updates :: "telegram_state \<Rightarrow> (int \<times> json) list" where
  "pending_updates s = sort_key fst (filter (\<lambda>(_, v). is_obj v) (ts_update_inbox s))"

definition update_pending :: "int \<Rightarrow> telegram_state \<Rightarrow> bool" where
  "update_pending i s = (map_of (ts_update_inbox s) i \<noteq> None)"

definition coalesce_updates :: "int list \<Rightarrow> json \<Rightarrow> telegram_state \<Rightarrow> json change" where
  "coalesce_updates update_ids merged_update s = (case map fst (dict_of (map (\<lambda>i. (i, ())) update_ids)) of
     [] \<Rightarrow> Inl (TelegramValueError ''update_ids must not be empty'')
   | primary # others \<Rightarrow>
       if \<not> json_finite merged_update then Inl (TelegramValueError ''Out of range float values are not JSON compliant'')
       else if list_ex (\<lambda>i. \<not> update_pending i s) (primary # others)
       then Inl (TelegramStateError ''cannot coalesce updates that are not pending'')
       else Inr (merged_update, Some (s\<lparr>ts_update_inbox :=
         foldl (\<lambda>d i. dict_del i d) (dict_set (ts_update_inbox s) (primary, merged_update)) others\<rparr>)))"

definition notification_cursor :: "telegram_state \<Rightarrow> int" where
  "notification_cursor s = max 0 (ts_notification_cursor s)"

definition pending_notification_acks :: "telegram_state \<Rightarrow> int list" where
  "pending_notification_acks s = sorted_list_of_set (set (ts_pending_notification_acks s))"

definition mark_notification_delivered :: "int \<Rightarrow> telegram_state \<Rightarrow> unit change" where
  "mark_notification_delivered i s =
     (if i < 1 then Inl (TelegramValueError ''notification_id must be positive'')
      else Inr ((), Some (s\<lparr>ts_pending_notification_acks := sorted_list_of_set (insert i (set (ts_pending_notification_acks s))),
        ts_notification_cursor := max (notification_cursor s) i\<rparr>)))"

definition mark_notification_acknowledged :: "int \<Rightarrow> telegram_state \<Rightarrow> unit change" where
  "mark_notification_acknowledged i s =
     (let pending = filter (\<lambda>k. k \<noteq> i) (ts_pending_notification_acks s) in
      Inr ((), if length pending \<noteq> length (ts_pending_notification_acks s) then Some (s\<lparr>ts_pending_notification_acks := pending\<rparr>) else None))"

definition source_seen :: "string \<Rightarrow> telegram_state \<Rightarrow> bool" where
  "source_seen e s = (e \<in> set (ts_seen_source_events s))"

definition complete_update :: "nat \<Rightarrow> int \<Rightarrow> string \<Rightarrow> string option \<Rightarrow> telegram_state \<Rightarrow> unit change" where
  "complete_update max_seen update_id source_event_id consumed_approval_token s =
     (let s = s\<lparr>ts_seen_source_events := py_tail max_seen (filter (\<lambda>e. e \<noteq> source_event_id) (ts_seen_source_events s) @ [source_event_id]),
            ts_next_update_id := max (next_update_id s) (update_id + 1),
            ts_update_inbox := dict_del update_id (ts_update_inbox s),
            ts_pending_runs := dict_del source_event_id (ts_pending_runs s)\<rparr>
      in Inr ((), Some (case consumed_approval_token of None \<Rightarrow> s | Some [] \<Rightarrow> s
         | Some tok \<Rightarrow> s\<lparr>ts_approvals := dict_del tok (ts_approvals s),
             ts_awaiting_edits := filter (\<lambda>(_, v). v \<noteq> tok) (ts_awaiting_edits s)\<rparr>)))"

definition positive_id :: "int option \<Rightarrow> int option" where
  "positive_id v = (case v of None \<Rightarrow> None | Some i \<Rightarrow> if 0 < i then Some i else None)"

definition save_pending_run :: "string \<Rightarrow> int \<Rightarrow> string \<Rightarrow> int \<Rightarrow> int \<Rightarrow> string \<Rightarrow> int option \<Rightarrow> string \<Rightarrow> telegram_state \<Rightarrow> unit change" where
  "save_pending_run source_event_id update_id run_id chat_id sequence accumulated_text response_message_id rendered_text s =
     Inr ((), Some (s\<lparr>ts_pending_runs := dict_set (ts_pending_runs s) (source_event_id,
       \<lparr>pr_source_event_id = source_event_id, pr_update_id = update_id, pr_run_id = run_id, pr_chat_id = chat_id,
        pr_sequence = max 0 sequence, pr_accumulated_text = py_tail 200000 accumulated_text,
        pr_response_message_id = positive_id response_message_id, pr_rendered_text = py_tail 200000 rendered_text\<rparr>)\<rparr>))"

definition save_pending_delivery :: "string \<Rightarrow> int option \<Rightarrow> string \<Rightarrow> telegram_state \<Rightarrow> unit change" where
  "save_pending_delivery source_event_id response_message_id rendered_text s =
     (case map_of (ts_pending_runs s) source_event_id of None \<Rightarrow> Inr ((), None)
      | Some r \<Rightarrow> Inr ((), Some (s\<lparr>ts_pending_runs := dict_set (ts_pending_runs s) (source_event_id,
          r\<lparr>pr_response_message_id := positive_id response_message_id, pr_rendered_text := py_tail 200000 rendered_text\<rparr>)\<rparr>)))"

definition pending_run :: "string \<Rightarrow> telegram_state \<Rightarrow> pending_run option" where
  "pending_run source_event_id s = map_of (ts_pending_runs s) source_event_id"

definition pending_runs :: "telegram_state \<Rightarrow> pending_run list" where
  "pending_runs s = map snd (ts_pending_runs s)"

definition remove_pending_run :: "string \<Rightarrow> telegram_state \<Rightarrow> unit change" where
  "remove_pending_run source_event_id s = Inr ((), if pending_run source_event_id s \<noteq> None
     then Some (s\<lparr>ts_pending_runs := dict_del source_event_id (ts_pending_runs s)\<rparr>) else None)"

definition save_approval :: "string \<Rightarrow> string \<Rightarrow> string \<Rightarrow> int \<Rightarrow> int \<Rightarrow> string list \<Rightarrow> string \<Rightarrow> string \<Rightarrow> telegram_state \<Rightarrow> unit change" where
  "save_approval token run_id approval_id chat_id user_id allowed_decisions tool description s =
     Inr ((), Some (s\<lparr>ts_approvals := dict_set (ts_approvals s) (token,
       \<lparr>ap_run_id = run_id, ap_approval_id = approval_id, ap_chat_id = chat_id, ap_user_id = user_id,
        ap_allowed_decisions = allowed_decisions, ap_tool_name = tool, ap_description = description, ap_delivered = False\<rparr>)\<rparr>))"

definition approval :: "string \<Rightarrow> telegram_state \<Rightarrow> approval_record option" where
  "approval token s = map_of (ts_approvals s) token"

definition remove_approval :: "string \<Rightarrow> telegram_state \<Rightarrow> unit change" where
  "remove_approval token s = Inr ((), if approval token s \<noteq> None \<or> list_ex (\<lambda>(_, v). v = token) (ts_awaiting_edits s)
     then Some (s\<lparr>ts_approvals := dict_del token (ts_approvals s), ts_awaiting_edits := filter (\<lambda>(_, v). v \<noteq> token) (ts_awaiting_edits s)\<rparr>)
     else None)"

definition find_approval :: "string \<Rightarrow> string \<Rightarrow> telegram_state \<Rightarrow> (string \<times> approval_record) option" where
  "find_approval run_id approval_id s = find (\<lambda>(_, a). ap_run_id a = run_id \<and> ap_approval_id a = approval_id) (ts_approvals s)"

definition mark_approval_delivered :: "string \<Rightarrow> telegram_state \<Rightarrow> unit change" where
  "mark_approval_delivered token s = (case approval token s of
     Some a \<Rightarrow> Inr ((), if \<not> ap_delivered a then Some (s\<lparr>ts_approvals := dict_set (ts_approvals s) (token, a\<lparr>ap_delivered := True\<rparr>)\<rparr>) else None)
   | None \<Rightarrow> Inr ((), None))"

definition undelivered_approvals :: "telegram_state \<Rightarrow> (string \<times> approval_record) list" where
  "undelivered_approvals s = filter (\<lambda>(_, a). \<not> ap_delivered a) (ts_approvals s)"

definition await_edit :: "int \<Rightarrow> string \<Rightarrow> telegram_state \<Rightarrow> unit change" where
  "await_edit chat_id token s = Inr ((), Some (s\<lparr>ts_awaiting_edits := dict_set (ts_awaiting_edits s) (chat_id, token)\<rparr>))"

definition awaiting_edit :: "int \<Rightarrow> telegram_state \<Rightarrow> string option" where
  "awaiting_edit chat_id s = (case map_of (ts_awaiting_edits s) chat_id of None \<Rightarrow> None | Some v \<Rightarrow> if v = [] then None else Some v)"

definition clear_awaiting_edit :: "int \<Rightarrow> string \<Rightarrow> telegram_state \<Rightarrow> bool change" where
  "clear_awaiting_edit chat_id token s =
     (if map_of (ts_awaiting_edits s) chat_id \<noteq> Some token then Inr (False, None)
      else Inr (True, Some (s\<lparr>ts_awaiting_edits := dict_del chat_id (ts_awaiting_edits s)\<rparr>)))"

section \<open>Events of a worker\<close>

datatype telegram_call =
    Pair int int
  | ThreadId string int
  | ReplaceThread int string string
  | SetCodexLogin int "string option"
  | AcceptUpdate int json
  | CoalesceUpdates "int list" json
  | MarkNotificationDelivered int
  | MarkNotificationAcknowledged int
  | CompleteUpdate int string "string option"
  | SavePendingRun string int string int int string "int option" string
  | SavePendingDelivery string "int option" string
  | RemovePendingRun string
  | SaveApproval string string string int int "string list" string string
  | RemoveApproval string
  | MarkApprovalDelivered string
  | AwaitEdit int string
  | ClearAwaitingEdit int string

definition done_true :: "'a change \<Rightarrow> bool change" where
  "done_true c = map_sum id (map_prod (\<lambda>_. True) id) c"

lemma done_true_Some [simp]: "done_true c = Inr (b, Some s') \<longleftrightarrow> b \<and> (\<exists>x. c = Inr (x, Some s'))"
  by (cases c) (auto simp: done_true_def)

fun change_of :: "nat \<Rightarrow> telegram_call \<Rightarrow> telegram_state \<Rightarrow> bool change" where
  "change_of m (Pair u c) s = pair u c s"
| "change_of m (ThreadId x c) s = done_true (thread_id x c s)"
| "change_of m (ReplaceThread c e r) s = done_true (replace_thread c e r s)"
| "change_of m (SetCodexLogin c l) s = done_true (set_codex_login c l s)"
| "change_of m (AcceptUpdate i u) s = accept_update i u s"
| "change_of m (CoalesceUpdates is u) s = done_true (coalesce_updates is u s)"
| "change_of m (MarkNotificationDelivered i) s = done_true (mark_notification_delivered i s)"
| "change_of m (MarkNotificationAcknowledged i) s = done_true (mark_notification_acknowledged i s)"
| "change_of m (CompleteUpdate i e tok) s = done_true (complete_update m i e tok s)"
| "change_of m (SavePendingRun e i r c q a mid t) s = done_true (save_pending_run e i r c q a mid t s)"
| "change_of m (SavePendingDelivery e mid t) s = done_true (save_pending_delivery e mid t s)"
| "change_of m (RemovePendingRun e) s = done_true (remove_pending_run e s)"
| "change_of m (SaveApproval tok r a c u ds n d) s = done_true (save_approval tok r a c u ds n d s)"
| "change_of m (RemoveApproval tok) s = done_true (remove_approval tok s)"
| "change_of m (MarkApprovalDelivered tok) s = done_true (mark_approval_delivered tok s)"
| "change_of m (AwaitEdit c tok) s = done_true (await_edit c tok s)"
| "change_of m (ClearAwaitingEdit c tok) s = clear_awaiting_edit c tok s"

text \<open>
  A restart reads the file into a new process. If the file cannot be read the constructor raises and
  there is no process until a later restart succeeds: the memory of the model then belongs to no process,
  and of the facts below only what they say of the file counts.
\<close>

datatype telegram_event = Call write_outcome telegram_call | Restart

fun telegram_exec :: "nat \<Rightarrow> telegram_event \<Rightarrow> (telegram_worker, telegram_error, bool) oper" where
  "telegram_exec m (Call w c) t = commit w (change_of m c (tw_state t)) t"
| "telegram_exec m Restart t = (case read_state (tw_file t) of Inl e \<Rightarrow> raises e t | Inr s \<Rightarrow> ok True (t\<lparr>tw_state := s\<rparr>))"

definition fresh_worker :: telegram_worker where
  "fresh_worker = \<lparr>tw_state = default_state, tw_file = None\<rparr>"

lemmas change_defs = pair_def paired_identity_def thread_id_def replace_thread_def set_codex_login_def accept_update_def coalesce_updates_def
  mark_notification_delivered_def mark_notification_acknowledged_def complete_update_def save_pending_run_def save_pending_delivery_def
  remove_pending_run_def save_approval_def remove_approval_def mark_approval_delivered_def await_edit_def clear_awaiting_edit_def Let_def

section \<open>Dictionaries\<close>

lemma map_of_dict_set [simp]: "map_of (dict_set d kv) = (map_of d)(fst kv \<mapsto> snd kv)"
  by (induction d) (auto simp: fun_eq_iff)

lemma map_of_dict_del [simp]: "map_of (dict_del k d) = (map_of d)(k := None)"
  by (induction d) (auto simp: dict_del_def fun_eq_iff)

lemma distinct_dict_set [simp]: "distinct (map fst (dict_set d kv)) = distinct (map fst d)"
  by (auto simp: dict_set_keys)

lemma distinct_dict_del [simp]: "distinct (map fst d) \<Longrightarrow> distinct (map fst (dict_del k d))"
  by (simp add: dict_del_def distinct_map_filter)

lemma map_of_foldl_del: "map_of (foldl (\<lambda>d i. dict_del i d) d is) k = (if k \<in> set is then None else map_of d k)"
  by (induction "is" arbitrary: d) auto

lemma distinct_foldl_del: "distinct (map fst d) \<Longrightarrow> distinct (map fst (foldl (\<lambda>d i. dict_del i d) d is))"
  by (induction "is" arbitrary: d) auto

lemma map_of_sorted: "distinct (map fst d) \<Longrightarrow> map_of (sort_key f d) k = map_of d k"
  by (rule fun_cong, rule map_of_inject_set [THEN iffD2]) (simp_all add: distinct_map distinct_sort)

section \<open>What every state satisfies\<close>

definition run_ok :: "string \<times> pending_run \<Rightarrow> bool" where
  "run_ok kr = (pr_source_event_id (snd kr) = fst kr \<and> 0 \<le> pr_sequence (snd kr) \<and>
     length (pr_accumulated_text (snd kr)) \<le> 200000 \<and> length (pr_rendered_text (snd kr)) \<le> 200000)"

definition runs_ok :: "(string \<times> pending_run) list \<Rightarrow> bool" where
  "runs_ok d = (\<forall>kr \<in> set d. run_ok kr)"

definition keys_below :: "int \<Rightarrow> (int \<times> 'v) list \<Rightarrow> bool" where
  "keys_below n d = (\<forall>k \<in> fst ` set d. k < n)"

definition state_ok :: "nat \<Rightarrow> telegram_state \<Rightarrow> bool" where
  "state_ok m s =
     (0 \<le> ts_next_update_id s \<and> 0 \<le> ts_notification_cursor s \<and>
      distinct (map fst (ts_threads s)) \<and> distinct (map fst (ts_codex_logins s)) \<and> distinct (map fst (ts_update_inbox s)) \<and>
      distinct (map fst (ts_pending_runs s)) \<and> distinct (map fst (ts_approvals s)) \<and> distinct (map fst (ts_awaiting_edits s)) \<and>
      distinct (ts_seen_source_events s) \<and> length (ts_seen_source_events s) \<le> m \<and>
      sorted (ts_pending_notification_acks s) \<and> distinct (ts_pending_notification_acks s) \<and>
      (\<forall>i \<in> set (ts_pending_notification_acks s). 1 \<le> i \<and> i \<le> ts_notification_cursor s) \<and>
      keys_below (ts_next_update_id s) (ts_update_inbox s) \<and> runs_ok (ts_pending_runs s))"

lemma state_okD:
  assumes "state_ok m s"
  shows "0 \<le> ts_next_update_id s" "0 \<le> ts_notification_cursor s" "distinct (map fst (ts_threads s))" "distinct (map fst (ts_codex_logins s))"
    "distinct (map fst (ts_update_inbox s))" "distinct (map fst (ts_pending_runs s))" "distinct (map fst (ts_approvals s))"
    "distinct (map fst (ts_awaiting_edits s))" "distinct (ts_seen_source_events s)" "length (ts_seen_source_events s) \<le> m"
    "sorted (ts_pending_notification_acks s)" "distinct (ts_pending_notification_acks s)"
    "i \<in> set (ts_pending_notification_acks s) \<Longrightarrow> 1 \<le> i \<and> i \<le> ts_notification_cursor s"
    "keys_below (ts_next_update_id s) (ts_update_inbox s)" "runs_ok (ts_pending_runs s)"
  using assms unfolding state_ok_def by blast+

lemma default_state_ok: "state_ok m default_state"
  by (simp add: state_ok_def default_state_def keys_below_def runs_ok_def)

lemma distinct_keys_sort: "distinct (map fst (sort_key f d)) = distinct (map fst d)"
  by (simp add: distinct_map)

lemma on_disk_ok: "state_ok m s \<Longrightarrow> state_ok m (on_disk s)"
proof -
  assume s: "state_ok m s"
  have "map fst (map (\<lambda>(k, v). (k, sort_json v)) (ts_update_inbox s)) = map fst (ts_update_inbox s)" by (simp add: split_beta comp_def)
  then have "distinct (map fst (map (\<lambda>(k, v). (k, sort_json v)) (ts_update_inbox s))) = distinct (map fst (ts_update_inbox s))" by (rule arg_cong)
  moreover have "fst ` set (map (\<lambda>(k, v). (k, sort_json v)) (ts_update_inbox s)) = fst ` set (ts_update_inbox s)" by force
  ultimately show ?thesis using s unfolding state_ok_def on_disk_def by (simp add: distinct_keys_sort keys_below_def runs_ok_def)
qed

lemma runs_ok_simps [simp]:
  "runs_ok d \<Longrightarrow> run_ok kv \<Longrightarrow> runs_ok (dict_set d kv)" "runs_ok d \<Longrightarrow> runs_ok (dict_del k d)"
  using set_dict_set by (fastforce simp: runs_ok_def dict_del_def)+

lemma distinct_filter_fst: "distinct (map fst d) \<Longrightarrow> distinct (map fst (filter P d))"
  by (simp add: distinct_map_filter)

lemma fst_dict_set: "fst ` set (dict_set d kv) = insert (fst kv) (fst ` set d)"
  using arg_cong [OF dict_set_keys [of d kv], of set] by (auto split: if_splits)

lemma fst_dict_del: "fst ` set (dict_del k d) = fst ` set d - {k}"
  by (auto simp: dict_del_def)

lemma fst_foldl_del: "fst ` set (foldl (\<lambda>d i. dict_del i d) d is) \<subseteq> fst ` set d"
proof (induction "is" arbitrary: d)
  case (Cons i "is")
  have "fst ` set (dict_del i d) \<subseteq> fst ` set d" by (auto simp: dict_del_def)
  with Cons.IH [of "dict_del i d"] show ?case by simp
qed simp

lemma keys_below_simps [simp]:
  "keys_below n d \<Longrightarrow> k < n \<Longrightarrow> keys_below n (dict_set d (k, v))" "keys_below n d \<Longrightarrow> keys_below n (dict_del k d)"
  "keys_below n d \<Longrightarrow> keys_below n (foldl (\<lambda>d i. dict_del i d) d is)"
proof -
  show "keys_below n d \<Longrightarrow> k < n \<Longrightarrow> keys_below n (dict_set d (k, v))" by (simp add: keys_below_def fst_dict_set del: ball_simps(9))
  show "keys_below n d \<Longrightarrow> keys_below n (dict_del k d)" by (simp add: keys_below_def dict_del_def)
  show "keys_below n d \<Longrightarrow> keys_below n (foldl (\<lambda>d i. dict_del i d) d is)"
    unfolding keys_below_def by (rule ballI, drule subsetD [OF fst_foldl_del], erule (1) bspec)
qed

lemma keys_below_mono: "keys_below n d \<Longrightarrow> n \<le> n' \<Longrightarrow> keys_below n' d"
  by (auto simp: keys_below_def)

lemma change_ok:
  assumes s: "state_ok m s" and m: "0 < m" and c: "change_of m c s = Inr (b, Some s')"
  shows "state_ok m s'"
proof -
  note d = state_okD [OF s]
  show ?thesis
  proof (cases c)
    case (AcceptUpdate i u)
    then have "s' = s\<lparr>ts_update_inbox := dict_set (ts_update_inbox s) (i, u), ts_next_update_id := max (next_update_id s) (i + 1)\<rparr>"
      using c by (auto simp: accept_update_def Let_def split: if_splits)
    then show ?thesis using s keys_below_mono [OF d(14), of "max (ts_next_update_id s) (i + 1)"] by (simp add: state_ok_def next_update_id_def le_max_iff_disj)
  next
    case (CoalesceUpdates "is" u)
    then obtain p os where po: "map fst (dict_of (map (\<lambda>i. (i, ())) is)) = p # os" "update_pending p s"
      and s': "s' = s\<lparr>ts_update_inbox := foldl (\<lambda>d i. dict_del i d) (dict_set (ts_update_inbox s) (p, u)) os\<rparr>"
      using c by (auto simp: coalesce_updates_def split: list.splits if_splits)
    have "p < ts_next_update_id s" using po(2) d(14) by (auto simp: update_pending_def map_of_eq_None_iff keys_below_def)
    then show ?thesis using s s' unfolding state_ok_def by (simp add: distinct_foldl_del)
  next
    case (CompleteUpdate i e tok)
    let ?s = "s\<lparr>ts_seen_source_events := py_tail m (filter (\<lambda>x. x \<noteq> e) (ts_seen_source_events s) @ [e]),
      ts_next_update_id := max (next_update_id s) (i + 1), ts_update_inbox := dict_del i (ts_update_inbox s),
      ts_pending_runs := dict_del e (ts_pending_runs s)\<rparr>"
    have ok: "state_ok m ?s"
      using s keys_below_mono [OF d(14), of "max (ts_next_update_id s) (i + 1)"]
      by (auto simp: state_ok_def next_update_id_def)
    have "s' = ?s \<or> (\<exists>tok. s' = ?s\<lparr>ts_approvals := dict_del tok (ts_approvals ?s), ts_awaiting_edits := filter (\<lambda>(_, v). v \<noteq> tok) (ts_awaiting_edits ?s)\<rparr>)"
      using c CompleteUpdate by (auto simp: complete_update_def Let_def split: option.splits list.splits)
    then show ?thesis
    proof
      assume "\<exists>tok. s' = ?s\<lparr>ts_approvals := dict_del tok (ts_approvals ?s), ts_awaiting_edits := filter (\<lambda>(_, v). v \<noteq> tok) (ts_awaiting_edits ?s)\<rparr>"
      then obtain tok where "s' = ?s\<lparr>ts_approvals := dict_del tok (ts_approvals ?s), ts_awaiting_edits := filter (\<lambda>(_, v). v \<noteq> tok) (ts_awaiting_edits ?s)\<rparr>" by blast
      with ok show ?thesis by (auto simp: state_ok_def distinct_filter_fst)
    qed (use ok in simp)
  next
    case (MarkNotificationDelivered i)
    define L where "L = sorted_list_of_set (insert i (set (ts_pending_notification_acks s)))"
    have L: "sorted L" "distinct L" "set L = insert i (set (ts_pending_notification_acks s))"
      unfolding L_def by (simp_all del: sorted_list_of_set_insert_remove)
    have "s' = s\<lparr>ts_pending_notification_acks := L, ts_notification_cursor := max (notification_cursor s) i\<rparr>" "1 \<le> i"
      using c MarkNotificationDelivered unfolding L_def
      by (auto simp: mark_notification_delivered_def simp del: sorted_list_of_set_insert_remove split: if_splits)
    with s L show ?thesis by (auto simp: state_ok_def notification_cursor_def)
  next
    case (MarkNotificationAcknowledged i)
    then have "s' = s\<lparr>ts_pending_notification_acks := filter (\<lambda>k. k \<noteq> i) (ts_pending_notification_acks s)\<rparr>"
      using c by (auto simp: mark_notification_acknowledged_def Let_def split: if_splits)
    with s show ?thesis by (simp add: state_ok_def sorted_wrt_filter)
  next
    case (SavePendingRun e i r ch q a mid t)
    with c s show ?thesis by (auto simp: save_pending_run_def state_ok_def run_ok_def)
  next
    case (SavePendingDelivery e mid t)
    then obtain r where r: "map_of (ts_pending_runs s) e = Some r" and
      s': "s' = s\<lparr>ts_pending_runs := dict_set (ts_pending_runs s) (e, r\<lparr>pr_response_message_id := positive_id mid, pr_rendered_text := py_tail 200000 t\<rparr>)\<rparr>"
      using c by (auto simp: save_pending_delivery_def split: option.splits)
    have "run_ok (e, r)" using d(15) map_of_SomeD [OF r] by (auto simp: runs_ok_def)
    then have "run_ok (e, r\<lparr>pr_response_message_id := positive_id mid, pr_rendered_text := py_tail 200000 t\<rparr>)" by (simp add: run_ok_def)
    then show ?thesis using s s' unfolding state_ok_def by simp
  next
    case (RemovePendingRun e)
    with c s show ?thesis by (auto simp: remove_pending_run_def state_ok_def split: if_splits)
  next
    case (RemoveApproval tok)
    with c s show ?thesis by (auto simp: remove_approval_def state_ok_def distinct_filter_fst split: if_splits)
  qed (use c s in \<open>auto simp: change_defs state_ok_def split: if_splits option.splits list.splits\<close>)
qed

section \<open>What survives failures and restarts\<close>

definition worker_ok :: "nat \<Rightarrow> telegram_worker \<Rightarrow> bool" where
  "worker_ok m t = (0 < m \<longrightarrow> state_ok m (tw_state t) \<and> (case tw_file t of None \<Rightarrow> True | Some f \<Rightarrow> state_ok m f))"

lemma commit_cases:
  assumes "commit w c t = (x, t')"
  shows "t' = t \<or> (\<exists>v s. c = Inr (v, Some s) \<and> tw_state t' = s \<and>
    (tw_file t' = Some (on_disk s) \<or> tw_file t' = tw_file t \<and> x = Inl TelegramOSError))"
  using assms by (auto simp: commit_def split: sum.splits prod.splits option.splits write_outcome.splits)

lemma telegram_exec_ok: "worker_ok m t \<Longrightarrow> worker_ok m (snd (telegram_exec m ev t))"
proof (cases ev)
  case (Call w c)
  assume t: "worker_ok m t"
  obtain x t' where r: "commit w (change_of m c (tw_state t)) t = (x, t')" by fastforce
  from commit_cases [OF r] show ?thesis
  proof
    assume "t' = t"
    with r t Call show ?thesis by simp
  next
    assume "\<exists>v s. change_of m c (tw_state t) = Inr (v, Some s) \<and> tw_state t' = s \<and>
      (tw_file t' = Some (on_disk s) \<or> tw_file t' = tw_file t \<and> x = Inl TelegramOSError)"
    then obtain v s where s: "change_of m c (tw_state t) = Inr (v, Some s)" "tw_state t' = s"
      "tw_file t' = Some (on_disk s) \<or> tw_file t' = tw_file t" by blast
    have "0 < m \<Longrightarrow> state_ok m s" using change_ok [OF _ _ s(1)] t by (simp add: worker_ok_def)
    with s t r Call on_disk_ok show ?thesis by (auto simp: worker_ok_def)
  qed
next
  case Restart
  assume "worker_ok m t"
  with Restart default_state_ok show ?thesis by (auto simp: worker_ok_def read_state_def split: option.splits)
qed

interpretation telegram_calls: call_system "telegram_exec m" fresh_worker "worker_ok m" for m :: nat
proof
  show "worker_ok m fresh_worker" by (simp add: worker_ok_def fresh_worker_def default_state_ok)
qed (rule telegram_exec_ok)

text \<open>
  A fact about the state that was written once stays, in memory and in the file, through any events
  (failed writes and restarts included) whose calls do not take it back.
\<close>

locale durable_fact =
  fixes m :: nat
    and holds :: "telegram_state \<Rightarrow> bool"
    and allowed :: "telegram_call \<Rightarrow> bool"
  assumes change_holds: "state_ok m s \<Longrightarrow> holds s \<Longrightarrow> allowed c \<Longrightarrow> change_of m c s = Inr (b, Some s') \<Longrightarrow> holds s'"
    and disk_holds: "state_ok m s \<Longrightarrow> holds s \<Longrightarrow> holds (on_disk s)"
begin

definition durable :: "telegram_worker \<Rightarrow> bool" where
  "durable t = (holds (tw_state t) \<and> (\<exists>f. tw_file t = Some f \<and> holds f))"

lemma durable_step:
  assumes "0 < m" "worker_ok m t" "durable t" "\<And>w c. ev = Call w c \<Longrightarrow> allowed c"
  shows "durable (snd (telegram_exec m ev t))"
proof (cases ev)
  case (Call w c)
  obtain x t' where r: "commit w (change_of m c (tw_state t)) t = (x, t')" by fastforce
  have ok: "state_ok m (tw_state t)" using assms(1,2) by (simp add: worker_ok_def)
  from commit_cases [OF r] show ?thesis
  proof
    assume "t' = t"
    with r assms(3) Call show ?thesis by simp
  next
    assume "\<exists>v s. change_of m c (tw_state t) = Inr (v, Some s) \<and> tw_state t' = s \<and>
      (tw_file t' = Some (on_disk s) \<or> tw_file t' = tw_file t \<and> x = Inl TelegramOSError)"
    then obtain v s where s: "change_of m c (tw_state t) = Inr (v, Some s)" "tw_state t' = s"
      "tw_file t' = Some (on_disk s) \<or> tw_file t' = tw_file t" by blast
    have "holds s" using change_holds [OF ok _ _ s(1)] assms(3) assms(4) [OF Call] by (simp add: durable_def)
    moreover have "state_ok m s" by (rule change_ok [OF ok assms(1) s(1)])
    ultimately have "durable t'" using s assms(3) disk_holds by (auto simp: durable_def)
    with r Call show ?thesis by simp
  qed
next
  case Restart
  with assms(3) show ?thesis by (auto simp: durable_def read_state_def)
qed

lemma durable_run:
  assumes "0 < m" "worker_ok m t" "durable t" "\<And>w c. Call w c \<in> set evs \<Longrightarrow> allowed c"
  shows "durable (snd (run_calls (telegram_exec m) evs t))"
  using assms(2-4)
proof (induction evs arbitrary: t)
  case (Cons ev evs)
  have "durable (snd (telegram_exec m ev t))" by (rule durable_step [OF assms(1) Cons.prems(1,2)]) (use Cons.prems(3) in auto)
  then have "durable (snd (run_calls (telegram_exec m) evs (snd (telegram_exec m ev t))))"
    by (rule Cons.IH [OF telegram_exec_ok [OF Cons.prems(1)]]) (use Cons.prems(3) in auto)
  then show ?case by (simp add: Let_def)
qed simp

lemma written_durable:
  assumes "0 < m" "worker_ok m t" "commit w (change_of m c (tw_state t)) t = (Inr b, t')"
    and "\<And>b s'. change_of m c (tw_state t) = Inr (b, Some s') \<Longrightarrow> holds s'" "\<And>b. change_of m c (tw_state t) \<noteq> Inr (b, None)"
  shows "durable t'"
proof -
  from assms(3,5) obtain s' where s: "change_of m c (tw_state t) = Inr (b, Some s')" "tw_state t' = s'" "tw_file t' = Some (on_disk s')"
    by (auto simp: commit_def split: sum.splits prod.splits option.splits write_outcome.splits)
  have "state_ok m s'" by (rule change_ok [OF _ assms(1) s(1)]) (use assms(1,2) in \<open>simp add: worker_ok_def\<close>)
  with s assms(4) [OF s(1)] disk_holds show ?thesis by (auto simp: durable_def)
qed

end

definition inbox_has :: "int \<Rightarrow> json \<Rightarrow> telegram_state \<Rightarrow> bool" where
  "inbox_has i u s = ((\<exists>v. map_of (ts_update_inbox s) i = Some v \<and> json_eq v u) \<and> i < ts_next_update_id s)"

fun settles :: "int \<Rightarrow> telegram_call \<Rightarrow> bool" where
  "settles i (CompleteUpdate k _ _) = (k = i)"
| "settles i (CoalesceUpdates is _) = (i \<in> set is)"
| "settles i _ = False"

lemma json_eq_trans: "json_eq a b \<Longrightarrow> json_eq a c \<Longrightarrow> json_eq b c"
  by (simp add: json_eq_def)

lemma keys_dict_of: "set (map fst (dict_of d)) \<subseteq> fst ` set d"
  unfolding set_map by (rule image_mono) (use dict_of_mem in blast)

interpretation inbox: durable_fact m "inbox_has i u" "\<lambda>c. \<not> settles i c" for m i u
proof
  fix s c b s'
  assume s: "state_ok m s" "inbox_has i u s" "\<not> settles i c" "change_of m c s = Inr (b, Some s')"
  show "inbox_has i u s'"
  proof (cases c)
    case (AcceptUpdate k u')
    then have s': "s' = s\<lparr>ts_update_inbox := dict_set (ts_update_inbox s) (k, u'), ts_next_update_id := max (next_update_id s) (k + 1)\<rparr>"
      "\<And>v. map_of (ts_update_inbox s) k = Some v \<Longrightarrow> json_eq v u'"
      using s(4) by (auto simp: accept_update_def Let_def split: if_splits option.splits)
    then show ?thesis using s(2) json_eq_trans by (auto simp: inbox_has_def next_update_id_def json_eq_def)
  next
    case (CoalesceUpdates "is" u')
    then obtain p os where po: "map fst (dict_of (map (\<lambda>i. (i, ())) is)) = p # os"
      and s': "s' = s\<lparr>ts_update_inbox := foldl (\<lambda>d i. dict_del i d) (dict_set (ts_update_inbox s) (p, u')) os\<rparr>"
      using s(4) by (auto simp: coalesce_updates_def split: list.splits if_splits)
    have "set (p # os) \<subseteq> set is" unfolding po [symmetric] using keys_dict_of [of "map (\<lambda>i. (i, ())) is"] by auto
    with s(2,3) CoalesceUpdates s' show ?thesis by (auto simp: inbox_has_def map_of_foldl_del)
  next
    case (CompleteUpdate k e tok)
    with s show ?thesis by (auto simp: inbox_has_def complete_update_def next_update_id_def Let_def split: option.splits list.splits)
  qed (use s in \<open>auto simp: inbox_has_def change_defs simp del: sorted_list_of_set_insert_remove split: if_splits option.splits\<close>)
next
  fix s assume s: "state_ok m s" "inbox_has i u s"
  have "map_of (map (\<lambda>(k, v). (k, sort_json v)) d) i = map_option sort_json (map_of d i)" for d by (induction d) auto
  moreover have "distinct (map fst (map (\<lambda>(k, v). (k, sort_json v)) (ts_update_inbox s)))"
    using state_okD(5) [OF s(1)] by (simp add: split_beta comp_def)
  ultimately show "inbox_has i u (on_disk s)" using s(2) by (auto simp: inbox_has_def on_disk_def map_of_sorted)
qed

interpretation paired: durable_fact m "\<lambda>s. ts_paired s = Some p" "\<lambda>_. True" for m p
proof
  fix s c b s'
  assume s: "ts_paired s = Some p" "change_of m c s = Inr (b, Some s')"
  then show "ts_paired s' = Some p"
    by (cases c) (auto simp: change_defs simp del: sorted_list_of_set_insert_remove split: if_splits option.splits list.splits)
qed (simp add: on_disk_def)

section \<open>Size of the file\<close>

lemma payload_weight: "weight (state_json s) \<le> payload_bytes s"
  unfolding payload_bytes_def using dumps_length [of "sort_json (state_json s)"] utf8_length [of "json_dumps (sort_json (state_json s))"] by simp

section \<open>Recent events\<close>

definition recent :: "string \<Rightarrow> nat \<Rightarrow> telegram_state \<Rightarrow> bool" where
  "recent e n s = (\<exists>xs ys. ts_seen_source_events s = xs @ e # ys \<and> length ys \<le> n)"

lemma recentI: "ts_seen_source_events s = xs @ e # ys \<Longrightarrow> length ys \<le> n \<Longrightarrow> recent e n s"
  unfolding recent_def by blast

fun completes :: "telegram_call \<Rightarrow> bool" where
  "completes (CompleteUpdate _ _ _) = True"
| "completes _ = False"

interpretation recent_event: durable_fact m "recent e n" "\<lambda>c. \<not> completes c" for m e n
proof
  fix s c b s'
  assume s: "recent e n s" "\<not> completes c" "change_of m c s = Inr (b, Some s')"
  have "ts_seen_source_events s' = ts_seen_source_events s"
    using s(2,3) by (cases c) (auto simp: change_defs simp del: sorted_list_of_set_insert_remove split: if_splits option.splits list.splits)
  with s(1) show "recent e n s'" by (simp add: recent_def)
qed (auto simp: recent_def on_disk_def)

lemma py_tail_suffix:
  assumes "length ys < m"
  shows "\<exists>xs'. py_tail m (xs @ e # ys) = xs' @ e # ys"
proof -
  have "length xs + Suc (length ys) - m \<le> length xs" using assms by simp
  then show ?thesis by (auto simp: py_tail_def)
qed

lemma complete_recent:
  assumes "recent e n s" "Suc n < m" "complete_update m i e' tok s = Inr (x, Some s')"
  shows "recent e (Suc n) s'"
proof -
  have seen: "ts_seen_source_events s' = py_tail m (filter (\<lambda>x. x \<noteq> e') (ts_seen_source_events s) @ [e'])"
    using assms(3) by (auto simp: complete_update_def Let_def split: option.splits list.splits)
  obtain xs ys where s: "ts_seen_source_events s = xs @ e # ys" "length ys \<le> n" using assms(1) by (auto simp: recent_def)
  show ?thesis
  proof (cases "e = e'")
    case True
    with seen py_tail_suffix [of "[]" m "filter (\<lambda>x. x \<noteq> e') (ts_seen_source_events s)" e] assms(2) show ?thesis
      by (auto intro: recentI [of s' _ _ "[]"])
  next
    case False
    let ?ys = "filter (\<lambda>x. x \<noteq> e') ys @ [e']"
    have l: "length ?ys \<le> Suc n" using le_trans [OF length_filter_le s(2)] by simp
    have "filter (\<lambda>x. x \<noteq> e') (ts_seen_source_events s) @ [e'] = filter (\<lambda>x. x \<noteq> e') xs @ e # ?ys" using s(1) False by simp
    with seen l assms(2) py_tail_suffix [of ?ys m "filter (\<lambda>x. x \<noteq> e') xs" e] show ?thesis
      by (auto intro: recentI [of s' _ _ ?ys])
  qed
qed

lemma recent_on_disk [simp]: "recent e n (on_disk s) = recent e n s"
  by (simp add: recent_def on_disk_def)

lemma recent_mono: "recent e n s \<Longrightarrow> n \<le> k \<Longrightarrow> recent e k s"
  unfolding recent_def using le_trans by blast

abbreviation recently :: "string \<Rightarrow> nat \<Rightarrow> telegram_worker \<Rightarrow> bool" where
  "recently e n \<equiv> durable_fact.durable (recent e n)"

definition is_complete :: "telegram_event \<Rightarrow> bool" where
  "is_complete ev = (case ev of Call _ c \<Rightarrow> completes c | Restart \<Rightarrow> False)"

lemma recently_step:
  assumes "0 < m" "worker_ok m t" "recently e n t" "Suc n < m"
  shows "recently e (if is_complete ev then Suc n else n) (snd (telegram_exec m ev t))"
proof (cases "is_complete ev")
  case False
  have "recently e n (snd (telegram_exec m ev t))"
    by (rule recent_event.durable_step [OF assms(1-3)]) (use False in \<open>auto simp: is_complete_def\<close>)
  with False show ?thesis by simp
next
  case True
  then obtain w i e' tok where ev: "ev = Call w (CompleteUpdate i e' tok)"
    by (cases ev) (auto simp: is_complete_def elim!: completes.elims)
  obtain s' where c: "complete_update m i e' tok (tw_state t) = Inr ((), Some s')" by (auto simp: complete_update_def Let_def)
  have h: "recent e n (tw_state t)" "\<exists>f. tw_file t = Some f \<and> recent e n f" using assms(3) by (auto simp: recent_event.durable_def)
  have "recent e (Suc n) s'" by (rule complete_recent [OF h(1) assms(4) c])
  moreover have "\<exists>f. tw_file t = Some f \<and> recent e (Suc n) f" using h(2) recent_mono by fastforce
  ultimately show ?thesis using True ev c
    by (cases w) (auto simp: commit_def done_true_def recent_event.durable_def)
qed

lemma recently_run:
  assumes "0 < m" "worker_ok m t" "recently e n t" "n + length (filter is_complete evs) < m"
  shows "recently e (n + length (filter is_complete evs)) (snd (run_calls (telegram_exec m) evs t))"
  using assms(2-4)
proof (induction evs arbitrary: t n)
  case (Cons ev evs)
  let ?k = "if is_complete ev then Suc n else n"
  show ?case
  proof (cases "is_complete ev")
    case True
    have "recently e ?k (snd (telegram_exec m ev t))"
      by (rule recently_step [OF assms(1) Cons.prems(1,2)]) (use Cons.prems(3) True in simp)
    with Cons.IH [OF telegram_exec_ok [OF Cons.prems(1)], of ?k] Cons.prems(3) True show ?thesis by (simp add: Let_def)
  next
    case False
    have "recently e n (snd (telegram_exec m ev t))"
      by (rule recent_event.durable_step [OF assms(1) Cons.prems(1,2)]) (use False in \<open>auto simp: is_complete_def\<close>)
    with Cons.IH [OF telegram_exec_ok [OF Cons.prems(1)], of n] Cons.prems(3) False show ?thesis by (simp add: Let_def)
  qed
qed simp

lemma reachable_worker: "worker_ok m (snd (run_calls (telegram_exec m) evs fresh_worker))"
  by (rule telegram_calls.run_start_inv)

section \<open>Properties\<close>

text \<open>
  C10: No accepted update is lost. Once an update was accepted (the call returned), it stays pending with
  its content, in memory and in the file, and both cursors stay past it, through any events, failed
  writes and restarts among them, until the update itself is completed or merged into another one.
\<close>

theorem accepted_updates_survive:
  assumes "0 < m" "t = snd (run_calls (telegram_exec m) evs fresh_worker)"
    and "telegram_exec m (Call w (AcceptUpdate i u)) t = (Inr b, t')"
    and "list_all (\<lambda>ev. case ev of Call _ c \<Rightarrow> \<not> settles i c | Restart \<Rightarrow> True) evs2" "t2 = snd (run_calls (telegram_exec m) evs2 t')"
  shows "\<exists>v f v'. map_of (ts_update_inbox (tw_state t2)) i = Some v \<and> json_eq v u \<and> i < next_update_id (tw_state t2) \<and>
    tw_file t2 = Some f \<and> map_of (ts_update_inbox f) i = Some v' \<and> json_eq v' u \<and> i < next_update_id f"
proof -
  have t: "worker_ok m t" unfolding assms(2) by (rule reachable_worker)
  have t': "worker_ok m t'" using telegram_exec_ok [OF t, of "Call w (AcceptUpdate i u)"] assms(3) by simp
  have "durable_fact.durable (inbox_has i u) t'"
    by (rule inbox.written_durable [where c = "AcceptUpdate i u", OF assms(1) t assms(3) [unfolded telegram_exec.simps]])
      (auto simp: accept_update_def inbox_has_def next_update_id_def json_eq_def Let_def split: if_splits)
  then have "durable_fact.durable (inbox_has i u) t2"
    unfolding assms(5) by (rule inbox.durable_run [OF assms(1) t']) (use assms(4) in \<open>auto simp: list_all_iff\<close>)
  then show ?thesis by (auto simp: inbox.durable_def inbox_has_def next_update_id_def)
qed

text \<open>
  The worker recognizes what it has processed. After an update was completed, its source event is
  reported as seen, in memory and after any restart, as long as fewer further updates were completed
  than the history has room for; the history itself never grows beyond that bound.
\<close>

theorem processed_events_are_recognized:
  assumes "t = snd (run_calls (telegram_exec m) evs fresh_worker)"
    and "telegram_exec m (Call w (CompleteUpdate i e tok)) t = (Inr b, t')"
    and "length (filter is_complete evs2) < m" "t2 = snd (run_calls (telegram_exec m) evs2 t')"
  shows "source_seen e (tw_state t2) \<and> (\<exists>f. tw_file t2 = Some f \<and> source_seen e f) \<and>
    length (ts_seen_source_events (tw_state t2)) \<le> m"
proof -
  have m: "0 < m" using assms(3) by simp
  have t: "worker_ok m t" unfolding assms(1) by (rule reachable_worker)
  have t': "worker_ok m t'" using telegram_exec_ok [OF t, of "Call w (CompleteUpdate i e tok)"] assms(2) by simp
  have "recent e 0 s'" if "done_true (complete_update m i e tok (tw_state t)) = Inr (b, Some s')" for b s'
  proof -
    have "ts_seen_source_events s' = py_tail m (filter (\<lambda>x. x \<noteq> e) (ts_seen_source_events (tw_state t)) @ [e])"
      using that by (auto simp: complete_update_def Let_def split: option.splits list.splits)
    with py_tail_suffix [of "[]" m "filter (\<lambda>x. x \<noteq> e) (ts_seen_source_events (tw_state t))" e] m show ?thesis
      by (auto intro: recentI [of s' _ _ "[]"])
  qed
  then have "recently e 0 t'"
    by (intro recent_event.written_durable [where c = "CompleteUpdate i e tok", OF m t assms(2) [unfolded telegram_exec.simps]])
      (auto simp: complete_update_def done_true_def Let_def)
  from recently_run [OF m t' this, of evs2] assms(3,4) have "recently e (length (filter is_complete evs2)) t2" by simp
  moreover have "worker_ok m t2" unfolding assms(4) by (rule telegram_calls.run_inv [OF t'])
  ultimately show ?thesis using m by (auto simp: recent_event.durable_def recent_def source_seen_def worker_ok_def state_ok_def)
qed

text \<open>
  A pairing is permanent. Once an unpaired worker was paired (the call returned), the identity is the
  paired one after any events, failed writes and restarts among them, the same identity is accepted
  again and every other one is refused.
\<close>

theorem pairing_is_permanent:
  assumes "0 < m" "t = snd (run_calls (telegram_exec m) evs fresh_worker)" "paired_identity (tw_state t) = None"
    and "telegram_exec m (Call w (Pair u c)) t = (Inr b, t')" "t2 = snd (run_calls (telegram_exec m) evs2 t')"
  shows "paired_identity (tw_state t2) = Some (u, c) \<and> (\<exists>f. tw_file t2 = Some f \<and> paired_identity f = Some (u, c)) \<and>
    telegram_exec m (Call w' (Pair u' c')) t2 = (Inr ((u', c') = (u, c)), t2)"
proof -
  have t: "worker_ok m t" unfolding assms(2) by (rule reachable_worker)
  have t': "worker_ok m t'" using telegram_exec_ok [OF t, of "Call w (Pair u c)"] assms(4) by simp
  have "durable_fact.durable (\<lambda>s. ts_paired s = Some (u, c)) t'"
    by (rule paired.written_durable [where c = "Pair u c", OF assms(1) t assms(4) [unfolded telegram_exec.simps]])
      (use assms(3) in \<open>auto simp: pair_def\<close>)
  then have "durable_fact.durable (\<lambda>s. ts_paired s = Some (u, c)) t2"
    unfolding assms(5) by (rule paired.durable_run [OF assms(1) t']) simp
  then show ?thesis by (auto simp: paired.durable_def paired_identity_def pair_def commit_def)
qed

definition long_run :: "string \<Rightarrow> string \<Rightarrow> telegram_event" where
  "long_run text e = Call Written (SavePendingRun e 1 ''r'' 1 0 text None text)"

text \<open>
  C36: The worker can write a state that it refuses to read. Saving six runs with texts of the length the
  worker itself allows succeeds call by call, and then a restart fails because the file exceeds the
  size limit of the reader: nothing bounds the number of pending runs or the size of the file that is
  written.
\<close>

theorem written_state_can_be_unreadable:
  assumes "length text = 200000"
  shows "list_all (\<lambda>(_, x). x = Inr True) (fst (run_calls (telegram_exec m) (map (long_run text) [''a'', ''b'', ''c'', ''d'', ''e'', ''f'']) fresh_worker)) \<and>
    fst (telegram_exec m Restart (snd (run_calls (telegram_exec m) (map (long_run text) [''a'', ''b'', ''c'', ''d'', ''e'', ''f'']) fresh_worker))) =
      Inl (TelegramStateError ''Telegram worker state exceeds the size limit'')"
proof -
  let ?r = "\<lambda>e. (e, \<lparr>pr_source_event_id = e, pr_update_id = 1, pr_run_id = ''r'', pr_chat_id = 1, pr_sequence = 0,
    pr_accumulated_text = text, pr_response_message_id = None, pr_rendered_text = text\<rparr>)"
  let ?s = "default_state\<lparr>ts_pending_runs := map ?r [''a'', ''b'', ''c'', ''d'', ''e'', ''f'']\<rparr>"
  have tail: "py_tail 200000 text = text" using assms by (intro py_tail_all) simp
  have exec: "telegram_exec m (long_run text e) t =
      (Inr True, t\<lparr>tw_state := (tw_state t)\<lparr>ts_pending_runs := dict_set (ts_pending_runs (tw_state t)) (?r e)\<rparr>,
        tw_file := Some (on_disk ((tw_state t)\<lparr>ts_pending_runs := dict_set (ts_pending_runs (tw_state t)) (?r e)\<rparr>))\<rparr>)" for e t
    by (simp add: long_run_def save_pending_run_def done_true_def commit_def tail positive_id_def)
  have run: "run_calls (telegram_exec m) (map (long_run text) [''a'', ''b'', ''c'', ''d'', ''e'', ''f'']) fresh_worker =
      (map (\<lambda>e. (long_run text e, Inr True)) [''a'', ''b'', ''c'', ''d'', ''e'', ''f''], \<lparr>tw_state = ?s, tw_file = Some (on_disk ?s)\<rparr>)"
    by (simp add: exec Let_def fresh_worker_def default_state_def)
  have "weight (state_json (on_disk ?s)) = weight (state_json ?s)"
    by (simp add: on_disk_def state_json_def default_state_def sum_list_sort int_keys_def)
  also have "\<dots> \<ge> 2400000" using assms by (simp add: state_json_def run_json_def default_state_def int_keys_def opt_int_def)
  finally have "2000000 < payload_bytes (on_disk ?s)" using payload_weight [of "on_disk ?s"] by linarith
  then show ?thesis unfolding run by (simp add: read_state_def)
qed

theorem written_state_can_be_unreadable_witness:
  "fst (telegram_exec 5000 Restart (snd (run_calls (telegram_exec 5000)
      (map (long_run (replicate 200000 (CHR ''x''))) [''a'', ''b'', ''c'', ''d'', ''e'', ''f'']) fresh_worker))) =
    Inl (TelegramStateError ''Telegram worker state exceeds the size limit'')"
  using written_state_can_be_unreadable [of "replicate 200000 (CHR ''x'')" 5000] by (simp only: length_replicate)

section \<open>Concrete runs\<close>

definition example_update :: json where
  "example_update = JObj [(''update_id'', JInt 7), (''message'', JObj [])]"

lemma fresh_run: "fresh_worker = snd (run_calls (telegram_exec 5000) [] fresh_worker)"
  by simp

lemma example_accept:
  "\<exists>t'. telegram_exec 5000 (Call Written (AcceptUpdate 7 example_update)) fresh_worker = (Inr True, t')"
  by (simp add: accept_update_def commit_def fresh_worker_def default_state_def example_update_def)

theorem accepted_updates_survive_witness:
  "\<exists>t' t2 f v. telegram_exec 5000 (Call Written (AcceptUpdate 7 example_update)) fresh_worker = (Inr True, t') \<and>
     t2 = snd (run_calls (telegram_exec 5000) [Call NotWritten (CompleteUpdate 6 ''e'' None), Restart] t') \<and>
     tw_file t2 = Some f \<and> map_of (ts_update_inbox f) 7 = Some v \<and> json_eq v example_update"
proof -
  obtain t' where a: "telegram_exec 5000 (Call Written (AcceptUpdate 7 example_update)) fresh_worker = (Inr True, t')" using example_accept by blast
  from accepted_updates_survive [OF _ fresh_run a _ refl, of "[Call NotWritten (CompleteUpdate 6 ''e'' None), Restart]"] a show ?thesis by auto
qed

theorem processed_events_are_recognized_witness:
  "\<exists>t'. telegram_exec 5000 (Call Written (CompleteUpdate 7 ''e'' None)) fresh_worker = (Inr True, t') \<and>
     source_seen ''e'' (tw_state (snd (run_calls (telegram_exec 5000) [Call Written (CompleteUpdate 8 ''g'' None), Restart] t')))"
proof -
  obtain t' where a: "telegram_exec 5000 (Call Written (CompleteUpdate 7 ''e'' None)) fresh_worker = (Inr True, t')"
    by (simp add: complete_update_def done_true_def commit_def)
  from processed_events_are_recognized [OF fresh_run a _ refl, of "[Call Written (CompleteUpdate 8 ''g'' None), Restart]"] a show ?thesis
    by (simp add: is_complete_def)
qed

theorem pairing_is_permanent_witness:
  "\<exists>t'. telegram_exec 5000 (Call Written (Pair 1 2)) fresh_worker = (Inr True, t') \<and>
     fst (telegram_exec 5000 (Call Written (Pair 3 4)) (snd (run_calls (telegram_exec 5000) [Call NotWritten (AwaitEdit 1 ''x''), Restart] t'))) = Inr False"
proof -
  obtain t' where a: "telegram_exec 5000 (Call Written (Pair 1 2)) fresh_worker = (Inr True, t')"
    by (simp add: pair_def paired_identity_def commit_def fresh_worker_def default_state_def)
  have p: "paired_identity (tw_state fresh_worker) = None" by (simp add: paired_identity_def fresh_worker_def default_state_def)
  from pairing_is_permanent [OF _ fresh_run p a refl, of "[Call NotWritten (AwaitEdit 1 ''x''), Restart]" Written 3 4] a show ?thesis by simp
qed

text \<open>A pairing whose write failed is confirmed by a second call that writes nothing; a restart forgets it.\<close>

lemma confirmed_pairing_can_be_forgotten:
  "map snd (fst (run_calls (telegram_exec m) [Call NotWritten (Pair 1 2), Call Written (Pair 1 2), Restart, Call Written (Pair 3 4)] fresh_worker)) =
     [Inl TelegramOSError, Inr True, Inr True, Inr True]"
  by (simp add: Let_def pair_def paired_identity_def commit_def fresh_worker_def default_state_def read_state_def)

end
