(* ===== verification/Notifications.thy ===== *)
theory Notifications
  imports JsonText SpecModels
begin

text \<open>
  \<^verbatim>\<open>notifications/models.py\<close>, \<^verbatim>\<open>notifications/store.py\<close> and \<^verbatim>\<open>notifications/service.py\<close>: the stream of owner
  notifications. A notification is written once under a tenant's key, is numbered in the order of
  writing, and every consumer reads the ones it has not acknowledged, page by page. Clock readings and
  SHA-256 in hex (\<open>sha\<close>) are arguments; the JSON columns hold the models they encode.
\<close>

section \<open>Models\<close>

datatype notification_error =
    NotificationValueError string
  | NotificationValidationError validation_error
  | NotificationDedupeConflictError string
  | NotificationNotFoundError int

record notification_origin =
  no_interface :: "string option"
  no_source_id :: "string option"
  no_conversation_id :: "string option"
  no_message_id :: "string option"
  no_channel :: "string option"
  no_correlation_id :: "string option"

record notification_approval =
  na_approval_id :: string
  na_tool_name :: string
  na_description :: string
  na_allowed_decisions :: "string list"

record notification_write =
  nw_kind :: string
  nw_text :: string
  nw_status :: string
  nw_thread_id :: "string option"
  nw_run_id :: "string option"
  nw_origin :: "notification_origin option"
  nw_approvals :: "notification_approval list"

record owner_notification =
  on_id :: int
  on_tenant_id :: string
  on_dedupe_key :: string
  on_payload :: notification_write
  on_created_at :: timestamp

definition notification_name :: "string \<Rightarrow> bool" where
  "notification_name = name_of ''_.-'' 99"

definition opt_ok :: "('a \<Rightarrow> bool) \<Rightarrow> 'a option \<Rightarrow> bool" where
  "opt_ok P v = (case v of None \<Rightarrow> True | Some x \<Rightarrow> P x)"

definition safe_text :: "int \<Rightarrow> string \<Rightarrow> bool" where
  "safe_text n s = (sized 1 n s \<and> \<not> has_control s)"

definition norigin_norm :: "notification_origin \<Rightarrow> notification_origin" where
  "norigin_norm r = \<lparr>no_interface = map_option py_strip (no_interface r), no_source_id = map_option py_strip (no_source_id r),
     no_conversation_id = map_option py_strip (no_conversation_id r), no_message_id = map_option py_strip (no_message_id r),
     no_channel = map_option py_strip (no_channel r), no_correlation_id = map_option py_strip (no_correlation_id r)\<rparr>"

definition norigin_fields :: "notification_origin \<Rightarrow> string list" where
  "norigin_fields r = bad ''interface'' (opt_ok (safe_text 64) (no_interface r)) @ bad ''source_id'' (opt_ok (safe_text 200) (no_source_id r)) @
     bad ''conversation_id'' (opt_ok (safe_text 200) (no_conversation_id r)) @ bad ''message_id'' (opt_ok (safe_text 200) (no_message_id r)) @
     bad ''channel'' (opt_ok (safe_text 64) (no_channel r)) @ bad ''correlation_id'' (opt_ok (safe_text 300) (no_correlation_id r))"

definition require_lineage :: "notification_origin \<Rightarrow> string option" where
  "require_lineage r = (if no_interface r = None \<and> no_source_id r = None \<and> no_conversation_id r = None \<and> no_message_id r = None \<and>
       no_channel r = None \<and> no_correlation_id r = None
     then Some ''notification origin must contain delivery lineage'' else None)"

definition NotificationOrigin :: "notification_origin \<Rightarrow> validation_error + notification_origin" where
  "NotificationOrigin = construct norigin_norm norigin_fields require_lineage"

definition napproval_norm :: "notification_approval \<Rightarrow> notification_approval" where
  "napproval_norm a = a\<lparr>na_approval_id := py_strip (na_approval_id a), na_tool_name := py_strip (na_tool_name a),
     na_description := py_strip (na_description a)\<rparr>"

definition napproval_fields :: "notification_approval \<Rightarrow> string list" where
  "napproval_fields a = bad ''approval_id'' (safe_text 300 (na_approval_id a)) @ bad ''tool_name'' (safe_text 200 (na_tool_name a)) @
     bad ''description'' (sized 0 2000 (na_description a)) @
     bad ''allowed_decisions'' (sized 1 3 (na_allowed_decisions a) \<and> list_all (\<lambda>d. d \<in> {''approve'', ''edit'', ''reject''}) (na_allowed_decisions a))"

definition unique_decisions :: "notification_approval \<Rightarrow> string option" where
  "unique_decisions a = (if distinct (na_allowed_decisions a) then None else Some ''approval decisions must be unique'')"

definition NotificationApproval :: "notification_approval \<Rightarrow> validation_error + notification_approval" where
  "NotificationApproval = construct napproval_norm napproval_fields unique_decisions"

definition nwrite_norm :: "notification_write \<Rightarrow> notification_write" where
  "nwrite_norm w = w\<lparr>nw_kind := py_strip (nw_kind w), nw_text := py_strip (nw_text w), nw_status := py_strip (nw_status w),
     nw_thread_id := map_option py_strip (nw_thread_id w), nw_run_id := map_option py_strip (nw_run_id w)\<rparr>"

definition nwrite_fields :: "notification_write \<Rightarrow> string list" where
  "nwrite_fields w = bad ''kind'' (notification_name (nw_kind w)) @ bad ''text'' (sized 1 50000 (nw_text w)) @
     bad ''status'' (notification_name (nw_status w)) @ bad ''thread_id'' (opt_ok (sized 1 8192) (nw_thread_id w)) @
     bad ''run_id'' (opt_ok (safe_text 300) (nw_run_id w)) @ bad ''approvals'' (sized 0 100 (nw_approvals w))"

definition approvals_require_run :: "notification_write \<Rightarrow> string option" where
  "approvals_require_run w = (if nw_approvals w \<noteq> [] \<and> nw_run_id w = None then Some ''approval notifications require a run_id'' else None)"

definition NotificationWrite :: "notification_write \<Rightarrow> validation_error + notification_write" where
  "NotificationWrite = construct nwrite_norm nwrite_fields approvals_require_run"

text \<open>\<open>model_dump(mode="json")\<close>.\<close>

definition opt_text :: "string option \<Rightarrow> json" where
  "opt_text v = (case v of None \<Rightarrow> JNull | Some s \<Rightarrow> JStr s)"

definition norigin_json :: "notification_origin \<Rightarrow> json" where
  "norigin_json r = JObj [(''interface'', opt_text (no_interface r)), (''source_id'', opt_text (no_source_id r)),
     (''conversation_id'', opt_text (no_conversation_id r)), (''message_id'', opt_text (no_message_id r)),
     (''channel'', opt_text (no_channel r)), (''correlation_id'', opt_text (no_correlation_id r))]"

definition napproval_json :: "notification_approval \<Rightarrow> json" where
  "napproval_json a = JObj [(''approval_id'', JStr (na_approval_id a)), (''tool_name'', JStr (na_tool_name a)),
     (''description'', JStr (na_description a)), (''allowed_decisions'', JArr (map JStr (na_allowed_decisions a)))]"

definition nwrite_json :: "notification_write \<Rightarrow> json" where
  "nwrite_json w = JObj [(''kind'', JStr (nw_kind w)), (''text'', JStr (nw_text w)), (''status'', JStr (nw_status w)),
     (''thread_id'', opt_text (nw_thread_id w)), (''run_id'', opt_text (nw_run_id w)),
     (''origin'', case nw_origin w of None \<Rightarrow> JNull | Some r \<Rightarrow> norigin_json r), (''approvals'', JArr (map napproval_json (nw_approvals w)))]"

section \<open>Store\<close>

record notification_row =
  nr_id :: int
  nr_tenant_id :: string
  nr_dedupe_key :: string
  nr_payload_hash :: string
  nr_kind :: string
  nr_text :: string
  nr_status :: string
  nr_thread_id :: "string option"
  nr_run_id :: "string option"
  nr_origin :: "notification_origin option"
  nr_approvals :: "notification_approval list"
  nr_created_at :: timestamp

record notification_ack =
  nk_tenant_id :: string
  nk_consumer_id :: string
  nk_notification_id :: int
  nk_acked_at :: timestamp

record notifications_db =
  owner_notifications :: "notification_row list"
  notification_seq :: int
  owner_notification_acks :: "notification_ack list"

definition empty_notifications :: notifications_db where
  "empty_notifications = \<lparr>owner_notifications = [], notification_seq = 0, owner_notification_acks = []\<rparr>"

definition notif_identity :: "string \<Rightarrow> string \<Rightarrow> nat \<Rightarrow> notification_error + string" where
  "notif_identity v label max_length = (let safe = py_strip v in
     if safe = [] \<or> max_length < length safe \<or> has_control safe then Inl (NotificationValueError (label @ '' is invalid'')) else Inr safe)"

definition notif_positive_id :: "int \<Rightarrow> notification_error + int" where
  "notif_positive_id v = (if v < 1 then Inl (NotificationValueError ''notification_id must be positive'') else Inr v)"

definition payload_hash :: "(string \<Rightarrow> string) \<Rightarrow> notification_write \<Rightarrow> string" where
  "payload_hash sha w = sha (utf8 (json_dumps (sort_json (nwrite_json w))))"

fun all_valid :: "('a \<Rightarrow> validation_error + 'a) \<Rightarrow> 'a list \<Rightarrow> validation_error + 'a list" where
  "all_valid f [] = Inr []"
| "all_valid f (x # xs) = (case f x of Inl e \<Rightarrow> Inl e | Inr y \<Rightarrow> (case all_valid f xs of Inl e \<Rightarrow> Inl e | Inr ys \<Rightarrow> Inr (y # ys)))"

definition owner_fields :: "owner_notification \<Rightarrow> string list" where
  "owner_fields n = nwrite_fields (on_payload n) @ bad ''id'' (1 \<le> on_id n) @ bad ''tenant_id'' (sized 1 200 (on_tenant_id n)) @
     bad ''dedupe_key'' (sized 1 300 (on_dedupe_key n))"

definition owner_norm :: "owner_notification \<Rightarrow> owner_notification" where
  "owner_norm n = n\<lparr>on_tenant_id := py_strip (on_tenant_id n), on_dedupe_key := py_strip (on_dedupe_key n), on_payload := nwrite_norm (on_payload n)\<rparr>"

definition OwnerNotification :: "owner_notification \<Rightarrow> validation_error + owner_notification" where
  "OwnerNotification = construct owner_norm owner_fields (approvals_require_run \<circ> on_payload)"

definition notification_of :: "notification_row \<Rightarrow> notification_error + owner_notification" where
  "notification_of r = map_sum NotificationValidationError id
     (case (case nr_origin r of None \<Rightarrow> Inr None | Some g \<Rightarrow> map_sum id Some (NotificationOrigin g)) of
        Inl e \<Rightarrow> Inl e
      | Inr origin \<Rightarrow> (case all_valid NotificationApproval (nr_approvals r) of
          Inl e \<Rightarrow> Inl e
        | Inr approvals \<Rightarrow> OwnerNotification \<lparr>on_id = nr_id r, on_tenant_id = nr_tenant_id r, on_dedupe_key = nr_dedupe_key r,
            on_payload = \<lparr>nw_kind = nr_kind r, nw_text = nr_text r, nw_status = nr_status r, nw_thread_id = nr_thread_id r,
              nw_run_id = nr_run_id r, nw_origin = origin, nw_approvals = approvals\<rparr>, on_created_at = nr_created_at r\<rparr>))"

definition row_by_key :: "string \<Rightarrow> string \<Rightarrow> notifications_db \<Rightarrow> notification_row option" where
  "row_by_key t k db = sel (\<lambda>r. nr_tenant_id r = t \<and> nr_dedupe_key r = k) (owner_notifications db)"

definition row_by_id :: "string \<Rightarrow> int \<Rightarrow> notifications_db \<Rightarrow> notification_row option" where
  "row_by_id t i db = sel (\<lambda>r. nr_tenant_id r = t \<and> nr_id r = i) (owner_notifications db)"

definition new_notification :: "(string \<Rightarrow> string) \<Rightarrow> int \<Rightarrow> string \<Rightarrow> string \<Rightarrow> notification_write \<Rightarrow> timestamp \<Rightarrow> notification_row" where
  "new_notification sha i t k w now = \<lparr>nr_id = i, nr_tenant_id = t, nr_dedupe_key = k, nr_payload_hash = payload_hash sha w, nr_kind = nw_kind w,
     nr_text = nw_text w, nr_status = nw_status w, nr_thread_id = nw_thread_id w, nr_run_id = nw_run_id w, nr_origin = nw_origin w,
     nr_approvals = nw_approvals w, nr_created_at = now\<rparr>"

definition append_notification :: "(string \<Rightarrow> string) \<Rightarrow> string \<Rightarrow> string \<Rightarrow> notification_write \<Rightarrow> timestamp \<Rightarrow>
    (notifications_db, notification_error, owner_notification \<times> bool) oper" where
  "append_notification sha tenant_id dedupe_key payload now =
     checked (notif_identity tenant_id ''tenant_id'' 200) (\<lambda>tenant.
     checked (notif_identity dedupe_key ''dedupe_key'' 300) (\<lambda>key db.
       case row_by_key tenant key db of
         Some existing \<Rightarrow>
           if nr_payload_hash existing \<noteq> payload_hash sha payload
           then raises (NotificationDedupeConflictError ''notification dedupe key is bound to a different payload'') db
           else (map_sum id (\<lambda>n. (n, False)) (notification_of existing), db)
       | None \<Rightarrow> (let i = notification_seq db + 1; row = new_notification sha i tenant key payload now in
           (map_sum id (\<lambda>n. (n, True)) (notification_of row),
            db\<lparr>owner_notifications := owner_notifications db @ [row], notification_seq := i\<rparr>))))"

definition get_notification :: "string \<Rightarrow> int \<Rightarrow> notifications_db \<Rightarrow> notification_error + owner_notification" where
  "get_notification tenant_id notification_id db =
     (case notif_identity tenant_id ''tenant_id'' 200 of Inl e \<Rightarrow> Inl e | Inr tenant \<Rightarrow>
     (case notif_positive_id notification_id of Inl e \<Rightarrow> Inl e | Inr i \<Rightarrow>
     (case row_by_id tenant i db of None \<Rightarrow> Inl (NotificationNotFoundError i) | Some r \<Rightarrow> notification_of r)))"

fun notifications_of :: "notification_row list \<Rightarrow> notification_error + owner_notification list" where
  "notifications_of [] = Inr []"
| "notifications_of (r # rs) = (case notification_of r of Inl e \<Rightarrow> Inl e
     | Inr n \<Rightarrow> (case notifications_of rs of Inl e \<Rightarrow> Inl e | Inr ns \<Rightarrow> Inr (n # ns)))"

definition acked :: "string \<Rightarrow> string \<Rightarrow> int \<Rightarrow> notifications_db \<Rightarrow> bool" where
  "acked t c i db = list_ex (\<lambda>k. nk_tenant_id k = t \<and> nk_consumer_id k = c \<and> nk_notification_id k = i) (owner_notification_acks db)"

definition unacked_rows :: "string \<Rightarrow> string \<Rightarrow> int \<Rightarrow> notifications_db \<Rightarrow> notification_row list" where
  "unacked_rows t c cursor db = sort_key nr_id (filter (\<lambda>r. nr_tenant_id r = t \<and> cursor < nr_id r \<and> \<not> acked t c (nr_id r) db) (owner_notifications db))"

definition list_unacked :: "string \<Rightarrow> string \<Rightarrow> int \<Rightarrow> int \<Rightarrow> notifications_db \<Rightarrow> notification_error + owner_notification list" where
  "list_unacked tenant_id consumer_id after_id limit db =
     (case notif_identity tenant_id ''tenant_id'' 200 of Inl e \<Rightarrow> Inl e | Inr tenant \<Rightarrow>
     (case notif_identity consumer_id ''consumer_id'' 300 of Inl e \<Rightarrow> Inl e | Inr consumer \<Rightarrow>
       notifications_of (take (nat (max 1 (min limit 100))) (unacked_rows tenant consumer (max 0 after_id) db))))"

definition acknowledge :: "string \<Rightarrow> string \<Rightarrow> int \<Rightarrow> timestamp \<Rightarrow> (notifications_db, notification_error, bool) oper" where
  "acknowledge tenant_id consumer_id notification_id now =
     checked (notif_identity tenant_id ''tenant_id'' 200) (\<lambda>tenant.
     checked (notif_identity consumer_id ''consumer_id'' 300) (\<lambda>consumer.
     checked (notif_positive_id notification_id) (\<lambda>i db.
       if row_by_id tenant i db = None then raises (NotificationNotFoundError i) db
       else if acked tenant consumer i db then ok False db
       else ok True (db\<lparr>owner_notification_acks := owner_notification_acks db @
         [\<lparr>nk_tenant_id = tenant, nk_consumer_id = consumer, nk_notification_id = i, nk_acked_at = now\<rparr>]\<rparr>))))"

section \<open>Service\<close>

definition publish :: "(string \<Rightarrow> string) \<Rightarrow> timestamp \<Rightarrow> string \<Rightarrow> string \<Rightarrow> notification_write \<Rightarrow> (notifications_db, notification_error, owner_notification) oper" where
  "publish sha now tenant_id dedupe_key notification db = map_prod (map_sum id fst) id (append_notification sha tenant_id dedupe_key notification now db)"

text \<open>
  The polling loop of \<open>wait\<close>. Round \<open>i\<close> finds the database \<open>store i\<close> and the clock \<open>tick i\<close>, in
  one unit of time; between two rounds the loop sleeps for \<open>sleep_time\<close>. \<open>None\<close> means that the rounds were
  not enough.
\<close>

fun wait_loop :: "nat \<Rightarrow> nat \<Rightarrow> (nat \<Rightarrow> notifications_db) \<Rightarrow> (nat \<Rightarrow> int) \<Rightarrow> int \<Rightarrow> string \<Rightarrow> string \<Rightarrow> int \<Rightarrow> int \<Rightarrow>
    (notification_error + owner_notification list) option" where
  "wait_loop 0 i store tick deadline t c after limit = None"
| "wait_loop (Suc rounds) i store tick deadline t c after limit =
     (case list_unacked t c after limit (store i) of
        Inl e \<Rightarrow> Some (Inl e)
      | Inr ns \<Rightarrow> if ns \<noteq> [] \<or> deadline \<le> tick i then Some (Inr ns)
          else wait_loop rounds (Suc i) store tick deadline t c after limit)"

definition sleep_time :: "int \<Rightarrow> int \<Rightarrow> int \<Rightarrow> int" where
  "sleep_time interval deadline now = min interval (max 0 (deadline - now))"

definition wait_deadline :: "int \<Rightarrow> int \<Rightarrow> int \<Rightarrow> int" where
  "wait_deadline second start wait_seconds = start + max 0 (min wait_seconds (30 * second))"

section \<open>Invariant\<close>

definition row_notification :: "notification_row \<Rightarrow> owner_notification" where
  "row_notification r = \<lparr>on_id = nr_id r, on_tenant_id = nr_tenant_id r, on_dedupe_key = nr_dedupe_key r,
     on_payload = \<lparr>nw_kind = nr_kind r, nw_text = nr_text r, nw_status = nr_status r, nw_thread_id = nr_thread_id r,
       nw_run_id = nr_run_id r, nw_origin = nr_origin r, nw_approvals = nr_approvals r\<rparr>, on_created_at = nr_created_at r\<rparr>"

definition row_key :: "notification_row \<Rightarrow> string \<times> string" where
  "row_key r = (nr_tenant_id r, nr_dedupe_key r)"

definition notif_inv :: "notifications_db \<Rightarrow> bool" where
  "notif_inv db = (0 \<le> notification_seq db \<and> sorted_wrt (<) (map nr_id (owner_notifications db)) \<and>
     distinct (map row_key (owner_notifications db)) \<and>
     (\<forall>r \<in> set (owner_notifications db). 1 \<le> nr_id r \<and> nr_id r \<le> notification_seq db \<and> notification_of r = Inr (row_notification r)))"

lemma notif_invD:
  assumes "notif_inv db"
  shows "0 \<le> notification_seq db" "sorted_wrt (<) (map nr_id (owner_notifications db))" "distinct (map row_key (owner_notifications db))"
    "r \<in> set (owner_notifications db) \<Longrightarrow> 1 \<le> nr_id r" "r \<in> set (owner_notifications db) \<Longrightarrow> nr_id r \<le> notification_seq db"
    "r \<in> set (owner_notifications db) \<Longrightarrow> notification_of r = Inr (row_notification r)"
  using assms unfolding notif_inv_def by blast+

text \<open>A payload as its constructors leave it.\<close>

definition build_write :: "notification_write \<Rightarrow> validation_error + notification_write" where
  "build_write w = (case (case nw_origin w of None \<Rightarrow> Inr None | Some g \<Rightarrow> map_sum id Some (NotificationOrigin g)) of
     Inl e \<Rightarrow> Inl e
   | Inr origin \<Rightarrow> (case all_valid NotificationApproval (nw_approvals w) of
       Inl e \<Rightarrow> Inl e | Inr approvals \<Rightarrow> NotificationWrite (w\<lparr>nw_origin := origin, nw_approvals := approvals\<rparr>)))"

lemma norigin_again: "NotificationOrigin g = Inr h \<Longrightarrow> NotificationOrigin h = Inr h"
  unfolding NotificationOrigin_def by (rule construct_again) (auto simp: norigin_norm_def option.map_comp comp_def)

lemma napproval_again: "NotificationApproval g = Inr h \<Longrightarrow> NotificationApproval h = Inr h"
  unfolding NotificationApproval_def by (rule construct_again) (auto simp: napproval_norm_def)

lemma nwrite_norm_idem [simp]: "nwrite_norm (nwrite_norm w) = nwrite_norm w"
  by (simp add: nwrite_norm_def option.map_comp comp_def)

lemma all_valid_again: "all_valid NotificationApproval xs = Inr ys \<Longrightarrow> all_valid NotificationApproval ys = Inr ys"
  by (induction xs arbitrary: ys) (auto dest: napproval_again split: sum.splits)

lemma notif_identityD:
  "notif_identity v l n = Inr s \<Longrightarrow> s = py_strip v \<and> s \<noteq> [] \<and> length s \<le> n"
  by (auto simp: notif_identity_def Let_def split: if_splits)

lemma notif_identity_again: "notif_identity v l n = Inr s \<Longrightarrow> notif_identity s l n = Inr s"
  by (auto simp: notif_identity_def Let_def split: if_splits)

lemma nwrite_eta: "\<lparr>nw_kind = nw_kind w, nw_text = nw_text w, nw_status = nw_status w, nw_thread_id = nw_thread_id w,
     nw_run_id = nw_run_id w, nw_origin = nw_origin w, nw_approvals = nw_approvals w\<rparr> = w"
  by (cases w) simp

lemma built_reads_back:
  assumes w: "build_write w0 = Inr w" and t: "notif_identity t0 l 200 = Inr t" and k: "notif_identity k0 l' 300 = Inr k" and i: "1 \<le> i"
  shows "notification_of (new_notification sha i t k w now) = Inr (row_notification (new_notification sha i t k w now))"
proof -
  from w obtain g as where g: "(case nw_origin w0 of None \<Rightarrow> Inr None | Some g \<Rightarrow> map_sum id Some (NotificationOrigin g)) = Inr g"
    and a: "all_valid NotificationApproval (nw_approvals w0) = Inr as" and n: "NotificationWrite (w0\<lparr>nw_origin := g, nw_approvals := as\<rparr>) = Inr w"
    by (auto simp: build_write_def split: sum.splits)
  note d = constructD [OF n [unfolded NotificationWrite_def]]
  have go: "nw_origin w = g" "nw_approvals w = as" using d by (simp_all add: nwrite_norm_def)
  have "(case g of None \<Rightarrow> Inr None | Some g \<Rightarrow> map_sum id Some (NotificationOrigin g)) = Inr g"
  proof (cases "nw_origin w0")
    case (Some g0)
    then obtain h where "NotificationOrigin g0 = Inr h" "g = Some h" using g by (cases "NotificationOrigin g0") auto
    with norigin_again show ?thesis by simp
  qed (use g in auto)
  moreover have "all_valid NotificationApproval as = Inr as" by (rule all_valid_again [OF a])
  moreover have norm: "nwrite_norm w = w" using d nwrite_norm_idem by metis
  let ?n = "\<lparr>on_id = i, on_tenant_id = t, on_dedupe_key = k, on_payload = w, on_created_at = now\<rparr>"
  have row: "row_notification (new_notification sha i t k w now) = ?n" by (simp add: row_notification_def new_notification_def)
  have tk: "py_strip t = t" "py_strip k = k" "sized 1 200 t" "sized 1 300 k"
    using notif_identityD [OF t] notif_identityD [OF k] by (auto simp: sized_def Suc_le_eq)
  have f: "nwrite_fields w = []" "approvals_require_run w = None" using d by blast+
  have "OwnerNotification ?n = Inr ?n"
    using f norm tk i by (simp add: OwnerNotification_def construct_def owner_norm_def owner_fields_def Let_def)
  ultimately show ?thesis unfolding row by (simp add: notification_of_def new_notification_def go [symmetric] nwrite_eta)
qed

lemma inv_append:
  assumes inv: "notif_inv db" and r: "nr_id r = notification_seq db + 1" "notification_of r = Inr (row_notification r)" "row_key r \<notin> row_key ` set (owner_notifications db)"
  shows "notif_inv (db\<lparr>owner_notifications := owner_notifications db @ [r], notification_seq := notification_seq db + 1\<rparr>)"
proof -
  note d = notif_invD [OF inv]
  have "sorted_wrt (<) (map nr_id (owner_notifications db) @ [nr_id r])"
    using d(2,5) r(1) by (fastforce simp: sorted_wrt_append)
  then show ?thesis using d(1,3) d(4,5,6) r unfolding notif_inv_def by (fastforce simp: le_Suc_eq)
qed

lemma row_by_key_None: "row_by_key t k db = None \<longleftrightarrow> (t, k) \<notin> row_key ` set (owner_notifications db)"
  by (auto simp: row_by_key_def sel_None row_key_def)

lemma row_by_key_SomeD: "row_by_key t k db = Some r \<Longrightarrow> r \<in> set (owner_notifications db) \<and> row_key r = (t, k)"
  unfolding row_by_key_def by (drule sel_SomeD) (simp add: row_key_def)

lemma row_by_key_mem: "notif_inv db \<Longrightarrow> r \<in> set (owner_notifications db) \<Longrightarrow> row_by_key (nr_tenant_id r) (nr_dedupe_key r) db = Some r"
  unfolding row_by_key_def by (rule sel_unique [OF notif_invD(3)]) (simp_all add: row_key_def)

lemma row_by_id_mem: "notif_inv db \<Longrightarrow> r \<in> set (owner_notifications db) \<Longrightarrow> row_by_id (nr_tenant_id r) (nr_id r) db = Some r"
  unfolding row_by_id_def by (rule sel_unique [where g = nr_id]) (use notif_invD(2) in \<open>auto simp: strict_sorted_iff\<close>)

text \<open>What appending does: a repetition returns the stored row, another payload is refused, a new key adds one row.\<close>

lemma append_step:
  assumes inv: "notif_inv db" and w: "build_write w0 = Inr w" and c: "append_notification sha t0 k0 w now db = (x, db')"
  shows "(\<exists>e. x = Inl e \<and> db' = db) \<or>
    (\<exists>t k r. notif_identity t0 ''tenant_id'' 200 = Inr t \<and> notif_identity k0 ''dedupe_key'' 300 = Inr k \<and>
       row_by_key t k db' = Some r \<and> nr_payload_hash r = payload_hash sha w \<and> notif_inv db' \<and>
       (x = Inr (row_notification r, False) \<and> db' = db \<or>
        x = Inr (row_notification r, True) \<and> r = new_notification sha (notification_seq db + 1) t k w now \<and> row_by_key t k db = None \<and>
          db' = db\<lparr>owner_notifications := owner_notifications db @ [r], notification_seq := notification_seq db + 1\<rparr>))"
proof (insert c [unfolded append_notification_def], (erule checked_cases, blast)+, goal_cases)
  case (1 t k)
  show ?case
  proof (cases "row_by_key t k db")
    case None
    let ?r = "new_notification sha (notification_seq db + 1) t k w now"
    let ?db = "db\<lparr>owner_notifications := owner_notifications db @ [?r], notification_seq := notification_seq db + 1\<rparr>"
    have n: "notification_of ?r = Inr (row_notification ?r)"
      by (rule built_reads_back [OF w 1(1,2)]) (use notif_invD(1) [OF inv] in simp)
    have key: "row_key ?r = (t, k)" "nr_id ?r = notification_seq db + 1" "nr_payload_hash ?r = payload_hash sha w"
      by (simp_all add: row_key_def new_notification_def)
    have inv': "notif_inv ?db" by (rule inv_append [OF inv key(2) n]) (use None in \<open>simp add: row_by_key_None key(1)\<close>)
    have "row_by_key (nr_tenant_id ?r) (nr_dedupe_key ?r) ?db = Some ?r" by (rule row_by_key_mem [OF inv']) simp
    then have "row_by_key t k ?db = Some ?r" by (simp add: new_notification_def)
    moreover have "x = Inr (row_notification ?r, True)" "db' = ?db" using 1(3) None n by (auto simp: Let_def)
    ultimately show ?thesis using 1(1,2) inv' key None by blast
  next
    case (Some r)
    have r: "notification_of r = Inr (row_notification r)" using notif_invD(6) [OF inv] row_by_key_SomeD [OF Some] by blast
    show ?thesis
    proof (cases "nr_payload_hash r = payload_hash sha w")
      case True
      then have "x = Inr (row_notification r, False)" "db' = db" using 1(3) Some r by auto
      with 1(1,2) Some True inv show ?thesis by blast
    next
      case False
      then show ?thesis using 1(3) Some by auto
    qed
  qed
qed

section \<open>Calls\<close>

datatype notif_call =
    Publish string string notification_write timestamp
  | Acknowledge string string int timestamp

datatype notif_result = Published owner_notification bool | Acknowledged bool

fun notif_exec :: "(string \<Rightarrow> string) \<Rightarrow> notif_call \<Rightarrow> (notifications_db, notification_error, notif_result) oper" where
  "notif_exec sha (Publish t k w now) db = checked (map_sum NotificationValidationError id (build_write w))
     (\<lambda>w db. map_prod (map_sum id (\<lambda>(n, c). Published n c)) id (append_notification sha t k w now db)) db"
| "notif_exec sha (Acknowledge t c i now) db = map_prod (map_sum id Acknowledged) id (acknowledge t c i now db)"

definition notif_grows :: "notifications_db \<Rightarrow> notifications_db \<Rightarrow> bool" where
  "notif_grows db db' = ((\<exists>new. owner_notifications db' = owner_notifications db @ new) \<and>
     (\<exists>new. owner_notification_acks db' = owner_notification_acks db @ new))"

lemma acknowledge_step:
  assumes "acknowledge t0 c0 i now db = (x, db')"
  shows "owner_notifications db' = owner_notifications db \<and> notification_seq db' = notification_seq db \<and> notif_grows db db'"
  using assms by (auto simp: acknowledge_def checked_def notif_grows_def split: sum.splits if_splits)

lemma notif_exec_step:
  assumes inv: "notif_inv db" and c: "notif_exec sha c db = (x, db')"
  shows "notif_inv db' \<and> notif_grows db db'"
proof (cases c)
  case (Publish t k w0 now)
  show ?thesis
  proof (cases "build_write w0")
    case (Inl e)
    with c Publish inv show ?thesis by (auto simp: notif_grows_def)
  next
    case (Inr w)
    obtain y where y: "append_notification sha t k w now db = (y, db')"
      using c Publish Inr by (cases "append_notification sha t k w now db") auto
    from append_step [OF inv Inr y] show ?thesis
      by (elim disjE exE conjE) (simp_all add: notif_grows_def inv)
  qed
next
  case (Acknowledge t k i now)
  with c obtain y where y: "acknowledge t k i now db = (y, db')" by (cases "acknowledge t k i now db") auto
  from acknowledge_step [OF y] inv show ?thesis by (simp add: notif_inv_def)
qed

interpretation notif_calls: call_system "notif_exec sha" empty_notifications notif_inv for sha
proof
  show "notif_inv empty_notifications" by (simp add: notif_inv_def empty_notifications_def)
  show "notif_inv (snd (notif_exec sha c db))" if "notif_inv db" for db c
    using notif_exec_step [OF that, of sha c] by (cases "notif_exec sha c db") simp
qed

lemma notif_run_grows: "notif_inv db \<Longrightarrow> notif_grows db (snd (run_calls (notif_exec sha) cs db))"
proof (induction cs arbitrary: db)
  case (Cons c cs)
  obtain x db1 where c: "notif_exec sha c db = (x, db1)" by fastforce
  note s = notif_exec_step [OF Cons.prems c]
  from Cons.IH [of db1] s have "notif_grows db1 (snd (run_calls (notif_exec sha) cs db1))" by blast
  with s c show ?case by (auto simp: notif_grows_def Let_def)
qed (simp add: notif_grows_def)

section \<open>Reading page by page\<close>

text \<open>The reference: all unacknowledged notifications of a tenant in the order of writing.\<close>

definition unacked_reference :: "string \<Rightarrow> string \<Rightarrow> notifications_db \<Rightarrow> owner_notification list" where
  "unacked_reference t c db = map row_notification (filter (\<lambda>r. nr_tenant_id r = t \<and> \<not> acked t c (nr_id r) db) (owner_notifications db))"

text \<open>The reader: the cursor moves to the last notification of each page until a page is empty.\<close>

fun read_pages :: "nat \<Rightarrow> string \<Rightarrow> string \<Rightarrow> int \<Rightarrow> int \<Rightarrow> notifications_db \<Rightarrow> notification_error + owner_notification list" where
  "read_pages 0 t c after limit db = Inr []"
| "read_pages (Suc pages) t c after limit db = (case list_unacked t c after limit db of
     Inl e \<Rightarrow> Inl e
   | Inr [] \<Rightarrow> Inr []
   | Inr ns \<Rightarrow> map_sum id (\<lambda>rest. ns @ rest) (read_pages pages t c (on_id (last ns)) limit db))"

lemma notifications_of_ok: "(\<And>r. r \<in> set rs \<Longrightarrow> notification_of r = Inr (row_notification r)) \<Longrightarrow> notifications_of rs = Inr (map row_notification rs)"
  by (induction rs) auto

lemma sorted_filter_id: "sorted_wrt (<) (map nr_id rs) \<Longrightarrow> sort_key nr_id (filter P rs) = filter P rs"
  by (rule sort_key_id_if_sorted) (rule sorted_filter [OF strict_sorted_imp_sorted])

lemma page_split:
  assumes "sorted_wrt (<) (map nr_id xs)" "0 < n" "xs \<noteq> []"
  shows "filter (\<lambda>r. nr_id (last (take n xs)) < nr_id r) xs = drop n xs"
proof -
  obtain ys l where a: "take n xs = ys @ [l]" using assms(2,3) by (cases "take n xs" rule: rev_cases) auto
  have xs: "xs = ys @ l # drop n xs" using a append_take_drop_id [of n xs] by simp
  have "sorted_wrt (<) (map nr_id ys @ nr_id l # map nr_id (drop n xs))" using assms(1) by (subst (asm) xs) simp
  then have "\<forall>r \<in> set ys. nr_id r < nr_id l" "\<forall>r \<in> set (drop n xs). nr_id l < nr_id r" by (auto simp: sorted_wrt_append)
  then have "filter (\<lambda>r. nr_id l < nr_id r) ys = []" "filter (\<lambda>r. nr_id l < nr_id r) (drop n xs) = drop n xs"
    by (auto simp: filter_empty_conv filter_id_conv)
  then have "filter (\<lambda>r. nr_id l < nr_id r) (ys @ l # drop n xs) = drop n xs" by simp
  with a xs show ?thesis by simp
qed

lemma read_pages_rest:
  assumes inv: "notif_inv db" and t: "notif_identity t0 ''tenant_id'' 200 = Inr t" and c: "notif_identity c0 ''consumer_id'' 300 = Inr c"
    and "0 \<le> a" "length (filter (\<lambda>r. nr_tenant_id r = t \<and> a < nr_id r \<and> \<not> acked t c (nr_id r) db) (owner_notifications db)) < pages"
  shows "read_pages pages t0 c0 a limit db =
    Inr (map row_notification (filter (\<lambda>r. nr_tenant_id r = t \<and> a < nr_id r \<and> \<not> acked t c (nr_id r) db) (owner_notifications db)))"
  using assms(4,5)
proof (induction pages arbitrary: a)
  case (Suc pages)
  let ?P = "\<lambda>a r. nr_tenant_id r = t \<and> a < nr_id r \<and> \<not> acked t c (nr_id r) db"
  let ?xs = "filter (?P a) (owner_notifications db)" and ?n = "nat (max 1 (min limit 100))"
  note s = notif_invD(2) [OF inv]
  have xs: "sorted_wrt (<) (map nr_id ?xs)" using s by (simp add: sorted_wrt_map sorted_wrt_filter)
  have page: "list_unacked t0 c0 a limit db = Inr (map row_notification (take ?n ?xs))"
  proof -
    have "notifications_of (take ?n ?xs) = Inr (map row_notification (take ?n ?xs))"
      by (rule notifications_of_ok) (use notif_invD(6) [OF inv] in \<open>auto dest: in_set_takeD\<close>)
    moreover have "unacked_rows t c (max 0 a) db = ?xs"
      unfolding unacked_rows_def using sorted_filter_id [OF s] Suc.prems(1) by (simp add: max_def)
    ultimately show ?thesis by (simp add: list_unacked_def t c)
  qed
  show ?case
  proof (cases "?xs = []")
    case True
    then show ?thesis using page by simp
  next
    case False
    let ?a = "nr_id (last (take ?n ?xs))"
    have ne: "take ?n ?xs \<noteq> []" using False by simp
    have mem: "last (take ?n ?xs) \<in> set ?xs" using last_in_set [OF ne] in_set_takeD by fast
    have "filter (?P ?a) (owner_notifications db) = filter (\<lambda>r. ?a < nr_id r) ?xs"
      unfolding filter_filter using mem by (intro filter_cong) auto
    also have "\<dots> = drop ?n ?xs" by (rule page_split [OF xs _ False]) simp
    finally have rest: "filter (?P ?a) (owner_notifications db) = drop ?n ?xs" .
    have len: "length (drop ?n ?xs) < pages" using Suc.prems(2) False by (cases ?xs) auto
    have "read_pages pages t0 c0 ?a limit db = Inr (map row_notification (drop ?n ?xs))"
      using Suc.IH [of ?a] mem Suc.prems(1) len rest by auto
    moreover have "on_id (last (map row_notification (take ?n ?xs))) = ?a" using ne by (simp add: last_map row_notification_def)
    moreover obtain n ns where "map row_notification (take ?n ?xs) = n # ns" using ne by (cases "take ?n ?xs") auto
    moreover have "map row_notification ?xs = map row_notification (take ?n ?xs) @ map row_notification (drop ?n ?xs)"
      by (simp flip: map_append)
    ultimately show ?thesis using page by simp
  qed
qed simp

section \<open>Waiting\<close>

lemma wait_loop_ends:
  assumes interval: "0 < interval" and sleep: "\<And>j. tick j + sleep_time interval deadline (tick j) \<le> tick (Suc j)"
    and "deadline - tick i \<le> int n * interval"
  shows "\<exists>r. wait_loop (Suc n) i store tick deadline t c after limit = Some r"
  using assms(3)
proof (induction n arbitrary: i)
  case 0
  then show ?case by (simp split: sum.splits)
next
  case (Suc n)
  have "deadline - tick (Suc i) \<le> int n * interval"
  proof (cases "deadline - tick i \<le> interval")
    case True
    then have "deadline \<le> tick (Suc i)" using sleep [of i] by (simp add: sleep_time_def min_def max_def split: if_splits)
    moreover have "0 \<le> int n * interval" using interval by simp
    ultimately show ?thesis by linarith
  next
    case False
    then have "tick i + interval \<le> tick (Suc i)" using sleep [of i] interval by (simp add: sleep_time_def min_def max_def split: if_splits)
    with Suc.prems show ?thesis by (simp add: algebra_simps)
  qed
  from Suc.IH [OF this] obtain r where "wait_loop (Suc n) (Suc i) store tick deadline t c after limit = Some r" by blast
  then show ?case by (auto split: sum.splits)
qed

section \<open>Published notifications\<close>

lemma published_stays:
  assumes inv: "notif_inv db" and w: "build_write w = Inr v" and c: "append_notification sha t k v now db = (Inr (n, b), db1)"
    and db2: "db2 = snd (run_calls (notif_exec sha) cs2 db1)" and same: "py_strip t' = py_strip t" "py_strip k' = py_strip k"
  shows "\<exists>ts r. notif_identity t ''tenant_id'' 200 = Inr ts \<and> r \<in> set (owner_notifications db2) \<and> nr_tenant_id r = ts \<and> n = row_notification r \<and>
    notif_inv db1 \<and> notif_inv db2 \<and> (b \<longrightarrow> on_payload n = v) \<and> (row_by_key ts (py_strip k) db = None \<longrightarrow> b) \<and>
    get_notification t (on_id n) db2 = Inr n \<and>
    append_notification sha t' k' v' now' db2 =
      (if payload_hash sha v' = payload_hash sha v then (Inr (n, False), db2)
       else (Inl (NotificationDedupeConflictError ''notification dedupe key is bound to a different payload''), db2))"
proof -
  from append_step [OF inv w c] obtain ts ks r where
    ids: "notif_identity t ''tenant_id'' 200 = Inr ts" "notif_identity k ''dedupe_key'' 300 = Inr ks" and
    r: "row_by_key ts ks db1 = Some r" "nr_payload_hash r = payload_hash sha v" "n = row_notification r" and inv1: "notif_inv db1" and
    new: "b \<longrightarrow> r = new_notification sha (notification_seq db + 1) ts ks v now" "row_by_key ts ks db = None \<longrightarrow> b" by auto
  have ks: "py_strip k = ks" using notif_identityD [OF ids(2)] by simp
  have mem1: "r \<in> set (owner_notifications db1)" "nr_tenant_id r = ts" "nr_dedupe_key r = ks"
    using row_by_key_SomeD [OF r(1)] by (auto simp: row_key_def)
  have inv2: "notif_inv db2" unfolding db2 by (rule notif_calls.run_inv [OF inv1])
  have mem2: "r \<in> set (owner_notifications db2)"
    using mem1(1) notif_run_grows [OF inv1, of sha cs2] unfolding db2 by (auto simp: notif_grows_def)
  have read: "notification_of r = Inr n" using notif_invD(6) [OF inv2 mem2] r(3) by simp
  have row: "row_by_key ts ks db2 = Some r" using row_by_key_mem [OF inv2 mem2] mem1(2,3) by simp
  have ids': "notif_identity t' ''tenant_id'' 200 = Inr ts" "notif_identity k' ''dedupe_key'' 300 = Inr ks"
    using ids same by (simp_all add: notif_identity_def)
  have "on_id n = nr_id r" using r(3) by (simp add: row_notification_def)
  then have get: "get_notification t (on_id n) db2 = Inr n"
    using ids(1) notif_invD(4) [OF inv2 mem2] row_by_id_mem [OF inv2 mem2] mem1(2) read
    by (simp add: get_notification_def notif_positive_id_def)
  have "on_payload n = v" if b
    using r(3) new(1) that by (simp add: row_notification_def new_notification_def nwrite_eta)
  moreover have "append_notification sha t' k' v' now' db2 =
      (if payload_hash sha v' = payload_hash sha v then (Inr (n, False), db2)
       else (Inl (NotificationDedupeConflictError ''notification dedupe key is bound to a different payload''), db2))"
    by (simp add: append_notification_def ids' row r(2) read)
  ultimately show ?thesis unfolding ks using ids(1) mem2 mem1(2) r(3) inv1 inv2 new(2) get by (intro exI [of _ ts] exI [of _ r]) simp
qed

section \<open>Properties\<close>

text \<open>
  A notification is published once and never changes. When publishing under a key succeeded, the
  notification stays readable as it was returned; publishing under the same key again, after any calls,
  returns the same notification and writes nothing if the payload is the same (by its hash), and is
  refused if it is another one.
\<close>

theorem notifications_are_published_once:
  assumes "db = snd (run_calls (notif_exec sha) cs empty_notifications)" "build_write w = Inr v" "build_write w' = Inr v'"
    and "notif_exec sha (Publish t k w now) db = (Inr (Published n b), db1)" "db2 = snd (run_calls (notif_exec sha) cs2 db1)"
    and "py_strip t' = py_strip t" "py_strip k' = py_strip k"
  shows "(b \<longrightarrow> on_payload n = v) \<and> get_notification t (on_id n) db2 = Inr n \<and>
    notif_exec sha (Publish t' k' w' now') db2 =
      (if payload_hash sha v' = payload_hash sha v then (Inr (Published n False), db2)
       else (Inl (NotificationDedupeConflictError ''notification dedupe key is bound to a different payload''), db2))"
proof -
  have inv: "notif_inv db" unfolding assms(1) by (rule notif_calls.run_start_inv)
  obtain y where y: "append_notification sha t k v now db = (y, db1)" "map_sum id (\<lambda>(n, c). Published n c) y = Inr (Published n b)"
    using assms(2,4) by (cases "append_notification sha t k v now db") auto
  have "y = Inr (n, b)" using y(2) by (cases y) auto
  with y(1) have "append_notification sha t k v now db = (Inr (n, b), db1)" by simp
  from published_stays [OF inv assms(2) this assms(5-7), where v' = v' and now' = now'] show ?thesis by (auto simp: assms(3))
qed

definition example_notification :: notification_write where
  "example_notification = \<lparr>nw_kind = ''run.completed'', nw_text = ''done'', nw_status = ''info'', nw_thread_id = None,
     nw_run_id = Some ''r1'', nw_origin = None, nw_approvals = []\<rparr>"

definition example_publish :: notif_call where
  "example_publish = Publish ''t'' ''k'' example_notification (At 1)"

lemma example_build: "build_write example_notification = Inr example_notification"
  by (simp add: build_write_def NotificationWrite_def construct_def nwrite_norm_def nwrite_fields_def approvals_require_run_def example_notification_def
      bad_def notification_name_def name_of_def is_lower_def is_digit_def sized_def opt_ok_def safe_text_def has_control_def py_strip_def py_isspace_def)

lemma example_published:
  "\<exists>n db1. notif_exec (\<lambda>s. s) example_publish empty_notifications = (Inr (Published n True), db1) \<and> on_id n = 1"
proof -
  have i: "notif_identity ''t'' ''tenant_id'' 200 = Inr ''t''" "notif_identity ''k'' ''dedupe_key'' 300 = Inr ''k''"
    by (simp_all add: notif_identity_def py_strip_def py_isspace_def has_control_def)
  have inv: "notif_inv empty_notifications" by (simp add: notif_inv_def empty_notifications_def)
  obtain x db1 where a: "append_notification (\<lambda>s. s) ''t'' ''k'' example_notification (At 1) empty_notifications = (x, db1)" by fastforce
  let ?r = "new_notification (\<lambda>s. s) 1 ''t'' ''k'' example_notification (At 1)"
  have "notification_of ?r = Inr (row_notification ?r)" by (rule built_reads_back [OF example_build i]) simp
  then show ?thesis
    by (simp add: example_publish_def example_build append_notification_def i row_by_key_def empty_notifications_def Let_def)
      (simp add: row_notification_def new_notification_def)
qed

theorem notifications_are_published_once_witness:
  "\<exists>n db1. notif_exec (\<lambda>s. s) example_publish empty_notifications = (Inr (Published n True), db1) \<and>
     notif_exec (\<lambda>s. s) example_publish (snd (run_calls (notif_exec (\<lambda>s. s)) [Acknowledge ''t'' ''c'' 1 (At 2)] db1)) =
       (Inr (Published n False), snd (run_calls (notif_exec (\<lambda>s. s)) [Acknowledge ''t'' ''c'' 1 (At 2)] db1))"
proof -
  obtain n db1 where p: "notif_exec (\<lambda>s. s) (Publish ''t'' ''k'' example_notification (At 1)) empty_notifications = (Inr (Published n True), db1)"
    using example_published unfolding example_publish_def by blast
  have e: "empty_notifications = snd (run_calls (notif_exec (\<lambda>s. s)) [] empty_notifications)" by simp
  from notifications_are_published_once [OF e example_build example_build p refl refl refl, of "[Acknowledge ''t'' ''c'' 1 (At 2)]" "At 1"] p
  show ?thesis unfolding example_publish_def by auto
qed

text \<open>
  C12: Reading page by page gives exactly the unacknowledged notifications. A consumer that starts at the
  beginning and moves its cursor to the last notification of each page, whatever page size it asks
  for, receives the list that the plain definition gives: every notification of the tenant it has not
  acknowledged, once, in the order of writing.
\<close>

theorem paging_reads_every_notification:
  assumes "db = snd (run_calls (notif_exec sha) cs empty_notifications)"
    and "notif_identity t ''tenant_id'' 200 = Inr tenant" "notif_identity c ''consumer_id'' 300 = Inr consumer"
    and "length (owner_notifications db) < pages"
  shows "read_pages pages t c 0 limit db = Inr (unacked_reference tenant consumer db)"
proof -
  have inv: "notif_inv db" unfolding assms(1) by (rule notif_calls.run_start_inv)
  let ?P = "\<lambda>r. nr_tenant_id r = tenant \<and> 0 < nr_id r \<and> \<not> acked tenant consumer (nr_id r) db"
  have "length (filter ?P (owner_notifications db)) < pages" using assms(4) length_filter_le le_less_trans by blast
  then have "read_pages pages t c 0 limit db = Inr (map row_notification (filter ?P (owner_notifications db)))"
    by (intro read_pages_rest [OF inv assms(2,3)]) simp
  moreover have "filter ?P (owner_notifications db) = filter (\<lambda>r. nr_tenant_id r = tenant \<and> \<not> acked tenant consumer (nr_id r) db) (owner_notifications db)"
    using notif_invD(4) [OF inv] by (intro filter_cong) (force dest: int_one_le_iff_zero_less [THEN iffD1])+
  ultimately show ?thesis by (simp add: unacked_reference_def)
qed

theorem paging_reads_every_notification_witness:
  "\<exists>n. read_pages 5 ''t'' ''c'' 0 1 (snd (run_calls (notif_exec (\<lambda>s. s)) [example_publish] empty_notifications)) = Inr [n]"
proof -
  let ?db = "snd (run_calls (notif_exec (\<lambda>s. s)) [example_publish] empty_notifications)"
  have i: "notif_identity ''t'' ''tenant_id'' 200 = Inr ''t''" "notif_identity ''k'' ''dedupe_key'' 300 = Inr ''k''" "notif_identity ''c'' ''consumer_id'' 300 = Inr ''c''"
    by (simp_all add: notif_identity_def py_strip_def py_isspace_def has_control_def)
  have db: "owner_notifications ?db = [new_notification (\<lambda>s. s) 1 ''t'' ''k'' example_notification (At 1)]" "owner_notification_acks ?db = []"
    by (simp_all add: example_publish_def example_build append_notification_def i row_by_key_def empty_notifications_def Let_def)
  have "length (owner_notifications ?db) < 5" unfolding db(1) by simp
  from paging_reads_every_notification [OF refl i(1,3) this, of 1]
  have "read_pages 5 ''t'' ''c'' 0 1 ?db = Inr (unacked_reference ''t'' ''c'' ?db)" .
  moreover have "acked ''t'' ''c'' 1 ?db = False" unfolding acked_def db(2) by simp
  then have "unacked_reference ''t'' ''c'' ?db = [row_notification (new_notification (\<lambda>s. s) 1 ''t'' ''k'' example_notification (At 1))]"
    unfolding unacked_reference_def db(1) by (simp add: new_notification_def)
  ultimately have "read_pages 5 ''t'' ''c'' 0 1 ?db = Inr [row_notification (new_notification (\<lambda>s. s) 1 ''t'' ''k'' example_notification (At 1))]" by (rule trans [OF _ arg_cong [where f = Inr]])
  then show ?thesis by (rule exI)
qed

text \<open>
  C38: Waiting ends. With a positive poll interval and a clock that a sleep advances by at least the
  requested time, the loop returns within one round more than the intervals that fit into thirty
  seconds, however long the caller asked to wait and whatever the other components write meanwhile.
\<close>

theorem waiting_ends:
  assumes "0 < interval" "0 \<le> second" "\<forall>i. tick i + sleep_time interval deadline (tick i) \<le> tick (Suc i)"
    and "deadline = wait_deadline second start wait_seconds" "start \<le> tick 0" "30 * second \<le> int n * interval"
  shows "\<exists>r. wait_loop (Suc n) 0 store tick deadline t c after limit = Some r"
proof (rule wait_loop_ends [OF assms(1)])
  show "tick j + sleep_time interval deadline (tick j) \<le> tick (Suc j)" for j using assms(3) by blast
  have "deadline \<le> start + 30 * second" using assms(2,4) by (simp add: wait_deadline_def)
  with assms(5,6) show "deadline - tick 0 \<le> int n * interval" by linarith
qed

theorem waiting_ends_witness:
  "\<exists>r. wait_loop (Suc 120) 0 (\<lambda>_. empty_notifications) (\<lambda>i. 250 * int i) (wait_deadline 1000 0 60000) ''t'' ''c'' 0 100 = Some r"
  by (rule waiting_ends [where interval = 250 and second = 1000 and start = 0 and wait_seconds = 60000])
    (simp_all add: sleep_time_def wait_deadline_def algebra_simps)

end
