(* ===== verification/NotificationSinks.thy ===== *)
theory NotificationSinks
  imports Notifications TriggerDispatcher
begin

text \<open>
  \<^verbatim>\<open>notifications/sinks.py\<close>: how the end of a background run becomes an owner notification. The sink
  for trigger results is the delivery callback of the dispatcher of \<^verbatim>\<open>TriggerDispatcher.thy\<close>, which hands a
  result over until the callback returns; the loop that repeats the drain is
  \<open>_drain_deliveries_on_start\<close> of \<^verbatim>\<open>specs/dispatcher.py\<close>. The sinks for deployment events, which format
  arbitrary JSON values, are not modelled.
\<close>

section \<open>Trigger results\<close>

definition or_else :: "string \<Rightarrow> string \<Rightarrow> string" where
  "or_else s t = (if s = [] then t else s)"

definition sink_approval :: "agent_approval \<Rightarrow> notification_approval" where
  "sink_approval a = \<lparr>na_approval_id = ap_id a, na_tool_name = or_else (ap_tool_name a) ''action'',
     na_description = or_else (ap_description a) ''Approval required.'',
     na_allowed_decisions = filter (\<lambda>d. d \<in> {''approve'', ''edit'', ''reject''}) (ap_allowed_decisions a)\<rparr>"

definition pending_approvals :: "run_snapshot \<Rightarrow> validation_error + notification_approval list" where
  "pending_approvals s = all_valid NotificationApproval (map sink_approval (filter (\<lambda>a. ap_status a = ''pending'') (sn_approvals s)))"

definition result_kind :: "run_snapshot \<Rightarrow> string" where
  "result_kind s = (if sn_status s = ''interrupted'' then ''approval.required''
     else if sn_status s = ''completed'' then ''run.completed'' else ''run.failed'')"

definition result_text :: "trigger_spec_write revision \<Rightarrow> run_snapshot \<Rightarrow> bool \<Rightarrow> string" where
  "result_text g s pending = or_else (py_strip (sn_final_text s)) (or_else (py_strip (sn_error s))
     (if pending then tw_name (rv_payload g) @ '' is waiting for approval.''
      else tw_name (rv_payload g) @ '' '' @ sn_status s @ ''.''))"

definition sink_origin :: "run_context \<Rightarrow> validation_error + notification_origin" where
  "sink_origin c = NotificationOrigin \<lparr>no_interface = Some (or_interface (rc_origin c)), no_source_id = Some (or_source_id (rc_origin c)),
     no_conversation_id = or_conversation_id (rc_origin c), no_message_id = or_message_id (rc_origin c),
     no_channel = Some (rc_channel c), no_correlation_id = Some (rc_correlation_id c)\<rparr>"

definition result_write :: "trigger_spec_write revision \<Rightarrow> run_snapshot \<Rightarrow> validation_error + notification_write" where
  "result_write g s = (case pending_approvals s of Inl e \<Rightarrow> Inl e | Inr pending \<Rightarrow>
     (case sink_origin (sn_context s) of Inl e \<Rightarrow> Inl e | Inr origin \<Rightarrow>
       NotificationWrite \<lparr>nw_kind = result_kind s, nw_text = result_text g s (pending \<noteq> []), nw_status = sn_status s,
         nw_thread_id = Some (rc_thread_id (sn_context s)), nw_run_id = Some (sn_run_id s), nw_origin = Some origin, nw_approvals = pending\<rparr>))"

definition result_key :: "trigger_spec_write revision \<Rightarrow> run_snapshot \<Rightarrow> string" where
  "result_key g s = ''trigger:'' @ rv_id g @ '':r'' @ str_int (rv_revision g) @ '':run:'' @ sn_run_id s @ '':'' @ sn_status s"

definition publish_built :: "(string \<Rightarrow> string) \<Rightarrow> timestamp \<Rightarrow> string \<Rightarrow> string \<Rightarrow> validation_error + notification_write \<Rightarrow>
    (notifications_db, notification_error, unit) oper" where
  "publish_built sha now t k w db = (case w of Inl e \<Rightarrow> raises (NotificationValidationError e) db
     | Inr v \<Rightarrow> map_prod (map_sum id (\<lambda>_. ())) id (publish sha now t k v db))"

definition trigger_sink :: "(string \<Rightarrow> string) \<Rightarrow> timestamp \<Rightarrow> trigger_spec_write revision \<Rightarrow> run_snapshot \<Rightarrow> out_mode \<Rightarrow>
    (notifications_db, notification_error, unit) oper" where
  "trigger_sink sha now g s mode = publish_built sha now (rv_tenant_id g) (result_key g s) (result_write g s)"

section \<open>Automatic repairs\<close>

definition py_rstrip_dots :: "string \<Rightarrow> string" where
  "py_rstrip_dots s = rev (dropWhile (\<lambda>c. c = CHR ''.'') (rev s))"

definition repair_text :: "run_snapshot \<Rightarrow> string" where
  "repair_text s = (let completed = sn_status s = ''completed'';
       detail = py_rstrip_dots (py_strip (if completed then sn_final_text s else sn_error s))
     in (if completed then ''The repair agent finished: '' @ or_else detail ''no further activation result was reported''
         else ''The repair agent ended without a confirmed result: '' @ or_else detail ''no successful replacement deployment was confirmed'') @
       ''. The deployment host will report any activation outcome separately.'')"

definition repair_write :: "run_snapshot \<Rightarrow> validation_error + notification_write" where
  "repair_write s = (let completed = sn_status s = ''completed'' in
     case sink_origin (sn_context s) of Inl e \<Rightarrow> Inl e | Inr origin \<Rightarrow>
       NotificationWrite \<lparr>nw_kind = (if completed then ''evolution.repair.completed'' else ''evolution.repair.failed''),
         nw_text = take 50000 (repair_text s), nw_status = (if completed then ''completed'' else ''failed''),
         nw_thread_id = Some (rc_thread_id (sn_context s)), nw_run_id = Some (sn_run_id s), nw_origin = Some origin, nw_approvals = []\<rparr>)"

definition repair_sink :: "(string \<Rightarrow> string) \<Rightarrow> timestamp \<Rightarrow> run_snapshot \<Rightarrow> (notifications_db, notification_error, unit) oper" where
  "repair_sink sha now s db = (let c = sn_context s; prefix = ''evolution-repair:'' in
     if rc_channel c \<noteq> ''evolution'' \<or> take (length prefix) (rc_correlation_id c) \<noteq> prefix then ok () db
     else publish_built sha now (rc_tenant_id c) (prefix @ sn_run_id s @ '':'' @ sn_status s) (repair_write s) db)"

section \<open>The sink as delivery callback\<close>

definition sink_deliver :: "(string \<Rightarrow> string) \<Rightarrow> (nat \<Rightarrow> timestamp) \<Rightarrow> (nat \<Rightarrow> notifications_db) \<Rightarrow> nat \<Rightarrow> trigger_spec_write revision \<Rightarrow>
    run_snapshot \<Rightarrow> out_mode \<Rightarrow> delivery_outcome" where
  "sink_deliver sha clock store n g s mode = (case fst (trigger_sink sha (clock n) g s mode (store n)) of Inl _ \<Rightarrow> DeliveryRaised | Inr _ \<Rightarrow> DeliveryFine)"

text \<open>
  The given number of passes of \<open>_drain_deliveries_on_start\<close>; \<open>Inr False\<close> means that the loop has
  returned and \<open>Inr True\<close> that it goes on. The dispatcher is taken to stay started (the loop's condition
  \<open>_started\<close>), and each drain runs without other workers in between.
\<close>

fun drain_passes :: "nat \<Rightarrow> dispatch_env \<Rightarrow> trigger_spec_write rev_db \<Rightarrow> nat \<Rightarrow> exec_db \<Rightarrow> ((dispatch_stop + bool) \<times> nat \<times> exec_db) option" where
  "drain_passes 0 E triggers n db = Some (Inr True, n, db)"
| "drain_passes (Suc passes) E triggers n db = (case drain_deliveries E triggers n db of None \<Rightarrow> None
     | Some (Inl e, n1, db1) \<Rightarrow> Some (Inl e, n1, db1)
     | Some (Inr retry_pending, n1, db1) \<Rightarrow>
         if \<not> retry_pending \<and> next_delivery_lease_delay (de_clock E n1) db1 = None then Some (Inr False, Suc n1, db1)
         else drain_passes passes E triggers (Suc n1) db1)"

section \<open>What the sinks write\<close>

lemma built_by_parts:
  assumes "NotificationWrite w = Inr v" "sink_origin c = Inr h" "all_valid NotificationApproval xs = Inr ys"
    and "nw_origin w = Some h" "nw_approvals w = ys"
  shows "\<exists>w. build_write w = Inr v"
proof -
  obtain g where g: "NotificationOrigin g = Inr h" using assms(2) unfolding sink_origin_def by blast
  have "w\<lparr>nw_origin := Some h, nw_approvals := ys\<rparr> = w" using assms(4,5) by (cases w) simp
  then have "build_write (w\<lparr>nw_origin := Some g, nw_approvals := xs\<rparr>) = Inr v" using assms(1,3) g by (simp add: build_write_def)
  then show ?thesis by (rule exI)
qed

lemma result_write_built: "result_write g s = Inr v \<Longrightarrow> \<exists>w. build_write w = Inr v"
proof -
  assume "result_write g s = Inr v"
  then obtain ys h where p: "pending_approvals s = Inr ys" "sink_origin (sn_context s) = Inr h"
    "NotificationWrite \<lparr>nw_kind = result_kind s, nw_text = result_text g s (ys \<noteq> []), nw_status = sn_status s,
       nw_thread_id = Some (rc_thread_id (sn_context s)), nw_run_id = Some (sn_run_id s), nw_origin = Some h, nw_approvals = ys\<rparr> = Inr v"
    unfolding result_write_def by (auto split: sum.splits)
  show ?thesis by (rule built_by_parts [OF p(3,2) p(1) [unfolded pending_approvals_def]]) simp_all
qed

text \<open>A text that is too long for the model is refused, whatever the store holds.\<close>

lemma long_result_raises:
  assumes "50000 < length (py_strip (sn_final_text s))"
  shows "\<exists>e. trigger_sink sha now g s mode db = (Inl (NotificationValidationError e), db)"
proof -
  have same: "result_text g s b = py_strip (sn_final_text s)" for b using assms by (auto simp: result_text_def or_else_def)
  have bad_text: "nwrite_fields (nwrite_norm \<lparr>nw_kind = a, nw_text = result_text g s b, nw_status = c, nw_thread_id = d, nw_run_id = f,
      nw_origin = h, nw_approvals = i\<rparr>) \<noteq> []" for a b c d f h i
    using assms same by (simp add: nwrite_fields_def nwrite_norm_def bad_def sized_def)
  then have "\<exists>e. result_write g s = Inl e"
    unfolding result_write_def NotificationWrite_def construct_def Let_def by (auto split: sum.splits)
  then obtain e where "result_write g s = Inl e" by blast
  then show ?thesis by (simp add: trigger_sink_def publish_built_def)
qed

section \<open>A refused result stays in the outbox\<close>

lemma claim_rows_snapshots:
  assumes "claim_rows ld draw now e n rs ob = Inr (cs, ob')" "d \<in> set cs"
  shows "\<exists>r \<in> set rs. ob_id r = cd_id d \<and> ld (ob_snapshot r) = Inr (cd_snapshot d)"
  using assms
proof (induction rs arbitrary: n ob cs)
  case (Cons r rs)
  let ?hit = "\<lambda>x. ob_id x = ob_id r \<and> claimable now x"
  let ?ob = "upd ?hit (\<lambda>x. x\<lparr>ob_status := OutDelivering, ob_attempt_count := Suc (ob_attempt_count x),
    ob_lease_token := Some (draw n), ob_lease_expires_at := Some e, ob_updated_at := now\<rparr>) ob"
  show ?case
  proof (cases "length (filter ?hit ob) = 1")
    case False
    with Cons.prems(1) have "claim_rows ld draw now e (Suc n) rs ?ob = Inr (cs, ob')" by (simp add: Let_def)
    from Cons.IH [OF this Cons.prems(2)] show ?thesis by auto
  next
    case True
    then obtain s cs' where s: "ld (ob_snapshot r) = Inr s" "claim_rows ld draw now e (Suc n) rs ?ob = Inr (cs', ob')"
      "cs = \<lparr>cd_id = ob_id r, cd_key = ob_key r, cd_mode = ob_mode r, cd_snapshot = s, cd_lease_token = draw n\<rparr> # cs'"
      using Cons.prems(1) by (auto simp: Let_def split: sum.splits prod.splits)
    show ?thesis
    proof (cases "d \<in> set cs'")
      case True
      from Cons.IH [OF s(2) True] show ?thesis by auto
    next
      case False
      with s Cons.prems(2) show ?thesis by auto
    qed
  qed
qed simp

lemma claim_deliveries_snapshots:
  assumes "claim_deliveries ld draw lease limit now db = (Inr cs, db')" "d \<in> set cs"
  shows "\<exists>r \<in> set (outbox db). ob_id r = cd_id d \<and> ld (ob_snapshot r) = Inr (cd_snapshot d)"
proof -
  let ?rs = "take (nat limit) (sort_key ob_id (filter (claimable now) (outbox db)))"
  obtain ob where "claim_rows ld draw now (plus_seconds now lease) 0 ?rs (outbox db) = Inr (cs, ob)"
    using assms(1) by (auto simp: claim_deliveries_def Let_def split: if_splits sum.splits prod.splits)
  from claim_rows_snapshots [OF this assms(2)] obtain r where "r \<in> set ?rs" "ob_id r = cd_id d" "ld (ob_snapshot r) = Inr (cd_snapshot d)" by blast
  moreover from this(1) have "r \<in> set (outbox db)" by (metis (no_types, lifting) filter_is_subset in_set_takeD set_sort subsetD)
  ultimately show ?thesis by blast
qed

definition refused :: "(nat \<Rightarrow> trigger_spec_write revision \<Rightarrow> run_snapshot \<Rightarrow> out_mode \<Rightarrow> delivery_outcome) \<Rightarrow> run_snapshot \<Rightarrow> bool" where
  "refused deliver s = (\<forall>n g mode. deliver n g s mode \<noteq> DeliveryFine)"

lemma drain_batch_refused:
  assumes "exec_inv db" "\<forall>d \<in> set ds. cd_id d = i \<longrightarrow> refused deliver (cd_snapshot d)"
    "drain_batch E deliver triggers ds retry n db = (x, n', db')"
  shows "delivered i db' = delivered i db"
  using assms
proof (induction ds arbitrary: retry n db)
  case (Cons d ds)
  obtain y dbr where r: "retry_delivery (cd_id d) (cd_lease_token d) (de_clock E n) db = (y, dbr)" by fastforce
  obtain z dbc where c: "complete_delivery (cd_id d) (cd_lease_token d) (de_clock E n) db = (z, dbc)" by fastforce
  have ir: "exec_inv dbr" "delivered i dbr = delivered i db" using retry_step [OF Cons.prems(1) r] by blast+
  have ic: "exec_inv dbc" "cd_id d \<noteq> i \<Longrightarrow> delivered i dbc = delivered i db"
    using outbox_complete_step [OF Cons.prems(1) c] by blast+
  have rest: "\<forall>d \<in> set ds. cd_id d = i \<longrightarrow> refused deliver (cd_snapshot d)" using Cons.prems(2) by simp
  have put_back: "delivered i db' = delivered i db" if "drain_batch E deliver triggers ds True (Suc n) dbr = (x, n', db')"
    using Cons.IH [OF ir(1) rest that] ir(2) by simp
  have fine: "cd_id d \<noteq> i" if "deliver n g (cd_snapshot d) (cd_mode d) = DeliveryFine" for g
    using Cons.prems(2) that by (auto simp: refused_def)
  have completes: "delivered i db' = delivered i db"
    if "deliver n g (cd_snapshot d) (cd_mode d) = DeliveryFine" "drain_batch E deliver triggers ds retry (Suc n) dbc = (x, n', db')" for g
    using Cons.IH [OF ic(1) rest that(2)] ic(2) [OF fine [OF that(1)]] by simp
  show ?case
    using Cons.prems(3) r c ir(2) put_back completes
    by (simp add: Let_def split: sum.splits option.splits delivery_outcome.splits)
qed simp

text \<open>A row whose result the callback never takes; what a drain keeps of it.\<close>

definition stuck :: "dispatch_env \<Rightarrow> (nat \<Rightarrow> trigger_spec_write revision \<Rightarrow> run_snapshot \<Rightarrow> out_mode \<Rightarrow> delivery_outcome) \<Rightarrow> outbox_row \<Rightarrow> exec_db \<Rightarrow> bool" where
  "stuck E deliver r db = (exec_inv db \<and> (\<forall>s. de_load E (ob_snapshot r) = Inr s \<longrightarrow> refused deliver s) \<and>
     (\<exists>r' \<in> set (outbox db). out_ident r' = out_ident r) \<and> \<not> delivered (ob_id r) db)"

lemma stuck_step:
  assumes "stuck E deliver r db" "exec_inv db'" "out_grows db db'" "delivered (ob_id r) db' = delivered (ob_id r) db"
  shows "stuck E deliver r db'"
  using assms out_grows_keeps [OF assms(3)] unfolding stuck_def by metis

lemma stuck_claims:
  assumes s: "stuck E deliver r db" and c: "claim_deliveries (de_load E) draw lease limit now db = (Inr cs, db')" and d: "d \<in> set cs" "cd_id d = ob_id r"
  shows "refused deliver (cd_snapshot d)"
proof -
  obtain q where q: "q \<in> set (outbox db)" "ob_id q = cd_id d" "de_load E (ob_snapshot q) = Inr (cd_snapshot d)"
    using claim_deliveries_snapshots [OF c d(1)] by blast
  obtain r' where r': "r' \<in> set (outbox db)" "out_ident r' = out_ident r" using s by (auto simp: stuck_def)
  have "distinct (map ob_id (outbox db))" using s exec_invD(3) by (auto simp: stuck_def)
  then have "q = r'" using q(1,2) r' d(2) by (metis inj_on_def distinct_map out_ident_def prod.inject)
  then show ?thesis using s q(3) r'(2) by (auto simp: stuck_def out_ident_def)
qed

lemma drain_rounds_stuck:
  assumes "stuck E deliver r db" "drain_rounds rounds E deliver triggers n db = Some (x, n', db')"
  shows "stuck E deliver r db'"
  using assms
proof (induction rounds arbitrary: n db)
  case (Suc rounds)
  have inv: "exec_inv db" using Suc.prems(1) by (simp add: stuck_def)
  obtain y db1 where c: "claim_deliveries (de_load E) (de_draw E n) (de_lease E) 100 (de_clock E n) db = (y, db1)" by fastforce
  have s1: "stuck E deliver r db1" using claim_deliveries_step [OF inv c] stuck_step [OF Suc.prems(1)] by blast
  show ?case
  proof (cases "\<exists>d ds. y = Inr (d # ds)")
    case False
    then have "db' = db1" using Suc.prems(2) c by (auto split: sum.splits list.splits)
    with s1 show ?thesis by simp
  next
    case True
    then obtain d ds where y: "y = Inr (d # ds)" by blast
    note h = claim_deliveries_held [OF inv c [unfolded y]]
    obtain z n2 db2 where b: "drain_batch E deliver triggers (d # ds) False (Suc n) db1 = (z, n2, db2)" by (metis prod_cases3)
    have inv1: "exec_inv db1" using s1 by (simp add: stuck_def)
    have "drains db1 db2" using drain_batch_step [OF inv1 _ _ b] h by blast
    moreover have "delivered (ob_id r) db2 = delivered (ob_id r) db1"
      by (rule drain_batch_refused [OF inv1 _ b]) (use stuck_claims [OF Suc.prems(1) c [unfolded y]] in blast)
    ultimately have s2: "stuck E deliver r db2" using stuck_step [OF s1] by (simp add: drains_def)
    show ?thesis
    proof (cases "z = Inr False")
      case True
      with Suc.prems(2) c y b have "drain_rounds rounds E deliver triggers n2 db2 = Some (x, n', db')" by simp
      from Suc.IH [OF s2 this] show ?thesis .
    next
      case False
      with Suc.prems(2) c y b have "db' = db2" by (auto split: sum.splits bool.splits)
      with s2 show ?thesis by simp
    qed
  qed
qed simp

lemma stuck_goes_on:
  assumes s: "stuck E deliver r db" and none: "next_delivery_lease_delay now db = None"
  shows "\<exists>q \<in> set (outbox db). \<forall>now. claimable now q"
proof -
  obtain q where q: "q \<in> set (outbox db)" "ob_id q = ob_id r" using s by (auto simp: stuck_def out_ident_def)
  have "ob_status q \<noteq> OutDelivered" using q s by (auto simp: stuck_def delivered_def)
  moreover have "ob_status q \<noteq> OutDelivering"
    using none q(1) by (auto simp: next_delivery_lease_delay_def Let_def filter_empty_conv split: if_splits)
  ultimately have "ob_status q = OutPending" by (cases "ob_status q") auto
  with q(1) show ?thesis by (intro bexI [of _ q]) (simp_all add: claimable_def)
qed

lemma drain_passes_stuck:
  assumes "stuck E deliver r db" "de_deliver E = Some deliver"
  shows "\<exists>x n' db'. drain_passes passes E triggers n db = Some (x, n', db') \<and> stuck E deliver r db' \<and> x \<noteq> Inr False"
  using assms(1)
proof (induction passes arbitrary: n db)
  case (Suc passes)
  have inv: "exec_inv db" using Suc.prems by (simp add: stuck_def)
  obtain x m db1 where d: "drain_rounds (Suc (undelivered db)) E deliver triggers n db = Some (x, Suc m, db1)"
    "x = Inr False \<longrightarrow> (\<forall>r \<in> set (outbox db1). \<not> claimable (de_clock E m) r)"
    using drain_rounds_end [OF inv lessI, of E deliver triggers n] by blast
  have dd: "drain_deliveries E triggers n db = Some (x, Suc m, db1)" using assms(2) d(1) by (simp add: drain_deliveries_def)
  have s1: "stuck E deliver r db1" by (rule drain_rounds_stuck [OF Suc.prems d(1)])
  show ?case
  proof (cases x)
    case (Inl e)
    with dd s1 show ?thesis by simp
  next
    case (Inr b)
    have "b \<or> next_delivery_lease_delay (de_clock E (Suc m)) db1 \<noteq> None"
      using stuck_goes_on [OF s1, of "de_clock E (Suc m)"] d(2) Inr by fastforce
    then show ?thesis using Suc.IH [OF s1, of "Suc (Suc m)"] dd Inr by auto
  qed
qed simp

text \<open>
  When everything the drain reads can be read, it raises nothing: with a callback that is not cancelled
  every pass ends normally.
\<close>

definition readable :: "dispatch_env \<Rightarrow> trigger_spec_write rev_db \<Rightarrow> exec_db \<Rightarrow> bool" where
  "readable E triggers db = (0 < de_lease E \<and> (\<forall>r \<in> set (outbox db). \<exists>s. de_load E (ob_snapshot r) = Inr s) \<and>
     (\<forall>t i n. \<exists>g. trigger_get_revision (de_zone E) (de_cron E) t i n triggers = Inr g))"

definition uncancelled :: "(nat \<Rightarrow> trigger_spec_write revision \<Rightarrow> run_snapshot \<Rightarrow> out_mode \<Rightarrow> delivery_outcome) \<Rightarrow> bool" where
  "uncancelled deliver = (\<forall>n g s mode. deliver n g s mode \<noteq> DeliveryCancelled)"

lemma readable_drains:
  assumes "readable E triggers db" "drains db db'"
  shows "readable E triggers db'"
proof -
  have snap: "ob_snapshot ` set (outbox db') = (\<lambda>(_, _, _, j). j) ` set (map out_ident (outbox db'))" for db'
    by (force simp: out_ident_def)
  have "ob_snapshot ` set (outbox db') = ob_snapshot ` set (outbox db)" unfolding snap drains_same [OF assms(2)] ..
  then have "\<exists>q \<in> set (outbox db). ob_snapshot q = ob_snapshot r" if "r \<in> set (outbox db')" for r
    using that by (metis imageE imageI)
  with assms(1) show ?thesis unfolding readable_def by metis
qed

lemma claim_rows_reads:
  "\<forall>r \<in> set rs. \<exists>s. ld (ob_snapshot r) = Inr s \<Longrightarrow> \<exists>y. claim_rows ld draw now e n rs ob = Inr y"
proof (induction rs arbitrary: n ob)
  case (Cons r rs)
  obtain s where s: "ld (ob_snapshot r) = Inr s" using Cons.prems by auto
  let ?ob = "upd (\<lambda>x. ob_id x = ob_id r \<and> claimable now x) (\<lambda>x. x\<lparr>ob_status := OutDelivering,
    ob_attempt_count := Suc (ob_attempt_count x), ob_lease_token := Some (draw n), ob_lease_expires_at := Some e,
    ob_updated_at := now\<rparr>) ob"
  have "\<exists>y. claim_rows ld draw now e (Suc n) rs ?ob = Inr y" using Cons.IH Cons.prems by simp
  then obtain cs ob' where "claim_rows ld draw now e (Suc n) rs ?ob = Inr (cs, ob')" by auto
  with s show ?case by (simp add: Let_def)
qed simp

lemma claim_deliveries_reads:
  assumes "readable E triggers db"
  shows "\<exists>cs db'. claim_deliveries (de_load E) draw (de_lease E) 100 now db = (Inr cs, db')"
proof -
  let ?rs = "take (nat 100) (sort_key ob_id (filter (claimable now) (outbox db)))"
  have "\<forall>r \<in> set ?rs. \<exists>s. de_load E (ob_snapshot r) = Inr s"
    using assms by (auto simp: readable_def dest!: in_set_takeD)
  from claim_rows_reads [OF this, of draw now "plus_seconds now (de_lease E)" 0 "outbox db"] obtain y where
    "claim_rows (de_load E) draw now (plus_seconds now (de_lease E)) 0 ?rs (outbox db) = Inr y" ..
  with assms show ?thesis by (cases y) (simp add: claim_deliveries_def Let_def readable_def)
qed

lemma drain_batch_fine:
  assumes "readable E triggers db0" "uncancelled deliver"
  shows "\<exists>b n' db'. drain_batch E deliver triggers ds retry n db = (Inr b, n', db')"
proof (induction ds arbitrary: retry n db)
  case (Cons d ds)
  obtain a b c k where key: "cd_key d = (a, b, c, k)" by (cases "cd_key d")
  obtain go where "trigger_get_revision (de_zone E) (de_cron E) a b c triggers = Inr go"
    using assms(1) unfolding readable_def by blast
  with key have go: "trigger_of E triggers d = Inr go" by (simp add: trigger_of_def)
  show ?case
  proof (cases go)
    case None
    with go Cons.IH show ?thesis by (simp add: Let_def)
  next
    case (Some g)
    have "deliver n g (cd_snapshot d) (cd_mode d) \<noteq> DeliveryCancelled" using assms(2) by (simp add: uncancelled_def)
    with go Some Cons.IH show ?thesis
      by (cases "deliver n g (cd_snapshot d) (cd_mode d)") (simp_all add: Let_def)
  qed
qed simp

lemma drain_rounds_fine:
  assumes "exec_inv db" "readable E triggers db" "uncancelled deliver" "drain_rounds rounds E deliver triggers n db = Some (x, n', db')"
  shows "\<exists>b. x = Inr b"
  using assms(1,2,4)
proof (induction rounds arbitrary: n db)
  case (Suc rounds)
  obtain cs db1 where c: "claim_deliveries (de_load E) (de_draw E n) (de_lease E) 100 (de_clock E n) db = (Inr cs, db1)"
    using claim_deliveries_reads [OF Suc.prems(2)] by blast
  have d1: "drains db db1"
    using claim_deliveries_step [OF Suc.prems(1) c] claim_deliveries_length [OF c] by (auto simp: drains_def)
  show ?case
  proof (cases cs)
    case (Cons d ds)
    obtain b n2 db2 where b: "drain_batch E deliver triggers (d # ds) False (Suc n) db1 = (Inr b, n2, db2)"
      using drain_batch_fine [OF Suc.prems(2) assms(3)] by blast
    have "drains db1 db2"
      using drain_batch_step [OF drains_inv [OF d1] _ _ b] claim_deliveries_held [OF Suc.prems(1) c] Cons by blast
    then have t: "drains db db2" by (rule drains_trans [OF d1])
    show ?thesis
    proof (cases b)
      case False
      with Suc.prems(3) c Cons b have "drain_rounds rounds E deliver triggers n2 db2 = Some (x, n', db')" by simp
      from Suc.IH [OF drains_inv [OF t] readable_drains [OF Suc.prems(2) t] this] show ?thesis .
    qed (use Suc.prems(3) c Cons b in \<open>auto simp del: drain_batch.simps\<close>)
  qed (use Suc.prems(3) c in auto)
qed simp

lemma drain_passes_fine:
  assumes "exec_inv db" "readable E triggers db" "de_deliver E = Some deliver" "uncancelled deliver"
    "drain_passes passes E triggers n db = Some (x, n', db')"
  shows "\<exists>b. x = Inr b"
  using assms(1,2,5)
proof (induction passes arbitrary: n db)
  case (Suc passes)
  obtain y m db1 where d: "drain_rounds (Suc (undelivered db)) E deliver triggers n db = Some (y, Suc m, db1)" "drains db db1"
    using drain_rounds_end [OF Suc.prems(1) lessI, of E deliver triggers n] by blast
  obtain b where y: "y = Inr b" using drain_rounds_fine [OF Suc.prems(1,2) assms(4) d(1)] by blast
  have dd: "drain_deliveries E triggers n db = Some (Inr b, Suc m, db1)" using assms(3) d(1) y by (simp add: drain_deliveries_def)
  show ?case
  proof (cases "\<not> b \<and> next_delivery_lease_delay (de_clock E (Suc m)) db1 = None")
    case True
    with Suc.prems(3) dd show ?thesis by auto
  next
    case False
    with Suc.prems(3) dd have "drain_passes passes E triggers (Suc (Suc m)) db1 = Some (x, n', db')" by simp
    from Suc.IH [OF drains_inv [OF d(2)] readable_drains [OF Suc.prems(2) d(2)] this] show ?thesis .
  qed
qed auto

section \<open>Publishing a result twice\<close>

lemma built_is_notified_once:
  assumes inv: "notif_inv db" and w: "\<And>v. res = Inr v \<Longrightarrow> \<exists>w. build_write w = Inr v"
    and p: "publish_built sha now t0 k res db = (Inr (), db1)" and db2: "db2 = snd (run_calls (notif_exec sha) cs2 db1)"
  shows "\<exists>n t. notif_identity t0 ''tenant_id'' 200 = Inr t \<and> get_notification t0 (on_id n) db2 = Inr n \<and>
    (\<forall>c. n \<in> set (unacked_reference t c db2) \<or> acked t c (on_id n) db2) \<and>
    (row_by_key t (py_strip k) db = None \<longrightarrow> res = Inr (on_payload n)) \<and>
    publish_built sha now' t0 k res db2 = (Inr (), db2)"
proof -
  obtain v where v: "res = Inr v" using p by (auto simp: publish_built_def split: sum.splits)
  obtain w where w: "build_write w = Inr v" using w [OF v] by blast
  obtain x dbx where a: "append_notification sha t0 k v now db = (x, dbx)" by fastforce
  with p v obtain n b where nb: "append_notification sha t0 k v now db = (Inr (n, b), db1)"
    by (cases x) (auto simp: publish_built_def publish_def)
  from published_stays [OF inv w nb db2 refl refl, where v' = v and now' = now'] obtain t r where
    t: "notif_identity t0 ''tenant_id'' 200 = Inr t" and r: "r \<in> set (owner_notifications db2)" "nr_tenant_id r = t" "n = row_notification r" and
    new: "b \<longrightarrow> on_payload n = v" "row_by_key t (py_strip k) db = None \<longrightarrow> b" and
    get: "get_notification t0 (on_id n) db2 = Inr n" and again: "append_notification sha t0 k v now' db2 = (Inr (n, False), db2)" by auto
  have "on_id n = nr_id r" using r(3) by (simp add: row_notification_def)
  then have "\<forall>c. n \<in> set (unacked_reference t c db2) \<or> acked t c (on_id n) db2" using r by (auto simp: unacked_reference_def)
  moreover have "publish_built sha now' t0 k res db2 = (Inr (), db2)" by (simp add: publish_built_def v publish_def again)
  ultimately show ?thesis using t get new v by (intro exI [of _ n] exI [of _ t]) simp
qed

text \<open>The report of an automatic repair: its text always fits, and repeating it writes nothing.\<close>

lemma repair_text_fits: "sized 1 50000 (py_strip (take 50000 (repair_text s)))"
proof -
  obtain v where "repair_text s = CHR ''T'' # v" by (cases "sn_status s = ''completed''") (simp_all add: repair_text_def Let_def)
  moreover have "take 50000 (c # v) = c # take 49999 v" for c :: char by (simp add: take_Cons')
  ultimately obtain u where u: "take 50000 (repair_text s) = CHR ''T'' # u" by metis
  have len: "length (py_strip x) \<le> length x" for x
    unfolding py_strip_def by (metis length_dropWhile_le length_rev order_trans)
  have "py_strip (CHR ''T'' # u) \<noteq> []" by (simp add: py_strip_def py_isspace_def dropWhile_eq_Nil_conv)
  moreover have "length (py_strip (take 50000 (repair_text s))) \<le> 50000" by (rule order_trans [OF len]) simp
  ultimately show ?thesis unfolding u [symmetric] by (cases "py_strip (take 50000 (repair_text s))") (simp_all add: sized_def)
qed

lemma repair_is_notified_once:
  assumes "notif_inv db" "repair_sink sha now s db = (Inr (), db1)" "db2 = snd (run_calls (notif_exec sha) cs2 db1)"
  shows "repair_sink sha now' s db2 = (Inr (), db2)"
proof (cases "rc_channel (sn_context s) \<noteq> ''evolution'' \<or>
    take (length ''evolution-repair:'') (rc_correlation_id (sn_context s)) \<noteq> ''evolution-repair:''")
  case True
  then show ?thesis unfolding repair_sink_def Let_def by simp
next
  case False
  let ?pub = "\<lambda>now. publish_built sha now (rc_tenant_id (sn_context s)) (''evolution-repair:'' @ sn_run_id s @ '':'' @ sn_status s) (repair_write s)"
  have sink: "repair_sink sha m s = ?pub m" for m using False unfolding repair_sink_def Let_def by (intro ext) (simp only: if_False)
  have built: "\<exists>w. build_write w = Inr v" if v: "repair_write s = Inr v" for v
  proof -
    obtain h where h: "sink_origin (sn_context s) = Inr h"
      using v by (cases "sink_origin (sn_context s)") (simp_all add: repair_write_def Let_def)
    from v [unfolded repair_write_def Let_def h sum.case] show ?thesis
      by (rule built_by_parts [OF _ h all_valid.simps(1)]) simp_all
  qed
  from built_is_notified_once [OF assms(1) built assms(2) [unfolded sink] assms(3)] show ?thesis unfolding sink by blast
qed

section \<open>Properties\<close>

text \<open>
  C11: A trigger result becomes one owner notification. When the sink took a result, the tenant has a
  notification that any calls leave in place: every consumer reads it until that consumer has acknowledged
  it, and if the result was new it carries the text of the run. Delivering the same result again, as the
  outbox of the dispatcher may, succeeds and writes nothing.
\<close>

theorem trigger_result_is_notified_once:
  assumes "db = snd (run_calls (notif_exec sha) cs empty_notifications)"
    and "trigger_sink sha now g s mode db = (Inr (), db1)" "db2 = snd (run_calls (notif_exec sha) cs2 db1)"
  shows "\<exists>n t. notif_identity (rv_tenant_id g) ''tenant_id'' 200 = Inr t \<and> get_notification (rv_tenant_id g) (on_id n) db2 = Inr n \<and>
    (\<forall>c. n \<in> set (unacked_reference t c db2) \<or> acked t c (on_id n) db2) \<and>
    (row_by_key t (py_strip (result_key g s)) db = None \<longrightarrow> result_write g s = Inr (on_payload n)) \<and>
    trigger_sink sha now' g s mode' db2 = (Inr (), db2)"
proof -
  have inv: "notif_inv db" unfolding assms(1) by (rule notif_calls.run_start_inv)
  show ?thesis using built_is_notified_once [OF inv result_write_built assms(2) [unfolded trigger_sink_def] assms(3)]
    unfolding trigger_sink_def .
qed

lemma example_result_sink: "fst (trigger_sink (\<lambda>s. s) (At 1) example_trigger_spec example_snapshot ModeOwner empty_notifications) = Inr ()"
  by code_simp

theorem trigger_result_is_notified_once_witness:
  "\<exists>n db1. trigger_sink (\<lambda>s. s) (At 1) example_trigger_spec example_snapshot ModeOwner empty_notifications = (Inr (), db1) \<and>
     get_notification ''t'' (on_id n) db1 = Inr n \<and>
     trigger_sink (\<lambda>s. s) (At 2) example_trigger_spec example_snapshot ModeOwner db1 = (Inr (), db1)"
proof -
  let ?x = "trigger_sink (\<lambda>s. s) (At 1) example_trigger_spec example_snapshot ModeOwner empty_notifications"
  have x: "?x = (Inr (), snd ?x)" using example_result_sink by (metis prod.collapse)
  have e: "empty_notifications = snd (run_calls (notif_exec (\<lambda>s. s)) [] empty_notifications)" "snd ?x = snd (run_calls (notif_exec (\<lambda>s. s)) [] (snd ?x))"
    by simp_all
  have t: "rv_tenant_id example_trigger_spec = ''t''" by (simp add: example_trigger_spec_def)
  from trigger_result_is_notified_once [OF e(1) x e(2), where now' = "At 2" and mode' = ModeOwner] x show ?thesis unfolding t by blast
qed

text \<open>
  C37: A trigger result with a text of more than 50,000 characters is never delivered. The sink refuses
  it with a validation error whatever the notifications hold, which stay as they are; the row stays in
  the outbox through any number of passes of the drain loop, and no pass ends the loop because nothing is
  pending. When the outbox and the trigger specifications can be read, so that no exception ends it
  either, the loop goes on after any number of passes.
\<close>

theorem long_results_are_never_delivered:
  assumes "db = snd (run_calls (exec_exec ld) cs empty_exec_db)" "r \<in> set (outbox db)" "ob_status r \<noteq> OutDelivered"
    and "de_load E (ob_snapshot r) = Inr s" "50000 < length (py_strip (sn_final_text s))"
    and "de_deliver E = Some (sink_deliver sha clock store)"
  shows "(\<forall>now g mode notes. \<exists>e. trigger_sink sha now g s mode notes = (Inl (NotificationValidationError e), notes)) \<and>
    (\<exists>x n' db'. drain_passes passes E triggers n db = Some (x, n', db') \<and> x \<noteq> Inr False \<and>
    (readable E triggers db \<longrightarrow> x = Inr True) \<and>
    (\<exists>r' \<in> set (outbox db'). out_ident r' = out_ident r \<and> ob_status r' \<noteq> OutDelivered))"
proof -
  have inv: "exec_inv db" unfolding assms(1) by (rule exec_calls.run_start_inv)
  have "refused (sink_deliver sha clock store) s"
    unfolding refused_def sink_deliver_def
  proof (intro allI)
    fix n g mode
    obtain e where "trigger_sink sha (clock n) g s mode (store n) = (Inl (NotificationValidationError e), store n)"
      using long_result_raises [OF assms(5)] by blast
    then show "(case fst (trigger_sink sha (clock n) g s mode (store n)) of Inl _ \<Rightarrow> DeliveryRaised | Inr _ \<Rightarrow> DeliveryFine) \<noteq> DeliveryFine" by simp
  qed
  moreover have "\<not> delivered (ob_id r) db"
  proof
    assume "delivered (ob_id r) db"
    then obtain q where q: "q \<in> set (outbox db)" "ob_id q = ob_id r" "ob_status q = OutDelivered" by (auto simp: delivered_def)
    then have "q = r" using exec_invD(3) [OF inv] assms(2) by (metis distinct_map inj_onD)
    with q assms(3) show False by simp
  qed
  ultimately have "stuck E (sink_deliver sha clock store) r db" using inv assms(2,4) by (auto simp: stuck_def)
  from drain_passes_stuck [OF this assms(6), of passes triggers n] obtain x n' db' where
    d: "drain_passes passes E triggers n db = Some (x, n', db')" "x \<noteq> Inr False" and s: "stuck E (sink_deliver sha clock store) r db'" by blast
  obtain r' where r': "r' \<in> set (outbox db')" "out_ident r' = out_ident r" using s by (auto simp: stuck_def)
  then have "ob_status r' \<noteq> OutDelivered" using s by (auto simp: stuck_def delivered_def out_ident_def)
  moreover have "x = Inr True" if "readable E triggers db"
  proof -
    have "uncancelled (sink_deliver sha clock store)"
      by (simp add: uncancelled_def sink_deliver_def split: sum.split)
    from drain_passes_fine [OF inv that assms(6) this d(1)] d(2) show ?thesis by auto
  qed
  ultimately show ?thesis using d r' long_result_raises [OF assms(5)] by blast
qed

definition long_snapshot :: run_snapshot where
  "long_snapshot = example_snapshot\<lparr>sn_final_text := replicate 50001 (CHR ''x'')\<rparr>"

definition sink_dispatch :: dispatch_env where
  "sink_dispatch = example_dispatch\<lparr>de_load := \<lambda>_. Inr long_snapshot,
     de_deliver := Some (sink_deliver (\<lambda>s. s) At (\<lambda>_. empty_notifications))\<rparr>"

theorem long_results_are_never_delivered_witness:
  "\<exists>x n' db'. drain_passes 7 sink_dispatch \<lparr>revisions = [], active_refs = []\<rparr> 3
     (snd (run_calls (exec_exec (\<lambda>_. Inr example_snapshot)) [Claim example_fire 10 (At 0) ''u'',
        Finish example_fire ''u'' Failed None (Some (example_snapshot, ModeOwner)) (At 2)] empty_exec_db)) = Some (x, n', db') \<and> x = Inr True"
proof -
  let ?db = "snd (run_calls (exec_exec (\<lambda>_. Inr example_snapshot)) [Claim example_fire 10 (At 0) ''u'',
    Finish example_fire ''u'' Failed None (Some (example_snapshot, ModeOwner)) (At 2)] empty_exec_db)"
  have "list_ex (\<lambda>r. ob_status r \<noteq> OutDelivered) (outbox ?db)" by code_simp
  then obtain r where r: "r \<in> set (outbox ?db)" "ob_status r \<noteq> OutDelivered" by (auto simp: list_ex_iff)
  have l: "de_load sink_dispatch (ob_snapshot r) = Inr long_snapshot" by (simp add: sink_dispatch_def)
  have "py_strip (replicate n (CHR ''x'')) = replicate n (CHR ''x'')" for n
    by (cases n) (simp_all add: py_strip_def py_isspace_def dropWhile_eq_self_iff rev_replicate del: replicate_Suc)
  then have t: "50000 < length (py_strip (sn_final_text long_snapshot))" by (simp add: long_snapshot_def)
  have d: "de_deliver sink_dispatch = Some (sink_deliver (\<lambda>s. s) At (\<lambda>_. empty_notifications))" by (simp add: sink_dispatch_def)
  have "readable sink_dispatch \<lparr>revisions = [], active_refs = []\<rparr> ?db"
    by (simp add: readable_def sink_dispatch_def example_dispatch_def trigger_get_revision_def get_revision_row_def row_at_def read_opt_def)
  with long_results_are_never_delivered [OF refl r l t d, of 7 "\<lparr>revisions = [], active_refs = []\<rparr>" 3] show ?thesis by blast
qed

end
