(* ===== verification/CapabilityModels.thy ===== *)
theory CapabilityModels
  imports JsonText SpecModels
begin

text \<open>
  \<^verbatim>\<open>capabilities/models.py\<close>: the manifest of a capability, the contract of a worker the host starts
  outside its own process. As in \<^verbatim>\<open>SpecModels.thy\<close> a pydantic class is a record with the function that
  constructs it; a nested class counts as one field of the class that holds it. A finite float is
  \<open>Dyadic m n\<close>, the number \<open>m / 2 ^ n\<close>. What pydantic's \<open>model_dump\<close> makes of a manifest is the parameter \<open>dump\<close>,
  SHA-256 in hex the parameter \<open>sha\<close>. \<open>schema_version\<close>, a constant, is left out.
\<close>

section \<open>Constrained strings\<close>

definition is_upper :: "char \<Rightarrow> bool" where
  "is_upper c = (let n = of_char c :: nat in 65 \<le> n \<and> n \<le> 90)"

definition is_alnum :: "char \<Rightarrow> bool" where
  "is_alnum c = (is_lower c \<or> is_upper c \<or> is_digit c)"

fun split_on :: "char \<Rightarrow> string \<Rightarrow> string list" where
  "split_on c [] = [[]]"
| "split_on c (d # s) = (if d = c then [] # split_on c s else (case split_on c s of [] \<Rightarrow> [[d]] | w # ws \<Rightarrow> (d # w) # ws))"

definition part_name :: "string \<Rightarrow> bool" where
  "part_name s = (case s of [] \<Rightarrow> False | c # cs \<Rightarrow> is_lower c \<and> list_all (\<lambda>d. is_lower d \<or> is_digit d \<or> d = CHR ''_'') cs)"

definition py_identifier :: "string \<Rightarrow> bool" where
  "py_identifier s = (case s of [] \<Rightarrow> False | c # cs \<Rightarrow> (is_lower c \<or> is_upper c \<or> c = CHR ''_'') \<and> list_all (\<lambda>d. is_alnum d \<or> d = CHR ''_'') cs)"

definition capability_name :: "string \<Rightarrow> bool" where
  "capability_name = name_of ''_'' 63"

definition export_name :: "string \<Rightarrow> bool" where
  "export_name = name_of ''_'' 99"

definition permission_name :: "string \<Rightarrow> bool" where
  "permission_name s = (let ps = split_on (CHR ''.'') s in 2 \<le> length ps \<and> list_all part_name ps)"

definition scope_name :: "string \<Rightarrow> bool" where
  "scope_name s = list_all part_name (split_on (CHR ''.'') s)"

definition network_host :: "string \<Rightarrow> bool" where
  "network_host s = (let t = (if py_prefix ''*.'' s then drop 2 s else s); h = takeWhile (\<lambda>c. c \<noteq> CHR '':'') t; p = drop (length h) t in
     h \<noteq> [] \<and> is_alnum (hd h) \<and> is_alnum (last h) \<and> list_all (\<lambda>c. is_alnum c \<or> c = CHR ''.'' \<or> c = CHR ''-'') h \<and>
     (p = [] \<or> sized 1 5 (tl p) \<and> list_all is_digit (tl p)))"

definition schema_digest :: "string \<Rightarrow> bool" where
  "schema_digest s = (py_prefix ''sha256:'' s \<and> hex_digest (drop 7 s))"

definition protocol_name :: "string \<Rightarrow> bool" where
  "protocol_name s = (let v = takeWhile is_digit (rev s); r = drop (length v) (rev s) in
     v \<noteq> [] \<and> last v \<noteq> CHR ''0'' \<and> py_prefix ''v-'' r \<and> name_of ''_-'' (length s) (rev (drop 2 r)))"

definition number_text :: "string \<Rightarrow> bool" where
  "number_text s = (s = ''0'' \<or> s \<noteq> [] \<and> hd s \<noteq> CHR ''0'' \<and> list_all is_digit s)"

definition version_text :: "string \<Rightarrow> bool" where
  "version_text s = (let label = (\<lambda>t. t \<noteq> [] \<and> list_all (\<lambda>c. is_alnum c \<or> c = CHR ''.'' \<or> c = CHR ''-'') t);
       front = takeWhile (\<lambda>c. c \<noteq> CHR ''+'') s; build = drop (length front) s;
       core = takeWhile (\<lambda>c. c \<noteq> CHR ''-'') front; pre = drop (length core) front; ns = split_on (CHR ''.'') core
     in length ns = 3 \<and> list_all number_text ns \<and> (pre = [] \<or> label (tl pre)) \<and> (build = [] \<or> label (tl build)))"

definition secret_env_name :: "string \<Rightarrow> bool" where
  "secret_env_name s = (case s of [] \<Rightarrow> False
     | c # cs \<Rightarrow> is_upper c \<and> length cs \<le> 127 \<and> list_all (\<lambda>d. is_upper d \<or> is_digit d \<or> d = CHR ''_'') cs)"

section \<open>Reserved environment names\<close>

text \<open>\<open>str.upper\<close>; the two letters whose capital is not a code point below 256 stay as they are.\<close>

definition py_upper_char :: "char \<Rightarrow> string" where
  "py_upper_char c = (let n = of_char c :: nat in
     if n = 223 then ''SS'' else if 97 \<le> n \<and> n \<le> 122 \<or> 224 \<le> n \<and> n \<le> 254 \<and> n \<noteq> 247 then [char_of (n - 32)] else [c])"

definition py_upper :: "string \<Rightarrow> string" where
  "py_upper s = concat (map py_upper_char s)"

definition py_suffix :: "string \<Rightarrow> string \<Rightarrow> bool" where
  "py_suffix p s = py_prefix (rev p) (rev s)"

definition agent_api_token :: string where
  "agent_api_token = ''OPENTULPA_AGENT_API_TOKEN''"

definition brokered_secret_names :: "string list" where
  "brokered_secret_names = [agent_api_token, ''OPENTULPA_TELEGRAM_PAIRING_CODE'']"

definition runtime_environment_names :: "string list" where
  "runtime_environment_names = [''ALL_PROXY'', ''BASH_ENV'', ''CLASSPATH'', ''DOCKER_HOST'', ''ENV'', ''GCONV_PATH'', ''GEM_HOME'', ''GEM_PATH'',
     ''HOME'', ''HOSTALIASES'', ''HTTPS_PROXY'', ''HTTP_PROXY'', ''IFS'', ''KUBECONFIG'', ''LANG'', ''LANGUAGE'', ''LIBPATH'', ''LOCPATH'',
     ''LOGNAME'', ''NLSPATH'', ''NO_PROXY'', ''OLDPWD'', ''PATH'', ''PERL5LIB'', ''PERL5OPT'', ''PERLLIB'', ''PWD'', ''PYTHONHOME'',
     ''PYTHONINSPECT'', ''PYTHONPATH'', ''PYTHONSTARTUP'', ''RES_OPTIONS'', ''RUBYLIB'', ''RUBYOPT'', ''SHELLOPTS'', ''SHELL'',
     ''SHLIB_PATH'', ''SSH_AUTH_SOCK'', ''TEMP'', ''TERM'', ''TMP'', ''TMPDIR'', ''TZ'', ''TZDIR'', ''USER'', ''ZDOTDIR'']"

definition runtime_environment_suffixes :: "string list" where
  "runtime_environment_suffixes = [''_DIR'', ''_FILE'', ''_HOME'', ''_HOOKS'', ''_LIB'', ''_LIBS'', ''_MODULES'', ''_OPTIONS'', ''_PATH'',
     ''_PLUGIN'', ''_PLUGINS'', ''_PRELOAD'', ''_STARTUP'']"

definition runtime_environment_prefixes :: "string list" where
  "runtime_environment_prefixes = [''BUNDLE_'', ''CARGO_'', ''DOTNET_'', ''DYLD_'', ''GEM_'', ''JAVA_'', ''JDK_JAVA_'', ''LD_'', ''LUA_'',
     ''MONO_'', ''NODE_'', ''NPM_'', ''NVM_'', ''OPENTULPA_'', ''PERL'', ''PHP_'', ''PYENV_'', ''PYTHON'', ''RBENV_'', ''RUBY'', ''RUST'', ''YARN_'']"

definition is_reserved_worker_environment_name :: "string \<Rightarrow> bool" where
  "is_reserved_worker_environment_name name = (let normalized = py_upper (py_strip name) in
     normalized \<notin> set brokered_secret_names \<and>
     (normalized \<in> set runtime_environment_names \<or> list_ex (\<lambda>p. py_prefix p normalized) runtime_environment_prefixes \<or>
      list_ex (\<lambda>p. py_suffix p normalized) runtime_environment_suffixes))"

section \<open>Data\<close>

datatype worker_kind = InterfaceWorker | McpWorker | TriggerWorker | UiWorker

datatype worker_runtime = Subprocess | Oci

datatype worker_transport = Stdio | StreamableHttp

datatype secret_source = TenantHandle | HostSource | IssuedSource

datatype outbound = OutboundDeny | OutboundAllowlist | OutboundTenantAllowlist

datatype health_kind = ProcessHealth | HttpHealth | McpHealth | ReadyFile

datatype tool_effect = EffectRead | EffectCreate | EffectUpdate | EffectDelete | EffectSend | EffectExecute | EffectAuthorize

datatype approval_mode = ApprovalAuto | ApprovalAlways | ApprovalPolicy

datatype idempotency_mode = IdempotencyNone | IdempotencyDerived | IdempotencyRequired

datatype execution_mode = ExecutionSync | ExecutionJob

datatype py_float = Dyadic int nat

record interface_binding =
  ib_agent_spec_id :: string
  ib_run_kind :: string
  ib_trust_class :: trust_class

record secret_requirement =
  sq_name :: string
  sq_scopes :: "string list"
  sq_source :: secret_source
  sq_required :: bool

record secret_binding =
  sb_handle_id :: string
  sb_revision :: int
  sb_scopes :: "string list"

record network_policy =
  np_inbound :: bool
  np_outbound :: outbound
  np_allowed_hosts :: "string list"

record resource_limits =
  rl_cpu :: py_float
  rl_memory_mb :: int
  rl_pids :: int
  rl_startup_timeout_seconds :: py_float
  rl_stop_timeout_seconds :: py_float
  rl_max_output_bytes :: int

record health_check =
  hc_kind :: health_kind
  hc_target :: "string option"
  hc_interval_seconds :: py_float
  hc_timeout_seconds :: py_float

record tool_export =
  te_name :: string
  te_description :: string
  te_schema_digest :: string
  te_effect :: tool_effect
  te_approval :: approval_mode
  te_idempotency :: idempotency_mode
  te_execution :: execution_mode
  te_timeout_seconds :: py_float

record worker_spec =
  wk_name :: string
  wk_kind :: worker_kind
  wk_protocol :: string
  wk_runtime :: worker_runtime
  wk_transport :: worker_transport
  wk_command :: "string list"
  wk_endpoint :: "string option"
  wk_image :: "string option"
  wk_tools :: "tool_export list"
  wk_agent_binding :: "interface_binding option"
  wk_permissions :: "string list"
  wk_network :: network_policy
  wk_secrets :: "secret_requirement list"
  wk_resources :: resource_limits
  wk_healthcheck :: health_check
  wk_required :: bool

record eval_command =
  ev_argv :: "string list"
  ev_timeout_seconds :: int

record capability_manifest =
  cm_name :: string
  cm_version :: string
  cm_revision :: int
  cm_artifact_digest :: "string option"
  cm_config_schema :: "(string \<times> json) list"
  cm_workers :: "worker_spec list"
  cm_module :: "string option"
  cm_entrypoint :: "string option"
  cm_dependencies :: "string list"
  cm_tools :: "string list"
  cm_services :: "string list"
  cm_permissions :: "string list"
  cm_network :: network_policy
  cm_secrets :: "secret_requirement list"
  cm_eval_commands :: "eval_command list"
  cm_seed :: bool

section \<open>Parts of a manifest\<close>

definition opt_fine :: "('a \<Rightarrow> bool) \<Rightarrow> 'a option \<Rightarrow> bool" where
  "opt_fine P v = (case v of None \<Rightarrow> True | Some x \<Rightarrow> P x)"

definition first_error :: "(bool \<times> string) list \<Rightarrow> string option" where
  "first_error cs = map_option snd (find fst cs)"

fun positive_upto :: "int \<Rightarrow> py_float \<Rightarrow> bool" where
  "positive_upto most (Dyadic m n) = (0 < m \<and> m \<le> most * 2 ^ n)"

definition interface_norm :: "interface_binding \<Rightarrow> interface_binding" where
  "interface_norm b = b\<lparr>ib_agent_spec_id := py_strip (ib_agent_spec_id b)\<rparr>"

definition interface_fields :: "interface_binding \<Rightarrow> string list" where
  "interface_fields b = bad ''agent_spec_id'' (slug (ib_agent_spec_id b)) @ bad ''run_kind'' (ib_run_kind b \<in> {''owner'', ''routine'', ''intake''})"

definition reject_owner_spec :: "interface_binding \<Rightarrow> string option" where
  "reject_owner_spec b = first_error
     [((ib_trust_class b = TrustOwner) \<noteq> (ib_run_kind b = ''owner''), ''owner run kind and owner trust must be granted together''),
      (ib_trust_class b \<noteq> TrustOwner \<and> ib_agent_spec_id b = ''owner'', ''restricted interfaces cannot bind the owner AgentSpec'')]"

definition AgentInterfaceBinding :: "interface_binding \<Rightarrow> validation_error + interface_binding" where
  "AgentInterfaceBinding = construct interface_norm interface_fields reject_owner_spec"

definition scopes_field :: "string list \<Rightarrow> bool" where
  "scopes_field s = (sized 1 100 s \<and> list_all scope_name s \<and> distinct s)"

definition requirement_norm :: "secret_requirement \<Rightarrow> secret_requirement" where
  "requirement_norm r = r\<lparr>sq_name := py_strip (sq_name r), sq_scopes := map py_strip (sq_scopes r)\<rparr>"

definition requirement_fields :: "secret_requirement \<Rightarrow> string list" where
  "requirement_fields r = bad ''name'' (secret_env_name (sq_name r) \<and> \<not> is_reserved_worker_environment_name (sq_name r)) @
     bad ''scopes'' (scopes_field (sq_scopes r))"

definition SecretRequirement :: "secret_requirement \<Rightarrow> validation_error + secret_requirement" where
  "SecretRequirement = construct requirement_norm requirement_fields (\<lambda>_. None)"

definition binding_norm :: "secret_binding \<Rightarrow> secret_binding" where
  "binding_norm b = b\<lparr>sb_handle_id := py_strip (sb_handle_id b), sb_scopes := map py_strip (sb_scopes b)\<rparr>"

definition secret_binding_fields :: "secret_binding \<Rightarrow> string list" where
  "secret_binding_fields b = bad ''handle_id'' (name_of ''_-'' 127 (sb_handle_id b)) @ bad ''revision'' (1 \<le> sb_revision b) @
     bad ''scopes'' (scopes_field (sb_scopes b))"

definition CapabilitySecretBinding :: "secret_binding \<Rightarrow> validation_error + secret_binding" where
  "CapabilitySecretBinding = construct binding_norm secret_binding_fields (\<lambda>_. None)"

definition network_norm :: "network_policy \<Rightarrow> network_policy" where
  "network_norm n = n\<lparr>np_allowed_hosts := map py_strip (np_allowed_hosts n)\<rparr>"

definition network_fields :: "network_policy \<Rightarrow> string list" where
  "network_fields n = bad ''allowed_hosts'' (sized 0 100 (np_allowed_hosts n) \<and> list_all network_host (np_allowed_hosts n))"

definition validate_allowed_hosts :: "network_policy \<Rightarrow> string option" where
  "validate_allowed_hosts n = first_error
     [(\<not> distinct (np_allowed_hosts n), ''network allowed_hosts must be unique''),
      (np_outbound n = OutboundAllowlist \<and> np_allowed_hosts n = [], ''allowlist network policy requires allowed_hosts''),
      (np_outbound n \<noteq> OutboundAllowlist \<and> np_allowed_hosts n \<noteq> [], ''allowed_hosts are only valid for allowlist network policy'')]"

definition NetworkPolicy :: "network_policy \<Rightarrow> validation_error + network_policy" where
  "NetworkPolicy = construct network_norm network_fields validate_allowed_hosts"

definition resource_fields :: "resource_limits \<Rightarrow> string list" where
  "resource_fields r = bad ''cpu'' (positive_upto 32 (rl_cpu r)) @ bad ''memory_mb'' (within 64 65536 (rl_memory_mb r)) @
     bad ''pids'' (within 8 4096 (rl_pids r)) @
     bad ''startup_timeout_seconds'' (positive_upto 600 (rl_startup_timeout_seconds r)) @
     bad ''stop_timeout_seconds'' (positive_upto 120 (rl_stop_timeout_seconds r)) @
     bad ''max_output_bytes'' (within 1024 100000000 (rl_max_output_bytes r))"

definition health_norm :: "health_check \<Rightarrow> health_check" where
  "health_norm h = h\<lparr>hc_target := map_option py_strip (hc_target h)\<rparr>"

definition health_fields :: "health_check \<Rightarrow> string list" where
  "health_fields h = bad ''target'' (opt_fine (sized 0 500) (hc_target h)) @
     bad ''interval_seconds'' (positive_upto 300 (hc_interval_seconds h)) @
     bad ''timeout_seconds'' (positive_upto 60 (hc_timeout_seconds h))"

definition validate_health_target :: "health_check \<Rightarrow> string option" where
  "validate_health_target h =
     (if hc_kind h = HttpHealth
      then first_error [(case hc_target h of None \<Rightarrow> True | Some t \<Rightarrow> \<not> py_prefix ''/'' t, ''http health checks require an absolute path target'')]
      else first_error [(hc_target h \<noteq> None, ''only http health checks accept a target'')])"

definition HealthCheck :: "health_check \<Rightarrow> validation_error + health_check" where
  "HealthCheck = construct health_norm health_fields validate_health_target"

definition tool_export_norm :: "tool_export \<Rightarrow> tool_export" where
  "tool_export_norm x = x\<lparr>te_name := py_strip (te_name x), te_description := py_strip (te_description x), te_schema_digest := py_strip (te_schema_digest x)\<rparr>"

definition tool_export_fields :: "tool_export \<Rightarrow> string list" where
  "tool_export_fields x = bad ''name'' (export_name (te_name x)) @ bad ''description'' (sized 1 2000 (te_description x)) @
     bad ''schema_digest'' (schema_digest (te_schema_digest x)) @ bad ''timeout_seconds'' (positive_upto 3600 (te_timeout_seconds x))"

definition validate_side_effect_idempotency :: "tool_export \<Rightarrow> string option" where
  "validate_side_effect_idempotency x = first_error
     [(te_effect x \<noteq> EffectRead \<and> te_idempotency x = IdempotencyNone, ''side-effecting MCP tools require idempotency'')]"

definition ToolExport :: "tool_export \<Rightarrow> validation_error + tool_export" where
  "ToolExport = construct tool_export_norm tool_export_fields validate_side_effect_idempotency"

text \<open>A nested model as a field: its constructor accepts it.\<close>

definition accepts :: "('w \<Rightarrow> validation_error + 'w) \<Rightarrow> 'w \<Rightarrow> bool" where
  "accepts ctor w = (case ctor w of Inl _ \<Rightarrow> False | Inr _ \<Rightarrow> True)"

definition argument_ok :: "nat \<Rightarrow> string \<Rightarrow> bool" where
  "argument_ok most a = (a \<noteq> [] \<and> a = py_strip a \<and> length a \<le> most \<and> \<not> list_ex (\<lambda>c. c \<in> {CHR 0x00, CHR 0x0A, CHR 0x0D}) a)"

section \<open>Workers\<close>

definition worker_norm :: "worker_spec \<Rightarrow> worker_spec" where
  "worker_norm w = w\<lparr>wk_name := py_strip (wk_name w), wk_protocol := py_strip (wk_protocol w), wk_command := map py_strip (wk_command w),
     wk_endpoint := map_option py_strip (wk_endpoint w), wk_image := map_option py_strip (wk_image w),
     wk_tools := map tool_export_norm (wk_tools w), wk_agent_binding := map_option interface_norm (wk_agent_binding w),
     wk_permissions := map py_strip (wk_permissions w), wk_network := network_norm (wk_network w),
     wk_secrets := map requirement_norm (wk_secrets w), wk_healthcheck := health_norm (wk_healthcheck w)\<rparr>"

definition worker_fields :: "worker_spec \<Rightarrow> string list" where
  "worker_fields w = bad ''name'' (export_name (wk_name w)) @ bad ''protocol'' (protocol_name (wk_protocol w) \<and> sized 0 100 (wk_protocol w)) @
     bad ''command'' (sized 1 64 (wk_command w) \<and> list_all (argument_ok 2000) (wk_command w)) @
     bad ''endpoint'' (opt_fine (sized 0 2000) (wk_endpoint w)) @ bad ''image'' (opt_fine (sized 0 500) (wk_image w)) @
     bad ''tools'' (sized 0 200 (wk_tools w) \<and> list_all (accepts ToolExport) (wk_tools w)) @
     bad ''agent_binding'' (opt_fine (accepts AgentInterfaceBinding) (wk_agent_binding w)) @
     bad ''permissions'' (sized 0 100 (wk_permissions w) \<and> list_all permission_name (wk_permissions w)) @
     bad ''network'' (accepts NetworkPolicy (wk_network w)) @
     bad ''secrets'' (sized 0 100 (wk_secrets w) \<and> list_all (accepts SecretRequirement) (wk_secrets w)) @
     bad ''resources'' (resource_fields (wk_resources w) = []) @ bad ''healthcheck'' (accepts HealthCheck (wk_healthcheck w))"

fun expected_protocol :: "worker_kind \<Rightarrow> string" where
  "expected_protocol InterfaceWorker = ''agent-interface-v1''"
| "expected_protocol McpWorker = ''mcp-v1''"
| "expected_protocol TriggerWorker = ''agent-trigger-v1''"
| "expected_protocol UiWorker = ''web-ui-v1''"

fun kind_value :: "worker_kind \<Rightarrow> string" where
  "kind_value InterfaceWorker = ''interface''"
| "kind_value McpWorker = ''mcp''"
| "kind_value TriggerWorker = ''trigger''"
| "kind_value UiWorker = ''ui''"

definition quoted :: "string \<Rightarrow> string" where
  "quoted s = [CHR 0x27] @ s @ [CHR 0x27]"

definition image_pinned :: "string option \<Rightarrow> bool" where
  "image_pinned v = (case v of None \<Rightarrow> False | Some i \<Rightarrow> i \<noteq> [] \<and> (py_in ''@sha256:'' i \<or> schema_digest i))"

definition api_secrets :: "worker_spec \<Rightarrow> secret_requirement list" where
  "api_secrets w = filter (\<lambda>s. sq_name s = agent_api_token) (wk_secrets w)"

definition validate_runtime_contract :: "worker_spec \<Rightarrow> string option" where
  "validate_runtime_contract w = (let uses_agent_api = (api_secrets w \<noteq> []) in first_error
     [(wk_protocol w \<noteq> expected_protocol (wk_kind w), kind_value (wk_kind w) @ '' workers require protocol '' @ quoted (expected_protocol (wk_kind w))),
      (wk_transport w = Stdio \<and> wk_endpoint w \<noteq> None, ''stdio workers cannot declare an endpoint''),
      (wk_transport w = StreamableHttp \<and> (case wk_endpoint w of None \<Rightarrow> True | Some e \<Rightarrow> \<not> py_prefix ''http://'' e \<and> \<not> py_prefix ''https://'' e),
         ''streamable HTTP workers require an http(s) endpoint''),
      (wk_runtime w = Oci \<and> \<not> image_pinned (wk_image w), ''OCI workers require a digest-pinned image''),
      (wk_runtime w \<noteq> Oci \<and> wk_image w \<noteq> None, ''subprocess workers cannot declare an OCI image''),
      (hc_kind (wk_healthcheck w) = ReadyFile \<and> wk_runtime w \<noteq> Subprocess, ''ready-file health checks require a subprocess worker''),
      (wk_kind w \<noteq> McpWorker \<and> wk_tools w \<noteq> [], ''only MCP workers can export tools''),
      (list_ex (\<lambda>s. sq_source s \<noteq> IssuedSource) (api_secrets w), agent_api_token @ '' must use the issued secret source''),
      (uses_agent_api \<and> wk_kind w \<noteq> InterfaceWorker, ''only interface workers can receive Agent API credentials''),
      (uses_agent_api \<and> wk_agent_binding w = None, ''Agent API interface workers require an agent_binding''),
      (wk_agent_binding w \<noteq> None \<and> \<not> uses_agent_api, ''agent_binding requires an issued Agent API credential''),
      (\<not> distinct (map te_name (wk_tools w)), ''worker tools must be unique''),
      (\<not> distinct (wk_permissions w), ''worker permissions must be unique''),
      (\<not> distinct (map sq_name (wk_secrets w)), ''worker secrets must be unique'')])"

definition WorkerSpec :: "worker_spec \<Rightarrow> validation_error + worker_spec" where
  "WorkerSpec = construct worker_norm worker_fields validate_runtime_contract"

section \<open>Manifest\<close>

definition eval_norm :: "eval_command \<Rightarrow> eval_command" where
  "eval_norm e = e\<lparr>ev_argv := map py_strip (ev_argv e)\<rparr>"

definition eval_fields :: "eval_command \<Rightarrow> string list" where
  "eval_fields e = bad ''argv'' (sized 1 64 (ev_argv e) \<and> list_all (argument_ok 1000) (ev_argv e)) @ bad ''timeout_seconds'' (within 1 3600 (ev_timeout_seconds e))"

definition EvalCommand :: "eval_command \<Rightarrow> validation_error + eval_command" where
  "EvalCommand = construct eval_norm eval_fields (\<lambda>_. None)"

definition strip_keys :: "(string \<times> 'v) list \<Rightarrow> (string \<times> 'v) list" where
  "strip_keys d = dict_of (map (\<lambda>(k, v). (py_strip k, v)) d)"

definition manifest_norm :: "capability_manifest \<Rightarrow> capability_manifest" where
  "manifest_norm m = m\<lparr>cm_name := py_strip (cm_name m), cm_version := py_strip (cm_version m),
     cm_artifact_digest := map_option py_strip (cm_artifact_digest m), cm_config_schema := strip_keys (cm_config_schema m),
     cm_workers := map worker_norm (cm_workers m), cm_module := map_option py_strip (cm_module m),
     cm_entrypoint := map_option py_strip (cm_entrypoint m), cm_dependencies := map py_strip (cm_dependencies m),
     cm_tools := map py_strip (cm_tools m), cm_services := map py_strip (cm_services m), cm_permissions := map py_strip (cm_permissions m),
     cm_network := network_norm (cm_network m), cm_secrets := map requirement_norm (cm_secrets m), cm_eval_commands := map eval_norm (cm_eval_commands m)\<rparr>"

definition module_text :: "string \<Rightarrow> bool" where
  "module_text s = (let ps = split_on (CHR ''.'') s in 2 \<le> length ps \<and> list_all py_identifier ps)"

definition manifest_fields :: "capability_manifest \<Rightarrow> string list" where
  "manifest_fields m = bad ''name'' (capability_name (cm_name m)) @ bad ''version'' (version_text (cm_version m) \<and> sized 0 100 (cm_version m)) @
     bad ''revision'' (1 \<le> cm_revision m) @ bad ''artifact_digest'' (opt_fine schema_digest (cm_artifact_digest m)) @
     bad ''workers'' (sized 0 100 (cm_workers m) \<and> list_all (accepts WorkerSpec) (cm_workers m)) @
     bad ''module'' (opt_fine (\<lambda>s. module_text s \<and> sized 0 300 s) (cm_module m)) @
     bad ''entrypoint'' (opt_fine (\<lambda>s. py_identifier s \<and> sized 0 100 s) (cm_entrypoint m)) @
     bad ''dependencies'' (sized 0 100 (cm_dependencies m) \<and> list_all (sized 1 200) (cm_dependencies m)) @
     bad ''tools'' (sized 0 200 (cm_tools m) \<and> list_all export_name (cm_tools m)) @
     bad ''services'' (sized 0 100 (cm_services m) \<and> list_all export_name (cm_services m)) @
     bad ''permissions'' (sized 0 100 (cm_permissions m) \<and> list_all permission_name (cm_permissions m)) @
     bad ''network'' (accepts NetworkPolicy (cm_network m)) @
     bad ''secrets'' (sized 0 100 (cm_secrets m) \<and> list_all (accepts SecretRequirement) (cm_secrets m)) @
     bad ''eval_commands'' (sized 1 100 (cm_eval_commands m) \<and> list_all (accepts EvalCommand) (cm_eval_commands m))"

definition worker_tools :: "capability_manifest \<Rightarrow> string list" where
  "worker_tools m = concat (map (\<lambda>w. map te_name (wk_tools w)) (cm_workers m))"

definition all_secrets :: "capability_manifest \<Rightarrow> secret_requirement list" where
  "all_secrets m = cm_secrets m @ concat (map wk_secrets (cm_workers m))"

text \<open>The loop over all secrets; \<open>seen\<close> is the dict \<open>secret_contracts\<close>.\<close>

fun secret_contracts :: "(string \<times> secret_source \<times> string list) list \<Rightarrow> secret_requirement list \<Rightarrow> string option" where
  "secret_contracts seen [] = None"
| "secret_contracts seen (s # ss) =
     (if sq_name s = agent_api_token \<and> sq_source s \<noteq> IssuedSource then Some (agent_api_token @ '' must use the issued secret source'')
      else case map_of seen (sq_name s) of
        None \<Rightarrow> secret_contracts ((sq_name s, sq_source s, sq_scopes s) # seen) ss
      | Some c \<Rightarrow> if c \<noteq> (sq_source s, sq_scopes s) then Some (''secret '' @ quoted (sq_name s) @ '' has inconsistent source or scopes'')
          else secret_contracts seen ss)"

definition validate_manifest :: "capability_manifest \<Rightarrow> string option" where
  "validate_manifest m = (case first_error
     [((cm_module m = None) \<noteq> (cm_entrypoint m = None), ''module and entrypoint must be declared together''),
      (cm_module m = None \<and> cm_workers m = [], ''a capability requires a worker or import entrypoint''),
      (map_of (cm_config_schema m) ''type'' \<noteq> Some (JStr ''object''), ''capability config_schema must describe an object''),
      (\<not> json_finite (JObj (cm_config_schema m)), ''capability config_schema must contain only JSON values''),
      (\<not> distinct (cm_dependencies m), ''capability dependencies must be unique''),
      (\<not> distinct (cm_tools m), ''capability tools must be unique''),
      (\<not> distinct (cm_services m), ''capability services must be unique''),
      (\<not> distinct (cm_permissions m), ''capability permissions must be unique''),
      (\<not> distinct (map sq_name (cm_secrets m)), ''capability secrets must be unique''),
      (\<not> distinct (map wk_name (cm_workers m)), ''capability workers must be unique''),
      (\<not> distinct (map ev_argv (cm_eval_commands m)), ''capability eval_commands must be unique''),
      (\<not> distinct (worker_tools m), ''capability worker tool exports must be unique'')] of
     Some e \<Rightarrow> Some e | None \<Rightarrow> secret_contracts [] (all_secrets m))"

definition CapabilityManifest :: "capability_manifest \<Rightarrow> validation_error + capability_manifest" where
  "CapabilityManifest = construct manifest_norm manifest_fields validate_manifest"

definition module_entrypoint :: "capability_manifest \<Rightarrow> string" where
  "module_entrypoint m = (case (cm_module m, cm_entrypoint m) of (Some a, Some b) \<Rightarrow> a @ '':'' @ b | _ \<Rightarrow> [])"

text \<open>\<open>tuple(dict.fromkeys(...))\<close>: the first occurrence of each name.\<close>

definition exported_tools :: "capability_manifest \<Rightarrow> string list" where
  "exported_tools m = rev (remdups (rev (cm_tools m @ worker_tools m)))"

definition canonical_json_digest :: "(string \<Rightarrow> string) \<Rightarrow> json \<Rightarrow> string option" where
  "canonical_json_digest sha v = (if json_finite v then Some (''sha256:'' @ sha (utf8 (json_dumps (sort_json v)))) else None)"

definition content_digest :: "(string \<Rightarrow> string) \<Rightarrow> (capability_manifest \<Rightarrow> json) \<Rightarrow> capability_manifest \<Rightarrow> string option" where
  "content_digest sha dump m = canonical_json_digest sha (dump m)"

section \<open>Accepted manifests\<close>

lemma first_error_None [simp]: "first_error cs = None \<longleftrightarrow> (\<forall>c \<in> set cs. \<not> fst c)"
  by (auto simp: first_error_def find_None_iff)

lemma accepts_construct: "accepts (construct norm flds validate) w \<longleftrightarrow> flds (norm w) = [] \<and> validate (norm w) = None"
  by (auto simp: accepts_def construct_def Let_def split: option.splits)

lemma part_norms [simp]:
  "interface_norm (interface_norm b) = interface_norm b" "requirement_norm (requirement_norm r) = requirement_norm r"
  "network_norm (network_norm n) = network_norm n" "health_norm (health_norm h) = health_norm h"
  "tool_export_norm (tool_export_norm x) = tool_export_norm x" "eval_norm (eval_norm e) = eval_norm e" "binding_norm (binding_norm c) = binding_norm c"
  by (simp_all add: interface_norm_def requirement_norm_def network_norm_def health_norm_def tool_export_norm_def eval_norm_def binding_norm_def
      option.map_comp comp_def)

lemma map_fix: "map f xs = xs \<longleftrightarrow> (\<forall>x \<in> set xs. f x = x)"
  by (induction xs) auto

lemma strip_keys_idem [simp]: "strip_keys (strip_keys d) = strip_keys d"
proof -
  have "map (\<lambda>(k, v). (py_strip k, v)) (strip_keys d) = strip_keys d"
    unfolding strip_keys_def by (rule map_idI) (auto dest!: dict_of_mem)
  then show ?thesis by (simp add: strip_keys_def [of "strip_keys d"]) (simp add: strip_keys_def dict_of_distinct_id)
qed

lemma worker_norm_idem [simp]: "worker_norm (worker_norm w) = worker_norm w"
  by (simp add: worker_norm_def option.map_comp comp_def)

lemma manifest_norm_idem [simp]: "manifest_norm (manifest_norm m) = manifest_norm m"
  by (simp add: manifest_norm_def option.map_comp comp_def)

lemma manifest_again: "CapabilityManifest w = Inr m \<Longrightarrow> CapabilityManifest m = Inr m"
  unfolding CapabilityManifest_def by (rule construct_again) simp_all

lemma manifestD:
  assumes "CapabilityManifest w = Inr m"
  shows "manifest_norm m = m" "manifest_fields m = []" "validate_manifest m = None"
proof -
  note d = constructD [OF assms [unfolded CapabilityManifest_def]]
  show "manifest_fields m = []" "validate_manifest m = None" using d by blast+
  show "manifest_norm m = m" using d by (simp only: manifest_norm_idem)
qed

definition same_contract :: "secret_requirement \<Rightarrow> secret_requirement \<Rightarrow> bool" where
  "same_contract s s' = (sq_name s = sq_name s' \<longrightarrow> sq_source s = sq_source s' \<and> sq_scopes s = sq_scopes s')"

definition agrees :: "(string \<times> secret_source \<times> string list) list \<Rightarrow> secret_requirement \<Rightarrow> bool" where
  "agrees seen s = (case map_of seen (sq_name s) of None \<Rightarrow> True | Some c \<Rightarrow> c = (sq_source s, sq_scopes s))"

lemma same_contract_sym: "same_contract s s' = same_contract s' s"
  by (auto simp: same_contract_def)

lemma agrees_Cons:
  "map_of seen (sq_name s) = None \<Longrightarrow> agrees ((sq_name s, sq_source s, sq_scopes s) # seen) x \<longleftrightarrow> agrees seen x \<and> same_contract s x"
  by (auto simp: agrees_def same_contract_def)

lemma agrees_trans: "map_of seen (sq_name s) = Some (sq_source s, sq_scopes s) \<Longrightarrow> agrees seen x \<Longrightarrow> same_contract s x"
  by (auto simp: agrees_def same_contract_def split: option.splits)

lemma secret_contracts_None:
  "secret_contracts seen ss = None \<longleftrightarrow> (\<forall>s \<in> set ss. sq_name s = agent_api_token \<longrightarrow> sq_source s = IssuedSource) \<and>
     (\<forall>s \<in> set ss. agrees seen s) \<and> (\<forall>s \<in> set ss. \<forall>s' \<in> set ss. same_contract s s')"
proof (induction seen ss rule: secret_contracts.induct)
  case (2 seen s ss)
  have self: "same_contract s s" by (simp add: same_contract_def)
  show ?case
  proof (cases "sq_name s = agent_api_token \<and> sq_source s \<noteq> IssuedSource")
    case True
    then show ?thesis by auto
  next
    case fine: False
    show ?thesis
    proof (cases "map_of seen (sq_name s)")
      case None
      have "secret_contracts seen (s # ss) = secret_contracts ((sq_name s, sq_source s, sq_scopes s) # seen) ss"
        using None by (simp only: secret_contracts.simps if_not_P [OF fine] option.case)
      then show ?thesis
        using 2(1) [OF fine None] agrees_Cons [OF None] same_contract_sym self fine None by (simp add: agrees_def [of seen s]) blast
    next
      case (Some c)
      show ?thesis
      proof (cases "c = (sq_source s, sq_scopes s)")
        case True
        have "secret_contracts seen (s # ss) = secret_contracts seen ss"
          using Some True by (simp only: secret_contracts.simps if_not_P [OF fine] option.case) simp
        then show ?thesis
          using 2(2) [OF fine Some] agrees_trans [OF Some [unfolded True]] same_contract_sym self fine Some True by (simp add: agrees_def [of seen s]) blast
      next
        case False
        with fine Some show ?thesis by (auto simp: agrees_def)
      qed
    qed
  qed
qed simp

definition worker_contained :: "worker_spec \<Rightarrow> bool" where
  "worker_contained w = ((list_ex (\<lambda>s. sq_name s = agent_api_token) (wk_secrets w) \<longleftrightarrow> wk_agent_binding w \<noteq> None) \<and>
     (case wk_agent_binding w of None \<Rightarrow> True
      | Some b \<Rightarrow> wk_kind w = InterfaceWorker \<and> (ib_trust_class b = TrustOwner \<longleftrightarrow> ib_run_kind b = ''owner'') \<and> (ib_agent_spec_id b = ''owner'' \<longrightarrow> ib_trust_class b = TrustOwner)) \<and>
     list_all (\<lambda>x. wk_kind w = McpWorker \<and> (te_effect x = EffectRead \<or> te_idempotency x \<noteq> IdempotencyNone)) (wk_tools w) \<and>
     (wk_runtime w = Oci \<longrightarrow> image_pinned (wk_image w)))"

lemma worker_accepted:
  assumes "worker_norm w = w" "worker_fields w = []" "validate_runtime_contract w = None"
  shows "worker_contained w" "s \<in> set (wk_secrets w) \<Longrightarrow> requirement_fields s = []"
proof -
  have n: "map tool_export_norm (wk_tools w) = wk_tools w" "map_option interface_norm (wk_agent_binding w) = wk_agent_binding w"
    "map requirement_norm (wk_secrets w) = wk_secrets w"
    using arg_cong [OF assms(1), of wk_tools] arg_cong [OF assms(1), of wk_agent_binding] arg_cong [OF assms(1), of wk_secrets]
    by (simp_all add: worker_norm_def)
  have tools: "x \<in> set (wk_tools w) \<Longrightarrow> validate_side_effect_idempotency x = None" for x
    using assms(2) n(1) by (auto simp: worker_fields_def ToolExport_def accepts_construct list_all_iff map_fix)
  have bind: "wk_agent_binding w = Some b \<Longrightarrow> reject_owner_spec b = None" for b
    using assms(2) n(2) by (auto simp: worker_fields_def AgentInterfaceBinding_def accepts_construct opt_fine_def)
  show "s \<in> set (wk_secrets w) \<Longrightarrow> requirement_fields s = []"
    using assms(2) n(3) by (auto simp: worker_fields_def SecretRequirement_def accepts_construct list_all_iff map_fix)
  have api: "list_ex (\<lambda>s. sq_name s = agent_api_token) (wk_secrets w) \<longleftrightarrow> api_secrets w \<noteq> []"
    by (auto simp: api_secrets_def list_ex_iff filter_empty_conv)
  have c: "wk_kind w \<noteq> McpWorker \<Longrightarrow> wk_tools w = []" "api_secrets w \<noteq> [] \<Longrightarrow> wk_kind w = InterfaceWorker"
    "api_secrets w \<noteq> [] \<Longrightarrow> wk_agent_binding w \<noteq> None" "wk_agent_binding w \<noteq> None \<Longrightarrow> api_secrets w \<noteq> []"
    "wk_runtime w = Oci \<Longrightarrow> image_pinned (wk_image w)"
    using assms(3) unfolding validate_runtime_contract_def Let_def first_error_None by simp_all
  show "worker_contained w"
    unfolding worker_contained_def api
  proof (intro conjI)
    show "(api_secrets w \<noteq> []) = (wk_agent_binding w \<noteq> None)" using c(3,4) by blast
    show "case wk_agent_binding w of None \<Rightarrow> True | Some b \<Rightarrow> wk_kind w = InterfaceWorker \<and> (ib_trust_class b = TrustOwner \<longleftrightarrow> ib_run_kind b = ''owner'') \<and>
        (ib_agent_spec_id b = ''owner'' \<longrightarrow> ib_trust_class b = TrustOwner)"
      using c(2,4) bind by (cases "wk_agent_binding w") (auto simp: reject_owner_spec_def)
    show "list_all (\<lambda>x. wk_kind w = McpWorker \<and> (te_effect x = EffectRead \<or> te_idempotency x \<noteq> IdempotencyNone)) (wk_tools w)"
      using c(1) tools by (cases "wk_kind w = McpWorker") (auto simp: validate_side_effect_idempotency_def list_all_iff)
    show "wk_runtime w = Oci \<longrightarrow> image_pinned (wk_image w)" using c(5) by blast
  qed
qed

lemma accepted_manifest:
  assumes "CapabilityManifest w = Inr m"
  shows "s \<in> set (all_secrets m) \<Longrightarrow> requirement_fields s = []" "x \<in> set (cm_workers m) \<Longrightarrow> worker_contained x"
    "secret_contracts [] (all_secrets m) = None"
proof -
  note d = manifestD [OF assms]
  have n: "map worker_norm (cm_workers m) = cm_workers m" "map requirement_norm (cm_secrets m) = cm_secrets m"
    using arg_cong [OF d(1), of cm_workers] arg_cong [OF d(1), of cm_secrets] by (simp_all add: manifest_norm_def)
  have w: "worker_norm x = x" "worker_fields x = []" "validate_runtime_contract x = None" if "x \<in> set (cm_workers m)" for x
    using d(2) n(1) that by (simp_all add: manifest_fields_def WorkerSpec_def accepts_construct list_all_iff map_fix)
  have own: "requirement_fields s = []" if "s \<in> set (cm_secrets m)" for s
    using d(2) n(2) that by (simp add: manifest_fields_def SecretRequirement_def accepts_construct list_all_iff map_fix)
  show "s \<in> set (all_secrets m) \<Longrightarrow> requirement_fields s = []" using own worker_accepted(2) [OF w] by (auto simp: all_secrets_def)
  show "x \<in> set (cm_workers m) \<Longrightarrow> worker_contained x" by (rule worker_accepted(1) [OF w])
  show "secret_contracts [] (all_secrets m) = None" using d(3) unfolding validate_manifest_def by (auto split: option.splits)
qed

section \<open>Properties\<close>

text \<open>
  C18: What an accepted manifest may do with secrets and tools. No secret is handed to a worker under a
  name that controls the launcher, the Agent API credential is always issued by the host, and every
  secret name means the same source and scopes wherever the manifest uses it. A worker receives that
  credential exactly when it has an agent binding; then it is an interface worker and is not bound to
  the owner without the owner's trust. Only MCP workers export tools, under names that are unique in
  the manifest, and a tool with a side effect is idempotent. Reading the manifest again accepts it
  unchanged.
\<close>

theorem manifest_contains_authority:
  assumes "CapabilityManifest w = Inr m"
  shows "(\<forall>s \<in> set (all_secrets m). \<not> is_reserved_worker_environment_name (sq_name s) \<and> (sq_name s = agent_api_token \<longrightarrow> sq_source s = IssuedSource)) \<and>
    (\<forall>s \<in> set (all_secrets m). \<forall>s' \<in> set (all_secrets m). same_contract s s') \<and>
    list_all worker_contained (cm_workers m) \<and> distinct (worker_tools m) \<and> CapabilityManifest m = Inr m"
proof -
  have "\<not> is_reserved_worker_environment_name (sq_name s)" if "s \<in> set (all_secrets m)" for s
    using accepted_manifest(1) [OF assms that] by (auto simp: requirement_fields_def)
  moreover have "list_all worker_contained (cm_workers m)" using accepted_manifest(2) [OF assms] by (simp add: list_all_iff)
  moreover have "distinct (worker_tools m)" using manifestD(3) [OF assms] unfolding validate_manifest_def by (auto split: option.splits)
  ultimately show ?thesis using accepted_manifest(3) [OF assms, unfolded secret_contracts_None] manifest_again [OF assms] by blast
qed

definition example_limits :: resource_limits where
  "example_limits = \<lparr>rl_cpu = Dyadic 1 1, rl_memory_mb = 512, rl_pids = 128, rl_startup_timeout_seconds = Dyadic 30 0,
     rl_stop_timeout_seconds = Dyadic 10 0, rl_max_output_bytes = 1000000\<rparr>"

definition closed_network :: network_policy where
  "closed_network = \<lparr>np_inbound = False, np_outbound = OutboundDeny, np_allowed_hosts = []\<rparr>"

definition example_worker :: worker_spec where
  "example_worker = \<lparr>wk_name = ''telegram'', wk_kind = InterfaceWorker, wk_protocol = ''agent-interface-v1'', wk_runtime = Subprocess,
     wk_transport = Stdio, wk_command = [''python''], wk_endpoint = None, wk_image = None, wk_tools = [],
     wk_agent_binding = Some \<lparr>ib_agent_spec_id = ''intake'', ib_run_kind = ''intake'', ib_trust_class = TrustExternal\<rparr>, wk_permissions = [''agent.run''],
     wk_network = \<lparr>np_inbound = False, np_outbound = OutboundAllowlist, np_allowed_hosts = [''*.telegram.org:443'']\<rparr>,
     wk_secrets = [\<lparr>sq_name = agent_api_token, sq_scopes = [''agent.run''], sq_source = IssuedSource, sq_required = True\<rparr>],
     wk_resources = example_limits, wk_healthcheck = \<lparr>hc_kind = ProcessHealth, hc_target = None, hc_interval_seconds = Dyadic 10 0, hc_timeout_seconds = Dyadic 5 0\<rparr>,
     wk_required = True\<rparr>"

definition example_manifest :: capability_manifest where
  "example_manifest = \<lparr>cm_name = ''telegram'', cm_version = ''1.0.0-rc.1'', cm_revision = 1, cm_artifact_digest = None,
     cm_config_schema = [(''type'', JStr ''object'')], cm_workers = [example_worker], cm_module = None, cm_entrypoint = None,
     cm_dependencies = [], cm_tools = [], cm_services = [], cm_permissions = [''agent.run''], cm_network = closed_network, cm_secrets = [],
     cm_eval_commands = [\<lparr>ev_argv = [''pytest'', ''-q''], ev_timeout_seconds = 60\<rparr>], cm_seed = False\<rparr>"

lemma example_manifest_ok: "CapabilityManifest example_manifest = Inr example_manifest"
  by code_simp

theorem manifest_contains_authority_witness:
  "list_all worker_contained (cm_workers example_manifest) \<and> distinct (worker_tools example_manifest)"
  using manifest_contains_authority [OF example_manifest_ok] by blast

end
