(* ===== verification/CapabilityLifecycle.thy ===== *)
theory CapabilityLifecycle
  imports CapabilityStore
begin

text \<open>
  What \<open>CapabilityRevisionStore\<close> promises. The specification keeps for every capability the list of its
  manifests, the pointer with its lifecycle state, and the test results, all as functions of their
  keys. The store implements it; what holds for the specification is then carried over.
\<close>

section \<open>Calls\<close>

datatype cap_call =
    AppendRevision string capability_manifest "int option" timestamp
  | GetManifest string string int
  | Activate string string int "int option" "(string \<times> json) list" "(string \<times> string) list" "(string \<times> secret_binding) list"
      "run_binding option" timestamp
  | BeginDeactivation string string int
  | CancelDeactivation string string int
  | Deactivate string string int
  | RecordTest test_result
  | ReadActivation activation_state string string
  | NextGeneration string string
  | ReadTest string string int

datatype cap_result =
    GotManifest "capability_manifest option"
  | GotActivation "capability_activation option"
  | GotTest "test_result option"
  | GotGeneration int

type_synonym cap_answer = "capability_error + cap_result"

text \<open>The models a caller passes are built by their constructors.\<close>

definition built :: "('w \<Rightarrow> validation_error + 'w) \<Rightarrow> 'w \<Rightarrow> capability_error + 'w" where
  "built ctor w = map_sum CapabilityValidationError id (ctor w)"

fun built_opt :: "('w \<Rightarrow> validation_error + 'w) \<Rightarrow> 'w option \<Rightarrow> capability_error + 'w option" where
  "built_opt ctor None = Inr None"
| "built_opt ctor (Some w) = map_sum CapabilityValidationError Some (ctor w)"

fun built_values :: "(string \<times> secret_binding) list \<Rightarrow> capability_error + (string \<times> secret_binding) list" where
  "built_values [] = Inr []"
| "built_values ((k, b) # kbs) = (case built CapabilitySecretBinding b of Inl e \<Rightarrow> Inl e
     | Inr c \<Rightarrow> (case built_values kbs of Inl e \<Rightarrow> Inl e | Inr cs \<Rightarrow> Inr ((k, c) # cs)))"

definition answer :: "('a \<Rightarrow> cap_result) \<Rightarrow> (capability_error + 'a) \<times> 'db \<Rightarrow> cap_answer \<times> 'db" where
  "answer f = map_prod (map_sum id f) id"

fun cap_exec :: "capability_env \<Rightarrow> cap_call \<Rightarrow> capability_db \<Rightarrow> cap_answer \<times> capability_db" where
  "cap_exec E (AppendRevision ns w e now) db =
     checked (built CapabilityManifest w) (\<lambda>m db. answer (GotManifest \<circ> Some) (append_revision E ns m e now db)) db"
| "cap_exec E (GetManifest ns n i) db = answer GotManifest (get_manifest E ns n i db, db)"
| "cap_exec E (Activate ns n i g c h b a now) db =
     checked (built_values b) (\<lambda>b. checked (built_opt AgentRunBinding a) (\<lambda>a db.
       answer (GotActivation \<circ> Some) (activate_capability E ns n i g c h b a now db))) db"
| "cap_exec E (BeginDeactivation ns n g) db = answer (GotActivation \<circ> Some) (begin_deactivation ns n g db)"
| "cap_exec E (CancelDeactivation ns n g) db = answer (GotActivation \<circ> Some) (cancel_deactivation ns n g db)"
| "cap_exec E (Deactivate ns n g) db = answer (GotActivation \<circ> Some) (deactivate ns n g db)"
| "cap_exec E (RecordTest w) db = checked (built CapabilityTestResult w) (\<lambda>r db. answer (GotTest \<circ> Some) (record_test r db)) db"
| "cap_exec E (ReadActivation s ns n) db = answer GotActivation (read_activation s ns n db, db)"
| "cap_exec E (NextGeneration ns n) db = answer GotGeneration (next_generation ns n db, db)"
| "cap_exec E (ReadTest ns n i) db = answer GotTest (read_test ns n i db, db)"

section \<open>Specification\<close>

type_synonym cap_key = "string \<times> string"

record cap_abs =
  ab_archive :: "cap_key \<Rightarrow> capability_manifest list"
  ab_pointer :: "cap_key \<Rightarrow> (capability_activation \<times> activation_state) option"
  ab_tests :: "cap_key \<times> int \<Rightarrow> test_result option"

definition nth_manifest :: "capability_manifest list \<Rightarrow> int \<Rightarrow> capability_manifest option" where
  "nth_manifest ms i = (if 1 \<le> i \<and> i \<le> int (length ms) then Some (ms ! nat (i - 1)) else None)"

definition digest_text :: "capability_env \<Rightarrow> capability_manifest \<Rightarrow> string" where
  "digest_text E m = (case digest_of E m of Inl _ \<Rightarrow> [] | Inr d \<Rightarrow> d)"

definition spec_append :: "capability_env \<Rightarrow> string \<Rightarrow> capability_manifest \<Rightarrow> int option \<Rightarrow> cap_abs \<Rightarrow> (capability_error + capability_manifest) \<times> cap_abs" where
  "spec_append E namespace m e = checked (namespace_of namespace) (\<lambda>ns A.
     let ms = ab_archive A (ns, cm_name m); n = int (length ms); current = (if ms = [] then None else Some n) in
     if current \<noteq> e then raises (LatestRevisionConflict e current) A
     else if cm_revision m \<noteq> n + 1 then raises (NewRevisionConflict (n + 1) (cm_revision m)) A
     else checked (digest_of E m) (\<lambda>_ A. ok m (A\<lparr>ab_archive := (ab_archive A)((ns, cm_name m) := ms @ [m])\<rparr>)) A)"

definition spec_activate :: "capability_env \<Rightarrow> string \<Rightarrow> string \<Rightarrow> int \<Rightarrow> int option \<Rightarrow> (string \<times> json) list \<Rightarrow> (string \<times> string) list \<Rightarrow>
    (string \<times> secret_binding) list \<Rightarrow> run_binding option \<Rightarrow> timestamp \<Rightarrow> cap_abs \<Rightarrow> (capability_error + capability_activation) \<times> cap_abs" where
  "spec_activate E namespace name i e config handles bindings binding now = checked (namespace_of namespace) (\<lambda>ns.
     checked (case binding of None \<Rightarrow> Inr ()
        | Some b \<Rightarrow> if ref_tenant_id (rb_agent_spec b) \<noteq> ns then Inl (CapabilityValueError ''capability agent binding belongs to a different tenant'') else Inr ()) (\<lambda>_.
     checked (if json_finite (JObj (dict_of config)) then Inr () else Inl (CapabilityValueError ''capability activation values must be JSON serializable'')) (\<lambda>_ A.
       case nth_manifest (ab_archive A (ns, name)) i of None \<Rightarrow> raises (RevisionNotFound name i) A
       | Some m \<Rightarrow> (let pointer = ab_pointer A (ns, name);
             visible = (case pointer of Some (a, CapActive) \<Rightarrow> Some a | _ \<Rightarrow> None);
             new = \<lparr>ca_namespace = ns, ca_name = name, ca_revision = i, ca_digest = digest_text E m,
               ca_generation = (case pointer of None \<Rightarrow> 1 | Some (a, _) \<Rightarrow> ca_generation a + 1), ca_activated_at = now, ca_config = dict_of config,
               ca_secret_handles = dict_of handles, ca_secret_bindings = dict_of bindings, ca_agent_binding = binding\<rparr> in
           if map_option snd pointer = Some CapDeactivating then raises DeactivationInProgress A
           else if map_option ca_generation visible \<noteq> e then raises (GenerationConflict e (map_option ca_generation visible)) A
           else case visible of
             Some a \<Rightarrow> if ca_revision a = i \<and> same_settings a new then ok a A
               else ok (activation_norm new) (A\<lparr>ab_pointer := (ab_pointer A)((ns, name) \<mapsto> (activation_norm (columns_of new), CapActive))\<rparr>)
           | None \<Rightarrow> ok (activation_norm new) (A\<lparr>ab_pointer := (ab_pointer A)((ns, name) \<mapsto> (activation_norm (columns_of new), CapActive))\<rparr>)))))"

text \<open>A move of the lifecycle: from one state to another, repeated without effect, refused elsewhere.\<close>

definition spec_move :: "capability_error \<Rightarrow> capability_error \<Rightarrow> activation_state \<Rightarrow> activation_state \<Rightarrow> string \<Rightarrow> string \<Rightarrow> int \<Rightarrow> cap_abs \<Rightarrow>
    (capability_error + capability_activation) \<times> cap_abs" where
  "spec_move absent refused source target namespace name g = checked (namespace_of namespace) (\<lambda>ns A.
     case ab_pointer A (ns, name) of None \<Rightarrow> raises absent A
     | Some (a, state) \<Rightarrow>
         if ca_generation a \<noteq> g then raises (GenerationConflict (Some g) (Some (ca_generation a))) A
         else if state = target then ok a A
         else if state \<noteq> source then raises refused A
         else ok a (A\<lparr>ab_pointer := (ab_pointer A)((ns, name) \<mapsto> (a, target))\<rparr>))"

definition spec_record :: "capability_env \<Rightarrow> test_result \<Rightarrow> cap_abs \<Rightarrow> (capability_error + test_result) \<times> cap_abs" where
  "spec_record E r = checked (namespace_of (tr_namespace r)) (\<lambda>ns A.
     case nth_manifest (ab_archive A (ns, tr_name r)) (tr_revision r) of None \<Rightarrow> raises (RevisionNotFound (tr_name r) (tr_revision r)) A
     | Some m \<Rightarrow> if digest_text E m \<noteq> tr_digest r then raises TestDigestConflict A
         else ok r (A\<lparr>ab_tests := (ab_tests A)(test_key r \<mapsto> r)\<rparr>))"

definition spec_read :: "(string \<Rightarrow> cap_abs \<Rightarrow> capability_error + 'a) \<Rightarrow> string \<Rightarrow> cap_abs \<Rightarrow> (capability_error + 'a) \<times> cap_abs" where
  "spec_read f namespace A = (case namespace_of namespace of Inl e \<Rightarrow> Inl e | Inr ns \<Rightarrow> f ns A, A)"

fun cap_spec :: "capability_env \<Rightarrow> cap_call \<Rightarrow> cap_abs \<Rightarrow> cap_answer \<times> cap_abs" where
  "cap_spec E (AppendRevision ns w e now) A = checked (built CapabilityManifest w) (\<lambda>m A. answer (GotManifest \<circ> Some) (spec_append E ns m e A)) A"
| "cap_spec E (GetManifest ns n i) A = answer GotManifest (spec_read (\<lambda>ns A. Inr (nth_manifest (ab_archive A (ns, n)) i)) ns A)"
| "cap_spec E (Activate ns n i g c h b a now) A =
     checked (built_values b) (\<lambda>b. checked (built_opt AgentRunBinding a) (\<lambda>a A. answer (GotActivation \<circ> Some) (spec_activate E ns n i g c h b a now A))) A"
| "cap_spec E (BeginDeactivation ns n g) A =
     answer (GotActivation \<circ> Some) (spec_move (CapabilityNotActive n) (CapabilityNotActive n) CapActive CapDeactivating ns n g A)"
| "cap_spec E (CancelDeactivation ns n g) A =
     answer (GotActivation \<circ> Some) (spec_move (NoLifecycleRecord n) NotInDeactivation CapDeactivating CapActive ns n g A)"
| "cap_spec E (Deactivate ns n g) A =
     answer (GotActivation \<circ> Some) (spec_move (NoLifecycleRecord n) NotInDeactivation CapDeactivating CapInactive ns n g A)"
| "cap_spec E (RecordTest w) A = checked (built CapabilityTestResult w) (\<lambda>r A. answer (GotTest \<circ> Some) (spec_record E r A)) A"
| "cap_spec E (ReadActivation s ns n) A = answer GotActivation
     (spec_read (\<lambda>ns A. Inr (case ab_pointer A (ns, n) of None \<Rightarrow> None | Some (a, state) \<Rightarrow> if state = s then Some a else None)) ns A)"
| "cap_spec E (NextGeneration ns n) A = answer GotGeneration
     (spec_read (\<lambda>ns A. case ab_pointer A (ns, n) of None \<Rightarrow> Inr 1
        | Some (a, state) \<Rightarrow> if state = CapDeactivating then Inl DeactivationInProgress else Inr (ca_generation a + 1)) ns A)"
| "cap_spec E (ReadTest ns n i) A = answer GotTest (spec_read (\<lambda>ns A. Inr (ab_tests A ((ns, n), i))) ns A)"

section \<open>Abstraction and invariant\<close>

definition cap_abs :: "capability_db \<Rightarrow> cap_abs" where
  "cap_abs db = \<lparr>ab_archive = (\<lambda>k. map kr_manifest (entries_of k db)),
     ab_pointer = (\<lambda>k. map_option (\<lambda>r. (activation_norm (ar_activation r), ar_state r)) (pointer_at k db)),
     ab_tests = (\<lambda>k. sel (\<lambda>x. test_key x = k) (capability_test_results db))\<rparr>"

definition entry_fine :: "capability_env \<Rightarrow> revision_entry \<Rightarrow> bool" where
  "entry_fine E r = (kr_name r = cm_name (kr_manifest r) \<and> kr_revision r = cm_revision (kr_manifest r) \<and>
     CapabilityManifest (kr_manifest r) = Inr (kr_manifest r) \<and> digest_of E (kr_manifest r) = Inr (kr_digest r))"

definition pointer_fine :: "activation_row \<Rightarrow> bool" where
  "pointer_fine r = (CapabilityActivation (ar_activation r) = Inr (activation_norm (ar_activation r)) \<and>
     py_strip (ca_namespace (ar_activation r)) = ca_namespace (ar_activation r) \<and> py_strip (ca_name (ar_activation r)) = ca_name (ar_activation r))"

definition cap_inv :: "capability_env \<Rightarrow> capability_db \<Rightarrow> bool" where
  "cap_inv E db = ((\<forall>k. map kr_revision (entries_of k db) = map int [1..<Suc (length (entries_of k db))]) \<and>
     (\<forall>r \<in> set (capability_revisions db). entry_fine E r) \<and>
     distinct (map pointer_key (capability_activations db)) \<and> (\<forall>r \<in> set (capability_activations db). pointer_fine r) \<and>
     distinct (map test_key (capability_test_results db)) \<and> (\<forall>r \<in> set (capability_test_results db). CapabilityTestResult r = Inr r))"

lemma cap_invD:
  assumes "cap_inv E db"
  shows "map kr_revision (entries_of k db) = map int [1..<Suc (length (entries_of k db))]"
    "r \<in> set (capability_revisions db) \<Longrightarrow> entry_fine E r" "distinct (map pointer_key (capability_activations db))"
    "x \<in> set (capability_activations db) \<Longrightarrow> pointer_fine x" "distinct (map test_key (capability_test_results db))"
    "y \<in> set (capability_test_results db) \<Longrightarrow> CapabilityTestResult y = Inr y"
  using assms unfolding cap_inv_def by blast+

lemma cap_abs_simps [simp]:
  "ab_archive (cap_abs db) k = map kr_manifest (entries_of k db)"
  "ab_pointer (cap_abs db) k = map_option (\<lambda>r. (activation_norm (ar_activation r), ar_state r)) (pointer_at k db)"
  "ab_tests (cap_abs db) t = sel (\<lambda>x. test_key x = t) (capability_test_results db)"
  by (simp_all add: cap_abs_def)

section \<open>Reading\<close>

lemma archive_nth: "map f xs = map int [1..<Suc (length xs)] \<Longrightarrow> i < length xs \<Longrightarrow> f (xs ! i) = int (Suc i)"
  by (drule arg_cong [where f = "\<lambda>l. l ! i"]) (simp del: upt_Suc)

lemma numbered_sel:
  assumes "map f xs = map int [1..<Suc (length xs)]"
  shows "sel (\<lambda>x. f x = n) xs = (if 1 \<le> n \<and> n \<le> int (length xs) then Some (xs ! nat (n - 1)) else None)"
proof -
  note nth = archive_nth [OF assms]
  show ?thesis
  proof (cases "1 \<le> n \<and> n \<le> int (length xs)")
    case True
    have d: "distinct (map f xs)" unfolding assms by (simp add: distinct_map)
    have i: "nat (n - 1) < length xs" using True by linarith
    have "f (xs ! nat (n - 1)) = n" using nth [OF i] True by simp
    moreover have "xs ! nat (n - 1) \<in> set xs" using i by (rule nth_mem)
    ultimately have "sel (\<lambda>x. f x = n) xs = Some (xs ! nat (n - 1))" by (intro sel_unique [OF d]) auto
    with True show ?thesis by simp
  next
    case False
    have "f x \<noteq> n" if x: "x \<in> set xs" for x
    proof -
      obtain i where "i < length xs" "x = xs ! i" using x by (auto simp: in_set_conv_nth)
      then show ?thesis using nth [of i] False by auto
    qed
    then have "sel (\<lambda>x. f x = n) xs = None" by (simp add: sel_None)
    with False show ?thesis by simp
  qed
qed

lemma sel_entries: "sel P (filter Q xs) = sel (\<lambda>x. Q x \<and> P x) xs"
  by (induction xs) auto

lemma numbered_top:
  assumes "map f xs = map int [1..<Suc (length xs)]"
  shows "map_option f (top_by f xs) = (if xs = [] then None else Some (int (length xs)))"
proof (cases "xs = []")
  case False
  then obtain r where r: "top_by f xs = Some r" by (metis not_None_eq top_by_None)
  note nth = archive_nth [OF assms]
  obtain i where i: "i < length xs" "r = xs ! i" using top_by_mem [OF r] by (auto simp: in_set_conv_nth)
  have "last xs \<in> set xs" "f (last xs) = int (length xs)" using False nth [of "length xs - 1"] by (simp_all add: last_conv_nth)
  then have "int (length xs) \<le> f r" using top_by_ge [OF r] by metis
  moreover have "f r \<le> int (length xs)" using i nth [of i] by simp
  ultimately show ?thesis using r False by simp
qed simp

lemma entry_at_nth:
  assumes "cap_inv E db"
  shows "map_option kr_manifest (entry_at k n db) = nth_manifest (ab_archive (cap_abs db) k) n"
proof -
  have "entry_at k n db = sel (\<lambda>r. kr_revision r = n) (entries_of k db)" by (simp add: entry_at_def entries_of_def sel_entries)
  moreover have "nat (n - 1) < length (entries_of k db)" if "1 \<le> n" "n \<le> int (length (entries_of k db))" using that by linarith
  ultimately show ?thesis unfolding nth_manifest_def numbered_sel [OF cap_invD(1) [OF assms, of k]] by simp
qed

lemma entry_atD:
  assumes "cap_inv E db" "entry_at k n db = Some r"
  shows "entry_fine E r" "entry_key r = k" "kr_revision r = n" "manifest_from_row E r = Inr (kr_manifest r)"
proof -
  have r: "r \<in> set (capability_revisions db)" "entry_key r = k" "kr_revision r = n" using sel_SomeD [OF assms(2) [unfolded entry_at_def]] by auto
  show f: "entry_fine E r" by (rule cap_invD(2) [OF assms(1) r(1)])
  show "entry_key r = k" "kr_revision r = n" using r by simp_all
  show "manifest_from_row E r = Inr (kr_manifest r)" using f by (simp add: manifest_from_row_def entry_fine_def)
qed

lemma norm_key [simp]: "pointer_fine r \<Longrightarrow> ca_namespace (activation_norm (ar_activation r)) = ca_namespace (ar_activation r)"
  "pointer_fine r \<Longrightarrow> ca_name (activation_norm (ar_activation r)) = ca_name (ar_activation r)"
  "ca_generation (activation_norm a) = ca_generation a" "ca_revision (activation_norm a) = ca_revision a"
  by (simp_all add: activation_norm_def pointer_fine_def)

lemma pointer_atD:
  assumes "cap_inv E db" "pointer_at k db = Some r"
  shows "r \<in> set (capability_activations db)" "pointer_key r = k" "pointer_fine r" "activation_from_row r = Inr (activation_norm (ar_activation r))"
proof -
  have r: "r \<in> set (capability_activations db)" "pointer_key r = k" using sel_SomeD [OF assms(2) [unfolded pointer_at_def]] by auto
  then show "r \<in> set (capability_activations db)" "pointer_key r = k" by simp_all
  show f: "pointer_fine r" by (rule cap_invD(4) [OF assms(1) r(1)])
  show "activation_from_row r = Inr (activation_norm (ar_activation r))" using f by (simp add: activation_from_row_def pointer_fine_def)
qed

lemma pointer_in_state:
  assumes "cap_inv E db"
  shows "sel (\<lambda>r. pointer_key r = k \<and> ar_state r = s) (capability_activations db) =
    (case pointer_at k db of None \<Rightarrow> None | Some r \<Rightarrow> if ar_state r = s then Some r else None)"
proof (cases "pointer_at k db")
  case None
  then have "sel (\<lambda>r. pointer_key r = k \<and> ar_state r = s) (capability_activations db) = None" unfolding pointer_at_def sel_None by blast
  with None show ?thesis by simp
next
  case (Some r)
  note r = pointer_atD [OF assms Some]
  show ?thesis
  proof (cases "ar_state r = s")
    case True
    have "sel (\<lambda>r. pointer_key r = k \<and> ar_state r = s) (capability_activations db) = Some r"
      by (rule sel_unique [OF cap_invD(3) [OF assms] r(1)]) (use True r(2) in auto)
    with True Some show ?thesis by simp
  next
    case False
    have "sel (\<lambda>r. pointer_key r = k \<and> ar_state r = s) (capability_activations db) = None"
      unfolding sel_None using distinct_key_eq [OF cap_invD(3) [OF assms] r(1)] r(2) False by metis
    with False Some show ?thesis by simp
  qed
qed

section \<open>Writing\<close>

lemma pointer_upd:
  assumes "cap_inv E db" "pointer_at k db = Some r" "Q r" "\<And>x. pointer_key x = k \<Longrightarrow> pointer_key (f x) = k" "pointer_fine (f r)"
  shows "length (filter (\<lambda>x. pointer_key x = k \<and> Q x) (capability_activations db)) = 1"
    "pointer_at k' (db\<lparr>capability_activations := upd (\<lambda>x. pointer_key x = k \<and> Q x) f (capability_activations db)\<rparr>) =
       (if k' = k then Some (f r) else pointer_at k' db)"
    "cap_inv E (db\<lparr>capability_activations := upd (\<lambda>x. pointer_key x = k \<and> Q x) f (capability_activations db)\<rparr>)"
proof -
  let ?hit = "\<lambda>x. pointer_key x = k \<and> Q x"
  note r = pointer_atD [OF assms(1,2)]
  have keys: "map pointer_key (upd ?hit f (capability_activations db)) = map pointer_key (capability_activations db)"
    by (rule map_upd) (use assms(4) in auto)
  show "length (filter ?hit (capability_activations db)) = 1"
    using filter_keyed [OF cap_invD(3) [OF assms(1)], of ?hit] r(1,2) assms(3) by auto
  have "sel (\<lambda>x. pointer_key x = k') (upd ?hit f (capability_activations db)) =
      map_option (\<lambda>x. if ?hit x then f x else x) (sel (\<lambda>x. pointer_key x = k') (capability_activations db))"
    by (rule sel_upd) (use assms(4) in auto)
  then have new: "pointer_at k' (db\<lparr>capability_activations := upd ?hit f (capability_activations db)\<rparr>) =
      map_option (\<lambda>x. if ?hit x then f x else x) (pointer_at k' db)" by (simp add: pointer_at_def)
  show "pointer_at k' (db\<lparr>capability_activations := upd ?hit f (capability_activations db)\<rparr>) = (if k' = k then Some (f r) else pointer_at k' db)"
  proof (cases "k' = k")
    case True
    then show ?thesis unfolding new using assms(2,3) r(2) by simp
  next
    case False
    have "pointer_key x \<noteq> k" if "pointer_at k' db = Some x" for x using that pointer_atD(2) [OF assms(1) that] False by simp
    then show ?thesis unfolding new using False by (cases "pointer_at k' db") auto
  qed
  have "pointer_fine x" if x: "x \<in> set (upd ?hit f (capability_activations db))" for x
  proof -
    obtain y where y: "y \<in> set (capability_activations db)" "x = (if ?hit y then f y else y)" using upd_memD [OF x] by blast
    show ?thesis
    proof (cases "?hit y")
      case True
      then have "y = r" using distinct_key_eq [OF cap_invD(3) [OF assms(1)] y(1) r(1)] r(2) by simp
      with y True assms(5) show ?thesis by simp
    next
      case False
      with y cap_invD(4) [OF assms(1) y(1)] show ?thesis by simp
    qed
  qed
  with assms(1) keys show "cap_inv E (db\<lparr>capability_activations := upd ?hit f (capability_activations db)\<rparr>)"
    unfolding cap_inv_def by (simp add: entries_of_def)
qed

lemma pointer_new:
  assumes "cap_inv E db" "pointer_at k db = None" "pointer_key r = k" "pointer_fine r"
  shows "pointer_at k' (db\<lparr>capability_activations := capability_activations db @ [r]\<rparr>) = (if k' = k then Some r else pointer_at k' db)"
    "cap_inv E (db\<lparr>capability_activations := capability_activations db @ [r]\<rparr>)"
proof -
  have new: "k \<notin> pointer_key ` set (capability_activations db)" using assms(2) by (auto simp: pointer_at_def sel_None)
  show "pointer_at k' (db\<lparr>capability_activations := capability_activations db @ [r]\<rparr>) = (if k' = k then Some r else pointer_at k' db)"
    using assms(2,3) by (auto simp: pointer_at_def sel_append split: option.splits)
  show "cap_inv E (db\<lparr>capability_activations := capability_activations db @ [r]\<rparr>)"
    using assms(1,3,4) new unfolding cap_inv_def by (auto simp: entries_of_def)
qed

lemma abs_pointer:
  assumes "\<And>k'. pointer_at k' db' = (if k' = k then Some r else pointer_at k' db)" "capability_revisions db' = capability_revisions db"
    "capability_test_results db' = capability_test_results db"
  shows "cap_abs db' = (cap_abs db)\<lparr>ab_pointer := (ab_pointer (cap_abs db))(k \<mapsto> (activation_norm (ar_activation r), ar_state r))\<rparr>"
  using assms unfolding cap_abs_def by (auto simp: entries_of_def fun_eq_iff)

text \<open>One operation against its specification.\<close>

definition refines_at :: "capability_env \<Rightarrow> (capability_db, 'e, 'a) oper \<Rightarrow> (cap_abs, 'e, 'a) oper \<Rightarrow> capability_db \<Rightarrow> bool" where
  "refines_at E f g db = (cap_inv E (snd (f db)) \<and> map_prod id cap_abs (f db) = g (cap_abs db))"

lemma refinesI [intro?]: "f db = (x, db') \<Longrightarrow> g (cap_abs db) = (x, cap_abs db') \<Longrightarrow> cap_inv E db' \<Longrightarrow> refines_at E f g db"
  by (simp add: refines_at_def)

lemma refines_checked:
  assumes "cap_inv E db" "\<And>x. v = Inr x \<Longrightarrow> refines_at E (f x) (g x) db"
  shows "refines_at E (checked v f) (checked v g) db"
  using assms by (cases v) (auto simp: refines_at_def)

lemma refines_answer: "refines_at E f g db \<Longrightarrow> refines_at E (\<lambda>db. answer h (f db)) (\<lambda>A. answer h (g A)) db"
  unfolding refines_at_def answer_def by (cases "f db"; cases "g (cap_abs db)") auto

lemma namespace_ofD: "namespace_of v = Inr ns \<Longrightarrow> py_strip ns = ns \<and> sized 1 200 ns"
  by (auto simp: namespace_of_def Let_def sized_def Suc_le_eq split: if_splits)

section \<open>Appending\<close>

lemma entries_append:
  "entries_of k (db\<lparr>capability_revisions := capability_revisions db @ [r]\<rparr>) = entries_of k db @ (if entry_key r = k then [r] else [])"
  by (simp add: entries_of_def)

lemma append_refines:
  assumes inv: "cap_inv E db" and m: "CapabilityManifest m = Inr m"
  shows "refines_at E (append_revision E namespace m e now) (spec_append E namespace m e) db"
  unfolding append_revision_def spec_append_def
proof (rule refines_checked [OF inv])
  fix ns assume ns: "namespace_of namespace = Inr ns"
  let ?k = "(ns, cm_name m)"
  let ?ms = "ab_archive (cap_abs db) ?k" and ?es = "entries_of (ns, cm_name m) db"
  have top: "map_option kr_revision (top_by kr_revision ?es) = (if ?es = [] then None else Some (int (length ?es)))"
    by (rule numbered_top [OF cap_invD(1) [OF inv]])
  have nxt: "(case map_option kr_revision (top_by kr_revision ?es) of None \<Rightarrow> 1 | Some n \<Rightarrow> n + 1) = int (length ?es) + 1" unfolding top by auto
  show "refines_at E
     (\<lambda>db. let current = map_option kr_revision (top_by kr_revision (entries_of (ns, cm_name m) db));
           expected_new = (case current of None \<Rightarrow> 1 | Some n \<Rightarrow> n + 1) in
       if current \<noteq> e then raises (LatestRevisionConflict e current) db
       else if cm_revision m \<noteq> expected_new then raises (NewRevisionConflict expected_new (cm_revision m)) db
       else checked (digest_of E m) (\<lambda>digest db.
         if entry_at (ns, cm_name m) (cm_revision m) db \<noteq> None then raises RevisionExists db
         else ok m (db\<lparr>capability_revisions := capability_revisions db @
           [\<lparr>kr_namespace = ns, kr_name = cm_name m, kr_revision = cm_revision m, kr_digest = digest, kr_manifest = m, kr_created_at = now\<rparr>]\<rparr>)) db)
     (\<lambda>A. let ms = ab_archive A (ns, cm_name m); n = int (length ms); current = (if ms = [] then None else Some n) in
       if current \<noteq> e then raises (LatestRevisionConflict e current) A
       else if cm_revision m \<noteq> n + 1 then raises (NewRevisionConflict (n + 1) (cm_revision m)) A
       else checked (digest_of E m) (\<lambda>_ A. ok m (A\<lparr>ab_archive := (ab_archive A)((ns, cm_name m) := ms @ [m])\<rparr>)) A) db" (is "refines_at E ?f ?g db")
  proof (cases "(if ?es = [] then None else Some (int (length ?es))) = e")
    case False
    show ?thesis
    proof (rule refinesI)
      show "?f db = (Inl (LatestRevisionConflict e (if ?es = [] then None else Some (int (length ?es)))), db)"
        unfolding Let_def top using False by (simp only: if_True not_False_eq_True)
      show "?g (cap_abs db) = (Inl (LatestRevisionConflict e (if ?es = [] then None else Some (int (length ?es)))), cap_abs db)"
        unfolding Let_def cap_abs_simps length_map map_is_Nil_conv using False by (simp only: if_True not_False_eq_True)
    qed (rule inv)
  next
    case latest: True
    have f: "?f db = (if cm_revision m \<noteq> int (length ?es) + 1 then raises (NewRevisionConflict (int (length ?es) + 1) (cm_revision m)) db
       else checked (digest_of E m) (\<lambda>digest db.
         if entry_at (ns, cm_name m) (cm_revision m) db \<noteq> None then raises RevisionExists db
         else ok m (db\<lparr>capability_revisions := capability_revisions db @
           [\<lparr>kr_namespace = ns, kr_name = cm_name m, kr_revision = cm_revision m, kr_digest = digest, kr_manifest = m, kr_created_at = now\<rparr>]\<rparr>)) db)"
      unfolding Let_def nxt unfolding top using latest by (simp only: simp_thms if_False)
    have g: "?g (cap_abs db) = (if cm_revision m \<noteq> int (length ?es) + 1 then raises (NewRevisionConflict (int (length ?es) + 1) (cm_revision m)) (cap_abs db)
       else checked (digest_of E m) (\<lambda>_ A. ok m (A\<lparr>ab_archive := (ab_archive A)((ns, cm_name m) := ?ms @ [m])\<rparr>)) (cap_abs db))"
      unfolding Let_def cap_abs_simps length_map map_is_Nil_conv using latest by (simp only: simp_thms if_False)
    show ?thesis
    proof (cases "cm_revision m = int (length ?es) + 1 \<and> (\<exists>d. digest_of E m = Inr d)")
      case False
      then show ?thesis unfolding refines_at_def f g using inv by (cases "digest_of E m") (simp_all split: if_split)
    next
      case fine: True
      then obtain d where d: "digest_of E m = Inr d" by blast
      let ?r = "\<lparr>kr_namespace = ns, kr_name = cm_name m, kr_revision = cm_revision m, kr_digest = d, kr_manifest = m, kr_created_at = now\<rparr>"
      let ?db = "db\<lparr>capability_revisions := capability_revisions db @ [?r]\<rparr>"
      have "nth_manifest ?ms (cm_revision m) = None" using fine by (simp add: nth_manifest_def)
      then have "entry_at ?k (cm_revision m) db = None" using entry_at_nth [OF inv, of ?k "cm_revision m"] by simp
      with fine d have f': "?f db = (Inr m, ?db)" unfolding f by simp
      have key: "entry_key ?r = ?k" by (simp add: entry_key_def)
      have "cap_abs ?db = (cap_abs db)\<lparr>ab_archive := (ab_archive (cap_abs db))(?k := ?ms @ [m])\<rparr>"
        unfolding cap_abs_def by (simp add: entries_append key fun_eq_iff pointer_at_def)
      with fine d have g': "?g (cap_abs db) = (Inr m, cap_abs ?db)" unfolding g by simp
      have "entry_fine E ?r" using m d by (simp add: entry_fine_def)
      moreover have "map kr_revision (entries_of k ?db) = map int [1..<Suc (length (entries_of k ?db))]" for k
        using cap_invD(1) [OF inv, of k] fine by (cases "?k = k") (simp_all add: entries_append entry_key_def)
      ultimately have "cap_inv E ?db" using inv unfolding cap_inv_def by simp
      with f' g' show ?thesis by (rule refinesI)
    qed
  qed
qed

section \<open>Activating\<close>

lemma digest_shape:
  assumes "\<forall>s. hex_digest (ce_sha E s)" "digest_of E m = Inr d"
  shows "schema_digest d \<and> py_strip d = d"
proof -
  obtain s where d: "d = ''sha256:'' @ ce_sha E s"
    using assms(2) by (auto simp: digest_of_def content_digest_def canonical_json_digest_def split: option.splits if_splits)
  have "hex_digest (ce_sha E s)" using assms(1) by blast
  then have "list_all (\<lambda>c. \<not> py_isspace c) (ce_sha E s)"
    by (auto simp: hex_digest_def list_all_iff py_isspace_def is_digit_def Let_def)
  then have "py_strip d = d" unfolding d by (intro strip_no_space) (simp add: py_isspace_def)
  moreover have "schema_digest d" unfolding d schema_digest_def using assms(1) by simp
  ultimately show ?thesis by blast
qed

lemma strip_binding_idem [simp]: "strip_binding (strip_binding b) = strip_binding b"
  by (simp add: strip_binding_def strip_ref_def)

lemma activation_iff:
  "CapabilityActivation a = Inr (activation_norm a) \<longleftrightarrow>
     activation_fields (activation_norm a) = [] \<and> validate_agent_binding_tenant (activation_norm a) = None"
  unfolding CapabilityActivation_def construct_def Let_def by (auto split: option.splits)

lemma accepts_binding_norm: "accepts CapabilitySecretBinding (binding_norm b) = accepts CapabilitySecretBinding b"
  by (simp add: CapabilitySecretBinding_def accepts_construct)

lemma strip_keys_values: "v \<in> set (map snd (strip_keys d)) \<Longrightarrow> v \<in> set (map snd d)"
  unfolding strip_keys_def by (auto dest!: dict_of_mem) force

lemma activation_accepted:
  assumes "py_strip (ca_namespace a) = ca_namespace a" "sized 1 200 (ca_namespace a)" "py_strip (ca_name a) = ca_name a" "capability_name (ca_name a)"
    "1 \<le> ca_revision a" "py_strip (ca_digest a) = ca_digest a" "schema_digest (ca_digest a)" "1 \<le> ca_generation a"
    "\<forall>b \<in> set (map snd (ca_secret_bindings a)). accepts CapabilitySecretBinding b"
    "\<And>b. ca_agent_binding a = Some b \<Longrightarrow> AgentRunBinding b = Inr b \<and> ref_tenant_id (rb_agent_spec b) = ca_namespace a"
  shows "CapabilityActivation a = Inr (activation_norm a)"
proof -
  have bs: "list_all (accepts CapabilitySecretBinding) (map snd (ca_secret_bindings (activation_norm a)))"
  proof (unfold list_all_iff, intro ballI)
    fix v assume "v \<in> set (map snd (ca_secret_bindings (activation_norm a)))"
    then have v: "v \<in> set (map snd (strip_keys (map (map_prod id binding_norm) (ca_secret_bindings a))))" by (simp add: activation_norm_def)
    obtain b where "b \<in> set (map snd (ca_secret_bindings a))" "v = binding_norm b" using strip_keys_values [OF v] by auto
    then show "accepts CapabilitySecretBinding v" using assms(9) accepts_binding_norm by blast
  qed
  have ab: "ca_agent_binding (activation_norm a) = ca_agent_binding a"
  proof (cases "ca_agent_binding a")
    case (Some b)
    then have "strip_binding b = b" using constructD [of strip_binding] assms(10) unfolding AgentRunBinding_def by metis
    with Some show ?thesis by (simp add: activation_norm_def)
  qed (simp add: activation_norm_def)
  have "opt_fine (accepts AgentRunBinding) (ca_agent_binding a)" using assms(10) by (cases "ca_agent_binding a") (auto simp: opt_fine_def accepts_def)
  moreover have "validate_agent_binding_tenant (activation_norm a) = None"
    unfolding validate_agent_binding_tenant_def ab using assms(1,10) by (cases "ca_agent_binding a") (simp_all add: activation_norm_def)
  moreover have "ca_namespace (activation_norm a) = ca_namespace a" "ca_name (activation_norm a) = ca_name a" "ca_digest (activation_norm a) = ca_digest a"
    using assms(1,3,6) by (simp_all add: activation_norm_def)
  ultimately show ?thesis unfolding activation_iff activation_fields_def ab using bs assms(2,4,5,7,8) by simp
qed

lemma columns_sel [simp]:
  "ca_namespace (columns_of a) = ca_namespace a" "ca_name (columns_of a) = ca_name a" "ca_revision (columns_of a) = ca_revision a"
  "ca_digest (columns_of a) = ca_digest a" "ca_generation (columns_of a) = ca_generation a" "ca_agent_binding (columns_of a) = ca_agent_binding a"
  "set (ca_secret_bindings (columns_of a)) = set (ca_secret_bindings a)"
  by (simp_all add: columns_of_def)

lemma columns_accepted:
  assumes "py_strip (ca_namespace a) = ca_namespace a" "sized 1 200 (ca_namespace a)" "py_strip (ca_name a) = ca_name a" "capability_name (ca_name a)"
    "1 \<le> ca_revision a" "py_strip (ca_digest a) = ca_digest a" "schema_digest (ca_digest a)" "1 \<le> ca_generation a"
    "\<forall>b \<in> set (map snd (ca_secret_bindings a)). accepts CapabilitySecretBinding b"
    "\<And>b. ca_agent_binding a = Some b \<Longrightarrow> AgentRunBinding b = Inr b \<and> ref_tenant_id (rb_agent_spec b) = ca_namespace a"
  shows "pointer_fine \<lparr>ar_activation = columns_of a, ar_state = s\<rparr>"
proof -
  have "CapabilityActivation (columns_of a) = Inr (activation_norm (columns_of a))"
    by (rule activation_accepted) (use assms in \<open>simp_all\<close>)
  then show ?thesis using assms(1,3) by (simp add: pointer_fine_def)
qed

lemma built_values_ok: "built_values bs = Inr cs \<Longrightarrow> \<forall>b \<in> set (map snd cs). accepts CapabilitySecretBinding b"
proof (induction bs arbitrary: cs rule: built_values.induct)
  case (2 k b kbs)
  obtain c ds where c: "built CapabilitySecretBinding b = Inr c" "built_values kbs = Inr ds" "cs = (k, c) # ds"
    using 2(2) by (auto split: sum.splits)
  have "CapabilitySecretBinding b = Inr c" using c(1) by (cases "CapabilitySecretBinding b") (auto simp: built_def)
  then have "CapabilitySecretBinding c = Inr c" unfolding CapabilitySecretBinding_def by (rule construct_again [rotated]) simp
  then have "accepts CapabilitySecretBinding c" by (simp add: accepts_def)
  with 2(1) [OF c(1,2)] c(3) show ?case by simp
qed simp

lemma built_opt_ok: "built_opt AgentRunBinding a = Inr (Some b) \<Longrightarrow> AgentRunBinding b = Inr b"
proof (cases a)
  case (Some w)
  assume "built_opt AgentRunBinding a = Inr (Some b)"
  then have "AgentRunBinding w = Inr b" using Some by (cases "AgentRunBinding w") auto
  then show ?thesis unfolding AgentRunBinding_def by (rule construct_again [rotated]) simp
qed simp

lemma accepted_name:
  assumes "CapabilityManifest w = Inr m"
  shows "py_strip (cm_name m) = cm_name m" "capability_name (cm_name m)" "1 \<le> cm_revision m"
proof -
  have "cm_name (manifest_norm m) = cm_name m" by (simp only: manifestD(1) [OF assms])
  then show "py_strip (cm_name m) = cm_name m" by (simp add: manifest_norm_def)
  show "capability_name (cm_name m)" "1 \<le> cm_revision m" using manifestD(2) [OF assms] by (simp_all add: manifest_fields_def)
qed

lemma activate_refines:
  assumes inv: "cap_inv E db" and sha: "\<forall>s. hex_digest (ce_sha E s)"
    and bs: "\<forall>b \<in> set (map snd bindings). accepts CapabilitySecretBinding b" and ab: "\<And>b. binding = Some b \<Longrightarrow> AgentRunBinding b = Inr b"
  shows "refines_at E (activate_capability E namespace name i e config handles bindings binding now)
    (spec_activate E namespace name i e config handles bindings binding now) db"
  unfolding activate_capability_def spec_activate_def
proof ((rule refines_checked [OF inv])+, goal_cases)
  case (1 ns u v)
  let ?k = "(ns, name)"
  have tenant: "ref_tenant_id (rb_agent_spec b) = ns" if "binding = Some b" for b using 1(2) that by (auto split: if_splits)
  show ?case
  proof (cases "entry_at ?k i db")
    case None
    then have "nth_manifest (ab_archive (cap_abs db) ?k) i = None" using entry_at_nth [OF inv, of ?k i] by simp
    with None inv show ?thesis by (intro refinesI [where x = "Inl (RevisionNotFound name i)" and db' = db]) simp_all
  next
    case (Some r)
    note r = entry_atD [OF inv Some]
    let ?m = "kr_manifest r"
    have m: "cm_name ?m = name" "cm_revision ?m = i" "digest_of E ?m = Inr (kr_digest r)" "CapabilityManifest ?m = Inr ?m"
      using r(1-3) by (auto simp: entry_fine_def entry_key_def)
    have nm: "nth_manifest (ab_archive (cap_abs db) ?k) i = Some ?m" using entry_at_nth [OF inv, of ?k i] Some by simp
    have name: "py_strip name = name" "capability_name name" "1 \<le> i" using accepted_name [OF m(4)] m(1,2) by simp_all
    let ?new = "\<lambda>g. \<lparr>ca_namespace = ns, ca_name = name, ca_revision = i, ca_digest = kr_digest r, ca_generation = g, ca_activated_at = now,
      ca_config = dict_of config, ca_secret_handles = dict_of handles, ca_secret_bindings = dict_of bindings, ca_agent_binding = binding\<rparr>"
    let ?row = "\<lambda>g. \<lparr>ar_activation = columns_of (?new g), ar_state = CapActive\<rparr>"
    have vals: "\<forall>b \<in> set (map snd (dict_of bindings)). accepts CapabilitySecretBinding b" using bs by (auto dest!: dict_of_mem)
    have acc: "CapabilityActivation (?new g) = Inr (activation_norm (?new g))" "pointer_fine (?row g)" if "1 \<le> g" for g
      by (rule activation_accepted, use name vals tenant ab namespace_ofD [OF 1(1)] digest_shape [OF sha m(3)] that in simp_all)
        (rule columns_accepted, use name vals tenant ab namespace_ofD [OF 1(1)] digest_shape [OF sha m(3)] that in simp_all)
    have dt: "digest_text E ?m = kr_digest r" using m(3) by (simp add: digest_text_def)
    have key: "pointer_key (?row g) = ?k" for g by (simp add: pointer_key_def)
    note eqs = Some r(4) m(1-3) nm dt
    show ?thesis
    proof (cases "pointer_at ?k db")
      case None
      note new = pointer_new [OF inv None key acc(2)]
      show ?thesis
      proof (cases e)
        case fresh: None
        show ?thesis
        proof (rule refinesI [where x = "Inr (activation_norm (?new 1))" and db' = "db\<lparr>capability_activations := capability_activations db @ [?row 1]\<rparr>"])
        qed (use None fresh eqs acc(1) [of 1] new [of 1] abs_pointer [OF new(1) [of 1]] in \<open>simp_all add: Let_def\<close>)
      next
        case (Some g)
        then show ?thesis
          by (intro refinesI [where x = "Inl (GenerationConflict e None)" and db' = db]) (use None eqs inv in \<open>simp_all add: Let_def\<close>)
      qed
    next
      case (Some p)
      note p = pointer_atD [OF inv Some]
      let ?a = "activation_norm (ar_activation p)" and ?g = "ca_generation (ar_activation p) + 1"
      have "1 \<le> ca_generation (ar_activation p)" using p(3) unfolding pointer_fine_def activation_iff by (simp add: activation_fields_def)
      then have g: "1 \<le> ?g" by simp
      note new = pointer_upd [OF inv Some, where f = "\<lambda>_. ?row ?g" and
          Q = "\<lambda>x. ca_generation (ar_activation x) = ca_generation (ar_activation p) \<and> Some (ar_state x) = Some (ar_state p)", OF _ key acc(2) [OF g], simplified]
      let ?db = "db\<lparr>capability_activations := upd (\<lambda>x. pointer_key x = ?k \<and> ca_generation (ar_activation x) = ca_generation (ar_activation p) \<and>
        Some (ar_state x) = Some (ar_state p)) (\<lambda>_. ?row ?g) (capability_activations db)\<rparr>"
      let ?visible = "if ar_state p = CapActive then Some (ca_generation (ar_activation p)) else None"
      consider (stopping) "ar_state p = CapDeactivating" | (other) "ar_state p \<noteq> CapDeactivating" "?visible \<noteq> e"
        | (same) "ar_state p = CapActive" "?visible = e" "ca_revision ?a = i" "same_settings ?a (?new ?g)"
        | (written) "ar_state p \<noteq> CapDeactivating" "?visible = e" "\<not> (ar_state p = CapActive \<and> ca_revision ?a = i \<and> same_settings ?a (?new ?g))"
        by blast
      then show ?thesis
      proof cases
        case stopping
        then show ?thesis
          by (intro refinesI [where x = "Inl DeactivationInProgress" and db' = db]) (use Some p(4) eqs inv in \<open>simp_all add: Let_def\<close>)
      next
        case other
        then show ?thesis
          by (intro refinesI [where x = "Inl (GenerationConflict e ?visible)" and db' = db])
            (use Some p(4) eqs inv in \<open>cases "ar_state p"; simp add: Let_def\<close>)+
      next
        case same
        then show ?thesis
          by (intro refinesI [where x = "Inr ?a" and db' = db]) (use Some p(4) eqs inv in \<open>simp_all add: Let_def\<close>)
      next
        case written
        show ?thesis
        proof (rule refinesI [where x = "Inr (activation_norm (?new ?g))" and db' = ?db], goal_cases)
          case 1
          show ?case using written Some p(4) eqs acc(1) [OF g] new(1) by (cases "ar_state p", simp_all add: Let_def) blast
        next
          case 2
          show ?case using written Some eqs abs_pointer [OF new(2)] by (cases "ar_state p", simp_all add: Let_def) blast
        next
          case 3
          show ?case using new(3) by simp
        qed
      qed
    qed
  qed
qed

section \<open>Moving the lifecycle\<close>

lemma set_lifecycle_refines:
  assumes inv: "cap_inv E db" and p: "pointer_at k db = Some p" "ar_state p = source" "ca_generation (ar_activation p) = g"
  shows "\<exists>db'. set_lifecycle k g source target a db = (Inr a, db') \<and> cap_inv E db' \<and>
    cap_abs db' = (cap_abs db)\<lparr>ab_pointer := (ab_pointer (cap_abs db))(k \<mapsto> (activation_norm (ar_activation p), target))\<rparr>"
proof -
  let ?Q = "\<lambda>r. ca_generation (ar_activation r) = g \<and> ar_state r = source" and ?f = "\<lambda>r. r\<lparr>ar_state := target\<rparr>"
  let ?db = "db\<lparr>capability_activations := upd (\<lambda>r. pointer_key r = k \<and> ?Q r) ?f (capability_activations db)\<rparr>"
  have fine: "pointer_fine (?f p)" using pointer_atD(3) [OF inv p(1)] by (simp add: pointer_fine_def)
  note u = pointer_upd [OF inv p(1), of ?Q ?f, OF _ _ fine]
  have q: "?Q p" using p(2,3) by simp
  have key: "pointer_key (?f x) = k" if "pointer_key x = k" for x using that by (simp add: pointer_key_def)
  have "set_lifecycle k g source target a db = (Inr a, ?db)" using u(1) [OF q key] by (simp add: set_lifecycle_def Let_def)
  moreover have "cap_inv E ?db" by (rule u(3) [OF q key])
  moreover have "cap_abs ?db = (cap_abs db)\<lparr>ab_pointer := (ab_pointer (cap_abs db))(k \<mapsto> (activation_norm (ar_activation (?f p)), ar_state (?f p)))\<rparr>"
    by (rule abs_pointer) (use u(2) [OF q key] in simp_all)
  ultimately show ?thesis by auto
qed

text \<open>The two operations that move the lifecycle differ in their states and errors only.\<close>

definition store_move :: "capability_error \<Rightarrow> capability_error \<Rightarrow> activation_state \<Rightarrow> activation_state \<Rightarrow> string \<Rightarrow> string \<Rightarrow> int \<Rightarrow>
    (capability_db, capability_error, capability_activation) oper" where
  "store_move absent refused source target namespace name g = checked (namespace_of namespace) (\<lambda>ns db.
     case pointer_at (ns, name) db of None \<Rightarrow> raises absent db
     | Some r \<Rightarrow> checked (activation_from_row r) (\<lambda>a db.
         if ca_generation a \<noteq> g then raises (GenerationConflict (Some g) (Some (ca_generation a))) db
         else if ar_state r = target then ok a db
         else if ar_state r \<noteq> source then raises refused db
         else set_lifecycle (ns, name) g source target a db) db)"

lemma store_moves:
  "begin_deactivation namespace name g = store_move (CapabilityNotActive name) (CapabilityNotActive name) CapActive CapDeactivating namespace name g"
  "change_deactivation_state namespace name g target = store_move (NoLifecycleRecord name) NotInDeactivation CapDeactivating target namespace name g"
  unfolding begin_deactivation_def change_deactivation_state_def store_move_def by (rule refl)+

lemma move_refines:
  assumes inv: "cap_inv E db" and target: "source \<noteq> target"
  shows "refines_at E (store_move absent refused source target namespace name g) (spec_move absent refused source target namespace name g) db"
  unfolding store_move_def spec_move_def
proof (rule refines_checked [OF inv], goal_cases)
  case (1 ns)
  let ?k = "(ns, name)"
  show ?case
  proof (cases "pointer_at ?k db")
    case None
    with inv show ?thesis by (simp add: refines_at_def)
  next
    case (Some p)
    note r = pointer_atD(4) [OF inv Some]
    show ?thesis
    proof (cases "ca_generation (ar_activation p) = g \<and> ar_state p = source")
      case True
      from set_lifecycle_refines [OF inv Some, of source g target "activation_norm (ar_activation p)"] True
      obtain db' where d: "set_lifecycle ?k g source target (activation_norm (ar_activation p)) db = (Inr (activation_norm (ar_activation p)), db')"
        "cap_inv E db'" "cap_abs db' = (cap_abs db)\<lparr>ab_pointer := (ab_pointer (cap_abs db))(?k \<mapsto> (activation_norm (ar_activation p), target))\<rparr>" by auto
      with True Some r target show ?thesis by (intro refinesI [where db' = db']) simp_all
    next
      case False
      with Some r inv show ?thesis by (auto simp: refines_at_def)
    qed
  qed
qed

section \<open>Test results\<close>

lemma test_again: "CapabilityTestResult w = Inr r \<Longrightarrow> CapabilityTestResult r = Inr r"
  unfolding CapabilityTestResult_def by (rule construct_again [rotated]) (simp_all add: test_norm_def check_norm_def)

lemma record_refines:
  assumes inv: "cap_inv E db" and w: "CapabilityTestResult r = Inr r"
  shows "refines_at E (record_test r) (spec_record E r) db"
  unfolding record_test_def spec_record_def
proof (rule refines_checked [OF inv], goal_cases)
  case (1 ns)
  let ?k = "(ns, tr_name r)"
  have norm: "py_strip (tr_namespace r) = tr_namespace r"
    using constructD [OF w [unfolded CapabilityTestResult_def]] by (metis py_strip_idem test_norm_def test_result.select_convs(1) test_result.surjective
        test_result.update_convs(1,2,4,6,7))
  then have ns: "tr_namespace r = ns" using 1 by (auto simp: namespace_of_def Let_def split: if_splits)
  then have row: "r\<lparr>tr_namespace := ns\<rparr> = r" by simp
  show ?case
  proof (cases "entry_at ?k (tr_revision r) db")
    case None
    with entry_at_nth [OF inv, of ?k "tr_revision r"] inv show ?thesis by (simp add: refines_at_def)
  next
    case (Some x)
    note x = entry_atD [OF inv Some]
    have nm: "nth_manifest (ab_archive (cap_abs db) ?k) (tr_revision r) = Some (kr_manifest x)" using entry_at_nth [OF inv, of ?k "tr_revision r"] Some by simp
    have dt: "digest_text E (kr_manifest x) = kr_digest x" using x(1) by (simp add: digest_text_def entry_fine_def)
    let ?hit = "\<lambda>x. test_key x = test_key r"
    let ?ts = "capability_test_results db"
    let ?db = "db\<lparr>capability_test_results := (if list_ex ?hit ?ts then upd ?hit (\<lambda>_. r) ?ts else ?ts @ [r])\<rparr>"
    have "sel (\<lambda>x. test_key x = t) (capability_test_results ?db) = (if t = test_key r then Some r else sel (\<lambda>x. test_key x = t) ?ts)" for t
    proof (cases "list_ex ?hit ?ts")
      case True
      have upd: "sel (\<lambda>x. test_key x = t) (upd ?hit (\<lambda>_. r) ?ts) = map_option (\<lambda>x. if ?hit x then r else x) (sel (\<lambda>x. test_key x = t) ?ts)"
        by (rule sel_upd) simp
      show ?thesis
      proof (cases "t = test_key r")
        case same: True
        obtain y where y: "sel (\<lambda>x. test_key x = test_key r) ?ts = Some y" using True by (metis list_ex_iff sel_cong_ex)
        have "test_key y = test_key r" using sel_SomeD [OF y] by blast
        with True upd y same show ?thesis by simp
      next
        case other: False
        have "test_key y = t" if "sel (\<lambda>x. test_key x = t) ?ts = Some y" for y using sel_SomeD [OF that] by blast
        with True upd other show ?thesis by (cases "sel (\<lambda>x. test_key x = t) ?ts") simp_all
      qed
    next
      case False
      then have "sel (\<lambda>x. test_key x = test_key r) ?ts = None" by (simp add: sel_None list_ex_iff)
      with False show ?thesis by (cases "t = test_key r"; cases "sel (\<lambda>x. test_key x = t) ?ts") (simp_all add: sel_append)
    qed
    then have abs: "cap_abs ?db = (cap_abs db)\<lparr>ab_tests := (ab_tests (cap_abs db))(test_key r \<mapsto> r)\<rparr>"
      unfolding cap_abs_def by (simp add: entries_of_def pointer_at_def fun_eq_iff)
    have "distinct (map test_key (capability_test_results ?db))"
      using cap_invD(5) [OF inv] by (auto simp: map_upd list_ex_iff image_iff)
    moreover have "CapabilityTestResult y = Inr y" if "y \<in> set (capability_test_results ?db)" for y
      using that cap_invD(6) [OF inv] w by (auto simp: set_upd split: if_splits)
    ultimately have "cap_inv E ?db" using inv unfolding cap_inv_def by (simp add: entries_of_def)
    then show ?thesis unfolding refines_at_def Let_def row using Some nm dt inv abs by auto
  qed
qed

section \<open>Every call\<close>

lemma read_refines:
  assumes "cap_inv E db" "\<And>ns. namespace_of namespace = Inr ns \<Longrightarrow> f ns = g ns (cap_abs db)"
    "f' = (case namespace_of namespace of Inl e \<Rightarrow> Inl e | Inr ns \<Rightarrow> f ns)"
  shows "refines_at E (\<lambda>db. (f', db)) (spec_read g namespace) db"
  using assms by (cases "namespace_of namespace") (simp_all add: refines_at_def spec_read_def)

lemma cap_exec_refines:
  assumes inv: "cap_inv E db" and sha: "\<forall>s. hex_digest (ce_sha E s)"
  shows "refines_at E (cap_exec E c) (cap_spec E c) db"
proof (cases c)
  case (AppendRevision ns w e now)
  have "refines_at E (checked (built CapabilityManifest w) (\<lambda>m db. answer (GotManifest \<circ> Some) (append_revision E ns m e now db)))
      (checked (built CapabilityManifest w) (\<lambda>m A. answer (GotManifest \<circ> Some) (spec_append E ns m e A))) db"
  proof (rule refines_checked [OF inv])
    fix m assume "built CapabilityManifest w = Inr m"
    then have "CapabilityManifest w = Inr m" by (cases "CapabilityManifest w") (simp_all add: built_def)
    from refines_answer [OF append_refines [OF inv manifest_again [OF this]]]
    show "refines_at E (\<lambda>db. answer (GotManifest \<circ> Some) (append_revision E ns m e now db)) (\<lambda>A. answer (GotManifest \<circ> Some) (spec_append E ns m e A)) db" .
  qed
  then show ?thesis unfolding AppendRevision refines_at_def by simp
next
  case (GetManifest ns n i)
  have "refines_at E (\<lambda>x. (get_manifest E ns n i db, x)) (spec_read (\<lambda>ns A. Inr (nth_manifest (ab_archive A (ns, n)) i)) ns) db"
  proof (rule read_refines [OF inv])
    fix s
    show "(case entry_at (s, n) i db of None \<Rightarrow> Inr None | Some r \<Rightarrow> map_sum id Some (manifest_from_row E r)) = Inr (nth_manifest (ab_archive (cap_abs db) (s, n)) i)"
      using entry_at_nth [OF inv, of "(s, n)" i] entry_atD(4) [OF inv, of "(s, n)" i] by (cases "entry_at (s, n) i db") auto
  qed (simp add: get_manifest_def)
  from refines_answer [OF this, of GotManifest] show ?thesis unfolding GetManifest refines_at_def by simp
next
  case (Activate ns n i g cf h b a now)
  have "refines_at E (checked (built_values b) (\<lambda>b. checked (built_opt AgentRunBinding a) (\<lambda>a db. answer (GotActivation \<circ> Some) (activate_capability E ns n i g cf h b a now db))))
    (checked (built_values b) (\<lambda>b. checked (built_opt AgentRunBinding a) (\<lambda>a A. answer (GotActivation \<circ> Some) (spec_activate E ns n i g cf h b a now A)))) db"
    by (rule refines_checked [OF inv], rule refines_checked [OF inv], rule refines_answer, rule activate_refines [OF inv sha])
      (use built_values_ok built_opt_ok in blast)+
  then show ?thesis unfolding Activate refines_at_def by simp
next
  case (BeginDeactivation ns n g)
  from refines_answer [OF move_refines [OF inv]] show ?thesis unfolding BeginDeactivation by (auto simp: refines_at_def store_moves)
next
  case (CancelDeactivation ns n g)
  from refines_answer [OF move_refines [OF inv]] show ?thesis unfolding CancelDeactivation by (auto simp: refines_at_def store_moves cancel_deactivation_def)
next
  case (Deactivate ns n g)
  from refines_answer [OF move_refines [OF inv]] show ?thesis unfolding Deactivate by (auto simp: refines_at_def store_moves deactivate_def)
next
  case (RecordTest w)
  have "refines_at E (checked (built CapabilityTestResult w) (\<lambda>r db. answer (GotTest \<circ> Some) (record_test r db)))
      (checked (built CapabilityTestResult w) (\<lambda>r A. answer (GotTest \<circ> Some) (spec_record E r A))) db"
  proof (rule refines_checked [OF inv])
    fix r assume "built CapabilityTestResult w = Inr r"
    then have "CapabilityTestResult w = Inr r" by (cases "CapabilityTestResult w") (simp_all add: built_def)
    from refines_answer [OF record_refines [OF inv test_again [OF this]]]
    show "refines_at E (\<lambda>db. answer (GotTest \<circ> Some) (record_test r db)) (\<lambda>A. answer (GotTest \<circ> Some) (spec_record E r A)) db" .
  qed
  then show ?thesis unfolding RecordTest refines_at_def by simp
next
  case (ReadActivation s ns n)
  have "refines_at E (\<lambda>x. (read_activation s ns n db, x))
      (spec_read (\<lambda>ns A. Inr (case ab_pointer A (ns, n) of None \<Rightarrow> None | Some (a, state) \<Rightarrow> if state = s then Some a else None)) ns) db"
  proof (rule read_refines [OF inv])
    fix m
    show "(case sel (\<lambda>r. pointer_key r = (m, n) \<and> ar_state r = s) (capability_activations db) of None \<Rightarrow> Inr None | Some r \<Rightarrow> map_sum id Some (activation_from_row r)) =
        Inr (case ab_pointer (cap_abs db) (m, n) of None \<Rightarrow> None | Some (a, state) \<Rightarrow> if state = s then Some a else None)"
      unfolding pointer_in_state [OF inv] using pointer_atD(4) [OF inv, of "(m, n)"] by (cases "pointer_at (m, n) db") auto
  qed (simp add: read_activation_def)
  from refines_answer [OF this, of GotActivation] show ?thesis unfolding ReadActivation refines_at_def by simp
next
  case (NextGeneration ns n)
  have "refines_at E (\<lambda>x. (next_generation ns n db, x)) (spec_read (\<lambda>ns A. case ab_pointer A (ns, n) of None \<Rightarrow> Inr 1
        | Some (a, state) \<Rightarrow> if state = CapDeactivating then Inl DeactivationInProgress else Inr (ca_generation a + 1)) ns) db"
  proof (rule read_refines [OF inv])
    fix m
    show "(case pointer_at (m, n) db of None \<Rightarrow> Inr 1 | Some r \<Rightarrow> if ar_state r = CapDeactivating then Inl DeactivationInProgress else Inr (ca_generation (ar_activation r) + 1)) =
        (case ab_pointer (cap_abs db) (m, n) of None \<Rightarrow> Inr 1
         | Some (a, state) \<Rightarrow> if state = CapDeactivating then Inl DeactivationInProgress else Inr (ca_generation a + 1))"
      by (cases "pointer_at (m, n) db") auto
  qed (simp add: next_generation_def)
  from refines_answer [OF this, of GotGeneration] show ?thesis unfolding NextGeneration refines_at_def by simp
next
  case (ReadTest ns n i)
  have "refines_at E (\<lambda>x. (read_test ns n i db, x)) (spec_read (\<lambda>ns A. Inr (ab_tests A ((ns, n), i))) ns) db"
  proof (rule read_refines [OF inv])
    fix m
    show "(case sel (\<lambda>x. test_key x = ((m, n), i)) (capability_test_results db) of None \<Rightarrow> Inr None
         | Some r \<Rightarrow> (case CapabilityTestResult r of Inl _ \<Rightarrow> Inl (CapabilityCorruption ''stored capability test result is invalid'') | Inr x \<Rightarrow> Inr (Some x))) =
        Inr (ab_tests (cap_abs db) ((m, n), i))"
      using cap_invD(6) [OF inv] sel_SomeD [of "\<lambda>x. test_key x = ((m, n), i)" "capability_test_results db"]
      by (cases "sel (\<lambda>x. test_key x = ((m, n), i)) (capability_test_results db)") auto
  qed (simp add: read_test_def)
  from refines_answer [OF this, of GotTest] show ?thesis unfolding ReadTest refines_at_def by simp
qed

text \<open>SHA-256 in hex has 64 hex digits.\<close>

definition sha_hex :: "capability_env \<Rightarrow> bool" where
  "sha_hex E = (\<forall>s. hex_digest (ce_sha E s))"

definition cap_kept :: "capability_env \<Rightarrow> capability_db \<Rightarrow> bool" where
  "cap_kept E db = (sha_hex E \<longrightarrow> cap_inv E db)"

interpretation cap_store: refined_store "cap_exec E" empty_capabilities "cap_kept E" "cap_spec E" cap_abs "sha_hex E" for E :: capability_env
proof
  show "cap_kept E empty_capabilities" by (simp add: cap_kept_def cap_inv_def empty_capabilities_def entries_of_def)
  show "cap_kept E (snd (cap_exec E c db))" if "cap_kept E db" for db c
    using that cap_exec_refines [of E db c] by (auto simp: cap_kept_def sha_hex_def refines_at_def)
  show "map_prod id cap_abs (cap_exec E c db) = cap_spec E c (cap_abs db)" if "sha_hex E" "cap_kept E db" for db c
    using that cap_exec_refines [of E db c] by (auto simp: cap_kept_def sha_hex_def refines_at_def)
qed

declare cap_abs_simps [simp del]

section \<open>The lifecycle as a state machine\<close>

type_synonym cap_pointer = "(capability_activation \<times> activation_state) option"

definition next_gen :: "cap_pointer \<Rightarrow> int" where
  "next_gen p = (case p of None \<Rightarrow> 1 | Some (a, _) \<Rightarrow> ca_generation a + 1)"

inductive life_step :: "capability_env \<Rightarrow> cap_key \<Rightarrow> capability_manifest list \<Rightarrow> cap_pointer \<Rightarrow> cap_pointer \<Rightarrow> bool"
  for E :: capability_env and k :: cap_key and ms :: "capability_manifest list" where
  stays: "life_step E k ms p p"
| activated: "map_option snd p \<noteq> Some CapDeactivating \<Longrightarrow> ca_generation a = next_gen p \<Longrightarrow> nth_manifest ms (ca_revision a) = Some m \<Longrightarrow>
    ca_digest a = py_strip (digest_text E m) \<Longrightarrow> life_step E k ms p (Some (a, CapActive))"
| stopping: "life_step E k ms (Some (a, CapActive)) (Some (a, CapDeactivating))"
| resumed: "life_step E k ms (Some (a, CapDeactivating)) (Some (a, CapActive))"
| stopped: "life_step E k ms (Some (a, CapDeactivating)) (Some (a, CapInactive))"

definition grows :: "cap_abs \<Rightarrow> cap_abs \<Rightarrow> bool" where
  "grows A A' = (\<forall>k. \<exists>new. ab_archive A' k = ab_archive A k @ new)"

definition abs_step :: "capability_env \<Rightarrow> cap_abs \<Rightarrow> cap_abs \<Rightarrow> bool" where
  "abs_step E A A' = (grows A A' \<and> (\<forall>k. life_step E k (ab_archive A k) (ab_pointer A k) (ab_pointer A' k)))"

lemma grows_refl [simp]: "grows A A"
  by (simp add: grows_def)

lemma abs_step_refl [simp]: "abs_step E A A"
  by (simp add: abs_step_def stays)

lemma abs_step_pointer: "life_step E k (ab_archive A k) (ab_pointer A k) p \<Longrightarrow> abs_step E A (A\<lparr>ab_pointer := (ab_pointer A)(k := p)\<rparr>)"
  by (simp add: abs_step_def grows_def stays)

lemma checked_step: "(\<And>x. v = Inr x \<Longrightarrow> abs_step E A (snd (f x A))) \<Longrightarrow> abs_step E A (snd (checked v f A))"
  by (cases v) simp_all

lemma answer_step: "abs_step E A (snd r) \<Longrightarrow> abs_step E A (snd (answer h r))"
  by (simp add: answer_def)

lemma spec_append_step: "abs_step E A (snd (spec_append E ns m e A))"
  unfolding spec_append_def
proof (rule checked_step)
  fix s
  show "abs_step E A (snd (let ms = ab_archive A (s, cm_name m); n = int (length ms); current = (if ms = [] then None else Some n) in
     if current \<noteq> e then raises (LatestRevisionConflict e current) A
     else if cm_revision m \<noteq> n + 1 then raises (NewRevisionConflict (n + 1) (cm_revision m)) A
     else checked (digest_of E m) (\<lambda>_ A. ok m (A\<lparr>ab_archive := (ab_archive A)((s, cm_name m) := ms @ [m])\<rparr>)) A))"
    by (cases "digest_of E m") (simp_all add: Let_def abs_step_def grows_def stays)
qed

lemma spec_move_step:
  "(source, target) \<in> {(CapActive, CapDeactivating), (CapDeactivating, CapActive), (CapDeactivating, CapInactive)} \<Longrightarrow>
   abs_step E A (snd (spec_move absent refused source target ns n g A))"
  unfolding spec_move_def
  by (rule checked_step) (auto split: option.splits intro!: abs_step_pointer stopping resumed stopped)

lemma spec_activate_step: "abs_step E A (snd (spec_activate E ns n i e c h b a now A))"
  unfolding spec_activate_def
proof ((rule checked_step)+, goal_cases)
  case (1 s u v)
  let ?k = "(s, n)"
  show ?case
  proof (cases "nth_manifest (ab_archive A ?k) i")
    case (Some m)
    have "abs_step E A (A\<lparr>ab_pointer := (ab_pointer A)(?k \<mapsto> (activation_norm (columns_of new), CapActive))\<rparr>)"
      if "map_option snd (ab_pointer A ?k) \<noteq> Some CapDeactivating" "ca_generation new = next_gen (ab_pointer A ?k)" "ca_revision new = i"
        "ca_digest new = digest_text E m" for new
      by (rule abs_step_pointer, rule activated [where m = m]) (use that Some in \<open>simp_all add: activation_norm_def\<close>)
    then show ?thesis using Some
      by (auto simp: Let_def next_gen_def split: option.splits activation_state.splits prod.splits)
  qed simp
qed

lemma cap_spec_step: "abs_step E A (snd (cap_spec E c A))"
  by (cases c) (auto simp: spec_read_def spec_record_def abs_step_def [of E A "A\<lparr>ab_tests := _\<rparr>"] grows_def stays split: option.splits
      intro!: checked_step answer_step spec_append_step spec_activate_step spec_move_step)

text \<open>A generation that was stopped is replaced by later ones only.\<close>

definition gone :: "int \<Rightarrow> cap_pointer \<Rightarrow> bool" where
  "gone g p = (case p of None \<Rightarrow> False | Some (a, s) \<Rightarrow> g < ca_generation a \<or> ca_generation a = g \<and> s = CapInactive)"

lemma gone_step: "life_step E k ms p p' \<Longrightarrow> gone g p \<Longrightarrow> gone g p'"
  by (cases rule: life_step.cases) (auto simp: gone_def next_gen_def split: option.splits)

text \<open>A pointer leads to a manifest of the archive.\<close>

definition pointed :: "capability_env \<Rightarrow> cap_abs \<Rightarrow> bool" where
  "pointed E A = (\<forall>k a s. ab_pointer A k = Some (a, s) \<longrightarrow>
     (\<exists>m. nth_manifest (ab_archive A k) (ca_revision a) = Some m \<and> ca_digest a = py_strip (digest_text E m)))"

lemma nth_manifest_grows: "nth_manifest ms i = Some m \<Longrightarrow> nth_manifest (ms @ new) i = Some m"
  by (auto simp: nth_manifest_def nth_append split: if_splits)

lemma grows_nth: "grows A A' \<Longrightarrow> nth_manifest (ab_archive A k) i = Some m \<Longrightarrow> nth_manifest (ab_archive A' k) i = Some m"
  unfolding grows_def using nth_manifest_grows by metis

lemma pointed_step: "abs_step E A A' \<Longrightarrow> pointed E A \<Longrightarrow> pointed E A'"
  unfolding pointed_def
proof (intro allI impI)
  fix k a s
  assume step: "abs_step E A A'" and old: "\<forall>k a s. ab_pointer A k = Some (a, s) \<longrightarrow>
     (\<exists>m. nth_manifest (ab_archive A k) (ca_revision a) = Some m \<and> ca_digest a = py_strip (digest_text E m))" and new: "ab_pointer A' k = Some (a, s)"
  have "life_step E k (ab_archive A k) (ab_pointer A k) (Some (a, s))" using step new unfolding abs_step_def by metis
  then have "\<exists>m. nth_manifest (ab_archive A k) (ca_revision a) = Some m \<and> ca_digest a = py_strip (digest_text E m)"
  proof cases
    case (activated m)
    then show ?thesis by blast
  qed (use old in metis)+
  then show "\<exists>m. nth_manifest (ab_archive A' k) (ca_revision a) = Some m \<and> ca_digest a = py_strip (digest_text E m)"
    using grows_nth step unfolding abs_step_def by metis
qed

lemma reachable_kept: "sha_hex E \<Longrightarrow> cap_inv E (snd (run_calls (cap_exec E) cs empty_capabilities))"
  using cap_store.run_start_inv [of E cs] by (simp add: cap_kept_def)

lemma exec_spec: "sha_hex E \<Longrightarrow> cap_inv E db \<Longrightarrow> cap_exec E c db = (x, db') \<Longrightarrow> cap_spec E c (cap_abs db) = (x, cap_abs db') \<and> cap_inv E db'"
  using cap_exec_refines [of E db c] by (auto simp: refines_at_def sha_hex_def)

lemma run_kept: "sha_hex E \<Longrightarrow> cap_inv E db \<Longrightarrow> cap_inv E (snd (run_calls (cap_exec E) cs db))"
  using cap_store.run_inv [of E db cs] by (simp add: cap_kept_def)

lemma answer_Inr: "answer h r = (Inr y, A) \<longleftrightarrow> (\<exists>x. r = (Inr x, A) \<and> y = h x)"
  unfolding answer_def by (cases r; cases "fst r") auto

lemma checked_Inr: "checked v f A = (Inr y, A') \<longleftrightarrow> (\<exists>x. v = Inr x \<and> f x A = (Inr y, A'))"
  by (cases v) simp_all

lemma spec_deactivate_gone:
  assumes "cap_spec E (Deactivate ns n g) A = (Inr r, A')"
  shows "\<exists>s. namespace_of ns = Inr s \<and> gone g (ab_pointer A' (s, n))"
proof (cases "namespace_of ns")
  case (Inl e)
  with assms show ?thesis by (simp add: answer_def spec_move_def)
next
  case (Inr s)
  show ?thesis
  proof (cases "ab_pointer A (s, n)")
    case None
    with Inr assms show ?thesis by (simp add: answer_def spec_move_def)
  next
    case (Some p)
    obtain a b where "p = (a, b)" by fastforce
    with Inr Some assms show ?thesis by (cases "ca_generation a = g"; cases b) (auto simp: answer_def spec_move_def gone_def)
  qed
qed

lemma spec_read_pointer:
  "cap_spec E (ReadActivation st ns n) A = (Inr (GotActivation (Some a)), A') \<Longrightarrow> \<exists>s. namespace_of ns = Inr s \<and> ab_pointer A (s, n) = Some (a, st)"
  by (cases "namespace_of ns") (auto simp: answer_Inr spec_read_def split: option.splits if_splits prod.splits)

lemma run_gone:
  assumes "sha_hex E" "cap_inv E db" "gone g (ab_pointer (cap_abs db) k)"
  shows "gone g (ab_pointer (cap_abs (snd (run_calls (cap_exec E) cs db))) k)"
proof (rule cap_store.run_keeps [where P = "\<lambda>A. gone g (ab_pointer A k)", OF assms(1)])
  show "gone g (ab_pointer (snd (cap_spec E c A)) k)" if "gone g (ab_pointer A k)" for c A
    using that cap_spec_step [of E A c] gone_step unfolding abs_step_def by blast
qed (use assms in \<open>simp_all add: cap_kept_def\<close>)

lemma run_archived:
  assumes "sha_hex E" "cap_inv E db" "nth_manifest (ab_archive (cap_abs db) k) i = Some m"
  shows "nth_manifest (ab_archive (cap_abs (snd (run_calls (cap_exec E) cs db))) k) i = Some m"
proof (rule cap_store.run_keeps [where P = "\<lambda>A. nth_manifest (ab_archive A k) i = Some m", OF assms(1)])
  show "nth_manifest (ab_archive (snd (cap_spec E c A)) k) i = Some m" if "nth_manifest (ab_archive A k) i = Some m" for c A
    using that cap_spec_step [of E A c] grows_nth unfolding abs_step_def by blast
qed (use assms in \<open>simp_all add: cap_kept_def\<close>)

section \<open>Activating twice\<close>

definition trimmed :: "(string \<times> 'v) list \<Rightarrow> bool" where
  "trimmed d = list_all (\<lambda>(k, _). py_strip k = k) d"

lemma strip_keys_id: "trimmed d \<Longrightarrow> distinct (map fst d) \<Longrightarrow> strip_keys d = d"
proof -
  assume d: "trimmed d" "distinct (map fst d)"
  have "map (\<lambda>(k, v). (py_strip k, v)) d = d" by (rule map_idI) (use d(1) in \<open>auto simp: trimmed_def list_all_iff\<close>)
  with d(2) show ?thesis by (simp add: strip_keys_def dict_of_distinct_id)
qed

lemma strip_labels_id: "trimmed d \<Longrightarrow> list_all (\<lambda>(_, v). py_strip v = v) d \<Longrightarrow> distinct (map fst d) \<Longrightarrow> strip_labels d = d"
proof -
  assume d: "trimmed d" "list_all (\<lambda>(_, v). py_strip v = v) d" "distinct (map fst d)"
  have "map (\<lambda>(k, v). (py_strip k, py_strip v)) d = d" by (rule map_idI) (use d(1,2) in \<open>auto simp: trimmed_def list_all_iff\<close>)
  with d(3) show ?thesis by (simp add: strip_labels_def dict_of_distinct_id)
qed

lemma sort_fst [simp]:
  "trimmed (sort_key fst d) = trimmed d" "distinct (map fst (sort_key fst d)) = distinct (map fst d)"
  "list_all P (sort_key fst d) = list_all P d" "sort_key fst (sort_key fst d) = sort_key fst d" for d :: "(string \<times> 'v) list"
proof -
  have "card (set (map fst (sort_key fst d))) = card (set (map fst d))" "length (map fst (sort_key fst d)) = length (map fst d)" by simp_all
  then show "distinct (map fst (sort_key fst d)) = distinct (map fst d)" by (metis card_distinct distinct_card)
  show "sort_key fst (sort_key fst d) = sort_key fst d" by (rule sort_key_id_if_sorted) simp
qed (simp_all add: trimmed_def list_all_iff)

text \<open>What the store reads back of settings with trimmed names equals what was passed.\<close>

lemma settings_read_back:
  assumes "trimmed c" "trimmed h" "list_all (\<lambda>(_, v). py_strip v = v) h" "trimmed b" "list_all (\<lambda>(_, v). binding_norm v = v) b"
    and "distinct (map fst c)" "distinct (map fst h)" "distinct (map fst b)" "map_option strip_binding g = g"
    and x: "ca_config x = c" "ca_secret_handles x = h" "ca_secret_bindings x = b" "ca_agent_binding x = g"
    and y: "ca_config y = c" "ca_secret_handles y = h" "ca_secret_bindings y = b" "ca_agent_binding y = g"
  shows "same_settings (activation_norm (columns_of x)) y"
proof -
  let ?c = "sort_key fst (map (\<lambda>(k, v). (k, sort_json v)) c)"
  have keys: "map fst (map (\<lambda>(k, v). (k, sort_json v)) c) = map fst c" by (simp add: case_prod_beta comp_def)
  have "trimmed (map (\<lambda>(k, v). (k, sort_json v)) c)" using assms(1) by (auto simp: trimmed_def list_all_iff)
  moreover have "distinct (map fst ?c)" unfolding sort_fst(2) keys by (rule assms(6))
  ultimately have "strip_keys ?c = ?c" by (intro strip_keys_id) simp_all
  moreover have "json_eq (JObj ?c) (JObj c)" using json_eq_sort [of "JObj c" "JObj c"] by (simp add: json_eq_def)
  moreover have "strip_labels (sort_key fst h) = sort_key fst h" using assms(2,3,7) by (intro strip_labels_id) simp_all
  moreover have "map (map_prod id binding_norm) (sort_key fst b) = sort_key fst b"
    by (rule map_idI) (use assms(5) in \<open>auto simp: list_all_iff\<close>)
  moreover have "strip_keys (sort_key fst b) = sort_key fst b" using assms(4,8) by (intro strip_keys_id) simp_all
  ultimately show ?thesis using assms(9) x y by (simp add: same_settings_def activation_norm_def columns_of_def dict_eq_def)
qed

lemma built_values_norm: "built_values bs = Inr cs \<Longrightarrow> list_all (\<lambda>(_, v). binding_norm v = v) cs \<and> map fst cs = map fst bs"
proof (induction bs arbitrary: cs rule: built_values.induct)
  case (2 k b kbs)
  obtain c ds where c: "built CapabilitySecretBinding b = Inr c" "built_values kbs = Inr ds" "cs = (k, c) # ds"
    using 2(2) by (auto split: sum.splits)
  have "CapabilitySecretBinding b = Inr c" using c(1) by (cases "CapabilitySecretBinding b") (auto simp: built_def)
  then have "c = binding_norm b" using constructD unfolding CapabilitySecretBinding_def by metis
  with 2(1) [OF c(1,2)] c(3) show ?case by simp
qed simp

lemma built_opt_norm: "built_opt AgentRunBinding g = Inr g' \<Longrightarrow> map_option strip_binding g' = g'"
  using built_opt_ok [of g] constructD [of strip_binding] unfolding AgentRunBinding_def by (cases g') (simp, metis option.simps(9))

lemma trimmed_fst: "trimmed d = list_all (\<lambda>k. py_strip k = k) (map fst d)"
  by (auto simp: trimmed_def list_all_iff)

lemma trimmed_dict_of: "trimmed d \<Longrightarrow> trimmed (dict_of d)" "list_all P d \<Longrightarrow> list_all P (dict_of d)"
  by (auto simp: trimmed_def list_all_iff dest!: dict_of_mem)

definition visible_gen :: "cap_pointer \<Rightarrow> int option" where
  "visible_gen p = (case p of Some (a, CapActive) \<Rightarrow> Some (ca_generation a) | _ \<Rightarrow> None)"

text \<open>The activation that a call asks for.\<close>

definition asked :: "capability_env \<Rightarrow> string \<Rightarrow> string \<Rightarrow> int \<Rightarrow> capability_manifest \<Rightarrow> (string \<times> json) list \<Rightarrow> (string \<times> string) list \<Rightarrow>
    (string \<times> secret_binding) list \<Rightarrow> run_binding option \<Rightarrow> timestamp \<Rightarrow> int \<Rightarrow> capability_activation" where
  "asked E s n i m c h b g now generation = \<lparr>ca_namespace = s, ca_name = n, ca_revision = i, ca_digest = digest_text E m, ca_generation = generation,
     ca_activated_at = now, ca_config = dict_of c, ca_secret_handles = dict_of h, ca_secret_bindings = dict_of b, ca_agent_binding = g\<rparr>"

lemma asked_sel [simp]:
  "ca_generation (asked E s n i m c h b g now k) = k" "ca_revision (asked E s n i m c h b g now k) = i"
  "ca_generation (columns_of x) = ca_generation x" "ca_revision (columns_of x) = ca_revision x"
  "ca_generation (activation_norm x) = ca_generation x" "ca_revision (activation_norm x) = ca_revision x"
  by (simp_all add: asked_def columns_of_def activation_norm_def)

lemma same_settings_asked: "same_settings a (asked E s n i m c h b g now k) \<Longrightarrow> same_settings a (asked E s n i m c h b g now' k')"
  by (simp add: same_settings_def asked_def)

lemma spec_activate_asked: "spec_activate E namespace n i e c h b g now = checked (namespace_of namespace) (\<lambda>s.
     checked (case g of None \<Rightarrow> Inr ()
        | Some b \<Rightarrow> if ref_tenant_id (rb_agent_spec b) \<noteq> s then Inl (CapabilityValueError ''capability agent binding belongs to a different tenant'') else Inr ()) (\<lambda>_.
     checked (if json_finite (JObj (dict_of c)) then Inr () else Inl (CapabilityValueError ''capability activation values must be JSON serializable'')) (\<lambda>_ A.
       case nth_manifest (ab_archive A (s, n)) i of None \<Rightarrow> raises (RevisionNotFound n i) A
       | Some m \<Rightarrow> (let pointer = ab_pointer A (s, n); x = asked E s n i m c h b g now (next_gen pointer) in
           if map_option snd pointer = Some CapDeactivating then raises DeactivationInProgress A
           else if visible_gen pointer \<noteq> e then raises (GenerationConflict e (visible_gen pointer)) A
           else if \<exists>a. pointer = Some (a, CapActive) \<and> ca_revision a = i \<and> same_settings a x then ok (fst (the pointer)) A
           else ok (activation_norm x) (A\<lparr>ab_pointer := (ab_pointer A)((s, n) \<mapsto> (activation_norm (columns_of x), CapActive))\<rparr>)))))"
proof -
  have v: "map_option ca_generation (case p of Some (a, CapActive) \<Rightarrow> Some a | _ \<Rightarrow> None) = visible_gen p" for p :: cap_pointer
    by (auto simp: visible_gen_def split: option.splits activation_state.splits)
  have d: "(case case p of Some (a, CapActive) \<Rightarrow> Some a | _ \<Rightarrow> None of None \<Rightarrow> z | Some a \<Rightarrow> if Q a then y a else z) =
    (if \<exists>a. p = Some (a, CapActive) \<and> Q a then y (fst (the p)) else z)" for p :: cap_pointer and Q y and z :: "'z"
    by (auto split: option.splits activation_state.splits)
  show ?thesis unfolding spec_activate_def Let_def v d asked_def next_gen_def ..
qed

lemma spec_activate_cases:
  assumes "spec_activate E ns n i e c h b g now A = (Inr a, A')"
  obtains (same) s m where "namespace_of ns = Inr s" "nth_manifest (ab_archive A (s, n)) i = Some m" "ab_pointer A (s, n) = Some (a, CapActive)"
      "e = Some (ca_generation a)" "ca_revision a = i" "A' = A" "same_settings a (asked E s n i m c h b g now (next_gen (ab_pointer A (s, n))))"
  | (new) s m x where "namespace_of ns = Inr s" "nth_manifest (ab_archive A (s, n)) i = Some m" "e = visible_gen (ab_pointer A (s, n))"
      "x = asked E s n i m c h b g now (next_gen (ab_pointer A (s, n)))" "a = activation_norm x"
      "A' = A\<lparr>ab_pointer := (ab_pointer A)((s, n) \<mapsto> (activation_norm (columns_of x), CapActive))\<rparr>"
proof -
  obtain s where s: "namespace_of ns = Inr s" using assms by (cases "namespace_of ns") (simp_all add: spec_activate_asked)
  obtain m where m: "nth_manifest (ab_archive A (s, n)) i = Some m"
    using assms s by (cases "nth_manifest (ab_archive A (s, n)) i") (auto simp: spec_activate_asked checked_Inr)
  let ?x = "asked E s n i m c h b g now (next_gen (ab_pointer A (s, n)))"
  let ?same = "\<exists>a. ab_pointer A (s, n) = Some (a, CapActive) \<and> ca_revision a = i \<and> same_settings a ?x"
  have e: "visible_gen (ab_pointer A (s, n)) = e" using assms s m by (auto simp: spec_activate_asked checked_Inr Let_def split: if_splits)
  show ?thesis
  proof (cases ?same)
    case True
    then have "ab_pointer A (s, n) = Some (a, CapActive)" "A' = A" using assms s m by (auto simp: spec_activate_asked checked_Inr Let_def split: if_splits)
    with True e show ?thesis using same [OF s m] by (auto simp: visible_gen_def)
  next
    case False
    then have "a = activation_norm ?x" "A' = A\<lparr>ab_pointer := (ab_pointer A)((s, n) \<mapsto> (activation_norm (columns_of ?x), CapActive))\<rparr>"
      using assms s m by (auto simp: spec_activate_asked checked_Inr Let_def split: if_splits)
    then show ?thesis using new [OF s m e [symmetric] refl] by simp
  qed
qed

lemma later_gen: "visible_gen (Some (x, CapActive)) \<noteq> visible_gen p" if "ca_generation x = next_gen p"
  using that by (auto simp: visible_gen_def next_gen_def split: option.splits activation_state.splits)

text \<open>A call that expects a generation that is not the visible one fails.\<close>

lemma spec_activate_conflict:
  assumes "namespace_of ns = Inr s" "visible_gen (ab_pointer A (s, n)) \<noteq> e"
  shows "\<exists>x. fst (cap_spec E (Activate ns n i e c h b g now) A) = Inl x"
proof -
  have "\<exists>x. fst (spec_activate E ns n i e c h b g now A) = Inl x" for b g
    using assms by (cases g) (auto simp: spec_activate_asked Let_def split: option.splits)
  then have "\<exists>x. map_sum id (GotActivation \<circ> Some) (fst (spec_activate E ns n i e c h b g now A)) = Inl x" for b g by (metis map_sum.simps(1))
  then show ?thesis by (cases "built_values b"; cases "built_opt AgentRunBinding g") (auto simp: answer_def)
qed

definition settings_trimmed :: "(string \<times> json) list \<Rightarrow> (string \<times> string) list \<Rightarrow> (string \<times> secret_binding) list \<Rightarrow> bool" where
  "settings_trimmed c h b = (trimmed c \<and> trimmed h \<and> list_all (\<lambda>(_, v). py_strip v = v) h \<and> trimmed b)"

text \<open>Repeating a call with the generation it gave finds that activation.\<close>

lemma spec_activate_again:
  assumes a: "spec_activate E ns n i e c h b g now A = (Inr a, A')" and t: "settings_trimmed c h b"
    and b: "list_all (\<lambda>(_, v). binding_norm v = v) b" and g: "map_option strip_binding g = g"
  shows "\<exists>a'. spec_activate E ns n i (Some (ca_generation a)) c h b g now' A' = (Inr a', A') \<and> ca_generation a' = ca_generation a"
proof -
  have read: "\<exists>a'. spec_activate E ns n i (Some (ca_generation a)) c h b g now' A' = (Inr a', A') \<and> ca_generation a' = ca_generation a"
    if p: "ab_pointer A' (s, n) = Some (y, CapActive)" "ca_generation y = ca_generation a" "ca_revision y = i" "same_settings y (asked E s n i m c h b g now k)"
      and s: "namespace_of ns = Inr s" and m: "nth_manifest (ab_archive A' (s, n)) i = Some m" for y s m k
    using a s m p same_settings_asked [OF p(4), of now'] by (auto simp: spec_activate_asked checked_Inr Let_def visible_gen_def)
  from a show ?thesis
  proof (cases rule: spec_activate_cases)
    case (same s m)
    then show ?thesis using read by simp
  next
    case (new s m x)
    have "same_settings (activation_norm (columns_of x)) x"
      by (rule settings_read_back [of "dict_of c" "dict_of h" "dict_of b" g])
        (use t b g new(4) in \<open>simp_all add: settings_trimmed_def trimmed_dict_of dict_of_distinct asked_def\<close>)
    then show ?thesis using new read [of s "activation_norm (columns_of x)"] by simp
  qed
qed

section \<open>Properties\<close>

text \<open>
  C15: The capability store implements the append-only archive with one pointer per capability. For
  every sequence of calls the store gives exactly the results of the specification, and its state stays
  the implementation of the specification's state; no stored record is ever found corrupt.
\<close>

theorem capability_store_refines_lifecycle:
  assumes "sha_hex E"
  shows "map_prod id cap_abs (run_calls (cap_exec E) cs empty_capabilities) =
    run_calls (cap_spec E) cs \<lparr>ab_archive = \<lambda>_. [], ab_pointer = \<lambda>_. None, ab_tests = \<lambda>_. None\<rparr>"
proof -
  have "cap_abs empty_capabilities = \<lparr>ab_archive = \<lambda>_. [], ab_pointer = \<lambda>_. None, ab_tests = \<lambda>_. None\<rparr>"
    by (simp add: cap_abs_def empty_capabilities_def entries_of_def pointer_at_def)
  with cap_store.run_refines [OF assms cap_store.inv_start, of cs] show ?thesis by simp
qed

text \<open>
  C17: A stopped generation never comes back. When a deactivation was committed for a generation of a
  capability, then after any calls every activation that is visible for it has a later generation.
\<close>

theorem stopped_generation_never_returns:
  assumes "sha_hex E" "db = snd (run_calls (cap_exec E) cs empty_capabilities)" "cap_exec E (Deactivate ns n g) db = (Inr r, db1)"
    and "db2 = snd (run_calls (cap_exec E) cs2 db1)" "cap_exec E (ReadActivation CapActive ns n) db2 = (Inr (GotActivation (Some a)), db3)"
  shows "g < ca_generation a"
proof -
  have inv: "cap_inv E db" unfolding assms(2) by (rule reachable_kept [OF assms(1)])
  note s1 = exec_spec [OF assms(1) inv assms(3)]
  obtain s where s: "namespace_of ns = Inr s" "gone g (ab_pointer (cap_abs db1) (s, n))" using spec_deactivate_gone s1 by blast
  have inv2: "cap_inv E db2" unfolding assms(4) using s1 by (intro run_kept [OF assms(1)]) blast
  have "gone g (ab_pointer (cap_abs db2) (s, n))" unfolding assms(4) using s1 s(2) by (intro run_gone [OF assms(1)]) blast+
  moreover have "ab_pointer (cap_abs db2) (s, n) = Some (a, CapActive)"
    using spec_read_pointer exec_spec [OF assms(1) inv2 assms(5)] s(1) by fastforce
  ultimately show ?thesis by (simp add: gone_def)
qed

text \<open>
  What is visible is archived. An activation that can be read, in whatever lifecycle state, points to
  a revision whose manifest the store returns then and after any calls, always the same and with the
  digest the activation carries.
\<close>

theorem activation_points_to_archive:
  assumes "sha_hex E" "db = snd (run_calls (cap_exec E) cs empty_capabilities)" "cap_exec E (ReadActivation st ns n) db = (Inr (GotActivation (Some a)), db1)"
  shows "\<exists>m. digest_of E m = Inr (ca_digest a) \<and> CapabilityManifest m = Inr m \<and>
    (\<forall>cs2. fst (cap_exec E (GetManifest ns n (ca_revision a)) (snd (run_calls (cap_exec E) cs2 db))) = Inr (GotManifest (Some m)))"
proof -
  have inv: "cap_inv E db" unfolding assms(2) by (rule reachable_kept [OF assms(1)])
  obtain s where ns: "namespace_of ns = Inr s" and ptr: "ab_pointer (cap_abs db) (s, n) = Some (a, st)"
    using spec_read_pointer exec_spec [OF assms(1) inv assms(3)] by blast
  have "pointed E (cap_abs db)" unfolding assms(2)
    by (rule cap_store.run_keeps [where P = "pointed E", OF assms(1) cap_store.inv_start pointed_step [OF cap_spec_step]])
      (simp_all add: pointed_def empty_capabilities_def pointer_at_def cap_abs_simps)
  with ptr obtain m where m: "nth_manifest (ab_archive (cap_abs db) (s, n)) (ca_revision a) = Some m" "ca_digest a = py_strip (digest_text E m)"
    unfolding pointed_def by blast
  obtain r where r: "entry_at (s, n) (ca_revision a) db = Some r" "m = kr_manifest r" using entry_at_nth [OF inv, of "(s, n)" "ca_revision a"] m(1) by auto
  have f: "digest_of E m = Inr (kr_digest r)" "CapabilityManifest m = Inr m" using entry_atD(1) [OF inv r(1)] r(2) by (simp_all add: entry_fine_def)
  have d: "digest_of E m = Inr (ca_digest a)"
    using f(1) m(2) digest_shape [OF assms(1) [unfolded sha_hex_def] f(1)] by (simp add: digest_text_def)
  have "fst (cap_exec E (GetManifest ns n (ca_revision a)) (snd (run_calls (cap_exec E) cs2 db))) = Inr (GotManifest (Some m))" for cs2
  proof -
    let ?db = "snd (run_calls (cap_exec E) cs2 db)"
    have "nth_manifest (ab_archive (cap_abs ?db) (s, n)) (ca_revision a) = Some m" by (rule run_archived [OF assms(1) inv m(1)])
    moreover have "fst (cap_exec E (GetManifest ns n (ca_revision a)) ?db) = fst (cap_spec E (GetManifest ns n (ca_revision a)) (cap_abs ?db))"
      using exec_spec [OF assms(1) run_kept [OF assms(1) inv, of cs2] prod.collapse [symmetric]] by (metis fst_conv)
    ultimately show ?thesis using ns by (simp add: answer_def spec_read_def)
  qed
  with d f(2) show ?thesis by blast
qed

text \<open>
  C16: Activation is an exclusive and repeatable compare-and-swap. After a successful activation the
  revision is the visible one, under the generation that was returned. Unless the call changed nothing,
  every later activation that expects what this one expected fails, so that of two callers who read the
  same generation one wins. Repeating the call with the generation it returned changes nothing and gives
  that generation again, when the names and the handles that were passed carry no blanks at their ends.
\<close>

theorem capability_activation_is_exclusive:
  assumes "sha_hex E" "db = snd (run_calls (cap_exec E) cs empty_capabilities)"
    and "cap_exec E (Activate ns n i e c h b g now) db = (Inr (GotActivation (Some a)), db1)"
  shows "(\<exists>x. fst (cap_exec E (ReadActivation CapActive ns n) db1) = Inr (GotActivation (Some x)) \<and> ca_revision x = i \<and> ca_generation x = ca_generation a) \<and>
    (cap_abs db1 = cap_abs db \<or> (\<forall>i' c' h' b' g' t. \<exists>err. fst (cap_exec E (Activate ns n i' e c' h' b' g' t) db1) = Inl err)) \<and>
    (settings_trimmed c h b \<longrightarrow> (\<exists>a' db2. cap_exec E (Activate ns n i (Some (ca_generation a)) c h b g now') db1 = (Inr (GotActivation (Some a')), db2) \<and>
       ca_generation a' = ca_generation a \<and> cap_abs db2 = cap_abs db1))"
proof -
  have inv: "cap_inv E db" unfolding assms(2) by (rule reachable_kept [OF assms(1)])
  note s1 = exec_spec [OF assms(1) inv assms(3)]
  have view: "fst (cap_exec E k db1) = fst (cap_spec E k (cap_abs db1))" for k
    using exec_spec [OF assms(1) conjunct2 [OF s1] prod.collapse [symmetric]] by (metis fst_conv)
  obtain b' g' where built: "built_values b = Inr b'" "built_opt AgentRunBinding g = Inr g'"
    and act: "spec_activate E ns n i e c h b' g' now (cap_abs db) = (Inr a, cap_abs db1)"
    using s1 by (auto simp: checked_Inr answer_Inr)
  obtain s x where x: "namespace_of ns = Inr s" "ab_pointer (cap_abs db1) (s, n) = Some (x, CapActive)" "ca_revision x = i" "ca_generation x = ca_generation a"
    and excl: "cap_abs db1 = cap_abs db \<or> visible_gen (ab_pointer (cap_abs db1) (s, n)) \<noteq> e"
    using act
  proof (cases rule: spec_activate_cases)
    case (new s m x)
    then show ?thesis using that [of s "activation_norm (columns_of x)"] later_gen by simp
  qed (use that in simp)
  have "fst (cap_exec E (ReadActivation CapActive ns n) db1) = Inr (GotActivation (Some x))" unfolding view using x(1,2) by (simp add: answer_def spec_read_def)
  moreover have "cap_abs db1 = cap_abs db \<or> (\<forall>i' c' h' b' g' t. \<exists>err. fst (cap_exec E (Activate ns n i' e c' h' b' g' t) db1) = Inl err)"
    unfolding view using excl spec_activate_conflict [OF x(1)] by blast
  moreover have "\<exists>a' db2. cap_exec E (Activate ns n i (Some (ca_generation a)) c h b g now') db1 = (Inr (GotActivation (Some a')), db2) \<and>
       ca_generation a' = ca_generation a \<and> cap_abs db2 = cap_abs db1" if t: "settings_trimmed c h b"
  proof -
    have nb: "list_all (\<lambda>(_, v). binding_norm v = v) b'" "map fst b' = map fst b" using built_values_norm [OF built(1)] by simp_all
    have t': "settings_trimmed c h b'" using t unfolding settings_trimmed_def trimmed_fst nb(2) .
    obtain a' where a': "spec_activate E ns n i (Some (ca_generation a)) c h b' g' now' (cap_abs db1) = (Inr a', cap_abs db1)" "ca_generation a' = ca_generation a"
      using spec_activate_again [OF act t' nb(1) built_opt_norm [OF built(2)]] by blast
    obtain y db2 where y: "cap_exec E (Activate ns n i (Some (ca_generation a)) c h b g now') db1 = (y, db2)" by fastforce
    show ?thesis using exec_spec [OF assms(1) conjunct2 [OF s1] y] a' built y by (auto simp: answer_def)
  qed
  ultimately show ?thesis using x(3,4) by blast
qed

section \<open>Examples\<close>

definition example_env :: capability_env where
  "example_env = \<lparr>ce_sha = \<lambda>_. replicate 64 (CHR ''a''), ce_dump = \<lambda>_. JNull\<rparr>"

lemma example_sha: "sha_hex example_env"
proof -
  have "hex_digest (replicate 64 (CHR ''a''))" by code_simp
  then show ?thesis by (simp add: sha_hex_def example_env_def)
qed

definition example_calls :: "cap_call list" where
  "example_calls = [AppendRevision ''t'' example_manifest None (At 7), Activate ''t'' ''telegram'' 1 None [] [] [] None (At 8)]"

definition example_stopping :: "cap_call list" where
  "example_stopping = example_calls @ [BeginDeactivation ''t'' ''telegram'' 1]"

theorem capability_store_refines_lifecycle_witness:
  "fst (run_calls (cap_exec example_env) example_stopping empty_capabilities) =
    fst (run_calls (cap_spec example_env) example_stopping \<lparr>ab_archive = \<lambda>_. [], ab_pointer = \<lambda>_. None, ab_tests = \<lambda>_. None\<rparr>)"
  using capability_store_refines_lifecycle [OF example_sha, of example_stopping] by (metis fst_map_prod id_apply)

definition example_activation :: "int \<Rightarrow> capability_activation" where
  "example_activation generation = \<lparr>ca_namespace = ''t'', ca_name = ''telegram'', ca_revision = 1, ca_digest = ''sha256:'' @ replicate 64 (CHR ''a''), ca_generation = generation,
     ca_activated_at = At 8, ca_config = [], ca_secret_handles = [], ca_secret_bindings = [], ca_agent_binding = None\<rparr>"

lemma example_active:
  "fst (cap_exec example_env (Activate ''t'' ''telegram'' 1 None [] [] [] None (At 8)) (snd (run_calls (cap_exec example_env) (take 1 example_calls) empty_capabilities))) =
    Inr (GotActivation (Some (example_activation 1)))"
  by code_simp

lemma example_visible:
  "fst (cap_exec example_env (ReadActivation CapActive ''t'' ''telegram'') (snd (run_calls (cap_exec example_env) example_calls empty_capabilities))) =
    Inr (GotActivation (Some (example_activation 1)))"
  by code_simp

lemma example_stopped:
  "fst (cap_exec example_env (Deactivate ''t'' ''telegram'' 1) (snd (run_calls (cap_exec example_env) example_stopping empty_capabilities))) =
    Inr (GotActivation (Some (example_activation 1)))"
  by code_simp

lemma example_restarted:
  "fst (cap_exec example_env (ReadActivation CapActive ''t'' ''telegram'')
    (snd (run_calls (cap_exec example_env) [Activate ''t'' ''telegram'' 1 None [] [] [] None (At 8)]
      (snd (cap_exec example_env (Deactivate ''t'' ''telegram'' 1) (snd (run_calls (cap_exec example_env) example_stopping empty_capabilities))))))) =
    Inr (GotActivation (Some (example_activation 2)))"
  by code_simp

theorem stopped_generation_never_returns_witness: "1 < ca_generation (example_activation 2)"
  by (rule stopped_generation_never_returns [OF example_sha refl paired [OF example_stopped] refl paired [OF example_restarted]])

theorem activation_points_to_archive_witness:
  "\<exists>m. digest_of example_env m = Inr (ca_digest (example_activation 1)) \<and> CapabilityManifest m = Inr m"
  using activation_points_to_archive [OF example_sha refl paired [OF example_visible]] by blast

theorem capability_activation_is_exclusive_witness:
  "\<exists>db x. fst (cap_exec example_env (ReadActivation CapActive ''t'' ''telegram'') db) = Inr (GotActivation (Some x)) \<and> ca_revision x = 1 \<and> ca_generation x = 1"
proof -
  have "ca_generation (example_activation 1) = 1" by (simp add: example_activation_def)
  with capability_activation_is_exclusive [OF example_sha refl paired [OF example_active]] show ?thesis by metis
qed

end
