(* ===== verification/CapabilityCredentials.thy ===== *)
theory CapabilityCredentials
  imports Ids Codec CapabilityModels
begin

text \<open>
  \<^verbatim>\<open>capabilities/credentials.py\<close>: the bearers with which capability workers call the public API. The store
  keeps the hash of each bearer with its policy; the service issues one for an interface worker, with the
  authority its reviewed manifest declares. A \<open>frozenset\<close> of scopes is the sorted list of its members, which
  is also what the column holds. The clock, the random bytes and SHA-256 are arguments, the resolution of an
  agent specification is the callback the service is given. \<open>AgentRunBinding\<close> values are built from their
  fields by the caller, as everywhere in the protocol.
\<close>

section \<open>Data\<close>

datatype credential_error =
    CredentialValueError string
  | CredentialRuntimeError string
  | CredentialValidationError validation_error
  | CredentialIntegrityError

definition capability_api_scopes :: "string list" where
  "capability_api_scopes = [''agent.runs.submit'', ''agent.runs.replay'', ''agent.runs.resume'', ''agent.runs.cancel'',
     ''files.upload'', ''notifications.read'', ''notifications.ack'']"

definition owner_only_scopes :: "string list" where
  "owner_only_scopes = [''agent.runs.resume'', ''agent.runs.cancel'', ''notifications.read'', ''notifications.ack'']"

definition credential_prefix :: string where
  "credential_prefix = ''otcap_''"

record capability_credential =
  cc_id :: string
  cc_tenant_id :: string
  cc_actor_id :: string
  cc_capability_name :: string
  cc_instance_id :: string
  cc_interface :: string
  cc_source_id :: string
  cc_channel :: string
  cc_agent_binding :: run_binding
  cc_scopes :: "string list"
  cc_issued_at :: timestamp
  cc_revoked_at :: "timestamp option"

record issued_credential =
  ic_credential :: capability_credential
  ic_token :: string

text \<open>A row of \<open>capability_api_credentials\<close>.\<close>

record credential_row =
  cw_id :: string
  cw_tenant_id :: string
  cw_actor_id :: string
  cw_capability_name :: string
  cw_instance_id :: string
  cw_interface :: string
  cw_source_id :: string
  cw_channel :: string
  cw_agent_spec_id :: string
  cw_agent_spec_revision :: int
  cw_run_kind :: string
  cw_trust_class :: trust_class
  cw_scopes :: "string list"
  cw_token_hash :: string
  cw_issued_at :: timestamp
  cw_revoked_at :: "timestamp option"
  cw_revoked_reason :: "string option"

type_synonym credential_db = "credential_row list"

section \<open>Helpers\<close>

definition identity_of :: "string \<Rightarrow> string \<Rightarrow> credential_error + string" where
  "identity_of v label = (let safe = py_strip v in
     if safe = [] \<or> 200 < length safe \<or> has_control safe then Inl (CredentialValueError (label @ '' is invalid'')) else Inr safe)"

definition slug_of :: "string \<Rightarrow> string \<Rightarrow> credential_error + string" where
  "slug_of v label = (let safe = py_strip v in if \<not> slug safe then Inl (CredentialValueError (label @ '' is invalid'')) else Inr safe)"

definition frozenset :: "string list \<Rightarrow> string list" where
  "frozenset vs = sort (remdups vs)"

definition api_scopes_of :: "string list \<Rightarrow> credential_error + string list" where
  "api_scopes_of vs = (let scopes = frozenset (map py_strip vs) in
     if scopes = [] \<or> [] \<in> set scopes \<or> \<not> set scopes \<subseteq> set capability_api_scopes
     then Inl (CredentialValueError ''capability API scopes are invalid'') else Inr scopes)"

definition validate_trust_scopes :: "trust_class \<Rightarrow> string list \<Rightarrow> credential_error + unit" where
  "validate_trust_scopes trust scopes = (if trust \<noteq> TrustOwner \<and> set scopes \<inter> set owner_only_scopes \<noteq> {}
     then Inl (CredentialValueError ''restricted interfaces cannot receive approval or owner notification scopes'') else Inr ())"

definition validate_declared_binding_scopes :: "interface_binding \<Rightarrow> string list \<Rightarrow> credential_error + unit" where
  "validate_declared_binding_scopes b = validate_trust_scopes (ib_trust_class b)"

definition validate_binding_scopes :: "run_binding \<Rightarrow> string list \<Rightarrow> credential_error + unit" where
  "validate_binding_scopes b = validate_trust_scopes (rb_trust_class b)"

definition bearer_char :: "char \<Rightarrow> bool" where
  "bearer_char c = (is_alnum c \<or> c = CHR ''_'' \<or> c = CHR ''-'')"

definition bearer_text :: "string \<Rightarrow> bool" where
  "bearer_text s = (py_prefix credential_prefix s \<and> (let u = drop (length credential_prefix) s in
     40 \<le> length u \<and> length u \<le> 200 \<and> list_all bearer_char u))"

definition bearer_hash :: "(string \<Rightarrow> string) \<Rightarrow> string \<Rightarrow> string" where
  "bearer_hash sha token = sha (utf8 token)"

definition credential_of :: "credential_row \<Rightarrow> credential_error + capability_credential" where
  "credential_of row = (case AgentRunBinding \<lparr>rb_agent_spec = \<lparr>ref_tenant_id = cw_tenant_id row, ref_spec_id = cw_agent_spec_id row,
        ref_revision = cw_agent_spec_revision row\<rparr>, rb_run_kind = cw_run_kind row, rb_trust_class = cw_trust_class row\<rparr> of
      Inl e \<Rightarrow> Inl (CredentialValidationError e)
    | Inr b \<Rightarrow> Inr \<lparr>cc_id = cw_id row, cc_tenant_id = cw_tenant_id row, cc_actor_id = cw_actor_id row, cc_capability_name = cw_capability_name row,
        cc_instance_id = cw_instance_id row, cc_interface = cw_interface row, cc_source_id = cw_source_id row, cc_channel = cw_channel row,
        cc_agent_binding = b, cc_scopes = frozenset (cw_scopes row), cc_issued_at = cw_issued_at row, cc_revoked_at = cw_revoked_at row\<rparr>)"

section \<open>The store\<close>

definition live_at :: "string \<Rightarrow> string \<Rightarrow> credential_row \<Rightarrow> bool" where
  "live_at tenant instance_id r = (cw_tenant_id r = tenant \<and> cw_instance_id r = instance_id \<and> cw_revoked_at r = None)"

definition revoke_rows :: "(credential_row \<Rightarrow> bool) \<Rightarrow> timestamp \<Rightarrow> string \<Rightarrow> credential_db \<Rightarrow> credential_db" where
  "revoke_rows P now reason = upd P (\<lambda>r. r\<lparr>cw_revoked_at := Some now, cw_revoked_reason := Some reason\<rparr>)"

definition row_of_credential :: "capability_credential \<Rightarrow> string \<Rightarrow> credential_row" where
  "row_of_credential c token_hash = \<lparr>cw_id = cc_id c, cw_tenant_id = cc_tenant_id c, cw_actor_id = cc_actor_id c,
     cw_capability_name = cc_capability_name c, cw_instance_id = cc_instance_id c, cw_interface = cc_interface c, cw_source_id = cc_source_id c,
     cw_channel = cc_channel c, cw_agent_spec_id = ref_spec_id (rb_agent_spec (cc_agent_binding c)),
     cw_agent_spec_revision = ref_revision (rb_agent_spec (cc_agent_binding c)), cw_run_kind = rb_run_kind (cc_agent_binding c),
     cw_trust_class = rb_trust_class (cc_agent_binding c), cw_scopes = cc_scopes c, cw_token_hash = token_hash, cw_issued_at = cc_issued_at c,
     cw_revoked_at = None, cw_revoked_reason = None\<rparr>"

text \<open>
  The constraints of the table at an insertion: the primary key, the unique hash, the unique live instance
  and the check on the revision.
\<close>

definition insert_credential :: "credential_row \<Rightarrow> credential_db \<Rightarrow> credential_db option" where
  "insert_credential r db = (if (\<exists>x \<in> set db. cw_id x = cw_id r \<or> cw_token_hash x = cw_token_hash r \<or> live_at (cw_tenant_id r) (cw_instance_id r) x) \<or>
       cw_agent_spec_revision r < 1 then None else Some (db @ [r]))"

definition issue_credential :: "(string \<Rightarrow> string) \<Rightarrow> nat list \<Rightarrow> (nat \<Rightarrow> char) \<Rightarrow> timestamp \<Rightarrow> string \<Rightarrow> string \<Rightarrow> string \<Rightarrow> string \<Rightarrow> string \<Rightarrow> string \<Rightarrow> string \<Rightarrow>
    run_binding \<Rightarrow> string list \<Rightarrow> (credential_db, credential_error, issued_credential) oper" where
  "issue_credential sha uuid random now tenant_id actor_id name instance_id interface source_id channel agent_binding scopes =
     checked (identity_of tenant_id ''tenant_id'') (\<lambda>tenant. checked (identity_of actor_id ''actor_id'') (\<lambda>actor.
     checked (identity_of instance_id ''capability_instance_id'') (\<lambda>instance_id. checked (identity_of source_id ''source_id'') (\<lambda>source.
     checked (slug_of name ''capability_name'') (\<lambda>capability. checked (slug_of interface ''interface'') (\<lambda>interface_name.
     checked (slug_of channel ''channel'') (\<lambda>channel_name.
     checked (if ref_tenant_id (rb_agent_spec agent_binding) \<noteq> tenant
         then Inl (CredentialValueError ''agent binding belongs to a different tenant'') else Inr ()) (\<lambda>_.
     checked (api_scopes_of scopes) (\<lambda>safe_scopes. checked (validate_binding_scopes agent_binding safe_scopes) (\<lambda>_.
     checked (map_sum CredentialValueError id (new_short_id uuid ''capcred'' 12)) (\<lambda>credential_id db.
       let token = credential_prefix @ token_urlsafe random 36;
           credential = \<lparr>cc_id = credential_id, cc_tenant_id = tenant, cc_actor_id = actor, cc_capability_name = capability, cc_instance_id = instance_id,
             cc_interface = interface_name, cc_source_id = source, cc_channel = channel_name, cc_agent_binding = agent_binding,
             cc_scopes = safe_scopes, cc_issued_at = now, cc_revoked_at = None\<rparr>
       in case insert_credential (row_of_credential credential (bearer_hash sha token)) (revoke_rows (live_at tenant instance_id) now ''rotated'' db) of
            None \<Rightarrow> raises CredentialIntegrityError db
          | Some db' \<Rightarrow> ok \<lparr>ic_credential = credential, ic_token = token\<rparr> db')))))))))))"

definition authenticate :: "(string \<Rightarrow> string) \<Rightarrow> string \<Rightarrow> credential_db \<Rightarrow> credential_error + capability_credential option" where
  "authenticate sha token db = (let candidate = py_strip token in
     if \<not> bearer_text candidate then Inr None
     else case sel (\<lambda>r. cw_token_hash r = bearer_hash sha candidate \<and> cw_revoked_at r = None) db of
         None \<Rightarrow> Inr None | Some row \<Rightarrow> map_sum id Some (credential_of row))"

definition safe_reason :: "string \<Rightarrow> string \<Rightarrow> string" where
  "safe_reason fallback reason = take 200 (py_strip (if reason = [] then fallback else reason))"

definition revoke_instance :: "timestamp \<Rightarrow> string \<Rightarrow> string \<Rightarrow> string \<Rightarrow> (credential_db, credential_error, int) oper" where
  "revoke_instance now tenant_id instance_id reason =
     checked (identity_of tenant_id ''tenant_id'') (\<lambda>tenant. checked (identity_of instance_id ''capability_instance_id'') (\<lambda>instance_id db.
       ok (int (length (filter (live_at tenant instance_id) db))) (revoke_rows (live_at tenant instance_id) now (safe_reason ''generation_stopped'' reason) db)))"

definition revoke_credential :: "timestamp \<Rightarrow> string \<Rightarrow> string \<Rightarrow> string \<Rightarrow> (credential_db, credential_error, bool) oper" where
  "revoke_credential now tenant_id credential_id reason =
     checked (identity_of tenant_id ''tenant_id'') (\<lambda>tenant. checked (identity_of credential_id ''credential_id'') (\<lambda>i db.
       let P = (\<lambda>r. cw_tenant_id r = tenant \<and> cw_id r = i \<and> cw_revoked_at r = None) in
       ok (length (filter P db) = 1) (revoke_rows P now (safe_reason ''revoked'' reason) db)))"

section \<open>The service\<close>

definition api_workers :: "capability_manifest \<Rightarrow> worker_spec list" where
  "api_workers m = filter (\<lambda>w. list_ex (\<lambda>s. sq_name s = agent_api_token) (wk_secrets w)) (cm_workers m)"

definition api_requirements :: "capability_manifest \<Rightarrow> secret_requirement list" where
  "api_requirements m = concat (map api_secrets (api_workers m))"

definition api_permissions :: "capability_manifest \<Rightarrow> string list" where
  "api_permissions m = frozenset (filter (\<lambda>p. p \<in> set capability_api_scopes) (concat (map wk_permissions (api_workers m))))"

definition agent_api_contract :: "capability_manifest \<Rightarrow> credential_error + (string list \<times> interface_binding) option" where
  "agent_api_contract m = (let workers = api_workers m; requirements = api_requirements m; scopes = api_permissions m in
     if workers = [] then Inr None
     else if list_ex (\<lambda>w. wk_kind w \<noteq> InterfaceWorker) workers
     then Inl (CredentialValueError ''Agent API credentials are only supported for interface workers'')
     else if list_ex (\<lambda>s. sq_source s \<noteq> IssuedSource) requirements
     then Inl (CredentialValueError ''Agent API credentials must use the issued secret source'')
     else if scopes = [] then Inl (CredentialValueError ''interface worker declares no supported Agent API scopes'')
     else if set (concat (map sq_scopes requirements)) \<noteq> set scopes
     then Inl (CredentialValueError ''Agent API credential scopes must match worker permissions'')
     else case remdups (map wk_agent_binding workers) of
         [Some declared_binding] \<Rightarrow> (case validate_declared_binding_scopes declared_binding scopes of
             Inl e \<Rightarrow> Inl e | Inr _ \<Rightarrow> Inr (Some (scopes, declared_binding)))
       | _ \<Rightarrow> Inl (CredentialValueError ''interface workers must declare one consistent agent binding''))"

definition resolve_agent_binding :: "(string \<Rightarrow> string \<Rightarrow> credential_error + agent_ref) option \<Rightarrow> string \<Rightarrow> capability_manifest \<Rightarrow>
    credential_error + run_binding option" where
  "resolve_agent_binding resolve tenant_id m = (case agent_api_contract m of Inl e \<Rightarrow> Inl e | Inr None \<Rightarrow> Inr None
     | Inr (Some (_, declared_binding)) \<Rightarrow> (case resolve of
           None \<Rightarrow> Inl (CredentialRuntimeError ''AgentSpec resolution is unavailable for interface credentials'')
         | Some resolve_agent_spec \<Rightarrow> (case resolve_agent_spec tenant_id (ib_agent_spec_id declared_binding) of Inl e \<Rightarrow> Inl e
             | Inr agent_spec \<Rightarrow>
                 if ref_tenant_id agent_spec \<noteq> tenant_id \<or> ref_spec_id agent_spec \<noteq> ib_agent_spec_id declared_binding
                 then Inl (CredentialValueError ''resolved AgentSpec does not match the reviewed interface binding'')
                 else map_sum CredentialValidationError Some (AgentRunBinding \<lparr>rb_agent_spec = agent_spec,
                   rb_run_kind = ib_run_kind declared_binding, rb_trust_class = ib_trust_class declared_binding\<rparr>))))"

definition issue_for_capability :: "(string \<Rightarrow> string) \<Rightarrow> nat list \<Rightarrow> (nat \<Rightarrow> char) \<Rightarrow> timestamp \<Rightarrow> string \<Rightarrow> string \<Rightarrow> capability_manifest \<Rightarrow> run_binding option \<Rightarrow>
    (credential_db, credential_error, issued_credential option) oper" where
  "issue_for_capability sha uuid random now tenant_id instance_id m agent_binding =
     checked (agent_api_contract m) (\<lambda>contract db. case contract of
         None \<Rightarrow> (case agent_binding of None \<Rightarrow> ok None db
           | Some _ \<Rightarrow> raises (CredentialValueError ''capability without Agent API access cannot have an agent binding'') db)
       | Some (scopes, declared_binding) \<Rightarrow> (case agent_binding of
             None \<Rightarrow> raises (CredentialValueError ''interface generation is missing its persisted agent binding'') db
           | Some b \<Rightarrow>
               if ref_tenant_id (rb_agent_spec b) \<noteq> tenant_id then raises (CredentialValueError ''agent binding belongs to a different tenant'') db
               else if ref_spec_id (rb_agent_spec b) \<noteq> ib_agent_spec_id declared_binding \<or> rb_run_kind b \<noteq> ib_run_kind declared_binding \<or>
                 rb_trust_class b \<noteq> ib_trust_class declared_binding
               then raises (CredentialValueError ''persisted AgentSpec binding does not match the interface manifest'') db
               else map_prod (map_sum id Some) id (issue_credential sha uuid random now tenant_id (''capability:'' @ instance_id) (cm_name m) instance_id
                 (cm_name m) instance_id (cm_name m) b scopes db)))"

section \<open>Bearers are well formed\<close>

lemma b64_bearer: "i < 64 \<Longrightarrow> bearer_char (b64_char i)"
  by (auto simp: b64_char_def bearer_char_def is_alnum_def is_lower_def is_upper_def is_digit_def Let_def)

lemma byte_groups: "x div 4 < 64" "x mod 4 * 16 + y div 16 < 64" "y mod 16 * 4 + z div 64 < 64" if "x < 256" "y < 256" "z < 256" for x y z :: nat
proof -
  have m: "x mod 4 < 4" "y mod 16 < 16" by simp_all
  have d: "x div 4 < 64" "y div 16 < 16" "z div 64 < 4" using that by (simp_all add: less_mult_imp_div_less)
  show "x div 4 < 64" by (rule d)
  show "x mod 4 * 16 + y div 16 < 64" "y mod 16 * 4 + z div 64 < 64" using m d by linarith+
qed

lemma encode_groups:
  "length s mod 3 = 0 \<Longrightarrow> length (urlsafe_b64encode s) = length s div 3 * 4 \<and> list_all bearer_char (urlsafe_b64encode s)"
proof (induction s rule: urlsafe_b64encode.induct)
  case (4 a b c r)
  have l: "length (a # b # c # r) div 3 = Suc (length r div 3)" by simp
  have "of_char a div 4 < (64 :: nat)" "of_char a mod 4 * 16 + of_char b div 16 < (64 :: nat)"
    "of_char b mod 16 * 4 + of_char c div 64 < (64 :: nat)" "of_char c mod 64 < (64 :: nat)"
    using byte_groups [OF char_bound [of a] char_bound [of b] char_bound [of c]] by simp_all
  then have "bearer_char (b64_char (of_char a div 4))" "bearer_char (b64_char (of_char a mod 4 * 16 + of_char b div 16))"
    "bearer_char (b64_char (of_char b mod 16 * 4 + of_char c div 64))" "bearer_char (b64_char (of_char c mod 64))" using b64_bearer by blast+
  moreover have "length r mod 3 = 0" using 4(2) by simp
  ultimately show ?case using 4(1) l by simp
qed simp_all

lemma bearer_no_pad: "bearer_char c \<Longrightarrow> c \<noteq> CHR ''='' \<and> \<not> py_isspace c"
  by (auto simp: bearer_char_def is_alnum_def is_lower_def is_upper_def is_digit_def py_isspace_def Let_def)

lemma strip_bearer: "list_all bearer_char s \<Longrightarrow> py_strip s = s"
  using bearer_no_pad by (intro strip_no_space) (simp add: list_all_iff)

lemma no_pad: "list_all bearer_char s \<Longrightarrow> rev (dropWhile (\<lambda>c. c = CHR ''='') (rev s)) = s"
proof (cases s rule: rev_cases)
  case (snoc u c)
  assume "list_all bearer_char s"
  with snoc have "c \<noteq> CHR ''=''" using bearer_no_pad by simp
  with snoc show ?thesis by simp
qed simp

lemma token_bearer: "length (token_urlsafe random 36) = 48" "list_all bearer_char (token_urlsafe random 36)"
proof -
  let ?e = "urlsafe_b64encode (token_bytes random 36)"
  have e: "length ?e = 48 \<and> list_all bearer_char ?e" using encode_groups [of "token_bytes random 36"] by (simp add: token_bytes_def)
  then have "token_urlsafe random 36 = ?e" unfolding token_urlsafe_def by (intro no_pad) simp
  with e show "length (token_urlsafe random 36) = 48" "list_all bearer_char (token_urlsafe random 36)" by simp_all
qed

lemma issued_bearer_text:
  "bearer_text (credential_prefix @ token_urlsafe random 36)" "py_strip (credential_prefix @ token_urlsafe random 36) = credential_prefix @ token_urlsafe random 36"
proof -
  show "bearer_text (credential_prefix @ token_urlsafe random 36)" using token_bearer [of random] by (auto simp: bearer_text_def py_prefix_iff)
  have "list_all bearer_char (credential_prefix @ token_urlsafe random 36)" using token_bearer(2) [of random]
    by (simp add: credential_prefix_def bearer_char_def is_alnum_def is_lower_def)
  then show "py_strip (credential_prefix @ token_urlsafe random 36) = credential_prefix @ token_urlsafe random 36" by (rule strip_bearer)
qed

section \<open>Issuing\<close>

lemma identity_of_Inr: "identity_of v l = Inr x \<longleftrightarrow> x = py_strip v \<and> x \<noteq> [] \<and> length x \<le> 200 \<and> \<not> has_control x"
  by (auto simp: identity_of_def Let_def)

lemma frozenset_facts [simp]: "set (frozenset vs) = set vs" "distinct (frozenset vs)" "frozenset (frozenset vs) = frozenset vs"
  by (simp_all add: frozenset_def sorted_sort_id distinct_remdups_id)

definition binding_of_row :: "credential_row \<Rightarrow> run_binding" where
  "binding_of_row r = \<lparr>rb_agent_spec = \<lparr>ref_tenant_id = cw_tenant_id r, ref_spec_id = cw_agent_spec_id r, ref_revision = cw_agent_spec_revision r\<rparr>,
     rb_run_kind = cw_run_kind r, rb_trust_class = cw_trust_class r\<rparr>"

text \<open>What is known of a credential at its issue.\<close>

definition fine_credential :: "capability_credential \<Rightarrow> bool" where
  "fine_credential c = (AgentRunBinding (cc_agent_binding c) = Inr (cc_agent_binding c) \<and> ref_tenant_id (rb_agent_spec (cc_agent_binding c)) = cc_tenant_id c \<and>
     frozenset (cc_scopes c) = cc_scopes c \<and> cc_scopes c \<noteq> [] \<and> set (cc_scopes c) \<subseteq> set capability_api_scopes \<and>
     (rb_trust_class (cc_agent_binding c) \<noteq> TrustOwner \<longrightarrow> set (cc_scopes c) \<inter> set owner_only_scopes = {}))"

definition after_issue :: "(string \<Rightarrow> string) \<Rightarrow> issued_credential \<Rightarrow> credential_db \<Rightarrow> credential_db" where
  "after_issue sha ic db = (let c = ic_credential ic in
     revoke_rows (live_at (cc_tenant_id c) (cc_instance_id c)) (cc_issued_at c) ''rotated'' db @ [row_of_credential c (bearer_hash sha (ic_token ic))])"

lemma credential_issued:
  assumes "issue_credential sha uuid random now t a n i f s ch b sc db = (x, db')" "AgentRunBinding b = Inr b"
  obtains (refused) e where "x = Inl e" "db' = db"
  | (issued) ic where "x = Inr ic" "db' = after_issue sha ic db" "fine_credential (ic_credential ic)" "cc_agent_binding (ic_credential ic) = b"
      "cc_tenant_id (ic_credential ic) = py_strip t" "cc_instance_id (ic_credential ic) = py_strip i" "cc_revoked_at (ic_credential ic) = None"
      "set (cc_scopes (ic_credential ic)) = py_strip ` set sc" "ic_token ic = credential_prefix @ token_urlsafe random 36"
      "\<forall>r \<in> set db. cw_id r \<noteq> cc_id (ic_credential ic) \<and> cw_token_hash r \<noteq> bearer_hash sha (ic_token ic)"
proof (insert assms(1) [unfolded issue_credential_def], (erule checked_cases, erule (1) refused)+, goal_cases)
  case (1 tenant actor inst source capability interface channel u scopes v cid)
  let ?c = "\<lparr>cc_id = cid, cc_tenant_id = tenant, cc_actor_id = actor, cc_capability_name = capability, cc_instance_id = inst,
     cc_interface = interface, cc_source_id = source, cc_channel = channel, cc_agent_binding = b, cc_scopes = scopes, cc_issued_at = now, cc_revoked_at = None\<rparr>"
  let ?t = "credential_prefix @ token_urlsafe random 36" and ?db = "revoke_rows (live_at tenant inst) now ''rotated'' db"
  let ?r = "row_of_credential ?c (bearer_hash sha ?t)"
  show ?case
  proof (cases "insert_credential ?r ?db")
    case None
    with 1(14) show ?thesis using refused by (auto simp: Let_def)
  next
    case (Some d)
    have ne: "\<forall>r \<in> set ?db. cw_id r \<noteq> cid \<and> cw_token_hash r \<noteq> bearer_hash sha ?t" and d: "d = ?db @ [?r]"
      using Some by (auto simp: insert_credential_def row_of_credential_def split: if_splits)
    have "\<forall>r \<in> set db. cw_id r \<noteq> cid \<and> cw_token_hash r \<noteq> bearer_hash sha ?t"
    proof
      fix r assume "r \<in> set db"
      then have "(if live_at tenant inst r then r\<lparr>cw_revoked_at := Some now, cw_revoked_reason := Some ''rotated''\<rparr> else r) \<in> set ?db"
        unfolding revoke_rows_def set_upd by blast
      with ne show "cw_id r \<noteq> cid \<and> cw_token_hash r \<noteq> bearer_hash sha ?t" by (fastforce split: if_splits)
    qed
    moreover have sc: "scopes = frozenset (map py_strip sc)" "scopes \<noteq> []" "set scopes \<subseteq> set capability_api_scopes"
      using 1(11) by (auto simp: api_scopes_of_def Let_def split: if_splits)
    moreover have "fine_credential ?c"
      using assms(2) 1(10,12) sc by (auto simp: fine_credential_def validate_binding_scopes_def validate_trust_scopes_def split: if_splits)
    ultimately show ?thesis
      using 1(3,5,14) Some d by (intro issued [of "\<lparr>ic_credential = ?c, ic_token = ?t\<rparr>"]) (simp_all add: Let_def identity_of_Inr after_issue_def)
  qed
qed

section \<open>The store under calls\<close>

datatype cred_call =
    IssueCredential "nat list" "nat \<Rightarrow> char" timestamp string string string string string string string run_binding "string list"
  | Authenticate string
  | RevokeInstance timestamp string string string
  | RevokeCredential timestamp string string string

datatype cred_result =
    GotIssued issued_credential
  | GotCredential "capability_credential option"
  | GotCount int
  | GotFlag bool

fun cred_exec :: "(string \<Rightarrow> string) \<Rightarrow> cred_call \<Rightarrow> (credential_db, credential_error, cred_result) oper" where
  "cred_exec sha (IssueCredential uuid random now t a n i f s ch w sc) db =
     checked (map_sum CredentialValidationError id (AgentRunBinding w)) (\<lambda>b db.
       map_prod (map_sum id GotIssued) id (issue_credential sha uuid random now t a n i f s ch b sc db)) db"
| "cred_exec sha (Authenticate token) db = (map_sum id GotCredential (authenticate sha token db), db)"
| "cred_exec sha (RevokeInstance now t i reason) db = map_prod (map_sum id GotCount) id (revoke_instance now t i reason db)"
| "cred_exec sha (RevokeCredential now t i reason) db = map_prod (map_sum id GotFlag) id (revoke_credential now t i reason db)"

lemma credential_of_row: "credential_of (row_of_credential c h) = Inr c" if "fine_credential c" "cc_revoked_at c = None"
proof -
  let ?b = "\<lparr>rb_agent_spec = \<lparr>ref_tenant_id = cc_tenant_id c, ref_spec_id = ref_spec_id (rb_agent_spec (cc_agent_binding c)),
      ref_revision = ref_revision (rb_agent_spec (cc_agent_binding c))\<rparr>, rb_run_kind = rb_run_kind (cc_agent_binding c),
      rb_trust_class = rb_trust_class (cc_agent_binding c)\<rparr>"
  have "ref_tenant_id (rb_agent_spec (cc_agent_binding c)) = cc_tenant_id c" using that(1) unfolding fine_credential_def by blast
  then have "?b = cc_agent_binding c" by (intro run_binding.equality agent_ref.equality) simp_all
  then have "AgentRunBinding ?b = Inr (cc_agent_binding c)" using that(1) unfolding fine_credential_def by (simp only:)
  then show ?thesis using that by (simp add: credential_of_def row_of_credential_def fine_credential_def)
qed

text \<open>
  A row was written for a credential that was fine and is revoked at most; keys, hashes and live instances
  are unique.
\<close>

definition written_for :: "credential_row \<Rightarrow> capability_credential \<Rightarrow> bool" where
  "written_for r c = (fine_credential c \<and> cc_revoked_at c = None \<and>
     r = (row_of_credential c (cw_token_hash r))\<lparr>cw_revoked_at := cw_revoked_at r, cw_revoked_reason := cw_revoked_reason r\<rparr> \<and>
     (cw_revoked_at r = None \<longrightarrow> r = row_of_credential c (cw_token_hash r)))"

definition cred_inv :: "credential_db \<Rightarrow> bool" where
  "cred_inv db = (distinct (map cw_id db) \<and> distinct (map cw_token_hash db) \<and> (\<forall>r \<in> set db. \<exists>c. written_for r c) \<and>
     (\<forall>r \<in> set db. \<forall>s \<in> set db. cw_revoked_at r = None \<longrightarrow> live_at (cw_tenant_id r) (cw_instance_id r) s \<longrightarrow> r = s))"

lemma revoke_rows_mem:
  assumes "r \<in> set (revoke_rows P now reason db)"
  obtains s where "s \<in> set db" "r = (if P s then s\<lparr>cw_revoked_at := Some now, cw_revoked_reason := Some reason\<rparr> else s)"
  using upd_memD [OF assms [unfolded revoke_rows_def]] by blast

lemma revoke_rows_keys [simp]:
  "map cw_id (revoke_rows P now reason db) = map cw_id db" "map cw_token_hash (revoke_rows P now reason db) = map cw_token_hash db"
  by (simp_all add: revoke_rows_def map_upd)

lemma live_unrevoked: "r \<in> set (revoke_rows P now reason db) \<Longrightarrow> cw_revoked_at r = None \<Longrightarrow> r \<in> set db \<and> \<not> P r"
  by (erule revoke_rows_mem) (auto split: if_splits)

lemma written_for_revoke: "written_for r c \<Longrightarrow> written_for (r\<lparr>cw_revoked_at := Some now, cw_revoked_reason := Some reason\<rparr>) c"
  unfolding written_for_def by (cases r) (simp add: row_of_credential_def)

lemma revoke_rows_inv: "cred_inv db \<Longrightarrow> cred_inv (revoke_rows P now reason db)"
proof -
  assume inv: "cred_inv db"
  have "\<exists>c. written_for r c" if "r \<in> set (revoke_rows P now reason db)" for r
    using that by (rule revoke_rows_mem) (use inv written_for_revoke in \<open>fastforce simp: cred_inv_def\<close>)
  moreover have "r = s" if "r \<in> set (revoke_rows P now reason db)" "s \<in> set (revoke_rows P now reason db)"
    "cw_revoked_at r = None" "live_at (cw_tenant_id r) (cw_instance_id r) s" for r s
    using that inv live_unrevoked [OF that(1,3)] live_unrevoked [OF that(2)] by (auto simp: cred_inv_def live_at_def)
  ultimately show ?thesis using inv unfolding cred_inv_def revoke_rows_keys by blast
qed

lemma after_issue_inv:
  assumes inv: "cred_inv db" and c: "fine_credential (ic_credential ic)" "cc_revoked_at (ic_credential ic) = None"
    and fresh: "\<forall>r \<in> set db. cw_id r \<noteq> cc_id (ic_credential ic) \<and> cw_token_hash r \<noteq> bearer_hash sha (ic_token ic)"
  shows "cred_inv (after_issue sha ic db)"
proof -
  let ?c = "ic_credential ic" and ?h = "bearer_hash sha (ic_token ic)"
  let ?r = "row_of_credential ?c ?h" and ?d = "revoke_rows (live_at (cc_tenant_id ?c) (cc_instance_id ?c)) (cc_issued_at ?c) ''rotated'' db"
  have d: "cred_inv ?d" by (rule revoke_rows_inv [OF inv])
  have new: "cw_id ?r \<notin> set (map cw_id ?d)" "cw_token_hash ?r \<notin> set (map cw_token_hash ?d)"
    unfolding revoke_rows_keys using fresh by (auto simp: row_of_credential_def)
  have w: "written_for ?r ?c" using c unfolding written_for_def by (simp add: row_of_credential_def)
  have free: "\<not> live_at (cw_tenant_id ?r) (cw_instance_id ?r) s" if "s \<in> set ?d" for s
    using live_unrevoked [OF that] by (auto simp: live_at_def row_of_credential_def)
  have "r = s" if rs: "r \<in> set (?d @ [?r])" "s \<in> set (?d @ [?r])" "cw_revoked_at r = None" "live_at (cw_tenant_id r) (cw_instance_id r) s" for r s
  proof -
    have sym: "live_at (cw_tenant_id s) (cw_instance_id s) r" using rs(3,4) by (simp add: live_at_def)
    consider "r = ?r" "s = ?r" | "r = ?r" "s \<in> set ?d" | "r \<in> set ?d" "s = ?r" | "r \<in> set ?d" "s \<in> set ?d" using rs(1,2) by fastforce
    then show ?thesis
    proof cases
      case 4
      with d rs(3,4) show ?thesis unfolding cred_inv_def by blast
    qed (use free rs(4) sym in \<open>blast+\<close>)
  qed
  moreover have "\<exists>c. written_for r c" if "r \<in> set (?d @ [?r])" for r
  proof (cases "r = ?r")
    case False
    with that have "r \<in> set ?d" by simp
    with d show ?thesis unfolding cred_inv_def by blast
  qed (use w in blast)
  moreover have "distinct (map cw_id (?d @ [?r]))" "distinct (map cw_token_hash (?d @ [?r]))" using d new unfolding cred_inv_def by simp_all
  ultimately show ?thesis unfolding cred_inv_def after_issue_def Let_def by blast
qed

lemma binding_again: "AgentRunBinding w = Inr b \<Longrightarrow> AgentRunBinding b = Inr b"
  unfolding AgentRunBinding_def by (rule construct_again [rotated]) (simp_all add: strip_binding_def strip_ref_def)

text \<open>The calls that end the life of a credential: a new one for its instance, and the two revocations.\<close>

definition ends_bearer :: "capability_credential \<Rightarrow> cred_call \<times> (credential_error + cred_result) \<Rightarrow> bool" where
  "ends_bearer c cx = (case snd cx of Inl _ \<Rightarrow> False | Inr y \<Rightarrow> (case fst cx of
       IssueCredential _ _ _ _ _ _ _ _ _ _ _ _ \<Rightarrow> (case y of GotIssued ic \<Rightarrow> cc_tenant_id (ic_credential ic) = cc_tenant_id c \<and>
           cc_instance_id (ic_credential ic) = cc_instance_id c | _ \<Rightarrow> False)
     | Authenticate _ \<Rightarrow> False
     | RevokeInstance _ t i _ \<Rightarrow> py_strip t = cc_tenant_id c \<and> py_strip i = cc_instance_id c
     | RevokeCredential _ t i _ \<Rightarrow> py_strip t = cc_tenant_id c \<and> py_strip i = cc_id c))"

text \<open>Every call is an issue, a revocation of some rows, or changes nothing.\<close>

lemma cred_exec_cases:
  assumes "cred_exec sha c db = (x, db')"
  obtains (same) "db' = db" "\<forall>k. \<not> ends_bearer k (c, x)"
  | (issued) ic uuid random now t a n i f s ch w sc b where "c = IssueCredential uuid random now t a n i f s ch w sc" "AgentRunBinding w = Inr b"
      "x = Inr (GotIssued ic)" "issue_credential sha uuid random now t a n i f s ch b sc db = (Inr ic, db')"
  | (instance_revoked) now t i reason k where "c = RevokeInstance now t i reason" "x = Inr (GotCount k)"
      "db' = revoke_rows (live_at (py_strip t) (py_strip i)) now (safe_reason ''generation_stopped'' reason) db"
  | (credential_revoked) now t i reason k where "c = RevokeCredential now t i reason" "x = Inr (GotFlag k)"
      "db' = revoke_rows (\<lambda>r. cw_tenant_id r = py_strip t \<and> cw_id r = py_strip i \<and> cw_revoked_at r = None) now (safe_reason ''revoked'' reason) db"
proof (cases c)
  case (IssueCredential uuid random now t a n i f s ch w sc)
  show ?thesis
  proof (cases "AgentRunBinding w")
    case (Inl e)
    with IssueCredential assms show ?thesis using same by (auto simp: ends_bearer_def)
  next
    case (Inr b)
    obtain y d where y: "issue_credential sha uuid random now t a n i f s ch b sc db = (y, d)" by fastforce
    note b = binding_again [OF Inr]
    have xd: "x = map_sum id GotIssued y" "db' = d" using IssueCredential Inr y assms by simp_all
    from y b show ?thesis
    proof (cases rule: credential_issued)
      case (refused e)
      with xd show ?thesis using same by (simp add: ends_bearer_def)
    next
      case (issued ic)
      with xd y show ?thesis using that(2) [OF IssueCredential Inr] by simp
    qed
  qed
next
  case (Authenticate token)
  then show ?thesis using assms same by (auto simp: ends_bearer_def split: sum.splits)
next
  case (RevokeInstance now t i reason)
  then show ?thesis using assms same that(3) [OF RevokeInstance]
    by (cases "identity_of t ''tenant_id''"; cases "identity_of i ''capability_instance_id''") (auto simp: revoke_instance_def identity_of_Inr ends_bearer_def)
next
  case (RevokeCredential now t i reason)
  then show ?thesis using assms same that(4) [OF RevokeCredential]
    by (cases "identity_of t ''tenant_id''"; cases "identity_of i ''credential_id''") (auto simp: revoke_credential_def identity_of_Inr Let_def ends_bearer_def)
qed

lemma cred_exec_inv: "cred_inv db \<Longrightarrow> cred_inv (snd (cred_exec sha c db))"
proof -
  assume inv: "cred_inv db"
  obtain x db' where "cred_exec sha c db = (x, db')" by fastforce
  then show ?thesis
  proof (cases rule: cred_exec_cases)
    case (issued ic uuid random now t a n i f s ch w sc b)
    from issued(4) binding_again [OF issued(2)] have "cred_inv db'" by (cases rule: credential_issued) (use after_issue_inv [OF inv] in auto)
    with \<open>cred_exec sha c db = (x, db')\<close> show ?thesis by simp
  qed (use inv revoke_rows_inv \<open>cred_exec sha c db = (x, db')\<close> in auto)
qed

interpretation cred_calls: call_system "cred_exec sha" "[]" cred_inv
  by unfold_locales (simp_all add: cred_inv_def [of "[]"] cred_exec_inv)

section \<open>The life of a bearer\<close>

definition bearer_is :: "bool \<Rightarrow> capability_credential \<Rightarrow> string \<Rightarrow> credential_db \<Rightarrow> bool" where
  "bearer_is live c h db = (\<exists>r \<in> set db. cw_token_hash r = h \<and> (if live then r = row_of_credential c h else cw_revoked_at r \<noteq> None))"

lemma bearer_revoke: "bearer_is live c h db \<Longrightarrow> bearer_is (live \<and> \<not> P (row_of_credential c h)) c h (revoke_rows P now reason db)"
proof -
  assume "bearer_is live c h db"
  then obtain r where r: "r \<in> set db" "cw_token_hash r = h" "if live then r = row_of_credential c h else cw_revoked_at r \<noteq> None"
    unfolding bearer_is_def by blast
  let ?r = "if P r then r\<lparr>cw_revoked_at := Some now, cw_revoked_reason := Some reason\<rparr> else r"
  have "?r \<in> set (revoke_rows P now reason db)" unfolding revoke_rows_def set_upd using r(1) by blast
  moreover have "cw_token_hash ?r = h \<and> (if live \<and> \<not> P (row_of_credential c h) then ?r = row_of_credential c h else cw_revoked_at ?r \<noteq> None)"
    using r(2,3) by (cases live) auto
  ultimately show ?thesis unfolding bearer_is_def by blast
qed

lemma row_keys [simp]:
  "cw_id (row_of_credential c h) = cc_id c" "cw_tenant_id (row_of_credential c h) = cc_tenant_id c" "cw_instance_id (row_of_credential c h) = cc_instance_id c"
  "cw_revoked_at (row_of_credential c h) = None" "cw_token_hash (row_of_credential c h) = h"
  by (simp_all add: row_of_credential_def)

lemma live_row [simp]: "live_at t i (row_of_credential c h) \<longleftrightarrow> cc_tenant_id c = t \<and> cc_instance_id c = i"
  by (simp add: live_at_def)

lemma bearer_step:
  assumes "bearer_is live c h db" "cred_exec sha k db = (x, db')"
  shows "bearer_is (live \<and> \<not> ends_bearer c (k, x)) c h db'"
  using assms(2)
proof (cases rule: cred_exec_cases)
  case same
  with assms(1) show ?thesis by simp
next
  case (issued ic uuid random now t a n i f s ch w sc b)
  from issued(4) binding_again [OF issued(2)] have d: "db' = after_issue sha ic db" by (cases rule: credential_issued) auto
  have e: "ends_bearer c (k, x) \<longleftrightarrow> cc_tenant_id c = cc_tenant_id (ic_credential ic) \<and> cc_instance_id c = cc_instance_id (ic_credential ic)"
    using issued(1,3) by (auto simp: ends_bearer_def)
  show ?thesis using bearer_revoke [OF assms(1), of "live_at (cc_tenant_id (ic_credential ic)) (cc_instance_id (ic_credential ic))"]
    unfolding d e after_issue_def Let_def live_row bearer_is_def by (metis Un_iff set_append)
next
  case (instance_revoked now t i reason n)
  have e: "ends_bearer c (k, x) \<longleftrightarrow> cc_tenant_id c = py_strip t \<and> cc_instance_id c = py_strip i"
    using instance_revoked(1,2) by (auto simp: ends_bearer_def)
  show ?thesis using bearer_revoke [OF assms(1), of "live_at (py_strip t) (py_strip i)"] unfolding instance_revoked(3) e live_row .
next
  case (credential_revoked now t i reason n)
  have e: "ends_bearer c (k, x) \<longleftrightarrow> cc_tenant_id c = py_strip t \<and> cc_id c = py_strip i"
    using credential_revoked(1,2) by (auto simp: ends_bearer_def)
  show ?thesis using bearer_revoke [OF assms(1), of "\<lambda>r. cw_tenant_id r = py_strip t \<and> cw_id r = py_strip i \<and> cw_revoked_at r = None"]
    unfolding credential_revoked(3) e by simp
qed

lemma bearer_run:
  "bearer_is live c h db \<Longrightarrow>
   bearer_is (live \<and> \<not> list_ex (ends_bearer c) (fst (run_calls (cred_exec sha) cs db))) c h (snd (run_calls (cred_exec sha) cs db))"
proof (induction cs arbitrary: db live)
  case (Cons k cs)
  obtain x db' where x: "cred_exec sha k db = (x, db')" by fastforce
  show ?case using Cons.IH [OF bearer_step [OF Cons.prems x]] x by (simp add: Let_def)
qed simp

lemma authenticate_bearer:
  assumes "cred_inv db" "bearer_is live c (bearer_hash sha token) db" "fine_credential c" "cc_revoked_at c = None" "bearer_text token" "py_strip token = token"
  shows "authenticate sha token db = Inr (if live then Some c else None)"
proof -
  let ?P = "\<lambda>r. cw_token_hash r = bearer_hash sha token \<and> cw_revoked_at r = None"
  obtain r where r: "r \<in> set db" "cw_token_hash r = bearer_hash sha token"
      "if live then r = row_of_credential c (bearer_hash sha token) else cw_revoked_at r \<noteq> None"
    using assms(2) unfolding bearer_is_def by blast
  have d: "distinct (map cw_token_hash db)" using assms(1) unfolding cred_inv_def by blast
  have "sel ?P db = (if live then Some r else None)"
  proof (cases live)
    case True
    then have "sel ?P db = Some r" using r by (intro sel_unique [OF d r(1)]) simp_all
    with True show ?thesis by simp
  next
    case False
    then have "\<not> ?P s" if "s \<in> set db" for s using distinct_key_eq [OF d that r(1)] r(2,3) by auto
    with False show ?thesis by (simp add: sel_None)
  qed
  then show ?thesis using assms(5,6) r(3) credential_of_row [OF assms(3,4)] by (simp add: authenticate_def Let_def)
qed

lemma authenticated_row:
  assumes "cred_inv db" "authenticate sha token db = Inr (Some c)"
  obtains r where "r \<in> set db" "r = row_of_credential c (bearer_hash sha (py_strip token))" "fine_credential c" "cc_revoked_at c = None"
proof -
  let ?P = "\<lambda>r. cw_token_hash r = bearer_hash sha (py_strip token) \<and> cw_revoked_at r = None"
  obtain r where s: "sel ?P db = Some r"
    using assms(2) by (cases "sel ?P db") (simp_all add: authenticate_def Let_def split: if_splits)
  have c: "credential_of r = Inr c"
    using assms(2) s by (cases "credential_of r") (simp_all add: authenticate_def Let_def split: if_splits)
  note r = sel_SomeD [OF s]
  obtain c' where w: "written_for r c'" using assms(1) r unfolding cred_inv_def by blast
  then have row: "r = row_of_credential c' (bearer_hash sha (py_strip token))" and f: "fine_credential c'" "cc_revoked_at c' = None"
    using r unfolding written_for_def by simp_all
  have "c' = c" using c credential_of_row [OF f] unfolding row by simp
  with row f r show ?thesis using that by blast
qed

section \<open>The service\<close>

lemma contract_facts:
  assumes "agent_api_contract m = Inr (Some (scopes, bd))"
  shows "api_workers m \<noteq> []" "\<forall>w \<in> set (api_workers m). wk_kind w = InterfaceWorker \<and> wk_agent_binding w = Some bd" "scopes = api_permissions m"
    "set (concat (map sq_scopes (api_requirements m))) = set scopes" "ib_trust_class bd \<noteq> TrustOwner \<Longrightarrow> set scopes \<inter> set owner_only_scopes = {}"
proof -
  let ?ws = "api_workers m" and ?rs = "api_requirements m" and ?ps = "api_permissions m"
  have g: "?ws \<noteq> []" "\<not> list_ex (\<lambda>w. wk_kind w \<noteq> InterfaceWorker) ?ws" "\<not> list_ex (\<lambda>s. sq_source s \<noteq> IssuedSource) ?rs" "?ps \<noteq> []"
    "set (concat (map sq_scopes ?rs)) = set ?ps"
    using assms unfolding agent_api_contract_def Let_def by (auto split: if_splits)
  have e: "agent_api_contract m = (case remdups (map wk_agent_binding ?ws) of
         [Some declared_binding] \<Rightarrow> (case validate_declared_binding_scopes declared_binding ?ps of
             Inl e \<Rightarrow> Inl e | Inr _ \<Rightarrow> Inr (Some (?ps, declared_binding)))
       | _ \<Rightarrow> Inl (CredentialValueError ''interface workers must declare one consistent agent binding''))"
    using g unfolding agent_api_contract_def Let_def by simp
  then have b: "remdups (map wk_agent_binding ?ws) = [Some bd]" and v: "validate_declared_binding_scopes bd ?ps = Inr ()" and s: "scopes = ?ps"
    using assms by (auto split: list.splits option.splits sum.splits)
  have "set (map wk_agent_binding ?ws) = {Some bd}" using arg_cong [OF b, of set] by simp
  then show "\<forall>w \<in> set ?ws. wk_kind w = InterfaceWorker \<and> wk_agent_binding w = Some bd" using g(2) by (auto simp: list_ex_iff)
  show "?ws \<noteq> []" "scopes = ?ps" "set (concat (map sq_scopes ?rs)) = set scopes" using g(1,5) s by simp_all
  show "ib_trust_class bd \<noteq> TrustOwner \<Longrightarrow> set scopes \<inter> set owner_only_scopes = {}"
    using v s by (auto simp: validate_declared_binding_scopes_def validate_trust_scopes_def split: if_splits)
qed

lemma api_scopes_strip: "p \<in> set capability_api_scopes \<Longrightarrow> py_strip p = p"
  by (auto simp: capability_api_scopes_def py_strip_def py_isspace_def)

lemma after_issue_bearer: "bearer_is True (ic_credential ic) (bearer_hash sha (ic_token ic)) (after_issue sha ic db)"
  by (simp add: bearer_is_def after_issue_def Let_def)

lemma issued_for_capability:
  assumes inv: "cred_inv db" and ab: "map_option AgentRunBinding ab = map_option Inr ab"
    and "issue_for_capability sha uuid random now t i m ab db = (Inr r, db')"
  shows "case r of None \<Rightarrow> api_workers m = [] \<and> ab = None \<and> db' = db
    | Some ic \<Rightarrow> (\<exists>bd b. ab = Some b \<and> cc_agent_binding (ic_credential ic) = b \<and> api_workers m \<noteq> [] \<and>
        (\<forall>w \<in> set (api_workers m). wk_kind w = InterfaceWorker \<and> wk_agent_binding w = Some bd) \<and>
        ref_spec_id (rb_agent_spec b) = ib_agent_spec_id bd \<and> rb_run_kind b = ib_run_kind bd \<and> rb_trust_class b = ib_trust_class bd \<and>
        set (cc_scopes (ic_credential ic)) = (\<Union>w \<in> set (api_workers m). set (wk_permissions w)) \<inter> set capability_api_scopes \<and>
        set (cc_scopes (ic_credential ic)) = (\<Union>q \<in> set (api_requirements m). set (sq_scopes q)) \<and>
        cc_instance_id (ic_credential ic) = py_strip i \<and> authenticate sha (ic_token ic) db' = Inr (Some (ic_credential ic)))"
proof -
  obtain k where k: "agent_api_contract m = Inr k" using assms(3) by (cases "agent_api_contract m") (simp_all add: issue_for_capability_def)
  show ?thesis
  proof (cases k)
    case None
    have "api_workers m = []" using k None by (auto simp: agent_api_contract_def Let_def split: if_splits list.splits option.splits sum.splits)
    with k None assms(3) show ?thesis by (cases ab) (auto simp: issue_for_capability_def)
  next
    case (Some p)
    obtain scopes bd where p: "p = (scopes, bd)" by fastforce
    note con = contract_facts [OF k [unfolded Some p]]
    obtain b where b: "ab = Some b" using assms(3) k Some p by (cases ab) (simp_all add: issue_for_capability_def)
    have eq: "ref_spec_id (rb_agent_spec b) = ib_agent_spec_id bd" "rb_run_kind b = ib_run_kind bd" "rb_trust_class b = ib_trust_class bd"
      using assms(3) k Some p b by (auto simp: issue_for_capability_def split: if_splits)
    let ?call = "issue_credential sha uuid random now t (''capability:'' @ i) (cm_name m) i (cm_name m) i (cm_name m) b scopes db"
    have "map_prod (map_sum id Some) id ?call = (Inr r, db')"
      using assms(3) k Some p b eq by (simp add: issue_for_capability_def split: if_splits)
    moreover obtain y d where y: "?call = (y, d)" by fastforce
    ultimately obtain ic where r: "r = Some ic" and iss: "?call = (Inr ic, db')" by (cases y) auto
    have sc: "set scopes = (\<Union>w \<in> set (api_workers m). set (wk_permissions w)) \<inter> set capability_api_scopes" unfolding con(3) api_permissions_def by auto
    have "AgentRunBinding b = Inr b" using assms(2) b by simp
    with iss show ?thesis
    proof (cases rule: credential_issued)
      case (issued jc)
      have "py_strip ` set scopes = set scopes" using sc api_scopes_strip by force
      moreover have "cred_inv db'" unfolding issued(2) using issued by (intro after_issue_inv [OF inv]) simp_all
      then have "authenticate sha (ic_token ic) db' = Inr (Some (ic_credential ic))"
        using issued issued_bearer_text [of random] after_issue_bearer [of ic sha db] by (simp add: authenticate_bearer [where live = True])
      ultimately show ?thesis unfolding r option.case
        by (intro exI [of _ bd] exI [of _ b] conjI) (use b issued con eq sc in \<open>simp_all add: Int_commute\<close>)
    qed simp
  qed
qed

section \<open>Properties\<close>

text \<open>
  C14: A bearer lives from its issue until its instance gets a new one or it is revoked. Whatever calls
  follow an issue, the bearer authenticates as exactly the credential that was issued as long as none of
  them ended it, and as nothing from then on.
\<close>

theorem bearer_lives_until_revoked:
  assumes "db = snd (run_calls (cred_exec sha) cs [])"
    and "cred_exec sha (IssueCredential uuid random now t a n i f s ch w sc) db = (Inr (GotIssued ic), db1)"
    and "run_calls (cred_exec sha) cs2 db1 = (log, db2)"
  shows "authenticate sha (ic_token ic) db2 = Inr (if list_ex (ends_bearer (ic_credential ic)) log then None else Some (ic_credential ic))"
proof -
  have inv: "cred_inv db" unfolding assms(1) by (rule cred_calls.run_start_inv)
  have inv2: "cred_inv db2" using cred_calls.run_inv [OF cred_exec_inv [OF inv]] assms(2,3) by (metis snd_conv)
  from assms(2) show ?thesis
  proof (cases rule: cred_exec_cases)
    case (issued jc uuid' random' now' t' a' n' i' f' s' ch' w' sc' b)
    from issued(4) binding_again [OF issued(2)] show ?thesis
    proof (cases rule: credential_issued)
      case (issued kc)
      with \<open>Inr (GotIssued ic) = Inr (GotIssued jc)\<close> have k: "db1 = after_issue sha ic db" "fine_credential (ic_credential ic)" "cc_revoked_at (ic_credential ic) = None"
        "ic_token ic = credential_prefix @ token_urlsafe random' 36" by simp_all
      show ?thesis using bearer_run [OF after_issue_bearer [of ic sha db], of sha cs2] assms(3) issued_bearer_text [of random'] k
        by (simp add: authenticate_bearer [OF inv2, of "\<not> list_ex (ends_bearer (ic_credential ic)) log"])
    qed simp
  next
    case same
    then have "\<not> ends_bearer (ic_credential ic) (IssueCredential uuid random now t a n i f s ch w sc, Inr (GotIssued ic))" by blast
    then show ?thesis by (simp add: ends_bearer_def)
  qed simp_all
qed

text \<open>
  C39: What a bearer that authenticates may do. Its scopes are operations of the public API; without the
  owner's trust it can neither decide approvals nor read or acknowledge the owner's notifications and is
  not bound to the owner's specification; the specification belongs to its tenant. No other bearer of the
  same instance authenticates.
\<close>

theorem authenticated_bearers_are_confined:
  assumes "db = snd (run_calls (cred_exec sha) cs [])" "authenticate sha token db = Inr (Some c)"
  shows "cc_scopes c \<noteq> [] \<and> set (cc_scopes c) \<subseteq> set capability_api_scopes \<and> ref_tenant_id (rb_agent_spec (cc_agent_binding c)) = cc_tenant_id c \<and>
    (rb_trust_class (cc_agent_binding c) \<noteq> TrustOwner \<longrightarrow> set (cc_scopes c) \<inter> set owner_only_scopes = {} \<and>
      ref_spec_id (rb_agent_spec (cc_agent_binding c)) \<noteq> ''owner'' \<and> rb_run_kind (cc_agent_binding c) \<noteq> ''owner'') \<and>
    (\<forall>token' c'. authenticate sha token' db = Inr (Some c') \<and> cc_tenant_id c' = cc_tenant_id c \<and> cc_instance_id c' = cc_instance_id c \<longrightarrow>
      c' = c \<and> bearer_hash sha (py_strip token') = bearer_hash sha (py_strip token))"
proof -
  have inv: "cred_inv db" unfolding assms(1) by (rule cred_calls.run_start_inv)
  obtain r where r: "r \<in> set db" "r = row_of_credential c (bearer_hash sha (py_strip token))" and f: "fine_credential c"
    using authenticated_row [OF inv assms(2)] by metis
  have other: "c' = c \<and> bearer_hash sha (py_strip token') = bearer_hash sha (py_strip token)"
    if a: "authenticate sha token' db = Inr (Some c')" "cc_tenant_id c' = cc_tenant_id c" "cc_instance_id c' = cc_instance_id c" for token' c'
  proof -
    obtain r' where r': "r' \<in> set db" "r' = row_of_credential c' (bearer_hash sha (py_strip token'))" and f': "fine_credential c'" "cc_revoked_at c' = None"
      using authenticated_row [OF inv a(1)] by metis
    have "live_at (cw_tenant_id r) (cw_instance_id r) r'" "cw_revoked_at r = None" using r(2) r'(2) a(2,3) by simp_all
    with inv r(1) r'(1) have e: "r = r'" unfolding cred_inv_def by blast
    have "credential_of r = Inr c" "credential_of r' = Inr c'"
      using credential_of_row f' r'(2) authenticated_row [OF inv assms(2)] r(2) by metis+
    with e r(2) r'(2) show ?thesis by (metis Inr_inject row_keys(5))
  qed
  have "validate_authority_shape (cc_agent_binding c) = None"
    using f constructD unfolding fine_credential_def AgentRunBinding_def by metis
  then have "rb_trust_class (cc_agent_binding c) \<noteq> TrustOwner \<longrightarrow>
      ref_spec_id (rb_agent_spec (cc_agent_binding c)) \<noteq> ''owner'' \<and> rb_run_kind (cc_agent_binding c) \<noteq> ''owner''"
    by (auto simp: validate_authority_shape_def split: if_splits)
  with f other show ?thesis unfolding fine_credential_def by blast
qed

text \<open>
  The authority of an issued bearer is the reviewed one. When the service issues a credential for a
  manifest, every worker that receives it is an interface worker with one and the same declared binding,
  which the credential carries with the persisted revision of the specification; its scopes are exactly
  the API permissions these workers declare, and those their requirement for the credential names; and
  the bearer authenticates at once. A capability without such workers gets no credential.
\<close>

theorem issued_authority_is_reviewed:
  assumes "db = snd (run_calls (cred_exec sha) cs [])" "map_option AgentRunBinding ab = map_option Inr ab"
    and "issue_for_capability sha uuid random now t i m ab db = (Inr r, db')"
  shows "case r of None \<Rightarrow> api_workers m = [] \<and> ab = None \<and> db' = db
    | Some ic \<Rightarrow> (\<exists>bd b. ab = Some b \<and> cc_agent_binding (ic_credential ic) = b \<and> api_workers m \<noteq> [] \<and>
        (\<forall>w \<in> set (api_workers m). wk_kind w = InterfaceWorker \<and> wk_agent_binding w = Some bd) \<and>
        ref_spec_id (rb_agent_spec b) = ib_agent_spec_id bd \<and> rb_run_kind b = ib_run_kind bd \<and> rb_trust_class b = ib_trust_class bd \<and>
        set (cc_scopes (ic_credential ic)) = (\<Union>w \<in> set (api_workers m). set (wk_permissions w)) \<inter> set capability_api_scopes \<and>
        set (cc_scopes (ic_credential ic)) = (\<Union>q \<in> set (api_requirements m). set (sq_scopes q)) \<and>
        cc_instance_id (ic_credential ic) = py_strip i \<and> authenticate sha (ic_token ic) db' = Inr (Some (ic_credential ic)))"
  by (rule issued_for_capability [OF _ assms(2,3)]) (unfold assms(1), rule cred_calls.run_start_inv)

section \<open>Examples\<close>

definition example_binding :: run_binding where
  "example_binding = \<lparr>rb_agent_spec = \<lparr>ref_tenant_id = ''t'', ref_spec_id = ''intake'', ref_revision = 1\<rparr>, rb_run_kind = ''intake'', rb_trust_class = TrustExternal\<rparr>"

definition interface_manifest :: capability_manifest where
  "interface_manifest = example_manifest\<lparr>cm_workers := [example_worker\<lparr>wk_permissions := [''agent.runs.submit''],
     wk_secrets := [\<lparr>sq_name = agent_api_token, sq_scopes = [''agent.runs.submit''], sq_source = IssuedSource, sq_required = True\<rparr>]\<rparr>]\<rparr>"

definition example_hash :: "string \<Rightarrow> string" where
  "example_hash s = s"

definition example_issue_call :: cred_call where
  "example_issue_call = IssueCredential [] (\<lambda>_. CHR ''a'') (At 1) ''t'' ''a'' ''telegram'' ''i1'' ''telegram'' ''i1'' ''telegram'' example_binding [''files.upload'']"

definition example_issued :: issued_credential where
  "example_issued = \<lparr>ic_credential = \<lparr>cc_id = ''capcred_'' @ base36_entropy [] 12, cc_tenant_id = ''t'', cc_actor_id = ''a'', cc_capability_name = ''telegram'',
     cc_instance_id = ''i1'', cc_interface = ''telegram'', cc_source_id = ''i1'', cc_channel = ''telegram'', cc_agent_binding = example_binding,
     cc_scopes = [''files.upload''], cc_issued_at = At 1, cc_revoked_at = None\<rparr>, ic_token = credential_prefix @ token_urlsafe (\<lambda>_. CHR ''a'') 36\<rparr>"

lemma example_issue_eval: "fst (cred_exec example_hash example_issue_call []) = Inr (GotIssued example_issued)"
  by code_simp

definition example_stop :: cred_call where
  "example_stop = RevokeInstance (At 2) ''t'' ''i1'' ''stop''"

lemma example_stop_eval:
  "run_calls (cred_exec example_hash) [example_stop] db = ([(example_stop, Inr (GotCount (int (length (filter (live_at ''t'' ''i1'') db)))))],
     revoke_rows (live_at ''t'' ''i1'') (At 2) ''stop'' db)"
proof -
  have "identity_of ''t'' ''tenant_id'' = Inr ''t''" "identity_of ''i1'' ''capability_instance_id'' = Inr ''i1''" "safe_reason ''generation_stopped'' ''stop'' = ''stop''"
    by code_simp+
  then show ?thesis by (simp add: example_stop_def revoke_instance_def Let_def)
qed

theorem bearer_lives_until_revoked_witness:
  "authenticate example_hash (ic_token example_issued) (snd (cred_exec example_hash example_issue_call [])) = Inr (Some (ic_credential example_issued)) \<and>
   authenticate example_hash (ic_token example_issued) (snd (run_calls (cred_exec example_hash) [example_stop] (snd (cred_exec example_hash example_issue_call [])))) = Inr None"
proof -
  have e: "[] = snd (run_calls (cred_exec example_hash) [] [])" by simp
  note i = paired [OF example_issue_eval, unfolded example_issue_call_def]
  note life = bearer_lives_until_revoked [OF e i]
  have strip: "py_strip ''t'' = ''t''" "py_strip ''i1'' = ''i1''" by code_simp+
  have "ends_bearer (ic_credential example_issued) (example_stop, Inr y)" for y
    by (simp add: ends_bearer_def example_stop_def example_issued_def strip)
  then show ?thesis
    using life [of "[]"] life [OF example_stop_eval] unfolding example_issue_call_def example_stop_eval by simp
qed

theorem authenticated_bearers_are_confined_witness:
  "set (cc_scopes (ic_credential example_issued)) \<inter> set owner_only_scopes = {} \<and>
   authenticate example_hash (ic_token example_issued) (snd (run_calls (cred_exec example_hash) [example_issue_call] [])) = Inr (Some (ic_credential example_issued))"
proof -
  have a: "authenticate example_hash (ic_token example_issued) (snd (run_calls (cred_exec example_hash) [example_issue_call] [])) = Inr (Some (ic_credential example_issued))"
    by code_simp
  have "rb_trust_class (cc_agent_binding (ic_credential example_issued)) \<noteq> TrustOwner" by (simp add: example_issued_def example_binding_def)
  with authenticated_bearers_are_confined [OF refl a] a show ?thesis by blast
qed

theorem issued_authority_is_reviewed_witness:
  "\<exists>ic. fst (issue_for_capability example_hash [] (\<lambda>_. CHR ''a'') (At 1) ''t'' ''i1'' interface_manifest (Some example_binding) []) = Inr (Some ic) \<and>
     cc_scopes (ic_credential ic) = [''agent.runs.submit''] \<and> cc_agent_binding (ic_credential ic) = example_binding"
proof -
  let ?p = "issue_for_capability example_hash [] (\<lambda>_. CHR ''a'') (At 1) ''t'' ''i1'' interface_manifest (Some example_binding) []"
  let ?ic = "example_issued\<lparr>ic_credential := (ic_credential example_issued)\<lparr>cc_actor_id := ''capability:i1'', cc_scopes := [''agent.runs.submit'']\<rparr>\<rparr>"
  have f: "fst ?p = Inr (Some ?ic)" by code_simp
  have b: "map_option AgentRunBinding (Some example_binding) = map_option Inr (Some example_binding)" by code_simp
  have e: "[] = snd (run_calls (cred_exec example_hash) [] [])" by simp
  from issued_authority_is_reviewed [OF e b paired [OF f]] have "cc_agent_binding (ic_credential ?ic) = example_binding" by auto
  with f show ?thesis by auto
qed

end
