(* ===== verification/CapabilitySecrets.thy ===== *)
theory CapabilitySecrets
  imports SecretVault CapabilityCredentials
begin

text \<open>
  \<^verbatim>\<open>secrets/capability_resolver.py\<close>: the secrets a capability worker is started with. \<open>bind\<close> fixes the
  revision of every tenant secret when a generation is prepared, \<open>resolve\<close> redeems one grant for each when
  the worker starts, adds the host's secrets the manifest asks for, and the bearer for the agent's API. The
  state is the vault together with the table of credentials; what a start draws (clock readings, random
  bytes) is an argument. This theory composes the vault, the credentials and the contracts of manifests.
\<close>

section \<open>Definitions\<close>

datatype resolver_error =
    ResolverValueError string
  | ResolverVaultError vault_error
  | ResolverCredentialError credential_error
  | ResolverValidationError validation_error

type_synonym requirement_dict = "(string \<times> secret_requirement) list"

definition add_requirement :: "requirement_dict \<Rightarrow> secret_requirement \<Rightarrow> requirement_dict" where
  "add_requirement d q = (case map_of d (sq_name q) of None \<Rightarrow> dict_set d (sq_name q, q)
     | Some existing \<Rightarrow> if sq_required q \<and> \<not> sq_required existing then dict_set d (sq_name q, q) else d)"

definition requirements_of :: "capability_manifest \<Rightarrow> requirement_dict" where
  "requirements_of m = foldl add_requirement [] (all_secrets m)"

definition host_secrets_of :: "(string \<times> string) list \<Rightarrow> (string \<times> string) list" where
  "host_secrets_of d = filter (\<lambda>(name, v). name \<noteq> [] \<and> v \<noteq> []) (dict_of d)"

definition tenant_requirement :: "requirement_dict \<Rightarrow> string \<Rightarrow> resolver_error + secret_requirement" where
  "tenant_requirement d name = (case map_of d name of
       None \<Rightarrow> Inl (ResolverValueError ''capability requested an undeclared tenant secret'')
     | Some q \<Rightarrow> if sq_source q \<noteq> TenantHandle then Inl (ResolverValueError ''capability requested an undeclared tenant secret'') else Inr q)"

definition active_handle :: "string \<Rightarrow> string \<Rightarrow> vault_db \<Rightarrow> resolver_error + secret_handle" where
  "active_handle tenant_id secret_id v = (case get_handle tenant_id secret_id v of Inl e \<Rightarrow> Inl (ResolverVaultError e)
     | Inr None \<Rightarrow> Inl (ResolverVaultError (SecretGrantError ''capability secret handle is unavailable''))
     | Inr (Some h) \<Rightarrow> if sh_state h \<noteq> ActiveSecret
         then Inl (ResolverVaultError (SecretGrantError ''capability secret handle is unavailable'')) else Inr h)"

fun bind_handles :: "string \<Rightarrow> requirement_dict \<Rightarrow> vault_db \<Rightarrow> (string \<times> string) list \<Rightarrow> resolver_error + (string \<times> secret_binding) list" where
  "bind_handles tenant_id d v [] = Inr []"
| "bind_handles tenant_id d v ((name, secret_id) # rest) = (case tenant_requirement d name of Inl e \<Rightarrow> Inl e
     | Inr q \<Rightarrow> (case active_handle tenant_id secret_id v of Inl e \<Rightarrow> Inl e
       | Inr h \<Rightarrow> if \<not> set (sq_scopes q) \<subseteq> set (sh_scopes h)
           then Inl (ResolverVaultError (SecretGrantError ''capability secret handle has insufficient scopes''))
           else (case CapabilitySecretBinding \<lparr>sb_handle_id = sh_id h, sb_revision = sh_revision h, sb_scopes = sq_scopes q\<rparr> of
               Inl e \<Rightarrow> Inl (ResolverValidationError e)
             | Inr b \<Rightarrow> map_sum id (Cons (name, b)) (bind_handles tenant_id d v rest))))"

definition bind_secrets :: "string \<Rightarrow> capability_manifest \<Rightarrow> (string \<times> string) list \<Rightarrow> vault_db \<Rightarrow> resolver_error + (string \<times> secret_binding) list" where
  "bind_secrets tenant_id m secret_handles v = bind_handles tenant_id (requirements_of m) v secret_handles"

text \<open>The credential service is optional; a configured one has its own optional resolution of specifications.\<close>

definition bind_agent_run :: "(string \<Rightarrow> string \<Rightarrow> credential_error + agent_ref) option option \<Rightarrow> string \<Rightarrow> capability_manifest \<Rightarrow>
    resolver_error + run_binding option" where
  "bind_agent_run credentials tenant_id m = (case map_of (requirements_of m) agent_api_token of None \<Rightarrow> Inr None
     | Some issued \<Rightarrow> if sq_source issued \<noteq> IssuedSource then Inr None
         else (case credentials of None \<Rightarrow> Inl (ResolverVaultError (SecretGrantError ''Agent API credential issuance is unavailable''))
           | Some resolve \<Rightarrow> map_sum ResolverCredentialError id (resolve_agent_binding resolve tenant_id m)))"

record secret_draws =
  sd_uuid :: "nat list"
  sd_random :: "nat \<Rightarrow> char"
  sd_issued_at :: timestamp
  sd_redeemed_at :: timestamp

definition release_secret :: "host_cipher \<Rightarrow> (string \<Rightarrow> string) \<Rightarrow> secret_draws \<Rightarrow> string \<Rightarrow> string \<Rightarrow> requirement_dict \<Rightarrow> string \<Rightarrow> secret_binding \<Rightarrow>
    (vault_db, resolver_error, string) oper" where
  "release_secret C sha draws tenant_id instance_id d name b v =
     checked (tenant_requirement d name) (\<lambda>q v.
       if sb_scopes b \<noteq> sq_scopes q then raises (ResolverVaultError (SecretGrantError ''capability secret binding scopes do not match'')) v
       else checked (active_handle tenant_id (sb_handle_id b) v) (\<lambda>h v.
         if sh_revision h \<noteq> sb_revision b then raises (ResolverVaultError (SecretGrantError ''capability secret binding revision changed'')) v
         else (case issue_grant sha (sd_uuid draws) (sd_random draws) (sd_issued_at draws) tenant_id (sh_id h) instance_id (sb_scopes b) 60 v of
             (Inl e, v1) \<Rightarrow> raises (ResolverVaultError e) v1
           | (Inr grant, v1) \<Rightarrow> (case redeem_grant C sha (sd_redeemed_at draws) (ig_token grant) instance_id (hd (sb_scopes b)) v1 of
                 (Inl e, v2) \<Rightarrow> raises (ResolverVaultError e) v2
               | (Inr material, v2) \<Rightarrow> ok (sm_value material) v2))) v) v"

fun release_all :: "host_cipher \<Rightarrow> (string \<Rightarrow> string) \<Rightarrow> (nat \<Rightarrow> secret_draws) \<Rightarrow> string \<Rightarrow> string \<Rightarrow> requirement_dict \<Rightarrow> nat \<Rightarrow>
    (string \<times> secret_binding) list \<Rightarrow> (string \<times> string) list \<Rightarrow> (vault_db, resolver_error, (string \<times> string) list) oper" where
  "release_all C sha draws tenant_id instance_id d k [] resolved v = ok resolved v"
| "release_all C sha draws tenant_id instance_id d k ((name, b) # rest) resolved v =
     (case release_secret C sha (draws k) tenant_id instance_id d name b v of
        (Inl e, v1) \<Rightarrow> raises e v1
      | (Inr x, v1) \<Rightarrow> release_all C sha draws tenant_id instance_id d (Suc k) rest (dict_set resolved (name, x)) v1)"

definition bot_token :: string where
  "bot_token = ''TELEGRAM_BOT_TOKEN''"

definition telegram_pairing_code :: string where
  "telegram_pairing_code = ''OPENTULPA_TELEGRAM_PAIRING_CODE''"

definition add_pairing :: "capability_manifest \<Rightarrow> requirement_dict \<Rightarrow> (string \<times> string) list \<Rightarrow> (string \<times> string) list" where
  "add_pairing m d resolved = (if cm_name m \<noteq> ''telegram'' then resolved else (case map_of resolved bot_token of None \<Rightarrow> resolved
     | Some token \<Rightarrow> (case map_of d telegram_pairing_code of None \<Rightarrow> resolved
         | Some q \<Rightarrow> if sq_source q = HostSource \<and> map_of resolved telegram_pairing_code = None
             then dict_set resolved (telegram_pairing_code, py_tail 8 token) else resolved)))"

definition resolve_secrets :: "host_cipher \<Rightarrow> (string \<Rightarrow> string) \<Rightarrow> (nat \<Rightarrow> secret_draws) \<Rightarrow> (string \<times> string) list \<Rightarrow> (nat list \<times> (nat \<Rightarrow> char) \<times> timestamp) option \<Rightarrow>
    string \<Rightarrow> string \<Rightarrow> capability_manifest \<Rightarrow> (string \<times> secret_binding) list \<Rightarrow> run_binding option \<Rightarrow>
    (vault_db \<times> credential_db, resolver_error, (string \<times> string) list) oper" where
  "resolve_secrets C sha draws host_secrets credentials tenant_id instance_id m secret_bindings agent_binding s =
     (let d = requirements_of m;
          host = filter (\<lambda>(name, _). case map_of d name of None \<Rightarrow> False | Some q \<Rightarrow> sq_source q = HostSource) host_secrets in
      case release_all C sha draws tenant_id instance_id d 0 secret_bindings host (fst s) of
        (Inl e, v) \<Rightarrow> raises e (v, snd s)
      | (Inr resolved, v) \<Rightarrow>
          (case (credentials, map_option sq_source (map_of d agent_api_token)) of
             (Some (uuid, random, now), Some IssuedSource) \<Rightarrow>
               (case issue_for_capability sha uuid random now tenant_id instance_id m agent_binding (snd s) of
                  (Inl e, c) \<Rightarrow> raises (ResolverCredentialError e) (v, c)
                | (Inr None, c) \<Rightarrow> ok (add_pairing m d resolved) (v, c)
                | (Inr (Some issued), c) \<Rightarrow> ok (add_pairing m d (dict_set resolved (agent_api_token, ic_token issued))) (v, c))
           | _ \<Rightarrow> ok (add_pairing m d resolved) (v, snd s)))"

definition revoke_worker :: "bool \<Rightarrow> timestamp \<Rightarrow> string \<Rightarrow> string \<Rightarrow> (vault_db \<times> credential_db, resolver_error, unit) oper" where
  "revoke_worker credentials now tenant_id instance_id s = (if credentials
     then (case revoke_instance now tenant_id instance_id ''generation_stopped'' (snd s) of
         (Inl e, c) \<Rightarrow> raises (ResolverCredentialError e) (fst s, c) | (Inr _, c) \<Rightarrow> ok () (fst s, c))
     else ok () s)"

section \<open>Requirements\<close>

lemma dict_set_map_of: "map_of (dict_set d kv) = (map_of d)(fst kv \<mapsto> snd kv)"
  by (induction d) (auto simp: fun_eq_iff)

lemma add_requirement_mem: "map_of (add_requirement d x) n = Some q \<Longrightarrow> n = sq_name x \<and> q = x \<or> map_of d n = Some q"
  by (cases "map_of d (sq_name x)") (simp_all add: add_requirement_def dict_set_map_of split: if_splits)

lemma requirements_mem:
  assumes "map_of (requirements_of m) n = Some q"
  shows "q \<in> set (all_secrets m) \<and> sq_name q = n"
proof -
  have "q \<in> set qs \<and> sq_name q = n" if "map_of (foldl add_requirement [] qs) n = Some q" for qs
    using that
  proof (induction qs rule: rev_induct)
    case (snoc x qs)
    from snoc(2) have "n = sq_name x \<and> q = x \<or> map_of (foldl add_requirement [] qs) n = Some q" by (intro add_requirement_mem) simp
    with snoc(1) show ?case by (metis Un_iff list.set_intros(1) set_append)
  qed simp
  with assms show ?thesis unfolding requirements_of_def by blast
qed

section \<open>Releasing a secret\<close>

lemma get_handle_row:
  assumes "vault_inv C v" "get_handle t i v = Inr (Some h)"
  obtains cur where "current_row t i v = Inr cur" "h = raw_handle cur" "sr_id cur = i" "sr_tenant_id cur = t" "row_ok C cur"
proof -
  obtain cur where cur: "current_row t i v = Inr cur" using assms(2) by (cases "current_row t i v") (simp_all add: get_handle_def)
  note l = current_row_last [OF assms(1) cur]
  have "h = raw_handle cur" using assms(2) cur row_okD(1) [OF l(7)] by (simp add: get_handle_def)
  with cur l show ?thesis using that by blast
qed

lemma current_row_same:
  "secret_revisions v' = secret_revisions v \<Longrightarrow> secret_current_refs v' = secret_current_refs v \<Longrightarrow> current_row t i v' = current_row t i v"
  unfolding current_row_def current_ref_def revision_row_def by (simp cong: option.case_cong)

text \<open>What one release gives: the newest value of the secret, at the bound revision.\<close>

definition newest :: "host_cipher \<Rightarrow> vault_db \<Rightarrow> string \<Rightarrow> secret_binding \<Rightarrow> string \<Rightarrow> bool" where
  "newest C v t b x = (let log = logs C v (t, sb_handle_id b) in log \<noteq> [] \<and> int (length log) = sb_revision b \<and>
     (\<exists>scopes. last log = (ActiveSecret, scopes, Some x) \<and> py_strip ` set (sb_scopes b) \<subseteq> set scopes))"

lemma release_step:
  assumes inv: "vault_inv C v" and r: "release_secret C sha dr t i d n b v = (y, v')"
  shows "vault_inv C v' \<and> logs C v' = logs C v \<and>
    (\<forall>x. y = Inr x \<longrightarrow> (\<exists>q. map_of d n = Some q \<and> sq_source q = TenantHandle) \<and> newest C v t b x)"
proof -
  have quiet: ?thesis if "\<exists>e. y = Inl e" "v' = v" using that inv by auto
  show ?thesis
  proof (cases "\<exists>q h. tenant_requirement d n = Inr q \<and> sb_scopes b = sq_scopes q \<and> active_handle t (sb_handle_id b) v = Inr h \<and> sh_revision h = sb_revision b")
    case False
    then have "(\<exists>e. y = Inl e) \<and> v' = v" using r unfolding release_secret_def
      by (cases "tenant_requirement d n"; cases "active_handle t (sb_handle_id b) v") (auto split: if_splits)
    then show ?thesis using quiet by blast
  next
    case True
    then obtain q h where q: "tenant_requirement d n = Inr q" "sb_scopes b = sq_scopes q" and
      h: "active_handle t (sb_handle_id b) v = Inr h" "sh_revision h = sb_revision b" by blast
    have src: "map_of d n = Some q \<and> sq_source q = TenantHandle"
      using q(1) by (cases "map_of d n") (simp_all add: tenant_requirement_def split: if_splits)
    have gh: "get_handle t (sb_handle_id b) v = Inr (Some h)" "sh_state h = ActiveSecret"
      using h(1) by (auto simp: active_handle_def split: sum.splits option.splits if_splits)
    obtain cur where cur: "current_row t (sb_handle_id b) v = Inr cur" "h = raw_handle cur" "sr_id cur = sb_handle_id b"
      using get_handle_row [OF inv gh(1)] by metis
    let ?i = "issue_grant sha (sd_uuid dr) (sd_random dr) (sd_issued_at dr) t (sb_handle_id b) i (sb_scopes b) 60 v"
    obtain z v1 where z: "?i = (z, v1)" by fastforce
    have body: "(y, v') = (case z of Inl e \<Rightarrow> raises (ResolverVaultError e) v1
      | Inr g \<Rightarrow> (case redeem_grant C sha (sd_redeemed_at dr) (ig_token g) i (hd (sb_scopes b)) v1 of
           (Inl e, v2) \<Rightarrow> raises (ResolverVaultError e) v2 | (Inr m, v2) \<Rightarrow> ok (sm_value m) v2))"
      using r q h cur(2,3) z unfolding release_secret_def by (cases z) simp_all
    from issue_step [OF inv z] show ?thesis
    proof (elim disjE exE conjE)
      fix e assume "z = Inl e" "v1 = v"
      then show ?thesis using body quiet by simp
    next
      fix g c1 assume g: "z = Inr g" "gr_tenant_id (ig_receipt g) = t" "gr_secret_id (ig_receipt g) = sb_handle_id b"
        "scopes_of (sb_scopes b) = Inr (gr_scopes (ig_receipt g))"
        and v1: "v1 = v\<lparr>secret_grants := secret_grants v @ [granted sha (sd_issued_at dr) g]\<rparr>" "vault_inv C v1"
      let ?r = "redeem_grant C sha (sd_redeemed_at dr) (ig_token g) i (hd (sb_scopes b)) v1"
      obtain u v2 where u: "?r = (u, v2)" by fastforce
      have l1: "logs C v1 = logs C v" by (rule same_logs) (simp add: v1(1))
      from redeem_step [OF v1(2) u] show ?thesis
      proof (elim disjE exE conjE)
        fix e assume "u = Inl e" "v2 = v1"
        then show ?thesis using body g(1) u v1(2) l1 by simp
      next
        fix m g2 r2 assume u2: "u = Inr m" "g2 \<in> set (secret_grants v1)" "sg_token_hash g2 = sha (utf8 (ig_token g))"
          "set (sg_scopes g2) \<subseteq> set (sr_scopes r2)" "current_row (sg_tenant_id g2) (sg_secret_id g2) v1 = Inr r2" "sr_state r2 = ActiveSecret"
          "unseal C r2 = Inr (sm_value m)" "v2 = consumed (sg_id g2) (sd_redeemed_at dr) v1" "vault_inv C v2"
        have "g2 = granted sha (sd_issued_at dr) g"
          by (rule distinct_key_eq [OF vault_invD(7) [OF v1(2)] u2(2)]) (use u2(3) v1(1) in simp_all)
        with u2(5) g have "current_row t (sb_handle_id b) v1 = Inr r2" "set (gr_scopes (ig_receipt g)) \<subseteq> set (sr_scopes r2)" using u2(4) by simp_all
        moreover have "current_row t (sb_handle_id b) v1 = current_row t (sb_handle_id b) v" by (rule current_row_same) (simp_all add: v1(1))
        ultimately have r2: "r2 = cur" "set (gr_scopes (ig_receipt g)) \<subseteq> set (sr_scopes cur)" using cur(1) by auto
        have l2: "logs C v2 = logs C v" using same_logs [of v2 v1] u2(8) l1 by simp
        have "entry_of C cur = (ActiveSecret, sr_scopes cur, Some (sm_value m))" using unseal_entry [OF u2(7)] u2(6) r2(1) by simp
        moreover note log_current [OF inv cur(1)]
        moreover have "gr_scopes (ig_receipt g) = map py_strip (sb_scopes b)" using g(4) by (auto simp: scopes_of_def Let_def split: if_splits)
        then have "py_strip ` set (sb_scopes b) \<subseteq> set (sr_scopes cur)" using r2(2) by simp
        ultimately have "newest C v t b (sm_value m)" using h(2) cur(2) unfolding newest_def Let_def by simp
        then show ?thesis using body g(1) u u2(1,9) l2 src by simp
      qed
    qed
  qed
qed

lemma newest_logs: "logs C v' = logs C v \<Longrightarrow> newest C v' t b x = newest C v t b x"
  by (simp add: newest_def)

text \<open>An entry of the environment that a binding gave.\<close>

definition bound_value :: "host_cipher \<Rightarrow> vault_db \<Rightarrow> string \<Rightarrow> requirement_dict \<Rightarrow> (string \<times> secret_binding) list \<Rightarrow> string \<times> string \<Rightarrow> bool" where
  "bound_value C v t d bs nx = (\<exists>b q. (fst nx, b) \<in> set bs \<and> map_of d (fst nx) = Some q \<and> sq_source q = TenantHandle \<and> newest C v t b (snd nx))"

lemma release_all_step:
  assumes "vault_inv C v" "release_all C sha dr t i d k bs env v = (y, v')"
  shows "vault_inv C v' \<and> logs C v' = logs C v \<and> (\<forall>env'. y = Inr env' \<longrightarrow> (\<forall>nx \<in> set env'. nx \<in> set env \<or> bound_value C v t d bs nx))"
  using assms
proof (induction bs arbitrary: k env v)
  case (Cons nb bs)
  obtain n b where nb: "nb = (n, b)" by fastforce
  obtain u v1 where u: "release_secret C sha (dr k) t i d n b v = (u, v1)" by fastforce
  note step = release_step [OF Cons.prems(1) u]
  show ?case
  proof (cases u)
    case (Inl e)
    with Cons.prems(2) nb u step show ?thesis by auto
  next
    case (Inr x)
    have rest: "release_all C sha dr t i d (Suc k) bs (dict_set env (n, x)) v1 = (y, v')" using Cons.prems(2) nb u Inr by simp
    have ih: "vault_inv C v' \<and> logs C v' = logs C v1 \<and> (\<forall>env'. y = Inr env' \<longrightarrow> (\<forall>nx \<in> set env'. nx \<in> set (dict_set env (n, x)) \<or> bound_value C v1 t d bs nx))"
      by (rule Cons.IH [OF _ rest]) (use step in blast)
    have here: "bound_value C v t d (nb # bs) (n, x)" using step Inr nb unfolding bound_value_def by auto
    have later: "bound_value C v t d (nb # bs) nx" if "bound_value C v1 t d bs nx" for nx
      using that newest_logs [of C v1 v] step unfolding bound_value_def by fastforce
    have "nx \<in> set env \<or> bound_value C v t d (nb # bs) nx" if "y = Inr env'" "nx \<in> set env'" for env' nx
      using ih that here later set_dict_set [of env "(n, x)"] by blast
    with ih step show ?thesis by simp
  qed
qed auto

lemma add_pairing_mem:
  assumes "nx \<in> set (add_pairing m d env)"
  shows "nx \<in> set env \<or> (\<exists>token q. nx = (telegram_pairing_code, py_tail 8 token) \<and> cm_name m = ''telegram'' \<and> (bot_token, token) \<in> set (add_pairing m d env) \<and>
    map_of d telegram_pairing_code = Some q \<and> sq_source q = HostSource)"
proof (cases "nx \<in> set env")
  case False
  obtain token where tk: "cm_name m = ''telegram''" "map_of env bot_token = Some token"
    using assms False by (auto simp: add_pairing_def split: if_splits option.splits)
  obtain q where q: "map_of d telegram_pairing_code = Some q" "sq_source q = HostSource" "map_of env telegram_pairing_code = None"
    using assms False tk by (cases "map_of d telegram_pairing_code") (simp_all add: add_pairing_def split: if_splits)
  have e: "add_pairing m d env = dict_set env (telegram_pairing_code, py_tail 8 token)" using tk q by (simp add: add_pairing_def)
  have "map_of (add_pairing m d env) bot_token = Some token" unfolding e dict_set_map_of using tk(2) by (simp add: bot_token_def telegram_pairing_code_def)
  then have "(bot_token, token) \<in> set (add_pairing m d env)" by (rule map_of_SomeD)
  moreover have "nx = (telegram_pairing_code, py_tail 8 token)" using assms False set_dict_set [of env] unfolding e by blast
  ultimately show ?thesis using tk q by blast
qed simp

text \<open>A successful resolution: the releases, the bearer if one was issued, and the pairing code.\<close>

definition with_bearer :: "(string \<times> string) list \<Rightarrow> string option \<Rightarrow> (string \<times> string) list" where
  "with_bearer res iss = (case iss of None \<Rightarrow> res | Some x \<Rightarrow> dict_set res (agent_api_token, x))"

lemma with_bearer_mem: "(n, x) \<in> set (with_bearer res iss) \<Longrightarrow> (n, x) \<in> set res \<or> n = agent_api_token \<and> iss = Some x"
  using set_dict_set [of res "(agent_api_token, the iss)"] by (cases iss) (auto simp: with_bearer_def)

lemma resolve_parts:
  assumes "resolve_secrets C sha dr host credentials t i m bs ab (v, c) = (Inr env, (v', c'))"
    and cinv: "cred_inv c" and ab: "map_option AgentRunBinding ab = map_option Inr ab"
  obtains res iss where "release_all C sha dr t i (requirements_of m) 0 bs
      (filter (\<lambda>(name, _). case map_of (requirements_of m) name of None \<Rightarrow> False | Some q \<Rightarrow> sq_source q = HostSource) host) v = (Inr res, v')"
    "env = add_pairing m (requirements_of m) (with_bearer res iss)"
    "\<And>x. iss = Some x \<Longrightarrow> (\<exists>q. map_of (requirements_of m) agent_api_token = Some q \<and> sq_source q = IssuedSource) \<and>
      (\<exists>cr. authenticate sha x c' = Inr (Some cr) \<and> cc_instance_id cr = py_strip i)"
proof -
  let ?d = "requirements_of m"
  let ?rel = "release_all C sha dr t i ?d 0 bs (filter (\<lambda>(name, _). case map_of ?d name of None \<Rightarrow> False | Some q \<Rightarrow> sq_source q = HostSource) host) v"
  obtain y v1 where y: "?rel = (y, v1)" by fastforce
  obtain res where res: "y = Inr res" using assms(1) y by (cases y) (simp_all add: resolve_secrets_def Let_def)
  show ?thesis
  proof (cases "credentials \<noteq> None \<and> map_option sq_source (map_of ?d agent_api_token) = Some IssuedSource")
    case True
    then obtain uuid random now where cr: "credentials = Some (uuid, random, now)" "map_option sq_source (map_of ?d agent_api_token) = Some IssuedSource" by auto
    obtain z c1 where z: "issue_for_capability sha uuid random now t i m ab c = (z, c1)" by fastforce
    obtain r where r: "z = Inr r" using assms(1) y res cr z by (cases z) (simp_all add: resolve_secrets_def Let_def)
    have out: "env = add_pairing m ?d (with_bearer res (map_option ic_token r))" "v' = v1" "c' = c1"
      using assms(1) y res cr z r by (cases r; simp add: resolve_secrets_def Let_def with_bearer_def)+
    note facts = issued_for_capability [OF cinv ab z [unfolded r]]
    show ?thesis
    proof (rule that [OF y [unfolded res, folded out(2)] out(1)])
      fix x assume "map_option ic_token r = Some x"
      then obtain ic where "r = Some ic" "x = ic_token ic" by auto
      with facts out(3) cr(2) show "(\<exists>q. map_of ?d agent_api_token = Some q \<and> sq_source q = IssuedSource) \<and>
        (\<exists>cr. authenticate sha x c' = Inr (Some cr) \<and> cc_instance_id cr = py_strip i)" by auto
    qed
  next
    case False
    then have "env = add_pairing m ?d (with_bearer res None)" "v' = v1" using assms(1) y res
      by (auto simp: resolve_secrets_def Let_def with_bearer_def split: option.splits secret_source.splits)
    then show ?thesis using that [of res None] y res by simp
  qed
qed

lemma resolved_entries:
  assumes "vault_inv C v" "cred_inv c" "map_option AgentRunBinding ab = map_option Inr ab"
    and r: "resolve_secrets C sha dr (host_secrets_of host) credentials t i m bs ab (v, c) = (Inr env, (v', c'))"
  shows "logs C v' = logs C v" and "(n, x) \<in> set env \<Longrightarrow> \<exists>q. map_of (requirements_of m) n = Some q \<and>
    (case sq_source q of
       TenantHandle \<Rightarrow> \<exists>b. (n, b) \<in> set bs \<and> newest C v t b x
     | HostSource \<Rightarrow> (n, x) \<in> set (host_secrets_of host) \<or>
         n = telegram_pairing_code \<and> cm_name m = ''telegram'' \<and> (\<exists>token. (bot_token, token) \<in> set env \<and> x = py_tail 8 token)
     | IssuedSource \<Rightarrow> n = agent_api_token \<and> (\<exists>cr. authenticate sha x c' = Inr (Some cr) \<and> cc_instance_id cr = py_strip i))"
proof -
  let ?d = "requirements_of m"
  let ?host = "filter (\<lambda>(name, _). case map_of ?d name of None \<Rightarrow> False | Some q \<Rightarrow> sq_source q = HostSource) (host_secrets_of host)"
  obtain res iss where y: "release_all C sha dr t i ?d 0 bs ?host v = (Inr res, v')" and env: "env = add_pairing m ?d (with_bearer res iss)" and
    api: "\<And>x. iss = Some x \<Longrightarrow> (\<exists>q. map_of ?d agent_api_token = Some q \<and> sq_source q = IssuedSource) \<and>
      (\<exists>cr. authenticate sha x c' = Inr (Some cr) \<and> cc_instance_id cr = py_strip i)"
    using resolve_parts [OF r assms(2,3)] by metis
  note rel = release_all_step [OF assms(1) y]
  show "logs C v' = logs C v" using rel by blast
  assume nx: "(n, x) \<in> set env"
  consider (host) "(n, x) \<in> set ?host" | (bound) "bound_value C v t ?d bs (n, x)" | (iss) "n = agent_api_token" "iss = Some x"
    | (pair) token q where "n = telegram_pairing_code" "x = py_tail 8 token" "cm_name m = ''telegram''" "(bot_token, token) \<in> set env"
        "map_of ?d telegram_pairing_code = Some q" "sq_source q = HostSource"
    using add_pairing_mem [of "(n, x)" m ?d "with_bearer res iss"] nx with_bearer_mem rel unfolding env by blast
  then show "\<exists>q. map_of ?d n = Some q \<and> (case sq_source q of
       TenantHandle \<Rightarrow> \<exists>b. (n, b) \<in> set bs \<and> newest C v t b x
     | HostSource \<Rightarrow> (n, x) \<in> set (host_secrets_of host) \<or>
         n = telegram_pairing_code \<and> cm_name m = ''telegram'' \<and> (\<exists>token. (bot_token, token) \<in> set env \<and> x = py_tail 8 token)
     | IssuedSource \<Rightarrow> n = agent_api_token \<and> (\<exists>cr. authenticate sha x c' = Inr (Some cr) \<and> cc_instance_id cr = py_strip i))"
  proof cases
    case bound
    then obtain b q where "(n, b) \<in> set bs" "map_of ?d n = Some q" "sq_source q = TenantHandle" "newest C v t b x" by (auto simp: bound_value_def)
    then show ?thesis by auto
  next
    case iss
    with api obtain q where "map_of ?d n = Some q" "sq_source q = IssuedSource" by blast
    with api [OF iss(2)] iss(1) show ?thesis by auto
  qed (auto split: option.splits)
qed

section \<open>Properties\<close>

text \<open>
  C13: What a worker is started with. Every variable of the environment that is resolved for an accepted
  manifest is a secret the manifest declares, never one that controls the launcher. A tenant secret was
  bound, and its value is the newest one of an active secret at exactly the bound revision: after a
  rotation or a revocation the start fails instead. A host secret is one the host was configured with, with
  one exception: the pairing code of the Telegram capability is the last eight characters of the bot token
  resolved for the worker, which may be a tenant's secret. The only issued value is a
  bearer for the agent's API that authenticates for this instance. Resolving changes no secret.
\<close>

theorem worker_environment_is_declared:
  assumes "cipher_ok C" "v = snd (run_calls (vault_exec C sha) vs empty_vault)" "c = snd (run_calls (cred_exec sha) cs [])"
    and "CapabilityManifest w = Inr m" "map_option AgentRunBinding ab = map_option Inr ab"
    and "resolve_secrets C sha dr (host_secrets_of host) credentials t i m bs ab (v, c) = (Inr env, (v', c'))"
  shows "logs C v' = logs C v \<and> (\<forall>(n, x) \<in> set env. \<exists>q \<in> set (all_secrets m). sq_name q = n \<and> \<not> is_reserved_worker_environment_name n \<and>
    (case sq_source q of
       TenantHandle \<Rightarrow> \<exists>b. (n, b) \<in> set bs \<and> newest C v t b x
     | HostSource \<Rightarrow> (n, x) \<in> set (host_secrets_of host) \<or>
         n = telegram_pairing_code \<and> cm_name m = ''telegram'' \<and> (\<exists>token. (bot_token, token) \<in> set env \<and> x = py_tail 8 token)
     | IssuedSource \<Rightarrow> n = agent_api_token \<and> (\<exists>cr. authenticate sha x c' = Inr (Some cr) \<and> cc_instance_id cr = py_strip i)))"
proof -
  have inv: "vault_inv C v" unfolding assms(2) by (rule reachable_vault [OF assms(1)])
  have cinv: "cred_inv c" unfolding assms(3) by (rule cred_calls.run_start_inv)
  note entry = resolved_entries [OF inv cinv assms(5,6)]
  have declared: "q \<in> set (all_secrets m) \<and> sq_name q = n \<and> \<not> is_reserved_worker_environment_name n" if "map_of (requirements_of m) n = Some q" for n q
    using requirements_mem [OF that] accepted_manifest(1) [OF assms(4), of q] by (auto simp: requirement_fields_def)
  show ?thesis using entry(1) entry(2) declared by fast
qed

section \<open>A concrete start\<close>

definition bot_manifest :: capability_manifest where
  "bot_manifest = example_manifest\<lparr>cm_secrets := [\<lparr>sq_name = bot_token, sq_scopes = [''use''], sq_source = TenantHandle, sq_required = True\<rparr>]\<rparr>"

definition bot_binding :: secret_binding where
  "bot_binding = \<lparr>sb_handle_id = ''s1'', sb_revision = 2, sb_scopes = [''use'']\<rparr>"

definition example_draws :: "nat \<Rightarrow> secret_draws" where
  "example_draws _ = \<lparr>sd_uuid = [], sd_random = \<lambda>_. CHR ''a'', sd_issued_at = At 3, sd_redeemed_at = At 4\<rparr>"

lemma bot_manifest_ok: "CapabilityManifest bot_manifest = Inr bot_manifest"
  by code_simp

lemma bot_requirement: "tenant_requirement (requirements_of bot_manifest) bot_token = Inr \<lparr>sq_name = bot_token, sq_scopes = [''use''], sq_source = TenantHandle, sq_required = True\<rparr>"
  by code_simp

lemma bot_sources: "list_all (\<lambda>q. sq_name q = bot_token \<longrightarrow> sq_source q = TenantHandle) (all_secrets bot_manifest)"
  by code_simp

lemma bot_pairing: "map_of (requirements_of bot_manifest) telegram_pairing_code = None"
  by code_simp

lemma bot_released:
  "\<exists>x v. release_secret plain_cipher (\<lambda>s. s) (example_draws 0) ''t'' ''cap'' (requirements_of bot_manifest) bot_token bot_binding stored_vault = (Inr x, v)"
proof -
  obtain cur where c: "current_row ''t'' ''s1'' stored_vault = Inr cur" "sr_state cur = ActiveSecret" using stored_current by blast
  have rev: "sr_revision cur = 2" using log_current(1) [OF stored_vault_inv c(1)] stored_logs by simp
  note l = current_row_last [OF stored_vault_inv c(1)]
  have h: "active_handle ''t'' ''s1'' stored_vault = Inr (raw_handle cur)"
    using c row_okD(1) [OF l(7)] by (simp add: active_handle_def get_handle_def)
  obtain ig db1 where i: "example_issue stored_vault = (Inr ig, db1)" using example_issue_ok by blast
  have e: "db1 = snd (run_calls (vault_exec plain_cipher (\<lambda>s. s)) [] db1)" by simp
  have same: "logs plain_cipher db1 (''t'', ''s1'') = logs plain_cipher stored_vault (''t'', ''s1'')"
    using issue_step [OF stored_vault_inv i [unfolded example_issue_def]] same_logs [of db1 stored_vault plain_cipher] by auto
  have "''use'' \<in> py_strip ` set [''use'']" by (simp add: py_strip_def py_isspace_def)
  from granted_redeems [OF plain_cipher_ok stored_vault_inv i [unfolded example_issue_def] e _ same _ refl this, of "At 4"]
  obtain m where "fst (redeem_grant plain_cipher (\<lambda>s. s) (At 4) (ig_token ig) ''cap'' ''use'' db1) = Inr m" by auto
  then obtain v where r: "redeem_grant plain_cipher (\<lambda>s. s) (At 4) (ig_token ig) ''cap'' ''use'' db1 = (Inr m, v)" by (metis prod.collapse)
  show ?thesis
    using i h rev r l(5) by (simp add: release_secret_def bot_requirement bot_binding_def example_draws_def example_issue_def)
qed

theorem worker_environment_is_declared_witness:
  "\<exists>s. resolve_secrets plain_cipher (\<lambda>s. s) example_draws (host_secrets_of []) None ''t'' ''cap'' bot_manifest [(bot_token, bot_binding)] None (stored_vault, []) =
    (Inr [(bot_token, ''v'')], s)"
proof -
  obtain x v where r: "release_secret plain_cipher (\<lambda>s. s) (example_draws 0) ''t'' ''cap'' (requirements_of bot_manifest) bot_token bot_binding stored_vault = (Inr x, v)"
    using bot_released by blast
  have res: "resolve_secrets plain_cipher (\<lambda>s. s) example_draws (host_secrets_of []) None ''t'' ''cap'' bot_manifest [(bot_token, bot_binding)] None (stored_vault, []) =
    (Inr [(bot_token, x)], (v, []))"
    using r bot_pairing by (simp add: resolve_secrets_def host_secrets_of_def dict_of_def add_pairing_def)
  have none: "[] = snd (run_calls (cred_exec (\<lambda>s. s)) [] [])" "map_option AgentRunBinding None = map_option Inr None" by simp_all
  have "\<exists>q \<in> set (all_secrets bot_manifest). sq_name q = bot_token \<and> (case sq_source q of TenantHandle \<Rightarrow> \<exists>b. (bot_token, b) \<in> set [(bot_token, bot_binding)] \<and>
      newest plain_cipher stored_vault ''t'' b x | _ \<Rightarrow> True)"
    using worker_environment_is_declared [OF plain_cipher_ok stored_vault_def none(1) bot_manifest_ok none(2) res] by (fastforce split: secret_source.splits)
  then have "newest plain_cipher stored_vault ''t'' bot_binding x" using bot_sources by (auto simp: list_all_iff)
  then have "x = ''v''" using stored_logs by (simp add: newest_def bot_binding_def Let_def)
  with res show ?thesis by blast
qed

end
