(* ===== verification/Spec2Isabelle.thy ===== *)
theory Spec2Isabelle
  imports Idempotency JobService Journal TriggerSchedule Schedules HostConfig SecretService TelegramState NotificationSinks CapabilityLifecycle CapabilitySecrets
begin

text \<open>
  OpenTulpa keeps a personal agent running: a stable host process owns credentials and source
  releases, a replaceable runtime process runs agents, jobs and triggers. What makes it dependable
  is a layer of SQLite stores with leases, compare-and-swap revisions and idempotency keys, and the
  services that drive them. This development models that layer. All paths below are relative to
  \<^verbatim>\<open>src/src/opentulpa\<close>.

  \<^bold>\<open>Conventions\<close> (\<^verbatim>\<open>Prelude.thy\<close>). A table is the list of its rows, a method is a function from the
  database to the exception or value together with the database it leaves, a transaction is one such
  function. Clock readings, drawn identifiers, hashes and everything outside the repository (the
  agent, the network, APScheduler, AES-GCM, the time zone data, the cron parser) are arguments. A store
  that receives calls in any order is \<open>run_calls\<close> over a datatype of calls; the locale \<open>call_system\<close>
  turns an invariant of every call into one of every reachable state and is interpreted for each
  store, the locale \<open>refined_store\<close> adds an abstract specification that every call implements. The
  locale \<open>insert_once\<close> is the contract of creating a row under an idempotency key, the
  locale \<open>revision_rows\<close> (\<^verbatim>\<open>RevisionStore.thy\<close>) the contract of a row class. \<^verbatim>\<open>Codec.thy\<close> holds Base64,
  UTF-8 and random tokens as the Python library has them, \<^verbatim>\<open>JsonText.thy\<close> the text \<open>json.dumps\<close> writes
  and the equality of decoded values. One operation \<open>py_strip\<close> stands for \<open>str.strip\<close> and for the trimming
  of the pydantic models, which does not remove U+001C to U+001F.

  \<^bold>\<open>External effects\<close> (\<^verbatim>\<open>Idempotency.thy\<close>; \<^verbatim>\<open>persistence/idempotency.py\<close>). \<open>IdempotencyStore\<close> and its
  guarded call \<open>execute\<close>. Shown: a key is granted at most once more than its failures allow, settled
  results never change and are replayed, an interrupted effect is not retried.

  \<^bold>\<open>Background jobs\<close> (\<^verbatim>\<open>JobStore.thy\<close>, \<^verbatim>\<open>JobStatus.thy\<close>, \<^verbatim>\<open>JobRegistry.thy\<close>, \<^verbatim>\<open>JobService.thy\<close>;
  \<^verbatim>\<open>jobs/store.py\<close>, \<^verbatim>\<open>jobs/models.py\<close>, \<^verbatim>\<open>jobs/registry.py\<close>, \<^verbatim>\<open>jobs/service.py\<close>). The store with its event log,
  its abstract machine of statuses, bound keys and artifact identifiers, the handler registry, and the
  service as a transition system of asyncio tasks cut at their awaits, with its semaphore as a count of
  free slots and every waiting call of \<open>shutdown\<close> in its state. Shown: the event log determines the row,
  terminal jobs are final, a cancel request wins, recovery settles every job, the store answers every
  sequence of calls as the abstract machine does; the slots of the semaphore are never leaked and bound
  the executing handlers in every run; every open job has one runner as long as no job is created and
  no second shutdown is called while a shutdown waits; a job that is created then, and whose task is
  executing when the shutdown ends, is run a second time beside it.

  \<^bold>\<open>Source activation\<close> (\<^verbatim>\<open>Journal.thy\<close>; \<^verbatim>\<open>host/evolution.py\<close>, class \<open>_ActivationJournal\<close>). Shown: the journal
  stays consistent with one activation in progress, success switches the active release once, an
  outcome is final, recovery goes back exactly once, and a late notification of an earlier activation
  hides a rollback from recovery, which then offers the release the owner rolled back from.

  \<^bold>\<open>Specifications\<close> (\<^verbatim>\<open>SpecModels.thy\<close>, \<^verbatim>\<open>RevisionStore.thy\<close>, \<^verbatim>\<open>SpecStore.thy\<close>, \<^verbatim>\<open>SpecControl.thy\<close>;
  \<^verbatim>\<open>specs/models.py\<close>, \<^verbatim>\<open>specs/protocol.py\<close>, \<^verbatim>\<open>specs/defaults.py\<close>, \<^verbatim>\<open>specs/store.py\<close>, \<^verbatim>\<open>specs/service.py\<close>). The pydantic
  contracts as constructors that normalise and validate, the two revision stores as instances of one
  generic store, the services on top. Shown: revisions are immutable and numbered without gaps, save
  and activation are compare-and-swap, rollback goes back one revision whatever is interleaved, an
  active external trigger reaches only an isolated agent of its tenant, seeding always succeeds.

  \<^bold>\<open>Triggers\<close> (\<^verbatim>\<open>TriggerSnapshot.thy\<close>, \<^verbatim>\<open>TriggerExecution.thy\<close>, \<^verbatim>\<open>TriggerDispatcher.thy\<close>, \<^verbatim>\<open>TriggerSchedule.thy\<close>;
  \<^verbatim>\<open>specs/dispatcher.py\<close>, and \<open>AgentRunSnapshot\<close> of \<^verbatim>\<open>deep_agent/contracts.py\<close>). The execution table with its
  leases and the delivery outbox, the snapshot codec, the dispatch of events, the scheduled runs, the
  drain loop and the disabling of one-off triggers. The run of a fire is cut at the await of the agent
  (\<open>execute_claim\<close>, \<open>execute_finish\<close>), where any calls of other workers may come in between. Shown: a fire
  settles and its result is marked delivered at most once under any interleaving, stale workers are
  fenced, a queued result is never lost, the snapshot survives storage, the agent is called only under a
  claim of the fire and never again after a recorded result, a fired one-off trigger is disabled when
  its active revision is the latest. The drain loop is recursion on a number of rounds; the number of undelivered results
  plus one is proved to be enough, because a round that goes on has delivered something. This holds
  for a worker alone with its store: one drain is not interleaved with other workers, whose calls are
  those of the store. The flag \<open>_started\<close> of the dispatcher is not modelled.

  \<^bold>\<open>Schedules\<close> (\<^verbatim>\<open>Schedules.thy\<close>; \<^verbatim>\<open>schedules/models.py\<close>, \<^verbatim>\<open>schedules/service.py\<close>, and \<open>resolve_agent_spec\<close> of
  \<^verbatim>\<open>__main__.py\<close>). The owner's reminders and recurring jobs, a facade that keeps each as revisions of one
  trigger. Its calls run interleaved with calls of other clients of the specifications; a save is also cut
  after its first transaction. Shown: what was saved is read back, an edit is a compare-and-swap that keeps
  the creation time, and a revision that was stored and not activated blocks its schedule for good.

  \<^bold>\<open>Host configuration\<close> (\<^verbatim>\<open>HostConfig.thy\<close>; \<^verbatim>\<open>host/store.py\<close>, \<^verbatim>\<open>host/models.py\<close>, \<^verbatim>\<open>secrets/cipher.py\<close>, and
  \<open>_apply\<close> of \<^verbatim>\<open>host/service.py\<close>). Ownership tokens and the encrypted, revisioned configuration. Shown: at
  most one configuration is active and every one is readable, what was staged reads back, a failed
  activation never replaces the active configuration, the host has one owner for good.

  \<^bold>\<open>Secrets\<close> (\<^verbatim>\<open>Ids.thy\<close>, \<^verbatim>\<open>SecretVault.thy\<close>, \<^verbatim>\<open>SecretService.thy\<close>; \<^verbatim>\<open>core/ids.py\<close>, \<^verbatim>\<open>secrets/vault.py\<close>,
  \<^verbatim>\<open>secrets/models.py\<close>, \<^verbatim>\<open>secrets/service.py\<close>). The encrypted vault with its revisions and one-time grants,
  redaction, and the service that resolves secrets for the sandbox and the runtime environment. The
  abstract specification is a history per secret; every operation refines one step on it. Shown:
  storing and revoking are compare-and-swap appends, a grant is redeemed at most once and only for the
  newest value of an active secret by the right capability, what was granted is released, every value
  a tenant's secrets have or had is redacted, but for the keys of mappings and for values that can be
  confused with the marker.

  \<^bold>\<open>Telegram worker state\<close> (\<^verbatim>\<open>TelegramState.thy\<close>; \<^verbatim>\<open>capability_workers/state.py\<close>). The state in memory, the file,
  and writes that may fail before or after the replacement of the file; a restart is a step of its own.
  The locale \<open>durable_fact\<close> is the contract of a fact that memory and file share; it is interpreted for
  accepted updates, recognized events and the pairing. Shown: these three survive failed writes and
  restarts, and a concrete state that is written but cannot be read.

  \<^bold>\<open>Owner notifications\<close> (\<^verbatim>\<open>Notifications.thy\<close>, \<^verbatim>\<open>NotificationSinks.thy\<close>; \<^verbatim>\<open>notifications/models.py\<close>,
  \<^verbatim>\<open>notifications/store.py\<close>, \<^verbatim>\<open>notifications/service.py\<close>, \<^verbatim>\<open>notifications/sinks.py\<close>). The stream an owner's
  interfaces read, and the sink that is the delivery callback of the trigger dispatcher. Shown: a
  notification is published once and never changes, reading by pages equals the plain list of
  unacknowledged notifications, the polling wait ends, a trigger result becomes one notification however
  often it is delivered, and a result that is too long is refused at every delivery, so that the drain
  loop goes on without end. The wait loop recurses on a
  number of rounds; one more than the poll intervals in thirty seconds is proved to be enough.

  \<^bold>\<open>Capabilities\<close> (\<^verbatim>\<open>CapabilityModels.thy\<close>, \<^verbatim>\<open>CapabilityStore.thy\<close>, \<^verbatim>\<open>CapabilityLifecycle.thy\<close>;
  \<^verbatim>\<open>capabilities/models.py\<close>, \<^verbatim>\<open>capabilities/revisions.py\<close>). The contracts of capability manifests and of their
  workers, and the store of their revisions, activations and test attestations. The abstract specification
  is an append-only archive with one lifecycle pointer per capability; the locale \<open>refined_store\<close> of the
  prelude carries an invariant of the specification to every reachable database. Shown: the store answers
  as its specification, activation is an exclusive and repeatable compare-and-swap, a stopped generation
  never returns, what is visible is archived under its digest, an accepted manifest confines the
  credential of the agent's API to reviewed interface workers.

  \<^bold>\<open>Capability credentials and secrets\<close> (\<^verbatim>\<open>CapabilityCredentials.thy\<close>, \<^verbatim>\<open>CapabilitySecrets.thy\<close>;
  \<^verbatim>\<open>capabilities/credentials.py\<close>, \<^verbatim>\<open>secrets/capability_resolver.py\<close>). The bearers with which workers call the
  agent's API, and the environment a worker is started with, which composes the vault, the bearers and the
  manifests. Shown: a bearer authenticates as what was issued until it is replaced or revoked and never
  afterwards, it is confined to the API scopes its reviewed binding allows, every variable a worker receives
  is declared and has the current value of its source, and a secret that changed after it was bound stops
  the start.

  \<^bold>\<open>Bounds and fuel\<close>. Integers of the program are Python's and are \<open>int\<close> or \<open>nat\<close>. Strings range over
  code points 0..255. Instants are whole numbers in the order of their ISO text; where a number of
  seconds matters (leases, schedules) the unit is the second. Apart from the drain loop and the wait
  loop every definition is structurally recursive or not recursive.

  \<^bold>\<open>Not modelled\<close>. Of the parts above: schema upgrades of old databases, the import of legacy routines, the registration of triggers
  with APScheduler, the asynchronous driver around the activation journal, the HTTP calls of the host
  service, the notification sinks for evolution and bootstrap events, and the shape checks on state files
  that the worker did not write; the validation of rows when they are read back as jobs; nonces of a
  wrong length. Equality of decoded JSON compares floats from 1e16 on by their texts. Not at all: the agent loop and its tools (\<^verbatim>\<open>deep_agent\<close>, \<^verbatim>\<open>application\<close>,
  \<^verbatim>\<open>tooling\<close>), process supervision (\<^verbatim>\<open>host/runtime.py\<close>, \<^verbatim>\<open>sandbox\<close>), the HTTP surface (\<^verbatim>\<open>api\<close>, \<^verbatim>\<open>client\<close>,
  \<^verbatim>\<open>mcp\<close>, \<^verbatim>\<open>integrations\<close>), whose behaviour is that of the services they call. Still open and suited to
  the same treatment: the source evolution service around the journal, the capability service, inference
  bindings, the Telegram worker's loop, the intake store.
\<close>

end
